(* ===== verification/Okm_Prelude.thy ===== *)
theory Okm_Prelude
  imports Main "HOL-Library.Word" "HOL-Library.Multiset"
begin

text \<open>
  What every theory of the development shares: the C library's error numbers and flag
  values (musl/arch/generic/bits/errno.h, musl/arch/generic/bits/fcntl.h,
  musl/include/fcntl.h), C strings read up to their terminator, the upward scan that the
  port's fixed tables are searched with, and the lemmas about them.

  A C function that returns 0 or a negated error value and writes its answer through a
  pointer is modelled by a value of \<open>int + 'a\<close>: \<open>Inl e\<close> is the (negated, non-zero)
  return value, \<open>Inr x\<close> the answer.
\<close>

unbundle bit_operations_syntax

section \<open>Collections of facts\<close>

named_theorems okm_simps \<open>the defining equations a proof about the port unfolds\<close>
named_theorems okm_inv \<open>preservation of the invariants\<close>
named_theorems okm_frame \<open>what an operation leaves alone\<close>

section \<open>Machine words, flags and error numbers\<close>

type_synonym kal_uintptr = "64 word"
type_synonym flagword = "32 word"
type_synonym byte = "8 word"

abbreviation (input) EPERM :: int where "EPERM \<equiv> 1"
abbreviation (input) ENOENT :: int where "ENOENT \<equiv> 2"
abbreviation (input) ESRCH :: int where "ESRCH \<equiv> 3"
abbreviation (input) EIO :: int where "EIO \<equiv> 5"
abbreviation (input) ENXIO :: int where "ENXIO \<equiv> 6"
abbreviation (input) ENOEXEC :: int where "ENOEXEC \<equiv> 8"
abbreviation (input) EBADF :: int where "EBADF \<equiv> 9"
abbreviation (input) ECHILD :: int where "ECHILD \<equiv> 10"
abbreviation (input) EAGAIN :: int where "EAGAIN \<equiv> 11"
abbreviation (input) ENOMEM :: int where "ENOMEM \<equiv> 12"
abbreviation (input) EACCES :: int where "EACCES \<equiv> 13"
abbreviation (input) EFAULT :: int where "EFAULT \<equiv> 14"
abbreviation (input) EEXIST :: int where "EEXIST \<equiv> 17"
abbreviation (input) ENODEV :: int where "ENODEV \<equiv> 19"
abbreviation (input) ENOTDIR :: int where "ENOTDIR \<equiv> 20"
abbreviation (input) EISDIR :: int where "EISDIR \<equiv> 21"
abbreviation (input) EINVAL :: int where "EINVAL \<equiv> 22"
abbreviation (input) ENFILE :: int where "ENFILE \<equiv> 23"
abbreviation (input) EMFILE :: int where "EMFILE \<equiv> 24"
abbreviation (input) ENOSPC :: int where "ENOSPC \<equiv> 28"
abbreviation (input) ESPIPE :: int where "ESPIPE \<equiv> 29"
abbreviation (input) EPIPE :: int where "EPIPE \<equiv> 32"
abbreviation (input) ENAMETOOLONG :: int where "ENAMETOOLONG \<equiv> 36"
abbreviation (input) ENOSYS :: int where "ENOSYS \<equiv> 38"
abbreviation (input) ENOTEMPTY :: int where "ENOTEMPTY \<equiv> 39"
abbreviation (input) ELOOP :: int where "ELOOP \<equiv> 40"
abbreviation (input) ENOTSOCK :: int where "ENOTSOCK \<equiv> 88"
abbreviation (input) EDESTADDRREQ :: int where "EDESTADDRREQ \<equiv> 89"
abbreviation (input) ENOPROTOOPT :: int where "ENOPROTOOPT \<equiv> 92"
abbreviation (input) ESOCKTNOSUPPORT :: int where "ESOCKTNOSUPPORT \<equiv> 94"
abbreviation (input) EOPNOTSUPP :: int where "EOPNOTSUPP \<equiv> 95"
abbreviation (input) ENOTSUP :: int where "ENOTSUP \<equiv> 95"
abbreviation (input) EAFNOSUPPORT :: int where "EAFNOSUPPORT \<equiv> 97"
abbreviation (input) EISCONN :: int where "EISCONN \<equiv> 106"
abbreviation (input) ENOTCONN :: int where "ENOTCONN \<equiv> 107"

abbreviation (input) O_ACCMODE :: flagword where "O_ACCMODE \<equiv> 0x200003"
abbreviation (input) O_RDONLY :: flagword where "O_RDONLY \<equiv> 0"
abbreviation (input) O_WRONLY :: flagword where "O_WRONLY \<equiv> 1"
abbreviation (input) O_RDWR :: flagword where "O_RDWR \<equiv> 2"
abbreviation (input) O_CREAT :: flagword where "O_CREAT \<equiv> 0x40"
abbreviation (input) O_EXCL :: flagword where "O_EXCL \<equiv> 0x80"
abbreviation (input) O_TRUNC :: flagword where "O_TRUNC \<equiv> 0x200"
abbreviation (input) O_APPEND :: flagword where "O_APPEND \<equiv> 0x400"
abbreviation (input) O_NONBLOCK :: flagword where "O_NONBLOCK \<equiv> 0x800"
abbreviation (input) O_CLOEXEC :: flagword where "O_CLOEXEC \<equiv> 0x80000"

abbreviation (input) AT_FDCWD :: int where "AT_FDCWD \<equiv> -100"

text \<open>\<open>flags & bit\<close> as a C condition.\<close>

definition has :: "flagword \<Rightarrow> flagword \<Rightarrow> bool" where
  "has flags b \<longleftrightarrow> flags AND b \<noteq> 0"

section \<open>C strings\<close>

text \<open>
  A C string is the list of the characters before its terminator; reading at the length
  reads the terminator.
\<close>

abbreviation (input) NUL :: char where "NUL \<equiv> CHR 0x00"
abbreviation (input) SEP :: char where "SEP \<equiv> CHR ''/''"
abbreviation (input) BSEP :: char where "BSEP \<equiv> CHR 0x5C"

definition cat :: "string \<Rightarrow> nat \<Rightarrow> char" where
  "cat s i = (if i < length s then s ! i else NUL)"

lemma cat_simps [simp]:
  "cat [] i = NUL" "cat (c # s) 0 = c" "cat (c # s) (Suc i) = cat s i"
  "cat (c # s) (numeral k) = cat s (pred_numeral k)"
  by (auto simp: cat_def numeral_eq_Suc)

lemma cat_append: "i < length s \<Longrightarrow> cat (s @ t) i = cat s i"
  by (simp add: cat_def nth_append)

lemma cat_length [simp]: "cat s (length s) = NUL"
  by (simp add: cat_def)

text \<open>A string as a program holds it: no character is the terminator.\<close>

definition cstring :: "string \<Rightarrow> bool" where
  "cstring s \<longleftrightarrow> NUL \<notin> set s"

lemma cstring_simps [simp]:
  "cstring []" "cstring (c # s) \<longleftrightarrow> c \<noteq> NUL \<and> cstring s"
  "cstring (s @ t) \<longleftrightarrow> cstring s \<and> cstring t"
  by (auto simp: cstring_def)

section \<open>The upward scan\<close>

text \<open>
  \<open>for (int i = from; i < n; i++) if (P(i)) return i;\<close>, the search of every fixed table.
\<close>

function scan_up :: "(nat \<Rightarrow> bool) \<Rightarrow> nat \<Rightarrow> nat \<Rightarrow> nat option" where
  "scan_up P i n = (if i < n then (if P i then Some i else scan_up P (Suc i) n) else None)"
  by pat_completeness auto
termination
  by (relation "measure (\<lambda>(P, i, n). n - i)") auto

declare scan_up.simps [simp del]

lemma scan_up_Some:
  "scan_up P i n = Some k \<longleftrightarrow> i \<le> k \<and> k < n \<and> P k \<and> (\<forall>j. i \<le> j \<and> j < k \<longrightarrow> \<not> P j)"
proof (induction P i n rule: scan_up.induct)
  case (1 P i n)
  show ?case
  proof (cases "i < n \<and> \<not> P i")
    case True
    with "1.IH" show ?thesis
      by (auto simp: scan_up.simps [of P i n] Suc_le_eq less_le)
  next
    case False
    then show ?thesis
      by (auto simp: scan_up.simps [of P i n] intro: order.antisym leI)
  qed
qed

lemma scan_up_None: "scan_up P i n = None \<longleftrightarrow> (\<forall>j. i \<le> j \<and> j < n \<longrightarrow> \<not> P j)"
proof (induction P i n rule: scan_up.induct)
  case (1 P i n)
  then show ?case
    by (subst scan_up.simps) (auto simp: Suc_le_eq less_le)
qed

lemma scan_upD:
  assumes "scan_up P i n = Some k"
  shows "i \<le> k" "k < n" "P k" "\<And>j. i \<le> j \<Longrightarrow> j < k \<Longrightarrow> \<not> P j"
  using assms by (auto simp: scan_up_Some)

lemma scan_up_cong_upto:
  assumes "\<And>j. i \<le> j \<Longrightarrow> j < n \<Longrightarrow> P j = Q j"
  shows "scan_up P i n = scan_up Q i n"
  using assms
proof (induction P i n rule: scan_up.induct)
  case (1 P i n)
  then show ?case
    by (subst (1 2) scan_up.simps) simp
qed

section \<open>Results\<close>

lemma map_sum_id_iff:
  "map_sum id f x = Inr y \<longleftrightarrow> (\<exists>z. x = Inr z \<and> y = f z)"
  "map_sum id f x = Inl e \<longleftrightarrow> x = Inl e"
  by (cases x; auto)+

section \<open>Removal by moving the last element down\<close>

text \<open>\<open>a[i] = a[--n]\<close>, the removal of every unordered table of the port.\<close>

lemma butlast_swap:
  "i < length xs \<Longrightarrow> butlast (xs[i := last xs]) =
     (if i = length xs - 1 then butlast xs else (butlast xs)[i := last xs])"
  by (simp add: butlast_list_update)

lemma mset_swap_remove:
  assumes "i < length xs"
  shows "mset (butlast (xs[i := last xs])) = mset xs - {# xs ! i #}"
proof -
  have ne: "xs \<noteq> []" using assms by auto
  then have xs: "mset xs = add_mset (last xs) (mset (butlast xs))"
    by (metis append_butlast_last_id mset.simps union_code union_mset_add_mset_right mset_append add.right_neutral)
  show ?thesis
  proof (cases "i = length xs - 1")
    case True
    then show ?thesis using assms ne xs by (simp add: butlast_swap last_conv_nth)
  next
    case False
    with assms have i: "i < length (butlast xs)" by simp
    then have nth: "butlast xs ! i = xs ! i" by (simp add: nth_butlast)
    with i obtain M where "mset (butlast xs) = add_mset (xs ! i) M"
      by (metis multi_member_split nth_mem set_mset_mset)
    with False assms i xs nth show ?thesis
      by (simp add: butlast_swap mset_update)
  qed
qed

section \<open>Invariants of a step relation\<close>

text \<open>The contract between a component's step relation and its invariant: the beginning satisfies
  it and every step keeps it. What every reachable state satisfies follows once for all of them.\<close>

locale invariant_system =
  fixes init :: "'s \<Rightarrow> bool"
    and step :: "'s \<Rightarrow> 's \<Rightarrow> bool"
    and inv :: "'s \<Rightarrow> bool"
  assumes init_inv: "init s \<Longrightarrow> inv s"
    and step_inv: "step s t \<Longrightarrow> inv s \<Longrightarrow> inv t"
begin

lemma steps_inv: "step\<^sup>*\<^sup>* s t \<Longrightarrow> inv s \<Longrightarrow> inv t"
  by (induction rule: rtranclp_induct) (auto intro: step_inv)

lemma reachable_inv: "init s \<Longrightarrow> step\<^sup>*\<^sup>* s t \<Longrightarrow> inv t"
  by (rule steps_inv [OF _ init_inv])

end

section \<open>Tables of address ranges\<close>

text \<open>What the record of the memory regions (okm_region.c) and that of the file mappings (okm_map.c)
  promise their clients: the entry found for an address is the one whose addresses hold it, an entry
  added is found and the others still are, an entry removed is not.\<close>

locale range_table =
  fixes inv :: "'t \<Rightarrow> bool"
    and ranges :: "'t \<Rightarrow> 'r set"
    and span :: "'r \<Rightarrow> 64 word set"
    and fits :: "'r \<Rightarrow> 't \<Rightarrow> bool"
    and lookup :: "'t \<Rightarrow> 64 word \<Rightarrow> 'r option"
    and add :: "'r \<Rightarrow> 't \<Rightarrow> 't"
    and del :: "'r \<Rightarrow> 't \<Rightarrow> 't"
  assumes lookup_iff: "inv t \<Longrightarrow> lookup t a = Some r \<longleftrightarrow> r \<in> ranges t \<and> a \<in> span r"
    and add_ranges: "inv t \<Longrightarrow> fits r t \<Longrightarrow> ranges (add r t) = insert r (ranges t)"
    and add_inv: "inv t \<Longrightarrow> fits r t \<Longrightarrow> inv (add r t)"
    and del_ranges: "inv t \<Longrightarrow> r \<in> ranges t \<Longrightarrow> ranges (del r t) = ranges t - {r}"
    and del_inv: "inv t \<Longrightarrow> r \<in> ranges t \<Longrightarrow> inv (del r t)"
    and fits_fresh: "inv t \<Longrightarrow> fits r t \<Longrightarrow> r \<notin> ranges t"
begin

lemma lookup_None: "inv t \<Longrightarrow> lookup t a = None \<longleftrightarrow> (\<forall>r \<in> ranges t. a \<notin> span r)"
  by (metis lookup_iff not_Some_eq)

lemma lookup_cong: "inv t \<Longrightarrow> inv u \<Longrightarrow> ranges t = ranges u \<Longrightarrow> lookup t a = lookup u a"
  by (metis lookup_iff not_Some_eq)

lemma lookup_add:
  assumes "inv t" "fits r t"
  shows "lookup (add r t) a = (if a \<in> span r then Some r else lookup t a)"
proof (cases "a \<in> span r")
  case True
  with assms show ?thesis by (simp add: lookup_iff add_inv add_ranges)
next
  case False
  have "lookup (add r t) a = Some q \<longleftrightarrow> lookup t a = Some q" for q
    using assms False by (auto simp: lookup_iff add_inv add_ranges)
  with False show ?thesis by (metis not_Some_eq)
qed

lemma add_del:
  assumes "inv t" "fits r t"
  shows "ranges (del r (add r t)) = ranges t" "lookup (del r (add r t)) a = lookup t a"
proof -
  show eq: "ranges (del r (add r t)) = ranges t"
    using assms fits_fresh by (simp add: del_ranges add_inv add_ranges)
  show "lookup (del r (add r t)) a = lookup t a"
    using assms eq by (intro lookup_cong) (simp_all add: del_inv add_inv add_ranges)
qed

end

end
