(* ===== verification/Okm_Mutex.thy ===== *)
theory Okm_Mutex
  imports Okm_Prelude
begin

text \<open>
  The lock of the tables (\<open>okm_mutex_lock\<close>, \<open>okm_mutex_unlock\<close>, port/src/okm_fd.c): one word, 0 when
  free, 1 when held, 2 when held and waited for. Each context runs the code of the two functions
  one atomic access of the word at a time, and the contexts interleave in any order: \<open>lock_step\<close> and
  \<open>unlock_step\<close> are what one access does to the word and to the context's place in the code,
  \<open>mutex_step\<close> is one step of one context.

  \<open>okm_task_wait(word, 2)\<close> sleeps if the word is 2 when it looks, and returns at once otherwise; it
  may also return for no reason, or because the implementation has no second context
  (\<open>kal_err_not_supported\<close>, after which the code yields). \<open>okm_task_wake(word, 1)\<close> wakes one sleeper,
  if there is one.
\<close>

section \<open>The code\<close>

text \<open>Where a context is: outside, before the first exchange, at the \<open>i\<close>th look of the spin (the
  load, then the exchange), before the unconditional exchange, before the wait, asleep in it, inside
  the lock, and between the exchange that released it and the wake.\<close>

datatype mutex_pc = M_out | M_try | M_spin nat | M_spin_cas nat | M_xchg | M_wait | M_asleep
  | M_held | M_waking

fun lock_step :: "32 word \<Rightarrow> mutex_pc \<Rightarrow> 32 word \<times> mutex_pc" where
  "lock_step w M_try = (if w = 0 then (1, M_held) else (w, M_spin 0))"
| "lock_step w (M_spin i) =
     (if i < 64 then (if w = 0 then (w, M_spin_cas i) else (w, M_spin (Suc i))) else (w, M_xchg))"
| "lock_step w (M_spin_cas i) = (if w = 0 then (1, M_held) else (w, M_spin (Suc i)))"
| "lock_step w M_xchg = (2, if w = 0 then M_held else M_wait)"
| "lock_step w M_wait = (w, if w = 2 then M_asleep else M_xchg)"
| "lock_step w p = (w, p)"

fun unlock_step :: "32 word \<Rightarrow> mutex_pc \<Rightarrow> 32 word \<times> mutex_pc" where
  "unlock_step w M_held = (0, if w = 2 then M_waking else M_out)"
| "unlock_step w p = (w, p)"

record 't mutex =
  m_word :: "32 word"
  m_pc :: "'t \<Rightarrow> mutex_pc"

definition in_lock :: "mutex_pc \<Rightarrow> bool" where
  "in_lock p \<longleftrightarrow> p = M_try \<or> p = M_xchg \<or> p = M_wait \<or> (\<exists>i. p = M_spin i \<or> p = M_spin_cas i)"

inductive mutex_step :: "'t mutex \<Rightarrow> 't mutex \<Rightarrow> bool" where
  enter: "m_pc s t = M_out \<Longrightarrow> mutex_step s (s\<lparr>m_pc := (m_pc s)(t := M_try)\<rparr>)"
| lock: "in_lock (m_pc s t) \<Longrightarrow> lock_step (m_word s) (m_pc s t) = (w, p) \<Longrightarrow>
    mutex_step s (s\<lparr>m_word := w, m_pc := (m_pc s)(t := p)\<rparr>)"
| wait_returns: "m_pc s t \<in> {M_wait, M_asleep} \<Longrightarrow> mutex_step s (s\<lparr>m_pc := (m_pc s)(t := M_xchg)\<rparr>)"
| unlock: "m_pc s t = M_held \<Longrightarrow> unlock_step (m_word s) (m_pc s t) = (w, p) \<Longrightarrow>
    mutex_step s (s\<lparr>m_word := w, m_pc := (m_pc s)(t := p)\<rparr>)"
| wake_one: "m_pc s t = M_waking \<Longrightarrow> m_pc s u = M_asleep \<Longrightarrow>
    mutex_step s (s\<lparr>m_pc := (m_pc s)(u := M_xchg, t := M_out)\<rparr>)"
| wake_none: "m_pc s t = M_waking \<Longrightarrow> \<forall>u. m_pc s u \<noteq> M_asleep \<Longrightarrow>
    mutex_step s (s\<lparr>m_pc := (m_pc s)(t := M_out)\<rparr>)"

inductive_cases mutex_stepE: "mutex_step s s'"

definition mutex_init :: "'t mutex \<Rightarrow> bool" where
  "mutex_init s \<longleftrightarrow> m_word s = 0 \<and> m_pc s = (\<lambda>_. M_out)"

section \<open>Exclusion, and no wake-up is lost\<close>

text \<open>The word is free exactly when nobody is inside, at most one context is inside, and while a
  context sleeps the word says so or a context is on its way to make it say so, or to wake it.\<close>

definition holders :: "'t mutex \<Rightarrow> 't set" where
  "holders s = {t. m_pc s t = M_held}"

definition exclusive :: "32 word \<Rightarrow> 't set \<Rightarrow> bool" where
  "exclusive w H \<longleftrightarrow> w \<in> {0, 1, 2} \<and> (w = 0 \<longleftrightarrow> H = {}) \<and> (\<forall>t u. t \<in> H \<longrightarrow> u \<in> H \<longrightarrow> t = u)"

definition sleepers_known :: "32 word \<Rightarrow> ('t \<Rightarrow> mutex_pc) \<Rightarrow> bool" where
  "sleepers_known w pc \<longleftrightarrow>
     ((\<exists>t. pc t = M_asleep) \<longrightarrow> w = 2 \<or> (\<exists>t. pc t \<in> {M_waking, M_xchg}))"

definition mutex_inv :: "'t mutex \<Rightarrow> bool" where
  "mutex_inv s \<longleftrightarrow> exclusive (m_word s) (holders s) \<and> sleepers_known (m_word s) (m_pc s)"

lemma in_lock_simps [simp]:
  "in_lock M_try" "in_lock (M_spin i)" "in_lock (M_spin_cas i)" "in_lock M_xchg" "in_lock M_wait"
  "\<not> in_lock M_out" "\<not> in_lock M_held" "\<not> in_lock M_asleep" "\<not> in_lock M_waking"
  by (simp_all add: in_lock_def)

lemma sleepers_known_upd:
  assumes "sleepers_known w pc" "p = M_asleep \<Longrightarrow> w = 2"
    and "pc t \<in> {M_waking, M_xchg} \<Longrightarrow> p \<in> {M_waking, M_xchg} \<or> w = 2 \<or> (\<forall>u. pc u \<noteq> M_asleep)"
  shows "sleepers_known w (pc(t := p))"
  unfolding sleepers_known_def
proof (intro impI)
  assume a: "\<exists>u. (pc(t := p)) u = M_asleep"
  show "w = 2 \<or> (\<exists>u. (pc(t := p)) u \<in> {M_waking, M_xchg})"
  proof (cases "p = M_asleep \<or> w = 2")
    case False
    then obtain u where u: "pc u = M_asleep" "u \<noteq> t" using a by (auto split: if_splits)
    then obtain v where v: "pc v \<in> {M_waking, M_xchg}"
      using assms(1) False by (auto simp: sleepers_known_def)
    show ?thesis
    proof (cases "v = t")
      case True
      then have "p \<in> {M_waking, M_xchg}" using assms(3) v u False by blast
      then show ?thesis by (intro disjI2 exI [of _ t]) simp
    next
      case False
      with v show ?thesis by (intro disjI2 exI [of _ v]) simp
    qed
  qed (use assms(2) in auto)
qed

text \<open>A step that neither takes nor releases the lock.\<close>

lemma mutex_inv_step_other:
  assumes "mutex_inv s" "m_pc s t \<noteq> M_held" "p \<noteq> M_held" "w = m_word s"
    and "p = M_asleep \<Longrightarrow> w = 2"
    and "m_pc s t \<in> {M_waking, M_xchg} \<Longrightarrow> p \<in> {M_waking, M_xchg} \<or> w = 2 \<or> (\<forall>u. m_pc s u \<noteq> M_asleep)"
  shows "mutex_inv (s\<lparr>m_word := w, m_pc := (m_pc s)(t := p)\<rparr>)"
proof -
  have "holders (s\<lparr>m_word := w, m_pc := (m_pc s)(t := p)\<rparr>) = holders s"
    using assms(2,3) by (auto simp: holders_def)
  then show ?thesis
    using assms sleepers_known_upd [of "m_word s" "m_pc s" p t] by (simp add: mutex_inv_def)
qed

lemma mutex_inv_acquire:
  assumes "mutex_inv s" "m_word s = 0" "w = 1 \<and> m_pc s t \<noteq> M_xchg \<or> w = 2" "m_pc s t \<noteq> M_waking"
  shows "mutex_inv (s\<lparr>m_word := w, m_pc := (m_pc s)(t := M_held)\<rparr>)"
proof -
  have "holders s = {}" using assms(1,2) by (simp add: mutex_inv_def exclusive_def)
  then have h: "holders (s\<lparr>m_word := w, m_pc := (m_pc s)(t := M_held)\<rparr>) = {t}"
    by (auto simp: holders_def)
  have "sleepers_known w (m_pc s)"
    using assms(1-3) by (auto simp: mutex_inv_def sleepers_known_def)
  then have "sleepers_known w ((m_pc s)(t := M_held))"
    by (rule sleepers_known_upd) (use assms(3,4) in auto)
  then show ?thesis using assms(3) unfolding mutex_inv_def h exclusive_def by auto
qed

lemma mutex_inv_mark:
  assumes "mutex_inv s" "m_word s \<noteq> 0" "m_pc s t = M_xchg"
  shows "mutex_inv (s\<lparr>m_word := 2, m_pc := (m_pc s)(t := M_wait)\<rparr>)"
proof -
  have h: "holders (s\<lparr>m_word := 2, m_pc := (m_pc s)(t := M_wait)\<rparr>) = holders s"
    using assms(3) by (auto simp: holders_def)
  have "exclusive 2 (holders s)" using assms(1,2) by (auto simp: mutex_inv_def exclusive_def)
  then show ?thesis unfolding mutex_inv_def h by (simp add: sleepers_known_def)
qed

lemma mutex_inv_release:
  assumes "mutex_inv s" "m_pc s t = M_held"
  shows "mutex_inv (s\<lparr>m_word := 0, m_pc := (m_pc s)(t := if m_word s = 2 then M_waking else M_out)\<rparr>)"
proof -
  let ?p = "if m_word s = 2 then M_waking else M_out"
  have "holders s = {t}"
    using assms by (auto simp: mutex_inv_def exclusive_def holders_def)
  then have h: "holders (s\<lparr>m_word := 0, m_pc := (m_pc s)(t := ?p)\<rparr>) = {}"
    by (auto simp: holders_def)
  have "sleepers_known 0 ((m_pc s)(t := ?p))"
  proof (cases "m_word s = 2")
    case True
    then show ?thesis unfolding sleepers_known_def by auto
  next
    case False
    then have "sleepers_known 0 (m_pc s)" using assms(1) by (simp add: mutex_inv_def sleepers_known_def)
    then show ?thesis by (rule sleepers_known_upd) (use assms(2) False in auto)
  qed
  then show ?thesis unfolding mutex_inv_def h by (simp add: exclusive_def)
qed

lemma mutex_lock_inv:
  assumes "mutex_inv s" "in_lock (m_pc s t)" "lock_step (m_word s) (m_pc s t) = (w, p)"
  shows "mutex_inv (s\<lparr>m_word := w, m_pc := (m_pc s)(t := p)\<rparr>)"
proof (cases "m_pc s t")
  case M_try
  with assms show ?thesis by (auto split: if_splits intro!: mutex_inv_acquire mutex_inv_step_other)
next
  case (M_spin i)
  with assms show ?thesis by (auto split: if_splits intro!: mutex_inv_step_other)
next
  case (M_spin_cas i)
  with assms show ?thesis by (auto split: if_splits intro!: mutex_inv_acquire mutex_inv_step_other)
next
  case M_xchg
  with assms show ?thesis by (auto split: if_splits intro!: mutex_inv_acquire mutex_inv_mark)
next
  case M_wait
  with assms show ?thesis by (auto split: if_splits intro!: mutex_inv_step_other)
qed (use assms in simp_all)

lemma mutex_step_inv: "mutex_step s s' \<Longrightarrow> mutex_inv s \<Longrightarrow> mutex_inv s'"
proof (induction rule: mutex_step.induct)
  case (enter s t)
  then show ?case using mutex_inv_step_other [of s t M_try "m_word s"] by simp
next
  case (lock s t w p)
  then show ?case by (intro mutex_lock_inv)
next
  case (wait_returns s t)
  then show ?case using mutex_inv_step_other [of s t M_xchg "m_word s"] by auto
next
  case (unlock s t w p)
  then show ?case using mutex_inv_release [of s t] by auto
next
  case (wake_one s t u)
  have h: "holders (s\<lparr>m_pc := (m_pc s)(u := M_xchg, t := M_out)\<rparr>) = holders s"
    using wake_one by (auto simp: holders_def)
  have "u \<noteq> t" using wake_one by auto
  then have "sleepers_known (m_word s) ((m_pc s)(u := M_xchg, t := M_out))"
    unfolding sleepers_known_def by (intro impI disjI2 exI [of _ u]) simp
  then show ?case using wake_one.prems h by (simp add: mutex_inv_def)
next
  case (wake_none s t)
  then show ?case using mutex_inv_step_other [of s t M_out "m_word s"] by auto
qed

interpretation mx: invariant_system mutex_init mutex_step mutex_inv
proof
  show "mutex_init s \<Longrightarrow> mutex_inv s" for s :: "'a mutex"
    by (auto simp: mutex_init_def mutex_inv_def holders_def exclusive_def sleepers_known_def)
qed (rule mutex_step_inv)

text \<open>C11: Mutual exclusion. However the contexts interleave, at most one is between a return of
  \<open>okm_mutex_lock\<close> and the exchange of its \<open>okm_mutex_unlock\<close>, and the word is 0 exactly when none is.\<close>

theorem mutex_exclusion:
  assumes "mutex_init s" and "mutex_step\<^sup>*\<^sup>* s s'"
  shows "(\<forall>t u. m_pc s' t = M_held \<and> m_pc s' u = M_held \<longrightarrow> t = u)
    \<and> (m_word s' = 0) = (\<forall>t. m_pc s' t \<noteq> M_held)"
  using mx.reachable_inv [OF assms] by (auto simp: mutex_inv_def holders_def exclusive_def sleepers_known_def)

text \<open>C6: No wake-up is lost. Whenever a context sleeps in the lock, another holds the lock with the
  word saying that it is waited for, or has released it and is about to wake a sleeper, or is about
  to exchange the word for 2 itself: it is never the case that everyone sleeps and the lock is free.\<close>

theorem mutex_no_lost_wakeup:
  assumes "mutex_init s" and "mutex_step\<^sup>*\<^sup>* s s'" and "m_pc s' t = M_asleep"
  shows "(m_word s' = 2 \<and> (\<exists>u. m_pc s' u = M_held)) \<or> (\<exists>u. m_pc s' u \<in> {M_waking, M_xchg})"
  using mx.reachable_inv [OF assms(1,2)] assms(3) by (auto simp: mutex_inv_def holders_def exclusive_def sleepers_known_def)

text \<open>Two contexts: the first is inside, the second has looked sixty-four times and gone to sleep.\<close>

lemma mutex_steps_lock:
  assumes "in_lock (m_pc s t)" "lock_step (m_word s) (m_pc s t) = (w, p)"
    and "mutex_step\<^sup>*\<^sup>* (s\<lparr>m_word := w, m_pc := (m_pc s)(t := p)\<rparr>) s'"
  shows "mutex_step\<^sup>*\<^sup>* s s'"
  by (rule converse_rtranclp_into_rtranclp [OF mutex_step.lock [OF assms(1,2)] assms(3)])

lemma mutex_spins:
  assumes "m_word s \<noteq> 0" "m_pc s t = M_spin i" "i \<le> 64"
    and "mutex_step\<^sup>*\<^sup>* (s\<lparr>m_pc := (m_pc s)(t := M_spin 64)\<rparr>) s'"
  shows "mutex_step\<^sup>*\<^sup>* s s'"
  using assms
proof (induction "64 - i" arbitrary: i s)
  case 0
  then have "s\<lparr>m_pc := (m_pc s)(t := M_spin 64)\<rparr> = s"
    by (cases s) (simp add: fun_upd_idem_iff)
  with "0.prems"(4) show ?case by (simp only:)
next
  case (Suc n)
  show ?case
  proof (rule mutex_steps_lock [where t = t])
    show "in_lock (m_pc s t)" "lock_step (m_word s) (m_pc s t) = (m_word s, M_spin (Suc i))"
      using Suc.hyps(2) Suc.prems(1-3) by simp_all
    have "n = 64 - Suc i" "Suc i \<le> 64" using Suc.hyps(2) by simp_all
    then show "mutex_step\<^sup>*\<^sup>* (s\<lparr>m_word := m_word s, m_pc := (m_pc s)(t := M_spin (Suc i))\<rparr>) s'"
      using Suc.hyps(1) [of "Suc i" "s\<lparr>m_word := m_word s, m_pc := (m_pc s)(t := M_spin (Suc i))\<rparr>"] Suc.prems(1,4)
      by simp
  qed
qed

definition at_start :: "bool mutex" where
  "at_start = \<lparr>m_word = 0, m_pc = (\<lambda>_. M_out)\<rparr>"

definition one_sleeps :: "bool mutex" where
  "one_sleeps = \<lparr>m_word = 2, m_pc = (\<lambda>t. if t then M_asleep else M_held)\<rparr>"

lemma one_sleeps_reached: "mutex_init at_start" "mutex_step\<^sup>*\<^sup>* at_start one_sleeps"
proof -
  show "mutex_init at_start" by (simp add: mutex_init_def at_start_def)
  let ?a = "\<lparr>m_word = 0, m_pc = (\<lambda>_. M_out)(False := M_try)\<rparr> :: bool mutex"
  let ?b = "\<lparr>m_word = 1, m_pc = (\<lambda>_. M_out)(False := M_held)\<rparr> :: bool mutex"
  let ?c = "\<lparr>m_word = 1, m_pc = (\<lambda>_. M_out)(False := M_held, True := M_try)\<rparr> :: bool mutex"
  have "mutex_step at_start ?a" using mutex_step.enter [of at_start False] by (simp add: at_start_def)
  moreover have "mutex_step ?a ?b" using mutex_step.lock [of ?a False 1 M_held] by simp
  moreover have "mutex_step ?b ?c" using mutex_step.enter [of ?b True] by simp
  moreover have "mutex_step\<^sup>*\<^sup>* ?c one_sleeps"
    apply (rule mutex_steps_lock [where t = True and w = 1 and p = "M_spin 0"], simp, simp)
    apply (rule mutex_spins [where t = True and i = 0], simp, simp, simp)
    apply (rule mutex_steps_lock [where t = True and w = 1 and p = M_xchg], simp, simp)
    apply (rule mutex_steps_lock [where t = True and w = 2 and p = M_wait], simp, simp)
    apply (rule mutex_steps_lock [where t = True and w = 2 and p = M_asleep], simp, simp)
    apply (simp add: one_sleeps_def fun_upd_def cong: if_cong)
    done
  ultimately show "mutex_step\<^sup>*\<^sup>* at_start one_sleeps"
    by (meson converse_rtranclp_into_rtranclp)
qed


theorem mutex_exclusion_witness: "m_pc one_sleeps False = M_held \<and> m_word one_sleeps \<noteq> 0"
  using mutex_exclusion [OF one_sleeps_reached] by (simp add: one_sleeps_def)

theorem mutex_no_lost_wakeup_witness: "m_word one_sleeps = 2 \<and> (\<exists>u. m_pc one_sleeps u = M_held)"
  using mutex_no_lost_wakeup [OF one_sleeps_reached, of True] by (auto simp: one_sleeps_def split: if_splits)

definition lock_steps :: "nat \<Rightarrow> 32 word \<Rightarrow> mutex_pc \<Rightarrow> 32 word \<times> mutex_pc" where
  "lock_steps n w p = ((\<lambda>(w, p). lock_step w p) ^^ n) (w, p)"

text \<open>A free lock is taken in at most two accesses by a context that is not disturbed, wherever in
  the code it is, so that the loop ends; and a lock taken and released with nobody waiting makes no
  call of the environment.\<close>

theorem mutex_progress:
  assumes "in_lock p"
  shows "\<exists>n \<in> {1, 2}. snd (lock_steps n 0 p) = M_held \<and> fst (lock_steps n 0 p) \<noteq> 0
    \<and> (p = M_try \<longrightarrow> unlock_step (fst (lock_steps n 0 p)) M_held = (0, M_out))"
proof (cases p)
  case M_try
  then show ?thesis by (intro bexI [of _ 1]) (simp_all add: lock_steps_def)
next
  case (M_spin i)
  then show ?thesis by (intro bexI [of _ 2]) (simp_all add: lock_steps_def numeral_2_eq_2)
next
  case (M_spin_cas i)
  then show ?thesis by (intro bexI [of _ 1]) (simp_all add: lock_steps_def)
next
  case M_xchg
  then show ?thesis by (intro bexI [of _ 1]) (simp_all add: lock_steps_def)
next
  case M_wait
  then show ?thesis by (intro bexI [of _ 2]) (simp_all add: lock_steps_def numeral_2_eq_2)
qed (use assms in simp_all)

theorem mutex_progress_witness: "\<exists>n \<in> {1, 2}. snd (lock_steps n 0 (M_spin 64)) = M_held"
  using mutex_progress [of "M_spin 64"] by auto

end
