(* ===== verification/Okm_Kal.thy ===== *)
theory Okm_Kal
  imports Okm_Prelude
begin

text \<open>
  The interface beneath. openkal is a package of its own and is not part of the
  repository: what the port calls of it is a parameter of the model, a record \<open>'e kal\<close> of
  operations over an environment state \<open>'e\<close>, and every theorem holds for every such record
  unless a named hypothesis says otherwise. An operation that the port references weakly is
  an optional field: an implementation provides an interface in whole or not at all
  (port/src/okm.h, port/src/okm_net.c), so one \<open>option\<close> stands for one interface.

  openkal's error values are a closed set of which the port reads only the names, so they
  are constructors; \<open>kal_err_other\<close> is a value the port's table does not name. An operation
  that returns a count or a negated error value (\<open>kal_intptr\<close>) returns a sum.
\<close>

section \<open>Values\<close>

datatype kal_error =
    kal_ok | kal_err_invalid | kal_err_again | kal_err_io | kal_err_no_memory
  | kal_err_no_space | kal_err_permission | kal_err_not_supported | kal_err_closed
  | kal_err_not_found | kal_err_exists | kal_err_not_empty | kal_err_is_directory
  | kal_err_not_directory | kal_err_not_program | kal_err_other int

type_synonym kal_dir = kal_uintptr
type_synonym kal_file = kal_uintptr
type_synonym kal_stream = kal_uintptr
type_synonym kal_net_conn = kal_uintptr
type_synonym kal_net_listener = kal_uintptr
type_synonym kal_datagram = kal_uintptr
type_synonym kal_process = kal_uintptr
type_synonym kal_job = kal_uintptr

text \<open>
  \<open>struct kal_endpoint\<close>: address bytes in network order (the array has twenty-odd bytes, of
  which \<open>addr_len\<close> count) and a port in host order.
\<close>

record kal_endpoint =
  addr :: "byte list"
  port :: nat

text \<open>\<open>struct kal_program_info\<close>: the members the port reads, each with its bit of \<open>present\<close>.\<close>

record kal_program_info =
  info_id :: "nat option"
  info_cpu_ns :: "nat option"
  info_peak :: "nat option"
  info_ended :: "bool option"

datatype kal_open_flag = KAL_OPEN_READ | KAL_OPEN_WRITE | KAL_OPEN_CREATE
  | KAL_OPEN_EXCLUSIVE | KAL_OPEN_TRUNCATE | KAL_OPEN_APPEND

datatype kal_node_kind = kal_node_absent | kal_node_file | kal_node_directory | kal_node_link
  | kal_node_other

text \<open>
  \<open>struct kal_node_info\<close>: the members the port reads; one whose bit of \<open>present\<close> the port tests is
  an option. The positions an enquiry names are a set; \<open>KAL_INFO_ALL\<close> is every position, and
  \<open>KAL_INFO_REST\<close> stands for those the port does not name.
\<close>

record kal_node_info =
  ni_kind :: kal_node_kind
  ni_size :: kal_uintptr
  ni_writable :: bool
  ni_modified_ns :: kal_uintptr
  ni_executable :: "bool option"
  ni_identity :: "(kal_uintptr \<times> kal_uintptr) option"

datatype kal_info = KAL_INFO_KIND | KAL_INFO_WRITABLE | KAL_INFO_EXECUTABLE | KAL_INFO_IDENTITY
  | KAL_INFO_REST

abbreviation (input) KAL_INFO_ALL :: "kal_info set" where "KAL_INFO_ALL \<equiv> UNIV"

datatype kal_lock_mode = KAL_LOCK_SHARED | KAL_LOCK_EXCLUSIVE | KAL_LOCK_WAIT

text \<open>
  \<open>struct kal_spawn\<close>: what a start is asked for besides its name, arguments and streams. \<open>sp_job\<close> is whether a unit is
  asked for; no grants (\<open>[]\<close>) is the null pointer, with which a started program is supplied the
  directories the implementation chooses. \<open>kal_spawn_streams\<close> spells the stream its parent has as 0.
\<close>

datatype kal_process_prop = KAL_PROCESS_PROP_JOB | KAL_PROCESS_PROP_STREAM_PASSING | KAL_PROCESS_PROP_GRANT_DIR
  | KAL_PROCESS_PROP_BOUND_LIFETIME | KAL_PROCESS_PROP_NULL_STREAMS

datatype kal_spawn_flag = KAL_SPAWN_BOUND_LIFETIME | KAL_SPAWN_NULL_IN | KAL_SPAWN_NULL_OUT | KAL_SPAWN_NULL_ERR

record kal_spawn =
  sp_base :: kal_dir
  sp_work :: kal_dir
  sp_job :: bool
  sp_grants :: "(kal_dir \<times> string) list"
  sp_flags :: "kal_spawn_flag set"

record kal_spawn_streams =
  sp_in :: kal_stream
  sp_out :: kal_stream
  sp_err :: kal_stream

datatype kal_term_mode = KAL_TERM_LINE_EDIT | KAL_TERM_ECHO | KAL_TERM_PASS_CONTROL | KAL_TERM_PASS_INPUT

datatype kal_shut = KAL_SHUT_READ | KAL_SHUT_WRITE | KAL_SHUT_BOTH

section \<open>Interfaces\<close>

text \<open>\<open>openkal.net\<close>\<close>

record 'e kal_net =
  net_connect :: "kal_endpoint \<Rightarrow> 'e \<Rightarrow> (kal_error + kal_net_conn) \<times> 'e"
  net_listen :: "kal_endpoint \<Rightarrow> 'e \<Rightarrow> (kal_error + kal_net_listener) \<times> 'e"
  net_accept :: "kal_net_listener \<Rightarrow> 'e \<Rightarrow> (kal_error + kal_net_conn) \<times> 'e"
  net_stream :: "kal_net_conn \<Rightarrow> kal_stream"
  net_peer :: "kal_net_conn \<Rightarrow> 'e \<Rightarrow> kal_error + kal_endpoint"
  net_local :: "kal_net_conn \<Rightarrow> 'e \<Rightarrow> kal_error + kal_endpoint"
  net_listener_local :: "kal_net_listener \<Rightarrow> 'e \<Rightarrow> kal_error + kal_endpoint"
  net_shutdown :: "kal_net_conn \<Rightarrow> kal_shut \<Rightarrow> 'e \<Rightarrow> kal_error \<times> 'e"
  net_close :: "kal_net_conn \<Rightarrow> 'e \<Rightarrow> 'e"
  net_close_listener :: "kal_net_listener \<Rightarrow> 'e \<Rightarrow> 'e"

text \<open>\<open>openkal.datagram\<close>\<close>

record 'e kal_dgram =
  dgram_open :: "kal_endpoint option \<Rightarrow> 'e \<Rightarrow> (kal_error + kal_datagram) \<times> 'e"
  dgram_local :: "kal_datagram \<Rightarrow> 'e \<Rightarrow> kal_error + kal_endpoint"
  dgram_send_to :: "kal_datagram \<Rightarrow> byte list \<Rightarrow> kal_endpoint \<Rightarrow> 'e \<Rightarrow> (kal_error + nat) \<times> 'e"
  dgram_recv_from :: "kal_datagram \<Rightarrow> nat \<Rightarrow> 'e \<Rightarrow> (kal_error + byte list \<times> kal_endpoint) \<times> 'e"
  dgram_close :: "kal_datagram \<Rightarrow> 'e \<Rightarrow> 'e"

text \<open>\<open>openkal.timeout\<close>: the last number is the bound in nanoseconds, zero for no bound.\<close>

record 'e kal_timeout =
  timeout_read :: "kal_stream \<Rightarrow> nat \<Rightarrow> nat \<Rightarrow> 'e \<Rightarrow> (kal_error + byte list) \<times> 'e"
  timeout_write :: "kal_stream \<Rightarrow> byte list \<Rightarrow> nat \<Rightarrow> 'e \<Rightarrow> (kal_error + nat) \<times> 'e"
  timeout_accept :: "kal_net_listener \<Rightarrow> nat \<Rightarrow> 'e \<Rightarrow> (kal_error + kal_net_conn) \<times> 'e"
  timeout_recv_from ::
    "kal_datagram \<Rightarrow> nat \<Rightarrow> nat \<Rightarrow> 'e \<Rightarrow> (kal_error + byte list \<times> kal_endpoint) \<times> 'e"
  timeout_wait_process :: "kal_process \<Rightarrow> nat \<Rightarrow> 'e \<Rightarrow> (kal_error + int \<times> bool) \<times> 'e"

text \<open>\<open>kal_fs_read_at\<close> and \<open>kal_fs_write_at\<close> (openkal 0.20): a transfer at an offset that moves no
  position.\<close>

record 'e kal_fs_at =
  fs_read_at :: "kal_file \<Rightarrow> nat \<Rightarrow> kal_uintptr \<Rightarrow> 'e \<Rightarrow> (kal_error + byte list) \<times> 'e"
  fs_write_at :: "kal_file \<Rightarrow> byte list \<Rightarrow> kal_uintptr \<Rightarrow> 'e \<Rightarrow> (kal_error + nat) \<times> 'e"

text \<open>\<open>openkal.region\<close>: addresses and sizes are machine words; a refused reservation is \<open>None\<close>
  (the null pointer). A reservation is made with its backing (\<open>KAL_REGION_COMMIT\<close>).\<close>

record 'e kal_region =
  region_reserve :: "kal_uintptr \<Rightarrow> kal_uintptr \<Rightarrow> 'e \<Rightarrow> kal_uintptr option \<times> 'e"
  region_commit :: "kal_uintptr \<Rightarrow> kal_uintptr \<Rightarrow> 'e \<Rightarrow> kal_error \<times> 'e"
  region_decommit :: "kal_uintptr \<Rightarrow> kal_uintptr \<Rightarrow> 'e \<Rightarrow> kal_error \<times> 'e"
  region_discard :: "kal_uintptr \<Rightarrow> kal_uintptr \<Rightarrow> 'e \<Rightarrow> kal_error \<times> 'e"
  region_release :: "kal_uintptr \<Rightarrow> kal_uintptr \<Rightarrow> 'e \<Rightarrow> 'e"

text \<open>\<open>openkal.terminal\<close>: a mode is the set of its positions; a size is columns and rows. The port tests for each
  operation by itself.\<close>

record 'e kal_terminal =
  terminal_get_mode :: "(kal_stream \<Rightarrow> 'e \<Rightarrow> kal_error + kal_term_mode set) option"
  terminal_set_mode :: "(kal_stream \<Rightarrow> kal_term_mode set \<Rightarrow> 'e \<Rightarrow> kal_error \<times> 'e) option"
  terminal_size :: "(kal_stream \<Rightarrow> 'e \<Rightarrow> kal_error + kal_uintptr \<times> kal_uintptr) option"

text \<open>\<open>openkal.map\<close>: a file, an offset, a length, whether it may be written, whether it is
  shared.\<close>

record 'e kal_map =
  map_file :: "kal_file \<Rightarrow> kal_uintptr \<Rightarrow> kal_uintptr \<Rightarrow> bool \<Rightarrow> bool \<Rightarrow> 'e \<Rightarrow> (kal_error + kal_uintptr) \<times> 'e"
  map_sync :: "kal_uintptr \<Rightarrow> kal_uintptr \<Rightarrow> 'e \<Rightarrow> kal_error \<times> 'e"
  map_release :: "kal_uintptr \<Rightarrow> kal_uintptr \<Rightarrow> 'e \<Rightarrow> 'e"

text \<open>
  The whole: the core streams, the standard three, \<open>openkal.fs\<close> (always present in the
  configuration modelled, \<open>OKM_HAS_FS\<close>), and the interfaces that may be absent.
  \<open>memory_set\<close> stands for the C library's \<open>memset\<close> on the program's memory, which is part of the
  environment here; \<open>time_sleep\<close> is \<open>nanosleep\<close>, whose answer the port does not read;
  \<open>process_spawn\<close> answers the program and the unit it formed, 0 where none was asked for or formed;
  \<open>space_start\<close> answers the copy of this program and the environment as the copy has it;
  \<open>process_wait\<close> answers the status and whether a signal ended the program; \<open>fs_info d n r w\<close> is
  \<open>kal_fs_info\<close> asked for the positions \<open>w\<close>, \<open>r\<close> for \<open>KAL_FS_NO_RESOLVE\<close>; \<open>fs_link_read\<close> answers the
  content in full, of which the buffer receives what fits; \<open>fs_rename_no_replace\<close> is
  \<open>kal_fs_rename_flags\<close> with \<open>KAL_RENAME_NO_REPLACE\<close>; \<open>fs_list_next\<close> answers the iterator
  afterwards, the name in full and its kind; \<open>fs_preopen i\<close> answers the handle and the whole name of the \<open>i\<close>th supplied directory.
\<close>

record 'e kal =
  kal_stdin :: "'e \<Rightarrow> kal_stream"
  kal_stdout :: "'e \<Rightarrow> kal_stream"
  kal_stderr :: "'e \<Rightarrow> kal_stream"
  stream_read :: "kal_stream \<Rightarrow> nat \<Rightarrow> 'e \<Rightarrow> (kal_error + byte list) \<times> 'e"
  stream_write :: "kal_stream \<Rightarrow> byte list \<Rightarrow> 'e \<Rightarrow> (kal_error + nat) \<times> 'e"
  fs_preopen_count :: "'e \<Rightarrow> nat"
  fs_preopen :: "nat \<Rightarrow> 'e \<Rightarrow> kal_error + (kal_dir \<times> string)"
  fs_open_dir :: "kal_dir \<Rightarrow> string \<Rightarrow> 'e \<Rightarrow> (kal_error + kal_dir) \<times> 'e"
  fs_close_file :: "kal_file \<Rightarrow> 'e \<Rightarrow> 'e"
  fs_close_dir :: "kal_dir \<Rightarrow> 'e \<Rightarrow> 'e"
  fs_file_size :: "kal_file \<Rightarrow> 'e \<Rightarrow> kal_error + kal_uintptr"
  fs_resolved_name :: "(kal_dir \<Rightarrow> string \<Rightarrow> nat \<Rightarrow> 'e \<Rightarrow> kal_error + string) option"
  process_channel_close :: "(kal_stream \<Rightarrow> 'e \<Rightarrow> 'e) option"
  stream_interactive :: "kal_stream \<Rightarrow> 'e \<Rightarrow> bool"
  fs_open :: "kal_dir \<Rightarrow> string \<Rightarrow> kal_open_flag set \<Rightarrow> 'e \<Rightarrow> (kal_error + kal_file) \<times> 'e"
  fs_stream :: "kal_file \<Rightarrow> kal_stream"
  fs_info :: "kal_dir \<Rightarrow> string \<Rightarrow> bool \<Rightarrow> kal_info set \<Rightarrow> 'e \<Rightarrow> kal_error + kal_node_info"
  fs_file_info :: "kal_file \<Rightarrow> kal_info set \<Rightarrow> 'e \<Rightarrow> kal_error + kal_node_info"
  fs_link_read :: "kal_dir \<Rightarrow> string \<Rightarrow> nat \<Rightarrow> 'e \<Rightarrow> kal_error + string"
  fs_link_create :: "kal_dir \<Rightarrow> string \<Rightarrow> string \<Rightarrow> 'e \<Rightarrow> kal_error \<times> 'e"
  fs_set_executable_at :: "kal_dir \<Rightarrow> string \<Rightarrow> bool \<Rightarrow> 'e \<Rightarrow> kal_error \<times> 'e"
  fs_set_modified :: "kal_file \<Rightarrow> kal_uintptr \<Rightarrow> 'e \<Rightarrow> kal_error \<times> 'e"
  fs_set_modified_at :: "kal_dir \<Rightarrow> string \<Rightarrow> kal_uintptr \<Rightarrow> 'e \<Rightarrow> kal_error \<times> 'e"
  fs_mkdir :: "kal_dir \<Rightarrow> string \<Rightarrow> 'e \<Rightarrow> kal_error \<times> 'e"
  fs_remove :: "kal_dir \<Rightarrow> string \<Rightarrow> 'e \<Rightarrow> kal_error \<times> 'e"
  fs_rename :: "kal_dir \<Rightarrow> string \<Rightarrow> kal_dir \<Rightarrow> string \<Rightarrow> 'e \<Rightarrow> kal_error \<times> 'e"
  fs_rename_no_replace :: "kal_dir \<Rightarrow> string \<Rightarrow> kal_dir \<Rightarrow> string \<Rightarrow> 'e \<Rightarrow> kal_error \<times> 'e"
  fs_capacity :: "kal_dir \<Rightarrow> 'e \<Rightarrow> kal_error + kal_uintptr \<times> kal_uintptr"
  fs_lock :: "kal_file \<Rightarrow> kal_uintptr \<Rightarrow> kal_uintptr \<Rightarrow> kal_lock_mode set \<Rightarrow> 'e \<Rightarrow> kal_error \<times> 'e"
  fs_unlock :: "kal_file \<Rightarrow> kal_uintptr \<Rightarrow> kal_uintptr \<Rightarrow> 'e \<Rightarrow> kal_error \<times> 'e"
  stream_flush :: "kal_stream \<Rightarrow> 'e \<Rightarrow> kal_error \<times> 'e"
  time_wall :: "'e \<Rightarrow> kal_uintptr"
  fs_seek :: "kal_file \<Rightarrow> int \<Rightarrow> int \<Rightarrow> 'e \<Rightarrow> (kal_error + kal_uintptr) \<times> 'e"
  fs_truncate :: "kal_file \<Rightarrow> kal_uintptr \<Rightarrow> 'e \<Rightarrow> kal_error \<times> 'e"
  fs_list_begin :: "kal_dir \<Rightarrow> 'e \<Rightarrow> (kal_error + kal_uintptr) \<times> 'e"
  fs_list_next ::
    "kal_dir \<Rightarrow> kal_uintptr \<Rightarrow> nat \<Rightarrow> 'e \<Rightarrow> (kal_error + kal_uintptr \<times> string \<times> kal_node_kind) \<times> 'e"
  process_channel :: "('e \<Rightarrow> (kal_error + kal_stream \<times> kal_stream) \<times> 'e) option"
  process_info :: "(kal_process \<Rightarrow> 'e \<Rightarrow> kal_error + kal_program_info) option"
  process_wait :: "kal_process \<Rightarrow> 'e \<Rightarrow> (kal_error + int \<times> bool) \<times> 'e"
  process_close :: "kal_process \<Rightarrow> 'e \<Rightarrow> 'e"
  process_self :: "('e \<Rightarrow> (kal_error + kal_process) \<times> 'e) option"
  process_open_id :: "(nat \<Rightarrow> 'e \<Rightarrow> (kal_error + kal_process) \<times> 'e) option"
  process_terminate :: "kal_process \<Rightarrow> 'e \<Rightarrow> kal_error \<times> 'e"
  process_job_terminate :: "kal_job \<Rightarrow> 'e \<Rightarrow> kal_error \<times> 'e"
  process_job_enter :: "'e \<Rightarrow> (kal_error + kal_job) \<times> 'e"
  process_props :: "kal_process_prop set"
  process_spawn ::
    "kal_spawn \<Rightarrow> string \<Rightarrow> string list \<Rightarrow> string list \<Rightarrow> kal_spawn_streams \<Rightarrow> 'e \<Rightarrow> (kal_error + kal_process \<times> kal_job) \<times> 'e"
  space_start :: "('e \<Rightarrow> (kal_error + kal_process \<times> 'e) \<times> 'e) option"
  time_sleep :: "nat \<Rightarrow> 'e \<Rightarrow> 'e"
  kal_alloc :: "kal_uintptr \<Rightarrow> kal_uintptr \<Rightarrow> 'e \<Rightarrow> kal_uintptr option \<times> 'e"
  kal_free :: "kal_uintptr \<Rightarrow> kal_uintptr \<Rightarrow> kal_uintptr \<Rightarrow> 'e \<Rightarrow> 'e"
  can_alloc :: "nat \<Rightarrow> 'e \<Rightarrow> bool"
  memory_granularity :: "'e \<Rightarrow> kal_uintptr"
  memory_set :: "kal_uintptr \<Rightarrow> byte \<Rightarrow> kal_uintptr \<Rightarrow> 'e \<Rightarrow> 'e"
  K_net :: "'e kal_net option"
  K_dgram :: "'e kal_dgram option"
  K_timeout :: "'e kal_timeout option"
  K_region :: "'e kal_region option"
  K_map :: "'e kal_map option"
  K_terminal :: "'e kal_terminal"
  K_fs_at :: "'e kal_fs_at option"

section \<open>Translation of the error values\<close>

text \<open>\<open>okm_errno\<close> (port/src/okm_fd.c)\<close>

fun okm_errno :: "kal_error \<Rightarrow> int" where
  "okm_errno kal_ok = 0"
| "okm_errno kal_err_invalid = EINVAL"
| "okm_errno kal_err_again = EAGAIN"
| "okm_errno kal_err_io = EIO"
| "okm_errno kal_err_no_memory = ENOMEM"
| "okm_errno kal_err_no_space = ENOSPC"
| "okm_errno kal_err_permission = EACCES"
| "okm_errno kal_err_not_supported = ENOSYS"
| "okm_errno kal_err_closed = EPIPE"
| "okm_errno kal_err_not_found = ENOENT"
| "okm_errno kal_err_exists = EEXIST"
| "okm_errno kal_err_not_empty = ENOTEMPTY"
| "okm_errno kal_err_is_directory = EISDIR"
| "okm_errno kal_err_not_directory = ENOTDIR"
| "okm_errno kal_err_not_program = ENOEXEC"
| "okm_errno (kal_err_other _) = EIO"

lemma okm_errno_range: "0 \<le> okm_errno e" "okm_errno e < 4096"
  by (cases e; simp)+

lemma okm_errno_zero [simp]: "okm_errno e = 0 \<longleftrightarrow> e = kal_ok"
  by (cases e) simp_all

lemma okm_errno_pos: "x \<noteq> kal_ok \<Longrightarrow> 0 < okm_errno x"
  by (cases x) simp_all

text \<open>\<open>okm_open_flags\<close> (port/src/okm_fd.c): the bits of the answer as a set of their names.\<close>

definition okm_open_flags :: "flagword \<Rightarrow> kal_open_flag set" where
  "okm_open_flags flags =
     (if flags AND O_ACCMODE = O_RDONLY then {KAL_OPEN_READ}
      else if flags AND O_ACCMODE = O_WRONLY then {KAL_OPEN_WRITE}
      else {KAL_OPEN_READ, KAL_OPEN_WRITE})
     \<union> (if has flags O_CREAT then {KAL_OPEN_CREATE} else {})
     \<union> (if has flags O_EXCL then {KAL_OPEN_EXCLUSIVE} else {})
     \<union> (if has flags O_TRUNC then {KAL_OPEN_TRUNCATE} else {})
     \<union> (if has flags O_APPEND then {KAL_OPEN_APPEND} else {})"

section \<open>An implementation of the core set\<close>

text \<open>
  What the port runs above on a machine with no operating system: streams that report the end
  of input and accept output, no supplied directory, and none of the optional interfaces. It is
  the implementation the examples of the development are evaluated above.
\<close>

definition bare_kal :: "'e kal" where
  "bare_kal = \<lparr>kal_stdin = (\<lambda>_. 1), kal_stdout = (\<lambda>_. 2), kal_stderr = (\<lambda>_. 3),
     stream_read = (\<lambda>_ _ e. (Inr [], e)), stream_write = (\<lambda>_ bs e. (Inr (length bs), e)),
     fs_preopen_count = (\<lambda>_. 0), fs_preopen = (\<lambda>_ _. Inl kal_err_not_supported),
     fs_open_dir = (\<lambda>_ _ e. (Inl kal_err_not_supported, e)),
     fs_close_file = (\<lambda>_ e. e), fs_close_dir = (\<lambda>_ e. e),
     fs_file_size = (\<lambda>_ _. Inl kal_err_not_supported), fs_resolved_name = None,
     process_channel_close = None,
     stream_interactive = (\<lambda>_ _. False), fs_open = (\<lambda>_ _ _ e. (Inl kal_err_not_supported, e)),
     fs_stream = (\<lambda>f. f), fs_info = (\<lambda>_ _ _ _ _. Inl kal_err_not_supported),
     fs_file_info = (\<lambda>_ _ _. Inl kal_err_not_supported),
     fs_link_read = (\<lambda>_ _ _ _. Inl kal_err_not_supported),
     fs_link_create = (\<lambda>_ _ _ e. (kal_err_not_supported, e)),
     fs_set_executable_at = (\<lambda>_ _ _ e. (kal_err_not_supported, e)),
     fs_set_modified = (\<lambda>_ _ e. (kal_err_not_supported, e)),
     fs_set_modified_at = (\<lambda>_ _ _ e. (kal_err_not_supported, e)),
     fs_mkdir = (\<lambda>_ _ e. (kal_err_not_supported, e)), fs_remove = (\<lambda>_ _ e. (kal_err_not_supported, e)),
     fs_rename = (\<lambda>_ _ _ _ e. (kal_err_not_supported, e)),
     fs_rename_no_replace = (\<lambda>_ _ _ _ e. (kal_err_not_supported, e)),
     fs_capacity = (\<lambda>_ _. Inl kal_err_not_supported),
     fs_lock = (\<lambda>_ _ _ _ e. (kal_err_not_supported, e)),
     fs_unlock = (\<lambda>_ _ _ e. (kal_err_not_supported, e)),
     stream_flush = (\<lambda>_ e. (kal_ok, e)), time_wall = (\<lambda>_. 0),
     fs_seek = (\<lambda>_ _ _ e. (Inl kal_err_not_supported, e)),
     fs_truncate = (\<lambda>_ _ e. (kal_err_not_supported, e)),
     fs_list_begin = (\<lambda>_ e. (Inl kal_err_not_supported, e)),
     fs_list_next = (\<lambda>_ _ _ e. (Inl kal_err_not_supported, e)),
     process_channel = None, process_info = None,
     process_wait = (\<lambda>_ e. (Inl kal_err_not_supported, e)), process_close = (\<lambda>_ e. e),
     process_self = None, process_open_id = None,
     process_terminate = (\<lambda>_ e. (kal_err_not_supported, e)),
     process_job_terminate = (\<lambda>_ e. (kal_err_not_supported, e)),
     process_job_enter = (\<lambda>e. (Inl kal_err_not_supported, e)), process_props = {},
     process_spawn = (\<lambda>_ _ _ _ _ e. (Inl kal_err_not_supported, e)), space_start = None,
     time_sleep = (\<lambda>_ e. e), kal_alloc = (\<lambda>_ _ e. (None, e)),
     kal_free = (\<lambda>_ _ _ e. e), can_alloc = (\<lambda>_ _. True), memory_granularity = (\<lambda>_. 4096), memory_set = (\<lambda>_ _ _ e. e),
     K_net = None, K_dgram = None, K_timeout = None, K_region = None, K_map = None, K_terminal = \<lparr>terminal_get_mode = None, terminal_set_mode = None, terminal_size = None\<rparr>,
     K_fs_at = None\<rparr>"

text \<open>The same, with an environment that records the files it is told to close.\<close>

definition closing_kal :: "kal_file list kal" where
  "closing_kal = bare_kal\<lparr>fs_close_file := (\<lambda>f e. f # e)\<rparr>"

end
