(* ===== verification/Okm_State.thy ===== *)
theory Okm_State
  imports Okm_Kal
begin

text \<open>
  The state of the port layer: the open file descriptions (\<open>struct okm_desc\<close>,
  port/src/okm.h), the sockets (\<open>struct okm_sock\<close>, port/src/okm_net.c), the descriptor table,
  the pool of directory names, the supplied directories and the working directory (the static
  variables of port/src/okm_fd.c), and the environment beneath.

  A C array of fixed size is a function on \<open>nat\<close>; the code guards every index, and the model
  keeps the guards. The release of a socket slot (\<open>okm_sock_release\<close>) and its allocation are
  here because the descriptor table calls the first.
\<close>

section \<open>Bounds\<close>

abbreviation (input) OKM_MAX_FD :: nat where "OKM_MAX_FD \<equiv> 1024"
abbreviation (input) OKM_MAX_DESC :: nat where "OKM_MAX_DESC \<equiv> OKM_MAX_FD"
abbreviation (input) OKM_MAX_SOCK :: nat where "OKM_MAX_SOCK \<equiv> 128"
abbreviation (input) OKM_MAX_PATH :: nat where "OKM_MAX_PATH \<equiv> 4096"
abbreviation (input) OKM_MAX_DIRS :: nat where "OKM_MAX_DIRS \<equiv> 64"
abbreviation (input) OKM_DIR_PATH :: nat where "OKM_DIR_PATH \<equiv> 512"
abbreviation (input) OKM_SETTLING_MAX :: nat where "OKM_SETTLING_MAX \<equiv> 32"

section \<open>Descriptions\<close>

datatype okm_kind = OKM_FREE | OKM_STREAM | OKM_CHANNEL | OKM_FILE | OKM_DIR | OKM_SOCKET
  | OKM_NULL

record okm_desc =
  d_refs :: int
  d_kind :: okm_kind
  d_flags :: flagword
  d_stream :: kal_stream
  d_file :: kal_file
  d_dir :: kal_dir
  d_iter :: kal_uintptr
  d_iter_open :: bool
  d_path_slot :: int
  d_pending :: bool
  d_pending_kind :: kal_node_kind
  d_pending_name :: string
  d_sock :: int
  d_ahead :: bool
  d_ahead_eof :: bool
  d_ahead_byte :: byte

record fd_entry =
  fd_desc :: int
  fd_cloexec :: int

section \<open>Sockets\<close>

datatype sock_state = OKM_SOCK_FREE | OKM_SOCK_NEW | OKM_SOCK_LISTEN | OKM_SOCK_CONN
  | OKM_SOCK_DGRAM

record okm_sock =
  s_state :: sock_state
  s_domain :: int
  s_type :: int
  s_protocol :: int
  s_have_local :: bool
  s_have_peer :: bool
  s_local :: kal_endpoint
  s_peer :: kal_endpoint
  s_conn :: kal_net_conn
  s_lis :: kal_net_listener
  s_dg :: kal_datagram
  s_rcv_bound :: nat
  s_snd_bound :: nat
  s_pend_conn :: bool
  s_pend :: kal_net_conn
  s_pend_msg :: bool
  s_pend_len :: nat
  s_pend_from :: kal_endpoint
  s_buf :: "byte list option"

definition no_endpoint :: kal_endpoint where
  "no_endpoint = \<lparr>addr = [], port = 0\<rparr>"

text \<open>A socket slot whose bytes are all zero, but for the buffer it keeps.\<close>

definition zero_sock :: "byte list option \<Rightarrow> okm_sock" where
  "zero_sock keep =
     \<lparr>s_state = OKM_SOCK_FREE, s_domain = 0, s_type = 0, s_protocol = 0,
      s_have_local = False, s_have_peer = False, s_local = no_endpoint, s_peer = no_endpoint,
      s_conn = 0, s_lis = 0, s_dg = 0, s_rcv_bound = 0, s_snd_bound = 0,
      s_pend_conn = False, s_pend = 0, s_pend_msg = False, s_pend_len = 0,
      s_pend_from = no_endpoint, s_buf = keep\<rparr>"

section \<open>The state\<close>

record 'e okm =
  g_desc :: "nat \<Rightarrow> okm_desc"
  g_fd :: "nat \<Rightarrow> fd_entry"
  g_dirpath :: "nat \<Rightarrow> string"
  g_dirlong :: "nat \<Rightarrow> string option"
  g_dirpath_used :: "nat \<Rightarrow> bool"
  g_std_stream :: "nat \<Rightarrow> kal_stream"
  g_settling :: "(kal_uintptr \<times> okm_desc) list"
  g_sock :: "nat \<Rightarrow> okm_sock"
  g_pre :: "(kal_dir \<times> string) list"
  okm_cwd_dir :: kal_dir
  g_cwd :: string
  env :: 'e

section \<open>Socket slots\<close>

text \<open>\<open>slot_alloc\<close> (port/src/okm_net.c): the first free slot, cleared but for its buffer.\<close>

definition slot_alloc :: "'e okm \<Rightarrow> (nat \<times> 'e okm) option" where
  "slot_alloc s =
     (case scan_up (\<lambda>i. s_state (g_sock s i) = OKM_SOCK_FREE) 0 OKM_MAX_SOCK of
        None \<Rightarrow> None
      | Some i \<Rightarrow>
          Some (i, s\<lparr>g_sock := (g_sock s)(i :=
                 (zero_sock (s_buf (g_sock s i)))\<lparr>s_state := OKM_SOCK_NEW\<rparr>)\<rparr>))"

text \<open>
  \<open>okm_sock_release\<close> (port/src/okm_net.c): what the state of the slot owns is closed, then a
  connection a readiness enquiry accepted and nobody took.
\<close>

definition close_sock_state :: "'e kal \<Rightarrow> okm_sock \<Rightarrow> 'e \<Rightarrow> 'e" where
  "close_sock_state K k e =
     (case s_state k of
        OKM_SOCK_CONN \<Rightarrow> (case K_net K of None \<Rightarrow> e | Some N \<Rightarrow> net_close N (s_conn k) e)
      | OKM_SOCK_LISTEN \<Rightarrow> (case K_net K of None \<Rightarrow> e | Some N \<Rightarrow> net_close_listener N (s_lis k) e)
      | OKM_SOCK_DGRAM \<Rightarrow> (case K_dgram K of None \<Rightarrow> e | Some D \<Rightarrow> dgram_close D (s_dg k) e)
      | _ \<Rightarrow> e)"

definition close_sock_pending :: "'e kal \<Rightarrow> okm_sock \<Rightarrow> 'e \<Rightarrow> 'e" where
  "close_sock_pending K k e =
     (if s_pend_conn k then (case K_net K of None \<Rightarrow> e | Some N \<Rightarrow> net_close N (s_pend k) e)
      else e)"

definition okm_sock_release :: "'e kal \<Rightarrow> int \<Rightarrow> 'e okm \<Rightarrow> 'e okm" where
  "okm_sock_release K slot s =
     (if slot < 0 \<or> int OKM_MAX_SOCK \<le> slot then s
      else let k = g_sock s (nat slot) in
        s\<lparr>env := close_sock_pending K k (close_sock_state K k (env s)),
          g_sock := (g_sock s)(nat slot :=
            k\<lparr>s_state := OKM_SOCK_FREE, s_pend_conn := False, s_pend_msg := False\<rparr>)\<rparr>)"

lemma okm_sock_release_frame [simp, okm_frame]:
  "g_desc (okm_sock_release K slot s) = g_desc s"
  "g_fd (okm_sock_release K slot s) = g_fd s"
  "g_dirpath (okm_sock_release K slot s) = g_dirpath s"
  "g_dirlong (okm_sock_release K slot s) = g_dirlong s"
  "g_dirpath_used (okm_sock_release K slot s) = g_dirpath_used s"
  "g_std_stream (okm_sock_release K slot s) = g_std_stream s"
  "g_settling (okm_sock_release K slot s) = g_settling s"
  "g_pre (okm_sock_release K slot s) = g_pre s"
  "okm_cwd_dir (okm_sock_release K slot s) = okm_cwd_dir s"
  "g_cwd (okm_sock_release K slot s) = g_cwd s"
  by (simp_all add: okm_sock_release_def Let_def)

lemma slot_alloc_Some:
  assumes "slot_alloc s = Some (i, s')"
  shows "i < OKM_MAX_SOCK" "s_state (g_sock s i) = OKM_SOCK_FREE"
    "s' = s\<lparr>g_sock := (g_sock s)(i := (zero_sock (s_buf (g_sock s i)))\<lparr>s_state := OKM_SOCK_NEW\<rparr>)\<rparr>"
  using assms by (auto simp: slot_alloc_def split: option.splits dest: scan_upD)

end
