(* ===== verification/Okm_Fd.thy ===== *)
theory Okm_Fd
  imports Okm_State
begin

text \<open>
  The table of descriptors (port/src/okm_fd.c, from \<open>desc_alloc\<close> to \<open>okm_fd_get_cloexec\<close>, and
  \<open>__okm_close_all_for_exec\<close>). The operations are those made while \<open>okm_lock\<close> is held; \<open>me\<close> is
  the identity of the context that holds it (\<open>OKM_CONTEXT_ID()\<close>). What a description owns is
  closed when the lock is released (\<open>okm_unlock\<close>), by the context that let it go.
\<close>

section \<open>Slots and names\<close>

definition desc_alloc :: "'e okm \<Rightarrow> (nat \<times> 'e okm) option" where
  "desc_alloc s =
     (case scan_up (\<lambda>i. d_refs (g_desc s i) = 0) 0 OKM_MAX_DESC of
        None \<Rightarrow> None
      | Some i \<Rightarrow> Some (i, s\<lparr>g_desc := (g_desc s)(i := (g_desc s i)\<lparr>d_refs := 1\<rparr>)\<rparr>))"

definition path_slot_alloc :: "'e okm \<Rightarrow> (nat \<times> 'e okm) option" where
  "path_slot_alloc s =
     (case scan_up (\<lambda>i. \<not> g_dirpath_used s i) 0 OKM_MAX_DIRS of
        None \<Rightarrow> None
      | Some i \<Rightarrow> Some (i, s\<lparr>g_dirpath_used := (g_dirpath_used s)(i := True),
                             g_dirpath := (g_dirpath s)(i := [])\<rparr>))"

definition path_slot_clear :: "nat \<Rightarrow> 'e okm \<Rightarrow> 'e okm" where
  "path_slot_clear slot s =
     s\<lparr>g_dirlong := (g_dirlong s)(slot := None), g_dirpath := (g_dirpath s)(slot := [])\<rparr>"

definition dir_name :: "'e okm \<Rightarrow> okm_desc \<Rightarrow> string option" where
  "dir_name s d =
     (if d_path_slot d < 0 then None
      else let k = nat (d_path_slot d) in
        (case g_dirlong s k of
           Some n \<Rightarrow> Some n
         | None \<Rightarrow> if g_dirpath s k = [] then None else Some (g_dirpath s k)))"

definition okm_std_stream :: "int \<Rightarrow> 'e okm \<Rightarrow> kal_stream" where
  "okm_std_stream fd s = (if fd < 0 \<or> fd > 2 then 0 else g_std_stream s (nat fd))"

section \<open>Closing what a description owns\<close>

definition close_owned :: "'e kal \<Rightarrow> okm_desc \<Rightarrow> 'e okm \<Rightarrow> 'e okm" where
  "close_owned K p s =
     (case d_kind p of
        OKM_FILE \<Rightarrow> s\<lparr>env := fs_close_file K (d_file p) (env s)\<rparr>
      | OKM_DIR \<Rightarrow> s\<lparr>env := fs_close_dir K (d_dir p) (env s)\<rparr>
      | OKM_CHANNEL \<Rightarrow>
          (case process_channel_close K of
             None \<Rightarrow> s
           | Some cl \<Rightarrow> s\<lparr>env := cl (d_stream p) (env s)\<rparr>)
      | OKM_SOCKET \<Rightarrow> okm_sock_release K (d_sock p) s
      | _ \<Rightarrow> s)"

function take_settling_loop ::
  "kal_uintptr \<Rightarrow> (kal_uintptr \<times> okm_desc) list \<Rightarrow> nat \<Rightarrow> okm_desc list
     \<Rightarrow> okm_desc list \<times> (kal_uintptr \<times> okm_desc) list" where
  "take_settling_loop me xs i mine =
     (if i < length xs then
        (if fst (xs ! i) \<noteq> me then take_settling_loop me xs (Suc i) mine
         else take_settling_loop me (butlast (xs[i := last xs])) i (mine @ [snd (xs ! i)]))
      else (mine, xs))"
  by pat_completeness auto
termination
  by (relation "measure (\<lambda>(me, xs, i, mine). length xs - i)") auto

declare take_settling_loop.simps [simp del]

definition take_settling :: "kal_uintptr \<Rightarrow> 'e okm \<Rightarrow> okm_desc list \<times> 'e okm" where
  "take_settling me s =
     (if g_settling s = [] then ([], s)
      else let (mine, rest) = take_settling_loop me (g_settling s) 0 []
           in (mine, s\<lparr>g_settling := rest\<rparr>))"

definition unlock_settling :: "'e kal \<Rightarrow> kal_uintptr \<Rightarrow> 'e okm \<Rightarrow> 'e okm" where
  "unlock_settling K me s = (let (mine, s') = take_settling me s in fold (close_owned K) mine s')"

definition okm_unlock :: "'e kal \<Rightarrow> kal_uintptr \<Rightarrow> 'e okm \<Rightarrow> 'e okm" where
  "okm_unlock K me s = (if g_settling s = [] then s else unlock_settling K me s)"

section \<open>Releasing a description\<close>

definition settle :: "'e kal \<Rightarrow> kal_uintptr \<Rightarrow> okm_desc \<Rightarrow> 'e okm \<Rightarrow> 'e okm" where
  "settle K me p s =
     (if d_kind p = OKM_SOCKET then close_owned K p s
      else if d_kind p \<noteq> OKM_STREAM \<and> d_kind p \<noteq> OKM_FREE \<and> d_kind p \<noteq> OKM_NULL then
        (if length (g_settling s) < OKM_SETTLING_MAX
         then s\<lparr>g_settling := g_settling s @ [(me, p)]\<rparr>
         else close_owned K p s)
      else s)"

definition desc_release :: "'e kal \<Rightarrow> kal_uintptr \<Rightarrow> int \<Rightarrow> 'e okm \<Rightarrow> 'e okm" where
  "desc_release K me d s =
     (if d < 0 \<or> int OKM_MAX_DESC \<le> d then s
      else let i = nat d;
               p = (g_desc s i)\<lparr>d_refs := d_refs (g_desc s i) - 1\<rparr>;
               s1 = s\<lparr>g_desc := (g_desc s)(i := p)\<rparr>
        in if 0 < d_refs p then s1
           else let s2 = settle K me p s1;
                    s3 = (if 0 \<le> d_path_slot p
                          then (let s3' = path_slot_clear (nat (d_path_slot p)) s2
                                in s3'\<lparr>g_dirpath_used :=
                                         (g_dirpath_used s3')(nat (d_path_slot p) := False)\<rparr>)
                          else s2)
             in s3\<lparr>g_desc := (g_desc s3)(i :=
                    p\<lparr>d_kind := OKM_FREE, d_iter := 0, d_iter_open := False, d_path_slot := -1,
                      d_pending := False, d_sock := -1, d_ahead := False,
                      d_ahead_eof := False\<rparr>)\<rparr>)"

section \<open>Descriptors\<close>

abbreviation (input) OKM_FD_FREE :: int where "OKM_FD_FREE \<equiv> -1"

definition okm_fd_alloc :: "int \<Rightarrow> 'e okm \<Rightarrow> int" where
  "okm_fd_alloc from s =
     (case scan_up (\<lambda>i. fd_desc (g_fd s i) = OKM_FD_FREE) (nat from) OKM_MAX_FD of
        None \<Rightarrow> - EMFILE
      | Some i \<Rightarrow> int i)"

definition fd_in_range :: "int \<Rightarrow> bool" where
  "fd_in_range fd \<longleftrightarrow> 0 \<le> fd \<and> fd < int OKM_MAX_FD"

definition okm_fd_release :: "'e kal \<Rightarrow> kal_uintptr \<Rightarrow> int \<Rightarrow> 'e okm \<Rightarrow> 'e okm" where
  "okm_fd_release K me fd s =
     (if \<not> fd_in_range fd then s
      else let d = fd_desc (g_fd s (nat fd)) in
        if d < 0 then s
        else desc_release K me d
               (s\<lparr>g_fd := (g_fd s)(nat fd := \<lparr>fd_desc = OKM_FD_FREE, fd_cloexec = 0\<rparr>)\<rparr>))"

definition okm_desc_of :: "int \<Rightarrow> 'e okm \<Rightarrow> nat option" where
  "okm_desc_of fd s =
     (if \<not> fd_in_range fd then None
      else let d = fd_desc (g_fd s (nat fd)) in if d < 0 then None else Some (nat d))"

definition okm_fd_bind ::
  "'e kal \<Rightarrow> kal_uintptr \<Rightarrow> int \<Rightarrow> okm_kind \<Rightarrow> kal_stream \<Rightarrow> kal_file \<Rightarrow> kal_dir \<Rightarrow> flagword
     \<Rightarrow> 'e okm \<Rightarrow> int \<times> 'e okm" where
  "okm_fd_bind K me fd kind stream file dir flags s =
     (if \<not> fd_in_range fd then (- EBADF, s)
      else case desc_alloc s of
        None \<Rightarrow> (- ENFILE, s)
      | Some (d, s1) \<Rightarrow>
          let s2 = s1\<lparr>g_desc := (g_desc s1)(d := (g_desc s1 d)
                     \<lparr>d_kind := kind, d_flags := flags, d_stream := stream, d_file := file,
                      d_dir := dir, d_iter := 0, d_iter_open := False, d_path_slot := -1,
                      d_pending := False, d_sock := -1, d_ahead := False,
                      d_ahead_eof := False\<rparr>)\<rparr>;
              s3 = (if 0 \<le> fd_desc (g_fd s2 (nat fd))
                    then desc_release K me (fd_desc (g_fd s2 (nat fd))) s2 else s2)
          in (fd, s3\<lparr>g_fd := (g_fd s3)(nat fd :=
                    \<lparr>fd_desc = int d, fd_cloexec = (if has flags O_CLOEXEC then 1 else 0)\<rparr>)\<rparr>))"

definition okm_fd_dup ::
  "'e kal \<Rightarrow> kal_uintptr \<Rightarrow> int \<Rightarrow> int \<Rightarrow> int \<Rightarrow> 'e okm \<Rightarrow> int \<times> 'e okm" where
  "okm_fd_dup K me fd newfd0 cloexec s =
     (if \<not> fd_in_range fd \<or> fd_desc (g_fd s (nat fd)) < 0 then (- EBADF, s)
      else let newfd = (if newfd0 < 0 then okm_fd_alloc 0 s else newfd0) in
        if newfd < 0 then (newfd, s)
        else if int OKM_MAX_FD \<le> newfd then (- EBADF, s)
        else if newfd = fd then (newfd, s)
        else
          let s1 = (if 0 \<le> fd_desc (g_fd s (nat newfd))
                    then desc_release K me (fd_desc (g_fd s (nat newfd))) s else s);
              d = fd_desc (g_fd s1 (nat fd));
              s2 = s1\<lparr>g_desc := (g_desc s1)(nat d :=
                        (g_desc s1 (nat d))\<lparr>d_refs := d_refs (g_desc s1 (nat d)) + 1\<rparr>)\<rparr>
          in (newfd, s2\<lparr>g_fd := (g_fd s2)(nat newfd := \<lparr>fd_desc = d, fd_cloexec = cloexec\<rparr>)\<rparr>))"

definition okm_fd_cloexec :: "int \<Rightarrow> bool \<Rightarrow> 'e okm \<Rightarrow> int \<times> 'e okm" where
  "okm_fd_cloexec fd on s =
     (if \<not> fd_in_range fd \<or> fd_desc (g_fd s (nat fd)) < 0 then (- EBADF, s)
      else (0, s\<lparr>g_fd := (g_fd s)(nat fd :=
                   (g_fd s (nat fd))\<lparr>fd_cloexec := if on then 1 else 0\<rparr>)\<rparr>))"

definition okm_fd_get_cloexec :: "int \<Rightarrow> 'e okm \<Rightarrow> int" where
  "okm_fd_get_cloexec fd s =
     (if \<not> fd_in_range fd \<or> fd_desc (g_fd s (nat fd)) < 0 then - EBADF
      else fd_cloexec (g_fd s (nat fd)))"

text \<open>\<open>for (fd = 0; fd < OKM_MAX_FD; fd++) if (g_fd[fd].desc >= 0) okm_fd_release(fd)\<close>, the
  lock taken before and released after.\<close>

definition okm_close_all_for_exec :: "'e kal \<Rightarrow> kal_uintptr \<Rightarrow> 'e okm \<Rightarrow> 'e okm" where
  "okm_close_all_for_exec K me s =
     okm_unlock K me
       (fold (\<lambda>fd s. if 0 \<le> fd_desc (g_fd s fd) then okm_fd_release K me (int fd) s else s)
             [0..<OKM_MAX_FD] s)"

section \<open>The beginning, and the names of directories\<close>

text \<open>\<open>okm_table_init_memory\<close>: every descriptor is free.\<close>

definition okm_table_init_memory :: "'e okm \<Rightarrow> 'e okm" where
  "okm_table_init_memory s =
     s\<lparr>g_fd := (\<lambda>i. if i < OKM_MAX_FD then \<lparr>fd_desc = -1, fd_cloexec = 0\<rparr> else g_fd s i)\<rparr>"

text \<open>\<open>copy_str\<close>: at most \<open>cap - 1\<close> characters and a terminator.\<close>

definition copy_str :: "string \<Rightarrow> nat \<Rightarrow> nat \<Rightarrow> string" where
  "copy_str src n cap = take (if cap \<le> n then (if cap \<noteq> 0 then cap - 1 else 0) else n) src"

definition okm_dir_remember :: "'e kal \<Rightarrow> int \<Rightarrow> string \<Rightarrow> 'e okm \<Rightarrow> 'e okm" where
  "okm_dir_remember K fd absn s =
     (case okm_desc_of fd s of
        None \<Rightarrow> s
      | Some d \<Rightarrow>
          if d_kind (g_desc s d) \<noteq> OKM_DIR then s
          else
            let (slot, s1) =
                  (if d_path_slot (g_desc s d) < 0 then
                     (case path_slot_alloc s of
                        None \<Rightarrow> (-1, s)
                      | Some (i, s') \<Rightarrow> (int i, s'\<lparr>g_desc := (g_desc s')(d :=
                                           (g_desc s' d)\<lparr>d_path_slot := int i\<rparr>)\<rparr>))
                   else (d_path_slot (g_desc s d), s))
            in if slot < 0 then s1
               else
                 let k = nat slot; s2 = path_slot_clear k s1; n = length absn in
                 if n < OKM_DIR_PATH
                 then s2\<lparr>g_dirpath := (g_dirpath s2)(k := copy_str absn n OKM_DIR_PATH)\<rparr>
                 else if can_alloc K (n + 1) (env s2)
                 then s2\<lparr>g_dirlong := (g_dirlong s2)(k := Some absn)\<rparr>
                 else s2)"

section \<open>The invariant\<close>

definition refcount :: "'e okm \<Rightarrow> nat \<Rightarrow> nat" where
  "refcount s d = card {fd. fd < OKM_MAX_FD \<and> fd_desc (g_fd s fd) = int d}"

definition live :: "'e okm \<Rightarrow> nat \<Rightarrow> bool" where
  "live s d \<longleftrightarrow> d < OKM_MAX_DESC \<and> 0 < d_refs (g_desc s d)"

definition names_ok :: "'e okm \<Rightarrow> bool" where
  "names_ok s \<longleftrightarrow>
     (\<forall>d. live s d \<longrightarrow> - 1 \<le> d_path_slot (g_desc s d) \<and> d_path_slot (g_desc s d) < int OKM_MAX_DIRS)
   \<and> (\<forall>d e. live s d \<longrightarrow> live s e \<longrightarrow> 0 \<le> d_path_slot (g_desc s d) \<longrightarrow>
        d_path_slot (g_desc s d) = d_path_slot (g_desc s e) \<longrightarrow> d = e)
   \<and> (\<forall>i < OKM_MAX_DIRS. g_dirpath_used s i \<longleftrightarrow> (\<exists>d. live s d \<and> d_path_slot (g_desc s d) = int i))"

definition refs_ok :: "(nat \<Rightarrow> int) \<Rightarrow> 'e okm \<Rightarrow> bool" where
  "refs_ok x s \<longleftrightarrow>
     (\<forall>d < OKM_MAX_DESC. 0 \<le> d_refs (g_desc s d) \<and> d_refs (g_desc s d) = int (refcount s d) + x d)"

definition table_inv_x :: "(nat \<Rightarrow> int) \<Rightarrow> 'e okm \<Rightarrow> bool" where
  "table_inv_x x s \<longleftrightarrow>
     (\<forall>fd < OKM_MAX_FD. - 1 \<le> fd_desc (g_fd s fd) \<and> fd_desc (g_fd s fd) < int OKM_MAX_DESC)
   \<and> refs_ok x s
   \<and> (\<forall>d < OKM_MAX_DESC. d_refs (g_desc s d) = 0 \<longleftrightarrow> d_kind (g_desc s d) = OKM_FREE)
   \<and> names_ok s
   \<and> length (g_settling s) \<le> OKM_SETTLING_MAX"

definition table_inv :: "'e okm \<Rightarrow> bool" where
  "table_inv s \<longleftrightarrow> table_inv_x (\<lambda>_. 0) s"

lemma refcount_set_fd:
  assumes "fd < OKM_MAX_FD"
  shows "int (refcount (s\<lparr>g_fd := (g_fd s)(fd := e)\<rparr>) d) =
           int (refcount s d) - (if fd_desc (g_fd s fd) = int d then 1 else 0)
             + (if fd_desc e = int d then 1 else 0)"
proof -
  let ?A = "{f. f < OKM_MAX_FD \<and> fd_desc (g_fd s f) = int d}"
  have fin: "finite ?A" by simp
  have "{f. f < OKM_MAX_FD \<and> fd_desc (((g_fd s)(fd := e)) f) = int d} =
          (if fd_desc e = int d then insert fd (?A - {fd}) else ?A - {fd})"
    using assms by auto
  then have "refcount (s\<lparr>g_fd := (g_fd s)(fd := e)\<rparr>) d =
               (if fd_desc e = int d then Suc (card (?A - {fd})) else card (?A - {fd}))"
    by (simp add: refcount_def card.insert_remove)
  moreover have "card (?A - {fd}) = (if fd_desc (g_fd s fd) = int d then card ?A - 1 else card ?A)"
    using assms fin by (simp add: card_Diff_singleton_if)
  moreover have "fd_desc (g_fd s fd) = int d \<Longrightarrow> 0 < card ?A"
    using assms fin card_gt_0_iff by blast
  ultimately show ?thesis
    by (auto simp: refcount_def)
qed

lemma refcount_cong: "g_fd s = g_fd t \<Longrightarrow> refcount s d = refcount t d"
  by (simp add: refcount_def)

lemma refcount_g_desc [simp]: "refcount (s\<lparr>g_desc := X\<rparr>) = refcount s"
  by (simp add: refcount_def fun_eq_iff)

lemma refcount_pos: "fd < OKM_MAX_FD \<Longrightarrow> fd_desc (g_fd s fd) = int d \<Longrightarrow> 0 < refcount s d"
  by (auto simp: refcount_def card_gt_0_iff)

text \<open>Changing a field of the state the invariant does not read.\<close>

lemma table_inv_x_cong:
  assumes "g_desc s = g_desc t" "g_fd s = g_fd t" "g_dirpath_used s = g_dirpath_used t"
    "length (g_settling s) = length (g_settling t)"
  shows "table_inv_x x s = table_inv_x x t"
  using assms
  by (simp add: table_inv_x_def refs_ok_def names_ok_def live_def refcount_cong [of s t])

lemma close_owned_frame [simp, okm_frame]:
  "g_desc (close_owned K p s) = g_desc s"
  "g_fd (close_owned K p s) = g_fd s"
  "g_dirpath (close_owned K p s) = g_dirpath s"
  "g_dirlong (close_owned K p s) = g_dirlong s"
  "g_dirpath_used (close_owned K p s) = g_dirpath_used s"
  "g_settling (close_owned K p s) = g_settling s"
  "g_std_stream (close_owned K p s) = g_std_stream s"
  "g_pre (close_owned K p s) = g_pre s"
  "okm_cwd_dir (close_owned K p s) = okm_cwd_dir s"
  "g_cwd (close_owned K p s) = g_cwd s"
  by (simp_all add: close_owned_def split: okm_kind.split option.split)

lemma settle_frame [simp, okm_frame]:
  "g_desc (settle K me p s) = g_desc s"
  "g_fd (settle K me p s) = g_fd s"
  "g_dirpath (settle K me p s) = g_dirpath s"
  "g_dirlong (settle K me p s) = g_dirlong s"
  "g_dirpath_used (settle K me p s) = g_dirpath_used s"
  "g_std_stream (settle K me p s) = g_std_stream s"
  "g_pre (settle K me p s) = g_pre s"
  "okm_cwd_dir (settle K me p s) = okm_cwd_dir s"
  "g_cwd (settle K me p s) = g_cwd s"
  by (simp_all add: settle_def)

lemma settle_bound:
  "length (g_settling s) \<le> OKM_SETTLING_MAX \<Longrightarrow>
   length (g_settling (settle K me p s)) \<le> OKM_SETTLING_MAX"
  by (simp add: settle_def)

text \<open>One reference of a live description dropped.\<close>

lemma desc_release_frame [simp, okm_frame]:
  "g_fd (desc_release K me d s) = g_fd s"
  "g_std_stream (desc_release K me d s) = g_std_stream s"
  "g_pre (desc_release K me d s) = g_pre s"
  "okm_cwd_dir (desc_release K me d s) = okm_cwd_dir s"
  "g_cwd (desc_release K me d s) = g_cwd s"
  by (simp_all add: desc_release_def path_slot_clear_def Let_def)

lemma desc_release_other [simp]:
  "int e \<noteq> d \<Longrightarrow> g_desc (desc_release K me d s) e = g_desc s e"
  by (auto simp: desc_release_def path_slot_clear_def Let_def)

lemma desc_release_last:
  assumes "d < OKM_MAX_DESC" "d_refs (g_desc s d) = 1"
  shows "d_refs (g_desc (desc_release K me (int d) s) d) = 0"
    "d_kind (g_desc (desc_release K me (int d) s) d) = OKM_FREE"
    "g_dirpath_used (desc_release K me (int d) s) =
       (if 0 \<le> d_path_slot (g_desc s d)
        then (g_dirpath_used s)(nat (d_path_slot (g_desc s d)) := False) else g_dirpath_used s)"
  using assms by (simp_all add: desc_release_def path_slot_clear_def Let_def)

lemma desc_release_shared:
  assumes "d < OKM_MAX_DESC" "1 < d_refs (g_desc s d)"
  shows "desc_release K me (int d) s =
           s\<lparr>g_desc := (g_desc s)(d := (g_desc s d)\<lparr>d_refs := d_refs (g_desc s d) - 1\<rparr>)\<rparr>"
  using assms by (simp add: desc_release_def Let_def)

lemma desc_release_settling:
  "length (g_settling s) \<le> OKM_SETTLING_MAX \<Longrightarrow>
   length (g_settling (desc_release K me d s)) \<le> OKM_SETTLING_MAX"
  using settle_bound [of "s\<lparr>g_desc := X\<rparr>" for X]
  by (simp add: desc_release_def path_slot_clear_def Let_def)


lemma desc_release_refs:
  assumes "d < OKM_MAX_DESC" "0 < d_refs (g_desc s d)" "e < OKM_MAX_DESC"
  shows "d_refs (g_desc (desc_release K me (int d) s) e) =
           d_refs (g_desc s e) - (if e = d then 1 else 0)"
  using assms desc_release_last(1) [of d s K me] desc_release_shared [of d s K me]
  by (cases "d_refs (g_desc s d) = 1") auto

lemma desc_release_kind:
  assumes "d < OKM_MAX_DESC" "0 < d_refs (g_desc s d)"
  shows "d_kind (g_desc (desc_release K me (int d) s) e) =
           (if e = d \<and> d_refs (g_desc s d) = 1 then OKM_FREE else d_kind (g_desc s e))"
  using assms desc_release_last(2) [of d s K me] desc_release_shared [of d s K me]
  by (cases "d_refs (g_desc s d) = 1") auto

lemma desc_release_names:
  assumes d: "d < OKM_MAX_DESC" "0 < d_refs (g_desc s d)" and ok: "names_ok s"
  shows "names_ok (desc_release K me (int d) s)"
proof (cases "d_refs (g_desc s d) = 1")
  case True
  let ?t = "desc_release K me (int d) s"
  have live: "live ?t e \<longleftrightarrow> live s e \<and> e \<noteq> d" for e
    using d True desc_release_last(1) [of d s K me] by (cases "e = d") (auto simp: live_def)
  have slot: "e \<noteq> d \<Longrightarrow> d_path_slot (g_desc ?t e) = d_path_slot (g_desc s e)" for e
    by simp
  have ld: "live s d" using d by (simp add: live_def)
  note used = desc_release_last(3) [OF d(1) True, of K me]
  show ?thesis
    unfolding names_ok_def
  proof (intro conjI allI impI)
    fix i :: nat assume i: "i < OKM_MAX_DIRS"
    have ex: "(\<exists>e. live ?t e \<and> d_path_slot (g_desc ?t e) = int i) \<longleftrightarrow>
                (\<exists>e. live s e \<and> e \<noteq> d \<and> d_path_slot (g_desc s e) = int i)"
      using live slot by metis
    have us: "g_dirpath_used s i \<longleftrightarrow> (\<exists>e. live s e \<and> d_path_slot (g_desc s e) = int i)"
      using ok i by (simp add: names_ok_def)
    show "g_dirpath_used ?t i \<longleftrightarrow> (\<exists>e. live ?t e \<and> d_path_slot (g_desc ?t e) = int i)"
    proof (cases "d_path_slot (g_desc s d) = int i")
      case True
      then have "\<not> g_dirpath_used ?t i" by (simp add: used)
      moreover have "live s e \<Longrightarrow> d_path_slot (g_desc s e) = int i \<Longrightarrow> e = d" for e
        using ok ld True unfolding names_ok_def by (metis of_nat_0_le_iff)
      ultimately show ?thesis unfolding ex by blast
    next
      case False
      then have "g_dirpath_used ?t i = g_dirpath_used s i" by (auto simp: used)
      with False us show ?thesis unfolding ex by metis
    qed
  qed (use ok live slot in \<open>auto simp: names_ok_def\<close>)
next
  case False
  then have "1 < d_refs (g_desc s d)" using d by simp
  then have eq: "desc_release K me (int d) s =
       s\<lparr>g_desc := (g_desc s)(d := (g_desc s d)\<lparr>d_refs := d_refs (g_desc s d) - 1\<rparr>)\<rparr>"
    by (rule desc_release_shared [OF d(1)])
  have live: "live (desc_release K me (int d) s) e \<longleftrightarrow> live s e" for e
    using d \<open>1 < _\<close> by (simp add: eq live_def)
  have slot: "d_path_slot (g_desc (desc_release K me (int d) s) e) = d_path_slot (g_desc s e)" for e
    by (simp add: eq)
  have used: "g_dirpath_used (desc_release K me (int d) s) = g_dirpath_used s"
    by (simp add: eq)
  show ?thesis
    using ok unfolding names_ok_def live slot used .
qed

lemma desc_release_inv:
  assumes inv: "table_inv_x x s" and d: "d < OKM_MAX_DESC" "0 < d_refs (g_desc s d)"
  shows "table_inv_x (x(d := x d - 1)) (desc_release K me (int d) s)"
proof -
  let ?t = "desc_release K me (int d) s"
  have "refs_ok (x(d := x d - 1)) ?t"
    using inv d by (auto simp: table_inv_x_def refs_ok_def desc_release_refs refcount_cong [of ?t s])
  moreover have "\<forall>e < OKM_MAX_DESC. d_refs (g_desc ?t e) = 0 \<longleftrightarrow> d_kind (g_desc ?t e) = OKM_FREE"
    using inv d by (auto simp: table_inv_x_def desc_release_refs desc_release_kind)
  moreover have "names_ok ?t"
    using inv d by (simp add: table_inv_x_def desc_release_names)
  ultimately show ?thesis
    using inv desc_release_settling [of s K me "int d"] by (simp add: table_inv_x_def)
qed

text \<open>A descriptor made to refer to another description (or to none).\<close>

lemma set_fd_inv:
  assumes inv: "table_inv_x x s" and fd: "fd < OKM_MAX_FD"
    and e: "- 1 \<le> fd_desc e" "fd_desc e < int OKM_MAX_DESC"
    and y: "\<And>d. d < OKM_MAX_DESC \<Longrightarrow>
              y d = x d + (if fd_desc (g_fd s fd) = int d then 1 else 0)
                        - (if fd_desc e = int d then 1 else 0)"
  shows "table_inv_x y (s\<lparr>g_fd := (g_fd s)(fd := e)\<rparr>)"
proof -
  have "refs_ok y (s\<lparr>g_fd := (g_fd s)(fd := e)\<rparr>)"
    using inv y unfolding refs_ok_def table_inv_x_def refcount_set_fd [OF fd] by fastforce
  moreover have "names_ok (s\<lparr>g_fd := (g_fd s)(fd := e)\<rparr>)"
    using inv by (simp add: table_inv_x_def names_ok_def live_def)
  ultimately show ?thesis
    using inv fd e by (simp add: table_inv_x_def)
qed

text \<open>A free description taken and filled (\<open>okm_fd_bind\<close>).\<close>

definition bound_desc ::
  "okm_kind \<Rightarrow> kal_stream \<Rightarrow> kal_file \<Rightarrow> kal_dir \<Rightarrow> flagword \<Rightarrow> okm_desc \<Rightarrow> okm_desc" where
  "bound_desc kind stream file dir flags p =
     p\<lparr>d_refs := 1, d_kind := kind, d_flags := flags, d_stream := stream, d_file := file,
       d_dir := dir, d_iter := 0, d_iter_open := False, d_path_slot := -1,
       d_pending := False, d_sock := -1, d_ahead := False, d_ahead_eof := False\<rparr>"

lemma take_desc_inv:
  assumes inv: "table_inv_x x s" and d: "d < OKM_MAX_DESC" "d_refs (g_desc s d) = 0"
    and kind: "kind \<noteq> OKM_FREE"
  shows "table_inv_x (x(d := x d + 1))
           (s\<lparr>g_desc := (g_desc s)(d := bound_desc kind stream file dir flags p)\<rparr>)"
    (is "table_inv_x ?y ?t")
proof -
  have live: "live ?t e \<longleftrightarrow> e = d \<or> live s e" for e
    using d by (auto simp: live_def bound_desc_def)
  have nl: "\<not> live s d" using d by (simp add: live_def)
  have slot: "d_path_slot (g_desc ?t e) = (if e = d then -1 else d_path_slot (g_desc s e))" for e
    by (simp add: bound_desc_def)
  have "refs_ok ?y ?t"
    using inv d by (auto simp: table_inv_x_def refs_ok_def bound_desc_def)
  moreover have "names_ok ?t"
    using inv nl unfolding names_ok_def live slot table_inv_x_def
    by (auto split: if_splits)
  ultimately show ?thesis
    using inv kind by (simp add: table_inv_x_def bound_desc_def)
qed

section \<open>Every operation keeps the invariant\<close>

lemma okm_fd_release_inv [okm_inv]:
  assumes "table_inv s"
  shows "table_inv (okm_fd_release K me fd s)"
proof (cases "fd_in_range fd \<and> 0 \<le> fd_desc (g_fd s (nat fd))")
  case True
  let ?f = "nat fd" and ?d = "nat (fd_desc (g_fd s (nat fd)))"
  let ?s1 = "s\<lparr>g_fd := (g_fd s)(?f := \<lparr>fd_desc = OKM_FD_FREE, fd_cloexec = 0\<rparr>)\<rparr>"
  have f: "?f < OKM_MAX_FD" using True by (auto simp: fd_in_range_def)
  have d: "?d < OKM_MAX_DESC" and int_d: "int ?d = fd_desc (g_fd s ?f)"
    using assms f True by (auto simp: table_inv_def table_inv_x_def)
  have pos: "0 < d_refs (g_desc s ?d)"
    using assms d refcount_pos [OF f, of s ?d] int_d
    by (auto simp: table_inv_def table_inv_x_def refs_ok_def)
  have "table_inv_x ((\<lambda>_. 0)(?d := 1)) ?s1"
    by (rule set_fd_inv [OF assms [unfolded table_inv_def] f]) (use int_d in auto)
  from desc_release_inv [OF this d, of K me] pos
  have "table_inv (desc_release K me (int ?d) ?s1)"
    by (simp add: table_inv_def fun_upd_def cong: if_cong)
  then have "table_inv (desc_release K me (fd_desc (g_fd s ?f)) ?s1)"
    by (simp only: int_d)
  moreover have "\<not> fd_desc (g_fd s ?f) < 0" using True by simp
  ultimately show ?thesis
    using True by (simp add: okm_fd_release_def)
next
  case False
  then show ?thesis
    using assms by (auto simp: okm_fd_release_def Let_def not_le)
qed

lemma desc_alloc_Some:
  assumes "desc_alloc s = Some (d, s')"
  shows "d < OKM_MAX_DESC" "d_refs (g_desc s d) = 0"
    "s' = s\<lparr>g_desc := (g_desc s)(d := (g_desc s d)\<lparr>d_refs := 1\<rparr>)\<rparr>"
  using assms by (auto simp: desc_alloc_def split: option.splits dest: scan_upD)

text \<open>\<open>okm_fd_bind\<close>, with its answer when a description is free.\<close>

lemma okm_fd_bind_eq:
  assumes "fd_in_range fd" "desc_alloc s = Some (d, s1)"
  shows "okm_fd_bind K me fd kind stream file dir flags s =
    (let s2 = s\<lparr>g_desc := (g_desc s)(d := bound_desc kind stream file dir flags (g_desc s d))\<rparr>;
         s3 = (if 0 \<le> fd_desc (g_fd s (nat fd)) then desc_release K me (fd_desc (g_fd s (nat fd))) s2 else s2)
     in (fd, s3\<lparr>g_fd := (g_fd s3)(nat fd :=
           \<lparr>fd_desc = int d, fd_cloexec = (if has flags O_CLOEXEC then 1 else 0)\<rparr>)\<rparr>))"
  using assms(1) desc_alloc_Some [OF assms(2)]
  by (simp add: okm_fd_bind_def assms(2) bound_desc_def Let_def fd_in_range_def)

lemma okm_fd_bind_inv [okm_inv]:
  assumes inv: "table_inv s" and kind: "kind \<noteq> OKM_FREE"
  shows "table_inv (snd (okm_fd_bind K me fd kind stream file dir flags s))"
proof (cases "fd_in_range fd \<and> desc_alloc s \<noteq> None")
  case False
  then show ?thesis
    using inv by (cases "fd_in_range fd"; cases "desc_alloc s") (simp_all add: okm_fd_bind_def)
next
  case True
  then obtain d s1 where al: "desc_alloc s = Some (d, s1)" by auto
  let ?f = "nat fd" and ?o = "fd_desc (g_fd s (nat fd))"
  let ?s2 = "s\<lparr>g_desc := (g_desc s)(d := bound_desc kind stream file dir flags (g_desc s d))\<rparr>"
  let ?s3 = "if 0 \<le> ?o then desc_release K me ?o ?s2 else ?s2"
  have f: "?f < OKM_MAX_FD" using True by (auto simp: fd_in_range_def)
  note d = desc_alloc_Some(1,2) [OF al]
  from take_desc_inv [OF inv [unfolded table_inv_def] d kind]
  have i2: "table_inv_x ((\<lambda>_. 0)(d := 1)) ?s2" by simp
  have zero: "\<not> (fd_desc (g_fd s ?f) = int d)"
    using inv d refcount_pos [OF f, of s d] by (auto simp: table_inv_def table_inv_x_def refs_ok_def)
  have i3: "table_inv_x (\<lambda>e. (if e = d then 1 else 0) - (if int e = ?o then 1 else 0)) ?s3"
  proof (cases "0 \<le> ?o")
    case True
    have o: "nat ?o < OKM_MAX_DESC" using inv f True by (auto simp: table_inv_def table_inv_x_def)
    have "0 < d_refs (g_desc s (nat ?o))"
      using inv o refcount_pos [OF f, of s "nat ?o"] True
      by (auto simp: table_inv_def table_inv_x_def refs_ok_def)
    then have "0 < d_refs (g_desc ?s2 (nat ?o))" by (simp add: bound_desc_def)
    from desc_release_inv [OF i2 o this, of K me]
    have "table_inv_x (((\<lambda>_. 0)(d := 1))(nat ?o := ((\<lambda>_. 0)(d := 1)) (nat ?o) - 1)) ?s3"
      using True by simp
    moreover have "((\<lambda>_. 0)(d := 1))(nat ?o := ((\<lambda>_. 0)(d := 1)) (nat ?o) - 1) =
        (\<lambda>e. (if e = d then 1 else 0) - (if int e = ?o then 1 else (0::int)))"
      using True zero by (auto simp: fun_eq_iff)
    ultimately show ?thesis by simp
  next
    case False
    with i2 show ?thesis by (auto simp: fun_upd_def elim!: back_subst [where P = "\<lambda>x. table_inv_x x _"])
  qed
  have "table_inv (?s3\<lparr>g_fd := (g_fd ?s3)(?f :=
      \<lparr>fd_desc = int d, fd_cloexec = (if has flags O_CLOEXEC then 1 else 0)\<rparr>)\<rparr>)"
    unfolding table_inv_def
    by (rule set_fd_inv [OF i3 f]) (use d zero in \<open>auto\<close>)
  then show ?thesis
    using True by (simp add: okm_fd_bind_eq [OF _ al] Let_def)
qed


lemma refcount_two:
  assumes "f < OKM_MAX_FD" "n < OKM_MAX_FD" "n \<noteq> f"
    "fd_desc (g_fd s f) = int d" "fd_desc (g_fd s n) = int d"
  shows "1 < refcount s d"
proof -
  have "{f, n} \<subseteq> {fd. fd < OKM_MAX_FD \<and> fd_desc (g_fd s fd) = int d}" using assms by auto
  then have "card {f, n} \<le> refcount s d" unfolding refcount_def by (rule card_mono [rotated]) simp
  with assms(3) show ?thesis by simp
qed

lemma okm_fd_cloexec_inv [okm_inv]:
  assumes "table_inv s"
  shows "table_inv (snd (okm_fd_cloexec fd on s))"
proof (cases "fd_in_range fd \<and> 0 \<le> fd_desc (g_fd s (nat fd))")
  case True
  then have f: "nat fd < OKM_MAX_FD" by (auto simp: fd_in_range_def)
  have "table_inv_x (\<lambda>_. 0) (s\<lparr>g_fd := (g_fd s)(nat fd := (g_fd s (nat fd))\<lparr>fd_cloexec := if on then 1 else 0\<rparr>)\<rparr>)"
    by (rule set_fd_inv [OF assms [unfolded table_inv_def] f])
      (use assms f in \<open>auto simp: table_inv_def table_inv_x_def\<close>)
  then show ?thesis
    using True by (simp add: okm_fd_cloexec_def table_inv_def)
next
  case False
  then show ?thesis using assms by (auto simp: okm_fd_cloexec_def not_le)
qed

text \<open>One reference more of a live description.\<close>

lemma add_ref_inv:
  assumes inv: "table_inv_x x s" and d: "d < OKM_MAX_DESC" "0 < d_refs (g_desc s d)"
  shows "table_inv_x (x(d := x d + 1))
           (s\<lparr>g_desc := (g_desc s)(d := (g_desc s d)\<lparr>d_refs := d_refs (g_desc s d) + 1\<rparr>)\<rparr>)"
    (is "table_inv_x ?y ?t")
proof -
  have live: "live ?t e \<longleftrightarrow> live s e" for e using d by (auto simp: live_def)
  have slot: "d_path_slot (g_desc ?t e) = d_path_slot (g_desc s e)" for e by simp
  have used: "g_dirpath_used ?t = g_dirpath_used s" by simp
  have "names_ok ?t"
    using inv unfolding names_ok_def live slot used table_inv_x_def by blast
  moreover have "refs_ok ?y ?t"
    using inv d by (auto simp: table_inv_x_def refs_ok_def)
  moreover have "\<forall>e < OKM_MAX_DESC. d_refs (g_desc ?t e) = 0 \<longleftrightarrow> d_kind (g_desc ?t e) = OKM_FREE"
    using inv d by (auto simp: table_inv_x_def)
  ultimately show ?thesis
    using inv by (simp add: table_inv_x_def)
qed

lemma okm_fd_alloc_range: "okm_fd_alloc from s < int OKM_MAX_FD"
  by (auto simp: okm_fd_alloc_def split: option.splits dest: scan_upD(2))

lemma okm_fd_alloc_free:
  assumes "0 \<le> okm_fd_alloc from s"
  shows "fd_desc (g_fd s (nat (okm_fd_alloc from s))) = OKM_FD_FREE"
  using assms by (auto simp: okm_fd_alloc_def split: option.splits dest: scan_upD(3))

lemma okm_fd_alloc_neg: "okm_fd_alloc from s < 0 \<longleftrightarrow> okm_fd_alloc from s = - EMFILE"
  by (auto simp: okm_fd_alloc_def split: option.splits)

text \<open>\<open>okm_fd_dup\<close>, where it duplicates.\<close>

lemma okm_fd_dup_inv [okm_inv]:
  assumes inv: "table_inv s"
  shows "table_inv (snd (okm_fd_dup K me fd newfd0 cloexec s))"
proof -
  define newfd where "newfd = (if newfd0 < 0 then okm_fd_alloc 0 s else newfd0)"
  show ?thesis
  proof (cases "fd_in_range fd \<and> 0 \<le> fd_desc (g_fd s (nat fd)) \<and> fd_in_range newfd \<and> newfd \<noteq> fd")
    case False
    then show ?thesis
      using inv by (auto simp: okm_fd_dup_def Let_def fd_in_range_def not_le not_less
          simp flip: newfd_def)
  next
    case True
    let ?n = "nat newfd" and ?d = "nat (fd_desc (g_fd s (nat fd)))"
    let ?o = "fd_desc (g_fd s ?n)"
    let ?s1 = "if 0 \<le> ?o then desc_release K me ?o s else s"
    let ?s2 = "?s1\<lparr>g_desc := (g_desc ?s1)(?d := (g_desc ?s1 ?d)\<lparr>d_refs := d_refs (g_desc ?s1 ?d) + 1\<rparr>)\<rparr>"
    have f: "nat fd < OKM_MAX_FD" and n: "?n < OKM_MAX_FD" and ne: "?n \<noteq> nat fd"
      using True by (auto simp: fd_in_range_def)
    have d: "?d < OKM_MAX_DESC" and int_d: "int ?d = fd_desc (g_fd s (nat fd))"
      using inv f True by (auto simp: table_inv_def table_inv_x_def)
    have refs: "\<And>e. e < OKM_MAX_DESC \<Longrightarrow> d_refs (g_desc s e) = int (refcount s e)"
      using inv by (simp add: table_inv_def table_inv_x_def refs_ok_def)
    have pos: "0 < d_refs (g_desc s ?d)"
      using refs [OF d] refcount_pos [OF f, of s ?d] int_d by simp
    have i1: "table_inv_x (\<lambda>e. - (if int e = ?o then 1 else 0)) ?s1 \<and> 0 < d_refs (g_desc ?s1 ?d)"
    proof (cases "0 \<le> ?o")
      case True
      have o: "nat ?o < OKM_MAX_DESC" and int_o: "int (nat ?o) = ?o"
        using inv n True by (auto simp: table_inv_def table_inv_x_def)
      have opos: "0 < d_refs (g_desc s (nat ?o))"
        using refs [OF o] refcount_pos [OF n, of s "nat ?o"] int_o by simp
      have two: "nat ?o = ?d \<Longrightarrow> 1 < d_refs (g_desc s ?d)"
        using refs [OF d] refcount_two [OF f n ne, of s ?d] int_d int_o by simp
      have "table_inv_x (\<lambda>e. - (if int e = ?o then 1 else 0)) (desc_release K me (int (nat ?o)) s)"
        using desc_release_inv [OF inv [unfolded table_inv_def] o opos, of K me]
        by (rule back_subst [where P = "\<lambda>x. table_inv_x x _"]) (use True in \<open>auto simp: fun_eq_iff\<close>)
      moreover have "0 < d_refs (g_desc (desc_release K me (int (nat ?o)) s) ?d)"
        using desc_release_refs [OF o opos d, of K me] pos two by auto
      ultimately show ?thesis unfolding int_o using True by simp
    next
      case False
      with inv pos show ?thesis
        by (auto simp: table_inv_def elim!: back_subst [where P = "\<lambda>x. table_inv_x x _"])
    qed
    have "table_inv_x ((\<lambda>e. - (if int e = ?o then 1 else 0))(?d := - (if int ?d = ?o then 1 else 0) + 1)) ?s2"
      using add_ref_inv [OF i1 [THEN conjunct1] d i1 [THEN conjunct2]] by simp
    then have "table_inv_x (\<lambda>_. 0) (?s2\<lparr>g_fd := (g_fd ?s2)(?n := \<lparr>fd_desc = int ?d, fd_cloexec = cloexec\<rparr>)\<rparr>)"
      by (rule set_fd_inv [OF _ n]) (use d in \<open>auto\<close>)
    then show ?thesis
      unfolding int_d using True
      by (cases "0 \<le> ?o") (simp_all add: okm_fd_dup_def Let_def fd_in_range_def table_inv_def flip: newfd_def)
  qed
qed

section \<open>What is let go of is closed once, by the context that let it go\<close>

lemma take_settling_loop_mset:
  assumes "\<And>j. j < i \<Longrightarrow> j < length xs \<Longrightarrow> fst (xs ! j) \<noteq> me"
    and "take_settling_loop me xs i acc = (mine, rest)"
  shows "mset mine = mset acc + image_mset snd (filter_mset (\<lambda>p. fst p = me) (mset xs)) \<and>
         mset rest = filter_mset (\<lambda>p. fst p \<noteq> me) (mset xs)"
  using assms
proof (induction me xs i acc rule: take_settling_loop.induct)
  case (1 me xs i acc)
  show ?case
  proof (cases "i < length xs")
    case False
    have "\<forall>p \<in> set xs. fst p \<noteq> me"
    proof
      fix p assume "p \<in> set xs"
      then obtain j where "j < length xs" "p = xs ! j" by (auto simp: in_set_conv_nth)
      with "1.prems"(1) [of j] False show "fst p \<noteq> me" by simp
    qed
    then have "filter_mset (\<lambda>p. fst p = me) (mset xs) = {#}"
      and "filter_mset (\<lambda>p. fst p \<noteq> me) (mset xs) = mset xs"
      by (simp_all flip: mset_filter)
    then show ?thesis
      using "1.prems"(2) False by (simp add: take_settling_loop.simps [of me xs i])
  next
    case True
    show ?thesis
    proof (cases "fst (xs ! i) = me")
      case False
      show ?thesis
        by (rule "1.IH"(1)) (use True False "1.prems" in \<open>auto simp: take_settling_loop.simps [of me xs i] less_Suc_eq\<close>)
    next
      case me: True
      let ?ys = "butlast (xs[i := last xs])"
      have nth: "j < i \<Longrightarrow> j < length ?ys \<Longrightarrow> ?ys ! j = xs ! j" for j
        by (simp add: nth_butlast)
      have IH: "mset mine = mset (acc @ [snd (xs ! i)]) +
            image_mset snd (filter_mset (\<lambda>p. fst p = me) (mset ?ys)) \<and>
          mset rest = filter_mset (\<lambda>p. fst p \<noteq> me) (mset ?ys)"
        by (rule "1.IH"(2)) (use True me "1.prems" nth in \<open>auto simp: take_settling_loop.simps [of me xs i]\<close>)
      obtain M where M: "mset xs = add_mset (xs ! i) M"
        using True by (metis multi_member_split nth_mem set_mset_mset)
      then have "mset ?ys = M" using True by (simp add: mset_swap_remove)
      with IH M me show ?thesis by simp
    qed
  qed
qed

lemma take_settling_spec:
  assumes "take_settling me s = (mine, s')"
  shows "mset mine = image_mset snd (filter_mset (\<lambda>p. fst p = me) (mset (g_settling s)))"
    and "mset (g_settling s') = filter_mset (\<lambda>p. fst p \<noteq> me) (mset (g_settling s))"
    and "s' = s\<lparr>g_settling := g_settling s'\<rparr>"
proof -
  obtain m r where l: "take_settling_loop me (g_settling s) 0 [] = (m, r)" by fastforce
  from take_settling_loop_mset [OF _ this] assms l
  show "mset mine = image_mset snd (filter_mset (\<lambda>p. fst p = me) (mset (g_settling s)))"
    and "mset (g_settling s') = filter_mset (\<lambda>p. fst p \<noteq> me) (mset (g_settling s))"
    and "s' = s\<lparr>g_settling := g_settling s'\<rparr>"
    by (auto simp: take_settling_def split: if_splits)
qed

lemma fold_close_owned_frame [simp]:
  "g_desc (fold (close_owned K) ps s) = g_desc s"
  "g_fd (fold (close_owned K) ps s) = g_fd s"
  "g_dirpath (fold (close_owned K) ps s) = g_dirpath s"
  "g_dirlong (fold (close_owned K) ps s) = g_dirlong s"
  "g_dirpath_used (fold (close_owned K) ps s) = g_dirpath_used s"
  "g_settling (fold (close_owned K) ps s) = g_settling s"
  "g_std_stream (fold (close_owned K) ps s) = g_std_stream s"
  "g_pre (fold (close_owned K) ps s) = g_pre s"
  "okm_cwd_dir (fold (close_owned K) ps s) = okm_cwd_dir s"
  "g_cwd (fold (close_owned K) ps s) = g_cwd s"
  by (induction ps arbitrary: s) simp_all

lemma unlock_settling_frame:
  "g_desc (unlock_settling K me s) = g_desc s"
  "g_fd (unlock_settling K me s) = g_fd s"
  "g_dirpath (unlock_settling K me s) = g_dirpath s"
  "g_dirlong (unlock_settling K me s) = g_dirlong s"
  "g_dirpath_used (unlock_settling K me s) = g_dirpath_used s"
  "g_std_stream (unlock_settling K me s) = g_std_stream s"
  "g_pre (unlock_settling K me s) = g_pre s"
  "okm_cwd_dir (unlock_settling K me s) = okm_cwd_dir s"
  "g_cwd (unlock_settling K me s) = g_cwd s"
  by (simp_all add: unlock_settling_def take_settling_def Let_def split: prod.splits)

lemma okm_unlock_frame [simp, okm_frame]:
  "g_desc (okm_unlock K me s) = g_desc s"
  "g_fd (okm_unlock K me s) = g_fd s"
  "g_dirpath (okm_unlock K me s) = g_dirpath s"
  "g_dirlong (okm_unlock K me s) = g_dirlong s"
  "g_dirpath_used (okm_unlock K me s) = g_dirpath_used s"
  "g_std_stream (okm_unlock K me s) = g_std_stream s"
  "g_pre (okm_unlock K me s) = g_pre s"
  "okm_cwd_dir (okm_unlock K me s) = okm_cwd_dir s"
  "g_cwd (okm_unlock K me s) = g_cwd s"
  by (simp_all add: okm_unlock_def unlock_settling_frame)

lemma okm_unlock_settling:
  "mset (g_settling (okm_unlock K me s)) = filter_mset (\<lambda>p. fst p \<noteq> me) (mset (g_settling s))"
proof (cases "g_settling s = []")
  case True
  then show ?thesis by (simp add: okm_unlock_def)
next
  case False
  obtain mine s' where t: "take_settling me s = (mine, s')" by fastforce
  with False take_settling_spec(2) [OF t] show ?thesis
    by (simp add: okm_unlock_def unlock_settling_def)
qed

lemma okm_unlock_inv [okm_inv]:
  assumes "table_inv s"
  shows "table_inv (okm_unlock K me s)"
proof -
  have "length (g_settling (okm_unlock K me s)) =
          size (filter_mset (\<lambda>p. fst p \<noteq> me) (mset (g_settling s)))"
    by (metis okm_unlock_settling size_mset)
  also have "\<dots> \<le> length (g_settling s)"
    by (metis size_filter_mset_lesseq size_mset)
  finally show ?thesis
    using assms
    by (auto simp: table_inv_def table_inv_x_def refs_ok_def names_ok_def live_def
        refcount_cong [OF okm_unlock_frame(2)])
qed

text \<open>
  What the releasing context closes: a list of the descriptions it let go of, in some order,
  each as often as it was let go of.
\<close>

lemma okm_unlock_closes:
  "\<exists>mine. okm_unlock K me s =
       fold (close_owned K) mine (s\<lparr>g_settling := g_settling (okm_unlock K me s)\<rparr>)
     \<and> mset mine = image_mset snd (filter_mset (\<lambda>p. fst p = me) (mset (g_settling s)))"
proof (cases "g_settling s = []")
  case True
  then show ?thesis by (intro exI [of _ "[]"]) (simp add: okm_unlock_def)
next
  case False
  obtain mine s' where t: "take_settling me s = (mine, s')" by fastforce
  have u: "okm_unlock K me s = fold (close_owned K) mine s'"
    using False t by (simp add: okm_unlock_def unlock_settling_def)
  then have "g_settling s' = g_settling (okm_unlock K me s)" by simp
  then have "s' = s\<lparr>g_settling := g_settling (okm_unlock K me s)\<rparr>"
    using take_settling_spec(3) [OF t] by simp
  with u take_settling_spec(1) [OF t] show ?thesis by metis
qed

section \<open>Allocation and binding\<close>

lemma okm_fd_alloc_lowest:
  assumes "0 \<le> okm_fd_alloc from s" "0 \<le> g" "from \<le> g" "g < okm_fd_alloc from s"
  shows "fd_desc (g_fd s (nat g)) \<noteq> OKM_FD_FREE"
proof -
  obtain i where "scan_up (\<lambda>i. fd_desc (g_fd s i) = OKM_FD_FREE) (nat from) OKM_MAX_FD = Some i"
    and "okm_fd_alloc from s = int i"
    using assms(1) by (auto simp: okm_fd_alloc_def split: option.splits)
  with assms show ?thesis
    using scan_upD(4) [of "\<lambda>i. fd_desc (g_fd s i) = OKM_FD_FREE" "nat from" OKM_MAX_FD i "nat g"]
    by auto
qed

text \<open>
  There are as many descriptions as descriptors, so a free descriptor comes with a free
  description: \<open>okm_fd_bind\<close> after \<open>okm_fd_alloc\<close> is never refused.
\<close>

lemma desc_alloc_succeeds:
  assumes inv: "table_inv s" and f: "f < OKM_MAX_FD" and free: "fd_desc (g_fd s f) = OKM_FD_FREE"
  shows "\<exists>d s'. desc_alloc s = Some (d, s')"
proof (rule ccontr)
  assume "\<nexists>d s'. desc_alloc s = Some (d, s')"
  then have "desc_alloc s = None" by (cases "desc_alloc s") auto
  then have full: "d < OKM_MAX_DESC \<Longrightarrow> d_refs (g_desc s d) \<noteq> 0" for d
    by (auto simp: desc_alloc_def scan_up_None split: option.splits)
  have "{..<OKM_MAX_DESC} \<subseteq> (\<lambda>g. nat (fd_desc (g_fd s g))) ` ({..<OKM_MAX_FD} - {f})"
  proof
    fix d assume d: "d \<in> {..<OKM_MAX_DESC}"
    then have "refcount s d \<noteq> 0"
      using inv full [of d] by (auto simp: table_inv_def table_inv_x_def refs_ok_def)
    then obtain g where "g < OKM_MAX_FD" "fd_desc (g_fd s g) = int d"
      unfolding refcount_def by (metis (mono_tags, lifting) Collect_empty_eq card.empty)
    with free show "d \<in> (\<lambda>g. nat (fd_desc (g_fd s g))) ` ({..<OKM_MAX_FD} - {f})"
      by (intro rev_image_eqI [of g]) auto
  qed
  from card_mono [OF _ this] have "OKM_MAX_DESC \<le> card ((\<lambda>g. nat (fd_desc (g_fd s g))) ` ({..<OKM_MAX_FD} - {f}))"
    by simp
  also have "\<dots> \<le> card ({..<OKM_MAX_FD} - {f})" by (rule card_image_le) simp
  also have "\<dots> = OKM_MAX_FD - 1" using f by (simp add: card_Diff_singleton_if)
  finally show False by simp
qed

lemma okm_fd_bind_free:
  assumes inv: "table_inv s" and fd: "fd_in_range fd"
    and free: "fd_desc (g_fd s (nat fd)) = OKM_FD_FREE"
  obtains d where "d < OKM_MAX_DESC" "d_refs (g_desc s d) = 0"
    "okm_fd_bind K me fd kind stream file dir flags s =
       (fd, s\<lparr>g_desc := (g_desc s)(d := bound_desc kind stream file dir flags (g_desc s d)),
              g_fd := (g_fd s)(nat fd :=
                \<lparr>fd_desc = int d, fd_cloexec = (if has flags O_CLOEXEC then 1 else 0)\<rparr>)\<rparr>)"
proof -
  have "nat fd < OKM_MAX_FD" using fd by (auto simp: fd_in_range_def)
  from desc_alloc_succeeds [OF inv this free] obtain d s' where al: "desc_alloc s = Some (d, s')"
    by blast
  show ?thesis
    by (rule that [OF desc_alloc_Some(1,2) [OF al]]) (simp add: okm_fd_bind_eq [OF fd al] free Let_def)
qed

lemma okm_desc_of_fd: "okm_desc_of fd s = Some d \<longleftrightarrow> fd_in_range fd \<and> fd_desc (g_fd s (nat fd)) = int d"
  by (auto simp: okm_desc_of_def Let_def)

lemma okm_desc_of_live:
  assumes "table_inv s" "okm_desc_of fd s = Some d"
  shows "live s d"
proof -
  have f: "nat fd < OKM_MAX_FD" and e: "fd_desc (g_fd s (nat fd)) = int d"
    using assms(2) by (auto simp: okm_desc_of_fd fd_in_range_def)
  then have d: "d < OKM_MAX_DESC" using assms(1) by (force simp: table_inv_def table_inv_x_def)
  with assms(1) refcount_pos [OF f e] show ?thesis
    by (auto simp: live_def table_inv_def table_inv_x_def refs_ok_def)
qed

lemma okm_desc_of_release [simp]:
  "okm_desc_of g (okm_fd_release K me fd s) =
     (if g = fd \<and> fd_in_range fd then None else okm_desc_of g s)"
  by (auto simp: okm_desc_of_def okm_fd_release_def Let_def fd_in_range_def)

lemma okm_desc_of_cong: "g_fd s = g_fd t \<Longrightarrow> okm_desc_of fd s = okm_desc_of fd t"
  by (simp add: okm_desc_of_def)

section \<open>The names of directories\<close>

lemma path_slot_alloc_Some:
  assumes "path_slot_alloc s = Some (i, s')"
  shows "i < OKM_MAX_DIRS" "\<not> g_dirpath_used s i"
    "s' = s\<lparr>g_dirpath_used := (g_dirpath_used s)(i := True), g_dirpath := (g_dirpath s)(i := [])\<rparr>"
  using assms by (auto simp: path_slot_alloc_def split: option.splits dest: scan_upD)

lemma give_slot_names:
  assumes ok: "names_ok s" and d: "live s d" "d_path_slot (g_desc s d) < 0"
    and i: "i < OKM_MAX_DIRS" "\<not> g_dirpath_used s i"
  shows "names_ok (s\<lparr>g_dirpath_used := (g_dirpath_used s)(i := True), g_dirpath := P,
                     g_desc := (g_desc s)(d := (g_desc s d)\<lparr>d_path_slot := int i\<rparr>)\<rparr>)"
    (is "names_ok ?t")
proof -
  have live: "live ?t e \<longleftrightarrow> live s e" for e by (simp add: live_def)
  have slot: "d_path_slot (g_desc ?t e) = (if e = d then int i else d_path_slot (g_desc s e))" for e
    by simp
  have used: "g_dirpath_used ?t j \<longleftrightarrow> j = i \<or> g_dirpath_used s j" for j by simp
  have fresh: "live s e \<Longrightarrow> d_path_slot (g_desc s e) \<noteq> int i" for e
    using ok i by (auto simp: names_ok_def)
  have own: "g_dirpath_used s j \<longleftrightarrow> (\<exists>e. live s e \<and> d_path_slot (g_desc s e) = int j)"
    if "j < OKM_MAX_DIRS" for j
    using ok that by (simp add: names_ok_def)
  show ?thesis
    unfolding names_ok_def live slot used
  proof (intro conjI allI impI)
    fix j assume j: "j < OKM_MAX_DIRS"
    show "j = i \<or> g_dirpath_used s j \<longleftrightarrow>
        (\<exists>e. live s e \<and> (if e = d then int i else d_path_slot (g_desc s e)) = int j)"
      unfolding own [OF j] using d by (metis nat_int not_less of_nat_0_le_iff)
  qed (use ok d i fresh in \<open>auto simp: names_ok_def split: if_splits\<close>)
qed

lemma okm_dir_remember_inv [okm_inv]:
  assumes inv: "table_inv s"
  shows "table_inv (okm_dir_remember K fd absn s)"
proof -
  have cong: "table_inv (t\<lparr>g_dirpath := P\<rparr>) = table_inv t"
    "table_inv (t\<lparr>g_dirlong := L\<rparr>) = table_inv t"
    "table_inv (path_slot_clear k t) = table_inv t" for t :: "'a okm" and P L k
    unfolding table_inv_def path_slot_clear_def by (rule table_inv_x_cong; simp)+
  have give: "table_inv (s'\<lparr>g_desc := (g_desc s')(d := (g_desc s' d)\<lparr>d_path_slot := int i\<rparr>)\<rparr>)"
    if "okm_desc_of fd s = Some d" "path_slot_alloc s = Some (i, s')" "d_path_slot (g_desc s d) < 0"
    for d i s'
    using inv give_slot_names [OF _ okm_desc_of_live [OF inv that(1)] that(3) path_slot_alloc_Some(1,2) [OF that(2)]]
    by (auto simp: path_slot_alloc_Some(3) [OF that(2)] table_inv_def table_inv_x_def refs_ok_def
        refcount_def)
  show ?thesis
    using inv give
    by (auto simp: okm_dir_remember_def Let_def cong split: option.splits)
qed

text \<open>A remembered name is the whole name, or the directory is left without one.\<close>

lemma okm_dir_remember_whole:
  assumes "okm_desc_of fd s = Some d" "d_kind (g_desc s d) = OKM_DIR" "absn \<noteq> []"
  shows "dir_name (okm_dir_remember K fd absn s) (g_desc (okm_dir_remember K fd absn s) d) \<in> {Some absn, None}"
  using assms
  by (auto simp: okm_dir_remember_def Let_def dir_name_def path_slot_clear_def copy_str_def
      path_slot_alloc_def split: option.splits)

section \<open>Every reachable table\<close>

text \<open>
  The image's static memory: every byte zero but the working directory, which is \<open>/\<close>.
\<close>

definition zero_desc :: okm_desc where
  "zero_desc = \<lparr>d_refs = 0, d_kind = OKM_FREE, d_flags = 0, d_stream = 0, d_file = 0, d_dir = 0,
     d_iter = 0, d_iter_open = False, d_path_slot = 0, d_pending = False, d_pending_kind = kal_node_absent,
     d_pending_name = [], d_sock = 0, d_ahead = False, d_ahead_eof = False, d_ahead_byte = 0\<rparr>"

definition zero_okm :: "'e \<Rightarrow> 'e okm" where
  "zero_okm e = \<lparr>g_desc = (\<lambda>_. zero_desc), g_fd = (\<lambda>_. \<lparr>fd_desc = 0, fd_cloexec = 0\<rparr>),
     g_dirpath = (\<lambda>_. []), g_dirlong = (\<lambda>_. None), g_dirpath_used = (\<lambda>_. False),
     g_std_stream = (\<lambda>_. 0), g_settling = [], g_sock = (\<lambda>_. zero_sock None), g_pre = [],
     okm_cwd_dir = 0, g_cwd = ''/'', env = e\<rparr>"

inductive fd_step :: "'e kal \<Rightarrow> 'e okm \<Rightarrow> 'e okm \<Rightarrow> bool" for K where
  bind: "kind \<noteq> OKM_FREE \<Longrightarrow> fd_step K s (snd (okm_fd_bind K me fd kind stream file dir flags s))"
| dup: "fd_step K s (snd (okm_fd_dup K me fd newfd cloexec s))"
| release: "fd_step K s (okm_fd_release K me fd s)"
| cloexec: "fd_step K s (snd (okm_fd_cloexec fd on s))"
| remember: "fd_step K s (okm_dir_remember K fd absn s)"
| unlock: "fd_step K s (okm_unlock K me s)"

lemma table_inv_init: "table_inv (okm_table_init_memory (zero_okm e))"
  by (auto simp: table_inv_def table_inv_x_def refs_ok_def names_ok_def live_def refcount_def
      okm_table_init_memory_def zero_okm_def zero_desc_def)

lemma fd_step_inv: "fd_step K s t \<Longrightarrow> table_inv s \<Longrightarrow> table_inv t"
  by (induction rule: fd_step.induct) (auto intro: okm_inv)

interpretation fds: invariant_system "\<lambda>s. \<exists>e. s = okm_table_init_memory (zero_okm e)" "fd_step K" table_inv
  for K :: "'e kal"
  by unfold_locales (auto simp: table_inv_init intro: fd_step_inv)

section \<open>The contract of the table\<close>

locale descriptor_table =
  fixes inv :: "'s \<Rightarrow> bool"
    and alloc :: "'s \<Rightarrow> int"
    and refers :: "int \<Rightarrow> 's \<Rightarrow> 'd option"
    and put :: "int \<Rightarrow> 's \<Rightarrow> int \<times> 's"
    and drop :: "int \<Rightarrow> 's \<Rightarrow> 's"
  assumes alloc_free: "0 \<le> alloc s \<Longrightarrow> refers (alloc s) s = None"
    and put_ok: "inv s \<Longrightarrow> 0 \<le> alloc s \<Longrightarrow> fst (put (alloc s) s) = alloc s"
    and put_refers: "inv s \<Longrightarrow> 0 \<le> alloc s \<Longrightarrow> refers (alloc s) (snd (put (alloc s) s)) \<noteq> None"
    and put_other: "inv s \<Longrightarrow> 0 \<le> alloc s \<Longrightarrow> g \<noteq> alloc s \<Longrightarrow>
                      refers g (snd (put (alloc s) s)) = refers g s"
    and put_inv: "inv s \<Longrightarrow> inv (snd (put fd s))"
    and drop_refers: "refers g (drop fd s) = (if g = fd then None else refers g s)"
    and drop_inv: "inv s \<Longrightarrow> inv (drop fd s)"
begin

lemma put_drop:
  assumes "inv s" "0 \<le> alloc s" "put (alloc s) s = (r, t)"
  shows "refers g (drop (alloc s) t) = refers g s"
  using put_other [OF assms(1,2), of g] alloc_free [OF assms(2)] assms(3)
  by (auto simp: drop_refers)

lemma put_twice:
  assumes "inv s" "0 \<le> alloc s" "put (alloc s) s = (r, t)"
  shows "alloc t \<noteq> alloc s"
  using put_refers [OF assms(1,2)] alloc_free [of t] assms by auto

end

lemma fd_alloc_in_range: "0 \<le> okm_fd_alloc from s \<Longrightarrow> fd_in_range (okm_fd_alloc from s)"
  using okm_fd_alloc_range [of "from" s] by (simp add: fd_in_range_def)

lemma fd_alloc_refers_none: "0 \<le> okm_fd_alloc from s \<Longrightarrow> okm_desc_of (okm_fd_alloc from s) s = None"
  using okm_fd_alloc_free [of "from" s] by (simp add: okm_desc_of_def)

lemma okm_desc_of_bind:
  assumes "table_inv s" "fd_in_range fd" "fd_desc (g_fd s (nat fd)) = OKM_FD_FREE"
  shows "fst (okm_fd_bind K me fd kind stream file dir flags s) = fd"
    "okm_desc_of fd (snd (okm_fd_bind K me fd kind stream file dir flags s)) \<noteq> None"
    "g \<noteq> fd \<Longrightarrow> okm_desc_of g (snd (okm_fd_bind K me fd kind stream file dir flags s)) = okm_desc_of g s"
proof -
  obtain d where eq: "okm_fd_bind K me fd kind stream file dir flags s =
       (fd, s\<lparr>g_desc := (g_desc s)(d := bound_desc kind stream file dir flags (g_desc s d)),
              g_fd := (g_fd s)(nat fd :=
                \<lparr>fd_desc = int d, fd_cloexec = (if has flags O_CLOEXEC then 1 else 0)\<rparr>)\<rparr>)"
    by (rule okm_fd_bind_free [OF assms])
  show "fst (okm_fd_bind K me fd kind stream file dir flags s) = fd"
    and "okm_desc_of fd (snd (okm_fd_bind K me fd kind stream file dir flags s)) \<noteq> None"
    using assms(2) by (simp_all add: eq okm_desc_of_def)
  show "okm_desc_of g (snd (okm_fd_bind K me fd kind stream file dir flags s)) = okm_desc_of g s"
    if "g \<noteq> fd"
    using that assms(2) by (auto simp: eq okm_desc_of_def fd_in_range_def nat_eq_iff)
qed

text \<open>
  The model's table keeps the contract, for a descriptor of any kind but a free one
  (a descriptor out of range refers to nothing and is dropped by doing nothing).
\<close>

interpretation fdt: descriptor_table
  table_inv "okm_fd_alloc 0" okm_desc_of
  "\<lambda>fd. okm_fd_bind K me fd (if kind = OKM_FREE then OKM_NULL else kind) st f d fl"
  "okm_fd_release K me"
  for K :: "'e kal" and me kind st f d fl
proof
  fix s :: "'e okm" and g fd
  let ?b = "\<lambda>fd. okm_fd_bind K me fd (if kind = OKM_FREE then OKM_NULL else kind) st f d fl"
  let ?a = "okm_fd_alloc 0 s"
  show "0 \<le> ?a \<Longrightarrow> okm_desc_of ?a s = None" by (rule fd_alloc_refers_none)
  note bind = okm_desc_of_bind [OF _ fd_alloc_in_range okm_fd_alloc_free]
  show "table_inv s \<Longrightarrow> 0 \<le> ?a \<Longrightarrow> fst (?b ?a s) = ?a" by (rule bind(1))
  show "table_inv s \<Longrightarrow> 0 \<le> ?a \<Longrightarrow> okm_desc_of ?a (snd (?b ?a s)) \<noteq> None" by (rule bind(2))
  show "table_inv s \<Longrightarrow> 0 \<le> ?a \<Longrightarrow> g \<noteq> ?a \<Longrightarrow> okm_desc_of g (snd (?b ?a s)) = okm_desc_of g s"
    by (rule bind(3))
  show "table_inv s \<Longrightarrow> table_inv (snd (?b fd s))" by (rule okm_fd_bind_inv) simp_all
  show "okm_desc_of g (okm_fd_release K me fd s) = (if g = fd then None else okm_desc_of g s)"
    by (simp add: okm_desc_of_def [of fd s])
  show "table_inv s \<Longrightarrow> table_inv (okm_fd_release K me fd s)" by (rule okm_fd_release_inv)
qed

section \<open>Properties of the table\<close>

lemma fd_alloc_init: "okm_fd_alloc 0 (okm_table_init_memory s) = 0"
  by (simp add: okm_fd_alloc_def okm_table_init_memory_def scan_up.simps)

text \<open>C2: In every state reached from the start of the program by any sequence of the table's
  operations, made by any contexts, the count of references a description carries is the number
  of descriptors that refer to it, a description is free exactly when that number is zero, the
  name slots in use are those of the live descriptions and no two share one, and no more than
  32 closes are outstanding.\<close>

theorem fd_reachable_inv:
  assumes "(fd_step K)\<^sup>*\<^sup>* (okm_table_init_memory (zero_okm e)) s"
  shows "table_inv s"
  using assms by (intro fds.reachable_inv) blast+

theorem fd_reachable_inv_witness:
  "table_inv (snd (okm_fd_dup bare_kal 7 0 5 0
     (snd (okm_fd_bind bare_kal 7 0 OKM_NULL 0 0 0 O_RDWR (okm_table_init_memory (zero_okm ()))))))"
proof (rule fd_reachable_inv [where K = bare_kal and e = "()"])
  let ?b = "snd (okm_fd_bind bare_kal 7 0 OKM_NULL 0 0 0 O_RDWR (okm_table_init_memory (zero_okm ())))"
  have "fd_step bare_kal (okm_table_init_memory (zero_okm ())) ?b" by (rule fd_step.bind) simp
  moreover have "fd_step bare_kal ?b (snd (okm_fd_dup bare_kal 7 0 5 0 ?b))" by (rule fd_step.dup)
  ultimately show "(fd_step bare_kal)\<^sup>*\<^sup>* (okm_table_init_memory (zero_okm ()))
      (snd (okm_fd_dup bare_kal 7 0 5 0 ?b))"
    by (meson rtranclp.rtrancl_into_rtrancl rtranclp.rtrancl_refl)
qed

text \<open>A descriptor \<open>okm_fd_alloc\<close> answered is always bound: \<open>okm_fd_bind\<close> finds a free
  description, the descriptor refers to it, it carries the kind, flags and handles given and
  nothing held from an earlier use, and no other descriptor refers to another description than
  before. So the callers that do not look at the answer of \<open>okm_fd_bind\<close> lose nothing.\<close>

theorem bind_after_alloc:
  assumes "table_inv s" and "okm_fd_alloc from s = fd" and "0 \<le> fd"
  shows "\<exists>d t. okm_fd_bind K me fd kind stream file dir flags s = (fd, t)
    \<and> okm_desc_of fd t = Some d \<and> d_refs (g_desc s d) = 0
    \<and> g_desc t d = bound_desc kind stream file dir flags (g_desc s d)
    \<and> okm_fd_get_cloexec fd t = (if has flags O_CLOEXEC then 1 else 0)
    \<and> (\<forall>g. g \<noteq> fd \<longrightarrow> okm_desc_of g t = okm_desc_of g s)
    \<and> (\<forall>d'. d' \<noteq> d \<longrightarrow> g_desc t d' = g_desc s d')"
proof -
  have r: "fd_in_range fd" and free: "fd_desc (g_fd s (nat fd)) = OKM_FD_FREE"
    using assms(2,3) fd_alloc_in_range okm_fd_alloc_free by blast+
  obtain d where d: "d < OKM_MAX_DESC" "d_refs (g_desc s d) = 0"
    and eq: "okm_fd_bind K me fd kind stream file dir flags s =
       (fd, s\<lparr>g_desc := (g_desc s)(d := bound_desc kind stream file dir flags (g_desc s d)),
              g_fd := (g_fd s)(nat fd :=
                \<lparr>fd_desc = int d, fd_cloexec = (if has flags O_CLOEXEC then 1 else 0)\<rparr>)\<rparr>)"
    by (rule okm_fd_bind_free [OF assms(1) r free])
  have "g \<noteq> fd \<Longrightarrow> okm_desc_of g (snd (okm_fd_bind K me fd kind stream file dir flags s)) = okm_desc_of g s"
    for g by (rule okm_desc_of_bind(3) [OF assms(1) r free])
  then show ?thesis
    using d r unfolding eq by (auto simp: okm_desc_of_fd okm_fd_get_cloexec_def)
qed

theorem bind_after_alloc_witness:
  "\<exists>d t. okm_fd_bind bare_kal 7 0 OKM_NULL 1 2 3 O_RDWR (okm_table_init_memory (zero_okm ())) = (0, t)
    \<and> okm_desc_of 0 t = Some d"
  using bind_after_alloc [OF table_inv_init fd_alloc_init, of bare_kal 7 OKM_NULL 1 2 3 O_RDWR "()"]
  by auto

text \<open>Obtaining a descriptor and closing it leaves every descriptor referring to what it
  referred to before, and two descriptors obtained one after the other are different.\<close>

theorem open_close_roundtrip:
  assumes "table_inv s" and "0 \<le> okm_fd_alloc 0 s" and "kind \<noteq> OKM_FREE"
    and "okm_fd_bind K me (okm_fd_alloc 0 s) kind stream file dir flags s = (r, t)"
  shows "r = okm_fd_alloc 0 s
    \<and> okm_desc_of g (okm_fd_release K me r t) = okm_desc_of g s
    \<and> table_inv (okm_fd_release K me r t)
    \<and> okm_fd_alloc 0 t \<noteq> r"
proof -
  have b: "okm_fd_bind K me (okm_fd_alloc 0 s) (if kind = OKM_FREE then OKM_NULL else kind)
             stream file dir flags s = (r, t)"
    using assms(3,4) by simp
  have r: "r = okm_fd_alloc 0 s"
    using fdt.put_ok [OF assms(1,2)] b by (metis fst_conv)
  have "table_inv t"
    using okm_fd_bind_inv [OF assms(1,3)] assms(4) by (metis snd_conv)
  then show ?thesis
    using r fdt.put_drop [OF assms(1,2) b] fdt.put_twice [OF assms(1,2) b]
    by (simp add: okm_fd_release_inv)
qed

theorem open_close_roundtrip_witness:
  "\<exists>r t. okm_fd_bind bare_kal 7 0 OKM_NULL 1 2 3 O_RDWR (okm_table_init_memory (zero_okm ())) = (r, t)
    \<and> r = 0 \<and> okm_desc_of 5 (okm_fd_release bare_kal 7 r t) = okm_desc_of 5 (okm_table_init_memory (zero_okm ()))"
proof -
  obtain r t where b: "okm_fd_bind bare_kal 7 0 OKM_NULL 1 2 3 O_RDWR
      (okm_table_init_memory (zero_okm ())) = (r, t)"
    by (metis prod.exhaust)
  with open_close_roundtrip [OF table_inv_init, of "()" OKM_NULL bare_kal 7 1 2 3 O_RDWR r t 5]
  show ?thesis
    using b by (intro exI [of _ r] exI [of _ t]) (auto simp: fd_alloc_init simp del: okm_desc_of_release)
qed

lemma okm_desc_of_unlock [simp]: "okm_desc_of fd (okm_unlock K me s) = okm_desc_of fd s"
  by (simp add: okm_desc_of_def)

lemma close_owned_env:
  assumes "env s = env t" "g_sock s = g_sock t" "p = q\<lparr>d_refs := r\<rparr>"
  shows "env (close_owned K p s) = env (close_owned K q t)"
  using assms
  by (simp add: close_owned_def okm_sock_release_def Let_def split: okm_kind.split option.split)

lemma okm_unlock_none:
  assumes "me \<notin> fst ` set (g_settling s)"
  shows "env (okm_unlock K me s) = env s"
proof -
  have "filter_mset (\<lambda>p. fst p = me) (mset (g_settling s)) = {#}"
    using assms by (force simp flip: mset_filter simp: filter_empty_conv)
  with okm_unlock_closes [of K me s]
  have "okm_unlock K me s = s\<lparr>g_settling := g_settling (okm_unlock K me s)\<rparr>" by simp
  from arg_cong [OF this, of env] show ?thesis by simp
qed

lemma okm_unlock_one:
  assumes "g_settling s = xs @ [(me, p)]" "me \<notin> fst ` set xs"
  shows "env (okm_unlock K me s) = env (close_owned K p s)"
proof -
  have "filter (\<lambda>q. fst q = me) xs = []"
    using assms(2) by (force simp: filter_empty_conv)
  then have "filter_mset (\<lambda>q. fst q = me) (mset (g_settling s)) = {#(me, p)#}"
    unfolding mset_filter [symmetric] by (simp add: assms(1))
  then obtain mine where "okm_unlock K me s =
       fold (close_owned K) mine (s\<lparr>g_settling := g_settling (okm_unlock K me s)\<rparr>)" "mset mine = {#p#}"
    using okm_unlock_closes [of K me s] by auto
  then have "env (okm_unlock K me s) =
      env (close_owned K p (s\<lparr>g_settling := g_settling (okm_unlock K me s)\<rparr>))"
    by (metis (no_types, lifting) fold_simps(1) fold_simps(2) mset_single_iff)
  also have "\<dots> = env (close_owned K p s)"
    by (rule close_owned_env [where r = "d_refs p"]) simp_all
  finally show ?thesis .
qed

lemma desc_release_settled:
  assumes d: "d < OKM_MAX_DESC" "0 < d_refs (g_desc s d)"
    and free: "length (g_settling s) < OKM_SETTLING_MAX" and me: "me \<notin> fst ` set (g_settling s)"
  shows "env (okm_unlock K me (desc_release K me (int d) s)) =
           env (if d_refs (g_desc s d) = 1 then close_owned K (g_desc s d) s else s)"
proof (cases "d_refs (g_desc s d) = 1")
  case False
  with d have "1 < d_refs (g_desc s d)" by simp
  from desc_release_shared [OF d(1) this, of K me] False show ?thesis
    by (simp add: okm_unlock_none me)
next
  case True
  let ?p = "(g_desc s d)\<lparr>d_refs := 0\<rparr>" and ?t = "desc_release K me (int d) s"
  let ?s1 = "s\<lparr>g_desc := (g_desc s)(d := ?p)\<rparr>"
  have settling: "g_settling ?t = g_settling (settle K me ?p ?s1)"
    and env: "env ?t = env (settle K me ?p ?s1)" and sock: "g_sock ?t = g_sock (settle K me ?p ?s1)"
    using d True by (simp_all add: desc_release_def path_slot_clear_def Let_def)
  have same: "env (close_owned K ?p ?s1) = env (close_owned K (g_desc s d) s)"
    by (rule close_owned_env [where r = 0]) simp_all
  show ?thesis
  proof (cases "d_kind (g_desc s d) \<in> {OKM_FILE, OKM_DIR, OKM_CHANNEL}")
    case owned: True
    then have eq: "settle K me ?p ?s1 = ?s1\<lparr>g_settling := g_settling s @ [(me, ?p)]\<rparr>"
      using free by (cases "d_kind (g_desc s d)") (simp_all add: settle_def)
    have "env (okm_unlock K me ?t) = env (close_owned K ?p ?t)"
      by (rule okm_unlock_one [OF _ me]) (simp add: settling eq)
    also have "\<dots> = env (close_owned K (g_desc s d) s)"
      by (rule close_owned_env [where r = 0]) (simp_all add: env sock eq)
    finally show ?thesis using True by simp
  next
    case False
    have "env (okm_unlock K me ?t) = env ?t"
    proof (rule okm_unlock_none)
      have "g_settling (settle K me ?p ?s1) = g_settling s"
        using False by (cases "d_kind (g_desc s d)") (simp_all add: settle_def)
      then show "me \<notin> fst ` set (g_settling ?t)" using me by (simp add: settling)
    qed
    also have "\<dots> = env (close_owned K (g_desc s d) s)"
      using False same unfolding env
      by (cases "d_kind (g_desc s d)") (simp_all add: settle_def close_owned_def)
    finally show ?thesis using True by simp
  qed
qed

text \<open>C5: When \<open>okm_fd_release\<close> and the unlock that follows it have returned, the environment
  has been told to close what the description owned if that was its last descriptor, and has
  been told nothing otherwise. (The context has no close of its own outstanding and the queue of
  outstanding closes has room, which is how every caller that closes one descriptor finds it.)\<close>

theorem close_closes_last:
  assumes "table_inv s" and "okm_desc_of fd s = Some d"
    and "length (g_settling s) < OKM_SETTLING_MAX" and "me \<notin> fst ` set (g_settling s)"
  shows "env (okm_unlock K me (okm_fd_release K me fd s)) =
           env (if refcount s d = 1 then close_owned K (g_desc s d) s else s)
    \<and> okm_desc_of fd (okm_unlock K me (okm_fd_release K me fd s)) = None"
proof -
  let ?s1 = "s\<lparr>g_fd := (g_fd s)(nat fd := \<lparr>fd_desc = OKM_FD_FREE, fd_cloexec = 0\<rparr>)\<rparr>"
  have r: "fd_in_range fd" and e: "fd_desc (g_fd s (nat fd)) = int d"
    using assms(2) by (auto simp: okm_desc_of_fd)
  have l: "d < OKM_MAX_DESC" "0 < d_refs (g_desc s d)"
    using okm_desc_of_live [OF assms(1,2)] by (auto simp: live_def)
  then have refs: "d_refs (g_desc s d) = int (refcount s d)"
    using assms(1) by (simp add: table_inv_def table_inv_x_def refs_ok_def)
  have eq: "okm_fd_release K me fd s = desc_release K me (int d) ?s1"
    using r e by (simp add: okm_fd_release_def)
  have "env (okm_unlock K me (okm_fd_release K me fd s)) =
          env (if d_refs (g_desc s d) = 1 then close_owned K (g_desc s d) ?s1 else ?s1)"
    unfolding eq using desc_release_settled [of d ?s1 me K] l assms(3,4) by simp
  also have "\<dots> = env (if refcount s d = 1 then close_owned K (g_desc s d) s else s)"
    using close_owned_env [of ?s1 s "g_desc s d" "d_refs (g_desc s d)" "g_desc s d" K] refs by simp
  finally show ?thesis
    using r by simp
qed

text \<open>A table with one descriptor, for a file whose handle is 2.\<close>

definition one_file :: "kal_file list okm" where
  "one_file = snd (okm_fd_bind closing_kal 7 0 OKM_FILE 0 2 0 O_RDWR (okm_table_init_memory (zero_okm [])))"

lemma one_file_facts:
  "table_inv one_file" "okm_desc_of 0 one_file = Some 0" "g_settling one_file = []"
  "refcount one_file 0 = 1" "d_kind (g_desc one_file 0) = OKM_FILE" "d_file (g_desc one_file 0) = 2"
  "env one_file = []"
proof -
  have al: "desc_alloc (okm_table_init_memory (zero_okm ([] :: kal_file list))) =
      Some (0, (okm_table_init_memory (zero_okm []))\<lparr>g_desc := (\<lambda>_. zero_desc)(0 := zero_desc\<lparr>d_refs := 1\<rparr>)\<rparr>)"
    by (simp add: desc_alloc_def scan_up.simps okm_table_init_memory_def zero_okm_def zero_desc_def)
  have eq: "one_file = (okm_table_init_memory (zero_okm []))\<lparr>
      g_desc := (\<lambda>_. zero_desc)(0 := bound_desc OKM_FILE 0 2 0 O_RDWR zero_desc),
      g_fd := (g_fd (okm_table_init_memory (zero_okm ([] :: kal_file list))))(0 := \<lparr>fd_desc = 0, fd_cloexec = 0\<rparr>)\<rparr>"
    unfolding one_file_def
    by (subst okm_fd_bind_eq [OF _ al])
      (simp_all add: fd_in_range_def okm_table_init_memory_def zero_okm_def has_def)
  show "table_inv one_file"
    unfolding one_file_def by (rule okm_fd_bind_inv [OF table_inv_init]) simp
  have "{fd. fd < OKM_MAX_FD \<and> fd_desc (g_fd one_file fd) = int 0} = {0}"
    by (auto simp: eq okm_table_init_memory_def)
  then show "refcount one_file 0 = 1" by (simp add: refcount_def)
  show "okm_desc_of 0 one_file = Some 0" "g_settling one_file = []" "env one_file = []"
    "d_kind (g_desc one_file 0) = OKM_FILE" "d_file (g_desc one_file 0) = 2"
    by (simp_all add: eq okm_desc_of_def fd_in_range_def okm_table_init_memory_def zero_okm_def bound_desc_def)
qed

theorem close_closes_last_witness:
  "env (okm_unlock closing_kal 7 (okm_fd_release closing_kal 7 0 one_file)) = [2]"
  using close_closes_last [OF one_file_facts(1,2), of 7 closing_kal]
  by (simp add: one_file_facts close_owned_def closing_kal_def bare_kal_def)

text \<open>A duplicate refers to the description of the original, the original still does, and no
  other descriptor is affected; a request that names no open descriptor is refused and changes
  nothing.\<close>

theorem dup_shares:
  assumes "okm_fd_dup K me fd newfd cloexec s = (r, t)"
  shows "(okm_desc_of fd s = None \<longrightarrow> r = - EBADF \<and> t = s)
    \<and> (0 \<le> r \<longrightarrow> okm_desc_of r t = okm_desc_of fd s \<and> okm_desc_of fd s \<noteq> None
          \<and> (0 \<le> newfd \<longrightarrow> r = newfd)
          \<and> (\<forall>g. g \<noteq> r \<longrightarrow> okm_desc_of g t = okm_desc_of g s))
    \<and> (r < 0 \<longrightarrow> t = s \<and> r \<in> {- EBADF, - EMFILE})"
proof (cases "okm_desc_of fd s")
  case None
  then have "okm_fd_dup K me fd newfd cloexec s = (- EBADF, s)"
    by (auto simp: okm_fd_dup_def okm_desc_of_def Let_def split: if_splits)
  with assms None show ?thesis by simp
next
  case (Some d)
  then have fd: "fd_in_range fd" "fd_desc (g_fd s (nat fd)) = int d"
    by (simp_all add: okm_desc_of_fd)
  define n where "n = (if newfd < 0 then okm_fd_alloc 0 s else newfd)"
  consider "n < 0" | "int OKM_MAX_FD \<le> n" | "n = fd" | "fd_in_range n" "n \<noteq> fd"
    by (force simp: fd_in_range_def)
  then show ?thesis
  proof cases
    case 1
    then have "okm_fd_dup K me fd newfd cloexec s = (n, s)" "n = - EMFILE"
      using fd okm_fd_alloc_neg [of 0 s] by (auto simp: okm_fd_dup_def Let_def n_def split: if_splits)
    with assms Some show ?thesis by simp
  next
    case 2
    then have "okm_fd_dup K me fd newfd cloexec s = (- EBADF, s)"
      using fd by (simp add: okm_fd_dup_def Let_def flip: n_def)
    with assms Some show ?thesis by simp
  next
    case 3
    then have "okm_fd_dup K me fd newfd cloexec s = (fd, s)" "0 \<le> newfd \<longrightarrow> fd = newfd"
      using fd by (auto simp: okm_fd_dup_def Let_def fd_in_range_def simp flip: n_def) (simp add: n_def)
    with assms Some fd show ?thesis by (simp add: fd_in_range_def)
  next
    case 4
    then have r: "r = n" and t: "g_fd t = (g_fd s)(nat n := \<lparr>fd_desc = int d, fd_cloexec = cloexec\<rparr>)"
      using assms fd by (auto simp: okm_fd_dup_def Let_def fd_in_range_def simp flip: n_def)
    have "okm_desc_of g t = (if g = n then Some d else okm_desc_of g s)" for g
      using 4 by (auto simp: okm_desc_of_def t fd_in_range_def nat_eq_iff)
    then show ?thesis
      using 4 Some by (auto simp: r fd_in_range_def n_def)
  qed
qed

theorem dup_shares_witness:
  "fst (okm_fd_dup closing_kal 7 0 5 0 one_file) = 5
    \<and> okm_desc_of 5 (snd (okm_fd_dup closing_kal 7 0 5 0 one_file)) = Some 0"
proof -
  have f: "fd_in_range 0" "fd_desc (g_fd one_file (nat 0)) = int 0"
    using one_file_facts(2) by (simp_all only: okm_desc_of_fd)
  obtain r t where rt: "okm_fd_dup closing_kal 7 0 5 0 one_file = (r, t)" by fastforce
  then have "r = 5" using f by (simp add: okm_fd_dup_def Let_def)
  then show ?thesis
    using dup_shares [OF rt] one_file_facts(2) by (simp add: rt)
qed


section \<open>Leaving nothing open\<close>

lemma close_all_fold:
  assumes "table_inv s"
  shows "table_inv (fold (\<lambda>fd s. if 0 \<le> fd_desc (g_fd s fd) then okm_fd_release K me (int fd) s else s) fds s)
    \<and> (\<forall>g. okm_desc_of g (fold (\<lambda>fd s. if 0 \<le> fd_desc (g_fd s fd) then okm_fd_release K me (int fd) s else s) fds s)
          = (if g \<in> int ` set fds then None else okm_desc_of g s))"
  using assms
proof (induction fds arbitrary: s)
  case (Cons fd fds)
  define u where "u = (if 0 \<le> fd_desc (g_fd s fd) then okm_fd_release K me (int fd) s else s)"
  have inv: "table_inv u" using Cons.prems by (simp add: u_def okm_fd_release_inv)
  have "fd_desc (g_fd s fd) < 0 \<or> \<not> fd_in_range (int fd) \<Longrightarrow> okm_desc_of (int fd) s = None"
    by (auto simp: okm_desc_of_def)
  then have "okm_desc_of g u = (if g = int fd then None else okm_desc_of g s)" for g
    unfolding u_def by auto
  then show ?case
    using Cons.IH [OF inv] unfolding fold_simps(2) u_def [symmetric] by simp
qed simp

lemma close_all_for_exec_none:
  assumes "table_inv s"
  shows "table_inv (okm_close_all_for_exec K me s)" "okm_desc_of g (okm_close_all_for_exec K me s) = None"
proof -
  note f = close_all_fold [OF assms, of K me "[0..<OKM_MAX_FD]"]
  show "table_inv (okm_close_all_for_exec K me s)"
    unfolding okm_close_all_for_exec_def using f by (intro okm_unlock_inv) simp
  have "okm_desc_of g s = None" if "g \<notin> int ` {0..<OKM_MAX_FD}"
  proof -
    have "\<not> fd_in_range g"
    proof
      assume "fd_in_range g"
      then have "g = int (nat g)" "nat g < OKM_MAX_FD" by (auto simp: fd_in_range_def)
      then show False using that by (metis atLeastLessThan_iff image_eqI le0)
    qed
    then show ?thesis by (simp add: okm_desc_of_def)
  qed
  then show "okm_desc_of g (okm_close_all_for_exec K me s) = None" unfolding okm_close_all_for_exec_def using f by simp
qed

text \<open>When \<open>__okm_close_all_for_exec\<close> returns no descriptor is open and every description is
  free: the image that waits for the program it started holds nothing open on its behalf.\<close>

theorem exec_closes_all:
  assumes "table_inv s"
  shows "okm_desc_of fd (okm_close_all_for_exec K me s) = None
    \<and> (d < OKM_MAX_DESC \<longrightarrow> d_kind (g_desc (okm_close_all_for_exec K me s) d) = OKM_FREE)"
proof -
  let ?t = "okm_close_all_for_exec K me s"
  note inv = close_all_for_exec_none(1) [OF assms, of K me] and none = close_all_for_exec_none(2) [OF assms, where K = K and me = me]
  have "d_kind (g_desc ?t d) = OKM_FREE" if d: "d < OKM_MAX_DESC"
  proof -
    have "fd_desc (g_fd ?t f) \<noteq> int d" if "f < OKM_MAX_FD" for f
      using none [of "int f"] that by (auto simp: okm_desc_of_def fd_in_range_def Let_def split: if_splits)
    then have "refcount ?t d = 0" by (auto simp: refcount_def)
    then have "d_refs (g_desc ?t d) = 0"
      using inv d by (simp add: table_inv_def table_inv_x_def refs_ok_def)
    then show ?thesis using inv d by (simp add: table_inv_def table_inv_x_def)
  qed
  with none show ?thesis by blast
qed

theorem exec_closes_all_witness: "okm_desc_of 0 (okm_close_all_for_exec closing_kal 7 one_file) = None"
  using exec_closes_all [OF one_file_facts(1), of 0 closing_kal 7 0] by blast

end
