(* ===== verification/Okm_Names.thy ===== *)
theory Okm_Names
  imports Okm_Fd
begin

text \<open>
  Names (port/src/okm_fd.c, from the supplied directories to \<open>okm_null_name\<close>): POSIX resolves a
  name against one root, openkal supplies a set of directories and refuses a name that ascends.
  A name is made absolute and reduced lexically (\<open>normalise\<close>, \<open>join\<close>), the supplied directory
  whose name is the longest prefix is chosen, and the remainder is what openkal is given
  (\<open>okm_resolve\<close>).

  The buffers of \<open>OKM_MAX_PATH\<close> bytes are strings; what does not fit is refused, as the code
  refuses it. A path argument that may be a null pointer is an \<open>option\<close>.
\<close>

section \<open>Lexical reduction\<close>

text \<open>The component that \<open>..\<close> removes from the output, with its separator.\<close>

definition drop_component :: "string \<Rightarrow> string" where
  "drop_component out =
     (let o1 = rev (dropWhile (\<lambda>c. c \<noteq> SEP) (rev out)) in if o1 = [] then [] else butlast o1)"

lemma normalise_decreases:
  assumes "dropWhile (\<lambda>c. c = SEP) p \<noteq> []"
  shows "length (dropWhile (\<lambda>c. c \<noteq> SEP) (dropWhile (\<lambda>c. c = SEP) p)) < length p"
proof -
  let ?q = "dropWhile (\<lambda>c. c = SEP) p"
  have "hd ?q \<noteq> SEP" using assms by (rule hd_dropWhile)
  then have "length (dropWhile (\<lambda>c. c \<noteq> SEP) ?q) \<le> length (tl ?q)"
    using assms by (cases ?q) (auto simp: length_dropWhile_le)
  also have "\<dots> < length ?q" using assms by simp
  also have "\<dots> \<le> length p" by (rule length_dropWhile_le)
  finally show ?thesis .
qed

text \<open>\<open>normalise\<close>: the loop over what is left of the input, the output so far and its room.\<close>

function normalise_loop :: "nat \<Rightarrow> string \<Rightarrow> string \<Rightarrow> int + string" where
  "normalise_loop cap p out =
     (let p1 = dropWhile (\<lambda>c. c = SEP) p in
      if p1 = [] then Inr out
      else
        let s = takeWhile (\<lambda>c. c \<noteq> SEP) p1; p2 = dropWhile (\<lambda>c. c \<noteq> SEP) p1; n = length s in
        if n = 1 \<and> cat s 0 = CHR ''.'' then normalise_loop cap p2 out
        else if n = 2 \<and> cat s 0 = CHR ''.'' \<and> cat s 1 = CHR ''.''
        then normalise_loop cap p2 (drop_component out)
        else if cap < length out + n + 2 then Inl (- ENAMETOOLONG)
        else normalise_loop cap p2 ((if out \<noteq> [] then out @ [SEP] else out) @ s))"
  by pat_completeness auto
termination
  by (relation "measure (\<lambda>(cap, p, out). length p)") (auto simp: normalise_decreases)

declare normalise_loop.simps [simp del]

definition normalise :: "string \<Rightarrow> nat \<Rightarrow> int + string" where
  "normalise inp cap = normalise_loop cap inp []"

section \<open>Roots and prefixes\<close>

abbreviation char_code :: "char \<Rightarrow> nat" where
  "char_code c \<equiv> of_char c"

definition is_letter :: "char \<Rightarrow> bool" where
  "is_letter c \<longleftrightarrow> (65 \<le> char_code c \<and> char_code c \<le> 90) \<or> (97 \<le> char_code c \<and> char_code c \<le> 122)"

definition root_length :: "string \<Rightarrow> nat" where
  "root_length name =
     (if name = [] then 0
      else if cat name 0 = SEP then 1
      else if cat name 1 = CHR '':'' \<and> (cat name 2 = SEP \<or> cat name 2 = BSEP) \<and> is_letter (cat name 0)
      then 3 else 0)"

definition to_lower :: "char \<Rightarrow> char" where
  "to_lower c = (if 65 \<le> char_code c \<and> char_code c \<le> 90 then char_of (char_code c + 32) else c)"

definition same_char :: "char \<Rightarrow> char \<Rightarrow> bool \<Rightarrow> bool" where
  "same_char a b volume =
     (if a = b then True
      else if \<not> volume then False
      else if (a = SEP \<or> a = BSEP) \<and> (b = SEP \<or> b = BSEP) then True
      else to_lower a = to_lower b)"

text \<open>A supplied directory whose name is spelled with a volume.\<close>

definition is_volume :: "string \<Rightarrow> bool" where
  "is_volume name \<longleftrightarrow> 2 \<le> length name \<and> cat name 1 = CHR '':''"

definition is_prefix_at_boundary :: "string \<Rightarrow> string \<Rightarrow> bool" where
  "is_prefix_at_boundary name absn =
     (let len = length name; volume = is_volume name in
      if len = 0 then False
      else if \<exists>i < len. \<not> same_char (cat absn i) (cat name i) volume then False
      else if cat name (len - 1) = SEP \<or> (volume \<and> cat name (len - 1) = BSEP) then True
      else cat absn len = NUL \<or> cat absn len = SEP \<or> (volume \<and> cat absn len = BSEP))"

section \<open>Absolute names\<close>

text \<open>\<open>for (p = s; *p && o + 1 < sizeof tmp; p++) tmp[o++] = *p;\<close>\<close>

definition append_bounded :: "string \<Rightarrow> string \<Rightarrow> string" where
  "append_bounded tmp s = tmp @ take (OKM_MAX_PATH - 1 - length tmp) s"

definition slashes :: "string \<Rightarrow> string" where
  "slashes s = map (\<lambda>c. if c = BSEP then SEP else c) s"

definition join :: "string \<Rightarrow> string \<Rightarrow> nat \<Rightarrow> int + string" where
  "join prefix rel cap =
     (let rroot = root_length rel;
          proot = (if rroot \<noteq> 0 then 0 else root_length prefix);
          base = (if rroot \<noteq> 0 then [] else drop proot prefix);
          t1 = append_bounded [] base;
          t2 = (if t1 \<noteq> [] \<and> last t1 \<noteq> SEP then append_bounded t1 [SEP] else t1);
          t3 = append_bounded t2 (drop rroot rel)
      in if OKM_MAX_PATH \<le> length t3 + 1 then Inl (- ENAMETOOLONG)
         else
           let keep = (if rroot \<noteq> 0 then rroot else proot);
               from = (if rroot \<noteq> 0 then rel else prefix);
               t4 = (if keep = 3 \<and> cat from 1 = CHR '':'' then slashes t3 else t3)
           in if cap \<le> keep + 1 then Inl (- ENAMETOOLONG)
              else map_sum id (\<lambda>body. slashes (take keep from) @ body) (normalise t4 (cap - keep)))"

text \<open>\<open>already_normal\<close>: the length of a name \<open>join\<close> would leave as it is, or zero.\<close>

function already_normal_loop :: "string \<Rightarrow> bool" where
  "already_normal_loop p =
     (if p = [] then True
      else
        let s = takeWhile (\<lambda>c. c \<noteq> SEP) p; p' = dropWhile (\<lambda>c. c \<noteq> SEP) p; len = length s in
        if len = 0 then False
        else if cat s 0 = CHR ''.'' \<and> (len = 1 \<or> (len = 2 \<and> cat s 1 = CHR ''.'')) then False
        else if p' \<noteq> [] then (if tl p' = [] then False else already_normal_loop (tl p'))
        else True)"
  by pat_completeness auto
termination
proof (relation "measure length", simp, goal_cases)
  case (1 p s p' len)
  have "length (dropWhile (\<lambda>c. c \<noteq> SEP) p) \<le> length p" by (rule length_dropWhile_le)
  moreover have "p' \<noteq> []" "p' = dropWhile (\<lambda>c. c \<noteq> SEP) p" using 1 by blast+
  ultimately have "length p' \<le> length p" "0 < length p'" by blast+
  then have "length (tl p') < length p" unfolding length_tl by linarith
  then show ?case by simp
qed

declare already_normal_loop.simps [simp del]

definition already_normal :: "string \<Rightarrow> nat" where
  "already_normal path =
     (if cat path 0 \<noteq> SEP then 0
      else if already_normal_loop (tl path)
      then (if length path < OKM_MAX_PATH then length path else 0)
      else 0)"

section \<open>Resolution\<close>

record okm_at =
  at_base :: kal_dir
  at_len :: nat
  at_rel :: string

lemma ascends_decreases:
  "p \<noteq> [] \<Longrightarrow> length (dropWhile (\<lambda>c. c = SEP) (dropWhile (\<lambda>c. c \<noteq> SEP) p)) < length p"
  by (cases p) (auto intro: le_imp_less_Suc order.trans [OF length_dropWhile_le length_dropWhile_le]
      simp: length_dropWhile_le)

text \<open>Whether a component of a name is \<open>..\<close>: the check of a name beneath a directory whose own
  name is not known.\<close>

function ascends :: "string \<Rightarrow> bool" where
  "ascends p =
     (if p = [] then False
      else if cat p 0 = CHR ''.'' \<and> cat p 1 = CHR ''.'' \<and> (cat p 2 = SEP \<or> cat p 2 = NUL) then True
      else ascends (dropWhile (\<lambda>c. c = SEP) (dropWhile (\<lambda>c. c \<noteq> SEP) p)))"
  by pat_completeness auto
termination
  by (relation "measure length") (simp_all add: ascends_decreases)

declare ascends.simps [simp del]

text \<open>The supplied directory whose name is the longest prefix; the first of those as long.\<close>

fun best_prefix :: "string \<Rightarrow> (kal_dir \<times> string) list \<Rightarrow> (kal_dir \<times> string) option
    \<Rightarrow> (kal_dir \<times> string) option" where
  "best_prefix absn [] best = best"
| "best_prefix absn (p # ps) best =
     (if \<not> is_prefix_at_boundary (snd p) absn then best_prefix absn ps best
      else case best of
             None \<Rightarrow> best_prefix absn ps (Some p)
           | Some b \<Rightarrow> if length (snd b) < length (snd p) then best_prefix absn ps (Some p)
                       else best_prefix absn ps best)"

text \<open>The end of \<open>okm_resolve\<close>, once the absolute name is known; \<open>abs_len\<close> is its length when the
  name was taken as it stands and zero otherwise.\<close>

definition resolve_abs :: "'e okm \<Rightarrow> string \<Rightarrow> nat \<Rightarrow> int + okm_at" where
  "resolve_abs s absn abs_len =
     (case best_prefix absn (g_pre s) None of
        None \<Rightarrow> Inl (- ENOENT)
      | Some (dir, name) \<Rightarrow>
          let rest = dropWhile (\<lambda>c. c = SEP \<or> (c = BSEP \<and> is_volume name)) (drop (length name) absn);
              rest_len = (if abs_len \<noteq> 0 then abs_len - (length absn - length rest) else length rest);
              rel = (if rest = [] then copy_str ''.'' 1 OKM_MAX_PATH
                     else copy_str rest rest_len OKM_MAX_PATH)
          in Inr \<lparr>at_base = dir, at_len = length rel, at_rel = rel\<rparr>)"

definition resolve_joined :: "'e okm \<Rightarrow> int + string \<Rightarrow> int + okm_at" where
  "resolve_joined s r = (case r of Inl e \<Rightarrow> Inl e | Inr absn \<Rightarrow> resolve_abs s absn 0)"

definition okm_resolve :: "'e okm \<Rightarrow> int \<Rightarrow> string option \<Rightarrow> bool \<Rightarrow> int + okm_at" where
  "okm_resolve s dirfd pathp empty_ok =
     (case pathp of
        None \<Rightarrow> Inl (- EFAULT)
      | Some path \<Rightarrow>
          if path = [] \<and> \<not> empty_ok then Inl (- ENOENT)
          else if already_normal path \<noteq> 0 then resolve_abs s path (already_normal path)
          else if root_length path \<noteq> 0 then resolve_joined s (join [] path OKM_MAX_PATH)
          else if dirfd = AT_FDCWD then resolve_joined s (join (g_cwd s) path OKM_MAX_PATH)
          else case okm_desc_of dirfd s of
            None \<Rightarrow> Inl (- ENOTDIR)
          | Some d \<Rightarrow>
              if d_kind (g_desc s d) \<noteq> OKM_DIR then Inl (- ENOTDIR)
              else case dir_name s (g_desc s d) of
                Some name \<Rightarrow> resolve_joined s (join name path OKM_MAX_PATH)
              | None \<Rightarrow>
                  (case normalise path OKM_MAX_PATH of
                     Inl e \<Rightarrow> Inl e
                   | Inr norm \<Rightarrow>
                       if ascends norm then Inl (- EACCES)
                       else let r1 = copy_str norm (length norm) OKM_MAX_PATH;
                                rel = (if r1 = [] then copy_str ''.'' 1 OKM_MAX_PATH else r1)
                            in Inr \<lparr>at_base = d_dir (g_desc s d), at_len = length rel, at_rel = rel\<rparr>))"

definition okm_absolute :: "'e okm \<Rightarrow> int \<Rightarrow> string option \<Rightarrow> nat \<Rightarrow> int + string" where
  "okm_absolute s dirfd pathp cap =
     (case pathp of
        None \<Rightarrow> Inl (- EFAULT)
      | Some path \<Rightarrow>
          if root_length path \<noteq> 0 then join [] path cap
          else if dirfd = AT_FDCWD then join (g_cwd s) path cap
          else case okm_desc_of dirfd s of
            None \<Rightarrow> Inl (- ENOTDIR)
          | Some d \<Rightarrow>
              if d_kind (g_desc s d) \<noteq> OKM_DIR then Inl (- ENOTDIR)
              else case dir_name s (g_desc s d) of
                None \<Rightarrow> Inl (- ENOENT)
              | Some name \<Rightarrow> join name path cap)"

section \<open>The working directory\<close>

definition set_cwd :: "kal_dir \<Rightarrow> string \<Rightarrow> 'e okm \<Rightarrow> 'e okm" where
  "set_cwd target absn s =
     (let c = copy_str absn (length absn) OKM_MAX_PATH in
      s\<lparr>okm_cwd_dir := target, g_cwd := (if c = [] then copy_str ''/'' 1 OKM_MAX_PATH else c)\<rparr>)"

definition okm_chdir :: "'e kal \<Rightarrow> int \<Rightarrow> string option \<Rightarrow> 'e okm \<Rightarrow> int \<times> 'e okm" where
  "okm_chdir K dirfd pathp s =
     (case pathp of
        Some path \<Rightarrow>
          (case okm_resolve s dirfd (Some path) False of
             Inl r \<Rightarrow> (r, s)
           | Inr at \<Rightarrow>
               (case fs_open_dir K (at_base at) (at_rel at) (env s) of
                  (Inl e, E) \<Rightarrow> (- okm_errno e, s\<lparr>env := E\<rparr>)
                | (Inr target, E) \<Rightarrow>
                    (case join (if root_length path \<noteq> 0 then [] else g_cwd s) path OKM_MAX_PATH of
                       Inl _ \<Rightarrow> (- ENAMETOOLONG, s\<lparr>env := E\<rparr>)
                     | Inr absn \<Rightarrow> (0, set_cwd target absn (s\<lparr>env := E\<rparr>)))))
      | None \<Rightarrow>
          (case okm_desc_of dirfd s of
             None \<Rightarrow> (- ENOTDIR, s)
           | Some d \<Rightarrow>
               if d_kind (g_desc s d) \<noteq> OKM_DIR then (- ENOTDIR, s)
               else case dir_name s (g_desc s d) of
                 None \<Rightarrow> (- ENOMEM, s)
               | Some name \<Rightarrow>
                   let absn = copy_str name (length name) OKM_MAX_PATH;
                       (r, E) = fs_open_dir K (d_dir (g_desc s d)) ''.'' (env s);
                       target = (case r of Inr own \<Rightarrow> own | Inl _ \<Rightarrow> d_dir (g_desc s d))
                   in (0, set_cwd target absn (s\<lparr>env := E\<rparr>))))"

section \<open>The null device\<close>

definition null_device :: string where
  "null_device = ''/dev/null''"

definition null_name_resolved :: "'e okm \<Rightarrow> int \<Rightarrow> string option \<Rightarrow> bool" where
  "null_name_resolved s dirfd pathp =
     (case pathp of
        None \<Rightarrow> False
      | Some path \<Rightarrow>
          if path = [] then False
          else case okm_absolute s dirfd (Some path) OKM_MAX_PATH of
            Inl _ \<Rightarrow> False
          | Inr absn \<Rightarrow> \<forall>i < length null_device + 1. cat absn i = cat null_device i)"

definition is_either_sep :: "char \<Rightarrow> bool" where
  "is_either_sep c \<longleftrightarrow> c = SEP \<or> c = BSEP"

text \<open>What is after the last separator of either spelling, the trailing ones apart.\<close>

definition final_component :: "string \<Rightarrow> string" where
  "final_component path =
     (let upto_end = rev (dropWhile is_either_sep (rev path))
      in rev (takeWhile (\<lambda>c. \<not> is_either_sep c) (rev upto_end)))"

definition okm_null_name :: "'e okm \<Rightarrow> int \<Rightarrow> string option \<Rightarrow> bool" where
  "okm_null_name s dirfd pathp =
     (case pathp of
        None \<Rightarrow> False
      | Some path \<Rightarrow>
          if path = [] then False
          else if OKM_MAX_PATH \<le> length path then False
          else let last_comp = final_component path; n = length last_comp in
            if n \<noteq> 0 \<and> \<not> (n = 4 \<and> last_comp = ''null'') \<and> \<not> (n = 1 \<and> cat last_comp 0 = CHR ''.'')
               \<and> \<not> (n = 2 \<and> cat last_comp 0 = CHR ''.'' \<and> cat last_comp 1 = CHR ''.'')
            then False
            else null_name_resolved s dirfd (Some path))"

section \<open>The supplied directories\<close>

definition okm_preopen :: "'e okm \<Rightarrow> int \<Rightarrow> int + (kal_dir \<times> string)" where
  "okm_preopen s i = (if i < 0 \<or> int (length (g_pre s)) \<le> i then Inl (- EINVAL) else Inr (g_pre s ! nat i))"

text \<open>\<open>for (i = 0; i < n && g_npre < 16; i++)\<close>: a directory that is refused, or whose name does not
  fit in 256 bytes, is passed over.\<close>

fun read_preopens :: "'e kal \<Rightarrow> 'e \<Rightarrow> nat list \<Rightarrow> (kal_dir \<times> string) list \<Rightarrow> (kal_dir \<times> string) list" where
  "read_preopens K e [] pre = pre"
| "read_preopens K e (i # is) pre =
     (if 16 \<le> length pre then pre
      else case fs_preopen K i e of
             Inl _ \<Rightarrow> read_preopens K e is pre
           | Inr (d, name) \<Rightarrow>
               if 256 \<le> length name then read_preopens K e is pre
               else read_preopens K e is (pre @ [(d, name)]))"

definition okm_table_init_streams :: "'e kal \<Rightarrow> kal_uintptr \<Rightarrow> 'e okm \<Rightarrow> 'e okm" where
  "okm_table_init_streams K me s =
     (let e = env s;
          s0 = s\<lparr>g_std_stream := (g_std_stream s)(0 := kal_stdin K e, 1 := kal_stdout K e, 2 := kal_stderr K e)\<rparr>;
          s1 = snd (okm_fd_bind K me 0 OKM_STREAM (g_std_stream s0 0) 0 0 O_RDONLY s0);
          s2 = snd (okm_fd_bind K me 1 OKM_STREAM (g_std_stream s0 1) 0 0 O_WRONLY s1);
          s3 = snd (okm_fd_bind K me 2 OKM_STREAM (g_std_stream s0 2) 0 0 O_WRONLY s2);
          s4 = s3\<lparr>g_pre := read_preopens K (env s3) [0..<fs_preopen_count K (env s3)] []\<rparr>
      in case g_pre s4 of
           [] \<Rightarrow> s4
         | (d, name) # _ \<Rightarrow> s4\<lparr>okm_cwd_dir := d, g_cwd := copy_str name (length name) OKM_MAX_PATH\<rparr>)"

definition okm_table_init :: "'e kal \<Rightarrow> kal_uintptr \<Rightarrow> 'e okm \<Rightarrow> 'e okm" where
  "okm_table_init K me s = okm_table_init_streams K me (okm_table_init_memory s)"

section \<open>The components of a name\<close>

text \<open>
  The reference the resolver is compared with: the list of a name's components, the lexical
  reduction of such a list, and the name of a list of components.
\<close>

function comps :: "string \<Rightarrow> string list" where
  "comps p =
     (let p1 = dropWhile (\<lambda>c. c = SEP) p in
      if p1 = [] then []
      else takeWhile (\<lambda>c. c \<noteq> SEP) p1 # comps (dropWhile (\<lambda>c. c \<noteq> SEP) p1))"
  by pat_completeness auto
termination
  by (relation "measure length") (simp_all add: normalise_decreases)

declare comps.simps [simp del]

definition reduce_step :: "string list \<Rightarrow> string \<Rightarrow> string list" where
  "reduce_step st c = (if c = ''.'' then st else if c = ''..'' then butlast st else st @ [c])"

definition reduce :: "string list \<Rightarrow> string list" where
  "reduce cs = foldl reduce_step [] cs"

fun path_of :: "string list \<Rightarrow> string" where
  "path_of [] = []"
| "path_of [c] = c"
| "path_of (c # cs) = c @ SEP # path_of cs"

definition component :: "string \<Rightarrow> bool" where
  "component c \<longleftrightarrow> c \<noteq> [] \<and> SEP \<notin> set c"

definition proper :: "string \<Rightarrow> bool" where
  "proper c \<longleftrightarrow> component c \<and> c \<noteq> ''.'' \<and> c \<noteq> ''..''"

subsection \<open>Components and names of components\<close>

lemma comps_Nil [simp]: "comps [] = []"
  by (simp add: comps.simps)

lemma comps_SEP [simp]: "comps (SEP # p) = comps p"
  by (simp add: comps.simps [of "SEP # p"] comps.simps [of p])

lemma comps_step:
  assumes "p \<noteq> []" "hd p \<noteq> SEP"
  shows "comps p = takeWhile (\<lambda>c. c \<noteq> SEP) p # comps (dropWhile (\<lambda>c. c \<noteq> SEP) p)"
proof -
  have "dropWhile (\<lambda>c. c = SEP) p = p" using assms by (cases p) auto
  with assms show ?thesis by (simp add: comps.simps [of p])
qed

lemma comps_dropWhile [simp]: "comps (dropWhile (\<lambda>c. c = SEP) p) = comps p"
  by (induction p) auto

lemma comps_seps: "set p \<subseteq> {SEP} \<Longrightarrow> comps p = []"
  by (induction p) auto

lemma comps_empty_iff: "comps p = [] \<longleftrightarrow> set p \<subseteq> {SEP}"
proof
  show "comps p = [] \<Longrightarrow> set p \<subseteq> {SEP}"
    by (subst (asm) comps.simps) (auto simp: Let_def dropWhile_eq_Nil_conv split: if_splits)
qed (rule comps_seps)

lemma component_ends:
  assumes "component c"
  shows "c \<noteq> []" "hd c \<noteq> SEP" "last c \<noteq> SEP"
  using assms hd_in_set [of c] last_in_set [of c] unfolding component_def by (force, metis, metis)

lemma component_append:
  assumes "component c" "q = [] \<or> hd q = SEP"
  shows "comps (c @ q) = c # comps q"
proof -
  have tk: "takeWhile (\<lambda>x. x \<noteq> SEP) (c @ q) = c" "dropWhile (\<lambda>x. x \<noteq> SEP) (c @ q) = q"
    using assms by (cases q; auto simp: component_def takeWhile_append dropWhile_append)+
  have "c @ q \<noteq> []" "hd (c @ q) \<noteq> SEP"
    using assms(1) by (cases c; auto simp: component_def)+
  from comps_step [OF this] show ?thesis by (simp add: tk)
qed

text \<open>A name with a component is separators, its first component and a rest that is empty or
  begins with a separator.\<close>

lemma first_component:
  assumes "p1 = dropWhile (\<lambda>c. c = SEP) p" "p1 \<noteq> []"
    and "c = takeWhile (\<lambda>c. c \<noteq> SEP) p1" "p2 = dropWhile (\<lambda>c. c \<noteq> SEP) p1"
  shows "component c" "p1 = c @ p2" "p2 = [] \<or> hd p2 = SEP"
    "\<exists>z. set z \<subseteq> {SEP} \<and> p = z @ p1"
proof -
  have hd1: "hd p1 \<noteq> SEP" using assms(1,2) hd_dropWhile [of "\<lambda>c. c = SEP" p] by simp
  obtain a r where ar: "p1 = a # r" using assms(2) by (cases p1) auto
  with hd1 have "c \<noteq> []" unfolding assms(3) by simp
  moreover have "SEP \<notin> set c" unfolding assms(3) by (auto dest: set_takeWhileD)
  ultimately show "component c" by (simp add: component_def)
  show "p1 = c @ p2" unfolding assms(3,4) by (rule takeWhile_dropWhile_id [symmetric])
  show "p2 = [] \<or> hd p2 = SEP"
    using hd_dropWhile [of "\<lambda>c. c \<noteq> SEP" p1] unfolding assms(4) by blast
  have "set (takeWhile (\<lambda>c. c = SEP) p) \<subseteq> {SEP}" by (auto dest: set_takeWhileD)
  moreover have "p = takeWhile (\<lambda>c. c = SEP) p @ p1" unfolding assms(1) by simp
  ultimately show "\<exists>z. set z \<subseteq> {SEP} \<and> p = z @ p1" by blast
qed

lemma comps_seps_append: "set z \<subseteq> {SEP} \<Longrightarrow> comps (z @ r) = comps r"
  by (induction z) auto

lemma comps_append_boundary:
  assumes "p = [] \<or> last p = SEP \<or> q = [] \<or> hd q = SEP"
  shows "comps (p @ q) = comps p @ comps q"
  using assms
proof (induction p rule: comps.induct)
  case (1 p)
  define p1 where "p1 = dropWhile (\<lambda>c. c = SEP) p"
  show ?case
  proof (cases "p1 = []")
    case True
    then have "set p \<subseteq> {SEP}" by (auto simp: p1_def dropWhile_eq_Nil_conv)
    then show ?thesis by (simp add: comps_seps_append comps_seps)
  next
    case False
    define c where "c = takeWhile (\<lambda>c. c \<noteq> SEP) p1"
    define p2 where "p2 = dropWhile (\<lambda>c. c \<noteq> SEP) p1"
    note f = first_component [OF p1_def False c_def p2_def]
    obtain z where z: "set z \<subseteq> {SEP}" "p = z @ c @ p2" using f(2,4) by auto
    have c: "c \<noteq> []" "last c \<noteq> SEP" by (rule component_ends [OF f(1)])+
    have b2: "p2 = [] \<or> last p2 = SEP \<or> q = [] \<or> hd q = SEP"
      using "1.prems" unfolding z(2) using c by (cases "p2 = []") simp_all
    have bq: "p2 @ q = [] \<or> hd (p2 @ q) = SEP"
      using f(3) "1.prems" unfolding z(2) using c by (cases "p2 = []") simp_all
    have IH: "comps (p2 @ q) = comps p2 @ comps q"
      using "1.IH" [OF p1_def False] b2 unfolding p2_def by blast
    show ?thesis
      unfolding z(2) append_assoc comps_seps_append [OF z(1)]
        component_append [OF f(1) bq] component_append [OF f(1,3)] IH by simp
  qed
qed

lemma comps_components: "c \<in> set (comps p) \<Longrightarrow> component c"
proof (induction p rule: comps.induct)
  case (1 p)
  define p1 where "p1 = dropWhile (\<lambda>c. c = SEP) p"
  show ?case
  proof (cases "p1 = []")
    case True
    with "1.prems" show ?thesis by (simp add: comps.simps [of p] p1_def)
  next
    case False
    have eq: "comps p = takeWhile (\<lambda>c. c \<noteq> SEP) p1 # comps (dropWhile (\<lambda>c. c \<noteq> SEP) p1)"
      using False by (simp add: comps.simps [of p] Let_def flip: p1_def)
    show ?thesis
      using "1.prems" "1.IH" [OF p1_def False] first_component(1) [OF p1_def False refl refl]
      unfolding eq by auto
  qed
qed

lemma path_of_snoc: "path_of (cs @ [c]) = (if cs = [] then c else path_of cs @ SEP # c)"
  by (induction cs rule: path_of.induct) auto

lemma path_of_Cons: "path_of (c # cs) = (if cs = [] then c else c @ SEP # path_of cs)"
  by (cases cs) auto

lemma comps_path_of: "list_all component cs \<Longrightarrow> comps (path_of cs) = cs"
proof (induction cs)
  case (Cons c cs)
  then show ?case
    using component_append [of c "[]"] component_append [of c "SEP # path_of cs"]
    by (simp add: path_of_Cons)
qed simp

lemma path_of_empty: "list_all component cs \<Longrightarrow> path_of cs = [] \<longleftrightarrow> cs = []"
  by (cases cs) (auto simp: path_of_Cons component_def)

lemma path_of_hd: "list_all component cs \<Longrightarrow> cs \<noteq> [] \<Longrightarrow> hd (path_of cs) \<noteq> SEP"
  by (cases cs) (auto simp: path_of_Cons component_ends)

lemma path_of_last: "list_all component cs \<Longrightarrow> cs \<noteq> [] \<Longrightarrow> last (path_of cs) \<noteq> SEP"
proof (cases cs rule: rev_cases)
  case (snoc ys y)
  assume "list_all component cs"
  then have "y \<noteq> []" "last y \<noteq> SEP" using snoc by (auto simp: component_ends)
  then show ?thesis by (auto simp: snoc path_of_snoc)
qed simp

text \<open>Where the last component of a name stands in it.\<close>

lemma last_comp_split:
  assumes "comps p \<noteq> []"
  obtains x z where "p = x @ last (comps p) @ z" "set z \<subseteq> {SEP}" "x = [] \<or> last x = SEP"
proof -
  define w where "w = rev (dropWhile (\<lambda>c. c = SEP) (rev p))"
  define z where "z = rev (takeWhile (\<lambda>c. c = SEP) (rev p))"
  define l where "l = rev (takeWhile (\<lambda>c. c \<noteq> SEP) (rev w))"
  define x where "x = rev (dropWhile (\<lambda>c. c \<noteq> SEP) (rev w))"
  have p: "p = w @ z" unfolding w_def z_def by (metis rev_append rev_rev_ident takeWhile_dropWhile_id)
  have w: "w = x @ l" unfolding x_def l_def by (metis rev_append rev_rev_ident takeWhile_dropWhile_id)
  have z: "set z \<subseteq> {SEP}" unfolding z_def by (auto dest: set_takeWhileD)
  have x: "x = [] \<or> last x = SEP"
    using hd_dropWhile [of "\<lambda>c. c \<noteq> SEP" "rev w"] unfolding x_def by (auto simp: last_rev)
  have wne: "w \<noteq> []" using assms z p by (auto simp: comps_empty_iff)
  then have "last w \<noteq> SEP"
    unfolding w_def using hd_dropWhile [of "\<lambda>c. c = SEP" "rev p"] by (auto simp: last_rev)
  then have "l \<noteq> []"
    using wne unfolding l_def by (cases w rule: rev_cases) auto
  moreover have "SEP \<notin> set l" unfolding l_def by (auto dest: set_takeWhileD)
  ultimately have l: "component l" by (simp add: component_def)
  have zb: "z = [] \<or> hd z = SEP" using z by (cases z) auto
  have "comps p = comps x @ comps (l @ z)"
    unfolding p w using x comps_append_boundary [of x "l @ z"] by auto
  also have "\<dots> = comps x @ [l]" using component_append [OF l zb] comps_seps [OF z] by simp
  finally have "last (comps p) = l" by simp
  with that p w z x show ?thesis by simp
qed

subsection \<open>What \<open>normalise\<close> computes\<close>

lemma proper_component: "list_all proper cs \<Longrightarrow> list_all component cs"
  by (auto simp: list_all_iff proper_def)

lemma reduce_step_proper: "list_all proper st \<Longrightarrow> component c \<Longrightarrow> list_all proper (reduce_step st c)"
  by (auto simp: reduce_step_def proper_def list_all_iff dest: in_set_butlastD)

lemma foldl_reduce_proper:
  "list_all proper st \<Longrightarrow> list_all component cs \<Longrightarrow> list_all proper (foldl reduce_step st cs)"
  by (induction cs arbitrary: st) (auto simp: reduce_step_proper)

lemma reduce_proper: "list_all component cs \<Longrightarrow> list_all proper (reduce cs)"
  by (simp add: reduce_def foldl_reduce_proper)

lemma foldl_reduce_id: "list_all proper cs \<Longrightarrow> foldl reduce_step st cs = st @ cs"
  by (induction cs arbitrary: st) (auto simp: reduce_step_def proper_def)

lemma reduce_id: "list_all proper cs \<Longrightarrow> reduce cs = cs"
  by (simp add: reduce_def foldl_reduce_id)

lemma reduce_append: "reduce (xs @ ys) = foldl reduce_step (reduce xs) ys"
  by (simp add: reduce_def)

lemma reduce_length: "length (reduce cs) \<le> length cs"
proof -
  have "length (foldl reduce_step st cs) \<le> length st + length cs" for st
  proof (induction cs arbitrary: st)
    case (Cons c cs)
    have "length (reduce_step st c) \<le> Suc (length st)" by (auto simp: reduce_step_def)
    with Cons [of "reduce_step st c"] show ?case by simp
  qed simp
  from this [of "[]"] show ?thesis by (simp add: reduce_def)
qed

lemma comps_all_components: "list_all component (comps p)"
  by (auto simp: list_all_iff dest: comps_components)

lemma drop_component_path_of:
  assumes "list_all component cs"
  shows "drop_component (path_of cs) = path_of (butlast cs)"
proof (cases cs rule: rev_cases)
  case Nil
  then show ?thesis by (simp add: drop_component_def)
next
  case (snoc ys y)
  then have y: "\<forall>c \<in> set (rev y). c \<noteq> SEP" using assms by (auto simp: component_def)
  show ?thesis
  proof (cases "ys = []")
    case True
    have "dropWhile (\<lambda>c. c \<noteq> SEP) (rev y) = []" using y by (simp add: dropWhile_eq_Nil_conv)
    then show ?thesis by (simp add: snoc True drop_component_def)
  next
    case False
    have "dropWhile (\<lambda>c. c \<noteq> SEP) (rev (path_of ys @ SEP # y)) = SEP # rev (path_of ys)"
      using y by (simp add: dropWhile_append2 dropWhile_append3)
    then show ?thesis by (simp add: snoc False path_of_snoc drop_component_def)
  qed
qed

text \<open>One turn of the loop, on the first component of what is left.\<close>

lemma normalise_loop_done: "comps p = [] \<Longrightarrow> normalise_loop cap p out = Inr out"
  by (subst normalise_loop.simps) (simp add: comps_empty_iff Let_def dropWhile_eq_Nil_conv subset_iff)

lemma cat_dots:
  "length s = 1 \<and> cat s 0 = CHR ''.'' \<longleftrightarrow> s = ''.''"
  "length s = 2 \<and> cat s 0 = CHR ''.'' \<and> cat s 1 = CHR ''.'' \<longleftrightarrow> s = ''..''"
  by (auto simp: cat_def length_Suc_conv numeral_2_eq_2)

lemma normalise_loop_step:
  assumes "set z \<subseteq> {SEP}" "component c" "q = [] \<or> hd q = SEP"
  shows "normalise_loop cap (z @ c @ q) out =
    (if c = ''.'' then normalise_loop cap q out
     else if c = ''..'' then normalise_loop cap q (drop_component out)
     else if cap < length out + length c + 2 then Inl (- ENAMETOOLONG)
     else normalise_loop cap q ((if out \<noteq> [] then out @ [SEP] else out) @ c))"
proof -
  note c = component_ends [OF assms(2)]
  have "dropWhile (\<lambda>c. c = SEP) (z @ c @ q) = c @ q"
    using assms(1) c by (induction z) (auto simp: hd_append dropWhile_eq_self_iff)
  moreover have "takeWhile (\<lambda>x. x \<noteq> SEP) (c @ q) = c" "dropWhile (\<lambda>x. x \<noteq> SEP) (c @ q) = q"
    using assms(2,3) by (cases q; auto simp: component_def takeWhile_append dropWhile_append)+
  moreover have "c @ q \<noteq> []" using c(1) by simp
  ultimately show ?thesis
    by (simp only: normalise_loop.simps [of cap "z @ c @ q" out] Let_def cat_dots if_False)
qed

lemma split_first:
  assumes "comps p \<noteq> []"
  obtains z c q where "p = z @ c @ q" "set z \<subseteq> {SEP}" "component c" "q = [] \<or> hd q = SEP"
    "comps p = c # comps q" "length q < length p"
proof -
  define p1 where "p1 = dropWhile (\<lambda>c. c = SEP) p"
  have ne: "p1 \<noteq> []" using assms by (auto simp: p1_def comps_empty_iff dropWhile_eq_Nil_conv)
  define c where "c = takeWhile (\<lambda>c. c \<noteq> SEP) p1"
  define q where "q = dropWhile (\<lambda>c. c \<noteq> SEP) p1"
  note f = first_component [OF p1_def ne c_def q_def]
  obtain z where z: "set z \<subseteq> {SEP}" "p = z @ c @ q" using f(2,4) by auto
  have "comps p = c # comps q"
    unfolding z(2) comps_seps_append [OF z(1)] by (rule component_append [OF f(1,3)])
  with z f component_ends(1) [OF f(1)] that show ?thesis by simp
qed

lemma normalise_loop_spec:
  assumes "normalise_loop cap p (path_of st) = Inr out" "list_all proper st"
  shows "out = path_of (foldl reduce_step st (comps p))"
    and "length (path_of st) < cap \<Longrightarrow> length out < cap"
proof -
  have "out = path_of (foldl reduce_step st (comps p)) \<and> (length (path_of st) < cap \<longrightarrow> length out < cap)"
    using assms
  proof (induction "length p" arbitrary: p st rule: less_induct)
    case less
    show ?case
    proof (cases "comps p = []")
      case True
      with less.prems show ?thesis by (simp add: normalise_loop_done)
    next
      case False
      then obtain z c q where p: "p = z @ c @ q" "set z \<subseteq> {SEP}" "component c" "q = [] \<or> hd q = SEP"
        "comps p = c # comps q" "length q < length p" by (rule split_first)
      note step = normalise_loop_step [OF p(2,3,4), of cap "path_of st"]
      have st: "list_all component st" using less.prems(2) by (rule proper_component)
      have pr: "list_all proper (reduce_step st c)" using less.prems(2) p(3) by (rule reduce_step_proper)
      have shrink: "length (path_of (butlast st)) \<le> length (path_of st)"
        by (cases st rule: rev_cases) (auto simp: path_of_snoc)
      have nxt: "normalise_loop cap q (path_of (reduce_step st c)) = Inr out
          \<and> (length (path_of st) < cap \<longrightarrow> length (path_of (reduce_step st c)) < cap)"
        using less.prems(1) shrink unfolding p(1) step
        by (auto simp: reduce_step_def drop_component_path_of [OF st] path_of_snoc path_of_empty [OF st]
            split: if_splits)
      from less.hyps [OF p(6) conjunct1 [OF nxt] pr] nxt show ?thesis by (auto simp: p(5))
    qed
  qed
  then show "out = path_of (foldl reduce_step st (comps p))"
    "length (path_of st) < cap \<Longrightarrow> length out < cap" by auto
qed

lemma normalise_loop_total:
  assumes "length (path_of st) + length p + 2 \<le> cap" "list_all proper st"
    and "st = [] \<or> p = [] \<or> hd p = SEP"
  shows "\<exists>out. normalise_loop cap p (path_of st) = Inr out"
  using assms
proof (induction "length p" arbitrary: p st rule: less_induct)
  case less
  show ?case
  proof (cases "comps p = []")
    case True
    then show ?thesis by (simp add: normalise_loop_done)
  next
    case False
    then obtain z c q where p: "p = z @ c @ q" "set z \<subseteq> {SEP}" "component c" "q = [] \<or> hd q = SEP"
      "comps p = c # comps q" "length q < length p" by (rule split_first)
    note step = normalise_loop_step [OF p(2,3,4), of cap "path_of st"]
    have st: "list_all component st" using less.prems(2) by (rule proper_component)
    have pr: "list_all proper (reduce_step st c)" using less.prems(2) p(3) by (rule reduce_step_proper)
    have shrink: "length (path_of (butlast st)) \<le> length (path_of st)"
      by (cases st rule: rev_cases) (auto simp: path_of_snoc)
    have z: "st \<noteq> [] \<Longrightarrow> z \<noteq> []" using less.prems(3) p(1) component_ends [OF p(3)] by auto
    have "length (path_of (reduce_step st c)) + length q \<le> length (path_of st) + length p"
      using z shrink by (cases z) (auto simp: p(1) reduce_step_def path_of_snoc)
    then have "length (path_of (reduce_step st c)) + length q + 2 \<le> cap" using less.prems(1) by simp
    from less.hyps [OF p(6) this pr] p(4)
    have "\<exists>out. normalise_loop cap q (path_of (reduce_step st c)) = Inr out" by blast
    moreover have "\<not> cap < length (path_of st) + length c + 2" using less.prems(1) by (simp add: p(1))
    ultimately show ?thesis
      unfolding p(1) step
      by (auto simp: reduce_step_def drop_component_path_of [OF st] path_of_snoc path_of_empty [OF st]
          split: if_splits)
  qed
qed

lemma normalise_spec:
  assumes "normalise p cap = Inr out"
  shows "out = path_of (reduce (comps p))" "0 < cap \<Longrightarrow> length out < cap"
  using normalise_loop_spec [of cap p "[]" out] assms by (simp_all add: normalise_def reduce_def)

lemma normalise_total: "length p + 2 \<le> cap \<Longrightarrow> normalise p cap = Inr (path_of (reduce (comps p)))"
  using normalise_loop_total [of "[]" p cap] normalise_spec(1) [of p cap] by (auto simp: normalise_def)

lemma normalise_error: "normalise p cap = Inl e \<Longrightarrow> e = - ENAMETOOLONG"
proof -
  have "normalise_loop cap p out = Inl e \<Longrightarrow> e = - ENAMETOOLONG" for out
    by (induction cap p out rule: normalise_loop.induct)
      (subst (asm) (2) normalise_loop.simps, auto simp: Let_def split: if_splits)
  then show "normalise p cap = Inl e \<Longrightarrow> e = - ENAMETOOLONG" by (simp add: normalise_def)
qed


lemma normalise_idempotent:
  assumes "normalise p cap = Inr out" "length out + 2 \<le> cap'"
  shows "normalise out cap' = Inr out"
proof -
  have pr: "list_all proper (reduce (comps p))" by (rule reduce_proper [OF comps_all_components])
  have "normalise out cap' = Inr (path_of (reduce (comps out)))" by (rule normalise_total [OF assms(2)])
  also have "\<dots> = Inr out"
    using normalise_spec(1) [OF assms(1)] pr by (simp add: comps_path_of proper_component reduce_id)
  finally show ?thesis .
qed

subsection \<open>What \<open>join\<close> computes\<close>

text \<open>The root a joined name keeps and the components it is reduced from. Beneath a volume either
  separator separates.\<close>

definition join_from :: "string \<Rightarrow> string \<Rightarrow> string" where
  "join_from prefix rel = (if root_length rel \<noteq> 0 then rel else prefix)"

definition join_root :: "string \<Rightarrow> string \<Rightarrow> string" where
  "join_root prefix rel = slashes (take (root_length (join_from prefix rel)) (join_from prefix rel))"

definition spell :: "string \<Rightarrow> string \<Rightarrow> string" where
  "spell from p = (if root_length from = 3 then slashes p else p)"

definition join_comps :: "string \<Rightarrow> string \<Rightarrow> string list" where
  "join_comps prefix rel =
     (if root_length rel \<noteq> 0 then comps (spell rel (drop (root_length rel) rel))
      else comps (spell prefix (drop (root_length prefix) prefix)) @ comps (spell prefix rel))"

lemma spell_length [simp]: "length (spell from p) = length p"
  by (simp add: spell_def slashes_def)

lemma root_length_values: "root_length n \<in> {0, 1, 3}" "root_length n \<le> length n"
  by (cases n; auto simp: root_length_def cat_def split: if_splits)+

lemma root_length_volume: "root_length n = 3 \<Longrightarrow> cat n 1 = CHR '':''"
  by (auto simp: root_length_def split: if_splits)

lemma root_length_colon:
  "root_length n = 3 \<and> cat n (Suc 0) = CHR '':'' \<longleftrightarrow> root_length n = 3"
  using root_length_volume by auto

lemma root_length_Nil [simp]: "root_length [] = 0"
  by (simp add: root_length_def)

lemma append_bounded_whole:
  assumes "length (append_bounded t s) < OKM_MAX_PATH - 1"
  shows "append_bounded t s = t @ s"
  using assms by (auto simp: append_bounded_def min_def split: if_splits)

lemma append_bounded_short: "length t + length s \<le> OKM_MAX_PATH - 1 \<Longrightarrow> append_bounded t s = t @ s"
  by (simp add: append_bounded_def)

lemma append_bounded_length: "length t \<le> length (append_bounded t s)"
  by (simp add: append_bounded_def)

lemma slashes_simps [simp]: "slashes [] = []" "slashes (s @ t) = slashes s @ slashes t"
  "length (slashes s) = length s" "slashes s = [] \<longleftrightarrow> s = []" "slashes [SEP] = [SEP]"
  by (simp_all add: slashes_def)

lemma slashes_last: "s \<noteq> [] \<Longrightarrow> last s = SEP \<Longrightarrow> last (slashes s) = SEP"
  by (simp add: slashes_def last_map)

text \<open>The buffer \<open>join\<close> reduces, when it was not filled.\<close>

definition join_text :: "string \<Rightarrow> string \<Rightarrow> string" where
  "join_text base rest = base @ (if base \<noteq> [] \<and> last base \<noteq> SEP then [SEP] else []) @ rest"

lemma comps_join_text:
  assumes "f = id \<or> f = slashes"
  shows "comps (f (join_text base rest)) = comps (f base) @ comps (f rest)"
proof -
  have "comps (b @ SEP # r) = comps b @ comps r" for b r
    by (simp add: comps_append_boundary)
  moreover have "comps (slashes base @ slashes rest) = comps (slashes base) @ comps (slashes rest)"
    if "last base = SEP \<or> base = []"
    using that slashes_last [of base] by (intro comps_append_boundary) auto
  moreover have "comps (base @ rest) = comps base @ comps rest" if "last base = SEP \<or> base = []"
    using that by (intro comps_append_boundary) auto
  moreover have "slashes (SEP # r) = SEP # slashes r" for r by (simp add: slashes_def)
  ultimately show ?thesis using assms by (auto simp: join_text_def)
qed

definition join_tmp :: "string \<Rightarrow> string \<Rightarrow> string" where
  "join_tmp prefix rel =
     join_text (if root_length rel \<noteq> 0 then [] else drop (root_length prefix) prefix)
       (drop (root_length rel) rel)"

lemma join_eq:
  fixes prefix rel cap
  defines "tmp \<equiv> join_tmp prefix rel" and "keep \<equiv> root_length (join_from prefix rel)"
  shows "join prefix rel cap =
    (if OKM_MAX_PATH \<le> length tmp + 1 \<or> cap \<le> keep + 1 then Inl (- ENAMETOOLONG)
     else map_sum id (\<lambda>body. join_root prefix rel @ body)
            (normalise (spell (join_from prefix rel) tmp) (cap - keep)))"
proof -
  let ?rest = "drop (root_length rel) rel"
  define base where "base = (if root_length rel \<noteq> 0 then [] else drop (root_length prefix) prefix)"
  have tmp: "tmp = join_text base ?rest" by (simp add: tmp_def join_tmp_def base_def)
  define t1 where "t1 = append_bounded [] base"
  define t2 where "t2 = (if t1 \<noteq> [] \<and> last t1 \<noteq> SEP then append_bounded t1 [SEP] else t1)"
  define t3 where "t3 = append_bounded t2 ?rest"
  have J: "join prefix rel cap =
    (if OKM_MAX_PATH \<le> length t3 + 1 then Inl (- ENAMETOOLONG)
     else if cap \<le> keep + 1 then Inl (- ENAMETOOLONG)
     else map_sum id (\<lambda>body. join_root prefix rel @ body) (normalise (spell (join_from prefix rel) t3) (cap - keep)))"
    unfolding join_def Let_def t3_def t2_def t1_def base_def keep_def join_root_def join_from_def spell_def
    by (cases "root_length rel = 0") (simp_all add: root_length_colon)
  show ?thesis
  proof (cases "length t3 + 1 < OKM_MAX_PATH")
    case True
    have w3: "t3 = t2 @ ?rest" unfolding t3_def by (rule append_bounded_whole) (use True t3_def in simp)
    then have l2: "length t2 < OKM_MAX_PATH - 1" using True by simp
    have l1: "length t1 < OKM_MAX_PATH - 1"
      using l2 append_bounded_length [of t1 "[SEP]"] by (auto simp: t2_def split: if_splits)
    then have w1: "t1 = base" unfolding t1_def using append_bounded_whole [of "[]" base] by simp
    have "t2 = base @ (if base \<noteq> [] \<and> last base \<noteq> SEP then [SEP] else [])"
      using l1 by (simp add: t2_def w1 append_bounded_short)
    then have "t3 = tmp" by (simp add: w3 tmp join_text_def)
    with True show ?thesis unfolding J by simp
  next
    case False
    have "OKM_MAX_PATH \<le> length tmp + 1"
    proof (rule ccontr)
      assume "\<not> OKM_MAX_PATH \<le> length tmp + 1"
      then have s: "length tmp < OKM_MAX_PATH - 1" by simp
      then have "t1 = base" by (simp add: t1_def append_bounded_short tmp join_text_def)
      then have "t2 = base @ (if base \<noteq> [] \<and> last base \<noteq> SEP then [SEP] else [])"
        using s by (simp add: t2_def append_bounded_short tmp join_text_def)
      then have "t3 = tmp" using s unfolding t3_def by (simp add: append_bounded_short tmp join_text_def)
      with s False show False by simp
    qed
    with False show ?thesis unfolding J by simp
  qed
qed

lemma join_comps_tmp: "comps (spell (join_from prefix rel) (join_tmp prefix rel)) = join_comps prefix rel"
  using comps_join_text [of slashes] comps_join_text [of id]
  by (simp add: spell_def join_comps_def join_from_def join_tmp_def)

text \<open>A joined name is its root followed by the reduced components.\<close>

lemma join_spec:
  assumes "join prefix rel cap = Inr out"
  shows "out = join_root prefix rel @ path_of (reduce (join_comps prefix rel))" "length out < cap"
proof -
  let ?keep = "root_length (join_from prefix rel)"
  from assms obtain body where b: "?keep + 1 < cap" "out = join_root prefix rel @ body"
    "normalise (spell (join_from prefix rel) (join_tmp prefix rel)) (cap - ?keep) = Inr body"
    unfolding join_eq by (auto simp: map_sum_id_iff not_le split: if_splits)
  note body = normalise_spec [OF b(3), unfolded join_comps_tmp]
  then show "out = join_root prefix rel @ path_of (reduce (join_comps prefix rel))" using b(2) by simp
  have "length (join_root prefix rel) \<le> ?keep" by (simp add: join_root_def)
  with b body(2) show "length out < cap" by simp
qed

lemma join_total:
  assumes "length prefix + length rel + 3 \<le> OKM_MAX_PATH" "length prefix + length rel + 3 \<le> cap"
  shows "join prefix rel cap = Inr (join_root prefix rel @ path_of (reduce (join_comps prefix rel)))"
proof -
  let ?keep = "root_length (join_from prefix rel)"
  have tl: "length (join_tmp prefix rel) + ?keep \<le> length prefix + length rel + 1"
    using root_length_values(2) [of rel] root_length_values(2) [of prefix]
    by (auto simp: join_tmp_def join_text_def join_from_def)
  then have "length (spell (join_from prefix rel) (join_tmp prefix rel)) + 2 \<le> cap - ?keep"
    using assms(2) by simp
  from normalise_total [OF this] show ?thesis
    using tl assms unfolding join_eq join_comps_tmp by simp
qed

lemma join_error: "join prefix rel cap = Inl e \<Longrightarrow> e = - ENAMETOOLONG"
  unfolding join_eq by (auto simp: map_sum_id_iff split: if_splits dest: normalise_error)

subsection \<open>Names that are already normal\<close>

lemma already_normal_loop_sound: "already_normal_loop p \<Longrightarrow> \<exists>cs. list_all proper cs \<and> p = path_of cs"
proof (induction p rule: already_normal_loop.induct)
  case (1 p)
  show ?case
  proof (cases "p = []")
    case True
    then show ?thesis by (intro exI [of _ "[]"]) simp
  next
    case False
    let ?c = "takeWhile (\<lambda>c. c \<noteq> SEP) p" and ?r = "dropWhile (\<lambda>c. c \<noteq> SEP) p"
    note prem = "1.prems" [unfolded already_normal_loop.simps [of p] Let_def]
    have len: "length ?c \<noteq> 0" using prem False by (auto split: if_splits)
    have dots: "\<not> (cat ?c 0 = CHR ''.'' \<and> (length ?c = 1 \<or> (length ?c = 2 \<and> cat ?c 1 = CHR ''.'')))"
      using prem False by (auto split: if_splits)
    have c: "proper ?c"
      using len dots cat_dots [of ?c] by (auto simp: proper_def component_def dest: set_takeWhileD)
    have p: "p = ?c @ ?r" by simp
    show ?thesis
    proof (cases "?r = []")
      case True
      then have "p = path_of [?c]" using p by (metis append_Nil2 path_of.simps(2))
      with c show ?thesis by (intro exI [of _ "[?c]"]) simp
    next
      case rne: False
      have t: "tl ?r \<noteq> []" and an: "already_normal_loop (tl ?r)"
        using prem False rne dots len by (auto split: if_splits)
      obtain cs where cs: "list_all proper cs" "tl ?r = path_of cs"
        using "1.IH" [OF False refl refl refl len dots rne t an] by blast
      have "hd ?r = SEP" using hd_dropWhile [OF rne] by simp
      then have "?r = SEP # path_of cs" using rne cs(2) by (cases ?r) auto
      moreover have "cs \<noteq> []" using t cs(2) by auto
      ultimately have "p = path_of (?c # cs)" using p by (metis path_of_Cons)
      with c cs(1) show ?thesis by (intro exI [of _ "?c # cs"]) simp
    qed
  qed
qed

lemma already_normal_sound:
  assumes "already_normal path \<noteq> 0"
  obtains cs where "list_all proper cs" "path = SEP # path_of cs" "already_normal path = length path"
    "length path < OKM_MAX_PATH"
proof -
  have h: "cat path 0 = SEP" "already_normal_loop (tl path)" "length path < OKM_MAX_PATH"
    using assms by (auto simp: already_normal_def split: if_splits)
  then have "path = SEP # tl path" by (cases path) auto
  with already_normal_loop_sound [OF h(2)] h that show ?thesis
    by (auto simp: already_normal_def)
qed

subsection \<open>Characters of a name\<close>

lemma comps_chars: "c \<in> set (comps p) \<Longrightarrow> set c \<subseteq> set p"
proof (induction p rule: comps.induct)
  case (1 p)
  show ?case
  proof (cases "comps p = []")
    case False
    let ?p1 = "dropWhile (\<lambda>c. c = SEP) p"
    have ne: "?p1 \<noteq> []" using False by (metis comps_dropWhile comps_Nil)
    have eq: "comps p = takeWhile (\<lambda>c. c \<noteq> SEP) ?p1 # comps (dropWhile (\<lambda>c. c \<noteq> SEP) ?p1)"
      using ne by (subst comps.simps) (simp only: Let_def if_False)
    have sub: "set ?p1 \<subseteq> set p" by (auto dest: set_dropWhileD)
    have "set (takeWhile (\<lambda>c. c \<noteq> SEP) ?p1) \<subseteq> set ?p1" "set (dropWhile (\<lambda>c. c \<noteq> SEP) ?p1) \<subseteq> set ?p1"
      by (auto dest: set_takeWhileD set_dropWhileD)
    with "1.prems" "1.IH" [OF refl ne] sub show ?thesis unfolding eq by auto
  qed (use "1.prems" in simp)
qed

lemma path_of_chars: "set (path_of cs) \<subseteq> {SEP} \<union> \<Union> (set ` set cs)"
  by (induction cs rule: path_of.induct) auto

lemma reduce_subset: "set (reduce cs) \<subseteq> set cs"
proof -
  have "set (foldl reduce_step st cs) \<subseteq> set st \<union> set cs" for st
  proof (induction cs arbitrary: st)
    case (Cons c cs)
    have "set (reduce_step st c) \<subseteq> insert c (set st)"
      by (auto simp: reduce_step_def dest: in_set_butlastD)
    with Cons [of "reduce_step st c"] show ?case by auto
  qed simp
  from this [of "[]"] show ?thesis by (simp add: reduce_def)
qed

lemma slashes_chars: "set (slashes s) \<subseteq> insert SEP (set s)" "BSEP \<notin> set (slashes s)"
  by (auto simp: slashes_def)

lemma spell_chars: "set (spell from s) \<subseteq> insert SEP (set s)"
  using slashes_chars by (auto simp: spell_def)

lemma join_comps_chars: "c \<in> set (join_comps prefix rel) \<Longrightarrow> set c \<subseteq> insert SEP (set prefix \<union> set rel)"
  using spell_chars [of prefix] spell_chars [of rel]
  by (auto simp: join_comps_def split: if_splits dest!: comps_chars) (meson in_mono in_set_dropD insertE)+

lemma join_result_chars:
  "set (join_root prefix rel @ path_of (reduce (join_comps prefix rel))) \<subseteq> insert SEP (set prefix \<union> set rel)"
proof -
  have "set (path_of (reduce (join_comps prefix rel))) \<subseteq> insert SEP (set prefix \<union> set rel)"
    using path_of_chars reduce_subset join_comps_chars by fastforce
  moreover have "set (join_root prefix rel) \<subseteq> insert SEP (set prefix \<union> set rel)"
    using slashes_chars(1) [of "take (root_length (join_from prefix rel)) (join_from prefix rel)"]
    by (auto simp: join_root_def join_from_def split: if_splits dest: in_set_takeD)
  ultimately show ?thesis by simp
qed

lemma join_cstring: "join prefix rel cap = Inr out \<Longrightarrow> cstring prefix \<Longrightarrow> cstring rel \<Longrightarrow> cstring out"
  using join_result_chars [of prefix rel] join_spec(1) [of prefix rel cap out] by (auto simp: cstring_def)

text \<open>Beneath a volume no backslash is left.\<close>

lemma join_volume_chars:
  assumes "join prefix rel cap = Inr out" "root_length (join_from prefix rel) = 3"
  shows "BSEP \<notin> set out"
proof -
  have "BSEP \<notin> set c" if "c \<in> set (join_comps prefix rel)" for c
    using that assms(2) slashes_chars(2) comps_chars
    by (auto simp: join_comps_def join_from_def spell_def split: if_splits)
  then have "BSEP \<notin> set (path_of (reduce (join_comps prefix rel)))"
    using path_of_chars reduce_subset by fastforce
  then show ?thesis
    using slashes_chars(2) by (simp add: join_spec(1) [OF assms(1)] join_root_def)
qed

subsection \<open>Prefixes at a boundary\<close>

text \<open>What is after a separator of a clean name is the name of its later components.\<close>

lemma path_of_suffix:
  assumes "list_all component cs" "path_of cs = x @ q" "x = [] \<or> last x = SEP"
  shows "\<exists>k \<le> length cs. q = path_of (drop k cs)"
  using assms
proof (induction cs arbitrary: x)
  case (Cons c cs)
  show ?case
  proof (cases "x = []")
    case True
    then show ?thesis using Cons.prems(2) by (intro exI [of _ 0]) simp
  next
    case False
    then have lx: "last x = SEP" "SEP \<in> set x" using Cons.prems(3) last_in_set [of x] by auto
    have c: "SEP \<notin> set c" using Cons.prems(1) by (simp add: component_def)
    have "cs \<noteq> []" using Cons.prems(2) lx c by (auto simp: path_of_Cons split: if_splits)
    then have eq: "c @ SEP # path_of cs = x @ q" using Cons.prems(2) by (simp add: path_of_Cons)
    then obtain us where "(c @ us = x \<and> SEP # path_of cs = us @ q) \<or> (c = x @ us \<and> us @ SEP # path_of cs = q)"
      by (auto simp: append_eq_append_conv2)
    then have us: "x = c @ us" "SEP # path_of cs = us @ q" using lx c by auto
    then obtain vs where vs: "us = SEP # vs" "path_of cs = vs @ q"
      using lx c False by (cases us) auto
    have "vs = [] \<or> last vs = SEP" using lx us vs by (auto split: if_splits)
    then obtain k where "k \<le> length cs" "q = path_of (drop k cs)"
      using Cons.IH [OF _ vs(2)] Cons.prems(1) by auto
    then show ?thesis by (intro exI [of _ "Suc k"]) simp
  qed
qed auto

definition root_form :: "string \<Rightarrow> bool" where
  "root_form root \<longleftrightarrow> root = [] \<or> (\<exists>w. root = w @ [SEP] \<and> SEP \<notin> set w)"

lemma root_form_suffix:
  assumes "root_form root" "list_all component cs" "root @ path_of cs = x @ q" "x \<noteq> []" "last x = SEP"
  shows "\<exists>k \<le> length cs. q = path_of (drop k cs)"
proof (cases "root = []")
  case True
  with assms path_of_suffix show ?thesis by auto
next
  case False
  then obtain w where w: "root = w @ [SEP]" "SEP \<notin> set w" using assms(1) by (auto simp: root_form_def)
  from assms(3) obtain us where
    us: "(root @ us = x \<and> path_of cs = us @ q) \<or> (root = x @ us \<and> us @ path_of cs = q)"
    by (auto simp: append_eq_append_conv2)
  show ?thesis
  proof (cases "root @ us = x \<and> path_of cs = us @ q")
    case True
    then have "us = [] \<or> last us = SEP" using assms(5) by (auto simp: last_append split: if_splits)
    with True path_of_suffix [OF assms(2)] show ?thesis by auto
  next
    case False
    with us have r: "w @ [SEP] = x @ us" "q = us @ path_of cs" using w by auto
    have "us = []"
    proof (rule ccontr)
      assume "us \<noteq> []"
      then have "w = x @ butlast us" using r(1) by (metis butlast_append butlast_snoc)
      then show False using w(2) assms(4,5) last_in_set [of x] by auto
    qed
    then show ?thesis using r(2) by (intro exI [of _ 0]) simp
  qed
qed

lemma same_char_sep:
  assumes "same_char a b volume" "b = SEP \<or> (volume \<and> b = BSEP)" "volume \<Longrightarrow> a \<noteq> BSEP"
  shows "a = SEP"
proof -
  have "to_lower SEP = SEP" "to_lower BSEP = BSEP" by (simp_all add: to_lower_def)
  moreover have "to_lower a = to_lower b \<Longrightarrow> b = SEP \<or> b = BSEP \<Longrightarrow> a = b"
  proof -
    assume t: "to_lower a = to_lower b" "b = SEP \<or> b = BSEP"
    have "a = b" if "\<not> (65 \<le> char_code a \<and> char_code a \<le> 90)"
      using t that by (auto simp: to_lower_def split: if_splits)
    moreover have False if "65 \<le> char_code a \<and> char_code a \<le> 90"
    proof -
      have "char_code (to_lower a) = char_code a + 32" using that by (simp add: to_lower_def)
      moreover have "char_code (to_lower b) \<in> {47, 92}" using t(2) by (auto simp: to_lower_def)
      ultimately show False using that t(1) by auto
    qed
    ultimately show "a = b" by blast
  qed
  ultimately show ?thesis using assms by (auto simp: same_char_def split: if_splits)
qed

text \<open>A supplied name that matches cuts the name at a separator, or at its end.\<close>

lemma prefix_boundary:
  assumes "is_prefix_at_boundary n a" "cstring n" "cstring a" "is_volume n \<Longrightarrow> BSEP \<notin> set a"
  shows "n \<noteq> []" "length n \<le> length a"
    "last (take (length n) a) = SEP \<or> drop (length n) a = [] \<or> hd (drop (length n) a) = SEP"
    "\<not> is_volume n \<Longrightarrow> take (length n) a = n"
proof -
  show ne: "n \<noteq> []" using assms(1) by (auto simp: is_prefix_at_boundary_def)
  have all: "same_char (cat a i) (cat n i) (is_volume n)" if "i < length n" for i
    using assms(1) that by (auto simp: is_prefix_at_boundary_def Let_def split: if_splits)
  have same_nul: "\<not> same_char NUL b v" if "b \<noteq> NUL" for b v
  proof
    assume s: "same_char NUL b v"
    have "to_lower NUL = NUL" by (simp add: to_lower_def)
    moreover have "to_lower b \<noteq> NUL"
    proof
      assume t: "to_lower b = NUL"
      have "char_code (to_lower b) = 0" using t by simp
      moreover have "65 \<le> char_code b \<and> char_code b \<le> 90 \<Longrightarrow> char_code (to_lower b) = char_code b + 32"
        by (simp add: to_lower_def)
      ultimately have "\<not> (65 \<le> char_code b \<and> char_code b \<le> 90)" by linarith
      then have "to_lower b = b" unfolding to_lower_def by (simp only: if_False)
      then show False using that t by simp
    qed
    ultimately show False using s that by (auto simp: same_char_def split: if_splits)
  qed
  show le: "length n \<le> length a"
  proof (rule ccontr)
    assume "\<not> length n \<le> length a"
    then have l: "length a < length n" by simp
    then have "n ! length a \<noteq> NUL" using assms(2) by (metis cstring_def nth_mem)
    with all [OF l] same_nul l show False by (simp add: cat_def)
  qed
  have lastn: "cat n (length n - 1) = last n" "cat a (length n - 1) = last (take (length n) a)"
  proof -
    show "cat n (length n - 1) = last n" using ne by (simp add: cat_def last_conv_nth)
    have "0 < length n" "length n - 1 < length a" using ne le by (cases n; simp)+
    moreover from this have "take (length n) a \<noteq> []" by auto
    ultimately show "cat a (length n - 1) = last (take (length n) a)"
      using le by (simp add: cat_def last_conv_nth min_def)
  qed
  have hdr: "cat a (length n) = (if drop (length n) a = [] then NUL else hd (drop (length n) a))"
    by (auto simp: cat_def hd_drop_conv_nth)
  have nb: "is_volume n \<Longrightarrow> c \<noteq> BSEP" if "c \<in> set a" for c using assms(4) that by auto
  have lin: "last (take (length n) a) \<in> set a"
  proof -
    have "take (length n) a \<noteq> []" using ne le by auto
    then show ?thesis by (rule in_set_takeD [OF last_in_set])
  qed
  have hin: "drop (length n) a \<noteq> [] \<Longrightarrow> hd (drop (length n) a) \<in> set a"
    using hd_in_set by (metis in_set_dropD)
  have "cat n (length n - 1) = SEP \<or> (is_volume n \<and> cat n (length n - 1) = BSEP)
     \<or> cat a (length n) = NUL \<or> cat a (length n) = SEP \<or> (is_volume n \<and> cat a (length n) = BSEP)"
    using assms(1) by (auto simp: is_prefix_at_boundary_def Let_def split: if_splits)
  then show "last (take (length n) a) = SEP \<or> drop (length n) a = [] \<or> hd (drop (length n) a) = SEP"
  proof (elim disjE)
    assume "cat n (length n - 1) = SEP"
    then show ?thesis using same_char_sep [OF all [of "length n - 1"]] ne lastn nb lin by simp
  next
    assume "is_volume n \<and> cat n (length n - 1) = BSEP"
    then show ?thesis using same_char_sep [OF all [of "length n - 1"]] ne lastn nb lin by simp
  next
    assume "cat a (length n) = NUL"
    then have "drop (length n) a = []"
      using hdr hin assms(3) by (auto simp: cstring_def split: if_splits)
    then show ?thesis by simp
  next
    assume "cat a (length n) = SEP"
    then show ?thesis using hdr by (auto split: if_splits)
  next
    assume "is_volume n \<and> cat a (length n) = BSEP"
    then show ?thesis using hdr hin nb by (auto split: if_splits)
  qed
  show "take (length n) a = n" if "\<not> is_volume n"
  proof (rule nth_equalityI)
    fix i assume "i < length (take (length n) a)"
    then show "take (length n) a ! i = n ! i"
      using all [of i] that le by (auto simp: same_char_def cat_def split: if_splits)
  qed (use le in simp)
qed

lemma prefix_boundary_rest:
  assumes "is_prefix_at_boundary n a" "cstring n" "cstring a" "is_volume n \<Longrightarrow> BSEP \<notin> set a"
    and "a = root @ path_of cs" "root_form root" "list_all component cs"
  shows "\<exists>k \<le> length cs. dropWhile (\<lambda>c. c = SEP \<or> (c = BSEP \<and> is_volume n)) (drop (length n) a) = path_of (drop k cs)
       \<and> comps (take (length n) a) @ drop k cs = comps root @ cs"
proof -
  note b = prefix_boundary [OF assms(1-4)]
  let ?n = "take (length n) a" and ?r = "drop (length n) a"
  have set_r: "set ?r \<subseteq> set a" by (rule set_drop_subset)
  have dw: "dropWhile (\<lambda>c. c = SEP \<or> (c = BSEP \<and> is_volume n)) ?r = dropWhile (\<lambda>c. c = SEP) ?r"
    using assms(4) set_r by (intro dropWhile_cong) auto
  define z where "z = takeWhile (\<lambda>c. c = SEP) ?r"
  define q where "q = dropWhile (\<lambda>c. c = SEP) ?r"
  have a: "a = (?n @ z) @ q" unfolding z_def q_def by simp
  have z: "set z \<subseteq> {SEP}" unfolding z_def by (auto dest: set_takeWhileD)
  have nne: "?n \<noteq> []" using b(1,2) by (cases a) auto
  have k: "\<exists>k \<le> length cs. q = path_of (drop k cs)"
  proof (cases "q = []")
    case True
    then show ?thesis by (intro exI [of _ "length cs"]) simp
  next
    case False
    have "last (?n @ z) = SEP"
    proof (cases "z = []")
      case True
      then have "?r = [] \<or> hd ?r \<noteq> SEP" unfolding z_def by (cases ?r) auto
      with False b(3) True show ?thesis by (auto simp: q_def)
    next
      case False
      then have "last z \<in> {SEP}" using z last_in_set by blast
      with False show ?thesis by simp
    qed
    then show ?thesis
      using root_form_suffix [OF assms(6,7), of "?n @ z" q] trans [OF assms(5) [symmetric] a] nne by blast
  qed
  have "comps a = comps ?n @ comps ?r"
    using comps_append_boundary [of ?n ?r] b(3) by auto
  moreover have "comps ?r = comps q" by (simp add: q_def)
  moreover have "comps a = comps root @ cs"
    using comps_append_boundary [of root "path_of cs"] assms(5,6,7)
    by (auto simp: root_form_def comps_path_of)
  ultimately have "comps ?n @ comps q = comps root @ cs" by simp
  moreover obtain k where k: "k \<le> length cs" "q = path_of (drop k cs)" using k by blast
  moreover have "comps q = drop k cs"
    unfolding k(2) using assms(7) by (intro comps_path_of) (auto simp: list_all_iff dest: in_set_dropD)
  ultimately show ?thesis unfolding dw q_def [symmetric] by (intro exI [of _ k]) simp
qed

subsection \<open>The choice of a supplied directory\<close>

lemma best_prefix_not_None: "\<exists>p. best_prefix absn ps (Some b) = Some p"
  by (induction ps arbitrary: b) auto

definition longest_match :: "string \<Rightarrow> (kal_dir \<times> string) set \<Rightarrow> kal_dir \<times> string \<Rightarrow> bool" where
  "longest_match absn S p \<longleftrightarrow> p \<in> S \<and> is_prefix_at_boundary (snd p) absn
     \<and> (\<forall>q \<in> S. is_prefix_at_boundary (snd q) absn \<longrightarrow> length (snd q) \<le> length (snd p))"

lemma best_prefix_longest:
  assumes "best_prefix absn ps (Some b) = Some p" "is_prefix_at_boundary (snd b) absn"
  shows "longest_match absn (insert b (set ps)) p"
  using assms
proof (induction ps arbitrary: b)
  case (Cons r ps)
  let ?b = "if is_prefix_at_boundary (snd r) absn \<and> length (snd b) < length (snd r) then r else b"
  have "best_prefix absn ps (Some ?b) = Some p" and "is_prefix_at_boundary (snd ?b) absn"
    using Cons.prems by (auto split: if_splits)
  from Cons.IH [OF this] Cons.prems(2) show ?case
    by (auto simp: longest_match_def split: if_splits)
qed (auto simp: longest_match_def)

lemma best_prefix_Some: "best_prefix absn ps None = Some p \<Longrightarrow> longest_match absn (set ps) p"
proof (induction ps)
  case (Cons r ps)
  then show ?case
    using best_prefix_longest [of absn ps r p] by (auto simp: longest_match_def split: if_splits)
qed simp

lemma best_prefix_None:
  "best_prefix absn ps None = None \<longleftrightarrow> (\<forall>p \<in> set ps. \<not> is_prefix_at_boundary (snd p) absn)"
  using best_prefix_not_None by (induction ps) auto


subsection \<open>Resolution\<close>

text \<open>What a component list is given to openkal as: \<open>.\<close> for none.\<close>

definition rel_of :: "string list \<Rightarrow> string" where
  "rel_of cs = (if cs = [] then ''.'' else path_of cs)"

lemma copy_str_whole: "n = length s \<Longrightarrow> n < cap \<Longrightarrow> copy_str s n cap = s"
  by (simp add: copy_str_def)

lemma path_of_rel:
  assumes "list_all proper cs"
  shows "rel_of cs \<noteq> []" "hd (rel_of cs) \<noteq> SEP" "''..'' \<notin> set (comps (rel_of cs))"
proof -
  have c: "list_all component cs" using assms by (rule proper_component)
  show "rel_of cs \<noteq> []" using path_of_empty [OF c] by (simp add: rel_of_def)
  show "hd (rel_of cs) \<noteq> SEP" using path_of_hd [OF c] by (simp add: rel_of_def)
  have "comps ''.'' = [''.'']" using component_append [of "''.''" "[]"] by (simp add: component_def)
  moreover have "''..'' \<notin> set cs" using assms by (auto simp: list_all_iff proper_def)
  ultimately show "''..'' \<notin> set (comps (rel_of cs))" by (simp add: rel_of_def comps_path_of [OF c])
qed

text \<open>An absolute name as \<open>okm_resolve\<close> computes it.\<close>

definition clean :: "string \<Rightarrow> string list \<Rightarrow> bool" where
  "clean root cs \<longleftrightarrow> root_form root \<and> list_all proper cs \<and> cstring (root @ path_of cs)
     \<and> length (root @ path_of cs) < OKM_MAX_PATH"

text \<open>The supplied names are C strings, and one spelled with a volume is only met by a name in which
  no backslash is left.\<close>

definition pre_ok :: "'e okm \<Rightarrow> string \<Rightarrow> bool" where
  "pre_ok s absn \<longleftrightarrow> (\<forall>p \<in> set (g_pre s). cstring (snd p)
     \<and> (is_prefix_at_boundary (snd p) absn \<longrightarrow> is_volume (snd p) \<longrightarrow> BSEP \<notin> set absn))"

lemma resolve_abs_spec:
  assumes "resolve_abs s absn l = Inr at" "l = 0 \<or> l = length absn"
    and "clean root cs" "absn = root @ path_of cs" "pre_ok s absn"
  obtains n k where "longest_match absn (set (g_pre s)) (at_base at, n)"
    "k \<le> length cs" "at_rel at = rel_of (drop k cs)" "at_len at = length (at_rel at)"
    "length (at_rel at) < OKM_MAX_PATH"
    "comps (take (length n) absn) @ drop k cs = comps root @ cs"
proof -
  obtain d n where best: "best_prefix absn (g_pre s) None = Some (d, n)"
    using assms(1) by (auto simp: resolve_abs_def split: option.splits)
  note lm = best_prefix_Some [OF best]
  define rest where "rest = dropWhile (\<lambda>c. c = SEP \<or> (c = BSEP \<and> is_volume n)) (drop (length n) absn)"
  have c: "list_all proper cs" "list_all component cs" "root_form root" "cstring absn" "length absn < OKM_MAX_PATH"
    using assms(3,4) proper_component by (auto simp: clean_def)
  have pre: "is_prefix_at_boundary n absn" "cstring n" "is_volume n \<Longrightarrow> BSEP \<notin> set absn"
    using lm assms(5) by (auto simp: longest_match_def pre_ok_def)
  obtain k where k: "k \<le> length cs" "rest = path_of (drop k cs)"
    "comps (take (length n) absn) @ drop k cs = comps root @ cs"
    using prefix_boundary_rest [OF pre(1,2) c(4) pre(3) assms(4) c(3,2)] unfolding rest_def by blast
  have dk: "list_all component (drop k cs)" using c(2) by (auto simp: list_all_iff dest: in_set_dropD)
  have lr: "length rest \<le> length (drop (length n) absn)"
    unfolding rest_def by (rule length_dropWhile_le)
  then have lr2: "length rest \<le> length absn" "length rest < OKM_MAX_PATH" using c(5) by simp_all
  have rl: "(if l \<noteq> 0 then l - (length absn - length rest) else length rest) = length rest"
    using assms(2) lr2 by auto
  have "at = \<lparr>at_base = d, at_len = length (rel_of (drop k cs)), at_rel = rel_of (drop k cs)\<rparr>"
    using assms(1) lr2
    unfolding resolve_abs_def best option.case prod.case Let_def rest_def [symmetric] rl
    by (auto simp: rel_of_def k(2) path_of_empty [OF dk] copy_str_whole)
  moreover have "length (rel_of (drop k cs)) < OKM_MAX_PATH" using lr2 by (simp add: rel_of_def k(2))
  ultimately show ?thesis using that lm k by simp
qed

lemma root_length_SEP [simp]: "root_length (SEP # r) = 1"
  by (simp add: root_length_def)

lemma root_length_cases:
  obtains (relative) "root_length n = 0"
  | (slash) r where "n = SEP # r"
  | (volume) a t r where "n = a # CHR '':'' # t # r" "is_letter a" "t = SEP \<or> t = BSEP" "root_length n = 3"
proof (cases "root_length n = 3")
  case True
  then have "3 \<le> length n" using root_length_values(2) [of n] by simp
  then obtain a c t r where n: "n = a # c # t # r" by (auto simp: numeral_3_eq_3 Suc_le_length_iff)
  with True have "c = CHR '':''" "is_letter a" "t = SEP \<or> t = BSEP"
    by (auto simp: root_length_def split: if_splits)
  with True n volume show thesis by blast
next
  case False
  show thesis
  proof (cases "root_length n = 0")
    case False
    with \<open>root_length n \<noteq> 3\<close> have "n \<noteq> []" "cat n 0 = SEP"
      by (auto simp: root_length_def split: if_splits)
    with slash show thesis by (cases n) auto
  qed (rule relative)
qed

text \<open>The name a path is joined to: nothing for an absolute one, the working directory's or the
  directory's own otherwise, if it is known.\<close>

definition base_name :: "'e okm \<Rightarrow> int \<Rightarrow> string \<Rightarrow> string option" where
  "base_name s dirfd path =
     (if root_length path \<noteq> 0 then Some []
      else if dirfd = AT_FDCWD then Some (g_cwd s)
      else case okm_desc_of dirfd s of
             None \<Rightarrow> None
           | Some d \<Rightarrow> if d_kind (g_desc s d) = OKM_DIR then dir_name s (g_desc s d) else None)"

definition named :: "string \<Rightarrow> string \<Rightarrow> string" where
  "named b path = join_root b path @ path_of (reduce (join_comps b path))"

lemma join_comps_components: "list_all component (join_comps b path)"
  by (auto simp: join_comps_def comps_all_components)

lemma join_proper: "list_all proper (reduce (join_comps b path))"
  by (rule reduce_proper [OF join_comps_components])

lemma already_normal_named:
  assumes "already_normal path \<noteq> 0"
  shows "base_name s dirfd path = Some []" "named [] path = path" "already_normal path = length path"
    "length path < OKM_MAX_PATH" "root_length path = 1"
proof -
  obtain cs where cs: "list_all proper cs" "path = SEP # path_of cs" "already_normal path = length path"
    "length path < OKM_MAX_PATH" using assms by (rule already_normal_sound)
  show r: "root_length path = 1" by (simp add: cs(2))
  then show "base_name s dirfd path = Some []" by (simp add: base_name_def)
  have "join_root [] path = [SEP]" by (simp add: join_root_def join_from_def cs(2) slashes_def)
  moreover have "join_comps [] path = cs"
    by (simp add: join_comps_def spell_def cs(2) comps_path_of proper_component cs(1))
  ultimately show "named [] path = path" by (simp add: named_def reduce_id cs(1)) (simp add: cs(2))
  show "already_normal path = length path" "length path < OKM_MAX_PATH" by (rule cs)+
qed

lemma resolve_abs_len: "resolve_abs s absn (length absn) = resolve_abs s absn 0"
proof -
  have "length absn - (length absn - length (dropWhile P (drop k absn))) = length (dropWhile P (drop k absn))"
    for P k
  proof -
    have "length (dropWhile P (drop k absn)) \<le> length (drop k absn)" by (rule length_dropWhile_le)
    then show ?thesis by simp
  qed
  then show ?thesis
    by (simp only: resolve_abs_def Let_def if_cancel simp_thms if_False)
qed

text \<open>Where the directory has a name, \<open>okm_resolve\<close> is \<open>join\<close> followed by the choice of a supplied
  directory; the name taken as it stands is not a different case.\<close>

lemma okm_resolve_named:
  assumes "base_name s dirfd path = Some b" "path \<noteq> [] \<or> empty_ok"
  shows "okm_resolve s dirfd (Some path) empty_ok =
    (if already_normal path \<noteq> 0 then resolve_abs s path 0
     else case join b path OKM_MAX_PATH of Inl e \<Rightarrow> Inl e | Inr absn \<Rightarrow> resolve_abs s absn 0)"
proof (cases "already_normal path \<noteq> 0")
  case True
  then show ?thesis
    using assms already_normal_named(3) [OF True] resolve_abs_len [of s path] by (simp add: okm_resolve_def)
next
  case False
  then show ?thesis
    using assms
    by (auto simp: okm_resolve_def base_name_def resolve_joined_def split: if_splits option.splits)
qed

lemma okm_resolve_short:
  assumes "base_name s dirfd path = Some b" "path \<noteq> [] \<or> empty_ok" "length b + length path + 3 \<le> OKM_MAX_PATH"
  shows "okm_resolve s dirfd (Some path) empty_ok = resolve_abs s (named b path) 0"
  unfolding okm_resolve_named [OF assms(1,2)] join_total [OF assms(3) assms(3)] named_def [symmetric]
  using already_normal_named(1) [of path s dirfd] already_normal_named(2) [of path] assms(1) by auto

text \<open>A directory whose name is not known.\<close>

lemma okm_resolve_unnamed:
  assumes "base_name s dirfd path = None" "okm_resolve s dirfd (Some path) empty_ok = Inr at"
  obtains d where "okm_desc_of dirfd s = Some d" "d_kind (g_desc s d) = OKM_DIR"
    "at = \<lparr>at_base = d_dir (g_desc s d), at_len = length (rel_of (reduce (comps path))),
           at_rel = rel_of (reduce (comps path))\<rparr>"
    "length (rel_of (reduce (comps path))) < OKM_MAX_PATH"
proof -
  have an: "already_normal path = 0" using already_normal_named(1) [of path s dirfd] assms(1) by auto
  have r: "root_length path = 0" "dirfd \<noteq> AT_FDCWD" using assms(1) by (auto simp: base_name_def split: if_splits)
  obtain d norm where d: "okm_desc_of dirfd s = Some d" "d_kind (g_desc s d) = OKM_DIR"
    "dir_name s (g_desc s d) = None" and norm: "normalise path OKM_MAX_PATH = Inr norm"
    using assms an r by (auto simp: okm_resolve_def base_name_def split: if_splits option.splits sum.splits)
  note n = normalise_spec [OF norm]
  have c: "list_all component (reduce (comps path))"
    by (rule proper_component [OF reduce_proper [OF comps_all_components]])
  have rel: "rel_of (reduce (comps path)) = (if norm = [] then ''.'' else norm)"
    by (simp add: rel_of_def n(1) path_of_empty [OF c])
  have "at = \<lparr>at_base = d_dir (g_desc s d), at_len = length (rel_of (reduce (comps path))),
      at_rel = rel_of (reduce (comps path))\<rparr>"
    using assms(2) an r d norm n(2)
    by (auto simp: okm_resolve_def rel copy_str_whole Let_def split: if_splits)
  moreover have "length (rel_of (reduce (comps path))) < OKM_MAX_PATH" using n(2) by (simp add: rel)
  ultimately show ?thesis using that d by blast
qed

text \<open>The spelling the theorems below ask for: the names are C strings, and where a supplied
  directory is spelled with a volume its root is there (\<open>C:/\<close>) and every other name begins with a root.\<close>

definition rooted :: "string \<Rightarrow> bool" where
  "rooted n \<longleftrightarrow> root_length n \<noteq> 0"

definition well_spelled :: "'e okm \<Rightarrow> bool" where
  "well_spelled s \<longleftrightarrow>
     (\<forall>p \<in> set (g_pre s). cstring (snd p)) \<and> cstring (g_cwd s)
   \<and> (\<forall>d n. dir_name s (g_desc s d) = Some n \<longrightarrow> cstring n)
   \<and> ((\<forall>p \<in> set (g_pre s). \<not> is_volume (snd p))
      \<or> ((\<forall>p \<in> set (g_pre s). is_volume (snd p) \<longrightarrow> root_length (snd p) = 3) \<and> rooted (g_cwd s)
         \<and> (\<forall>d n. dir_name s (g_desc s d) = Some n \<longrightarrow> rooted n)))"

lemma base_name_ok:
  assumes "well_spelled s" "base_name s dirfd path = Some b"
  shows "cstring b" "(\<exists>p \<in> set (g_pre s). is_volume (snd p)) \<Longrightarrow> root_length (join_from b path) \<noteq> 0"
  using assms by (auto simp: well_spelled_def base_name_def join_from_def rooted_def split: if_splits option.splits)

lemma join_root_cases:
  obtains "root_length (join_from b path) = 0" "join_root b path = []"
  | "root_length (join_from b path) = 1" "join_root b path = [SEP]"
  | a where "root_length (join_from b path) = 3" "join_root b path = [a, CHR '':'', SEP]" "is_letter a"
proof (cases rule: root_length_cases [of "join_from b path"])
  case relative
  then show thesis using that(1) by (simp add: join_root_def)
next
  case (slash r)
  then show thesis using that(2) by (simp add: join_root_def slashes_def)
next
  case (volume a t r)
  have "a \<noteq> BSEP" using volume(2) by (auto simp: is_letter_def)
  then have "join_root b path = [a, CHR '':'', SEP]"
    using volume by (auto simp: join_root_def slashes_def)
  then show thesis using that(3) volume by simp
qed

lemma root_form_join: "root_form (join_root b path)"
proof (cases rule: join_root_cases [of b path])
  case (3 a)
  then have "join_root b path = [a, CHR '':''] @ [SEP]" "SEP \<notin> set [a, CHR '':'']"
    by (auto simp: is_letter_def)
  then show ?thesis unfolding root_form_def by blast
qed (auto simp: root_form_def)

lemma volume_not_slash:
  assumes "is_prefix_at_boundary n a" "is_volume n" "root_length n = 3" "cat a 0 = SEP"
  shows False
proof -
  have n: "n \<noteq> []" "is_letter (cat n 0)"
    using assms(2,3) by (auto simp: root_length_def split: if_splits)
  then have "same_char SEP (cat n 0) True"
    using assms by (auto simp: is_prefix_at_boundary_def Let_def split: if_splits)
  then have "to_lower SEP = to_lower (cat n 0)"
    using n(2) by (auto simp: same_char_def is_letter_def split: if_splits)
  then have t: "to_lower (cat n 0) = SEP" by (simp add: to_lower_def)
  show False
  proof (cases "65 \<le> char_code (cat n 0) \<and> char_code (cat n 0) \<le> 90")
    case True
    then have "char_code (to_lower (cat n 0)) = char_code (cat n 0) + 32" by (simp add: to_lower_def)
    with t True show False by simp
  next
    case False
    then have "cat n 0 = SEP" using t unfolding to_lower_def by (simp only: if_False)
    with n(2) show False by (simp add: is_letter_def)
  qed
qed


lemma pre_ok_named:
  assumes "well_spelled s" "base_name s dirfd path = Some b" "cstring path"
    and "join b path OKM_MAX_PATH = Inr (named b path) \<or> already_normal path \<noteq> 0"
  shows "pre_ok s (named b path)"
proof -
  have pre: "cstring (snd p)" if "p \<in> set (g_pre s)" for p using assms(1) that by (auto simp: well_spelled_def)
  have "BSEP \<notin> set (named b path)"
    if p: "p \<in> set (g_pre s)" "is_prefix_at_boundary (snd p) (named b path)" "is_volume (snd p)" for p
  proof -
    have r3: "root_length (snd p) = 3" using assms(1) p by (auto simp: well_spelled_def)
    show ?thesis
    proof (cases rule: join_root_cases [of b path])
      case 1
      with base_name_ok(2) [OF assms(1,2)] p show ?thesis by auto
    next
      case 2
      then have "cat (named b path) 0 = SEP" by (simp add: named_def)
      with volume_not_slash [OF p(2,3) r3] show ?thesis by simp
    next
      case 3
      then have "already_normal path = 0"
        using already_normal_named(5) [of path] by (cases "already_normal path = 0") (auto simp: join_from_def)
      with join_volume_chars 3 assms(4) show ?thesis by blast
    qed
  qed
  with pre show ?thesis by (auto simp: pre_ok_def)
qed

lemma clean_named:
  assumes "cstring b" "cstring path"
    and "join b path OKM_MAX_PATH = Inr (named b path) \<or> (already_normal path \<noteq> 0 \<and> named b path = path)"
  shows "clean (join_root b path) (reduce (join_comps b path))"
proof -
  have "cstring (named b path)"
    using join_result_chars [of b path] assms(1,2) by (auto simp: named_def cstring_def)
  moreover have "length (named b path) < OKM_MAX_PATH"
    using assms(3) join_spec(2) already_normal_named(4) [of path] by auto
  ultimately show ?thesis
    by (simp add: clean_def root_form_join join_proper flip: named_def)
qed

text \<open>The whole of a resolution that succeeds where the directory has a name.\<close>

lemma okm_resolve_spec:
  assumes "well_spelled s" "cstring path" "base_name s dirfd path = Some b"
    and "okm_resolve s dirfd (Some path) empty_ok = Inr at"
  obtains n k where "longest_match (named b path) (set (g_pre s)) (at_base at, n)"
    "pre_ok s (named b path)" "cstring (named b path)"
    "at_rel at = rel_of (drop k (reduce (join_comps b path)))" "at_len at = length (at_rel at)"
    "length (at_rel at) < OKM_MAX_PATH"
    "comps (take (length n) (named b path)) @ drop k (reduce (join_comps b path)) =
       comps (join_root b path) @ reduce (join_comps b path)"
proof -
  have ne: "path \<noteq> [] \<or> empty_ok" using assms(4) by (auto simp: okm_resolve_def split: if_splits)
  have alt: "resolve_abs s (named b path) 0 = Inr at
    \<and> (join b path OKM_MAX_PATH = Inr (named b path) \<or> (already_normal path \<noteq> 0 \<and> named b path = path))"
  proof (cases "already_normal path \<noteq> 0")
    case True
    then have "b = []" using already_normal_named(1) [of path s dirfd] assms(3) by simp
    with True already_normal_named(2) [OF True] okm_resolve_named [OF assms(3) ne] assms(4) show ?thesis by simp
  next
    case False
    then obtain absn where "join b path OKM_MAX_PATH = Inr absn" "resolve_abs s absn 0 = Inr at"
      using okm_resolve_named [OF assms(3) ne] assms(4) by (auto split: sum.splits)
    with join_spec(1) show ?thesis unfolding named_def by metis
  qed
  then have pre: "pre_ok s (named b path)" by (intro pre_ok_named [OF assms(1,3,2)]) auto
  have cl: "clean (join_root b path) (reduce (join_comps b path))"
    using clean_named [OF base_name_ok(1) [OF assms(1,3)] assms(2)] alt by blast
  then have cs: "cstring (named b path)" by (simp add: clean_def named_def)
  show thesis
    by (rule resolve_abs_spec [OF conjunct1 [OF alt] _ cl named_def pre])
      (use that pre cs in \<open>simp_all\<close>)
qed


section \<open>Properties of resolution\<close>


text \<open>A table over which two directories are supplied, the root and \<open>/home/me\<close>.\<close>

definition two_dirs :: "unit okm" where
  "two_dirs = (okm_table_init_memory (zero_okm ()))\<lparr>g_pre := [(10, ''/''), (11, ''/home/me'')], g_cwd := ''/home/me/src''\<rparr>"

lemma two_dirs_spelled: "well_spelled two_dirs"
  by (simp add: well_spelled_def two_dirs_def is_volume_def dir_name_def zero_okm_def zero_desc_def
      okm_table_init_memory_def Let_def)


text \<open>C9: Resolution is lexical resolution. Where the name a path is relative to is known and no
  supplied directory is spelled with a volume, a name that resolves is split between the chosen
  directory and the remainder: the components of the directory's name followed by those of the
  remainder are the components of the joined name with every \<open>.\<close> and \<open>..\<close> resolved; and the
  directory's name is the longest of the supplied names that are prefixes of the name.\<close>

theorem resolve_correct:
  assumes "well_spelled s" and "cstring path" and "base_name s dirfd path = Some b"
    and "\<And>p. p \<in> set (g_pre s) \<Longrightarrow> \<not> is_volume (snd p)"
    and "okm_resolve s dirfd (Some path) empty_ok = Inr at"
  shows "\<exists>n rest. (at_base at, n) \<in> set (g_pre s) \<and> at_rel at = rel_of rest
    \<and> comps n @ rest = comps (join_root b path) @ reduce (join_comps b path)
    \<and> (\<forall>p \<in> set (g_pre s). is_prefix_at_boundary (snd p) (named b path) \<longrightarrow> length (snd p) \<le> length n)"
proof -
  obtain n k where at: "longest_match (named b path) (set (g_pre s)) (at_base at, n)"
    "pre_ok s (named b path)" "cstring (named b path)"
    "at_rel at = rel_of (drop k (reduce (join_comps b path)))"
    "comps (take (length n) (named b path)) @ drop k (reduce (join_comps b path)) =
       comps (join_root b path) @ reduce (join_comps b path)"
    by (rule okm_resolve_spec [OF assms(1,2,3,5)])
  have n: "(at_base at, n) \<in> set (g_pre s)" "is_prefix_at_boundary n (named b path)"
    using at(1) by (auto simp: longest_match_def)
  then have nv: "\<not> is_volume n" "cstring n" using assms(4) at(2) by (force simp: pre_ok_def)+
  then have "take (length n) (named b path) = n" using prefix_boundary(4) [OF n(2) _ at(3)] by blast
  with at n show ?thesis
    by (intro exI [of _ n] exI [of _ "drop k (reduce (join_comps b path))"]) (simp add: longest_match_def)
qed

lemma two_dirs_base: "base_name two_dirs AT_FDCWD ''../doc/./a'' = Some ''/home/me/src''"
  by code_simp

theorem resolve_correct_witness:
  "\<exists>n rest. (11, n) \<in> set (g_pre two_dirs) \<and> ''doc/a'' = rel_of rest
    \<and> comps n @ rest = comps (join_root ''/home/me/src'' ''../doc/./a'') @ reduce (join_comps ''/home/me/src'' ''../doc/./a'')"
proof -
  have "okm_resolve two_dirs AT_FDCWD (Some ''../doc/./a'') False =
     Inr \<lparr>at_base = 11, at_len = 5, at_rel = ''doc/a''\<rparr>" by code_simp
  moreover have "\<And>p. p \<in> set (g_pre two_dirs) \<Longrightarrow> \<not> is_volume (snd p)"
    by (auto simp: two_dirs_def is_volume_def)
  ultimately show ?thesis
    using resolve_correct [OF two_dirs_spelled _ two_dirs_base, of False] by fastforce
qed

text \<open>Resolution finds a directory whenever there is one. For a name that is not too long,
  relative to a known name, the answer is an error only when no supplied name is a prefix of it, and
  the error is then \<open>ENOENT\<close>: a program confined to a subtree cannot name anything outside it.\<close>

theorem resolve_decides:
  assumes "base_name s dirfd path = Some b" and "path \<noteq> []"
    and "length b + length path + 3 \<le> OKM_MAX_PATH"
  shows "(\<exists>at. okm_resolve s dirfd (Some path) empty_ok = Inr at)
       = (\<exists>p \<in> set (g_pre s). is_prefix_at_boundary (snd p) (named b path))
    \<and> (\<forall>e. okm_resolve s dirfd (Some path) empty_ok = Inl e \<longrightarrow> e = - ENOENT)"
proof -
  have eq: "okm_resolve s dirfd (Some path) empty_ok = resolve_abs s (named b path) 0"
    using okm_resolve_short [OF assms(1) _ assms(3)] assms(2) by blast
  show ?thesis
  proof (cases "best_prefix (named b path) (g_pre s) None")
    case None
    then have "\<not> (\<exists>p \<in> set (g_pre s). is_prefix_at_boundary (snd p) (named b path))"
      by (simp add: best_prefix_None)
    with None show ?thesis unfolding eq by (simp add: resolve_abs_def)
  next
    case (Some p)
    then have "\<exists>p \<in> set (g_pre s). is_prefix_at_boundary (snd p) (named b path)"
      using best_prefix_None by (metis option.distinct(1))
    with Some show ?thesis unfolding eq by (cases p) (simp add: resolve_abs_def Let_def)
  qed
qed

theorem resolve_decides_witness:
  "okm_resolve (two_dirs\<lparr>g_pre := [(11, ''/home/me'')]\<rparr>) AT_FDCWD (Some ''../../you'') False = Inl (- ENOENT)"
proof -
  have b: "base_name (two_dirs\<lparr>g_pre := [(11, ''/home/me'')]\<rparr>) AT_FDCWD ''../../you'' = Some ''/home/me/src''"
    by code_simp
  have n: "named ''/home/me/src'' ''../../you'' = ''/home/you''" by code_simp
  have "\<not> is_prefix_at_boundary ''/home/me'' ''/home/you''" by code_simp
  with resolve_decides [OF b, of False] n show ?thesis
    by (cases "okm_resolve (two_dirs\<lparr>g_pre := [(11, ''/home/me'')]\<rparr>) AT_FDCWD (Some ''../../you'') False") auto
qed

text \<open>The short way is the long way. A name \<open>already_normal\<close> accepts is the name \<open>join\<close> would
  have computed from it, so that taking it as it stands and not copying it changes no answer.\<close>

theorem already_normal_join:
  assumes "already_normal path \<noteq> 0" and "length path + 3 \<le> OKM_MAX_PATH"
  shows "join prefix path OKM_MAX_PATH = Inr path
    \<and> okm_resolve s dirfd (Some path) empty_ok = resolve_joined s (join prefix path OKM_MAX_PATH)"
proof -
  note an = already_normal_named [OF assms(1)]
  have r: "root_length path \<noteq> 0" using an(5) by simp
  have "join prefix path OKM_MAX_PATH = join [] path OKM_MAX_PATH"
    using r by (simp add: join_def Let_def)
  also have "\<dots> = Inr path"
    using join_total [of "[]" path OKM_MAX_PATH] assms(2) an(2) by (simp add: named_def)
  finally have j: "join prefix path OKM_MAX_PATH = Inr path" .
  have "path \<noteq> []" using r by auto
  then show ?thesis
    using assms(1) okm_resolve_named [OF an(1)] by (simp add: j resolve_joined_def)
qed


theorem already_normal_join_witness: "join ''/home'' ''/usr/lib'' OKM_MAX_PATH = Inr ''/usr/lib''"
proof -
  have "already_normal ''/usr/lib'' \<noteq> 0" by code_simp
  from already_normal_join [OF this, of "''/home''" two_dirs 0 False] show ?thesis by simp
qed

subsection \<open>The null device\<close>

lemma cstring_eqI:
  assumes "cstring a" "cstring b" "\<forall>i < length b + 1. cat a i = cat b i"
  shows "a = b"
proof (rule nth_equalityI)
  have "cat a (length b) = NUL" using assms(3) by simp
  then have "length a \<le> length b" using assms(1) by (metis cat_def cstring_def leI nth_mem)
  moreover have "length b \<le> length a"
  proof (rule ccontr)
    assume "\<not> length b \<le> length a"
    then have l: "length a < length b" by simp
    then have "cat b (length a) = NUL" using assms(3) [rule_format, of "length a"] by simp
    with l assms(2) show False by (metis cat_def cstring_def nth_mem)
  qed
  ultimately show eq: "length a = length b" by simp
  show "a ! i = b ! i" if "i < length a" for i
    using assms(3) [rule_format, of i] that eq by (simp add: cat_def)
qed

lemma final_component_last:
  assumes "comps path \<noteq> []" "BSEP \<notin> set (last (comps path))"
  shows "final_component path = last (comps path)"
proof -
  let ?c = "last (comps path)"
  obtain x z where p: "path = x @ ?c @ z" "set z \<subseteq> {SEP}" "x = [] \<or> last x = SEP"
    using assms(1) by (rule last_comp_split)
  have c: "component ?c" using assms(1) comps_components last_in_set by blast
  have ns: "\<forall>y \<in> set ?c. \<not> is_either_sep y" using c assms(2) by (auto simp: component_def is_either_sep_def)
  have "dropWhile is_either_sep (rev z @ rev ?c @ rev x) = dropWhile is_either_sep (rev ?c @ rev x)"
    using p(2) by (intro dropWhile_append2) (auto simp: is_either_sep_def)
  also have "\<dots> = rev ?c @ rev x"
    using ns component_ends(1) [OF c] by (cases "rev ?c") auto
  finally have d: "dropWhile is_either_sep (rev z @ rev ?c @ rev x) = rev ?c @ rev x" .
  have "takeWhile (\<lambda>y. \<not> is_either_sep y) (rev ?c @ rev x) = rev ?c"
  proof (cases x rule: rev_cases)
    case Nil
    then show ?thesis using ns by (simp add: takeWhile_eq_all_conv)
  next
    case (snoc u y)
    then have "y = SEP" using p(3) by simp
    then have "takeWhile (\<lambda>y. \<not> is_either_sep y) (rev x) = []" using snoc by (simp add: is_either_sep_def)
    then show ?thesis using ns by (subst takeWhile_append2) auto
  qed
  then show ?thesis
    unfolding final_component_def Let_def arg_cong [OF p(1), of rev] rev_append append_assoc d
    by simp
qed

lemma null_absolute:
  assumes "named b path = ''/dev/null''"
  shows "root_length (join_from b path) = 1" "reduce (join_comps b path) = [''dev'', ''null'']"
proof -
  let ?R = "reduce (join_comps b path)"
  have pr: "list_all component ?R" by (rule proper_component [OF join_proper])
  have "root_length (join_from b path) = 1 \<and> path_of ?R = ''dev/null''"
  proof (cases rule: join_root_cases [of b path])
    case 1
    then have "path_of ?R = ''/dev/null''" using assms by (simp add: named_def)
    moreover from this have "?R \<noteq> []" by auto
    ultimately show ?thesis using path_of_hd [OF pr] by simp
  next
    case 2
    then show ?thesis using assms by (simp add: named_def)
  next
    case 3
    then show ?thesis using assms by (simp add: named_def is_letter_def)
  qed
  then show "root_length (join_from b path) = 1" and eq: "?R = [''dev'', ''null'']"
  proof -
    assume r: "root_length (join_from b path) = 1 \<and> path_of ?R = ''dev/null''"
    then show "root_length (join_from b path) = 1" by simp
    have "comps ''dev/null'' = [''dev'', ''null'']"
      using comps_path_of [of "[''dev'', ''null'']"] by (simp add: component_def)
    with comps_path_of [OF pr] r show "?R = [''dev'', ''null'']" by simp
  qed
qed

lemma join_comps_suffix:
  assumes "root_length (join_from b path) = 1"
  shows "\<exists>xs. join_comps b path = xs @ comps path"
proof (cases "root_length path = 0")
  case True
  then show ?thesis using assms by (simp add: join_comps_def join_from_def spell_def)
next
  case False
  then have r: "root_length path = 1" using assms by (simp add: join_from_def)
  then obtain q where "path = SEP # q" by (cases rule: root_length_cases [of path]) auto
  with r show ?thesis by (simp add: join_comps_def spell_def)
qed

lemma null_last_component:
  assumes "named b path = ''/dev/null''" "comps path \<noteq> []"
  shows "last (comps path) \<in> {''.'', ''..'', ''null''}"
proof -
  note n = null_absolute [OF assms(1)]
  obtain xs where xs: "join_comps b path = xs @ comps path" using join_comps_suffix [OF n(1)] by blast
  have "reduce (join_comps b path) = reduce_step (reduce (xs @ butlast (comps path))) (last (comps path))"
    unfolding xs using assms(2)
    by (metis append_assoc append_butlast_last_id foldl_Cons foldl_Nil reduce_append)
  with n(2) show ?thesis by (auto simp: reduce_step_def split: if_splits)
qed

lemma okm_absolute_named:
  "base_name s dirfd path = Some b \<Longrightarrow> okm_absolute s dirfd (Some path) cap = join b path cap"
  "base_name s dirfd path = None \<Longrightarrow> \<exists>e. okm_absolute s dirfd (Some path) cap = Inl e"
  by (auto simp: base_name_def okm_absolute_def split: if_splits option.splits)

lemma final_component_seps: "comps path = [] \<Longrightarrow> final_component path = []"
proof -
  assume "comps path = []"
  then have "\<forall>c \<in> set (rev path). is_either_sep c" by (auto simp: comps_empty_iff is_either_sep_def)
  then have "dropWhile is_either_sep (rev path) = []" by (simp only: dropWhile_eq_Nil_conv)
  then show ?thesis unfolding final_component_def Let_def by (simp only: rev.simps takeWhile.simps)
qed

text \<open>The quick refusal of \<open>okm_null_name\<close> changes no answer: looking at the last component
  first, and only sometimes resolving the name, is the same question as resolving it always.\<close>

theorem okm_null_name_equiv:
  assumes "cstring path" and "cstring (g_cwd s)"
    and "\<And>d n. dir_name s (g_desc s d) = Some n \<Longrightarrow> cstring n"
  shows "okm_null_name s dirfd (Some path) = null_name_resolved s dirfd (Some path)"
proof (cases "null_name_resolved s dirfd (Some path)")
  case False
  then show ?thesis by (simp add: okm_null_name_def Let_def)
next
  case True
  then obtain absn where ne: "path \<noteq> []" and a: "okm_absolute s dirfd (Some path) OKM_MAX_PATH = Inr absn"
    and same: "\<forall>i < length null_device + 1. cat absn i = cat null_device i"
    by (auto simp: null_name_resolved_def split: if_splits sum.splits)
  then obtain b where b: "base_name s dirfd path = Some b" and j: "join b path OKM_MAX_PATH = Inr absn"
    using okm_absolute_named(1) [of s dirfd path] okm_absolute_named(2) [of s dirfd path OKM_MAX_PATH]
    by (cases "base_name s dirfd path") auto
  have "cstring b" using b assms(2,3) by (auto simp: base_name_def split: if_splits option.splits)
  then have "cstring absn" using join_cstring [OF j] assms(1) by simp
  then have "absn = null_device" using same by (intro cstring_eqI) (simp_all add: null_device_def)
  then have n: "named b path = ''/dev/null''" using join_spec(1) [OF j] by (simp add: named_def null_device_def)
  have "length path < OKM_MAX_PATH"
    using j null_absolute(1) [OF n] root_length_values(2) [of path]
    unfolding join_eq by (auto simp: join_tmp_def join_text_def join_from_def split: if_splits)
  moreover have "final_component path \<in> {[], ''.'', ''..'', ''null''}"
  proof (cases "comps path = []")
    case False
    with null_last_component [OF n] have l: "last (comps path) \<in> {''.'', ''..'', ''null''}" by blast
    then have "BSEP \<notin> set (last (comps path))" by auto
    with final_component_last [OF False] l show ?thesis by simp
  qed (simp add: final_component_seps)
  ultimately show ?thesis using True ne by (auto simp: okm_null_name_def Let_def)
qed

theorem okm_null_name_equiv_witness:
  "okm_null_name two_dirs AT_FDCWD (Some ''../../../dev/null/.'')"
proof -
  have "join ''/home/me/src'' ''../../../dev/null/.'' OKM_MAX_PATH = Inr null_device" by code_simp
  moreover have "base_name two_dirs AT_FDCWD ''../../../dev/null/.'' = Some ''/home/me/src''" by code_simp
  ultimately have "null_name_resolved two_dirs AT_FDCWD (Some ''../../../dev/null/.'')"
    by (simp add: null_name_resolved_def okm_absolute_named(1))
  moreover have "cstring (g_cwd two_dirs)" "\<And>d n. dir_name two_dirs (g_desc two_dirs d) = Some n \<Longrightarrow> cstring n"
    using two_dirs_spelled by (auto simp: well_spelled_def)
  ultimately show ?thesis
    using okm_null_name_equiv [of "''../../../dev/null/.''" two_dirs AT_FDCWD] by simp
qed

subsection \<open>Directories whose name is not known\<close>

lemma ascends_comps:
  assumes "ascends p" "cstring p" "p = [] \<or> hd p \<noteq> SEP"
  shows "''..'' \<in> set (comps p)"
  using assms
proof (induction p rule: ascends.induct)
  case (1 p)
  have ne: "p \<noteq> []" using "1.prems"(1) by (auto simp: ascends.simps)
  then have hd: "hd p \<noteq> SEP" using "1.prems"(3) by simp
  show ?case
  proof (cases "cat p 0 = CHR ''.'' \<and> cat p 1 = CHR ''.'' \<and> (cat p 2 = SEP \<or> cat p 2 = NUL)")
    case True
    then obtain q where p: "p = ''..'' @ q"
      by (cases p; cases "tl p") auto
    then have "q = [] \<or> hd q = SEP"
      using True "1.prems"(2) by (cases q) auto
    then have "comps p = ''..'' # comps q"
      unfolding p by (rule component_append [rotated]) (simp add: component_def)
    then show ?thesis by simp
  next
    case False
    let ?r = "dropWhile (\<lambda>c. c = SEP) (dropWhile (\<lambda>c. c \<noteq> SEP) p)"
    have "ascends ?r" using "1.prems"(1) ne False by (simp only: ascends.simps [of p] if_False)
    moreover have "cstring ?r"
      using "1.prems"(2) by (auto simp: cstring_def dest!: set_dropWhileD)
    moreover have "?r = [] \<or> hd ?r \<noteq> SEP" using hd_dropWhile [of "\<lambda>c. c = SEP"] by blast
    ultimately have "''..'' \<in> set (comps ?r)" by (rule "1.IH" [OF ne False])
    then show ?thesis unfolding comps_step [OF ne hd] by simp
  qed
qed

text \<open>Beneath a directory whose own name is not known every relative name that fits resolves
  through the directory's handle, with each \<open>..\<close> taken lexically and one that ascends past the
  beginning dropped: no name is refused for ascending, because \<open>normalise\<close> leaves no \<open>..\<close> for the
  check after it to find.\<close>

theorem resolve_unnamed:
  assumes "okm_desc_of dirfd s = Some d" and "d_kind (g_desc s d) = OKM_DIR"
    and "dir_name s (g_desc s d) = None"
    and "root_length path = 0" and "path \<noteq> []" and "cstring path" and "length path + 2 \<le> OKM_MAX_PATH"
  shows "okm_resolve s dirfd (Some path) empty_ok =
    Inr \<lparr>at_base = d_dir (g_desc s d), at_len = length (rel_of (reduce (comps path))),
         at_rel = rel_of (reduce (comps path))\<rparr>"
proof -
  let ?R = "reduce (comps path)"
  have pr: "list_all proper ?R" by (rule reduce_proper [OF comps_all_components])
  note c = proper_component [OF pr]
  have norm: "normalise path OKM_MAX_PATH = Inr (path_of ?R)"
    by (rule normalise_total [OF assms(7)])
  note len = normalise_spec(2) [OF norm]
  have an: "already_normal path = 0" using already_normal_named(5) [of path] assms(4) by fastforce
  have fd: "dirfd \<noteq> AT_FDCWD" using assms(1) by (auto simp: okm_desc_of_def fd_in_range_def)
  have "set (path_of ?R) \<subseteq> insert SEP (set path)"
    using path_of_chars reduce_subset comps_chars by fastforce
  then have cs: "cstring (path_of ?R)" using assms(6) by (auto simp: cstring_def)
  have "\<not> ascends (path_of ?R)"
  proof
    assume "ascends (path_of ?R)"
    moreover have "path_of ?R = [] \<or> hd (path_of ?R) \<noteq> SEP" using path_of_hd [OF c] path_of_empty [OF c] by blast
    ultimately have "''..'' \<in> set (comps (path_of ?R))" using cs by (intro ascends_comps)
    then show False using pr by (auto simp: comps_path_of [OF c] list_all_iff proper_def)
  qed
  then show ?thesis
    using assms(1-5) an fd norm len
    by (simp add: okm_resolve_def rel_of_def path_of_empty [OF c] copy_str_whole Let_def)
qed

text \<open>A descriptor for a directory whose handle is 5 and whose name was never recorded.\<close>

definition unnamed_dir :: "unit okm" where
  "unnamed_dir = (okm_table_init_memory (zero_okm ()))\<lparr>
     g_fd := (\<lambda>_. \<lparr>fd_desc = -1, fd_cloexec = 0\<rparr>)(3 := \<lparr>fd_desc = 0, fd_cloexec = 0\<rparr>),
     g_desc := (\<lambda>_. zero_desc)(0 := bound_desc OKM_DIR 0 0 5 0 zero_desc)\<rparr>"

theorem resolve_unnamed_witness:
  "okm_resolve unnamed_dir 3 (Some ''../x'') False = Inr \<lparr>at_base = 5, at_len = 1, at_rel = ''x''\<rparr>"
proof -
  have d: "okm_desc_of 3 unnamed_dir = Some 0" "d_kind (g_desc unnamed_dir 0) = OKM_DIR"
    "dir_name unnamed_dir (g_desc unnamed_dir 0) = None" "d_dir (g_desc unnamed_dir 0) = 5"
    by (simp_all add: unnamed_dir_def okm_desc_of_def fd_in_range_def dir_name_def bound_desc_def)
  have "root_length ''../x'' = 0" "rel_of (reduce (comps ''../x'')) = ''x''" by code_simp+
  with resolve_unnamed [OF d(1-3), of "''../x''" False] d(4) show ?thesis by simp
qed

definition bare_volume :: "unit okm" where
  "bare_volume = (zero_okm ())\<lparr>g_pre := [(10, ''C:'')], g_cwd := ''C:''\<rparr>"

text \<open>Beneath a volume supplied by its bare name (\<open>C:\<close>) a name spelled with a backslash
  keeps its \<open>..\<close>: \<open>root_length\<close> recognises a volume only with its root, so \<open>join\<close> leaves the
  backslash in the name, while the choice of a supplied directory skips it. What openkal is given
  then ascends.\<close>

theorem resolve_bare_volume:
  "okm_resolve bare_volume AT_FDCWD (Some (BSEP # ''..'')) False =
     Inr \<lparr>at_base = 10, at_len = 2, at_rel = ''..''\<rparr>"
  by code_simp

lemma resolve_abs_error: "resolve_abs s absn l = Inl e \<Longrightarrow> e = - ENOENT"
  by (auto simp: resolve_abs_def Let_def split: option.splits)

lemma okm_resolve_error:
  "okm_resolve s dirfd path empty_ok = Inl e \<Longrightarrow> e \<in> {- EFAULT, - ENOENT, - ENOTDIR, - EACCES, - ENAMETOOLONG}"
  by (auto simp: okm_resolve_def resolve_joined_def Let_def dest: resolve_abs_error join_error normalise_error
      split: option.splits if_splits sum.splits)

subsection \<open>The working directory\<close>

lemma root_length_join: "root_length (join_root b p @ q) = root_length (join_from b p)" if "root_length (join_from b p) = 1"
  using that by (cases rule: join_root_cases [of b p]) auto

lemma named_then:
  assumes "root_length (join_from b p) = 1" "root_length q = 0" "root_length (p @ SEP # q) = root_length p"
  shows "named (named b p) q = named b (p @ SEP # q)"
proof -
  let ?R = "reduce (join_comps b p)"
  have c: "list_all component ?R" by (rule proper_component [OF join_proper])
  have r: "join_root b p = [SEP]" using assms(1) by (cases rule: join_root_cases [of b p]) auto
  then have n: "named b p = SEP # path_of ?R" by (simp add: named_def)
  have f: "join_from (named b p) q = named b p" using assms(2) by (simp add: join_from_def)
  have "join_comps (SEP # path_of xs) q = comps (path_of xs) @ comps q" for xs
    using assms(2) by (simp add: join_comps_def spell_def)
  then have l: "join_root (named b p) q = [SEP]" "join_comps (named b p) q = ?R @ comps q"
    by (simp_all only: join_root_def f) (simp_all add: n slashes_def comps_path_of [OF c])
  have f2: "root_length (join_from b (p @ SEP # q)) = 1" using assms(1,3) by (auto simp: join_from_def)
  then have r2: "join_root b (p @ SEP # q) = [SEP]" by (cases rule: join_root_cases [of b "p @ SEP # q"]) auto
  have jc: "join_comps b (p @ SEP # q) = join_comps b p @ comps q"
  proof (cases "root_length p = 0")
    case True
    then show ?thesis
      using assms by (simp add: join_comps_def join_from_def spell_def comps_append_boundary)
  next
    case False
    then have "root_length p = 1" using assms(1) by (simp add: join_from_def)
    then obtain u where "p = SEP # u" by (cases rule: root_length_cases [of p]) auto
    then show ?thesis by (simp add: join_comps_def spell_def comps_append_boundary)
  qed
  have "reduce (?R @ comps q) = reduce (join_comps b p @ comps q)"
    by (simp add: reduce_append reduce_id [OF join_proper])
  then show ?thesis by (simp add: named_def [of "named b p"] named_def [of b "p @ SEP # q"] l r2 jc)
qed

text \<open>After \<open>chdir(p)\<close> the name \<open>q\<close> means what \<open>p/q\<close> meant before it: the working directory's
  handle is the one openkal opened for \<open>p\<close>, and every relative name resolves to the same supplied
  directory and remainder (POSIX spelling, names that fit).\<close>

theorem chdir_then_resolve:
  assumes "okm_chdir K AT_FDCWD (Some p) s = (0, t)"
    and "root_length (g_cwd s) = 1" and "root_length p \<le> 1" and "root_length q = 0" and "q \<noteq> []"
    and "root_length (p @ SEP # q) = root_length p"
    and "length (g_cwd s) + length p + length q + 4 \<le> OKM_MAX_PATH" and "length (g_cwd t) + length q + 3 \<le> OKM_MAX_PATH"
    and "\<And>d r e E. fs_open_dir K d r e \<noteq> (Inl kal_ok, E)"
  shows "okm_resolve t AT_FDCWD (Some q) empty_ok = okm_resolve s AT_FDCWD (Some (p @ SEP # q)) empty_ok
    \<and> (\<exists>at. okm_resolve s AT_FDCWD (Some p) False = Inr at
          \<and> fs_open_dir K (at_base at) (at_rel at) (env s) = (Inr (okm_cwd_dir t), env t))"
proof -
  define b where "b = (if root_length p \<noteq> 0 then [] else g_cwd s)"
  have rj: "root_length (join_from b p) = 1" using assms(2,3) by (simp add: b_def join_from_def)
  have j: "join b p OKM_MAX_PATH = Inr (named b p)"
    using join_total [of b p OKM_MAX_PATH] assms(7) by (simp add: b_def named_def)
  obtain at target E where at: "okm_resolve s AT_FDCWD (Some p) False = Inr at"
    "fs_open_dir K (at_base at) (at_rel at) (env s) = (Inr target, E)"
    and t: "t = set_cwd target (named b p) (s\<lparr>env := E\<rparr>)"
    using assms(1,9) okm_resolve_error [of s AT_FDCWD "Some p" False 0] j
    unfolding okm_chdir_def option.case b_def [symmetric]
    by (force split: sum.splits prod.splits)
  have len: "length (named b p) < OKM_MAX_PATH" using join_spec(2) [OF j] .
  have ne: "named b p \<noteq> []" using rj by (cases rule: join_root_cases [of b p]) (auto simp: named_def)
  have cwd: "g_cwd t = named b p" "okm_cwd_dir t = target" "env t = E" "g_pre t = g_pre s"
    using len ne by (simp_all add: t set_cwd_def copy_str_whole Let_def)
  have bt: "base_name t AT_FDCWD q = Some (named b p)" using assms(4) by (simp add: base_name_def cwd)
  have bs: "base_name s AT_FDCWD (p @ SEP # q) = Some b" using assms(6) by (simp add: base_name_def b_def)
  have "okm_resolve t AT_FDCWD (Some q) empty_ok = resolve_abs t (named (named b p) q) 0"
    using assms(5,8) by (intro okm_resolve_short [OF bt]) (simp_all add: cwd)
  also have "\<dots> = resolve_abs s (named b (p @ SEP # q)) 0"
    unfolding named_then [OF rj assms(4,6)] by (simp add: resolve_abs_def cwd)
  also have "\<dots> = okm_resolve s AT_FDCWD (Some (p @ SEP # q)) empty_ok"
    using assms(7) by (intro okm_resolve_short [OF bs, symmetric]) (auto simp: b_def)
  finally show ?thesis using at cwd by auto
qed


text \<open>An implementation whose every directory can be opened.\<close>

definition open_kal :: "unit kal" where
  "open_kal = bare_kal\<lparr>fs_open_dir := (\<lambda>d r e. (Inr 42, e))\<rparr>"

theorem chdir_then_resolve_witness:
  "\<exists>t. okm_chdir open_kal AT_FDCWD (Some ''lib'') two_dirs = (0, t)
     \<and> okm_resolve t AT_FDCWD (Some ''x'') False = okm_resolve two_dirs AT_FDCWD (Some ''lib/x'') False"
proof -
  let ?t = "set_cwd 42 ''/home/me/src/lib'' two_dirs"
  have r: "okm_resolve two_dirs AT_FDCWD (Some ''lib'') False =
      Inr \<lparr>at_base = 11, at_len = 7, at_rel = ''src/lib''\<rparr>" by code_simp
  have j: "join ''/home/me/src'' ''lib'' OKM_MAX_PATH = Inr ''/home/me/src/lib''" by code_simp
  have cwd: "g_cwd two_dirs = ''/home/me/src''" "root_length ''lib'' = 0" by (simp add: two_dirs_def) code_simp
  have E: "two_dirs\<lparr>env := ()\<rparr> = two_dirs" by (cases two_dirs) simp
  have c: "okm_chdir open_kal AT_FDCWD (Some ''lib'') two_dirs = (0, ?t)"
    by (simp add: okm_chdir_def r open_kal_def cwd j E)
  have "root_length ''/home/me/src'' = 1" "root_length ''x'' = 0" "root_length ''lib/x'' = 0" by code_simp+
  moreover have "length (g_cwd ?t) = 16" by (simp add: set_cwd_def copy_str_whole Let_def)
  moreover have "\<And>d r e E. fs_open_dir open_kal d r e \<noteq> (Inl kal_ok, E)" by (simp add: open_kal_def)
  ultimately have "okm_resolve ?t AT_FDCWD (Some ''x'') False =
      okm_resolve two_dirs AT_FDCWD (Some (''lib'' @ SEP # ''x'')) False"
    using chdir_then_resolve [OF c, of "''x''" False] cwd by simp
  with c show ?thesis by simp
qed

subsection \<open>The beginning\<close>

lemma read_preopens_spec:
  assumes "length pre \<le> 16" "\<forall>p \<in> set pre. length (snd p) < 256 \<and> (\<exists>i. fs_preopen K i e = Inr p)"
  shows "length (read_preopens K e is pre) \<le> 16
    \<and> (\<forall>p \<in> set (read_preopens K e is pre). length (snd p) < 256 \<and> (\<exists>i. fs_preopen K i e = Inr p))
    \<and> (\<exists>post. read_preopens K e is pre = pre @ post)"
  using assms
proof (induction K e "is" pre rule: read_preopens.induct)
  case (2 K e i "is" pre)
  show ?case
  proof (cases "16 \<le> length pre")
    case True
    with "2.prems" show ?thesis by simp
  next
    case False
    show ?thesis
    proof (cases "fs_preopen K i e")
      case (Inl x)
      show ?thesis using "2.IH"(1) [OF False Inl "2.prems"] False Inl by simp
    next
      case (Inr p)
      obtain d n where p: "p = (d, n)" by (cases p)
      show ?thesis
      proof (cases "256 \<le> length n")
        case True
        show ?thesis using "2.IH"(2) [OF False Inr p [symmetric] True "2.prems"] False Inr p True by simp
      next
        case short: False
        have "length (pre @ [(d, n)]) \<le> 16"
          "\<forall>q \<in> set (pre @ [(d, n)]). length (snd q) < 256 \<and> (\<exists>i. fs_preopen K i e = Inr q)"
          using "2.prems" False short Inr p by auto
        from "2.IH"(3) [OF False Inr p [symmetric] short this] show ?thesis using False Inr p short by auto
      qed
    qed
  qed
qed simp

lemma okm_fd_bind_next:
  assumes "fd_in_range fd" "fd_desc (g_fd s (nat fd)) = OKM_FD_FREE"
    and "k < OKM_MAX_DESC" "d_refs (g_desc s k) = 0" "\<forall>i < k. d_refs (g_desc s i) \<noteq> 0"
  shows "okm_fd_bind K me fd kind stream file dir flags s =
    (fd, s\<lparr>g_desc := (g_desc s)(k := bound_desc kind stream file dir flags (g_desc s k)),
           g_fd := (g_fd s)(nat fd := \<lparr>fd_desc = int k, fd_cloexec = (if has flags O_CLOEXEC then 1 else 0)\<rparr>)\<rparr>)"
proof -
  have "scan_up (\<lambda>i. d_refs (g_desc s i) = 0) 0 OKM_MAX_DESC = Some k"
    using assms(3-5) unfolding scan_up_Some by simp
  then have "desc_alloc s = Some (k, s\<lparr>g_desc := (g_desc s)(k := (g_desc s k)\<lparr>d_refs := 1\<rparr>)\<rparr>)"
    by (simp add: desc_alloc_def)
  from okm_fd_bind_eq [OF assms(1) this] show ?thesis by (simp add: assms(2) Let_def)
qed

text \<open>The state in which a program begins, before the directories are read.\<close>

definition three_streams :: "'e kal \<Rightarrow> 'e \<Rightarrow> 'e okm" where
  "three_streams K e = (zero_okm e)\<lparr>
     g_std_stream := (\<lambda>_. 0)(0 := kal_stdin K e, 1 := kal_stdout K e, 2 := kal_stderr K e),
     g_desc := (\<lambda>_. zero_desc)(0 := bound_desc OKM_STREAM (kal_stdin K e) 0 0 O_RDONLY zero_desc,
                               1 := bound_desc OKM_STREAM (kal_stdout K e) 0 0 O_WRONLY zero_desc,
                               2 := bound_desc OKM_STREAM (kal_stderr K e) 0 0 O_WRONLY zero_desc),
     g_fd := (\<lambda>i. if i < OKM_MAX_FD then \<lparr>fd_desc = (if i < 3 then int i else -1), fd_cloexec = 0\<rparr>
                   else \<lparr>fd_desc = 0, fd_cloexec = 0\<rparr>)\<rparr>"

lemma okm_table_init_eq:
  "okm_table_init K me (zero_okm e) =
    (let s4 = (three_streams K e)\<lparr>g_pre := read_preopens K e [0..<fs_preopen_count K e] []\<rparr>
     in case g_pre s4 of
          [] \<Rightarrow> s4
        | (d, name) # _ \<Rightarrow> s4\<lparr>okm_cwd_dir := d, g_cwd := copy_str name (length name) OKM_MAX_PATH\<rparr>)"
proof -
  define s0 where "s0 = (okm_table_init_memory (zero_okm e))\<lparr>g_std_stream := (\<lambda>_. 0)(0 := kal_stdin K e, 1 := kal_stdout K e, 2 := kal_stderr K e)\<rparr>"
  define s1 where "s1 = s0\<lparr>g_desc := (\<lambda>_. zero_desc)(0 := bound_desc OKM_STREAM (kal_stdin K e) 0 0 O_RDONLY zero_desc),
     g_fd := (g_fd s0)(0 := \<lparr>fd_desc = 0, fd_cloexec = 0\<rparr>)\<rparr>"
  define s2 where "s2 = s1\<lparr>g_desc := (g_desc s1)(1 := bound_desc OKM_STREAM (kal_stdout K e) 0 0 O_WRONLY zero_desc),
     g_fd := (g_fd s1)(1 := \<lparr>fd_desc = 1, fd_cloexec = 0\<rparr>)\<rparr>"
  define s3 where "s3 = s2\<lparr>g_desc := (g_desc s2)(2 := bound_desc OKM_STREAM (kal_stderr K e) 0 0 O_WRONLY zero_desc),
     g_fd := (g_fd s2)(2 := \<lparr>fd_desc = 2, fd_cloexec = 0\<rparr>)\<rparr>"
  have b1: "okm_fd_bind K me 0 OKM_STREAM (kal_stdin K e) 0 0 O_RDONLY s0 = (0, s1)"
    by (subst okm_fd_bind_next [where k = 0])
      (simp_all add: s0_def s1_def fd_in_range_def okm_table_init_memory_def zero_okm_def zero_desc_def has_def)
  have b2: "okm_fd_bind K me 1 OKM_STREAM (kal_stdout K e) 0 0 O_WRONLY s1 = (1, s2)"
    by (subst okm_fd_bind_next [where k = 1])
      (simp_all add: s0_def s1_def s2_def fd_in_range_def okm_table_init_memory_def zero_okm_def zero_desc_def
        bound_desc_def has_def)
  have b3: "okm_fd_bind K me 2 OKM_STREAM (kal_stderr K e) 0 0 O_WRONLY s2 = (2, s3)"
    by (subst okm_fd_bind_next [where k = 2])
      (simp_all add: s0_def s1_def s2_def s3_def fd_in_range_def okm_table_init_memory_def zero_okm_def zero_desc_def
        bound_desc_def has_def less_2_cases_iff)
  have s3: "s3 = three_streams K e"
    by (auto simp: s3_def s2_def s1_def s0_def three_streams_def okm_table_init_memory_def zero_okm_def fun_eq_iff)
  have m: "env (okm_table_init_memory (zero_okm e)) = e"
    "g_std_stream (okm_table_init_memory (zero_okm e)) = (\<lambda>_. 0)"
    by (simp_all add: okm_table_init_memory_def zero_okm_def)
  have st: "g_std_stream s0 0 = kal_stdin K e" "g_std_stream s0 1 = kal_stdout K e"
    "g_std_stream s0 2 = kal_stderr K e" "env (three_streams K e) = e"
    by (simp_all add: s0_def three_streams_def zero_okm_def)
  show ?thesis
    by (simp only: okm_table_init_def okm_table_init_streams_def Let_def m s0_def [symmetric] st b1 b2 b3 s3 snd_conv)
qed


lemma table_inv_names [simp]:
  "table_inv (s\<lparr>g_pre := p\<rparr>) = table_inv s" "table_inv (s\<lparr>okm_cwd_dir := d\<rparr>) = table_inv s"
  "table_inv (s\<lparr>g_cwd := c\<rparr>) = table_inv s"
  by (simp_all add: table_inv_def cong: table_inv_x_cong)

lemma table_init_inv: "table_inv (okm_table_init K me (zero_okm e))"
proof -
  define s0 where "s0 = (okm_table_init_memory (zero_okm e))\<lparr>g_std_stream := g_std_stream (three_streams K e)\<rparr>"
  have "table_inv s0"
    using table_inv_init [of e] unfolding s0_def table_inv_def by (subst table_inv_x_cong) auto
  then have i: "table_inv (snd (okm_fd_bind K me 2 OKM_STREAM c 0 0 O_WRONLY
      (snd (okm_fd_bind K me 1 OKM_STREAM b 0 0 O_WRONLY
      (snd (okm_fd_bind K me 0 OKM_STREAM a 0 0 O_RDONLY s0))))))" for a b c
    by (intro okm_fd_bind_inv) simp_all
  have s0: "s0 = (okm_table_init_memory (zero_okm e))\<lparr>g_std_stream :=
      (g_std_stream (okm_table_init_memory (zero_okm e)))(0 := kal_stdin K e, 1 := kal_stdout K e, 2 := kal_stderr K e)\<rparr>"
    "env (okm_table_init_memory (zero_okm e)) = e"
    by (simp_all add: s0_def three_streams_def okm_table_init_memory_def zero_okm_def)
  show ?thesis
    unfolding okm_table_init_def okm_table_init_streams_def Let_def s0(2) s0(1) [symmetric]
    using i by (simp split: list.split)
qed

text \<open>What a program finds when it begins. The table satisfies its invariant; descriptors 0, 1
  and 2 are the environment's three streams, in the order and with the access every program
  assumes, and no other descriptor is open; at most sixteen directories are known, each supplied by
  the environment with a name that was kept whole; and the working directory is the first of them,
  or \<open>/\<close> where there is none.\<close>

theorem table_init_begins:
  "let t = okm_table_init K me (zero_okm e) in
    table_inv t
    \<and> okm_desc_of 0 t = Some 0 \<and> okm_desc_of 1 t = Some 1 \<and> okm_desc_of 2 t = Some 2
    \<and> g_desc t 0 = bound_desc OKM_STREAM (kal_stdin K e) 0 0 O_RDONLY zero_desc
    \<and> g_desc t 1 = bound_desc OKM_STREAM (kal_stdout K e) 0 0 O_WRONLY zero_desc
    \<and> g_desc t 2 = bound_desc OKM_STREAM (kal_stderr K e) 0 0 O_WRONLY zero_desc
    \<and> map (\<lambda>fd. okm_std_stream fd t) [0, 1, 2] = [kal_stdin K e, kal_stdout K e, kal_stderr K e]
    \<and> {fd. okm_desc_of fd t \<noteq> None} = {0, 1, 2}
    \<and> length (g_pre t) \<le> 16
    \<and> set (g_pre t) \<subseteq> {p. length (snd p) < 256 \<and> (\<exists>i. fs_preopen K i e = Inr p)}
    \<and> (g_cwd t, okm_cwd_dir t) = (case g_pre t of [] \<Rightarrow> (''/'', 0) | (d, name) # _ \<Rightarrow> (name, d))"
proof -
  define t where "t = okm_table_init K me (zero_okm e)"
  define pre where "pre = read_preopens K e [0..<fs_preopen_count K e] []"
  have P: "length pre \<le> 16" "\<forall>p \<in> set pre. length (snd p) < 256 \<and> (\<exists>i. fs_preopen K i e = Inr p)"
    using read_preopens_spec [of "[]" K e "[0..<fs_preopen_count K e]"] unfolding pre_def by simp_all
  have t: "g_pre t = pre" "g_desc t = g_desc (three_streams K e)" "g_fd t = g_fd (three_streams K e)"
    "g_std_stream t = g_std_stream (three_streams K e)"
    unfolding t_def okm_table_init_eq Let_def pre_def [symmetric] by (simp_all split: list.split)
  have cwd: "(g_cwd t, okm_cwd_dir t) = (case pre of [] \<Rightarrow> (''/'', 0) | (d, name) # _ \<Rightarrow> (name, d))"
    using P(2) unfolding t_def okm_table_init_eq Let_def pre_def [symmetric]
    by (auto simp: three_streams_def zero_okm_def copy_str_whole split: list.split)
  have inv: "table_inv t" unfolding t_def by (rule table_init_inv)
  have fd: "okm_desc_of fd t = (if fd \<in> {0, 1, 2} then Some (nat fd) else None)" for fd
    by (auto simp: okm_desc_of_def t fd_in_range_def three_streams_def Let_def)
  show ?thesis
    unfolding Let_def t_def [symmetric]
    using inv P cwd fd by (auto simp: t three_streams_def okm_std_stream_def)
qed

end
