(* ===== verification/Okm_Region.thy ===== *)
theory Okm_Region
  imports Okm_Kal
begin

text \<open>
  Anonymous memory over \<open>openkal.region\<close> (port/src/okm_region.c): a record of the ranges reserved,
  ordered by address and searched by bisection, and the three calls above it. Addresses and sizes
  are 64-bit words, as in the code, and every sum wraps as the code's does; the record is a list, and
  its capacity is kept because growing it may be refused.

  The operations that take the record's lock are given the state in which they hold it. What the
  code counts for diagnosis (\<open>okm_stat_add\<close>) has no effect and is left out.
\<close>

section \<open>The record\<close>

record range =
  r_base :: kal_uintptr
  r_size :: kal_uintptr

text \<open>\<open>struct okm_snapshot\<close> and \<open>okm_from_snapshot\<close> (port/src/okm.h)\<close>

record okm_snapshot =
  sn_arena :: kal_uintptr
  sn_size :: kal_uintptr
  sn_phase :: "32 word"

definition okm_from_snapshot :: "okm_snapshot \<Rightarrow> kal_uintptr \<Rightarrow> bool" where
  "okm_from_snapshot sn a \<longleftrightarrow> sn_phase sn = 2 \<and> sn_arena sn \<le> a \<and> a - sn_arena sn < sn_size sn"

record 'e regions =
  g_ranges :: "range list"
  g_cap :: nat
  g_snapshot :: okm_snapshot
  r_env :: 'e

definition range_end :: "range \<Rightarrow> kal_uintptr" where
  "range_end r = r_base r + r_size r"

text \<open>\<open>lower\<close>: the bisection, from \<open>lo\<close> and \<open>hi\<close>.\<close>

function lower_loop :: "range list \<Rightarrow> kal_uintptr \<Rightarrow> nat \<Rightarrow> nat \<Rightarrow> nat" where
  "lower_loop rs a lo hi =
     (if lo < hi then
        let mid = lo + (hi - lo) div 2 in
        if range_end (rs ! mid) \<le> a then lower_loop rs a (mid + 1) hi else lower_loop rs a lo mid
      else lo)"
  by pat_completeness auto
termination
  by (relation "measure (\<lambda>(rs, a, lo, hi). hi - lo)") auto

declare lower_loop.simps [simp del]

definition lower :: "range list \<Rightarrow> kal_uintptr \<Rightarrow> nat" where
  "lower rs a = lower_loop rs a 0 (length rs)"

definition region_find :: "range list \<Rightarrow> kal_uintptr \<Rightarrow> nat option" where
  "region_find rs a = (let i = lower rs a in if i < length rs \<and> r_base (rs ! i) \<le> a then Some i else None)"

text \<open>\<open>record\<close>: room for one more, obtained by doubling, then the insertion at its place.\<close>

definition insert_range :: "range \<Rightarrow> range list \<Rightarrow> range list" where
  "insert_range r rs = (let i = lower rs (r_base r) in take i rs @ r # drop i rs)"

definition region_record :: "'e kal \<Rightarrow> range \<Rightarrow> 'e regions \<Rightarrow> int \<times> 'e regions" where
  "region_record K r s =
     (let cap = (if length (g_ranges s) = g_cap s then (if g_cap s \<noteq> 0 then g_cap s * 2 else 256) else g_cap s)
      in if length (g_ranges s) = g_cap s \<and> \<not> can_alloc K (cap * 16) (r_env s) then (- ENOMEM, s)
         else (0, s\<lparr>g_cap := cap, g_ranges := insert_range r (g_ranges s)\<rparr>))"

section \<open>The granularity\<close>

text \<open>\<open>while (p && p < g) p <<= 1;\<close> from 4096: \<open>p\<close> is 4096 shifted \<open>k\<close> times.\<close>

function grain_loop :: "kal_uintptr \<Rightarrow> nat \<Rightarrow> kal_uintptr" where
  "grain_loop g k =
     (let p = push_bit k 4096 in if p \<noteq> 0 \<and> p < g then grain_loop g (Suc k) else p)"
  by pat_completeness auto
termination
proof (relation "measure (\<lambda>(g, k). 64 - k)")
  fix g p :: kal_uintptr and k
  assume "p = push_bit k 4096" "p \<noteq> 0 \<and> p < g"
  then have "k < 64" using push_bit_word_beyond [of k "4096 :: kal_uintptr"] by (cases "k < 64") auto
  then show "((g, Suc k), g, k) \<in> measure (\<lambda>(g, k). 64 - k)" by simp
qed simp

declare grain_loop.simps [simp del]

definition grain :: "'e kal \<Rightarrow> 'e \<Rightarrow> kal_uintptr" where
  "grain K e =
     (let g = memory_granularity K e in
      if g < 4096 then 4096
      else if g AND (g - 1) \<noteq> 0 then (let p = grain_loop g 0 in if p \<noteq> 0 then p else 4096)
      else g)"

definition round_up :: "kal_uintptr \<Rightarrow> kal_uintptr \<Rightarrow> kal_uintptr" where
  "round_up len g = (len + g - 1) AND NOT (g - 1)"

section \<open>The calls\<close>

text \<open>A call that answers whether the address was one of this library's, and then the result:
  \<open>None\<close> where it was not.\<close>

definition okm_region_map :: "'e kal \<Rightarrow> kal_uintptr \<Rightarrow> 'e regions \<Rightarrow> (int + kal_uintptr) \<times> 'e regions" where
  "okm_region_map K len s =
     (case K_region K of
        None \<Rightarrow> (Inl (- ENOSYS), s)
      | Some R \<Rightarrow>
          let g = grain K (r_env s) in
          if len = 0 then (Inl (- EINVAL), s)
          else if - 1 - (g - 1) < len then (Inl (- ENOMEM), s)
          else
            let size = round_up len g in
            (case region_reserve R size g (r_env s) of
               (None, e) \<Rightarrow> (Inl (- ENOMEM), s\<lparr>r_env := e\<rparr>)
             | (Some p, e) \<Rightarrow>
                 (case region_record K \<lparr>r_base = p, r_size = size\<rparr> (s\<lparr>r_env := e\<rparr>) of
                    (err, s') \<Rightarrow>
                      if err \<noteq> 0 then (Inl err, s'\<lparr>r_env := region_release R p size (r_env s')\<rparr>)
                      else (Inr p, s'))))"

definition part_of :: "range \<Rightarrow> kal_uintptr \<Rightarrow> kal_uintptr \<Rightarrow> kal_uintptr \<Rightarrow> kal_uintptr \<times> kal_uintptr" where
  "part_of r a0 len g =
     (let b0 = a0 + round_up len g;
          a = (if a0 < r_base r then r_base r else a0);
          b = (if range_end r < b0 then range_end r else b0)
      in (a, b))"

definition remove_at :: "nat \<Rightarrow> 'a list \<Rightarrow> 'a list" where
  "remove_at i xs = take i xs @ drop (Suc i) xs"

definition okm_region_unmap ::
  "'e kal \<Rightarrow> kal_uintptr \<Rightarrow> kal_uintptr \<Rightarrow> 'e regions \<Rightarrow> int option \<times> 'e regions" where
  "okm_region_unmap K a len s =
     (case K_region K of
        None \<Rightarrow> (None, s)
      | Some R \<Rightarrow>
          let g = grain K (r_env s) in
          (case region_find (g_ranges s) a of
             None \<Rightarrow> (None, s)
           | Some i \<Rightarrow>
               let r = g_ranges s ! i in
               if a AND (g - 1) \<noteq> 0 then (Some (- EINVAL), s)
               else
                 let (lo, hi) = part_of r a len g in
                 if lo = r_base r \<and> hi = range_end r then
                   let s1 = s\<lparr>g_ranges := remove_at i (g_ranges s)\<rparr> in
                   (if okm_from_snapshot (g_snapshot s) (r_base r) then (Some 0, s1)
                    else (Some 0, s1\<lparr>r_env := region_release R (r_base r) (r_size r) (r_env s1)\<rparr>))
                 else if lo < hi \<and> \<not> okm_from_snapshot (g_snapshot s) lo
                 then (Some 0, s\<lparr>r_env := snd (region_decommit R lo (hi - lo) (r_env s))\<rparr>)
                 else (Some 0, s)))"

datatype advice = MADV_DONTNEED | MADV_FREE | MADV_other

definition okm_region_advise ::
  "'e kal \<Rightarrow> kal_uintptr \<Rightarrow> kal_uintptr \<Rightarrow> advice \<Rightarrow> 'e regions \<Rightarrow> int option \<times> 'e regions" where
  "okm_region_advise K a len advice s =
     (case K_region K of
        None \<Rightarrow> (None, s)
      | Some R \<Rightarrow>
          if advice \<noteq> MADV_DONTNEED \<and> advice \<noteq> MADV_FREE then (None, s)
          else
            let g = grain K (r_env s) in
            (case region_find (g_ranges s) a of
               None \<Rightarrow> (None, s)
             | Some i \<Rightarrow>
                 let r = g_ranges s ! i in
                 if a AND (g - 1) \<noteq> 0 then (Some (- EINVAL), s)
                 else
                   let (lo, hi) = part_of r a len g in
                   if \<not> lo < hi then (Some 0, s)
                   else if okm_from_snapshot (g_snapshot s) lo then
                     (Some 0, if advice \<noteq> MADV_FREE
                              then s\<lparr>r_env := memory_set K lo 0 (hi - lo) (r_env s)\<rparr> else s)
                   else if advice = MADV_FREE then
                     (case region_discard R lo (hi - lo) (r_env s) of
                        (e, E) \<Rightarrow> (Some (- okm_errno e), s\<lparr>r_env := E\<rparr>))
                   else
                     (case region_decommit R lo (hi - lo) (r_env s) of
                        (e, E) \<Rightarrow>
                          if e = kal_ok then
                            (case region_commit R lo (hi - lo) E of
                               (e', E') \<Rightarrow> (Some (- okm_errno e'), s\<lparr>r_env := E'\<rparr>))
                          else (Some (- okm_errno e), s\<lparr>r_env := E\<rparr>))))"

section \<open>The record is ordered, and the search finds\<close>

definition span :: "range \<Rightarrow> kal_uintptr set" where
  "span r = {a. r_base r \<le> a \<and> a < range_end r}"

text \<open>A range has addresses and does not wrap around the end of the address space.\<close>

definition sound :: "range \<Rightarrow> bool" where
  "sound r \<longleftrightarrow> r_base r < range_end r"

definition ranges_inv :: "range list \<Rightarrow> bool" where
  "ranges_inv rs \<longleftrightarrow> sorted_wrt (\<lambda>r q. range_end r \<le> r_base q) rs \<and> (\<forall>r \<in> set rs. sound r)"

definition fits :: "range \<Rightarrow> range list \<Rightarrow> bool" where
  "fits r rs \<longleftrightarrow> sound r \<and> (\<forall>q \<in> set rs. span q \<inter> span r = {})"

lemma ends_ordered:
  assumes "ranges_inv rs" "i \<le> j" "j < length rs"
  shows "range_end (rs ! i) \<le> range_end (rs ! j)"
proof (cases "i = j")
  case False
  with assms have "range_end (rs ! i) \<le> r_base (rs ! j)" by (auto simp: ranges_inv_def sorted_wrt_iff_nth_less)
  also have "\<dots> < range_end (rs ! j)" using assms by (simp add: ranges_inv_def sound_def)
  finally show ?thesis by simp
qed simp

lemma lower_loop_spec:
  assumes "ranges_inv rs" "lo \<le> hi" "hi \<le> length rs"
    and "\<And>j. j < lo \<Longrightarrow> range_end (rs ! j) \<le> a"
    and "\<And>j. hi \<le> j \<Longrightarrow> j < length rs \<Longrightarrow> a < range_end (rs ! j)"
  shows "lower_loop rs a lo hi \<le> length rs
    \<and> (\<forall>j < lower_loop rs a lo hi. range_end (rs ! j) \<le> a)
    \<and> (\<forall>j. lower_loop rs a lo hi \<le> j \<and> j < length rs \<longrightarrow> a < range_end (rs ! j))"
  using assms
proof (induction rs a lo hi rule: lower_loop.induct)
  case (1 rs a lo hi)
  show ?case
  proof (cases "lo < hi")
    case False
    then have "lower_loop rs a lo hi = lo" by (simp add: lower_loop.simps)
    with False "1.prems" show ?thesis by auto
  next
    case True
    let ?mid = "lo + (hi - lo) div 2"
    have m: "lo \<le> ?mid" "?mid < hi" "?mid < length rs" using True "1.prems"(3) by auto
    show ?thesis
    proof (cases "range_end (rs ! ?mid) \<le> a")
      case le: True
      have "range_end (rs ! j) \<le> a" if "j < ?mid + 1" for j
        using ends_ordered [OF "1.prems"(1), of j ?mid] that m(3) le by simp
      with "1.IH"(1) [OF True refl le] "1.prems" m
      show ?thesis by (simp add: lower_loop.simps [of rs a lo hi] True le Let_def)
    next
      case gt: False
      have "a < range_end (rs ! j)" if "?mid \<le> j" "j < length rs" for j
        using ends_ordered [OF "1.prems"(1) that] gt by simp
      with "1.IH"(2) [OF True refl gt] "1.prems" m
      show ?thesis by (simp add: lower_loop.simps [of rs a lo hi] True gt Let_def)
    qed
  qed
qed

lemma lower_spec:
  assumes "ranges_inv rs"
  shows "lower rs a \<le> length rs" "j < lower rs a \<Longrightarrow> range_end (rs ! j) \<le> a"
    "lower rs a \<le> j \<Longrightarrow> j < length rs \<Longrightarrow> a < range_end (rs ! j)"
  using lower_loop_spec [OF assms, of 0 "length rs" a] by (auto simp: lower_def)

lemma region_find_iff:
  assumes "ranges_inv rs"
  shows "region_find rs a = Some i \<longleftrightarrow> i < length rs \<and> a \<in> span (rs ! i)"
proof
  assume "region_find rs a = Some i"
  then show "i < length rs \<and> a \<in> span (rs ! i)"
    using lower_spec(3) [OF assms, of a i] by (auto simp: region_find_def Let_def span_def split: if_splits)
next
  assume i: "i < length rs \<and> a \<in> span (rs ! i)"
  have "lower rs a = i"
  proof (rule antisym)
    show "lower rs a \<le> i"
      using lower_spec(2) [OF assms, of i a] i by (force simp: span_def)
    show "i \<le> lower rs a"
    proof (rule ccontr)
      assume n: "\<not> i \<le> lower rs a"
      then have "range_end (rs ! lower rs a) \<le> r_base (rs ! i)"
        using assms i by (auto simp: ranges_inv_def sorted_wrt_iff_nth_less)
      moreover have "a < range_end (rs ! lower rs a)" using n i by (intro lower_spec(3) [OF assms]) simp_all
      ultimately show False using i by (auto simp: span_def)
    qed
  qed
  then show "region_find rs a = Some i" using i by (simp add: region_find_def span_def)
qed

lemma region_find_None: "ranges_inv rs \<Longrightarrow> region_find rs a = None \<longleftrightarrow> (\<forall>r \<in> set rs. a \<notin> span r)"
  by (metis in_set_conv_nth not_Some_eq region_find_iff)

lemma sorted_wrt_insert:
  assumes "sorted_wrt P rs" "\<forall>q \<in> set (take i rs). P q r" "\<forall>q \<in> set (drop i rs). P r q"
  shows "sorted_wrt P (take i rs @ r # drop i rs)"
proof -
  have "sorted_wrt P (take i rs @ drop i rs)" using assms(1) by simp
  with assms(2,3) show ?thesis unfolding sorted_wrt_append by auto
qed

lemma insert_range_inv:
  assumes "ranges_inv rs" "fits r rs"
  shows "ranges_inv (insert_range r rs)" "set (insert_range r rs) = insert r (set rs)"
proof -
  let ?i = "lower rs (r_base r)"
  show set: "set (insert_range r rs) = insert r (set rs)"
    by (metis (no_types) append_take_drop_id insert_range_def list.simps(15) set_append Un_insert_right)
  have 1: "range_end q \<le> r_base r" if "q \<in> set (take ?i rs)" for q
    using that lower_spec(1,2) [OF assms(1)] by (auto simp: in_set_conv_nth)
  have 2: "range_end r \<le> r_base q" if "q \<in> set (drop ?i rs)" for q
  proof -
    have "r_base r < range_end q"
      using that lower_spec(3) [OF assms(1)] by (auto simp: in_set_conv_nth)
    moreover have "q \<in> set rs" using that by (rule in_set_dropD)
    then have "span q \<inter> span r = {}" "sound q" "sound r" using assms by (auto simp: fits_def ranges_inv_def)
    ultimately have "r_base r \<notin> span q" "r_base q \<notin> span r"
      by (auto simp: span_def sound_def)
    with \<open>r_base r < range_end q\<close> \<open>sound r\<close> show ?thesis by (auto simp: span_def sound_def)
  qed
  show "ranges_inv (insert_range r rs)"
    using assms 1 2 set unfolding ranges_inv_def fits_def
    by (auto simp: insert_range_def Let_def intro!: sorted_wrt_insert)
qed

lemma remove_at_props:
  assumes "ranges_inv rs" "i < length rs"
  shows "ranges_inv (remove_at i rs)" "set (remove_at i rs) = set rs - {rs ! i}"
proof -
  have rs: "rs = take i rs @ rs ! i # drop (Suc i) rs" using assms(2) by (rule id_take_nth_drop)
  have s: "sorted_wrt (\<lambda>r q. range_end r \<le> r_base q) (take i rs @ rs ! i # drop (Suc i) rs)"
    using assms(1) rs by (simp add: ranges_inv_def)
  then show "ranges_inv (remove_at i rs)"
    using assms(1) unfolding ranges_inv_def remove_at_def
    by (auto simp: sorted_wrt_append dest: in_set_takeD in_set_dropD)
  have "rs ! i \<notin> set (take i rs)" "rs ! i \<notin> set (drop (Suc i) rs)"
    using s assms by (auto simp: sorted_wrt_append ranges_inv_def sound_def) (metis leD nth_mem)+
  then show "set (remove_at i rs) = set rs - {rs ! i}"
    by (subst (2) rs) (auto simp: remove_at_def)
qed

definition region_lookup :: "range list \<Rightarrow> kal_uintptr \<Rightarrow> range option" where
  "region_lookup rs a = map_option ((!) rs) (region_find rs a)"

definition region_remove :: "range \<Rightarrow> range list \<Rightarrow> range list" where
  "region_remove r rs = (case region_find rs (r_base r) of None \<Rightarrow> rs | Some i \<Rightarrow> remove_at i rs)"

lemma span_base: "sound r \<Longrightarrow> r_base r \<in> span r"
  by (simp add: span_def sound_def)

lemma region_find_base:
  assumes "ranges_inv rs" "r \<in> set rs"
  obtains i where "region_find rs (r_base r) = Some i" "i < length rs" "rs ! i = r"
proof -
  obtain i where "i < length rs" "rs ! i = r" using assms(2) by (auto simp: in_set_conv_nth)
  moreover from this have "region_find rs (r_base r) = Some i"
    using assms by (auto simp: region_find_iff ranges_inv_def span_base)
  ultimately show ?thesis using that by blast
qed

lemma region_remove_props:
  assumes "ranges_inv rs" "r \<in> set rs"
  shows "set (region_remove r rs) = set rs - {r}" "ranges_inv (region_remove r rs)"
proof -
  obtain i where "region_find rs (r_base r) = Some i" "i < length rs" "rs ! i = r"
    using assms by (rule region_find_base)
  with assms(1) show "set (region_remove r rs) = set rs - {r}" "ranges_inv (region_remove r rs)"
    by (auto simp: region_remove_def remove_at_props)
qed

interpretation rt: range_table ranges_inv set span fits region_lookup insert_range region_remove
proof
  show "region_lookup rs a = Some r \<longleftrightarrow> r \<in> set rs \<and> a \<in> span r" if "ranges_inv rs" for rs a r
    using that region_find_iff [OF that, of a]
    by (auto simp: region_lookup_def in_set_conv_nth)
  show "set (region_remove r rs) = set rs - {r}" "ranges_inv (region_remove r rs)"
    if "ranges_inv rs" "r \<in> set rs" for r rs
    using region_remove_props [OF that] by simp_all
  show "r \<notin> set rs" if "fits r rs" for r rs
    using that span_base by (auto simp: fits_def)
qed (auto simp: insert_range_inv)

text \<open>C10: The bisection finds. In an ordered record \<open>find\<close> answers the range that holds an address,
  and answers that there is none exactly when none does.\<close>

theorem region_find_correct:
  assumes "ranges_inv rs"
  shows "(case region_find rs a of
            Some i \<Rightarrow> i < length rs \<and> a \<in> span (rs ! i)
          | None \<Rightarrow> \<forall>r \<in> set rs. a \<notin> span r)"
  using region_find_iff [OF assms, of a] region_find_None [OF assms, of a]
  by (auto split: option.split)

definition two_ranges :: "range list" where
  "two_ranges = [\<lparr>r_base = 0x10000, r_size = 0x2000\<rparr>, \<lparr>r_base = 0x20000, r_size = 0x1000\<rparr>]"

lemma two_ranges_inv: "ranges_inv two_ranges"
  by (simp add: ranges_inv_def two_ranges_def range_end_def sound_def)

theorem region_find_correct_witness:
  "region_find two_ranges 0x20fff = Some 1 \<and> 0x20fff \<in> span (two_ranges ! 1)"
proof -
  have "region_find two_ranges 0x20fff = Some 1" by code_simp
  with region_find_correct [OF two_ranges_inv, of "0x20fff"] show ?thesis by simp
qed


section \<open>The granularity and rounding\<close>

lemma nat_power_of_two:
  fixes n :: nat
  assumes "n AND (n - 1) = 0" "n \<noteq> 0"
  shows "\<exists>k. n = 2 ^ k"
proof -
  obtain k where k: "2 ^ k \<le> n" "n < 2 ^ (k + 1)" using ex_power_ivl1 [of 2 n] assms(2) by auto
  have "n = 2 ^ k"
  proof (rule ccontr)
    assume "n \<noteq> 2 ^ k"
    with k have l: "2 ^ k \<le> n - 1" "n - 1 < 2 ^ (k + 1)" by auto
    have "m div 2 ^ k = 1" if "2 ^ k \<le> m" "m < 2 ^ (k + 1)" for m :: nat
      using that by (simp add: div_nat_eqI)
    then have "bit n k" "bit (n - 1) k" using k l by (simp_all add: bit_iff_odd)
    then have "bit (n AND (n - 1)) k" by (simp add: bit_and_iff)
    with assms(1) show False by simp
  qed
  then show ?thesis by blast
qed

lemma unat_bound: "unat (w :: kal_uintptr) < 2 ^ 64"
  using unsigned_less [of w] by simp

lemma unat_push_bit: "unat (push_bit k (w :: kal_uintptr)) = take_bit 64 (2 ^ k * unat w)"
  by (subst unsigned_push_bit_eq) (simp add: push_bit_eq_mult mult.commute)

lemma unat_exp: "k < 64 \<Longrightarrow> unat (2 ^ k :: kal_uintptr) = 2 ^ k"
  using unat_push_bit [of k 1] by (simp add: push_bit_eq_mult take_bit_nat_eq_self power_strict_increasing)

lemma unat_minus_1: "unat (- 1 :: kal_uintptr) = 2 ^ 64 - 1"
  by (simp add: unsigned_minus_1_eq_mask mask_eq_exp_minus_1)

lemma word_power_of_two:
  fixes g :: kal_uintptr
  assumes "g AND (g - 1) = 0" "g \<noteq> 0"
  shows "\<exists>k < 64. g = 2 ^ k"
proof -
  have "unat (g - 1) = unat g - 1" using assms(2) by (simp add: unat_minus_one)
  then have "unat g AND (unat g - 1) = 0" using assms(1) by (metis unat_0 unsigned_and_eq)
  moreover have "unat g \<noteq> 0" using assms(2) by (simp add: unat_eq_0)
  ultimately obtain k where k: "unat g = 2 ^ k" using nat_power_of_two by blast
  have "k < 64" using unat_bound [of g] unfolding k by (rule power_less_imp_less_exp [rotated]) simp
  moreover have "g = 2 ^ k" using k unat_exp [OF calculation] by (simp add: word_unat_eq_iff)
  ultimately show ?thesis by blast
qed

lemma grain_loop_value: "\<exists>j. grain_loop g k = push_bit j 4096"
  by (induction g k rule: grain_loop.induct) (subst grain_loop.simps, auto simp: Let_def)

lemma grain_power: "\<exists>k < 64. grain K e = 2 ^ k \<and> 0 < k"
proof -
  have p12: "(4096 :: kal_uintptr) = 2 ^ 12" by simp
  let ?g = "memory_granularity K e"
  consider "grain K e = 4096" | "grain K e = grain_loop ?g 0" "grain_loop ?g 0 \<noteq> 0"
    | "\<not> ?g < 4096" "?g AND (?g - 1) = 0" "grain K e = ?g"
    unfolding grain_def Let_def by (metis (full_types))
  then show ?thesis
  proof cases
    case 1
    then show ?thesis unfolding p12 by (intro exI [of _ 12]) simp
  next
    case 2
    obtain j where j: "grain_loop ?g 0 = push_bit j 4096" using grain_loop_value by blast
    have "push_bit j (4096 :: kal_uintptr) = 2 ^ (j + 12)"
      by (simp add: push_bit_eq_mult p12 power_add del: power_numeral)
    moreover have "j + 12 < 64"
    proof (rule ccontr)
      assume "\<not> j + 12 < 64"
      then have "(2 :: kal_uintptr) ^ (j + 12) = 0" by (intro exp_eq_zero_iff [THEN iffD2]) simp
      with 2(2) j calculation show False by simp
    qed
    ultimately show ?thesis using 2 j by (intro exI [of _ "j + 12"]) simp
  next
    case 3
    then have "?g \<noteq> 0" by auto
    with 3 obtain k where k: "k < 64" "?g = 2 ^ k" using word_power_of_two by blast
    then have "k \<noteq> 0" using 3(1) by (auto intro!: Nat.gr0I)
    with k 3 show ?thesis by auto
  qed
qed


lemma and_not_low:
  fixes x :: kal_uintptr
  shows "unat (x AND NOT (2 ^ k - 1)) = unat x div 2 ^ k * 2 ^ k"
proof -
  have "x AND NOT (2 ^ k - 1) = push_bit k (drop_bit k x)"
    by (rule bit_word_eqI) (auto simp: bit_simps mask_eq_exp_minus_1 [symmetric])
  moreover have "unat x div 2 ^ k * 2 ^ k < 2 ^ 64"
    using unat_bound [of x] by (rule le_less_trans [rotated]) simp
  moreover have "unat (drop_bit k x) = unat x div 2 ^ k"
    by (subst unat_drop_bit_eq) (simp add: drop_bit_eq_div)
  ultimately show ?thesis
    using unat_push_bit [of k "drop_bit k x"] by (simp only: take_bit_nat_eq_self mult.commute)
qed

text \<open>Rounding up to the granularity, where the sum does not wrap.\<close>

lemma round_up_spec:
  assumes "k < 64" "g = 2 ^ k" "len \<le> - 1 - (g - 1)"
  shows "unat len \<le> unat (round_up len g)" "unat (round_up len g) < unat len + 2 ^ k"
    "2 ^ k dvd unat (round_up len g)"
proof -
  have g: "unat g = 2 ^ k" using assms(1,2) by (simp add: unat_exp)
  have g1: "unat (g - 1) = 2 ^ k - 1" using g by (metis unat_minus_one assms(1,2) power_not_zero g unat_0 power_eq_0_iff zero_neq_numeral)
  have "unat (- 1 - (g - 1)) = 2 ^ 64 - 1 - (2 ^ k - 1)"
  proof -
    have "unat (- 1 - (g - 1)) = unat (- 1 :: kal_uintptr) - unat (g - 1)"
      using unat_bound [of "g - 1"] by (intro unat_sub) (simp add: word_le_nat_alt unat_minus_1)
    then show ?thesis by (simp only: unat_minus_1 g1)
  qed
  then have le: "unat len + 2 ^ k \<le> 2 ^ 64" using assms(3) g unat_bound [of g] by (simp add: word_le_nat_alt)
  have pos: "(0 :: nat) < 2 ^ k" by simp
  have "unat (len + (g - 1)) = unat len + (2 ^ k - 1)"
    unfolding unat_plus_if' g1 using le pos by (simp add: less_eq_iff_succ_less)
  then have s: "unat (len + g - 1) = unat len + (2 ^ k - 1)" by (simp add: algebra_simps)
  have r: "unat (round_up len g) = (unat len + (2 ^ k - 1)) div 2 ^ k * 2 ^ k"
    using and_not_low [of "len + g - 1" k] s by (simp add: round_up_def assms(2))
  show "2 ^ k dvd unat (round_up len g)" using r by simp
  have m: "(unat len + (2 ^ k - 1)) div 2 ^ k * 2 ^ k + (unat len + (2 ^ k - 1)) mod 2 ^ k = unat len + (2 ^ k - 1)"
    by (rule div_mult_mod_eq)
  have "(unat len + (2 ^ k - 1)) mod 2 ^ k < 2 ^ k" by simp
  with m show "unat len \<le> unat (round_up len g)" unfolding r by linarith
  have "(0 :: nat) < 2 ^ k" by simp
  with m show "unat (round_up len g) < unat len + 2 ^ k" unfolding r by linarith
qed


section \<open>Mapping and unmapping\<close>

lemma region_record_cases:
  assumes "region_record K r s = (err, s')"
  shows "err = 0 \<and> g_ranges s' = insert_range r (g_ranges s) \<or> err = - ENOMEM \<and> s' = s"
    "r_env s' = r_env s" "g_snapshot s' = g_snapshot s"
  using assms by (auto simp: region_record_def Let_def split: if_splits)

lemma okm_region_map_Inr:
  assumes "okm_region_map K len s = (Inr p, s')"
  obtains R where "K_region K = Some R" "len \<noteq> 0" "len \<le> - 1 - (grain K (r_env s) - 1)"
    "region_reserve R (round_up len (grain K (r_env s))) (grain K (r_env s)) (r_env s) = (Some p, r_env s')"
    "g_ranges s' = insert_range \<lparr>r_base = p, r_size = round_up len (grain K (r_env s))\<rparr> (g_ranges s)"
    "g_snapshot s' = g_snapshot s"
proof -
  obtain R where R: "K_region K = Some R" using assms by (cases "K_region K") (auto simp: okm_region_map_def)
  let ?g = "grain K (r_env s)"
  obtain q e where rs: "region_reserve R (round_up len ?g) ?g (r_env s) = (q, e)" by (cases "region_reserve R (round_up len ?g) ?g (r_env s)")
  have len: "len \<noteq> 0" "len \<le> - 1 - (?g - 1)"
    using assms R by (auto simp: okm_region_map_def Let_def split: if_splits)
  then obtain s1 where q: "q = Some p" and s1: "region_record K \<lparr>r_base = p, r_size = round_up len ?g\<rparr> (s\<lparr>r_env := e\<rparr>) = (0, s1)" "s' = s1"
    using assms R rs by (auto simp: okm_region_map_def Let_def split: if_splits option.splits prod.splits)
  from region_record_cases [OF s1(1)] show thesis
    using that [OF R len] rs q s1(2) by simp
qed

text \<open>A mapping that succeeds is recorded whole: it has at least the bytes asked for and less than
  a granule more, it is a multiple of the granule, every address in it is found and is found to be
  in it, and what was found elsewhere before still is. (The range the environment reserves has no
  address of a range it has reserved already.)\<close>

theorem region_map_records:
  assumes "ranges_inv (g_ranges s)" and "okm_region_map K len s = (Inr p, s')"
    and "fits \<lparr>r_base = p, r_size = round_up len (grain K (r_env s))\<rparr> (g_ranges s)"
  shows "ranges_inv (g_ranges s')
    \<and> (\<exists>r. r_base r = p \<and> r \<in> set (g_ranges s') \<and> unat len \<le> unat (r_size r)
          \<and> unat (r_size r) < unat len + unat (grain K (r_env s)) \<and> unat (grain K (r_env s)) dvd unat (r_size r)
          \<and> (\<forall>a. region_lookup (g_ranges s') a = (if a \<in> span r then Some r else region_lookup (g_ranges s) a)))"
proof -
  let ?r = "\<lparr>r_base = p, r_size = round_up len (grain K (r_env s))\<rparr>"
  obtain R where R: "len \<le> - 1 - (grain K (r_env s) - 1)" "g_ranges s' = insert_range ?r (g_ranges s)"
    using assms(2) by (rule okm_region_map_Inr)
  obtain k where k: "k < 64" "grain K (r_env s) = 2 ^ k" using grain_power [of K "r_env s"] by (elim exE conjE)
  note ru = round_up_spec [OF k(1,2) R(1)]
  have g: "unat (grain K (r_env s)) = 2 ^ k" using k by (simp add: unat_exp)
  have "r_base ?r = p" "r_size ?r = round_up len (grain K (r_env s))" by simp_all
  moreover have "?r \<in> set (g_ranges s')" using rt.add_ranges [OF assms(1,3)] R(2) by simp
  ultimately show ?thesis
    using rt.add_inv [OF assms(1,3)] rt.lookup_add [OF assms(1,3)] ru
    unfolding R(2) [symmetric] g by (intro conjI exI [of _ ?r]) (simp_all only:, simp_all)
qed

text \<open>Unmapping what was mapped, by the address and length it was mapped with, releases exactly
  the reservation and leaves the record as it was before the mapping.\<close>

theorem region_map_unmap:
  assumes "ranges_inv (g_ranges s)" and "okm_region_map K len s = (Inr p, s1)"
    and "fits \<lparr>r_base = p, r_size = round_up len (grain K (r_env s))\<rparr> (g_ranges s)"
    and "K_region K = Some R" and "grain K (r_env s1) = grain K (r_env s)"
    and "p AND (grain K (r_env s) - 1) = 0" and "\<not> okm_from_snapshot (g_snapshot s) p"
  shows "\<exists>s2. okm_region_unmap K p len s1 = (Some 0, s2)
    \<and> set (g_ranges s2) = set (g_ranges s) \<and> ranges_inv (g_ranges s2)
    \<and> r_env s2 = region_release R p (round_up len (grain K (r_env s))) (r_env s1)"
proof -
  let ?g = "grain K (r_env s)" and ?r = "\<lparr>r_base = p, r_size = round_up len (grain K (r_env s))\<rparr>"
  have s1: "g_ranges s1 = insert_range ?r (g_ranges s)" "g_snapshot s1 = g_snapshot s"
    using assms(2) by (rule okm_region_map_Inr; simp)+
  have inv: "ranges_inv (g_ranges s1)" and mem: "?r \<in> set (g_ranges s1)"
    using rt.add_inv [OF assms(1,3)] rt.add_ranges [OF assms(1,3)] s1 by auto
  obtain i where i: "region_find (g_ranges s1) p = Some i" "i < length (g_ranges s1)" "g_ranges s1 ! i = ?r"
    using region_find_base [OF inv mem] by auto
  have part: "part_of ?r p len ?g = (p, range_end ?r)" by (simp add: part_of_def range_end_def)
  have "set (remove_at i (g_ranges s1)) = set (g_ranges s)"
    using remove_at_props(2) [OF inv i(2)] i(3) rt.add_ranges [OF assms(1,3)] rt.fits_fresh [OF assms(1,3)] s1
    by auto
  moreover have "ranges_inv (remove_at i (g_ranges s1))" by (rule remove_at_props(1) [OF inv i(2)])
  ultimately show ?thesis
    using assms(4-7) i part s1 by (simp add: okm_region_unmap_def Let_def)
qed

lemma okm_region_unmap_cases:
  assumes "K_region K = Some R" "okm_region_unmap K a len s = (res, s')"
    and "region_find (g_ranges s) a = Some i" "part_of (g_ranges s ! i) a len (grain K (r_env s)) = (lo, hi)"
  shows "(res \<in> {Some 0, Some (- EINVAL)} \<and> s' = s)
    \<or> (res = Some 0 \<and> g_ranges s' = remove_at i (g_ranges s)
        \<and> r_env s' \<in> {r_env s, region_release R (r_base (g_ranges s ! i)) (r_size (g_ranges s ! i)) (r_env s)})
    \<or> (res = Some 0 \<and> lo < hi \<and> g_ranges s' = g_ranges s \<and> r_env s' = snd (region_decommit R lo (hi - lo) (r_env s)))"
  using assms by (simp add: okm_region_unmap_def Let_def split: if_splits) auto

text \<open>Unmapping touches only what it is asked for. Whatever address and length a program names,
  the environment is asked at most to release the whole of the recorded range that holds the
  address, which is then no longer recorded, or to take the backing of a part of that range; an
  address that is in no recorded range is not this library's and nothing happens.\<close>

theorem region_unmap_confined:
  assumes "ranges_inv (g_ranges s)" and "K_region K = Some R"
    and "okm_region_unmap K a len s = (res, s')"
  shows "ranges_inv (g_ranges s') \<and>
    (case region_lookup (g_ranges s) a of
       None \<Rightarrow> res = None \<and> s' = s
     | Some r \<Rightarrow> res \<in> {Some 0, Some (- EINVAL)} \<and>
         (r_env s' = r_env s
          \<or> (r_env s' = region_release R (r_base r) (r_size r) (r_env s) \<and> set (g_ranges s') = set (g_ranges s) - {r})
          \<or> (\<exists>lo hi. r_base r \<le> lo \<and> lo < hi \<and> hi \<le> range_end r
               \<and> r_env s' = snd (region_decommit R lo (hi - lo) (r_env s)) \<and> g_ranges s' = g_ranges s)))"
proof (cases "region_find (g_ranges s) a")
  case None
  then show ?thesis using assms by (auto simp: okm_region_unmap_def region_lookup_def Let_def)
next
  case (Some i)
  then have i: "i < length (g_ranges s)" using region_find_iff [OF assms(1)] by blast
  let ?r = "g_ranges s ! i"
  obtain lo hi where p: "part_of ?r a len (grain K (r_env s)) = (lo, hi)" by fastforce
  have b: "r_base ?r \<le> lo" "hi \<le> range_end ?r"
    using p by (auto simp: part_of_def Let_def split: if_splits)
  have "region_lookup (g_ranges s) a = Some ?r" using Some by (simp add: region_lookup_def)
  then show ?thesis
    using okm_region_unmap_cases [OF assms(2,3) Some p] b assms(1) remove_at_props [OF assms(1) i]
    by (elim disjE) auto
qed


section \<open>An environment that records what it is asked for\<close>

definition region_ops :: "(kal_uintptr \<times> kal_uintptr) list kal_region" where
  "region_ops = \<lparr>
     region_reserve = (\<lambda>size g e. (Some 0x30000, e)), region_commit = (\<lambda>p n e. (kal_ok, e)),
     region_decommit = (\<lambda>p n e. (kal_ok, (p, n) # e)), region_discard = (\<lambda>p n e. (kal_ok, e)),
     region_release = (\<lambda>p n e. (p, n) # e)\<rparr>"

definition region_kal :: "(kal_uintptr \<times> kal_uintptr) list kal" where
  "region_kal = bare_kal\<lparr>K_region := Some region_ops\<rparr>"

lemma region_kal_ops [simp]: "K_region region_kal = Some region_ops"
  by (simp add: region_kal_def)

definition two_mapped :: "(kal_uintptr \<times> kal_uintptr) list regions" where
  "two_mapped = \<lparr>g_ranges = two_ranges, g_cap = 4,
     g_snapshot = \<lparr>sn_arena = 0, sn_size = 0, sn_phase = 0\<rparr>, r_env = []\<rparr>"

lemma region_kal_grain [simp]: "grain region_kal e = 4096"
  by (simp add: grain_def region_kal_def bare_kal_def)

lemma round_up_5000: "round_up 5000 4096 = 0x2000"
  by code_simp

lemma two_mapped_map:
  "okm_region_map region_kal 5000 two_mapped =
     (Inr 0x30000, two_mapped\<lparr>g_ranges := two_ranges @ [\<lparr>r_base = 0x30000, r_size = 0x2000\<rparr>]\<rparr>)"
proof -
  have "insert_range \<lparr>r_base = 0x30000, r_size = 0x2000\<rparr> two_ranges =
      two_ranges @ [\<lparr>r_base = 0x30000, r_size = 0x2000\<rparr>]" by code_simp
  moreover have "length two_ranges = 2" by (simp add: two_ranges_def)
  ultimately show ?thesis
    by (simp add: okm_region_map_def region_record_def round_up_5000 two_mapped_def region_ops_def)
qed

lemma two_mapped_fits: "fits \<lparr>r_base = 0x30000, r_size = 0x2000\<rparr> two_ranges"
  by (auto simp: fits_def two_ranges_def span_def sound_def range_end_def word_le_nat_alt word_less_nat_alt)

theorem region_map_records_witness:
  "\<exists>s' r. okm_region_map region_kal 5000 two_mapped = (Inr 0x30000, s') \<and> r \<in> set (g_ranges s')
     \<and> unat (r_size r) < 5000 + 4096"
proof -
  have "ranges_inv (g_ranges two_mapped)" using two_ranges_inv by (simp add: two_mapped_def)
  moreover have "fits \<lparr>r_base = 0x30000, r_size = round_up 5000 (grain region_kal (r_env two_mapped))\<rparr> (g_ranges two_mapped)"
    using two_mapped_fits by (simp add: round_up_5000 two_mapped_def)
  ultimately show ?thesis
    using region_map_records [OF _ two_mapped_map] two_mapped_map by fastforce
qed

theorem region_map_unmap_witness:
  "\<exists>s2. okm_region_unmap region_kal 0x30000 5000
      (two_mapped\<lparr>g_ranges := two_ranges @ [\<lparr>r_base = 0x30000, r_size = 0x2000\<rparr>]\<rparr>) = (Some 0, s2)
     \<and> set (g_ranges s2) = set two_ranges \<and> r_env s2 = [(0x30000, 0x2000)]"
proof -
  have "ranges_inv (g_ranges two_mapped)" using two_ranges_inv by (simp add: two_mapped_def)
  moreover have "fits \<lparr>r_base = 0x30000, r_size = round_up 5000 (grain region_kal (r_env two_mapped))\<rparr> (g_ranges two_mapped)"
    using two_mapped_fits by (simp add: round_up_5000 two_mapped_def)
  moreover have "\<not> okm_from_snapshot (g_snapshot two_mapped) 0x30000"
    by (simp add: okm_from_snapshot_def two_mapped_def)
  ultimately show ?thesis
    using region_map_unmap [OF _ two_mapped_map _ region_kal_ops]
    by (auto simp: round_up_5000 two_mapped_def region_ops_def)
qed

theorem region_unmap_confined_witness:
  "\<exists>s'. okm_region_unmap region_kal 0x11000 1 two_mapped = (Some 0, s') \<and> ranges_inv (g_ranges s')
     \<and> region_lookup two_ranges 0x11000 = Some \<lparr>r_base = 0x10000, r_size = 0x2000\<rparr>"
proof -
  obtain res s' where u: "okm_region_unmap region_kal 0x11000 1 two_mapped = (res, s')" by fastforce
  have l: "region_lookup two_ranges 0x11000 = Some \<lparr>r_base = 0x10000, r_size = 0x2000\<rparr>" by code_simp
  have "fst (okm_region_unmap region_kal 0x11000 1 two_mapped) = Some 0" by code_simp
  moreover have "ranges_inv (g_ranges two_mapped)" using two_ranges_inv by (simp add: two_mapped_def)
  ultimately show ?thesis using region_unmap_confined [OF _ region_kal_ops u] u l by simp
qed

end
