(* ===== verification/Okm_Map.thy ===== *)
theory Okm_Map
  imports Okm_Fd Okm_Region
begin

text \<open>
  A part of a file in the address space (port/src/okm_map.c): \<open>mmap\<close>, \<open>munmap\<close> and \<open>msync\<close> of a
  file over \<open>openkal.map\<close>, which maps from an offset that is a multiple of 64 KiB and ends within the
  file. The table of what was handed out is a list; the operations are given the descriptor table
  (\<open>okm\<close>), which holds the environment.
\<close>

section \<open>The table\<close>

record region =
  user :: kal_uintptr
  user_len :: kal_uintptr
  base :: kal_uintptr
  base_len :: kal_uintptr

record map_table =
  g_regions :: "region list"
  m_cap :: nat

abbreviation (input) MAP_SHARED :: flagword where "MAP_SHARED \<equiv> 1"
abbreviation (input) MAP_PRIVATE :: flagword where "MAP_PRIVATE \<equiv> 2"
abbreviation (input) MAP_FIXED :: flagword where "MAP_FIXED \<equiv> 0x10"
abbreviation (input) PROT_WRITE :: flagword where "PROT_WRITE \<equiv> 2"
abbreviation (input) PROT_EXEC :: flagword where "PROT_EXEC \<equiv> 4"
abbreviation (input) KAL_MAP_ALIGNMENT :: kal_uintptr where "KAL_MAP_ALIGNMENT \<equiv> 0x10000"

definition map_record :: "'e kal \<Rightarrow> 'e \<Rightarrow> region \<Rightarrow> map_table \<Rightarrow> int \<times> map_table" where
  "map_record K e r m =
     (let cap = (if length (g_regions m) = m_cap m then (if m_cap m \<noteq> 0 then m_cap m * 2 else 64) else m_cap m)
      in if length (g_regions m) = m_cap m \<and> \<not> can_alloc K (cap * 32) e then (- ENOMEM, m)
         else (0, \<lparr>g_regions = g_regions m @ [r], m_cap = cap\<rparr>))"

definition map_find :: "region list \<Rightarrow> kal_uintptr \<Rightarrow> nat option" where
  "map_find rs a =
     scan_up (\<lambda>i. user (rs ! i) \<le> a \<and> a < user (rs ! i) + user_len (rs ! i)) 0 (length rs)"

section \<open>The calls\<close>

definition okm_map_file ::
  "'e kal \<Rightarrow> kal_uintptr \<Rightarrow> flagword \<Rightarrow> flagword \<Rightarrow> int \<Rightarrow> kal_uintptr \<Rightarrow> map_table \<Rightarrow> 'e okm
     \<Rightarrow> (int + kal_uintptr) \<times> map_table \<times> 'e okm" where
  "okm_map_file K len prot flags fd off m s =
     (case K_map K of
        None \<Rightarrow> (Inl (- ENOSYS), m, s)
      | Some M \<Rightarrow>
          if has flags MAP_FIXED then (Inl (- ENOTSUP), m, s)
          else if has prot PROT_EXEC then (Inl (- EACCES), m, s)
          else if len = 0 \<or> sint off < 0 then (Inl (- EINVAL), m, s)
          else
            let shared = has flags MAP_SHARED in
            if \<not> shared \<and> \<not> has flags MAP_PRIVATE then (Inl (- EINVAL), m, s)
            else case okm_desc_of fd s of
              None \<Rightarrow> (Inl (- EBADF), m, s)
            | Some d \<Rightarrow>
                if d_kind (g_desc s d) \<noteq> OKM_FILE then (Inl (- ENODEV), m, s)
                else case fs_file_size K (d_file (g_desc s d)) (env s) of
                  Inl e \<Rightarrow> (Inl (- okm_errno e), m, s)
                | Inr fsize \<Rightarrow>
                    let start = off AND NOT (KAL_MAP_ALIGNMENT - 1); lead = off - start in
                    if fsize \<le> off then (Inl (- ENXIO), m, s)
                    else
                      let want = (if fsize < start + (lead + len) then fsize - start else lead + len) in
                      (case map_file M (d_file (g_desc s d)) start want (has prot PROT_WRITE) shared (env s) of
                         (Inl e, E) \<Rightarrow>
                           (Inl (if e = kal_err_not_supported then - ENODEV else - okm_errno e), m, s\<lparr>env := E\<rparr>)
                       | (Inr b, E) \<Rightarrow>
                           let r = \<lparr>user = b + lead, user_len = len, base = b, base_len = want\<rparr> in
                           (case map_record K E r m of
                              (err, m') \<Rightarrow>
                                if err \<noteq> 0 then (Inl err, m', s\<lparr>env := map_release M b want E\<rparr>)
                                else (Inr (user r), m', s\<lparr>env := E\<rparr>))))"

definition swap_remove :: "nat \<Rightarrow> 'a list \<Rightarrow> 'a list" where
  "swap_remove i xs = butlast (xs[i := last xs])"

definition okm_map_unmap ::
  "'e kal \<Rightarrow> kal_uintptr \<Rightarrow> kal_uintptr \<Rightarrow> map_table \<Rightarrow> 'e okm \<Rightarrow> int option \<times> map_table \<times> 'e okm" where
  "okm_map_unmap K a len m s =
     (case map_find (g_regions m) a of
        None \<Rightarrow> (None, m, s)
      | Some i \<Rightarrow>
          let r = g_regions m ! i in
          if a \<noteq> user r then (Some (- EINVAL), m, s)
          else (Some 0, m\<lparr>g_regions := swap_remove i (g_regions m)\<rparr>,
                case K_map K of None \<Rightarrow> s | Some M \<Rightarrow> s\<lparr>env := map_release M (base r) (base_len r) (env s)\<rparr>))"

definition okm_map_sync ::
  "'e kal \<Rightarrow> kal_uintptr \<Rightarrow> kal_uintptr \<Rightarrow> map_table \<Rightarrow> 'e okm \<Rightarrow> int option \<times> 'e okm" where
  "okm_map_sync K a len m s =
     (case map_find (g_regions m) a of
        None \<Rightarrow> (None, s)
      | Some i \<Rightarrow>
          let r = g_regions m ! i in
          (case K_map K of
             None \<Rightarrow> (None, s)
           | Some M \<Rightarrow>
               (case map_sync M (base r) (base_len r) (env s) of
                  (e, E) \<Rightarrow> (Some (if e = kal_ok then 0 else - okm_errno e), s\<lparr>env := E\<rparr>))))"

section \<open>The table finds what it recorded\<close>

definition user_span :: "region \<Rightarrow> kal_uintptr set" where
  "user_span r = {a. user r \<le> a \<and> a < user r + user_len r}"

text \<open>The addresses handed out do not overlap.\<close>

definition map_inv :: "region list \<Rightarrow> bool" where
  "map_inv rs \<longleftrightarrow> distinct rs \<and> (\<forall>r \<in> set rs. user r \<in> user_span r)
     \<and> (\<forall>r \<in> set rs. \<forall>q \<in> set rs. r \<noteq> q \<longrightarrow> user_span r \<inter> user_span q = {})"

definition map_fits :: "region \<Rightarrow> region list \<Rightarrow> bool" where
  "map_fits r rs \<longleftrightarrow> user r \<in> user_span r \<and> (\<forall>q \<in> set rs. user_span q \<inter> user_span r = {})"

definition map_lookup :: "region list \<Rightarrow> kal_uintptr \<Rightarrow> region option" where
  "map_lookup rs a = map_option ((!) rs) (map_find rs a)"

definition map_add :: "region \<Rightarrow> region list \<Rightarrow> region list" where
  "map_add r rs = rs @ [r]"

definition map_del :: "region \<Rightarrow> region list \<Rightarrow> region list" where
  "map_del r rs = (case map_find rs (user r) of None \<Rightarrow> rs | Some i \<Rightarrow> swap_remove i rs)"

lemma map_find_iff:
  assumes "map_inv rs"
  shows "map_find rs a = Some i \<longleftrightarrow> i < length rs \<and> a \<in> user_span (rs ! i)"
proof -
  have unique: "j = k" if "k < length rs" "j < length rs" "a \<in> user_span (rs ! k)" "a \<in> user_span (rs ! j)" for j k
  proof -
    have "rs ! k \<in> set rs" "rs ! j \<in> set rs" using that by simp_all
    then have "rs ! k = rs ! j" using assms that(3,4) unfolding map_inv_def by blast
    then show ?thesis using assms that(1,2) by (simp add: map_inv_def nth_eq_iff_index_eq)
  qed
  have P: "(user (rs ! k) \<le> a \<and> a < user (rs ! k) + user_len (rs ! k)) = (a \<in> user_span (rs ! k))" for k
    by (simp add: user_span_def)
  show ?thesis
  proof
    assume "map_find rs a = Some i"
    then show "i < length rs \<and> a \<in> user_span (rs ! i)" unfolding map_find_def P scan_up_Some by blast
  next
    assume i: "i < length rs \<and> a \<in> user_span (rs ! i)"
    have "a \<notin> user_span (rs ! j)" if "j < i" for j
      using unique [of i j] i that by auto
    with i show "map_find rs a = Some i" unfolding map_find_def P scan_up_Some by blast
  qed
qed

lemma map_find_user:
  assumes "map_inv rs" "r \<in> set rs"
  obtains i where "map_find rs (user r) = Some i" "i < length rs" "rs ! i = r"
  using assms by (auto simp: in_set_conv_nth map_find_iff map_inv_def)

lemma swap_remove_props:
  assumes "map_inv rs" "i < length rs"
  shows "set (swap_remove i rs) = set rs - {rs ! i}" "map_inv (swap_remove i rs)"
proof -
  have ms: "mset (swap_remove i rs) = mset (remove1 (rs ! i) rs)"
    unfolding swap_remove_def mset_swap_remove [OF assms(2)] by (rule mset_remove1 [symmetric])
  have d: "distinct rs" using assms(1) by (simp add: map_inv_def)
  then have d': "distinct (swap_remove i rs)"
    using mset_eq_imp_distinct_iff [OF ms] by simp
  show set: "set (swap_remove i rs) = set rs - {rs ! i}"
    using mset_eq_setD [OF ms] d by simp
  then show "map_inv (swap_remove i rs)" using assms(1) d' by (auto simp: map_inv_def)
qed

lemma map_del_props:
  assumes "map_inv rs" "r \<in> set rs"
  shows "set (map_del r rs) = set rs - {r}" "map_inv (map_del r rs)"
proof -
  obtain i where "map_find rs (user r) = Some i" "i < length rs" "rs ! i = r" using assms by (rule map_find_user)
  with swap_remove_props [OF assms(1)] show "set (map_del r rs) = set rs - {r}" "map_inv (map_del r rs)"
    by (auto simp: map_del_def)
qed

interpretation mt: range_table map_inv set user_span map_fits map_lookup map_add map_del
proof
  show "map_lookup rs a = Some r \<longleftrightarrow> r \<in> set rs \<and> a \<in> user_span r" if "map_inv rs" for rs a r
    using map_find_iff [OF that, of a] by (auto simp: map_lookup_def in_set_conv_nth)
  show "r \<notin> set rs" if "map_fits r rs" for r rs using that by (auto simp: map_fits_def)
  show "map_inv (map_add r rs)" if "map_inv rs" "map_fits r rs" for r rs
    using that by (auto simp: map_inv_def map_fits_def map_add_def)
qed (auto simp: map_del_props map_add_def)

section \<open>Properties\<close>

text \<open>What a file mapping that succeeds asked for.\<close>

lemma okm_map_file_Inr:
  assumes "okm_map_file K len prot flags fd off m s = (Inr p, m', s')"
  obtains M d fsize b where "K_map K = Some M" "okm_desc_of fd s = Some d" "d_kind (g_desc s d) = OKM_FILE"
    "fs_file_size K (d_file (g_desc s d)) (env s) = Inr fsize" "off < fsize" "len \<noteq> 0"
    "let start = off AND NOT (KAL_MAP_ALIGNMENT - 1); lead = off - start;
         want = (if fsize < start + (lead + len) then fsize - start else lead + len)
     in map_file M (d_file (g_desc s d)) start want (has prot PROT_WRITE) (has flags MAP_SHARED) (env s) = (Inr b, env s')
        \<and> p = b + lead
        \<and> g_regions m' = map_add \<lparr>user = p, user_len = len, base = b, base_len = want\<rparr> (g_regions m)"
    "\<not> has flags MAP_FIXED" "\<not> has prot PROT_EXEC"
proof -
  obtain M where M: "K_map K = Some M" using assms by (cases "K_map K") (auto simp: okm_map_file_def)
  have g: "\<not> has flags MAP_FIXED" "\<not> has prot PROT_EXEC" "len \<noteq> 0" "\<not> sint off < 0"
    "\<not> (\<not> has flags MAP_SHARED \<and> \<not> has flags MAP_PRIVATE)"
    using assms M by (auto simp: okm_map_file_def Let_def split: if_splits)
  obtain d where d: "okm_desc_of fd s = Some d" "d_kind (g_desc s d) = OKM_FILE"
    using assms M g by (auto simp: okm_map_file_def Let_def split: if_splits option.splits)
  obtain fsize where z: "fs_file_size K (d_file (g_desc s d)) (env s) = Inr fsize" "off < fsize"
    using assms M g d by (cases "fs_file_size K (d_file (g_desc s d)) (env s)") (auto simp: okm_map_file_def Let_def split: if_splits)
  define start where "start = off AND NOT (KAL_MAP_ALIGNMENT - 1)"
  define lead where "lead = off - start"
  define want where "want = (if fsize < start + (lead + len) then fsize - start else lead + len)"
  note eq = assms [unfolded okm_map_file_def M option.case Let_def d(1) z(1) sum.case start_def [symmetric] lead_def [symmetric] want_def [symmetric]]
  obtain b E where b: "map_file M (d_file (g_desc s d)) start want (has prot PROT_WRITE) (has flags MAP_SHARED) (env s) = (Inr b, E)"
    using eq g d z by (auto split: if_splits sum.splits prod.splits)
  obtain err m2 where r: "map_record K E \<lparr>user = b + lead, user_len = len, base = b, base_len = want\<rparr> m = (err, m2)" by fastforce
  have res: "err = 0" "p = b + lead" "m' = m2" "s' = s\<lparr>env := E\<rparr>"
    using eq g d z b r by (auto split: if_splits)
  then have "g_regions m' = map_add \<lparr>user = p, user_len = len, base = b, base_len = want\<rparr> (g_regions m)"
    using r by (auto simp: map_record_def map_add_def Let_def split: if_splits)
  with that [OF M d z g(3) _ g(1,2)] b res show thesis
    unfolding Let_def start_def [symmetric] lead_def [symmetric] want_def [symmetric] by simp
qed


lemma unat_plus_small: "unat a + unat b < 2 ^ 64 \<Longrightarrow> unat (a + b) = unat a + unat (b :: kal_uintptr)"
  by (simp add: unat_plus_if')

lemma align_down: "unat (off AND NOT (KAL_MAP_ALIGNMENT - 1)) = unat off div 65536 * 65536"
  using and_not_low [of off 16] by simp

text \<open>A file mapping maps what was asked. Where the offset and length do not run past the end of
  the address space, the region openkal is asked for begins at a multiple of 64 KiB at or below the
  offset, ends within the file, and holds the offset's byte at the address returned; it is as long
  as was asked or ends where the file does; and the address is found again in the table.\<close>

theorem map_file_covers:
  assumes "okm_map_file K len prot flags fd off m s = (Inr p, m', s')"
    and "unat off + unat len < 2 ^ 64" and "map_inv (g_regions m)"
    and "\<And>b n. map_fits \<lparr>user = p, user_len = len, base = b, base_len = n\<rparr> (g_regions m)"
  shows "\<exists>M d fsize start want b. K_map K = Some M \<and> okm_desc_of fd s = Some d
    \<and> fs_file_size K (d_file (g_desc s d)) (env s) = Inr fsize
    \<and> map_file M (d_file (g_desc s d)) start want (has prot PROT_WRITE) (has flags MAP_SHARED) (env s) = (Inr b, env s')
    \<and> 65536 dvd unat start \<and> unat start \<le> unat off \<and> unat off < unat start + 65536
    \<and> unat start + unat want = min (unat off + unat len) (unat fsize)
    \<and> unat off < unat start + unat want \<and> p = b + (off - start)
    \<and> map_inv (g_regions m')
    \<and> map_lookup (g_regions m') p = Some \<lparr>user = p, user_len = len, base = b, base_len = want\<rparr>"
proof -
  obtain M d fsize b where h: "K_map K = Some M" "okm_desc_of fd s = Some d"
    "fs_file_size K (d_file (g_desc s d)) (env s) = Inr fsize" "off < fsize" "len \<noteq> 0"
    and call: "let start = off AND NOT (KAL_MAP_ALIGNMENT - 1); lead = off - start;
         want = (if fsize < start + (lead + len) then fsize - start else lead + len)
     in map_file M (d_file (g_desc s d)) start want (has prot PROT_WRITE) (has flags MAP_SHARED) (env s) = (Inr b, env s')
        \<and> p = b + lead
        \<and> g_regions m' = map_add \<lparr>user = p, user_len = len, base = b, base_len = want\<rparr> (g_regions m)"
    using assms(1) by (rule okm_map_file_Inr)
  define start where "start = off AND NOT (KAL_MAP_ALIGNMENT - 1)"
  define want where "want = (if fsize < start + ((off - start) + len) then fsize - start else (off - start) + len)"
  note call = call [unfolded Let_def start_def [symmetric] want_def [symmetric]]
  let ?r = "\<lparr>user = p, user_len = len, base = b, base_len = want\<rparr>"
  have st: "unat start = unat off div 65536 * 65536" unfolding start_def by (rule align_down)
  then have le: "unat start \<le> unat off" "unat off < unat start + 65536" by simp_all
  have sum: "start + ((off - start) + len) = off + len" by simp
  have ol: "unat (off + len) = unat off + unat len" by (rule unat_plus_small [OF assms(2)])
  have lead: "unat (off - start) = unat off - unat start" using le(1) by (simp add: unat_sub word_le_nat_alt)
  have fs: "unat off < unat fsize" using h(4) by (simp add: word_less_nat_alt)
  have lenpos: "0 < unat len" using h(5) by (simp add: unat_gt_0)
  have w: "unat start + unat want = min (unat off + unat len) (unat fsize)"
  proof (cases "fsize < off + len")
    case True
    then have "unat want = unat fsize - unat start"
      using le fs unfolding want_def sum by (simp add: unat_sub word_le_nat_alt)
    then show ?thesis using True ol le fs by (simp add: word_less_nat_alt)
  next
    case False
    have "unat ((off - start) + len) = unat (off - start) + unat len"
      using assms(2) lead by (intro unat_plus_small) simp
    then show ?thesis using False ol le lead unfolding want_def sum by (simp add: word_less_nat_alt)
  qed
  have fits: "map_fits ?r (g_regions m)" by (rule assms(4))
  have inv: "map_inv (g_regions m')" using mt.add_inv [OF assms(3) fits] call by simp
  moreover have "p \<in> user_span ?r" using fits by (simp add: map_fits_def)
  ultimately have "map_lookup (g_regions m') p = Some ?r"
    using mt.lookup_add [OF assms(3) fits, of p] call by simp
  with h call le w inv fs lenpos st show ?thesis
    by (intro exI [of _ M] exI [of _ d] exI [of _ fsize] exI [of _ start] exI [of _ want] exI [of _ b]) auto
qed

text \<open>Unmapping the address a file mapping returned releases the region openkal made, whole, and
  leaves the table as it was before the mapping.\<close>

theorem map_unmap_roundtrip:
  assumes "okm_map_file K len prot flags fd off m s = (Inr p, m1, s1)" and "K_map K = Some M"
    and "map_inv (g_regions m)" and "\<And>b n. map_fits \<lparr>user = p, user_len = len, base = b, base_len = n\<rparr> (g_regions m)"
  shows "\<exists>m2 r. okm_map_unmap K p n m1 s1 = (Some 0, m2, s1\<lparr>env := map_release M (base r) (base_len r) (env s1)\<rparr>)
    \<and> map_lookup (g_regions m1) p = Some r \<and> set (g_regions m2) = set (g_regions m)
    \<and> (\<forall>a. map_lookup (g_regions m2) a = map_lookup (g_regions m) a)"
proof -
  obtain b w where m1: "g_regions m1 = map_add \<lparr>user = p, user_len = len, base = b, base_len = w\<rparr> (g_regions m)"
    using assms(1) by (rule okm_map_file_Inr) (auto simp: Let_def)
  let ?r = "\<lparr>user = p, user_len = len, base = b, base_len = w\<rparr>"
  note fits = assms(4) [of b w]
  have inv: "map_inv (g_regions m1)" and mem: "?r \<in> set (g_regions m1)"
    using mt.add_inv [OF assms(3) fits] mt.add_ranges [OF assms(3) fits] m1 by auto
  obtain i where i: "map_find (g_regions m1) p = Some i" "i < length (g_regions m1)" "g_regions m1 ! i = ?r"
    using map_find_user [OF inv mem] by auto
  have del: "map_del ?r (g_regions m1) = swap_remove i (g_regions m1)" using i by (simp add: map_del_def)
  have "okm_map_unmap K p n m1 s1 = (Some 0, m1\<lparr>g_regions := swap_remove i (g_regions m1)\<rparr>,
      s1\<lparr>env := map_release M (base ?r) (base_len ?r) (env s1)\<rparr>)"
    using i assms(2) by (simp add: okm_map_unmap_def)
  moreover have "map_lookup (g_regions m1) p = Some ?r" using i by (simp add: map_lookup_def)
  ultimately show ?thesis
    using mt.add_del [OF assms(3) fits] del m1 by (intro exI [of _ "m1\<lparr>g_regions := swap_remove i (g_regions m1)\<rparr>"] exI [of _ ?r]) simp
qed


section \<open>Examples\<close>

text \<open>An environment with one file, which places each region 64 KiB after the one before.\<close>

definition map_ops :: "nat kal_map" where
  "map_ops = \<lparr>map_file = (\<lambda>f start want w sh e. (Inr (0x100000 + of_nat e * 0x10000), Suc e)),
     map_sync = (\<lambda>b n e. (kal_ok, e)), map_release = (\<lambda>b n e. e)\<rparr>"

definition map_kal :: "kal_uintptr \<Rightarrow> nat kal" where
  "map_kal size_of_file = bare_kal\<lparr>K_map := Some map_ops, fs_file_size := (\<lambda>f e. Inr size_of_file)\<rparr>"

definition file_table :: "nat \<Rightarrow> nat okm" where
  "file_table e = (okm_table_init_memory (zero_okm e))\<lparr>
     g_fd := (\<lambda>_. \<lparr>fd_desc = -1, fd_cloexec = 0\<rparr>)(3 := \<lparr>fd_desc = 0, fd_cloexec = 0\<rparr>),
     g_desc := (\<lambda>_. zero_desc)(0 := bound_desc OKM_FILE 0 9 0 0 zero_desc)\<rparr>"

lemma file_table_facts [simp]:
  "okm_desc_of 3 (file_table e) = Some 0" "d_kind (g_desc (file_table e) 0) = OKM_FILE"
  "d_file (g_desc (file_table e) 0) = 9" "env (file_table e) = e" "(file_table e)\<lparr>env := e'\<rparr> = file_table e'"
  by (simp_all add: file_table_def okm_desc_of_def fd_in_range_def bound_desc_def zero_okm_def okm_table_init_memory_def)

definition no_maps :: map_table where
  "no_maps = \<lparr>g_regions = [], m_cap = 0\<rparr>"

lemma map_first:
  "okm_map_file (map_kal 100) 0x20000 1 MAP_PRIVATE 3 0 no_maps (file_table 0) =
     (Inr 0x100000, \<lparr>g_regions = [\<lparr>user = 0x100000, user_len = 0x20000, base = 0x100000, base_len = 100\<rparr>], m_cap = 64\<rparr>,
      file_table 1)"
  by (simp add: okm_map_file_def map_kal_def map_ops_def has_def map_record_def no_maps_def bare_kal_def Let_def)

theorem map_file_covers_witness:
  "\<exists>(start :: kal_uintptr) want b. unat start + unat want = 100 \<and>
     map_lookup [\<lparr>user = 0x100000, user_len = 0x20000, base = 0x100000, base_len = 100\<rparr>] 0x100000
       = Some \<lparr>user = 0x100000, user_len = 0x20000, base = b, base_len = want\<rparr>"
proof -
  have f: "map_fits \<lparr>user = 0x100000, user_len = 0x20000, base = b, base_len = n\<rparr> (g_regions no_maps)" for b n
    by (simp add: map_fits_def user_span_def no_maps_def)
  have i: "map_inv (g_regions no_maps)" by (simp add: map_inv_def no_maps_def)
  have l: "unat (0 :: kal_uintptr) + unat (0x20000 :: kal_uintptr) < 2 ^ 64" by simp
  obtain d fsize and start :: kal_uintptr and want b where "okm_desc_of 3 (file_table 0) = Some d"
    "fs_file_size (map_kal 100) (d_file (g_desc (file_table 0) d)) (env (file_table 0)) = Inr fsize"
    "unat start + unat want = min (unat (0 :: kal_uintptr) + unat (0x20000 :: kal_uintptr)) (unat fsize)"
    "map_lookup [\<lparr>user = 0x100000, user_len = 0x20000, base = 0x100000, base_len = 100\<rparr>] 0x100000
       = Some \<lparr>user = 0x100000, user_len = 0x20000, base = b, base_len = want\<rparr>"
    using map_file_covers [OF map_first l i f, unfolded map_table.select_convs] by (elim exE conjE) (rule that)
  then show ?thesis by (intro exI [of _ start] exI [of _ want] exI [of _ b]) (simp add: map_kal_def)
qed

theorem map_unmap_roundtrip_witness:
  "\<exists>m2 s2. okm_map_unmap (map_kal 100) 0x100000 5
      \<lparr>g_regions = [\<lparr>user = 0x100000, user_len = 0x20000, base = 0x100000, base_len = 100\<rparr>], m_cap = 64\<rparr> (file_table 1)
     = (Some 0, m2, s2) \<and> g_regions m2 = []"
proof -
  have "map_fits \<lparr>user = 0x100000, user_len = 0x20000, base = b, base_len = n\<rparr> (g_regions no_maps)" for b n
    by (simp add: map_fits_def user_span_def no_maps_def)
  moreover have "map_inv (g_regions no_maps)" "K_map (map_kal 100) = Some map_ops"
    by (simp_all add: map_inv_def no_maps_def map_kal_def)
  ultimately show ?thesis using map_unmap_roundtrip [OF map_first, of map_ops 5] by (auto simp: no_maps_def)
qed

text \<open>A mapping that was asked to run past the end of its file takes the addresses after it. The
  table keeps the length asked for and not the length mapped, so where the environment places
  another region there, that one cannot be unmapped by the address it was given: the first is found
  instead, and the answer is \<open>EINVAL\<close>.\<close>

theorem map_shadows_next:
  "\<exists>m1 m2. okm_map_file (map_kal 100) 0x20000 1 MAP_PRIVATE 3 0 no_maps (file_table 0) = (Inr 0x100000, m1, file_table 1)
     \<and> okm_map_file (map_kal 100) 50 1 MAP_PRIVATE 3 0 m1 (file_table 1) = (Inr 0x110000, m2, file_table 2)
     \<and> okm_map_unmap (map_kal 100) 0x110000 50 m2 (file_table 2) = (Some (- EINVAL), m2, file_table 2)"
proof -
  let ?r = "\<lparr>user = 0x100000, user_len = 0x20000, base = 0x100000, base_len = 100\<rparr>"
  let ?q = "\<lparr>user = 0x110000, user_len = 50, base = 0x110000, base_len = 50\<rparr>"
  have "okm_map_file (map_kal 100) 50 1 MAP_PRIVATE 3 0 \<lparr>g_regions = [?r], m_cap = 64\<rparr> (file_table 1) =
      (Inr 0x110000, \<lparr>g_regions = [?r, ?q], m_cap = 64\<rparr>, file_table 2)"
    by (simp add: okm_map_file_def map_kal_def map_ops_def has_def map_record_def bare_kal_def flip: numeral_2_eq_2)
  moreover have "map_find [?r, ?q] 0x110000 = Some 0" by code_simp
  then have "okm_map_unmap (map_kal 100) 0x110000 50 \<lparr>g_regions = [?r, ?q], m_cap = 64\<rparr> (file_table 2) =
      (Some (- EINVAL), \<lparr>g_regions = [?r, ?q], m_cap = 64\<rparr>, file_table 2)"
    by (simp add: okm_map_unmap_def)
  ultimately show ?thesis using map_first by blast
qed

text \<open>A length that wraps is not refused. From an offset that is not a multiple of 64 KiB a length
  near the largest makes the sum of the two wrap, and a mapping of ten bytes is reported to have
  succeeded at an address 4 KiB past its beginning.\<close>

theorem map_length_wraps:
  "\<exists>m. okm_map_file (map_kal 0x20000) (- 4086) 1 MAP_PRIVATE 3 4096 no_maps (file_table 0) = (Inr 0x101000, m, file_table 1)
     \<and> map base_len (g_regions m) = [10] \<and> map base (g_regions m) = [0x100000]"
  by (simp add: okm_map_file_def map_kal_def map_ops_def has_def map_record_def no_maps_def bare_kal_def Let_def)

end
