(* ===== verification/Okm_Mmap.thy ===== *)
theory Okm_Mmap
  imports Okm_Map
begin

text \<open>
  The memory calls of the dispatcher (port/src/okm_syscall.c): \<open>mmap\<close>, \<open>munmap\<close>, \<open>msync\<close> and \<open>madvise\<close>, which choose among the
  mappings of files, the ranges of anonymous memory and, where the implementation has no regions, the
  allocator. The state is the three tables; the environment is that of the descriptor table.
\<close>

section \<open>The code\<close>

abbreviation (input) OKM_PAGE :: kal_uintptr where "OKM_PAGE \<equiv> 4096"
abbreviation (input) MAP_ANON :: flagword where "MAP_ANON \<equiv> 0x20"

record 'e mem_tables =
  m_regions :: "'e regions"
  m_maps :: map_table
  m_tbl :: "'e okm"

abbreviation menv :: "'e mem_tables \<Rightarrow> 'e" where "menv m \<equiv> env (m_tbl m)"

definition set_menv :: "'e \<Rightarrow> 'e mem_tables \<Rightarrow> 'e mem_tables" where
  "set_menv e m = m\<lparr>m_tbl := (m_tbl m)\<lparr>env := e\<rparr>\<rparr>"

text \<open>A call of okm_region.c, on the environment there is.\<close>

definition on_regions :: "('e regions \<Rightarrow> 'a \<times> 'e regions) \<Rightarrow> 'e mem_tables \<Rightarrow> 'a \<times> 'e mem_tables" where
  "on_regions f m =
     (case f ((m_regions m)\<lparr>r_env := menv m\<rparr>) of (x, r) \<Rightarrow> (x, set_menv (r_env r) (m\<lparr>m_regions := r\<rparr>)))"

definition okm_whole_pages :: "kal_uintptr \<Rightarrow> kal_uintptr" where
  "okm_whole_pages len = (len + OKM_PAGE - 1) AND NOT (OKM_PAGE - 1)"

definition okm_kal_free :: "'e kal \<Rightarrow> okm_snapshot \<Rightarrow> kal_uintptr \<Rightarrow> kal_uintptr \<Rightarrow> kal_uintptr \<Rightarrow> 'e \<Rightarrow> 'e" where
  "okm_kal_free K sn p n align e = (if \<not> okm_from_snapshot sn p then kal_free K p n align e else e)"

definition do_mmap ::
  "'e kal \<Rightarrow> kal_uintptr \<Rightarrow> kal_uintptr \<Rightarrow> flagword \<Rightarrow> flagword \<Rightarrow> int \<Rightarrow> kal_uintptr \<Rightarrow> 'e mem_tables \<Rightarrow> (int + kal_uintptr) \<times> 'e mem_tables" where
  "do_mmap K hint len prot flags fd off m =
     (if 0 \<le> fd \<and> \<not> has flags MAP_ANON then
        (case okm_map_file K len prot flags fd off (m_maps m) (m_tbl m) of
           (r, maps, s) \<Rightarrow> (r, m\<lparr>m_maps := maps, m_tbl := s\<rparr>))
      else if hint \<noteq> 0 \<or> 0 \<le> fd \<or> off \<noteq> 0 then (Inl (- ENOSYS), m)
      else if \<not> has flags MAP_ANON \<or> \<not> has flags MAP_PRIVATE then (Inl (- ENOSYS), m)
      else if len = 0 then (Inl (- EINVAL), m)
      else
        (case on_regions (okm_region_map K len) m of
           (r, m1) \<Rightarrow>
             if r \<noteq> Inl (- ENOSYS) then (r, m1)
             else if - 1 - (OKM_PAGE - 1) < len then (Inl (- ENOMEM), m1)
             else
               let size = okm_whole_pages len in
               (case kal_alloc K size OKM_PAGE (menv m1) of
                  (None, e) \<Rightarrow> (Inl (- ENOMEM), set_menv e m1)
                | (Some p, e) \<Rightarrow> (Inr p, set_menv (memory_set K p 0 size e) m1))))"

definition sys_munmap :: "'e kal \<Rightarrow> kal_uintptr \<Rightarrow> kal_uintptr \<Rightarrow> 'e mem_tables \<Rightarrow> int \<times> 'e mem_tables" where
  "sys_munmap K a len m =
     (case okm_map_unmap K a len (m_maps m) (m_tbl m) of
        (Some r, maps, s) \<Rightarrow> (r, m\<lparr>m_maps := maps, m_tbl := s\<rparr>)
      | (None, maps, s) \<Rightarrow>
          (case on_regions (okm_region_unmap K a len) (m\<lparr>m_maps := maps, m_tbl := s\<rparr>) of
             (Some r, m1) \<Rightarrow> (r, m1)
           | (None, m1) \<Rightarrow>
               (0, set_menv (okm_kal_free K (g_snapshot (m_regions m1)) a (okm_whole_pages len) OKM_PAGE (menv m1)) m1)))"

definition sys_msync :: "'e kal \<Rightarrow> kal_uintptr \<Rightarrow> kal_uintptr \<Rightarrow> 'e mem_tables \<Rightarrow> int \<times> 'e mem_tables" where
  "sys_msync K a len m =
     (case okm_map_sync K a len (m_maps m) (m_tbl m) of
        (Some r, s) \<Rightarrow> (r, m\<lparr>m_tbl := s\<rparr>)
      | (None, s) \<Rightarrow> (0, m\<lparr>m_tbl := s\<rparr>))"

definition sys_madvise :: "'e kal \<Rightarrow> kal_uintptr \<Rightarrow> kal_uintptr \<Rightarrow> advice \<Rightarrow> 'e mem_tables \<Rightarrow> int \<times> 'e mem_tables" where
  "sys_madvise K a len advice m =
     (case on_regions (okm_region_advise K a len advice) m of
        (Some r, m1) \<Rightarrow> (r, m1)
      | (None, m1) \<Rightarrow> (0, m1))"

section \<open>A mapping obtained of the allocator\<close>

lemma whole_pages_spec:
  assumes "\<not> - 1 - (OKM_PAGE - 1) < len"
  shows "unat len \<le> unat (okm_whole_pages len)" "unat (okm_whole_pages len) < unat len + 4096" "4096 dvd unat (okm_whole_pages len)"
  using round_up_spec [of 12 OKM_PAGE len] assms by (simp_all add: okm_whole_pages_def round_up_def not_less)

text \<open>An anonymous mapping where the implementation has no regions, made and unmade. The allocator is asked once, for whole pages that hold the length, aligned to a page; every byte
  of those pages, past the length too, is made zero before the address is answered; and \<open>munmap\<close> of the address and the length gives back exactly the block
  that was obtained: the same address, size and alignment. Nothing else of the tables has changed.\<close>

theorem mmap_munmap_alloc:
  assumes "K_region K = None" "fd < 0" "has flags MAP_ANON"
    and "do_mmap K 0 len prot flags fd 0 m = (Inr p, m1)"
    and "map_find (g_regions (m_maps m)) p = None" "\<not> okm_from_snapshot (g_snapshot (m_regions m)) p"
  shows "\<exists>size e. kal_alloc K size OKM_PAGE (menv m) = (Some p, e) \<and> menv m1 = memory_set K p 0 size e
    \<and> unat len \<le> unat size \<and> unat size < unat len + 4096 \<and> 4096 dvd unat size
    \<and> fst (sys_munmap K p len m1) = 0 \<and> menv (snd (sys_munmap K p len m1)) = kal_free K p size OKM_PAGE (menv m1)
    \<and> m_maps (snd (sys_munmap K p len m1)) = m_maps m \<and> g_ranges (m_regions (snd (sys_munmap K p len m1))) = g_ranges (m_regions m)"
proof -
  have reg: "on_regions (okm_region_map K len) m = (Inl (- ENOSYS), m\<lparr>m_regions := (m_regions m)\<lparr>r_env := menv m\<rparr>\<rparr>)"
    using assms(1) by (simp add: on_regions_def okm_region_map_def set_menv_def)
  have len: "\<not> - 1 - (OKM_PAGE - 1) < len"
    and al: "\<exists>e. kal_alloc K (okm_whole_pages len) OKM_PAGE (menv m) = (Some p, e)
        \<and> m1 = set_menv (memory_set K p 0 (okm_whole_pages len) e) (m\<lparr>m_regions := (m_regions m)\<lparr>r_env := menv m\<rparr>\<rparr>)"
    using assms(2-4) unfolding do_mmap_def reg by (auto simp: Let_def split: if_splits prod.splits option.splits)
  then obtain e where e: "kal_alloc K (okm_whole_pages len) OKM_PAGE (menv m) = (Some p, e)"
    and m1: "m1 = set_menv (memory_set K p 0 (okm_whole_pages len) e) (m\<lparr>m_regions := (m_regions m)\<lparr>r_env := menv m\<rparr>\<rparr>)" by blast
  have un: "sys_munmap K p len m1 = (0, set_menv (kal_free K p (okm_whole_pages len) OKM_PAGE (menv m1)) (m1\<lparr>m_regions := (m_regions m1)\<lparr>r_env := menv m1\<rparr>\<rparr>))"
    using assms(1,5,6) by (simp add: sys_munmap_def okm_map_unmap_def on_regions_def okm_region_unmap_def okm_kal_free_def m1 set_menv_def)
  show ?thesis
    by (intro exI [of _ "okm_whole_pages len"] exI [of _ e]) (use whole_pages_spec [OF len] e in \<open>simp add: un, simp add: m1 set_menv_def\<close>)
qed

text \<open>An allocator with one block, in an environment that is what was obtained and given back.\<close>

datatype block_event = Obtained kal_uintptr kal_uintptr | Zeroed kal_uintptr kal_uintptr | Returned kal_uintptr kal_uintptr

definition block_kal :: "block_event list kal" where
  "block_kal = bare_kal\<lparr>kal_alloc := (\<lambda>n al e. (Some 0x50000, e @ [Obtained n al])),
     memory_set := (\<lambda>p b n e. e @ [Zeroed p n]), kal_free := (\<lambda>p n al e. e @ [Returned p n])\<rparr>"

definition block_memory :: "block_event list mem_tables" where
  "block_memory = \<lparr>m_regions = \<lparr>g_ranges = [], g_cap = 0, g_snapshot = \<lparr>sn_arena = 0, sn_size = 0, sn_phase = 0\<rparr>, r_env = []\<rparr>,
     m_maps = no_maps, m_tbl = okm_table_init_memory (zero_okm [])\<rparr>"

theorem mmap_munmap_alloc_witness:
  "\<exists>m1. do_mmap block_kal 0 100 3 (MAP_ANON OR MAP_PRIVATE) (-1) 0 block_memory = (Inr 0x50000, m1)
     \<and> menv (snd (sys_munmap block_kal 0x50000 100 m1)) = [Obtained 4096 4096, Zeroed 0x50000 4096, Returned 0x50000 4096]"
proof -
  have e: "menv block_memory = []" by (simp add: block_memory_def okm_table_init_memory_def zero_okm_def)
  have nr: "K_region block_kal = None" by (simp add: block_kal_def bare_kal_def)
  obtain m1 where m1: "do_mmap block_kal 0 100 3 (MAP_ANON OR MAP_PRIVATE) (-1) 0 block_memory = (Inr 0x50000, m1)"
    by (simp add: do_mmap_def has_def on_regions_def okm_region_map_def nr Let_def) (simp add: block_kal_def)
  have f: "map_find (g_regions (m_maps block_memory)) 0x50000 = None" "\<not> okm_from_snapshot (g_snapshot (m_regions block_memory)) 0x50000"
    by (simp_all add: block_memory_def no_maps_def map_find_def scan_up_None okm_from_snapshot_def)
  from mmap_munmap_alloc [OF nr _ _ m1 f] obtain size ev where
    a: "kal_alloc block_kal size OKM_PAGE (menv block_memory) = (Some 0x50000, ev)" "menv m1 = memory_set block_kal 0x50000 0 size ev"
    and s: "100 \<le> unat size" "unat size < 4196" "4096 dvd unat size"
    and fr: "menv (snd (sys_munmap block_kal 0x50000 100 m1)) = kal_free block_kal 0x50000 size OKM_PAGE (menv m1)"
    by (auto simp: has_def)
  have "unat size = 4096" using s by (auto elim!: dvdE)
  then have "unat size = unat (4096 :: 64 word)" by simp
  then have "size = 4096" by (simp only: word_unat_eq_iff)
  then show ?thesis using m1 a fr by (auto simp: block_kal_def e)
qed

text \<open>An address that is in neither table is given to the allocator, also where the implementation has regions and the allocator is not where mappings come from:
  a second \<open>munmap\<close> of a mapping frees what \<open>kal_alloc\<close> never answered.\<close>

theorem munmap_outside_frees:
  assumes "map_find (g_regions (m_maps m)) a = None" "region_find (g_ranges (m_regions m)) a = None"
    and "\<not> okm_from_snapshot (g_snapshot (m_regions m)) a"
  shows "fst (sys_munmap K a len m) = 0 \<and> menv (snd (sys_munmap K a len m)) = kal_free K a (okm_whole_pages len) OKM_PAGE (menv m)"
  using assms
  by (cases "K_region K") (simp_all add: sys_munmap_def okm_map_unmap_def on_regions_def okm_region_unmap_def okm_kal_free_def set_menv_def)

end
