(* ===== verification/Okm_Mem.thy ===== *)
theory Okm_Mem
  imports Okm_Prelude "HOL-Library.Monad_Syntax"
begin

text \<open>
  The memory port/src/okm_string.c works on, and its vectors. An address that is not mapped is
  \<open>None\<close> and a load or store that touches one faults: the value of a function that faults is \<open>None\<close>,
  so that a theorem that a function returns also says that it read and wrote nothing it may not.
  Addresses are natural numbers; a comparison the code makes on the wrapped difference of two
  addresses is written out. A vector, or an integer loaded to be stored again, is the list of its
  bytes in the order of their addresses; an integer the code computes with is \<open>le_word\<close> of them. The
  masks of a comparison are lists of truth values, one for a byte: what both forms of \<open>mask16\<close>,
  \<open>AT16\<close> and \<open>FULL16\<close> (one bit a byte and four) stand for.
\<close>

section \<open>Loads and stores\<close>

type_synonym mem = "nat \<Rightarrow> byte option"

definition ld :: "nat \<Rightarrow> nat \<Rightarrow> mem \<Rightarrow> byte list option" where
  "ld w p m = those (map m [p..<p + w])"

definition st :: "nat \<Rightarrow> byte list \<Rightarrow> mem \<Rightarrow> mem option" where
  "st p v m =
     (if list_all (\<lambda>a. m a \<noteq> None) [p..<p + length v]
      then Some (\<lambda>a. if p \<le> a \<and> a < p + length v then Some (v ! (a - p)) else m a)
      else None)"

text \<open>Aligned forms: the processor faults on an address that is not a multiple of the vector.\<close>

definition lda :: "nat \<Rightarrow> nat \<Rightarrow> mem \<Rightarrow> byte list option" where
  "lda w p m = (if p mod w = 0 then ld w p m else None)"

definition sta :: "nat \<Rightarrow> byte list \<Rightarrow> mem \<Rightarrow> mem option" where
  "sta p v m = (if p mod length v = 0 then st p v m else None)"

text \<open>Several vectors, in order: \<open>const v16 a = ld16(p), b = ld16(p + 16), \<dots>\<close> and
  \<open>st16(q, a); st16(q + 16, b); \<dots>\<close>, the offsets as a list.\<close>

fun lds :: "nat \<Rightarrow> nat \<Rightarrow> nat list \<Rightarrow> mem \<Rightarrow> byte list list option" where
  "lds w p [] m = Some []"
| "lds w p (k # ks) m = do { v \<leftarrow> ld w (p + k) m; vs \<leftarrow> lds w p ks m; Some (v # vs) }"

fun ldas :: "nat \<Rightarrow> nat \<Rightarrow> nat list \<Rightarrow> mem \<Rightarrow> byte list list option" where
  "ldas w p [] m = Some []"
| "ldas w p (k # ks) m = do { v \<leftarrow> lda w (p + k) m; vs \<leftarrow> ldas w p ks m; Some (v # vs) }"

fun sts :: "nat \<Rightarrow> nat list \<Rightarrow> byte list list \<Rightarrow> mem \<Rightarrow> mem option" where
  "sts q (k # ks) (v # vs) m = do { m' \<leftarrow> st (q + k) v m; sts q ks vs m' }"
| "sts q _ _ m = Some m"

fun stas :: "nat \<Rightarrow> nat list \<Rightarrow> byte list list \<Rightarrow> mem \<Rightarrow> mem option" where
  "stas q (k # ks) (v # vs) m = do { m' \<leftarrow> sta (q + k) v m; stas q ks vs m' }"
| "stas q _ _ m = Some m"

definition splat :: "nat \<Rightarrow> byte \<Rightarrow> byte list" where
  "splat w c = replicate w c"

section \<open>Masks and integers\<close>

definition EQv :: "byte list \<Rightarrow> byte list \<Rightarrow> byte list" where
  "EQv a b = map2 (\<lambda>x y. if x = y then 0xff else 0) a b"

definition ANDv :: "byte list \<Rightarrow> byte list \<Rightarrow> byte list" where
  "ANDv a b = map2 (AND) a b"

definition MINv :: "byte list \<Rightarrow> byte list \<Rightarrow> byte list" where
  "MINv a b = map2 min a b"

definition maskv :: "byte list \<Rightarrow> bool list" where
  "maskv v = map (\<lambda>b. bit b 7) v"

text \<open>\<open>m\<close> as a condition, and the first byte of it (\<open>AT16\<close>, \<open>__builtin_ctz\<close>).\<close>

definition some_bit :: "bool list \<Rightarrow> bool" where
  "some_bit m \<longleftrightarrow> list_ex id m"

definition at_bit :: "bool list \<Rightarrow> nat" where
  "at_bit m = length (takeWhile Not m)"

fun le_word :: "byte list \<Rightarrow> 64 word" where
  "le_word [] = 0"
| "le_word (b # v) = ucast b OR push_bit 8 (le_word v)"

definition ctz :: "64 word \<Rightarrow> nat" where
  "ctz w = at_bit (map (bit w) [0..<64])"

abbreviation (input) OKM_PAGE_MIN :: nat where "OKM_PAGE_MIN \<equiv> 4096"

definition TO_PAGE_END :: "nat \<Rightarrow> nat" where
  "TO_PAGE_END p = OKM_PAGE_MIN - p mod OKM_PAGE_MIN"

section \<open>What a load reads and a store leaves\<close>

definition mapped :: "mem \<Rightarrow> nat \<Rightarrow> nat \<Rightarrow> bool" where
  "mapped m p n \<longleftrightarrow> (\<forall>a. p \<le> a \<and> a < p + n \<longrightarrow> m a \<noteq> None)"

definition bytes :: "mem \<Rightarrow> nat \<Rightarrow> nat \<Rightarrow> byte list" where
  "bytes m p n = map (\<lambda>i. the (m (p + i))) [0..<n]"

lemma length_bytes [simp]: "length (bytes m p n) = n"
  by (simp add: bytes_def)

lemma bytes_nth [simp]: "i < n \<Longrightarrow> bytes m p n ! i = the (m (p + i))"
  by (simp add: bytes_def)

lemma mapped_sub: "mapped m p n \<Longrightarrow> p \<le> q \<Longrightarrow> q + k \<le> p + n \<Longrightarrow> mapped m q k"
  by (simp add: mapped_def)

lemma mappedD: "mapped m p n \<Longrightarrow> p \<le> a \<Longrightarrow> a < p + n \<Longrightarrow> m a = Some (the (m a))"
  by (auto simp: mapped_def)

lemma those_map_Some: "(\<And>x. x \<in> set xs \<Longrightarrow> f x \<noteq> None) \<Longrightarrow> those (map f xs) = Some (map (the \<circ> f) xs)"
  by (induction xs) (auto simp: option.case_eq_if)

lemma ld_mapped:
  assumes "mapped m p w"
  shows "ld w p m = Some (bytes m p w)"
proof -
  have "those (map m [p..<p + w]) = Some (map (the \<circ> m) [p..<p + w])"
    using assms by (intro those_map_Some) (auto simp: mapped_def)
  moreover have "map (the \<circ> m) [p..<p + w] = bytes m p w"
    by (rule nth_equalityI) simp_all
  ultimately show ?thesis by (simp add: ld_def)
qed

lemma lda_mapped: "mapped m p w \<Longrightarrow> p mod w = 0 \<Longrightarrow> lda w p m = Some (bytes m p w)"
  by (simp add: lda_def ld_mapped)

lemma st_mapped:
  "mapped m p (length v) \<Longrightarrow>
     st p v m = Some (\<lambda>a. if p \<le> a \<and> a < p + length v then Some (v ! (a - p)) else m a)"
  by (auto simp: st_def mapped_def list_all_iff)

lemma lds_mapped:
  "(\<And>k. k \<in> set ks \<Longrightarrow> mapped m (p + k) w) \<Longrightarrow> lds w p ks m = Some (map (\<lambda>k. bytes m (p + k) w) ks)"
  by (induction ks) (simp_all add: ld_mapped)

lemma ldas_mapped:
  "(\<And>k. k \<in> set ks \<Longrightarrow> mapped m (p + k) w \<and> (p + k) mod w = 0) \<Longrightarrow>
     ldas w p ks m = Some (map (\<lambda>k. bytes m (p + k) w) ks)"
  by (induction ks) (simp_all add: lda_mapped)

subsection \<open>A copy under way\<close>

text \<open>Memory in the middle of a copy of \<open>s\<close> to \<open>d\<close>: the bytes at the offsets \<open>P\<close> have been moved.\<close>

definition moved :: "nat \<Rightarrow> nat \<Rightarrow> nat set \<Rightarrow> mem \<Rightarrow> mem" where
  "moved d s P m = (\<lambda>a. if d \<le> a \<and> a - d \<in> P then m (s + (a - d)) else m a)"

text \<open>What \<open>memmove\<close> promises: the bytes of the source as they were, in place of the destination's.\<close>

definition copied :: "nat \<Rightarrow> nat \<Rightarrow> nat \<Rightarrow> mem \<Rightarrow> mem" where
  "copied d s n m = (\<lambda>a. if d \<le> a \<and> a < d + n then m (s + (a - d)) else m a)"

lemma moved_none [simp]: "moved d s {} m = m"
  by (simp add: moved_def)

lemma moved_all: "moved d s {..<n} m = copied d s n m"
  by (rule ext) (auto simp: moved_def copied_def)

lemma moved_mapped:
  assumes "mapped m d n" "mapped m s n" "P \<subseteq> {..<n}" "mapped m p k"
  shows "mapped (moved d s P m) p k"
  unfolding mapped_def
proof (intro allI impI)
  fix a assume a: "p \<le> a \<and> a < p + k"
  have "m (s + (a - d)) \<noteq> None" if "d \<le> a" "a - d \<in> P"
  proof -
    have "a - d < n" using that(2) assms(3) by blast
    then show ?thesis using assms(2) unfolding mapped_def by simp
  qed
  moreover have "m a \<noteq> None" using assms(4) a by (simp add: mapped_def)
  ultimately show "moved d s P m a \<noteq> None" by (simp add: moved_def)
qed

text \<open>A load of source bytes nothing has been moved onto reads them as they were.\<close>

lemma bytes_moved:
  assumes "\<And>i. i < w \<Longrightarrow> d \<le> p + i \<Longrightarrow> p + i - d \<notin> P"
  shows "bytes (moved d s P m) p w = bytes m p w"
  using assms by (intro nth_equalityI) (auto simp: moved_def)

lemma st_moved:
  assumes "mapped m d n" "mapped m s n" "P \<subseteq> {..<n}" "k + w \<le> n"
  shows "st (d + k) (bytes m (s + k) w) (moved d s P m) = Some (moved d s (P \<union> {k..<k + w}) m)"
proof -
  have "mapped (moved d s P m) (d + k) w"
    using assms(4) by (intro moved_mapped [OF assms(1-3)] mapped_sub [OF assms(1)]) auto
  moreover have "(if d + k \<le> a \<and> a < d + k + w then Some (bytes m (s + k) w ! (a - (d + k))) else moved d s P m a)
      = moved d s (P \<union> {k..<k + w}) m a" for a
  proof (cases "d + k \<le> a \<and> a < d + k + w")
    case True
    define i where "i = a - d - k"
    have a: "a = d + k + i" "i < w" using True by (auto simp: i_def)
    have "m (s + k + i) = Some (the (m (s + k + i)))"
      using a assms(4) by (intro mappedD [OF assms(2)]) auto
    then show ?thesis using a by (simp add: moved_def add.assoc)
  next
    case False
    then have "d \<le> a \<Longrightarrow> a - d \<notin> {k..<k + w}" by auto
    with False show ?thesis by (auto simp: moved_def)
  qed
  ultimately show ?thesis by (simp add: st_mapped fun_eq_iff)
qed

lemma sts_moved:
  assumes "mapped m d n" "mapped m s n"
    and "P \<subseteq> {..<n}" "\<And>k. k \<in> set ks \<Longrightarrow> c + k + w \<le> n"
  shows "sts (d + c) ks (map (\<lambda>k. bytes m (s + c + k) w) ks) (moved d s P m) =
     Some (moved d s (P \<union> (\<Union>k \<in> set ks. {c + k..<c + k + w})) m)"
  using assms(3,4)
proof (induction ks arbitrary: P)
  case (Cons k ks)
  have "st (d + (c + k)) (bytes m (s + (c + k)) w) (moved d s P m) = Some (moved d s (P \<union> {c + k..<c + k + w}) m)"
    using Cons.prems by (intro st_moved [OF assms(1,2)]) auto
  moreover have "sts (d + c) ks (map (\<lambda>k. bytes m (s + c + k) w) ks) (moved d s (P \<union> {c + k..<c + k + w}) m)
      = Some (moved d s (P \<union> {c + k..<c + k + w} \<union> (\<Union>k \<in> set ks. {c + k..<c + k + w})) m)"
    using Cons.prems(1) Cons.prems(2) [of k] by (intro Cons.IH Cons.prems(2)) auto
  ultimately show ?case by (simp add: add.assoc Un_assoc)
qed simp

lemma stas_sts:
  assumes "\<And>v. v \<in> set vs \<Longrightarrow> length v = w" "\<And>k. k \<in> set ks \<Longrightarrow> (q + k) mod w = 0"
  shows "stas q ks vs m = sts q ks vs m"
  using assms
proof (induction q ks vs m rule: sts.induct)
  case (1 q k ks v vs m)
  then have "sta (q + k) v m = st (q + k) v m" by (simp add: sta_def)
  with 1 show ?case by (cases "st (q + k) v m") simp_all
qed simp_all

subsection \<open>A fill under way\<close>

definition filled :: "nat \<Rightarrow> byte \<Rightarrow> nat set \<Rightarrow> mem \<Rightarrow> mem" where
  "filled d b P m = (\<lambda>a. if d \<le> a \<and> a - d \<in> P then Some b else m a)"

text \<open>What \<open>memset\<close> promises.\<close>

definition set_to :: "nat \<Rightarrow> byte \<Rightarrow> nat \<Rightarrow> mem \<Rightarrow> mem" where
  "set_to d b n m = (\<lambda>a. if d \<le> a \<and> a < d + n then Some b else m a)"

lemma filled_none [simp]: "filled d b {} m = m"
  by (simp add: filled_def)

lemma filled_all: "filled d b {..<n} m = set_to d b n m"
  by (rule ext) (auto simp: filled_def set_to_def)

lemma st_filled:
  assumes "mapped m d n" "k + w \<le> n"
  shows "st (d + k) (replicate w b) (filled d b P m) = Some (filled d b (P \<union> {k..<k + w}) m)"
proof -
  have "mapped (filled d b P m) (d + k) w"
    using assms by (auto simp: mapped_def filled_def)
  moreover have "(if d + k \<le> a \<and> a < d + k + w then Some (replicate w b ! (a - (d + k))) else filled d b P m a)
      = filled d b (P \<union> {k..<k + w}) m a" for a
    by (auto simp: filled_def)
  ultimately show ?thesis by (simp add: st_mapped fun_eq_iff)
qed

lemma sts_filled:
  assumes "mapped m d n" "\<And>k. k \<in> set ks \<Longrightarrow> c + k + w \<le> n"
  shows "sts (d + c) ks (replicate (length ks) (replicate w b)) (filled d b P m) =
     Some (filled d b (P \<union> (\<Union>k \<in> set ks. {c + k..<c + k + w})) m)"
  using assms(2)
proof (induction ks arbitrary: P)
  case (Cons k ks)
  have "st (d + (c + k)) (replicate w b) (filled d b P m) = Some (filled d b (P \<union> {c + k..<c + k + w}) m)"
    using Cons.prems by (intro st_filled [OF assms(1)]) auto
  then show ?case using Cons by (simp add: add.assoc Un_assoc)
qed simp

subsection \<open>Four vectors\<close>

abbreviation four :: "nat \<Rightarrow> nat list" where
  "four w \<equiv> [0, w, 2 * w, 3 * w]"

lemma four_cover: "(\<Union>k \<in> set (four w). {c + k..<c + k + w}) = {c..<c + 4 * w}"
  by auto

lemma four_aligned: "x mod w = 0 \<Longrightarrow> k \<in> set (four w) \<Longrightarrow> (x + k) mod w = 0"
  by auto

end
