(* ===== verification/Okm_Copy.thy ===== *)
theory Okm_Copy
  imports Okm_Mem
begin

text \<open>
  Copying and filling memory (port/src/okm_string.c): \<open>memcpy\<close>, \<open>memmove\<close> and \<open>memset\<close> over vectors
  of 16 bytes, over vectors of 32, and a word at a time. What each does is \<open>copied\<close> or \<open>set_to\<close>, of
  the memory as it was, whatever the overlap, and without touching a byte outside its two ranges.
\<close>

section \<open>Up to sixteen bytes\<close>

definition copy_small :: "nat \<Rightarrow> nat \<Rightarrow> nat \<Rightarrow> mem \<Rightarrow> mem option" where
  "copy_small d s n m =
     (if 8 \<le> n then do { vs \<leftarrow> lds 8 s [0, n - 8] m; sts d [0, n - 8] vs m }
      else if 4 \<le> n then do { vs \<leftarrow> lds 4 s [0, n - 4] m; sts d [0, n - 4] vs m }
      else if 2 \<le> n then do { vs \<leftarrow> lds 2 s [0, n - 2] m; sts d [0, n - 2] vs m }
      else if n \<noteq> 0 then do { v \<leftarrow> ld 1 s m; st d v m }
      else Some m)"

definition set_small :: "nat \<Rightarrow> byte \<Rightarrow> nat \<Rightarrow> mem \<Rightarrow> mem option" where
  "set_small d b n m =
     (if 8 \<le> n then sts d [0, n - 8] [splat 8 b, splat 8 b] m
      else if 4 \<le> n then sts d [0, n - 4] [splat 4 b, splat 4 b] m
      else if n \<noteq> 0 then sts d [0, n div 2, n - 1] [[b], [b], [b]] m
      else Some m)"

section \<open>Sixteen bytes at a time\<close>

function copy16_loop :: "nat \<Rightarrow> nat \<Rightarrow> nat \<Rightarrow> mem \<Rightarrow> mem option" where
  "copy16_loop q p fin m =
     (if q < fin then do {
        vs \<leftarrow> lds 16 p [0, 16, 32, 48] m;
        m' \<leftarrow> stas q [0, 16, 32, 48] vs m;
        copy16_loop (q + 64) (p + 64) fin m' }
      else Some m)"
  by pat_completeness auto
termination
  by (relation "measure (\<lambda>(q, p, fin, m). fin - q)") auto

definition copy16 :: "nat \<Rightarrow> nat \<Rightarrow> nat \<Rightarrow> mem \<Rightarrow> mem option" where
  "copy16 d s n m =
     (if n \<le> 64 then do {
        vs \<leftarrow> lds 16 s [0, 16, n - 32, n - 16] m;
        sts d [0, 16, n - 32, n - 16] vs m }
      else do {
        h \<leftarrow> ld 16 s m;
        t \<leftarrow> lds 16 s [n - 64, n - 48, n - 32, n - 16] m;
        let fin = d + n - 64;
        let skip = 16 - d mod 16;
        m1 \<leftarrow> copy16_loop (d + skip) (s + skip) fin m;
        m2 \<leftarrow> st d h m1;
        sts fin [0, 16, 32, 48] t m2 })"

function copyback16_loop :: "nat \<Rightarrow> nat \<Rightarrow> nat \<Rightarrow> mem \<Rightarrow> mem option" where
  "copyback16_loop d s n m =
     (if 64 < n then do {
        vs \<leftarrow> lds 16 (s + (n - 64)) [0, 16, 32, 48] m;
        m' \<leftarrow> sts (d + (n - 64)) [0, 16, 32, 48] vs m;
        copyback16_loop d s (n - 64) m' }
      else Some m)"
  by pat_completeness auto
termination
  by (relation "measure (\<lambda>(d, s, n, m). n)") auto

definition copyback16 :: "nat \<Rightarrow> nat \<Rightarrow> nat \<Rightarrow> mem \<Rightarrow> mem option" where
  "copyback16 d s n m = do {
     h \<leftarrow> lds 16 s [0, 16, 32, 48] m;
     m1 \<leftarrow> copyback16_loop d s n m;
     sts d [0, 16, 32, 48] h m1 }"

function set16_loop :: "nat \<Rightarrow> byte list \<Rightarrow> nat \<Rightarrow> mem \<Rightarrow> mem option" where
  "set16_loop q v fin m =
     (if q < fin then do {
        m' \<leftarrow> stas q [0, 16, 32, 48] [v, v, v, v] m;
        set16_loop (q + 64) v fin m' }
      else Some m)"
  by pat_completeness auto
termination
  by (relation "measure (\<lambda>(q, v, fin, m). fin - q)") auto

definition set16 :: "nat \<Rightarrow> byte \<Rightarrow> nat \<Rightarrow> mem \<Rightarrow> mem option" where
  "set16 d c n m =
     (let v = splat 16 c in
      if n \<le> 64 then sts d [0, 16, n - 32, n - 16] [v, v, v, v] m
      else do {
        let fin = d + n - 64;
        m1 \<leftarrow> st d v m;
        m2 \<leftarrow> set16_loop ((d + 16) - (d + 16) mod 16) v fin m1;
        sts fin [0, 16, 32, 48] [v, v, v, v] m2 })"

text \<open>\<open>k\<close> vectors, the last of them ending at the last byte.\<close>

definition move_short :: "nat \<Rightarrow> nat \<Rightarrow> nat \<Rightarrow> mem \<Rightarrow> mem option" where
  "move_short d s n m =
     (let k = (n + 15) div 16; offs = map (\<lambda>i. 16 * i) [0..<k - 1] in
      do { vs \<leftarrow> lds 16 s offs m;
           e \<leftarrow> ld 16 (s + n - 16) m;
           m1 \<leftarrow> sts d offs vs m;
           st (d + n - 16) e m1 })"

definition memcpy16 :: "nat \<Rightarrow> nat \<Rightarrow> nat \<Rightarrow> mem \<Rightarrow> mem option" where
  "memcpy16 d s n m =
     (if n \<le> 16 then copy_small d s n m
      else if n \<le> 32 then do { vs \<leftarrow> lds 16 s [0, n - 16] m; sts d [0, n - 16] vs m }
      else copy16 d s n m)"

text \<open>\<open>(uintptr_t)d - (uintptr_t)s\<close>, which wraps when \<open>d\<close> is below \<open>s\<close>.\<close>

definition ptr_diff :: "nat \<Rightarrow> nat \<Rightarrow> nat" where
  "ptr_diff d s = (if s \<le> d then d - s else d + 2 ^ 64 - s)"

definition memmove16 :: "nat \<Rightarrow> nat \<Rightarrow> nat \<Rightarrow> mem \<Rightarrow> mem option" where
  "memmove16 d s n m =
     (if n \<le> ptr_diff d s then memcpy16 d s n m
      else if n \<le> 16 then copy_small d s n m
      else if n \<le> 64 then move_short d s n m
      else copyback16 d s n m)"

definition memset16 :: "nat \<Rightarrow> byte \<Rightarrow> nat \<Rightarrow> mem \<Rightarrow> mem option" where
  "memset16 d b n m =
     (if n < 16 then set_small d b n m
      else if n \<le> 32 then sts d [0, n - 16] [splat 16 b, splat 16 b] m
      else set16 d b n m)"

section \<open>Thirty-two bytes at a time\<close>

function copy32_loop :: "nat \<Rightarrow> nat \<Rightarrow> nat \<Rightarrow> mem \<Rightarrow> mem option" where
  "copy32_loop q p fin m =
     (if q < fin then do {
        vs \<leftarrow> lds 32 p [0, 32, 64, 96] m;
        m' \<leftarrow> stas q [0, 32, 64, 96] vs m;
        copy32_loop (q + 128) (p + 128) fin m' }
      else Some m)"
  by pat_completeness auto
termination
  by (relation "measure (\<lambda>(q, p, fin, m). fin - q)") auto

definition copy32 :: "nat \<Rightarrow> nat \<Rightarrow> nat \<Rightarrow> mem \<Rightarrow> mem option" where
  "copy32 d s n m =
     (if n \<le> 64 then do { vs \<leftarrow> lds 32 s [0, n - 32] m; sts d [0, n - 32] vs m }
      else if n \<le> 128 then do {
        vs \<leftarrow> lds 32 s [0, 32, n - 64, n - 32] m;
        sts d [0, 32, n - 64, n - 32] vs m }
      else do {
        h \<leftarrow> ld 32 s m;
        t \<leftarrow> lds 32 s [n - 128, n - 96, n - 64, n - 32] m;
        let fin = d + n - 128;
        let skip = 32 - d mod 32;
        m1 \<leftarrow> copy32_loop (d + skip) (s + skip) fin m;
        m2 \<leftarrow> st d h m1;
        sts fin [0, 32, 64, 96] t m2 })"

function copyback32_loop :: "nat \<Rightarrow> nat \<Rightarrow> nat \<Rightarrow> mem \<Rightarrow> mem option" where
  "copyback32_loop d s n m =
     (if 128 < n then do {
        vs \<leftarrow> lds 32 (s + (n - 128)) [0, 32, 64, 96] m;
        m' \<leftarrow> sts (d + (n - 128)) [0, 32, 64, 96] vs m;
        copyback32_loop d s (n - 128) m' }
      else Some m)"
  by pat_completeness auto
termination
  by (relation "measure (\<lambda>(d, s, n, m). n)") auto

definition copyback32 :: "nat \<Rightarrow> nat \<Rightarrow> nat \<Rightarrow> mem \<Rightarrow> mem option" where
  "copyback32 d s n m =
     (if n \<le> 128 then do {
        vs \<leftarrow> lds 32 s [0, 32, n - 64, n - 32] m;
        sts d [0, 32, n - 64, n - 32] vs m }
      else do {
        h \<leftarrow> lds 32 s [0, 32, 64, 96] m;
        m1 \<leftarrow> copyback32_loop d s n m;
        sts d [0, 32, 64, 96] h m1 })"

function set32_loop :: "nat \<Rightarrow> byte list \<Rightarrow> nat \<Rightarrow> mem \<Rightarrow> mem option" where
  "set32_loop q v fin m =
     (if q < fin then do {
        m' \<leftarrow> stas q [0, 32, 64, 96] [v, v, v, v] m;
        set32_loop (q + 128) v fin m' }
      else Some m)"
  by pat_completeness auto
termination
  by (relation "measure (\<lambda>(q, v, fin, m). fin - q)") auto

definition set32 :: "nat \<Rightarrow> byte \<Rightarrow> nat \<Rightarrow> mem \<Rightarrow> mem option" where
  "set32 d c n m =
     (let v = splat 32 c in
      if n \<le> 64 then sts d [0, n - 32] [v, v] m
      else if n \<le> 128 then sts d [0, 32, n - 64, n - 32] [v, v, v, v] m
      else do {
        let fin = d + n - 128;
        m1 \<leftarrow> st d v m;
        m2 \<leftarrow> set32_loop ((d + 32) - (d + 32) mod 32) v fin m1;
        sts fin [0, 32, 64, 96] [v, v, v, v] m2 })"

definition memcpy32 :: "nat \<Rightarrow> nat \<Rightarrow> nat \<Rightarrow> mem \<Rightarrow> mem option" where
  "memcpy32 d s n m =
     (if n \<le> 16 then copy_small d s n m
      else if n \<le> 32 then do { vs \<leftarrow> lds 16 s [0, n - 16] m; sts d [0, n - 16] vs m }
      else copy32 d s n m)"

definition memmove32 :: "nat \<Rightarrow> nat \<Rightarrow> nat \<Rightarrow> mem \<Rightarrow> mem option" where
  "memmove32 d s n m =
     (if n \<le> ptr_diff d s then memcpy32 d s n m
      else if n \<le> 16 then copy_small d s n m
      else if n \<le> 64 then move_short d s n m
      else copyback32 d s n m)"

definition memset32 :: "nat \<Rightarrow> byte \<Rightarrow> nat \<Rightarrow> mem \<Rightarrow> mem option" where
  "memset32 d b n m =
     (if n < 16 then set_small d b n m
      else if n \<le> 32 then sts d [0, n - 16] [splat 16 b, splat 16 b] m
      else set32 d b n m)"

section \<open>A word at a time\<close>

function copy_forward_words :: "nat \<Rightarrow> nat \<Rightarrow> nat \<Rightarrow> mem \<Rightarrow> (nat \<times> nat \<times> nat \<times> mem) option" where
  "copy_forward_words d s n m =
     (if 8 \<le> n then do {
        v \<leftarrow> ld 8 s m; m' \<leftarrow> st d v m;
        copy_forward_words (d + 8) (s + 8) (n - 8) m' }
      else Some (d, s, n, m))"
  by pat_completeness auto
termination
  by (relation "measure (\<lambda>(d, s, n, m). n)") auto

fun copy_forward_bytes :: "nat \<Rightarrow> nat \<Rightarrow> nat \<Rightarrow> mem \<Rightarrow> mem option" where
  "copy_forward_bytes d s 0 m = Some m"
| "copy_forward_bytes d s (Suc n) m = do {
     v \<leftarrow> ld 1 s m; m' \<leftarrow> st d v m;
     copy_forward_bytes (d + 1) (s + 1) n m' }"

definition copy_forward :: "nat \<Rightarrow> nat \<Rightarrow> nat \<Rightarrow> mem \<Rightarrow> mem option" where
  "copy_forward d s n m =
     (if n \<le> 16 then copy_small d s n m
      else do { (d', s', n', m') \<leftarrow> copy_forward_words d s n m; copy_forward_bytes d' s' n' m' })"

function copy_backward_words :: "nat \<Rightarrow> nat \<Rightarrow> nat \<Rightarrow> mem \<Rightarrow> (nat \<times> mem) option" where
  "copy_backward_words d s n m =
     (if 8 \<le> n then do {
        v \<leftarrow> ld 8 (s + (n - 8)) m; m' \<leftarrow> st (d + (n - 8)) v m;
        copy_backward_words d s (n - 8) m' }
      else Some (n, m))"
  by pat_completeness auto
termination
  by (relation "measure (\<lambda>(d, s, n, m). n)") auto

fun copy_backward_bytes :: "nat \<Rightarrow> nat \<Rightarrow> nat \<Rightarrow> mem \<Rightarrow> mem option" where
  "copy_backward_bytes d s 0 m = Some m"
| "copy_backward_bytes d s (Suc n) m = do {
     v \<leftarrow> ld 1 (s + n) m; m' \<leftarrow> st (d + n) v m;
     copy_backward_bytes d s n m' }"

definition memmove_word :: "nat \<Rightarrow> nat \<Rightarrow> nat \<Rightarrow> mem \<Rightarrow> mem option" where
  "memmove_word d s n m =
     (if n \<le> ptr_diff d s then copy_forward d s n m
      else if n \<le> 16 then copy_small d s n m
      else do { (n', m') \<leftarrow> copy_backward_words d s n m; copy_backward_bytes d s n' m' })"

function memset_words :: "nat \<Rightarrow> byte \<Rightarrow> nat \<Rightarrow> mem \<Rightarrow> (nat \<times> nat \<times> mem) option" where
  "memset_words d b n m =
     (if 8 \<le> n then do { m' \<leftarrow> st d (splat 8 b) m; memset_words (d + 8) b (n - 8) m' }
      else Some (d, n, m))"
  by pat_completeness auto
termination
  by (relation "measure (\<lambda>(d, b, n, m). n)") auto

fun memset_bytes :: "nat \<Rightarrow> byte \<Rightarrow> nat \<Rightarrow> mem \<Rightarrow> mem option" where
  "memset_bytes d b 0 m = Some m"
| "memset_bytes d b (Suc n) m = do { m' \<leftarrow> st d [b] m; memset_bytes (d + 1) b n m' }"

definition memset_word :: "nat \<Rightarrow> byte \<Rightarrow> nat \<Rightarrow> mem \<Rightarrow> mem option" where
  "memset_word d b n m = do { (d', n', m') \<leftarrow> memset_words d b n m; memset_bytes d' b n' m' }"

section \<open>The choice\<close>

text \<open>The functions a program calls: with \<open>OKM_VECTOR\<close> the sixteen-byte forms, or the thirty-two-byte
  forms where the processor has them (\<open>has_avx2\<close>, asked once); otherwise a word at a time.\<close>

datatype width = Words | Sse2 | Avx2

fun memcpy :: "width \<Rightarrow> nat \<Rightarrow> nat \<Rightarrow> nat \<Rightarrow> mem \<Rightarrow> mem option" where
  "memcpy Words d s n m = copy_forward d s n m"
| "memcpy Sse2 d s n m = memcpy16 d s n m"
| "memcpy Avx2 d s n m = memcpy32 d s n m"

fun memmove :: "width \<Rightarrow> nat \<Rightarrow> nat \<Rightarrow> nat \<Rightarrow> mem \<Rightarrow> mem option" where
  "memmove Words d s n m = memmove_word d s n m"
| "memmove Sse2 d s n m = memmove16 d s n m"
| "memmove Avx2 d s n m = memmove32 d s n m"

fun memset :: "width \<Rightarrow> nat \<Rightarrow> byte \<Rightarrow> nat \<Rightarrow> mem \<Rightarrow> mem option" where
  "memset Words d b n m = memset_word d b n m"
| "memset Sse2 d b n m = memset16 d b n m"
| "memset Avx2 d b n m = memset32 d b n m"

declare copy16_loop.simps [simp del] copyback16_loop.simps [simp del] set16_loop.simps [simp del]
  copy32_loop.simps [simp del] copyback32_loop.simps [simp del] set32_loop.simps [simp del]
  copy_forward_words.simps [simp del] copy_backward_words.simps [simp del] memset_words.simps [simp del]

section \<open>All loads, then all stores\<close>

text \<open>Vectors that cover the range, every one loaded before any is stored.\<close>

lemma load_store:
  assumes "mapped m d n" "mapped m s n" "\<And>k. k \<in> set ks \<Longrightarrow> k + w \<le> n"
    and "(\<Union>k \<in> set ks. {k..<k + w}) = {..<n}"
  shows "do { vs \<leftarrow> lds w s ks m; sts d ks vs m } = Some (copied d s n m)"
proof -
  have "lds w s ks m = Some (map (\<lambda>k. bytes m (s + k) w) ks)"
    using assms(3) by (intro lds_mapped mapped_sub [OF assms(2)]) (auto simp: add.assoc)
  moreover have "sts d ks (map (\<lambda>k. bytes m (s + k) w) ks) m = Some (copied d s n m)"
    using sts_moved [OF assms(1,2), of "{}" ks 0 w] assms(3,4) by (simp add: moved_all)
  ultimately show ?thesis by simp
qed

lemma copy_small_ok:
  assumes "mapped m d n" "mapped m s n" "n \<le> 16"
  shows "copy_small d s n m = Some (copied d s n m)"
proof -
  have cover: "(\<Union>k \<in> set [0, n - w]. {k..<k + w}) = {..<n}" if "w \<le> n" "n \<le> 2 * w" for w using that by auto
  have two: "do { vs \<leftarrow> lds w s [0, n - w] m; sts d [0, n - w] vs m } = Some (copied d s n m)"
    if "w \<le> n" "n \<le> 2 * w" for w
    by (rule load_store [OF assms(1,2) _ cover [OF that]]) (use that in auto)
  have one: "do { vs \<leftarrow> lds 1 s [0] m; sts d [0] vs m } = Some (copied d s n m)" if "n = 1"
    using load_store [OF assms(1,2), of "[0]" 1] that by (auto simp: lessThan_Suc)
  consider "8 \<le> n" | "4 \<le> n" "n < 8" | "2 \<le> n" "n < 4" | "n = 1" | "n = 0" by linarith
  then show ?thesis
  proof cases
    case 4
    then show ?thesis using one by (simp add: copy_small_def bind_eq_Some_conv)
  next
    case 5
    then show ?thesis by (auto simp: copy_small_def copied_def fun_eq_iff)
  qed (use two [of 8] two [of 4] two [of 2] assms(3) in \<open>simp_all add: copy_small_def\<close>)
qed

section \<open>Four vectors an iteration\<close>

function copy_loop :: "nat \<Rightarrow> nat \<Rightarrow> nat \<Rightarrow> nat \<Rightarrow> mem \<Rightarrow> mem option" where
  "copy_loop w q p fin m =
     (if q < fin \<and> 0 < w then do {
        vs \<leftarrow> lds w p (four w) m;
        m' \<leftarrow> stas q (four w) vs m;
        copy_loop w (q + 4 * w) (p + 4 * w) fin m' }
      else Some m)"
  by pat_completeness auto
termination
  by (relation "measure (\<lambda>(w, q, p, fin, m). fin - q)") auto

function copyback_loop :: "nat \<Rightarrow> nat \<Rightarrow> nat \<Rightarrow> nat \<Rightarrow> mem \<Rightarrow> mem option" where
  "copyback_loop w d s n m =
     (if 4 * w < n \<and> 0 < w then do {
        vs \<leftarrow> lds w (s + (n - 4 * w)) (four w) m;
        m' \<leftarrow> sts (d + (n - 4 * w)) (four w) vs m;
        copyback_loop w d s (n - 4 * w) m' }
      else Some m)"
  by pat_completeness auto
termination
  by (relation "measure (\<lambda>(w, d, s, n, m). n)") auto

function set_loop :: "nat \<Rightarrow> nat \<Rightarrow> byte list \<Rightarrow> nat \<Rightarrow> mem \<Rightarrow> mem option" where
  "set_loop w q v fin m =
     (if q < fin \<and> 0 < w then do {
        m' \<leftarrow> stas q (four w) [v, v, v, v] m;
        set_loop w (q + 4 * w) v fin m' }
      else Some m)"
  by pat_completeness auto
termination
  by (relation "measure (\<lambda>(w, q, v, fin, m). fin - q)") auto

declare copy_loop.simps [simp del] copyback_loop.simps [simp del] set_loop.simps [simp del]

text \<open>The loops of both widths are these.\<close>

lemma loops_generic:
  "copy16_loop q p fin m = copy_loop 16 q p fin m"
  "copy32_loop q p fin m = copy_loop 32 q p fin m"
  "copyback16_loop d s n m = copyback_loop 16 d s n m"
  "copyback32_loop d s n m = copyback_loop 32 d s n m"
  "set16_loop q v fin m = set_loop 16 q v fin m"
  "set32_loop q v fin m = set_loop 32 q v fin m"
proof -
  show "copy16_loop q p fin m = copy_loop 16 q p fin m"
    by (induction q p fin m rule: copy16_loop.induct)
       (subst copy16_loop.simps, subst copy_loop.simps, auto intro!: Option.bind_cong)
  show "copy32_loop q p fin m = copy_loop 32 q p fin m"
    by (induction q p fin m rule: copy32_loop.induct)
       (subst copy32_loop.simps, subst copy_loop.simps, auto intro!: Option.bind_cong)
  show "copyback16_loop d s n m = copyback_loop 16 d s n m"
    by (induction d s n m rule: copyback16_loop.induct)
       (subst copyback16_loop.simps, subst copyback_loop.simps, auto intro!: Option.bind_cong)
  show "copyback32_loop d s n m = copyback_loop 32 d s n m"
    by (induction d s n m rule: copyback32_loop.induct)
       (subst copyback32_loop.simps, subst copyback_loop.simps, auto intro!: Option.bind_cong)
  show "set16_loop q v fin m = set_loop 16 q v fin m"
    by (induction q v fin m rule: set16_loop.induct)
       (subst set16_loop.simps, subst set_loop.simps, auto intro!: Option.bind_cong)
  show "set32_loop q v fin m = set_loop 32 q v fin m"
    by (induction q v fin m rule: set32_loop.induct)
       (subst set32_loop.simps, subst set_loop.simps, auto intro!: Option.bind_cong)
qed

text \<open>Forward. Nothing that is still to be loaded has been stored onto, when the destination begins
  below the source or beyond it.\<close>

definition forward_ok :: "nat \<Rightarrow> nat \<Rightarrow> nat \<Rightarrow> bool" where
  "forward_ok d s n \<longleftrightarrow> d < s \<or> s + n \<le> d"

lemma bytes_forward:
  assumes "forward_ok d s n" "P \<subseteq> {..<c}" "c \<le> o'" "o' + w \<le> n"
  shows "bytes (moved d s P m) (s + o') w = bytes m (s + o') w"
proof (rule bytes_moved)
  fix i assume "i < w" "d \<le> s + o' + i"
  then have "c \<le> s + o' + i - d" using assms(1,3,4) by (auto simp: forward_ok_def)
  then show "s + o' + i - d \<notin> P" using assms(2) by auto
qed

lemma lds_forward:
  assumes m: "mapped m d n" "mapped m s n" and "forward_ok d s n" "P \<subseteq> {..<c}" "P \<subseteq> {..<n}"
    and ks: "\<And>k. k \<in> set ks \<Longrightarrow> c + k + w \<le> n"
  shows "lds w (s + c) ks (moved d s P m) = Some (map (\<lambda>k. bytes m (s + c + k) w) ks)"
proof -
  have "lds w (s + c) ks (moved d s P m) = Some (map (\<lambda>k. bytes (moved d s P m) (s + c + k) w) ks)"
    using ks by (intro lds_mapped moved_mapped [OF m assms(5)] mapped_sub [OF m(2)]) (auto simp: add.assoc)
  moreover have "bytes (moved d s P m) (s + c + k) w = bytes m (s + c + k) w" if "k \<in> set ks" for k
    using bytes_forward [OF assms(3,4), of "c + k" w] ks [OF that] by (simp add: add.assoc)
  ultimately show ?thesis by simp
qed

lemma copy_loop_ok:
  assumes m: "mapped m d n" "mapped m s n" and f: "forward_ok d s n" and w: "0 < w" "e + 4 * w \<le> n"
  shows "\<lbrakk>(d + c) mod w = 0; c0 \<le> c; c \<le> n\<rbrakk> \<Longrightarrow>
    \<exists>c'. copy_loop w (d + c) (s + c) (d + e) (moved d s {c0..<c} m) = Some (moved d s {c0..<c'} m)
       \<and> e \<le> c' \<and> c \<le> c' \<and> c' \<le> n"
proof (induction "e - c" arbitrary: c rule: less_induct)
  case less
  show ?case
  proof (cases "c < e")
    case False
    then show ?thesis using less.prems by (subst copy_loop.simps) auto
  next
    case True
    let ?P = "{c0..<c}" and ?vs = "map (\<lambda>k. bytes m (s + c + k) w) (four w)"
    have k: "c + k + w \<le> n" if "k \<in> set (four w)" for k using that True w(2) by auto
    have "lds w (s + c) (four w) (moved d s ?P m) = Some ?vs"
      by (rule lds_forward [OF m f _ _ k]) (use less.prems(3) in auto)
    moreover have "stas (d + c) (four w) ?vs (moved d s ?P m) = sts (d + c) (four w) ?vs (moved d s ?P m)"
      using less.prems(1) by (intro stas_sts [of _ w] four_aligned [OF less.prems(1)]) auto
    moreover have "sts (d + c) (four w) ?vs (moved d s ?P m) = Some (moved d s {c0..<c + 4 * w} m)"
    proof -
      have "?P \<union> (\<Union>k \<in> set (four w). {c + k..<c + k + w}) = {c0..<c + 4 * w}"
        unfolding four_cover using less.prems(2) by auto
      moreover have "?P \<subseteq> {..<n}" using less.prems(3) by auto
      ultimately show ?thesis using sts_moved [OF m, of ?P "four w" c w] k by (simp only:)
    qed
    moreover have "\<exists>c'. copy_loop w (d + (c + 4 * w)) (s + (c + 4 * w)) (d + e) (moved d s {c0..<c + 4 * w} m)
         = Some (moved d s {c0..<c'} m) \<and> e \<le> c' \<and> c + 4 * w \<le> c' \<and> c' \<le> n"
    proof (rule less.hyps)
      show "(d + (c + 4 * w)) mod w = 0" using less.prems(1) by (simp add: add.assoc [symmetric])
    qed (use True w less.prems in auto)
    ultimately show ?thesis using True w(1) by (subst copy_loop.simps) (auto simp: add.assoc)
  qed
qed

text \<open>The first vector and the last four are loaded first and stored last.\<close>

lemma copy_big_ok:
  assumes m: "mapped m d n" "mapped m s n" and f: "forward_ok d s n" and w: "0 < w" "4 * w < n"
  shows "do {
      h \<leftarrow> ld w s m;
      t \<leftarrow> lds w (s + (n - 4 * w)) (four w) m;
      m1 \<leftarrow> copy_loop w (d + (w - d mod w)) (s + (w - d mod w)) (d + (n - 4 * w)) m;
      m2 \<leftarrow> st d h m1;
      sts (d + (n - 4 * w)) (four w) t m2 } = Some (copied d s n m)"
proof -
  let ?c = "w - d mod w" and ?e = "n - 4 * w"
  have c: "?c \<le> w" "(d + ?c) mod w = 0"
  proof -
    show "?c \<le> w" by simp
    have "d div w * w + d mod w = d" by simp
    moreover have "d mod w < w" using w(1) by simp
    ultimately have "d + ?c = d div w * w + w" by linarith
    then show "(d + ?c) mod w = 0" by simp
  qed
  have h: "ld w s m = Some (bytes m s w)" using w by (intro ld_mapped mapped_sub [OF m(2)]) auto
  have t: "lds w (s + ?e) (four w) m = Some (map (\<lambda>k. bytes m (s + ?e + k) w) (four w))"
    using w by (intro lds_mapped mapped_sub [OF m(2)]) auto
  obtain c' where c': "copy_loop w (d + ?c) (s + ?c) (d + ?e) m = Some (moved d s {?c..<c'} m)" "?e \<le> c'" "c' \<le> n"
    using copy_loop_ok [OF m f w(1), of ?e ?c ?c] c w by auto
  have s1: "st d (bytes m s w) (moved d s {?c..<c'} m) = Some (moved d s ({?c..<c'} \<union> {0..<w}) m)"
  proof -
    have "{?c..<c'} \<subseteq> {..<n}" using c'(3) by auto
    from st_moved [OF m this, of 0 w] w show ?thesis by simp
  qed
  have "({?c..<c'} \<union> {0..<w}) \<union> (\<Union>k \<in> set (four w). {?e + k..<?e + k + w}) = {..<n}"
    unfolding four_cover using c(1) c'(2,3) w by auto
  moreover have "sts (d + ?e) (four w) (map (\<lambda>k. bytes m (s + ?e + k) w) (four w)) (moved d s ({?c..<c'} \<union> {0..<w}) m)
      = Some (moved d s (({?c..<c'} \<union> {0..<w}) \<union> (\<Union>k \<in> set (four w). {?e + k..<?e + k + w})) m)"
    by (rule sts_moved [OF m]) (use c'(3) w in auto)
  ultimately have s2: "sts (d + ?e) (four w) (map (\<lambda>k. bytes m (s + ?e + k) w) (four w)) (moved d s ({?c..<c'} \<union> {0..<w}) m)
      = Some (copied d s n m)" by (simp only: moved_all)
  show ?thesis by (simp only: h t c'(1) s1 s2 Option.bind.bind_lunit)
qed

text \<open>Backward. Nothing still to be loaded has been stored onto, when the destination is not below
  the source.\<close>

lemma copyback_loop_ok:
  assumes m: "mapped m d N" "mapped m s N" and f: "s \<le> d" and w: "0 < w"
  shows "n \<le> N \<Longrightarrow> \<exists>n'. copyback_loop w d s n (moved d s {n..<N} m) = Some (moved d s {n'..<N} m) \<and> n' \<le> n \<and> n' \<le> 4 * w"
proof (induction n rule: less_induct)
  case (less n)
  show ?case
  proof (cases "4 * w < n")
    case False
    then show ?thesis by (subst copyback_loop.simps) auto
  next
    case True
    let ?c = "n - 4 * w" and ?P = "{n..<N}" and ?vs = "map (\<lambda>k. bytes m (s + (n - 4 * w) + k) w) (four w)"
    have k: "?c + k + w \<le> n" if "k \<in> set (four w)" for k using that True by auto
    have "lds w (s + ?c) (four w) (moved d s ?P m) = Some (map (\<lambda>k. bytes (moved d s ?P m) (s + ?c + k) w) (four w))"
    proof (intro lds_mapped moved_mapped [OF m] mapped_sub [OF m(2)])
      show "s + ?c + k + w \<le> s + N" if "k \<in> set (four w)" for k using k [OF that] less.prems by simp
    qed auto
    moreover have "map (\<lambda>k. bytes (moved d s ?P m) (s + ?c + k) w) (four w) = ?vs"
    proof (intro map_cong refl bytes_moved)
      fix k i assume "k \<in> set (four w)" "i < w"
      then show "s + ?c + k + i - d \<notin> ?P" using k [of k] f by auto
    qed
    ultimately have l: "lds w (s + ?c) (four w) (moved d s ?P m) = Some ?vs" by (simp only:)
    have "sts (d + ?c) (four w) ?vs (moved d s ?P m) = Some (moved d s (?P \<union> (\<Union>k \<in> set (four w). {?c + k..<?c + k + w})) m)"
    proof (rule sts_moved [OF m])
      show "?c + k + w \<le> N" if "k \<in> set (four w)" for k using k [OF that] less.prems by simp
    qed auto
    moreover have "?P \<union> (\<Union>k \<in> set (four w). {?c + k..<?c + k + w}) = {?c..<N}"
      unfolding four_cover using True less.prems by auto
    ultimately have "sts (d + ?c) (four w) ?vs (moved d s ?P m) = Some (moved d s {?c..<N} m)" by (simp only:)
    moreover have "\<exists>n'. copyback_loop w d s ?c (moved d s {?c..<N} m) = Some (moved d s {n'..<N} m) \<and> n' \<le> ?c \<and> n' \<le> 4 * w"
      by (rule less.IH) (use True w less.prems in auto)
    then obtain n' where "copyback_loop w d s ?c (moved d s {?c..<N} m) = Some (moved d s {n'..<N} m)" "n' \<le> ?c" "n' \<le> 4 * w"
      by blast
    ultimately show ?thesis
      using True w l by (intro exI [of _ n'], subst copyback_loop.simps) simp
  qed
qed

lemma copyback_ok:
  assumes m: "mapped m d n" "mapped m s n" and f: "s \<le> d" and w: "0 < w" "4 * w < n"
  shows "do {
      h \<leftarrow> lds w s (four w) m;
      m1 \<leftarrow> copyback_loop w d s n m;
      sts d (four w) h m1 } = Some (copied d s n m)"
proof -
  have h: "lds w s (four w) m = Some (map (\<lambda>k. bytes m (s + k) w) (four w))"
    using w by (intro lds_mapped mapped_sub [OF m(2)]) auto
  obtain n' where n': "copyback_loop w d s n m = Some (moved d s {n'..<n} m)" "n' \<le> 4 * w"
    using copyback_loop_ok [OF m f w(1), of n] by auto
  have "sts (d + 0) (four w) (map (\<lambda>k. bytes m (s + 0 + k) w) (four w)) (moved d s {n'..<n} m)
      = Some (moved d s ({n'..<n} \<union> (\<Union>k \<in> set (four w). {0 + k..<0 + k + w})) m)"
    by (rule sts_moved [OF m]) (use w in auto)
  moreover have "{n'..<n} \<union> (\<Union>k \<in> set (four w). {0 + k..<0 + k + w}) = {..<n}"
    unfolding four_cover using n'(2) w by auto
  ultimately have "sts d (four w) (map (\<lambda>k. bytes m (s + k) w) (four w)) (moved d s {n'..<n} m) = Some (copied d s n m)"
    by (simp only: moved_all add_0_right)
  then show ?thesis by (simp only: h n'(1) Option.bind.bind_lunit)
qed

section \<open>The functions\<close>

lemma two_vectors_ok:
  assumes "mapped m d n" "mapped m s n" "w \<le> n" "n \<le> 2 * w"
  shows "do { vs \<leftarrow> lds w s [0, n - w] m; sts d [0, n - w] vs m } = Some (copied d s n m)"
  by (rule load_store [OF assms(1,2)]) (use assms(3,4) in auto)

lemma four_vectors_ok:
  assumes "mapped m d n" "mapped m s n" "2 * w \<le> n" "n \<le> 4 * w"
  shows "do { vs \<leftarrow> lds w s [0, w, n - 2 * w, n - w] m; sts d [0, w, n - 2 * w, n - w] vs m } = Some (copied d s n m)"
  by (rule load_store [OF assms(1,2)]) (use assms(3,4) in auto)

lemma lds_shift: "lds w (s + c) ks m = lds w s (map ((+) c) ks) m"
  by (induction ks) (simp_all add: add.assoc)

lemma copy16_ok:
  assumes m: "mapped m d n" "mapped m s n" and n: "32 < n" and f: "forward_ok d s n"
  shows "copy16 d s n m = Some (copied d s n m)"
proof (cases "n \<le> 64")
  case True
  then show ?thesis using four_vectors_ok [OF m, of 16] n by (simp add: copy16_def)
next
  case False
  then have "[n - 64, n - 48, n - 32, n - 16] = map ((+) (n - 4 * 16)) (four 16)" "d + n - 64 = d + (n - 4 * 16)"
    by auto
  then show ?thesis
    using copy_big_ok [OF m f, of 16] False
    by (simp add: copy16_def loops_generic lds_shift Let_def)
qed

lemma copy32_ok:
  assumes m: "mapped m d n" "mapped m s n" and n: "32 < n" and f: "forward_ok d s n"
  shows "copy32 d s n m = Some (copied d s n m)"
proof -
  consider "n \<le> 64" | "64 < n" "n \<le> 128" | "128 < n" by linarith
  then show ?thesis
  proof cases
    case 1
    then show ?thesis using two_vectors_ok [OF m, of 32] n by (simp add: copy32_def)
  next
    case 2
    then show ?thesis using four_vectors_ok [OF m, of 32] by (simp add: copy32_def)
  next
    case 3
    then have "[n - 128, n - 96, n - 64, n - 32] = map ((+) (n - 4 * 32)) (four 32)" "d + n - 128 = d + (n - 4 * 32)"
      by auto
    then show ?thesis
      using copy_big_ok [OF m f, of 32] 3 by (simp add: copy32_def loops_generic lds_shift Let_def)
  qed
qed

lemma copyback16_ok:
  assumes m: "mapped m d n" "mapped m s n" and n: "64 < n" and f: "s \<le> d"
  shows "copyback16 d s n m = Some (copied d s n m)"
  using copyback_ok [OF m f, of 16] n by (simp add: copyback16_def loops_generic)

lemma copyback32_ok:
  assumes m: "mapped m d n" "mapped m s n" and n: "64 < n" and f: "s \<le> d"
  shows "copyback32 d s n m = Some (copied d s n m)"
proof (cases "n \<le> 128")
  case True
  then show ?thesis using four_vectors_ok [OF m, of 32] n by (simp add: copyback32_def)
next
  case False
  then show ?thesis using copyback_ok [OF m f, of 32] by (simp add: copyback32_def loops_generic)
qed

lemma sts_append:
  "length ks = length vs \<Longrightarrow> sts q (ks @ [k]) (vs @ [v]) m = do { m' \<leftarrow> sts q ks vs m; st (q + k) v m' }"
  by (induction q ks vs m rule: sts.induct) (auto split: Option.bind_splits)

lemma lds_append:
  "lds w p (ks @ [k]) m = do { vs \<leftarrow> lds w p ks m; v \<leftarrow> ld w (p + k) m; Some (vs @ [v]) }"
  by (induction ks) (auto split: Option.bind_splits)

lemma lds_length: "lds w p ks m = Some vs \<Longrightarrow> length vs = length ks"
  by (induction ks arbitrary: vs) (auto split: Option.bind_splits)

lemma move_short_ok:
  assumes m: "mapped m d n" "mapped m s n" and n: "16 < n" "n \<le> 64"
  shows "move_short d s n m = Some (copied d s n m)"
proof -
  let ?k = "(n + 15) div 16" and ?offs = "map (\<lambda>i. 16 * i) [0..<(n + 15) div 16 - 1]"
  have "do { vs \<leftarrow> lds 16 s (?offs @ [n - 16]) m; sts d (?offs @ [n - 16]) vs m } = Some (copied d s n m)"
  proof (rule load_store [OF m])
    show "k + 16 \<le> n" if "k \<in> set (?offs @ [n - 16])" for k using that n by auto
    show "(\<Union>k \<in> set (?offs @ [n - 16]). {k..<k + 16}) = {..<n}"
    proof (intro equalityI subsetI)
      fix i assume "i \<in> (\<Union>k \<in> set (?offs @ [n - 16]). {k..<k + 16})"
      then show "i \<in> {..<n}" using n by auto
    next
      fix i assume i: "i \<in> {..<n}"
      have "i div 16 < ?k - 1 \<or> n - 16 \<le> i" "16 * (i div 16) \<le> i" "i < 16 * (i div 16) + 16" by auto
      then show "i \<in> (\<Union>k \<in> set (?offs @ [n - 16]). {k..<k + 16})" using i n
        by (elim disjE) (auto intro!: bexI [of _ "i div 16"])
    qed
  qed
  then obtain vs e where l: "lds 16 s ?offs m = Some vs" "ld 16 (s + (n - 16)) m = Some e"
    and r: "sts d (?offs @ [n - 16]) (vs @ [e]) m = Some (copied d s n m)"
    by (auto simp: lds_append bind_eq_Some_conv)
  have "do { m1 \<leftarrow> sts d ?offs vs m; st (d + (n - 16)) e m1 } = Some (copied d s n m)"
    using r lds_length [OF l(1)] by (simp add: sts_append)
  moreover have "s + n - 16 = s + (n - 16)" "d + n - 16 = d + (n - 16)" using n by simp_all
  ultimately show ?thesis unfolding move_short_def Let_def by (simp only: l Option.bind.bind_lunit)
qed

lemma memcpy16_ok:
  assumes m: "mapped m d n" "mapped m s n" and f: "forward_ok d s n"
  shows "memcpy16 d s n m = Some (copied d s n m)"
  using copy_small_ok [OF m] two_vectors_ok [OF m, of 16] copy16_ok [OF m _ f] by (simp add: memcpy16_def)

lemma memcpy32_ok:
  assumes m: "mapped m d n" "mapped m s n" and f: "forward_ok d s n"
  shows "memcpy32 d s n m = Some (copied d s n m)"
  using copy_small_ok [OF m] two_vectors_ok [OF m, of 16] copy32_ok [OF m _ f] by (simp add: memcpy32_def)

lemma ptr_diff_forward:
  assumes "n \<le> ptr_diff d s" "s + n \<le> 2 ^ 64"
  shows "forward_ok d s n"
  using assms by (auto simp: ptr_diff_def forward_ok_def split: if_splits)

lemma ptr_diff_backward:
  assumes "\<not> n \<le> ptr_diff d s" "s + n \<le> 2 ^ 64"
  shows "s \<le> d"
  using assms by (auto simp: ptr_diff_def split: if_splits)

lemma memmove16_ok:
  assumes m: "mapped m d n" "mapped m s n" and w: "s + n \<le> 2 ^ 64"
  shows "memmove16 d s n m = Some (copied d s n m)"
  using memcpy16_ok [OF m] ptr_diff_forward [OF _ w] ptr_diff_backward [OF _ w]
    copy_small_ok [OF m] move_short_ok [OF m] copyback16_ok [OF m] by (simp add: memmove16_def)

lemma memmove32_ok:
  assumes m: "mapped m d n" "mapped m s n" and w: "s + n \<le> 2 ^ 64"
  shows "memmove32 d s n m = Some (copied d s n m)"
  using memcpy32_ok [OF m] ptr_diff_forward [OF _ w] ptr_diff_backward [OF _ w]
    copy_small_ok [OF m] move_short_ok [OF m] copyback32_ok [OF m] by (simp add: memmove32_def)

subsection \<open>A word at a time\<close>

text \<open>One element of a forward and of a backward copy.\<close>

lemma forward_step:
  assumes m: "mapped m d n" "mapped m s n" and f: "forward_ok d s n" and c: "c + w \<le> n"
  obtains v where "ld w (s + c) (moved d s {..<c} m) = Some v" "st (d + c) v (moved d s {..<c} m) = Some (moved d s {..<c + w} m)"
proof -
  have "lds w (s + c) [0] (moved d s {..<c} m) = Some (map (\<lambda>k. bytes m (s + c + k) w) [0])"
    by (rule lds_forward [OF m f]) (use c in auto)
  then have "ld w (s + c) (moved d s {..<c} m) = Some (bytes m (s + c) w)" by (auto simp: bind_eq_Some_conv)
  moreover have "st (d + c) (bytes m (s + c) w) (moved d s {..<c} m) = Some (moved d s ({..<c} \<union> {c..<c + w}) m)"
    by (rule st_moved [OF m]) (use c in auto)
  moreover have "{..<c} \<union> {c..<c + w} = {..<c + w}" by auto
  ultimately show ?thesis using that by simp
qed

lemma backward_step:
  assumes m: "mapped m d N" "mapped m s N" and f: "s \<le> d" and c: "c + w \<le> N"
  obtains v where "ld w (s + c) (moved d s {c + w..<N} m) = Some v" "st (d + c) v (moved d s {c + w..<N} m) = Some (moved d s {c..<N} m)"
proof -
  have "mapped (moved d s {c + w..<N} m) (s + c) w"
    by (rule moved_mapped [OF m]) (use c in \<open>auto intro: mapped_sub [OF m(2)]\<close>)
  moreover have "bytes (moved d s {c + w..<N} m) (s + c) w = bytes m (s + c) w"
    by (rule bytes_moved) (use f in auto)
  ultimately have "ld w (s + c) (moved d s {c + w..<N} m) = Some (bytes m (s + c) w)" by (simp add: ld_mapped)
  moreover have "st (d + c) (bytes m (s + c) w) (moved d s {c + w..<N} m) = Some (moved d s ({c + w..<N} \<union> {c..<c + w}) m)"
    by (rule st_moved [OF m]) (use c in auto)
  moreover have "{c + w..<N} \<union> {c..<c + w} = {c..<N}" using c by auto
  ultimately show ?thesis using that by simp
qed

lemma copy_forward_words_ok:
  assumes m: "mapped m d N" "mapped m s N" and f: "forward_ok d s N"
  shows "c + n = N \<Longrightarrow> copy_forward_words (d + c) (s + c) n (moved d s {..<c} m) =
    Some (d + (N - n mod 8), s + (N - n mod 8), n mod 8, moved d s {..<N - n mod 8} m)"
proof (induction n arbitrary: c rule: less_induct)
  case (less n)
  show ?case
  proof (cases "8 \<le> n")
    case True
    have "copy_forward_words (d + (c + 8)) (s + (c + 8)) (n - 8) (moved d s {..<c + 8} m) =
        Some (d + (N - (n - 8) mod 8), s + (N - (n - 8) mod 8), (n - 8) mod 8, moved d s {..<N - (n - 8) mod 8} m)"
      by (rule less.IH) (use True less.prems in auto)
    moreover have "(n - 8) mod 8 = n mod 8" using True by (simp add: le_mod_geq)
    moreover obtain v where "ld 8 (s + c) (moved d s {..<c} m) = Some v"
      "st (d + c) v (moved d s {..<c} m) = Some (moved d s {..<c + 8} m)"
      using forward_step [OF m f, of c 8] True less.prems by auto
    ultimately show ?thesis using True by (subst copy_forward_words.simps) (simp add: add.assoc)
  next
    case False
    then show ?thesis using less.prems by (subst copy_forward_words.simps) auto
  qed
qed

lemma copy_forward_bytes_ok:
  assumes m: "mapped m d N" "mapped m s N" and f: "forward_ok d s N"
  shows "c + n = N \<Longrightarrow> copy_forward_bytes (d + c) (s + c) n (moved d s {..<c} m) = Some (moved d s {..<N} m)"
proof (induction n arbitrary: c)
  case (Suc n)
  then have "copy_forward_bytes (d + (c + 1)) (s + (c + 1)) n (moved d s {..<c + 1} m) = Some (moved d s {..<N} m)"
    by (intro Suc.IH) simp
  moreover obtain v where "ld 1 (s + c) (moved d s {..<c} m) = Some v"
    "st (d + c) v (moved d s {..<c} m) = Some (moved d s {..<c + 1} m)"
    using forward_step [OF m f, of c 1] Suc.prems by auto
  ultimately show ?case by (simp add: add.assoc)
qed simp

lemma copy_forward_ok:
  assumes m: "mapped m d n" "mapped m s n" and f: "forward_ok d s n"
  shows "copy_forward d s n m = Some (copied d s n m)"
proof (cases "n \<le> 16")
  case True
  then show ?thesis using copy_small_ok [OF m] by (simp add: copy_forward_def)
next
  case False
  have "copy_forward_bytes (d + (n - n mod 8)) (s + (n - n mod 8)) (n mod 8) (moved d s {..<n - n mod 8} m) = Some (moved d s {..<n} m)"
    by (rule copy_forward_bytes_ok [OF m f]) simp
  with copy_forward_words_ok [OF m f, of 0 n] False show ?thesis
    by (simp add: copy_forward_def moved_all)
qed

lemma copy_backward_words_ok:
  assumes m: "mapped m d N" "mapped m s N" and f: "s \<le> d"
  shows "n \<le> N \<Longrightarrow> copy_backward_words d s n (moved d s {n..<N} m) = Some (n mod 8, moved d s {n mod 8..<N} m)"
proof (induction n rule: less_induct)
  case (less n)
  show ?case
  proof (cases "8 \<le> n")
    case True
    have "copy_backward_words d s (n - 8) (moved d s {n - 8..<N} m) = Some ((n - 8) mod 8, moved d s {(n - 8) mod 8..<N} m)"
      by (rule less.IH) (use True less.prems in auto)
    moreover have "(n - 8) mod 8 = n mod 8" using True by (simp add: le_mod_geq)
    moreover obtain v where "ld 8 (s + (n - 8)) (moved d s {n - 8 + 8..<N} m) = Some v"
      "st (d + (n - 8)) v (moved d s {n - 8 + 8..<N} m) = Some (moved d s {n - 8..<N} m)"
      using backward_step [OF m f, of "n - 8" 8] True less.prems by auto
    ultimately show ?thesis using True by (subst copy_backward_words.simps) simp
  next
    case False
    then show ?thesis by (subst copy_backward_words.simps) simp
  qed
qed

lemma copy_backward_bytes_ok:
  assumes m: "mapped m d N" "mapped m s N" and f: "s \<le> d"
  shows "n \<le> N \<Longrightarrow> copy_backward_bytes d s n (moved d s {n..<N} m) = Some (moved d s {0..<N} m)"
proof (induction n)
  case (Suc n)
  moreover obtain v where "ld 1 (s + n) (moved d s {n + 1..<N} m) = Some v"
    "st (d + n) v (moved d s {n + 1..<N} m) = Some (moved d s {n..<N} m)"
    using backward_step [OF m f, of n 1] Suc.prems by auto
  ultimately show ?case by simp
qed simp

lemma memmove_word_ok:
  assumes m: "mapped m d n" "mapped m s n" and w: "s + n \<le> 2 ^ 64"
  shows "memmove_word d s n m = Some (copied d s n m)"
proof -
  have "do { (n', m') \<leftarrow> copy_backward_words d s n m; copy_backward_bytes d s n' m' } = Some (copied d s n m)" if "s \<le> d"
    using copy_backward_words_ok [OF m that, of n] copy_backward_bytes_ok [OF m that, of "n mod 8"]
    by (simp add: moved_all atLeast0LessThan)
  then show ?thesis
    using copy_forward_ok [OF m ptr_diff_forward [OF _ w]] ptr_diff_backward [OF _ w] copy_small_ok [OF m]
    by (simp add: memmove_word_def)
qed

subsection \<open>Filling\<close>

lemma fill_vectors_ok:
  assumes "mapped m d n" "\<And>k. k \<in> set ks \<Longrightarrow> k + w \<le> n" "(\<Union>k \<in> set ks. {k..<k + w}) = {..<n}"
  shows "sts d ks (replicate (length ks) (splat w b)) m = Some (set_to d b n m)"
  using sts_filled [OF assms(1), of ks 0 w b "{}"] assms(2,3) by (simp add: filled_all splat_def)

lemma set_small_ok:
  assumes m: "mapped m d n" and n: "n < 16"
  shows "set_small d b n m = Some (set_to d b n m)"
proof -
  have two: "sts d [0, n - w] [splat w b, splat w b] m = Some (set_to d b n m)" if "w \<le> n" "n \<le> 2 * w" for w
  proof -
    have "sts d [0, n - w] (replicate (length [0, n - w]) (splat w b)) m = Some (set_to d b n m)"
      by (rule fill_vectors_ok [OF m]) (use that in auto)
    then show ?thesis by (simp add: numeral_eq_Suc)
  qed
  have three: "sts d [0, n div 2, n - 1] [[b], [b], [b]] m = Some (set_to d b n m)" if "n \<noteq> 0" "n < 4"
  proof -
    have "n = 1 \<or> n = 2 \<or> n = 3" using that by auto
    then have "sts d [0, n div 2, n - 1] (replicate (length [0, n div 2, n - 1]) (splat 1 b)) m = Some (set_to d b n m)"
      by (intro fill_vectors_ok [OF m]) auto
    then show ?thesis by (simp add: splat_def numeral_eq_Suc)
  qed
  have "n = 0 \<Longrightarrow> m = set_to d b n m" by (auto simp: set_to_def fun_eq_iff)
  then show ?thesis using two [of 8] two [of 4] three n by (simp add: set_small_def)
qed

lemma set_loop_ok:
  assumes m: "mapped m d n" and w: "0 < w" "e + 4 * w \<le> n"
  shows "\<lbrakk>(d + c) mod w = 0; c \<le> n\<rbrakk> \<Longrightarrow>
    \<exists>c'. set_loop w (d + c) (splat w b) (d + e) (filled d b {..<c} m) = Some (filled d b {..<c'} m)
       \<and> e \<le> c' \<and> c \<le> c' \<and> c' \<le> n"
proof (induction "e - c" arbitrary: c rule: less_induct)
  case less
  show ?case
  proof (cases "c < e")
    case False
    then show ?thesis using less.prems by (subst set_loop.simps) auto
  next
    case True
    let ?vs = "replicate (length (four w)) (splat w b)"
    have k: "c + k + w \<le> n" if "k \<in> set (four w)" for k using that True w(2) by auto
    have "stas (d + c) (four w) ?vs (filled d b {..<c} m) = sts (d + c) (four w) ?vs (filled d b {..<c} m)"
      by (intro stas_sts [of _ w] four_aligned [OF less.prems(1)]) (auto simp: splat_def)
    also have "\<dots> = Some (filled d b ({..<c} \<union> (\<Union>k \<in> set (four w). {c + k..<c + k + w})) m)"
      unfolding splat_def by (rule sts_filled [OF m k])
    also have "{..<c} \<union> (\<Union>k \<in> set (four w). {c + k..<c + k + w}) = {..<c + 4 * w}"
      unfolding four_cover by auto
    finally have "stas (d + c) (four w) [splat w b, splat w b, splat w b, splat w b] (filled d b {..<c} m) =
        Some (filled d b {..<c + 4 * w} m)" by (simp add: numeral_eq_Suc)
    moreover have "\<exists>c'. set_loop w (d + (c + 4 * w)) (splat w b) (d + e) (filled d b {..<c + 4 * w} m)
         = Some (filled d b {..<c'} m) \<and> e \<le> c' \<and> c + 4 * w \<le> c' \<and> c' \<le> n"
    proof (rule less.hyps)
      show "(d + (c + 4 * w)) mod w = 0" using less.prems(1) by (simp add: add.assoc [symmetric])
    qed (use True w less.prems in auto)
    ultimately show ?thesis using True w(1) by (subst set_loop.simps) (auto simp: add.assoc)
  qed
qed

lemma set_big_ok:
  assumes m: "mapped m d n" and w: "0 < w" "4 * w < n"
  shows "do {
      m1 \<leftarrow> st d (splat w b) m;
      m2 \<leftarrow> set_loop w ((d + w) - (d + w) mod w) (splat w b) (d + (n - 4 * w)) m1;
      sts (d + (n - 4 * w)) (four w) [splat w b, splat w b, splat w b, splat w b] m2 } = Some (set_to d b n m)"
proof -
  let ?c = "w - (d + w) mod w" and ?e = "n - 4 * w"
  have mod: "(d + w) mod w < w" using w(1) by simp
  have c: "(d + w) - (d + w) mod w = d + ?c" "?c \<le> w" "(d + ?c) mod w = 0"
  proof -
    show "(d + w) - (d + w) mod w = d + ?c" using mod by linarith
    then have "d + ?c = (d + w) div w * w" by (simp only: minus_mod_eq_div_mult)
    then show "(d + ?c) mod w = 0" by (simp only: mod_mult_self2_is_0)
  qed simp
  let ?m = "filled d b {0..<w} m"
  have s1: "st d (splat w b) m = Some ?m"
    using st_filled [OF m, of 0 w b "{}"] w by (simp add: splat_def)
  have eq: "filled d b {..<?c} ?m = ?m" using c(2) by (auto simp: filled_def fun_eq_iff)
  have m': "mapped ?m d n" using m by (auto simp: mapped_def filled_def)
  obtain c' where l: "set_loop w (d + ?c) (splat w b) (d + ?e) ?m = Some (filled d b {..<c'} ?m)"
    and c': "?e \<le> c'" "c' \<le> n"
    using set_loop_ok [OF m' w(1) _ c(3), of ?e b] w unfolding eq by fastforce
  have "sts (d + ?e) (four w) (replicate (length (four w)) (replicate w b)) (filled d b {..<c'} ?m)
      = Some (filled d b ({..<c'} \<union> (\<Union>k \<in> set (four w). {?e + k..<?e + k + w})) ?m)"
    by (rule sts_filled [OF m']) (use w in auto)
  moreover have "filled d b ({..<c'} \<union> (\<Union>k \<in> set (four w). {?e + k..<?e + k + w})) ?m = set_to d b n m"
    unfolding four_cover using c' w by (auto simp: filled_def set_to_def fun_eq_iff)
  moreover have "replicate (length (four w)) (replicate w b) = [splat w b, splat w b, splat w b, splat w b]"
    by (simp add: splat_def numeral_eq_Suc)
  ultimately have s2: "sts (d + ?e) (four w) [splat w b, splat w b, splat w b, splat w b] (filled d b {..<c'} ?m) = Some (set_to d b n m)"
    by (simp only:)
  show ?thesis by (simp only: c(1) s1 l s2 Option.bind.bind_lunit)
qed

lemma two_fills_ok:
  assumes "mapped m d n" "w \<le> n" "n \<le> 2 * w"
  shows "sts d [0, n - w] [splat w b, splat w b] m = Some (set_to d b n m)"
proof -
  have "sts d [0, n - w] (replicate (length [0, n - w]) (splat w b)) m = Some (set_to d b n m)"
    by (rule fill_vectors_ok [OF assms(1)]) (use assms(2,3) in auto)
  then show ?thesis by (simp add: numeral_eq_Suc)
qed

lemma four_fills_ok:
  assumes "mapped m d n" "2 * w \<le> n" "n \<le> 4 * w"
  shows "sts d [0, w, n - 2 * w, n - w] [splat w b, splat w b, splat w b, splat w b] m = Some (set_to d b n m)"
proof -
  have "sts d [0, w, n - 2 * w, n - w] (replicate (length [0, w, n - 2 * w, n - w]) (splat w b)) m = Some (set_to d b n m)"
    by (rule fill_vectors_ok [OF assms(1)]) (use assms(2,3) in auto)
  then show ?thesis by (simp add: numeral_eq_Suc)
qed

lemma set16_ok:
  assumes m: "mapped m d n" and n: "32 < n"
  shows "set16 d b n m = Some (set_to d b n m)"
  using four_fills_ok [OF m, of 16] set_big_ok [OF m, of 16] n by (simp add: set16_def loops_generic Let_def del: sts.simps)

lemma set32_ok:
  assumes m: "mapped m d n" and n: "32 < n"
  shows "set32 d b n m = Some (set_to d b n m)"
  using two_fills_ok [OF m, of 32] four_fills_ok [OF m, of 32] set_big_ok [OF m, of 32] n
  by (simp add: set32_def loops_generic Let_def del: sts.simps)

lemma memset16_ok: "mapped m d n \<Longrightarrow> memset16 d b n m = Some (set_to d b n m)"
  by (simp add: memset16_def set_small_ok two_fills_ok set16_ok del: sts.simps)

lemma memset32_ok: "mapped m d n \<Longrightarrow> memset32 d b n m = Some (set_to d b n m)"
  by (simp add: memset32_def set_small_ok two_fills_ok set32_ok del: sts.simps)

lemma fill_step:
  assumes "mapped m d n" "c + w \<le> n"
  shows "st (d + c) (replicate w b) (filled d b {..<c} m) = Some (filled d b {..<c + w} m)"
proof -
  have "{..<c} \<union> {c..<c + w} = {..<c + w}" by auto
  with st_filled [OF assms, of b "{..<c}"] show ?thesis by simp
qed

lemma memset_words_ok:
  assumes m: "mapped m d N"
  shows "c + n = N \<Longrightarrow> memset_words (d + c) b n (filled d b {..<c} m) =
    Some (d + (N - n mod 8), n mod 8, filled d b {..<N - n mod 8} m)"
proof (induction n arbitrary: c rule: less_induct)
  case (less n)
  show ?case
  proof (cases "8 \<le> n")
    case True
    have "memset_words (d + (c + 8)) b (n - 8) (filled d b {..<c + 8} m) =
        Some (d + (N - (n - 8) mod 8), (n - 8) mod 8, filled d b {..<N - (n - 8) mod 8} m)"
      by (rule less.IH) (use True less.prems in auto)
    moreover have "(n - 8) mod 8 = n mod 8" using True by (simp add: le_mod_geq)
    moreover have "st (d + c) (splat 8 b) (filled d b {..<c} m) = Some (filled d b {..<c + 8} m)"
      unfolding splat_def by (rule fill_step [OF m]) (use True less.prems in auto)
    ultimately show ?thesis using True by (subst memset_words.simps) (simp add: add.assoc)
  next
    case False
    then show ?thesis using less.prems by (subst memset_words.simps) auto
  qed
qed

lemma memset_bytes_ok:
  assumes m: "mapped m d N"
  shows "c + n = N \<Longrightarrow> memset_bytes (d + c) b n (filled d b {..<c} m) = Some (filled d b {..<N} m)"
proof (induction n arbitrary: c)
  case (Suc n)
  then have "memset_bytes (d + (c + 1)) b n (filled d b {..<c + 1} m) = Some (filled d b {..<N} m)"
    by (intro Suc.IH) simp
  moreover have "st (d + c) [b] (filled d b {..<c} m) = Some (filled d b {..<c + 1} m)"
    using fill_step [OF m, of c 1 b] Suc.prems by simp
  ultimately show ?case by (simp add: add.assoc)
qed simp

lemma memset_word_ok:
  assumes m: "mapped m d n"
  shows "memset_word d b n m = Some (set_to d b n m)"
  using memset_words_ok [OF m, of 0 n b] memset_bytes_ok [OF m, of "n - n mod 8" "n mod 8" b]
  by (simp add: memset_word_def filled_all)

section \<open>What a program relies on\<close>

text \<open>C12: \<open>memmove\<close> moves. For every length, alignment and overlap, at every width, it returns with
  the destination holding the bytes the source held before the call and every other byte as it was,
  having touched no byte outside the two ranges and made no misaligned access to an aligned vector.
  (The source does not run past the end of the address space.)\<close>

theorem memmove_correct:
  assumes "mapped m d n" "mapped m s n" "s + n \<le> 2 ^ 64"
  shows "memmove v d s n m = Some (copied d s n m)"
  using memmove_word_ok [OF assms] memmove16_ok [OF assms] memmove32_ok [OF assms] by (cases v) simp_all

definition sample_memory :: mem where
  "sample_memory a = (if a < 4096 then Some (of_nat a) else None)"

lemma sample_memory_mapped: "p + n \<le> 4096 \<Longrightarrow> mapped sample_memory p n"
  by (simp add: mapped_def sample_memory_def)

theorem memmove_correct_witness:
  "memmove Avx2 3 0 300 sample_memory = Some (copied 3 0 300 sample_memory)
   \<and> copied 3 0 300 sample_memory 302 = Some 43 \<and> copied 3 0 300 sample_memory 2 = Some 2"
proof -
  have "copied 3 0 300 sample_memory 302 = Some 43" "copied 3 0 300 sample_memory 2 = Some 2"
    by (simp_all add: copied_def sample_memory_def)
  with memmove_correct [of sample_memory 3 300 0 Avx2] show ?thesis by (simp add: sample_memory_mapped)
qed

text \<open>\<open>memcpy\<close> copies ranges that do not overlap, at every width, and touches nothing else.\<close>

theorem memcpy_correct:
  assumes "mapped m d n" "mapped m s n" "d + n \<le> s \<or> s + n \<le> d"
  shows "memcpy v d s n m = Some (copied d s n m)"
proof -
  have "forward_ok d s n" using assms(3) by (auto simp: forward_ok_def)
  then show ?thesis
    using copy_forward_ok [OF assms(1,2)] memcpy16_ok [OF assms(1,2)] memcpy32_ok [OF assms(1,2)] by (cases v) simp_all
qed

theorem memcpy_correct_witness:
  "memcpy Sse2 1000 5 200 sample_memory = Some (copied 1000 5 200 sample_memory)"
  by (rule memcpy_correct) (simp_all add: sample_memory_mapped)

text \<open>\<open>memset\<close> fills its range and touches nothing else, at every width.\<close>

theorem memset_correct:
  assumes "mapped m d n"
  shows "memset v d b n m = Some (set_to d b n m)"
  using memset_word_ok [OF assms] memset16_ok [OF assms] memset32_ok [OF assms] by (cases v) simp_all

theorem memset_correct_witness:
  "memset Avx2 7 0xee 1000 sample_memory = Some (set_to 7 0xee 1000 sample_memory)"
  by (rule memset_correct) (simp add: sample_memory_mapped)

end
