(* ===== verification/Okm_Scan.thy ===== *)
theory Okm_Scan
  imports Okm_Copy
begin

text \<open>
  Looking for a byte (port/src/okm_string.c): \<open>memchr\<close>, \<open>strchr\<close> and \<open>strlen\<close>. The functions over 16
  and over 32 bytes have one text but for the width where the definition here has a width: \<open>scan16\<close> is
  \<open>scan 16\<close>. A null pointer is \<open>None\<close> within the result.

  \<open>hit\<close> says where the first byte looked for is; what each function answers is that, and it reads
  nothing outside the pages that hold the bytes up to there.
\<close>

section \<open>The scan\<close>

definition tvec :: "byte \<Rightarrow> bool \<Rightarrow> byte list \<Rightarrow> byte list" where
  "tvec c nul x = (let t = map2 (XOR) x (splat (length x) c) in if nul then MINv t x else t)"

definition STOP :: "byte list \<Rightarrow> bool list" where
  "STOP t = maskv (EQv t (splat (length t) 0))"

definition FOUND :: "nat \<Rightarrow> bool list \<Rightarrow> nat \<Rightarrow> nat option" where
  "FOUND p k fin = (let q = p + at_bit k in if q < fin then Some q else None)"

definition block_found :: "nat \<Rightarrow> nat \<Rightarrow> byte list list \<Rightarrow> nat \<Rightarrow> nat option" where
  "block_found w p ts fin =
     (if some_bit (STOP (ts ! 0)) then FOUND p (STOP (ts ! 0)) fin
      else if some_bit (STOP (ts ! 1)) then FOUND (p + w) (STOP (ts ! 1)) fin
      else if some_bit (STOP (ts ! 2)) then FOUND (p + 2 * w) (STOP (ts ! 2)) fin
      else FOUND (p + 3 * w) (STOP (ts ! 3)) fin)"

function scan_blocks :: "nat \<Rightarrow> nat \<Rightarrow> byte \<Rightarrow> bool \<Rightarrow> nat \<Rightarrow> mem \<Rightarrow> nat option option" where
  "scan_blocks w p c nul fin m =
     (if p < fin \<and> 0 < w then do {
        xs \<leftarrow> ldas w p (four w) m;
        let ts = map (tvec c nul) xs;
        if some_bit (STOP (MINv (MINv (ts ! 0) (ts ! 1)) (MINv (ts ! 2) (ts ! 3))))
        then Some (block_found w p ts fin)
        else scan_blocks w (p + 4 * w) c nul fin m }
      else Some None)"
  by pat_completeness auto
termination
  by (relation "measure (\<lambda>(w, p, c, nul, fin, m). fin - p)") auto

function scan_align :: "nat \<Rightarrow> nat \<Rightarrow> byte \<Rightarrow> bool \<Rightarrow> nat \<Rightarrow> mem \<Rightarrow> nat option option" where
  "scan_align w p c nul fin m =
     (if p mod (4 * w) \<noteq> 0 \<and> 0 < w then
        (if fin \<le> p then Some None
         else do {
           x \<leftarrow> lda w p m;
           let k = STOP (tvec c nul x);
           if some_bit k then Some (FOUND p k fin) else scan_align w (p + w) c nul fin m })
      else scan_blocks w p c nul fin m)"
  by pat_completeness auto
termination
  by (relation "measure (\<lambda>(w, p, c, nul, fin, m). fin - p)") auto

definition scan :: "nat \<Rightarrow> nat \<Rightarrow> byte \<Rightarrow> bool \<Rightarrow> nat \<Rightarrow> mem \<Rightarrow> nat option option" where
  "scan w s c nul fin m =
     (let off = s mod w; p = s - off in do {
        x \<leftarrow> lda w p m;
        let k = drop off (STOP (tvec c nul x));
        if some_bit k then Some (FOUND s k fin) else scan_align w (p + w) c nul fin m })"

definition scan16 :: "nat \<Rightarrow> byte \<Rightarrow> bool \<Rightarrow> nat \<Rightarrow> mem \<Rightarrow> nat option option" where
  "scan16 = scan 16"

definition scan32 :: "nat \<Rightarrow> byte \<Rightarrow> bool \<Rightarrow> nat \<Rightarrow> mem \<Rightarrow> nat option option" where
  "scan32 = scan 32"

declare scan_blocks.simps [simp del] scan_align.simps [simp del]

section \<open>memchr, strchr, strlen\<close>

abbreviation (input) UINTPTR_MAX :: nat where "UINTPTR_MAX \<equiv> 18446744073709551615"

text \<open>The loop over the first four vectors, and the scan after it.\<close>

fun memchr_loop :: "nat \<Rightarrow> nat \<Rightarrow> byte \<Rightarrow> nat \<Rightarrow> nat \<Rightarrow> nat list \<Rightarrow> mem \<Rightarrow> nat option option" where
  "memchr_loop w s c n fin [] m = scan w (s + 4 * w) c False fin m"
| "memchr_loop w s c n fin (k # ks) m = do {
     x \<leftarrow> ld w (s + k) m;
     let b = maskv (EQv x (splat w c));
     if some_bit b then Some (FOUND (s + k) b fin)
     else if n \<le> k + w then Some None
     else memchr_loop w s c n fin ks m }"

definition memchr_vec :: "nat \<Rightarrow> nat \<Rightarrow> byte \<Rightarrow> nat \<Rightarrow> mem \<Rightarrow> nat option option" where
  "memchr_vec w s c n m =
     (if n = 0 then Some None
      else let fin = (if UINTPTR_MAX - s < n then UINTPTR_MAX else s + n) in
        if 4 * w \<le> TO_PAGE_END s then memchr_loop w s c n fin (four w) m
        else scan w s c False fin m)"

definition memchr16 :: "nat \<Rightarrow> byte \<Rightarrow> nat \<Rightarrow> mem \<Rightarrow> nat option option" where
  "memchr16 = memchr_vec 16"

definition memchr32 :: "nat \<Rightarrow> byte \<Rightarrow> nat \<Rightarrow> mem \<Rightarrow> nat option option" where
  "memchr32 = memchr_vec 32"

fun strchr_loop :: "nat \<Rightarrow> nat \<Rightarrow> byte \<Rightarrow> nat list \<Rightarrow> mem \<Rightarrow> nat option option" where
  "strchr_loop w s c [] m = scan w (s + 4 * w) c True UINTPTR_MAX m"
| "strchr_loop w s c (k # ks) m = do {
     x \<leftarrow> ld w (s + k) m;
     let b = maskv (map2 (OR) (EQv x (splat w c)) (EQv x (splat w 0)));
     if some_bit b then Some (Some (s + k + at_bit b)) else strchr_loop w s c ks m }"

definition strchr_vec :: "nat \<Rightarrow> nat \<Rightarrow> byte \<Rightarrow> mem \<Rightarrow> nat option option" where
  "strchr_vec w s c m = do {
     q \<leftarrow> (if 4 * w \<le> TO_PAGE_END s then strchr_loop w s c (four w) m else scan w s c True UINTPTR_MAX m);
     case q of None \<Rightarrow> Some None
     | Some p \<Rightarrow> do { v \<leftarrow> ld 1 p m; Some (if v = [c] then Some p else None) } }"

definition strchr16 :: "nat \<Rightarrow> byte \<Rightarrow> mem \<Rightarrow> nat option option" where
  "strchr16 = strchr_vec 16"

definition strchr32 :: "nat \<Rightarrow> byte \<Rightarrow> mem \<Rightarrow> nat option option" where
  "strchr32 = strchr_vec 32"

text \<open>\<open>(size_t)(q - s)\<close> for the pointer a scan answered; the null pointer is address 0.\<close>

definition length_to :: "nat option \<Rightarrow> nat \<Rightarrow> nat" where
  "length_to q s = ptr_diff (case q of None \<Rightarrow> 0 | Some p \<Rightarrow> p) s"

fun strlen16_loop :: "nat \<Rightarrow> nat list \<Rightarrow> mem \<Rightarrow> nat option" where
  "strlen16_loop s [] m = do { q \<leftarrow> scan16 (s + 64) 0 False UINTPTR_MAX m; Some (length_to q s) }"
| "strlen16_loop s (k # ks) m = do {
     x \<leftarrow> ld 16 (s + k) m;
     let b = maskv (EQv x (splat 16 0));
     if some_bit b then Some (k + at_bit b) else strlen16_loop s ks m }"

definition strlen16 :: "nat \<Rightarrow> mem \<Rightarrow> nat option" where
  "strlen16 s m =
     (if 64 \<le> TO_PAGE_END s then strlen16_loop s [0, 16, 32, 48] m
      else do { q \<leftarrow> scan16 s 0 False UINTPTR_MAX m; Some (length_to q s) })"

partial_function (option) strlen32_loop :: "nat \<Rightarrow> nat \<Rightarrow> mem \<Rightarrow> nat option" where
  "strlen32_loop s p m = do {
     xs \<leftarrow> ldas 32 p [0, 32, 64, 96] m;
     if some_bit (STOP (MINv (MINv (xs ! 0) (xs ! 1)) (MINv (xs ! 2) (xs ! 3))))
     then Some (p - s +
       (if some_bit (STOP (xs ! 0)) then at_bit (STOP (xs ! 0))
        else if some_bit (STOP (xs ! 1)) then 32 + at_bit (STOP (xs ! 1))
        else if some_bit (STOP (xs ! 2)) then 64 + at_bit (STOP (xs ! 2))
        else 96 + at_bit (STOP (xs ! 3))))
     else strlen32_loop s (p + 128) m }"

definition strlen32 :: "nat \<Rightarrow> mem \<Rightarrow> nat option" where
  "strlen32 s m =
     (if 128 \<le> TO_PAGE_END s then do {
        a \<leftarrow> ld 32 s m;
        if some_bit (STOP a) then Some (at_bit (STOP a))
        else do {
          xs \<leftarrow> lds 32 s [32, 64, 96] m;
          if some_bit (STOP (MINv (xs ! 0) (MINv (xs ! 1) (xs ! 2)))) then
            Some (if some_bit (STOP (xs ! 0)) then 32 + at_bit (STOP (xs ! 0))
                  else if some_bit (STOP (xs ! 1)) then 64 + at_bit (STOP (xs ! 1))
                  else 96 + at_bit (STOP (xs ! 2)))
          else strlen32_loop s (s + 128 - (s + 128) mod 128) m } }
      else do { q \<leftarrow> scan32 s 0 False UINTPTR_MAX m; Some (length_to q s) })"

section \<open>Masks as statements about memory\<close>

lemma some_bit_iff: "some_bit k \<longleftrightarrow> (\<exists>i < length k. k ! i)"
  by (auto simp: some_bit_def list_ex_length)

lemma at_bit:
  assumes "some_bit k"
  shows "at_bit k < length k" "k ! at_bit k" "i < at_bit k \<Longrightarrow> \<not> k ! i"
proof -
  have "\<exists>x \<in> set k. \<not> Not x" using assms by (auto simp: some_bit_def list_ex_iff)
  then have "takeWhile Not k \<noteq> k" by (metis takeWhile_eq_all_conv)
  then show *: "at_bit k < length k"
    unfolding at_bit_def by (metis length_takeWhile_le le_neq_implies_less takeWhile_eq_take take_all_iff order_refl)
  then show "k ! at_bit k" using nth_length_takeWhile [of Not k] by (simp add: at_bit_def)
  show "i < at_bit k \<Longrightarrow> \<not> k ! i"
    unfolding at_bit_def by (metis nth_mem set_takeWhileD takeWhile_nth)
qed

definition stops :: "mem \<Rightarrow> byte \<Rightarrow> bool \<Rightarrow> nat \<Rightarrow> bool" where
  "stops m c nul a \<longleftrightarrow> (case m a of None \<Rightarrow> False | Some b \<Rightarrow> b = c \<or> nul \<and> b = 0)"

text \<open>A mask of \<open>w\<close> bytes at \<open>p\<close>.\<close>

definition lanes :: "mem \<Rightarrow> byte \<Rightarrow> bool \<Rightarrow> nat \<Rightarrow> nat \<Rightarrow> bool list \<Rightarrow> bool" where
  "lanes m c nul p w k \<longleftrightarrow> length k = w \<and> (\<forall>i < w. k ! i \<longleftrightarrow> stops m c nul (p + i))"

lemma mask_EQ:
  assumes "length a = length b"
  shows "length (maskv (EQv a b)) = length a"
    "i < length a \<Longrightarrow> maskv (EQv a b) ! i \<longleftrightarrow> a ! i = b ! i"
  using assms by (simp_all add: maskv_def EQv_def)

lemma length_tvec [simp]: "length (tvec c nul x) = length x"
  by (simp add: tvec_def Let_def MINv_def splat_def)

lemma xor_eq_0 [simp]: "(x :: byte) XOR y = 0 \<longleftrightarrow> x = y"
  by (auto simp: bit_eq_iff bit_xor_iff)

lemma tvec_zero: "i < length x \<Longrightarrow> tvec c nul x ! i = 0 \<longleftrightarrow> x ! i = c \<or> nul \<and> x ! i = 0"
  by (auto simp: tvec_def Let_def MINv_def splat_def min_def)

lemma STOP_nth: "length (STOP t) = length t" "i < length t \<Longrightarrow> STOP t ! i \<longleftrightarrow> t ! i = 0"
  by (simp_all add: STOP_def mask_EQ splat_def)

lemma MINv_zero:
  "length a = length b \<Longrightarrow> i < length a \<Longrightarrow> MINv a b ! i = 0 \<longleftrightarrow> a ! i = 0 \<or> b ! i = 0"
  "length a = length b \<Longrightarrow> length (MINv a b) = length a"
  by (auto simp: MINv_def min_def)

lemma some_STOP_MIN:
  assumes "length a = length b"
  shows "some_bit (STOP (MINv a b)) \<longleftrightarrow> some_bit (STOP a) \<or> some_bit (STOP b)"
  using assms by (auto simp: some_bit_iff STOP_nth MINv_zero)

lemma lanes_STOP:
  assumes "mapped m p w"
  shows "lanes m c nul p w (STOP (tvec c nul (bytes m p w)))"
proof -
  have "stops m c nul (p + i) \<longleftrightarrow> the (m (p + i)) = c \<or> nul \<and> the (m (p + i)) = 0" if "i < w" for i
    using mappedD [OF assms, of "p + i"] that by (cases "m (p + i)") (simp_all add: stops_def)
  then show ?thesis by (simp add: lanes_def STOP_nth tvec_zero)
qed

section \<open>Where the byte is\<close>

definition hit :: "mem \<Rightarrow> byte \<Rightarrow> bool \<Rightarrow> nat \<Rightarrow> nat \<Rightarrow> nat option \<Rightarrow> bool" where
  "hit m c nul p fin r \<longleftrightarrow>
     (case r of
        None \<Rightarrow> \<forall>a. p \<le> a \<and> a < fin \<longrightarrow> m a \<noteq> None \<and> \<not> stops m c nul a
      | Some q \<Rightarrow> p \<le> q \<and> q < fin \<and> stops m c nul q
          \<and> (\<forall>a. p \<le> a \<and> a < q \<longrightarrow> m a \<noteq> None \<and> \<not> stops m c nul a))"

text \<open>Memory comes in pages, and the last page of the address space is nobody's.\<close>

definition paged :: "mem \<Rightarrow> bool" where
  "paged m \<longleftrightarrow> (\<forall>a b. m a \<noteq> None \<and> a div OKM_PAGE_MIN = b div OKM_PAGE_MIN \<longrightarrow> m b \<noteq> None)
     \<and> (\<forall>a. UINTPTR_MAX - OKM_PAGE_MIN < a \<longrightarrow> m a = None)"

lemma hit_mapped: "hit m c nul p fin r \<Longrightarrow> p < fin \<Longrightarrow> m p \<noteq> None"
  by (cases r) (auto simp: hit_def stops_def nat_less_le split: option.splits)

lemma hit_beyond: "hit m c nul p fin r \<Longrightarrow> fin \<le> p \<Longrightarrow> r = None"
  by (cases r) (auto simp: hit_def)

lemma lanes_found:
  assumes l: "lanes m c nul p w k" and k: "some_bit k" and h: "hit m c nul p fin r"
  shows "FOUND p k fin = r"
proof -
  let ?i = "at_bit k"
  have i: "?i < w" "stops m c nul (p + ?i)" "\<And>j. j < ?i \<Longrightarrow> \<not> stops m c nul (p + j)"
    using at_bit [OF k] l by (auto simp: lanes_def)
  show ?thesis
  proof (cases r)
    case None
    then have "\<not> p + ?i < fin" using h i(2) by (auto simp: hit_def)
    with None show ?thesis by (simp add: FOUND_def Let_def)
  next
    case (Some q)
    then have q: "p \<le> q" "q < fin" "stops m c nul q" "\<And>a. p \<le> a \<Longrightarrow> a < q \<Longrightarrow> \<not> stops m c nul a"
      using h by (auto simp: hit_def)
    have "\<not> q < p + ?i"
    proof
      assume "q < p + ?i"
      then have "\<not> stops m c nul (p + (q - p))" using q(1) by (intro i(3)) linarith
      then show False using q(1,3) by simp
    qed
    moreover have "\<not> p + ?i < q" using q(4) [of "p + ?i"] i(2) by auto
    ultimately show ?thesis using Some q(2) by (simp add: FOUND_def Let_def)
  qed
qed

lemma hit_next:
  assumes l: "lanes m c nul p w k" and k: "\<not> some_bit k" and h: "hit m c nul p fin r"
  shows "hit m c nul (p + w) fin r"
proof -
  have n: "\<not> stops m c nul a" if "p \<le> a" "a < p + w" for a
    using that l k le_Suc_ex [of p a] by (auto simp: lanes_def some_bit_iff)
  show ?thesis
  proof (cases r)
    case (Some q)
    then have "p + w \<le> q" using n [of q] h by (auto simp: hit_def not_le)
    with Some h show ?thesis by (auto simp: hit_def)
  qed (use h in \<open>auto simp: hit_def\<close>)
qed

lemma page_vector:
  assumes "paged m" "m a \<noteq> None" "p \<le> a" "a < p + w" "p mod w = 0" "w dvd OKM_PAGE_MIN"
  shows "mapped m p w"
proof -
  have same: "x div OKM_PAGE_MIN = p div OKM_PAGE_MIN" if x: "p \<le> x" "x < p + w" for x
  proof -
    obtain j where j: "p = w * j" using assms(5) by (auto simp: mod_eq_0_iff_dvd)
    obtain l where l: "OKM_PAGE_MIN = w * l" using assms(6) by (auto simp: dvd_def)
    have w: "0 < w" using x by simp
    then have "x div w = j" using x j by (intro div_nat_eqI) (auto simp: algebra_simps)
    moreover have "p div w = j" using j w by simp
    moreover have "x div OKM_PAGE_MIN = x div w div l" "p div OKM_PAGE_MIN = p div w div l"
      by (simp_all add: l div_mult2_eq)
    ultimately show ?thesis by simp
  qed
  then have "a div OKM_PAGE_MIN = x div OKM_PAGE_MIN" if "p \<le> x" "x < p + w" for x
    using same [OF that] same [OF assms(3,4)] by simp
  then show ?thesis unfolding mapped_def using assms(1,2) unfolding paged_def by blast
qed

text \<open>The widths the code has.\<close>

definition vector_width :: "nat \<Rightarrow> bool" where
  "vector_width w \<longleftrightarrow> w = 16 \<or> w = 32"

lemma width_facts:
  assumes "vector_width w"
  shows "0 < w" "w dvd OKM_PAGE_MIN" "4 * w dvd OKM_PAGE_MIN"
  using assms by (auto simp: vector_width_def)

subsection \<open>Blocks of four\<close>

definition block_lanes :: "nat \<Rightarrow> mem \<Rightarrow> nat \<Rightarrow> byte list list" where
  "block_lanes w m p = map (\<lambda>k. bytes m (p + k) w) (four w)"

lemma ldas_block:
  assumes "mapped m p (4 * w)" "p mod w = 0"
  shows "ldas w p (four w) m = Some (block_lanes w m p)"
  unfolding block_lanes_def
proof (rule ldas_mapped)
  fix k assume k: "k \<in> set (four w)"
  then show "mapped m (p + k) w \<and> (p + k) mod w = 0"
    using four_aligned [OF assms(2) k] by (auto intro!: mapped_sub [OF assms(1)])
qed

lemma block_scan:
  assumes m: "mapped m p (4 * w)" and h: "hit m c nul p fin r"
    and ts: "ts = map (tvec c nul) (block_lanes w m p)"
  shows "if some_bit (STOP (MINv (MINv (ts ! 0) (ts ! 1)) (MINv (ts ! 2) (ts ! 3))))
    then block_found w p ts fin = r else hit m c nul (p + 4 * w) fin r"
proof -
  have len: "length (ts ! i) = w" if "i < 4" for i
    using that by (auto simp: ts block_lanes_def less_Suc_eq numeral_eq_Suc)
  have t: "ts ! 0 = tvec c nul (bytes m p w)" "ts ! 1 = tvec c nul (bytes m (p + w) w)"
    "ts ! 2 = tvec c nul (bytes m (p + 2 * w) w)" "ts ! 3 = tvec c nul (bytes m (p + 3 * w) w)"
    by (simp_all add: ts block_lanes_def)
  have l: "lanes m c nul p w (STOP (ts ! 0))" "lanes m c nul (p + w) w (STOP (ts ! 1))"
    "lanes m c nul (p + 2 * w) w (STOP (ts ! 2))" "lanes m c nul (p + 3 * w) w (STOP (ts ! 3))"
    unfolding t by (intro lanes_STOP mapped_sub [OF m]; simp)+
  have any: "some_bit (STOP (MINv (MINv (ts ! 0) (ts ! 1)) (MINv (ts ! 2) (ts ! 3)))) \<longleftrightarrow>
      some_bit (STOP (ts ! 0)) \<or> some_bit (STOP (ts ! 1)) \<or> some_bit (STOP (ts ! 2)) \<or> some_bit (STOP (ts ! 3))"
    by (simp add: some_STOP_MIN MINv_zero len)
  show ?thesis
  proof (cases "some_bit (STOP (ts ! 0))")
    case True
    then show ?thesis using any lanes_found [OF l(1) _ h] by (simp add: block_found_def)
  next
    case s0: False
    have h1: "hit m c nul (p + w) fin r" by (rule hit_next [OF l(1) s0 h])
    show ?thesis
    proof (cases "some_bit (STOP (ts ! 1))")
      case True
      then show ?thesis using any s0 lanes_found [OF l(2) _ h1] by (simp add: block_found_def)
    next
      case s1: False
      have h2: "hit m c nul (p + 2 * w) fin r" using hit_next [OF l(2) s1 h1] by (simp add: mult_2 add.assoc)
      show ?thesis
      proof (cases "some_bit (STOP (ts ! 2))")
        case True
        then show ?thesis using any s0 s1 lanes_found [OF l(3) _ h2] by (simp add: block_found_def)
      next
        case s2: False
        have h3: "hit m c nul (p + 3 * w) fin r" using hit_next [OF l(3) s2 h2] by (simp add: algebra_simps)
        show ?thesis
        proof (cases "some_bit (STOP (ts ! 3))")
          case True
          then show ?thesis using any s0 s1 s2 lanes_found [OF l(4) _ h3] by (simp add: block_found_def)
        next
          case s3: False
          have "hit m c nul (p + 4 * w) fin r" using hit_next [OF l(4) s3 h3] by (simp add: algebra_simps)
          then show ?thesis using any s0 s1 s2 s3 by simp
        qed
      qed
    qed
  qed
qed

subsection \<open>The scan finds\<close>

lemma scan_blocks_ok:
  assumes "paged m" "vector_width w"
  shows "\<lbrakk>hit m c nul p fin r; p mod (4 * w) = 0\<rbrakk> \<Longrightarrow> scan_blocks w p c nul fin m = Some r"
proof (induction "fin - p" arbitrary: p rule: less_induct)
  case less
  note w = width_facts [OF assms(2)]
  show ?case
  proof (cases "p < fin")
    case False
    then show ?thesis using hit_beyond [OF less.prems(1)] by (subst scan_blocks.simps) simp
  next
    case True
    have "mapped m p (4 * w)"
      by (rule page_vector [OF assms(1) hit_mapped [OF less.prems(1) True] _ _ less.prems(2) w(3)]) (use w(1) in auto)
    moreover have "p mod w = 0" using less.prems(2) by (metis dvd_triv_right mod_0_imp_dvd dvd_trans mod_eq_0_iff_dvd)
    ultimately have ld: "ldas w p (four w) m = Some (block_lanes w m p)" and m: "mapped m p (4 * w)"
      by (simp_all only: ldas_block)
    let ?ts = "map (tvec c nul) (block_lanes w m p)"
    have rec: "scan_blocks w (p + 4 * w) c nul fin m = Some r" if "hit m c nul (p + 4 * w) fin r"
      by (rule less.hyps [OF _ that]) (use True w(1) less.prems(2) in auto)
    from block_scan [OF m less.prems(1) refl] rec show ?thesis
      using True w(1) by (subst scan_blocks.simps) (simp only: ld Let_def if_True simp_thms Option.bind.bind_lunit split: if_splits)
  qed
qed

lemma scan_align_ok:
  assumes "paged m" "vector_width w"
  shows "\<lbrakk>hit m c nul p fin r; p mod w = 0\<rbrakk> \<Longrightarrow> scan_align w p c nul fin m = Some r"
proof (induction "fin - p" arbitrary: p rule: less_induct)
  case less
  note w = width_facts [OF assms(2)]
  consider "p mod (4 * w) = 0" | "p mod (4 * w) \<noteq> 0" "fin \<le> p" | "p mod (4 * w) \<noteq> 0" "p < fin" by linarith
  then show ?case
  proof cases
    case 1
    then show ?thesis using scan_blocks_ok [OF assms less.prems(1)] by (subst scan_align.simps) simp
  next
    case 2
    then show ?thesis using hit_beyond [OF less.prems(1)] w(1) by (subst scan_align.simps) simp
  next
    case 3
    have m: "mapped m p w"
      by (rule page_vector [OF assms(1) hit_mapped [OF less.prems(1) 3(2)] _ _ less.prems(2) w(2)]) (use w(1) in auto)
    have l: "lanes m c nul p w (STOP (tvec c nul (bytes m p w)))" by (rule lanes_STOP [OF m])
    have "scan_align w (p + w) c nul fin m = Some r" if "hit m c nul (p + w) fin r"
      by (rule less.hyps [OF _ that]) (use 3 w(1) less.prems(2) in auto)
    then show ?thesis
      using 3 w(1) lanes_found [OF l _ less.prems(1)] hit_next [OF l _ less.prems(1)] lda_mapped [OF m less.prems(2)]
      by (subst scan_align.simps) (simp add: Let_def)
  qed
qed

lemma scan_ok:
  assumes "paged m" "vector_width w" "hit m c nul s fin r" "s < fin"
  shows "scan w s c nul fin m = Some r"
proof -
  note w = width_facts [OF assms(2)]
  let ?off = "s mod w"
  let ?p = "s - ?off" and ?k = "drop ?off (STOP (tvec c nul (bytes m (s - ?off) w)))"
  have off: "?off < w" "?off \<le> s" "?p mod w = 0" "?p + ?off = s"
    using w(1) by (simp_all add: minus_mod_eq_div_mult)
  have m: "mapped m ?p w"
    by (rule page_vector [OF assms(1) hit_mapped [OF assms(3,4)] _ _ off(3) w(2)]) (use off in linarith)+
  have "lanes m c nul ?p w (STOP (tvec c nul (bytes m ?p w)))" by (rule lanes_STOP [OF m])
  then have l: "lanes m c nul s (w - ?off) ?k"
    using off(1,2) by (simp add: lanes_def add.assoc)
  have "s + (w - ?off) = ?p + w" using off by linarith
  then have n: "\<not> some_bit ?k \<Longrightarrow> hit m c nul (?p + w) fin r" using hit_next [OF l _ assms(3)] by simp
  have "scan_align w (?p + w) c nul fin m = Some r" if "\<not> some_bit ?k"
    by (rule scan_align_ok [OF assms(1,2) n [OF that]]) (simp only: mod_add_self2 off(3))
  then show ?thesis
    unfolding scan_def Let_def using lanes_found [OF l _ assms(3)] by (simp add: lda_mapped [OF m off(3)])
qed

section \<open>The first vectors\<close>

lemma page_head:
  assumes "paged m" "m s \<noteq> None" "n \<le> TO_PAGE_END s"
  shows "mapped m s n"
  unfolding mapped_def
proof (intro allI impI)
  fix a assume a: "s \<le> a \<and> a < s + n"
  have "s = OKM_PAGE_MIN * (s div OKM_PAGE_MIN) + s mod OKM_PAGE_MIN" "s mod OKM_PAGE_MIN < OKM_PAGE_MIN" by simp_all
  then have "OKM_PAGE_MIN * (s div OKM_PAGE_MIN) \<le> a" "a < OKM_PAGE_MIN * (s div OKM_PAGE_MIN) + OKM_PAGE_MIN"
    using a assms(3) unfolding TO_PAGE_END_def by linarith+
  then have "a div OKM_PAGE_MIN = s div OKM_PAGE_MIN" by (intro div_nat_eqI) simp_all
  then show "m a \<noteq> None" using assms(1,2) by (auto simp: paged_def)
qed

lemma lanes_EQ:
  assumes "mapped m p w"
  shows "lanes m c False p w (maskv (EQv (bytes m p w) (splat w c)))"
proof -
  have "stops m c False (p + i) \<longleftrightarrow> the (m (p + i)) = c" if "i < w" for i
    using mappedD [OF assms, of "p + i"] that by (cases "m (p + i)") (simp_all add: stops_def)
  then show ?thesis by (simp add: lanes_def mask_EQ splat_def)
qed

lemma lanes_EQ2:
  assumes "mapped m p w"
  shows "lanes m c True p w (maskv (map2 (OR) (EQv (bytes m p w) (splat w c)) (EQv (bytes m p w) (splat w 0))))"
proof -
  have "stops m c True (p + i) \<longleftrightarrow> the (m (p + i)) = c \<or> the (m (p + i)) = 0" if "i < w" for i
    using mappedD [OF assms, of "p + i"] that by (cases "m (p + i)") (auto simp: stops_def)
  then show ?thesis by (auto simp: lanes_def maskv_def EQv_def splat_def bit_or_iff)
qed

lemma lanes_at:
  assumes "lanes m c nul p w k" "some_bit k" "hit m c nul p fin (Some q)"
  shows "p + at_bit k = q"
  using lanes_found [OF assms] by (auto simp: FOUND_def Let_def split: if_splits)

lemma memchr_step:
  assumes m: "mapped m (s + k) w" and h: "hit m c False (s + k) fin r" and fin: "fin \<le> s + n"
    and rest: "\<lbrakk>hit m c False (s + (k + w)) fin r; k + w < n\<rbrakk> \<Longrightarrow> memchr_loop w s c n fin ks m = Some r"
  shows "memchr_loop w s c n fin (k # ks) m = Some r"
proof -
  note l = lanes_EQ [OF m, of c]
  have "hit m c False (s + (k + w)) fin r" if "\<not> some_bit (maskv (EQv (bytes m (s + k) w) (splat w c)))"
    using hit_next [OF l that h] by (simp add: add.assoc)
  then show ?thesis using lanes_found [OF l _ h] rest hit_beyond [of m c False "s + (k + w)" fin r] fin
    by (auto simp: ld_mapped [OF m] Let_def)
qed

lemma memchr_vec_ok:
  assumes p: "paged m" "vector_width w" and s: "s < UINTPTR_MAX"
    and h: "hit m c False s (min (s + n) UINTPTR_MAX) r"
  shows "memchr_vec w s c n m = Some r"
proof (cases "n = 0")
  case True
  then have "r = None" using hit_beyond [OF h] by simp
  with True show ?thesis by (simp add: memchr_vec_def)
next
  case False
  let ?fin = "min (s + n) UINTPTR_MAX"
  have fin: "(if UINTPTR_MAX - s < n then UINTPTR_MAX else s + n) = ?fin" using s by auto
  have sf: "s < ?fin" using False s by simp
  have ms: "m s \<noteq> None" by (rule hit_mapped [OF h sf])
  show ?thesis
  proof (cases "4 * w \<le> TO_PAGE_END s")
    case False
    then show ?thesis using \<open>n \<noteq> 0\<close> scan_ok [OF p h sf] by (simp add: memchr_vec_def fin)
  next
    case True
    have mm: "mapped m s (4 * w)" by (rule page_head [OF p(1) ms True])
    have last: "memchr_loop w s c n ?fin [] m = Some r" if "hit m c False (s + 4 * w) ?fin r" "4 * w < n"
    proof -
      have "s \<le> UINTPTR_MAX - OKM_PAGE_MIN" using p(1) ms by (auto simp: paged_def not_less)
      then have "s + 4 * w < ?fin" using that(2) p(2) by (auto simp: vector_width_def)
      then show ?thesis using scan_ok [OF p that(1)] by simp
    qed
    have "memchr_loop w s c n ?fin (four w) m = Some r"
      by (rule memchr_step [OF mapped_sub [OF mm]], simp, simp, use h in simp, simp,
          rule memchr_step [OF mapped_sub [OF mm]], simp, simp, simp, simp,
          rule memchr_step [OF mapped_sub [OF mm]], simp, simp, simp add: mult_2, simp,
          rule memchr_step [OF mapped_sub [OF mm]], simp, simp, simp add: algebra_simps, simp,
          rule last) (simp_all add: algebra_simps)
    then show ?thesis using True \<open>n \<noteq> 0\<close> by (simp only: memchr_vec_def fin Let_def if_True if_False)
  qed
qed

lemma strchr_step:
  assumes m: "mapped m (s + k) w" and h: "hit m c True (s + k) UINTPTR_MAX (Some q)"
    and rest: "hit m c True (s + (k + w)) UINTPTR_MAX (Some q) \<Longrightarrow> strchr_loop w s c ks m = Some (Some q)"
  shows "strchr_loop w s c (k # ks) m = Some (Some q)"
proof -
  let ?b = "maskv (map2 (OR) (EQv (bytes m (s + k) w) (splat w c)) (EQv (bytes m (s + k) w) (splat w 0)))"
  note l = lanes_EQ2 [OF m, of c]
  have "hit m c True (s + (k + w)) UINTPTR_MAX (Some q)" if "\<not> some_bit ?b"
    using hit_next [OF l that h] by (simp add: add.assoc)
  then show ?thesis using lanes_at [OF l _ h] rest by (simp add: ld_mapped [OF m] Let_def)
qed

lemma strlen16_step:
  assumes m: "mapped m (s + k) 16" and h: "hit m 0 False (s + k) UINTPTR_MAX (Some q)"
    and rest: "hit m 0 False (s + (k + 16)) UINTPTR_MAX (Some q) \<Longrightarrow> strlen16_loop s ks m = Some (q - s)"
  shows "strlen16_loop s (k # ks) m = Some (q - s)"
proof -
  let ?b = "maskv (EQv (bytes m (s + k) 16) (splat 16 0))"
  note l = lanes_EQ [OF m, of 0]
  have "hit m 0 False (s + (k + 16)) UINTPTR_MAX (Some q)" if "\<not> some_bit ?b"
    using hit_next [OF l that h] by (simp add: add.assoc)
  moreover have "k + at_bit ?b = q - s" if "some_bit ?b" using lanes_at [OF l that h] by simp
  ultimately show ?thesis using rest by (simp add: ld_mapped [OF m] Let_def)
qed

lemma hit_some:
  assumes "hit m c nul s fin (Some q)"
  shows "s < fin" "s \<le> q" "m s \<noteq> None" "m q \<noteq> None"
  using assms hit_mapped [OF assms] by (auto simp: hit_def stops_def split: option.splits)

lemma scan_after_head:
  assumes p: "paged m" "vector_width w" and h: "hit m c nul (s + 4 * w) UINTPTR_MAX (Some q)"
  shows "scan w (s + 4 * w) c nul UINTPTR_MAX m = Some (Some q)"
  by (rule scan_ok [OF p h hit_some(1) [OF h]])

lemma strchr_vec_ok:
  assumes p: "paged m" "vector_width w" and h: "hit m c True s UINTPTR_MAX (Some q)"
  shows "strchr_vec w s c m = Some (if m q = Some c then Some q else None)"
proof -
  note s = hit_some [OF h]
  have "(if 4 * w \<le> TO_PAGE_END s then strchr_loop w s c (four w) m else scan w s c True UINTPTR_MAX m) = Some (Some q)"
  proof (cases "4 * w \<le> TO_PAGE_END s")
    case True
    have mm: "mapped m s (4 * w)" by (rule page_head [OF p(1) s(3) True])
    have "strchr_loop w s c (four w) m = Some (Some q)"
      by (rule strchr_step [OF mapped_sub [OF mm]], simp, simp, use h in simp,
          rule strchr_step [OF mapped_sub [OF mm]], simp, simp, simp,
          rule strchr_step [OF mapped_sub [OF mm]], simp, simp, simp add: mult_2,
          rule strchr_step [OF mapped_sub [OF mm]], simp, simp, simp add: algebra_simps)
         (use scan_after_head [OF p, of c True s q] in \<open>simp add: algebra_simps\<close>)
    then show ?thesis using True by (simp only: if_True)
  qed (simp add: scan_ok [OF p h s(1)])
  moreover have "ld 1 q m = Some [the (m q)]"
  proof -
    have "mapped m q 1" unfolding mapped_def using s(4) by (metis add.commute le_antisym less_Suc_eq_le plus_1_eq_Suc)
    from ld_mapped [OF this] show ?thesis by (simp add: bytes_def)
  qed
  ultimately show ?thesis using s(4) by (auto simp: strchr_vec_def)
qed

lemma length_to_hit: "s \<le> q \<Longrightarrow> length_to (Some q) s = q - s"
  by (simp add: length_to_def ptr_diff_def)

lemma strlen16_ok:
  assumes p: "paged m" and h: "hit m 0 False s UINTPTR_MAX (Some q)"
  shows "strlen16 s m = Some (q - s)"
proof -
  note s = hit_some [OF h]
  have w: "vector_width 16" by (simp add: vector_width_def)
  show ?thesis
  proof (cases "64 \<le> TO_PAGE_END s")
    case True
    have mm: "mapped m s 64" by (rule page_head [OF p s(3) True])
    have "strlen16_loop s [0, 16, 32, 48] m = Some (q - s)"
      by (rule strlen16_step [OF mapped_sub [OF mm]], simp, simp, use h in simp,
          rule strlen16_step [OF mapped_sub [OF mm]], simp, simp, simp,
          rule strlen16_step [OF mapped_sub [OF mm]], simp, simp, simp,
          rule strlen16_step [OF mapped_sub [OF mm]], simp, simp, simp)
         (use scan_after_head [OF p w, of 0 False s q] s(2) in \<open>simp add: scan16_def length_to_hit\<close>)
    then show ?thesis using True by (simp add: strlen16_def del: strlen16_loop.simps)
  next
    case False
    then show ?thesis using scan_ok [OF p w h s(1)] s(2) by (simp add: strlen16_def scan16_def length_to_hit)
  qed
qed

lemma tvec_0 [simp]: "tvec 0 False x = x"
  by (rule nth_equalityI) (simp_all add: tvec_def Let_def splat_def)

lemma hit_within: "hit m c nul s fin (Some q) \<Longrightarrow> s \<le> p \<Longrightarrow> p \<le> q \<Longrightarrow> hit m c nul p fin (Some q)"
  by (auto simp: hit_def)

lemma found_at: "FOUND p k fin = Some q \<Longrightarrow> p + at_bit k = q"
  by (auto simp: FOUND_def Let_def split: if_splits)

lemma strlen32_loop_ok:
  assumes p: "paged m"
  shows "\<lbrakk>hit m 0 False a UINTPTR_MAX (Some q); a mod 128 = 0; s \<le> a\<rbrakk> \<Longrightarrow> strlen32_loop s a m = Some (q - s)"
proof (induction "q - a" arbitrary: a rule: less_induct)
  case less
  note h = hit_some [OF less.prems(1)]
  have m: "mapped m a (4 * 32)"
    by (rule page_vector [OF p h(3) _ _ _ ]) (use less.prems(2) in auto)
  let ?xs = "block_lanes 32 m a"
  have "a mod 32 = 0" using less.prems(2) by presburger
  from ldas_block [OF m this] have ld: "ldas 32 a [0, 32, 64, 96] m = Some ?xs" by simp
  have "map (tvec 0 False) ?xs = ?xs" by (simp add: map_idI)
  then have b: "if some_bit (STOP (MINv (MINv (?xs ! 0) (?xs ! 1)) (MINv (?xs ! 2) (?xs ! 3))))
      then block_found 32 a ?xs UINTPTR_MAX = Some q else hit m 0 False (a + 4 * 32) UINTPTR_MAX (Some q)"
    using block_scan [OF m less.prems(1) refl] by (simp only:)
  have rec: "strlen32_loop s (a + 128) m = Some (q - s)" if hn: "hit m 0 False (a + 128) UINTPTR_MAX (Some q)"
    by (rule less.hyps [OF _ hn]) (use hit_some(2) [OF hn] less.prems in auto)
  have val: "a - s + (if some_bit (STOP (?xs ! 0)) then at_bit (STOP (?xs ! 0))
        else if some_bit (STOP (?xs ! 1)) then 32 + at_bit (STOP (?xs ! 1))
        else if some_bit (STOP (?xs ! 2)) then 64 + at_bit (STOP (?xs ! 2))
        else 96 + at_bit (STOP (?xs ! 3))) = q - s" if "block_found 32 a ?xs UINTPTR_MAX = Some q"
    using that less.prems(3) by (auto simp: block_found_def dest!: found_at split: if_splits)
  show ?case
  proof (cases "some_bit (STOP (MINv (MINv (?xs ! 0) (?xs ! 1)) (MINv (?xs ! 2) (?xs ! 3))))")
    case True
    with b have "block_found 32 a ?xs UINTPTR_MAX = Some q" by (simp only: if_True)
    from val [OF this] True show ?thesis
      by (subst strlen32_loop.simps) (simp only: ld Option.bind.bind_lunit if_True)
  next
    case False
    with b have "hit m 0 False (a + 128) UINTPTR_MAX (Some q)" by simp
    from rec [OF this] False show ?thesis
      by (subst strlen32_loop.simps) (simp only: ld Option.bind.bind_lunit if_False)
  qed
qed

lemma strlen32_ok:
  assumes p: "paged m" and h: "hit m 0 False s UINTPTR_MAX (Some q)"
  shows "strlen32 s m = Some (q - s)"
proof (cases "128 \<le> TO_PAGE_END s")
  case False
  have "vector_width 32" by (simp add: vector_width_def)
  then show ?thesis using False scan_ok [OF p _ h hit_some(1) [OF h]] hit_some(2) [OF h]
    by (simp add: strlen32_def scan32_def length_to_hit)
next
  case True
  have mm: "mapped m s 128" by (rule page_head [OF p hit_some(3) [OF h] True])
  let ?x = "\<lambda>k. bytes m (s + k) 32"
  have mk: "mapped m (s + k) 32" if "k \<le> 96" for k using that by (intro mapped_sub [OF mm]) simp_all
  have l: "lanes m 0 False (s + k) 32 (STOP (?x k))" if "k \<le> 96" for k
    using lanes_STOP [OF mk [OF that], of 0 False] by simp
  have stop: "k + at_bit (STOP (?x k)) = q - s" if "some_bit (STOP (?x k))" "hit m 0 False (s + k) UINTPTR_MAX (Some q)" "k \<le> 96" for k
    using lanes_at [OF l [OF that(3)] that(1,2)] by simp
  have more: "hit m 0 False (s + (k + 32)) UINTPTR_MAX (Some q)" if "\<not> some_bit (STOP (?x k))" "hit m 0 False (s + k) UINTPTR_MAX (Some q)" "k \<le> 96" for k
    using hit_next [OF l [OF that(3)] that(1,2)] by (simp add: add.assoc)
  have ld: "ld 32 s m = Some (?x 0)" "lds 32 s [32, 64, 96] m = Some [?x 32, ?x 64, ?x 96]"
  proof -
    show "ld 32 s m = Some (?x 0)" using ld_mapped [OF mk [of 0]] by simp
    have "lds 32 s [32, 64, 96] m = Some (map ?x [32, 64, 96])" by (rule lds_mapped, rule mk) auto
    then show "lds 32 s [32, 64, 96] m = Some [?x 32, ?x 64, ?x 96]" by simp
  qed
  have any: "some_bit (STOP (MINv (?x 32) (MINv (?x 64) (?x 96)))) \<longleftrightarrow>
      some_bit (STOP (?x 32)) \<or> some_bit (STOP (?x 64)) \<or> some_bit (STOP (?x 96))"
    by (simp add: some_STOP_MIN MINv_zero)
  have far: "strlen32_loop s (s + 128 - (s + 128) mod 128) m = Some (q - s)" if "hit m 0 False (s + 128) UINTPTR_MAX (Some q)"
  proof (rule strlen32_loop_ok [OF p])
    show "hit m 0 False (s + 128 - (s + 128) mod 128) UINTPTR_MAX (Some q)"
      by (rule hit_within [OF h]) (use hit_some(2) [OF that] mod_less_divisor [of 128 "s + 128"] in linarith)+
    show "s \<le> s + 128 - (s + 128) mod 128" using mod_less_divisor [of 128 "s + 128"] by linarith
    show "(s + 128 - (s + 128) mod 128) mod 128 = 0" by (simp only: minus_mod_eq_div_mult mod_mult_self2_is_0)
  qed
  show ?thesis
  proof (cases "some_bit (STOP (?x 0))")
    case True0: True
    then show ?thesis using True ld(1) stop [of 0] h by (simp add: strlen32_def)
  next
    case s0: False
    have h1: "hit m 0 False (s + 32) UINTPTR_MAX (Some q)" using more [of 0] s0 h by simp
    have h2: "\<not> some_bit (STOP (?x 32)) \<Longrightarrow> hit m 0 False (s + 64) UINTPTR_MAX (Some q)" using more [of 32] h1 by simp
    have h3: "\<lbrakk>\<not> some_bit (STOP (?x 32)); \<not> some_bit (STOP (?x 64))\<rbrakk> \<Longrightarrow> hit m 0 False (s + 96) UINTPTR_MAX (Some q)"
      using more [of 64] h2 by simp
    have h4: "\<lbrakk>\<not> some_bit (STOP (?x 32)); \<not> some_bit (STOP (?x 64)); \<not> some_bit (STOP (?x 96))\<rbrakk> \<Longrightarrow> hit m 0 False (s + 128) UINTPTR_MAX (Some q)"
      using more [of 96] h3 by simp
    show ?thesis
      using True s0 any far h1 h2 h3 h4 stop [of 32] stop [of 64] stop [of 96]
      unfolding strlen32_def ld Option.bind.bind_lunit by auto
  qed
qed

section \<open>A word at a time\<close>

subsection \<open>The zero byte of a word\<close>

definition HASZERO :: "64 word \<Rightarrow> 64 word" where
  "HASZERO x = (x - 0x0101010101010101) AND NOT x AND 0x8080808080808080"

text \<open>The same on integers, a byte at a time: a byte that is not zero lends nothing to the one
  above it.\<close>

fun le_int :: "byte list \<Rightarrow> int" where
  "le_int [] = 0"
| "le_int (b # v) = uint b + 256 * le_int v"

fun every :: "int \<Rightarrow> nat \<Rightarrow> int" where
  "every x 0 = 0"
| "every x (Suc n) = x + 256 * every x n"

definition hz :: "byte list \<Rightarrow> int" where
  "hz v = (le_int v - every 1 (length v)) AND NOT (le_int v) AND every 128 (length v)"

lemma bit_byte:
  assumes "0 \<le> p" "p < (256 :: int)"
  shows "bit (p + 256 * q) k \<longleftrightarrow> (if k < 8 then bit p k else bit q (k - 8))"
proof (cases "k < 8")
  case True
  have "take_bit 8 (p + 256 * q) = p" using assms by (simp add: take_bit_eq_mod)
  then have "bit p k \<longleftrightarrow> bit (take_bit 8 (p + 256 * q)) k" by simp
  with True show ?thesis by (simp add: bit_take_bit_iff)
next
  case False
  have "drop_bit 8 (p + 256 * q) = q" using assms by (simp add: drop_bit_eq_div)
  then have "bit q (k - 8) \<longleftrightarrow> bit (drop_bit 8 (p + 256 * q)) (k - 8)" by simp
  with False show ?thesis by (simp add: bit_drop_bit_eq)
qed

lemma bit_128: "bit (128 :: int) k \<longleftrightarrow> k = 7"
  using bit_exp_iff [where 'a = int, of 7 k] by simp

lemma bit7_byte:
  assumes "0 \<le> p" "p < (256 :: int)"
  shows "bit p 7 \<longleftrightarrow> 128 \<le> p"
proof (cases "128 \<le> p")
  case True
  then have "p div 128 = 1" using assms by (intro int_div_pos_eq [of p 128 1 "p - 128"]) auto
  with True show ?thesis by (simp add: bit_iff_odd)
next
  case False
  then have "p div 128 = 0" using assms by simp
  with False show ?thesis by (simp add: bit_iff_odd)
qed

lemma byte_range: "0 \<le> uint (b :: byte)" "uint (b :: byte) < 256"
  using uint_bounded [of b] by simp_all

lemma hz_nonzero:
  assumes "b \<noteq> 0"
  shows "bit (hz (b # v)) k \<longleftrightarrow> 8 \<le> k \<and> bit (hz v) (k - 8)"
proof -
  have "uint b \<noteq> 0" using assms by (simp add: unsigned_eq_0_iff)
  then have b: "1 \<le> uint b" using byte_range(1) [of b] by linarith
  have minus: "le_int (b # v) - every 1 (length (b # v)) = (uint b - 1) + 256 * (le_int v - every 1 (length v))"
    by (simp add: algebra_simps)
  have "\<not> (bit (uint b - 1) 7 \<and> \<not> bit (uint b) 7)"
    using b byte_range(2) [of b] by (simp add: bit7_byte)
  moreover have "bit (le_int (b # v)) k \<longleftrightarrow> (if k < 8 then bit (uint b) k else bit (le_int v) (k - 8))"
    "bit (every 128 (length (b # v))) k \<longleftrightarrow> (if k < 8 then k = 7 else bit (every 128 (length v)) (k - 8))"
    using byte_range [of b] by (simp_all add: bit_byte bit_128)
  moreover have "bit (le_int (b # v) - every 1 (length (b # v))) k \<longleftrightarrow>
      (if k < 8 then bit (uint b - 1) k else bit (le_int v - every 1 (length v)) (k - 8))"
    unfolding minus by (rule bit_byte) (use b byte_range(2) [of b] in auto)
  ultimately show ?thesis
    unfolding hz_def bit_and_iff bit_not_iff by (cases "k < 8") auto
qed

lemma hz_zero: "bit (hz (0 # v)) 7" "k < 7 \<Longrightarrow> \<not> bit (hz (0 # v)) k"
proof -
  have minus: "le_int (0 # v) - every 1 (length ((0 :: byte) # v)) = 255 + 256 * (le_int v - every 1 (length v) - 1)"
    by (simp add: algebra_simps)
  have "bit (every 128 (length ((0 :: byte) # v))) k \<longleftrightarrow> (if k < 8 then k = 7 else bit (every 128 (length v)) (k - 8))" for k
    by (simp add: bit_byte bit_128)
  moreover have "bit (le_int (0 # v) - every 1 (length ((0 :: byte) # v))) 7"
    unfolding minus by (subst bit_byte) (simp_all add: bit7_byte)
  moreover have "\<not> bit (le_int (0 # v)) 7" using bit_byte [of 0 "le_int v" 7] by simp
  ultimately show "bit (hz (0 # v)) 7" "k < 7 \<Longrightarrow> \<not> bit (hz (0 # v)) k"
    unfolding hz_def bit_and_iff bit_not_iff by auto
qed

lemma hz_first:
  assumes "0 \<in> set v"
  defines "j \<equiv> length (takeWhile (\<lambda>b. b \<noteq> 0) v)"
  shows "bit (hz v) (8 * j + 7)" "k < 8 * j + 7 \<Longrightarrow> \<not> bit (hz v) k"
proof -
  have "bit (hz v) (8 * j + 7) \<and> (\<forall>k < 8 * j + 7. \<not> bit (hz v) k)"
    using assms(1) unfolding j_def
  proof (induction v)
    case (Cons b v)
    show ?case
    proof (cases "b = 0")
      case True
      then show ?thesis using hz_zero(1) [of v] hz_zero(2) [of _ v] by simp
    next
      case False
      then show ?thesis using Cons by (auto simp: hz_nonzero add.commute)
    qed
  qed simp
  then show "bit (hz v) (8 * j + 7)" "k < 8 * j + 7 \<Longrightarrow> \<not> bit (hz v) k" by blast+
qed

lemma hz_none: "0 \<notin> set v \<Longrightarrow> \<not> bit (hz v) k"
proof (induction v arbitrary: k)
  case Nil
  then show ?case by (simp add: hz_def)
next
  case (Cons b v)
  then show ?case by (simp add: hz_nonzero)
qed

lemma le_word_int: "le_word v = of_int (le_int v)"
proof (induction v)
  case (Cons b v)
  have "(ucast b :: 64 word) OR push_bit 8 (le_word v) = ucast b + push_bit 8 (le_word v)"
  proof (rule disjunctive_add [symmetric])
    fix n
    show "\<not> bit (ucast b :: 64 word) n \<or> \<not> bit (push_bit 8 (le_word v)) n"
      using bit_imp_le_length [of b n] by (auto simp: bit_unsigned_iff bit_push_bit_iff)
  qed
  then show ?case using Cons by (simp add: push_bit_eq_mult mult.commute)
qed simp

lemma HASZERO_int:
  assumes "length v = 8"
  shows "HASZERO (le_word v) = of_int (hz v)"
proof -
  have "every 1 8 = 0x0101010101010101" "every 128 8 = 0x8080808080808080" by (simp_all add: numeral_eq_Suc)
  then show ?thesis using assms
    by (simp add: HASZERO_def le_word_int hz_def of_int_and_eq of_int_not_eq)
qed

text \<open>The zero byte of a word is found by the first bit of \<open>HASZERO\<close>.\<close>

lemma HASZERO_ok:
  assumes "length v = 8"
  shows "HASZERO (le_word v) \<noteq> 0 \<longleftrightarrow> 0 \<in> set v"
    and "0 \<in> set v \<Longrightarrow> ctz (HASZERO (le_word v)) div 8 = length (takeWhile (\<lambda>b. b \<noteq> 0) v)"
proof -
  let ?j = "length (takeWhile (\<lambda>b. b \<noteq> 0) v)" and ?h = "HASZERO (le_word v)"
  have bit: "bit ?h k \<longleftrightarrow> k < 64 \<and> bit (hz v) k" for k
    by (simp add: HASZERO_int [OF assms] bit_of_int_iff)
  have j: "?j < 8" if "0 \<in> set v"
    using that assms by (metis (mono_tags) length_takeWhile_le le_neq_implies_less takeWhile_eq_all_conv take_all_iff takeWhile_eq_take order_refl)
  have set: "bit ?h (8 * ?j + 7)" if "0 \<in> set v" using hz_first(1) [OF that] j [OF that] by (simp add: bit)
  have none: "?h = 0" if "0 \<notin> set v" using hz_none [OF that] by (auto simp: bit_eq_iff bit)
  show "?h \<noteq> 0 \<longleftrightarrow> 0 \<in> set v" using set none by force
  assume z: "0 \<in> set v"
  let ?m = "map (bit ?h) [0..<64]"
  have some: "some_bit ?m" using set [OF z] j [OF z] by (auto simp: some_bit_iff intro!: exI [of _ "8 * ?j + 7"])
  have "at_bit ?m = 8 * ?j + 7"
  proof (rule antisym)
    show "at_bit ?m \<le> 8 * ?j + 7"
    proof (rule ccontr)
      assume "\<not> at_bit ?m \<le> 8 * ?j + 7"
      then show False using at_bit(3) [OF some, of "8 * ?j + 7"] set [OF z] j [OF z] by simp
    qed
    show "8 * ?j + 7 \<le> at_bit ?m" using at_bit(1,2) [OF some] hz_first(2) [OF z, of "at_bit ?m"] by (auto simp: bit not_less [symmetric])
  qed
  then show "ctz ?h div 8 = ?j" by (simp add: ctz_def)
qed

subsection \<open>The functions\<close>

fun memchr_word :: "nat \<Rightarrow> byte \<Rightarrow> nat \<Rightarrow> mem \<Rightarrow> nat option option" where
  "memchr_word s c 0 m = Some None"
| "memchr_word s c (Suc n) m = do {
     v \<leftarrow> ld 1 s m;
     if v = [c] then Some (Some s) else memchr_word (s + 1) c n m }"

partial_function (option) strchr_word :: "nat \<Rightarrow> byte \<Rightarrow> mem \<Rightarrow> nat option option" where
  "strchr_word s c m = do {
     v \<leftarrow> ld 1 s m;
     if v = [c] then Some (Some s)
     else if v = [0] then Some None
     else strchr_word (s + 1) c m }"

partial_function (option) strlen_words :: "nat \<Rightarrow> nat \<Rightarrow> 64 word \<Rightarrow> mem \<Rightarrow> nat option" where
  "strlen_words s w x m =
     (if HASZERO x \<noteq> 0 then Some (w + ctz (HASZERO x) div 8 - s)
      else do { v \<leftarrow> lda 8 (w + 8) m; strlen_words s (w + 8) (le_word v) m })"

text \<open>The bytes before the string are made non-zero.\<close>

definition strlen_word :: "nat \<Rightarrow> mem \<Rightarrow> nat option" where
  "strlen_word s m =
     (let off = s mod 8; w = s - off in do {
        v \<leftarrow> lda 8 w m;
        strlen_words s w (le_word v OR (if off \<noteq> 0 then push_bit (8 * off) 1 - 1 else 0)) m })"

lemma ld_one [simp]: "m a = Some b \<Longrightarrow> ld (Suc 0) a m = Some [b]"
  by (auto simp: ld_def)

lemma memchr_word_ok:
  "hit m c False s (s + n) r \<Longrightarrow> memchr_word s c n m = Some r"
proof (induction n arbitrary: s)
  case 0
  then show ?case using hit_beyond [OF 0] by simp
next
  case (Suc n)
  obtain b where ms: "m s = Some b" using hit_mapped [OF Suc.prems] by auto
  show ?case
  proof (cases "b = c")
    case True
    then have "stops m c False s" using ms by (auto simp: stops_def)
    then have "r = Some s" using Suc.prems by (cases r) (auto simp: hit_def nat_less_le)
    with True show ?thesis by (simp add: ms)
  next
    case False
    then have "\<not> stops m c False s" using ms by (auto simp: stops_def)
    then have "hit m c False (s + 1) (s + 1 + n) r" using Suc.prems by (cases r) (auto simp: hit_def Suc_le_eq nat_less_le)
    with False show ?thesis using Suc.IH by (simp add: ms)
  qed
qed

lemma strchr_word_ok:
  "hit m c True s fin (Some q) \<Longrightarrow> strchr_word s c m = Some (if m q = Some c then Some q else None)"
proof (induction "q - s" arbitrary: s)
  case 0
  then have q: "q = s" "stops m c True s" by (auto simp: hit_def)
  then have "m s \<noteq> None" by (auto simp: stops_def split: option.splits)
  with q show ?case by (subst strchr_word.simps) (auto simp: stops_def)
next
  case (Suc d)
  then have s: "s < q" "m s \<noteq> None" "\<not> stops m c True s" by (auto simp: hit_def)
  have "strchr_word (s + 1) c m = Some (if m q = Some c then Some q else None)"
    using Suc s(1) hit_within [OF Suc.prems, of "s + 1"] by auto
  with s show ?case by (subst strchr_word.simps) (auto simp: stops_def)
qed

lemma bit_le_word: "k < 64 \<Longrightarrow> bit (le_word v) k \<longleftrightarrow> k div 8 < length v \<and> bit (v ! (k div 8)) (k mod 8)"
proof (induction v arbitrary: k)
  case (Cons b v)
  show ?case
  proof (cases "k < 8")
    case True
    then show ?thesis by (simp add: bit_or_iff bit_push_bit_iff bit_unsigned_iff)
  next
    case False
    then have "\<not> bit b k" using bit_imp_le_length [of b k] by auto
    moreover have "k div 8 = Suc ((k - 8) div 8)" "k mod 8 = (k - 8) mod 8" using False by (simp_all add: le_div_geq le_mod_geq)
    ultimately show ?thesis using False Cons.prems Cons.IH [of "k - 8"]
      by (simp add: bit_or_iff bit_push_bit_iff bit_unsigned_iff)
  qed
qed simp

lemma le_word_fill:
  assumes "off < 8" "length v = 8"
  shows "le_word v OR (if off \<noteq> 0 then push_bit (8 * off) 1 - 1 else 0) = le_word (replicate off (- 1) @ drop off v)"
proof (rule bit_word_eqI)
  fix k assume "k < LENGTH(64)"
  then have k: "k < 64" by simp
  have "(if off \<noteq> 0 then push_bit (8 * off) 1 - 1 else 0 :: 64 word) = mask (8 * off)"
    by (simp add: mask_eq_exp_minus_1 push_bit_eq_mult)
  then have "bit (if off \<noteq> 0 then push_bit (8 * off) 1 - 1 else 0 :: 64 word) k \<longleftrightarrow> k < 8 * off"
    using k by (simp add: bit_mask_iff)
  moreover have "k < 8 * off \<longleftrightarrow> k div 8 < off" by auto
  moreover have "k div 8 < 8" "k mod 8 < 8" using k by auto
  ultimately show "bit (le_word v OR (if off \<noteq> 0 then push_bit (8 * off) 1 - 1 else 0)) k =
      bit (le_word (replicate off (- 1) @ drop off v)) k"
    using k assms by (auto simp: bit_or_iff bit_le_word nth_append)
qed

lemma first_zero:
  assumes h: "hit m 0 False p fin (Some q)" and m: "mapped m p n"
  shows "0 \<in> set (bytes m p n) \<longleftrightarrow> q < p + n"
    and "q < p + n \<Longrightarrow> length (takeWhile (\<lambda>b. b \<noteq> 0) (bytes m p n)) = q - p"
proof -
  have z: "the (m (p + i)) = 0 \<longleftrightarrow> stops m 0 False (p + i)" if "i < n" for i
    using mappedD [OF m, of "p + i"] that by (cases "m (p + i)") (simp_all add: stops_def)
  have q: "p \<le> q" "stops m 0 False q" "\<And>a. p \<le> a \<Longrightarrow> a < q \<Longrightarrow> \<not> stops m 0 False a" using h by (auto simp: hit_def)
  show "0 \<in> set (bytes m p n) \<longleftrightarrow> q < p + n"
  proof
    assume "0 \<in> set (bytes m p n)"
    then obtain i where i: "i < n" "the (m (p + i)) = 0" by (auto simp: in_set_conv_nth)
    then show "q < p + n" using z [OF i(1)] q(3) [of "p + i"] by (cases "p + i < q") auto
  next
    assume "q < p + n"
    then have "bytes m p n ! (q - p) = 0" "q - p < n" using z [of "q - p"] q(1,2) by auto
    then show "0 \<in> set (bytes m p n)" by (metis length_bytes nth_mem)
  qed
  assume n: "q < p + n"
  have "takeWhile (\<lambda>b. b \<noteq> 0) (bytes m p n) = take (q - p) (bytes m p n)"
  proof (rule takeWhile_eq_take_P_nth)
    fix i assume "i < q - p" "i < length (bytes m p n)"
    then show "bytes m p n ! i \<noteq> 0" using z [of i] q(3) [of "p + i"] by auto
  next
    show "\<not> bytes m p n ! (q - p) \<noteq> 0" using z [of "q - p"] q(1,2) n by auto
  qed
  then show "length (takeWhile (\<lambda>b. b \<noteq> 0) (bytes m p n)) = q - p" using n q(1) by simp
qed

lemma strlen_words_ok:
  assumes p: "paged m"
  shows "\<lbrakk>hit m 0 False w UINTPTR_MAX (Some q); w mod 8 = 0; s \<le> w\<rbrakk> \<Longrightarrow>
    mapped m w 8 \<and> strlen_words s w (le_word (bytes m w 8)) m = Some (q - s)"
proof (induction "q - w" arbitrary: w rule: less_induct)
  case less
  note h = hit_some [OF less.prems(1)]
  have m: "mapped m w 8" by (rule page_vector [OF p h(3) _ _ less.prems(2)]) auto
  note z = HASZERO_ok [of "bytes m w 8", simplified] first_zero [OF less.prems(1) m]
  show ?case
  proof (cases "q < w + 8")
    case True
    then have "w + ctz (HASZERO (le_word (bytes m w 8))) div 8 - s = q - s" "HASZERO (le_word (bytes m w 8)) \<noteq> 0"
      using z h(2) by auto
    with m show ?thesis by (subst strlen_words.simps) simp
  next
    case False
    then have n: "hit m 0 False (w + 8) UINTPTR_MAX (Some q)" by (intro hit_within [OF less.prems(1)]) auto
    have "mapped m (w + 8) 8 \<and> strlen_words s (w + 8) (le_word (bytes m (w + 8) 8)) m = Some (q - s)"
      by (rule less.hyps [OF _ n]) (use False less.prems in auto)
    moreover have "HASZERO (le_word (bytes m w 8)) = 0" using z False by blast
    moreover have "(w + 8) mod 8 = 0" using less.prems(2) by simp
    ultimately show ?thesis using m by (subst strlen_words.simps) (simp add: lda_mapped)
  qed
qed

lemma strlen_word_ok:
  assumes p: "paged m" and h: "hit m 0 False s UINTPTR_MAX (Some q)"
  shows "strlen_word s m = Some (q - s)"
proof -
  let ?off = "s mod 8"
  let ?w = "s - ?off" and ?b = "bytes m s (8 - ?off)"
  note hs = hit_some [OF h]
  have off: "?off < 8" "?off \<le> s" "?w mod 8 = 0" "?w + ?off = s" by (simp_all add: minus_mod_eq_div_mult)
  have m: "mapped m ?w 8" by (rule page_vector [OF p hs(3) _ _ off(3)]) (use off in auto)
  have mb: "mapped m s (8 - ?off)" by (rule mapped_sub [OF m]) (use off in auto)
  have "drop ?off (bytes m ?w 8) = ?b" by (rule nth_equalityI) (use off in \<open>auto simp: add.assoc\<close>)
  then have x: "le_word (bytes m ?w 8) OR (if ?off \<noteq> 0 then push_bit (8 * ?off) 1 - 1 else 0) = le_word (replicate ?off (- 1) @ ?b)"
    using le_word_fill [OF off(1), of "bytes m ?w 8"] by simp
  have len: "length (replicate ?off (- 1) @ ?b) = 8" using off(1) by simp
  have tw: "takeWhile (\<lambda>b. b \<noteq> 0) (replicate ?off (- 1) @ ?b) = replicate ?off (- 1 :: byte) @ takeWhile (\<lambda>b. b \<noteq> 0) ?b"
    by (simp add: takeWhile_append)
  note z = HASZERO_ok [OF len] first_zero [OF h mb]
  have "strlen_words s ?w (le_word (replicate ?off (- 1) @ ?b)) m = Some (q - s)"
  proof (cases "q < s + (8 - ?off)")
    case True
    then have "0 \<in> set ?b" using z by blast
    then have "HASZERO (le_word (replicate ?off (- 1) @ ?b)) \<noteq> 0"
      "ctz (HASZERO (le_word (replicate ?off (- 1) @ ?b))) div 8 = ?off + (q - s)"
      using z(1,2,4) True tw by auto
    then show ?thesis using off hs(2) by (subst strlen_words.simps) simp
  next
    case False
    have "0 \<notin> set (replicate ?off (- 1 :: byte) @ ?b)" using z(3) False by auto
    then have e: "HASZERO (le_word (replicate ?off (- 1) @ ?b)) = 0" using z(1) by blast
    have n: "hit m 0 False (?w + 8) UINTPTR_MAX (Some q)" by (rule hit_within [OF h]) (use off False in auto)
    have a: "(?w + 8) mod 8 = 0" by (simp only: mod_add_self2 off(3))
    have "s \<le> ?w + 8" using off by linarith
    note L = strlen_words_ok [OF p n a this]
    show ?thesis
      by (subst strlen_words.simps) (simp only: e L lda_mapped [OF conjunct1 [OF L] a] Option.bind.bind_lunit simp_thms if_False)
  qed
  then show ?thesis unfolding strlen_word_def Let_def by (simp only: lda_mapped [OF m off(3)] Option.bind.bind_lunit x)
qed

section \<open>What a program relies on\<close>

fun memchr :: "width \<Rightarrow> nat \<Rightarrow> byte \<Rightarrow> nat \<Rightarrow> mem \<Rightarrow> nat option option" where
  "memchr Words s c n m = memchr_word s c n m"
| "memchr Sse2 s c n m = memchr16 s c n m"
| "memchr Avx2 s c n m = memchr32 s c n m"

fun strchr :: "width \<Rightarrow> nat \<Rightarrow> byte \<Rightarrow> mem \<Rightarrow> nat option option" where
  "strchr Words s c m = strchr_word s c m"
| "strchr Sse2 s c m = strchr16 s c m"
| "strchr Avx2 s c m = strchr32 s c m"

fun strlen :: "width \<Rightarrow> nat \<Rightarrow> mem \<Rightarrow> nat option" where
  "strlen Words s m = strlen_word s m"
| "strlen Sse2 s m = strlen16 s m"
| "strlen Avx2 s m = strlen32 s m"

lemma widths [simp]: "vector_width 16" "vector_width 32"
  by (simp_all add: vector_width_def)

lemma hit_capped:
  assumes "paged m" "s < UINTPTR_MAX" "hit m c nul s (min (s + n) UINTPTR_MAX) r"
  shows "hit m c nul s (s + n) r"
proof (cases r)
  case (Some q)
  then show ?thesis using assms(3) by (auto simp: hit_def)
next
  case None
  have "s + n \<le> UINTPTR_MAX"
  proof (rule ccontr)
    assume "\<not> s + n \<le> UINTPTR_MAX"
    then have "m (UINTPTR_MAX - 1) \<noteq> None" using assms(2,3) None by (auto simp: hit_def)
    then show False using assms(1) by (auto simp: paged_def)
  qed
  then show ?thesis using assms(3) by (simp add: min_def)
qed

text \<open>\<open>memchr\<close> answers the first byte looked for among the \<open>n\<close> bytes at \<open>s\<close>, or null when there is
  none, at every width and alignment, for any \<open>n\<close> (one that runs past the end of the address space
  too), and it does not fault when only the pages of the bytes up to its answer can be read.\<close>

theorem memchr_correct:
  assumes "paged m" "s < UINTPTR_MAX" "hit m c False s (min (s + n) UINTPTR_MAX) r"
  shows "memchr v s c n m = Some r"
  using memchr_word_ok [OF hit_capped [OF assms]] memchr_vec_ok [OF assms(1) _ assms(2,3)]
  by (cases v) (simp_all add: memchr16_def memchr32_def)

text \<open>One page of \<open>a\<close>, with the terminator and a \<open>b\<close> in it.\<close>

definition sample_page :: mem where
  "sample_page x = (if 4096 \<le> x \<and> x < 8192 then Some (if x = 8000 then 0 else if x = 7000 then 98 else 97) else None)"

lemma sample_page_paged: "paged sample_page"
  unfolding paged_def
proof (intro conjI allI impI)
  fix x y assume "sample_page x \<noteq> None \<and> x div OKM_PAGE_MIN = y div OKM_PAGE_MIN"
  then have "4096 \<le> x" "x < 8192" "x div OKM_PAGE_MIN = y div OKM_PAGE_MIN" by (auto simp: sample_page_def split: if_splits)
  then have "x div OKM_PAGE_MIN = 1" by (intro div_nat_eqI) simp_all
  with \<open>x div OKM_PAGE_MIN = y div OKM_PAGE_MIN\<close> have "y div OKM_PAGE_MIN = 1" by simp
  then have "4096 \<le> y" "y < 8192" using div_mult_mod_eq [of y OKM_PAGE_MIN] mod_less_divisor [of OKM_PAGE_MIN y] by linarith+
  then show "sample_page y \<noteq> None" by (simp add: sample_page_def)
qed (simp add: sample_page_def)

lemma sample_page_hits:
  "hit sample_page 98 False 5000 (min (5000 + UINTPTR_MAX) UINTPTR_MAX) (Some 7000)"
  "hit sample_page 98 True 7001 UINTPTR_MAX (Some 8000)"
  "hit sample_page 0 False 4099 UINTPTR_MAX (Some 8000)"
  by (auto simp: hit_def stops_def sample_page_def)

theorem memchr_correct_witness: "memchr Avx2 5000 98 UINTPTR_MAX sample_page = Some (Some 7000)"
  by (rule memchr_correct [OF sample_page_paged _ sample_page_hits(1)]) simp

text \<open>\<open>strchr\<close> answers the first byte of the string that is \<open>c\<close> (its terminator, when \<open>c\<close> is zero), or
  null when the string has none; it returns, and reads only the pages the string lies in. \<open>q\<close> is the
  first byte of the string that is \<open>c\<close> or the terminator.\<close>

theorem strchr_correct:
  assumes "paged m" "hit m c True s UINTPTR_MAX (Some q)"
  shows "strchr v s c m = Some (if m q = Some c then Some q else None)"
  using strchr_word_ok [OF assms(2)] strchr_vec_ok [OF assms(1) _ assms(2)]
  by (cases v) (simp_all add: strchr16_def strchr32_def)

theorem strchr_correct_witness: "strchr Sse2 7001 98 sample_page = Some None"
  using strchr_correct [OF sample_page_paged sample_page_hits(2), of Sse2] by (simp add: sample_page_def)

text \<open>C14: \<open>strlen\<close> answers the distance to the terminator at every width and alignment; it returns, and
  reads only the pages the string lies in, although each variant reads past the terminator.\<close>

theorem strlen_correct:
  assumes "paged m" "hit m 0 False s UINTPTR_MAX (Some q)"
  shows "strlen v s m = Some (q - s)"
  using strlen_word_ok [OF assms] strlen16_ok [OF assms] strlen32_ok [OF assms] by (cases v) simp_all

theorem strlen_correct_witness: "strlen Avx2 4099 sample_page = Some 3901"
  using strlen_correct [OF sample_page_paged sample_page_hits(3), of Avx2] by simp

end
