(* ===== verification/Okm_Cmp.thy ===== *)
theory Okm_Cmp
  imports Okm_Scan
begin

text \<open>
  Comparing (port/src/okm_string.c): \<open>memcmp\<close> and \<open>strcmp\<close>. A macro that returns from its caller
  (\<open>DIFF16\<close>, \<open>STEP16\<close>) has the value \<open>Some e\<close> where it returns \<open>e\<close> and \<open>None\<close> where the caller goes on,
  and \<open>or_else\<close> puts what follows it after it.
\<close>

section \<open>memcmp\<close>

definition or_else :: "'a option option \<Rightarrow> 'a option \<Rightarrow> 'a option" where
  "or_else d rest = do { x \<leftarrow> d; case x of Some e \<Rightarrow> Some e | None \<Rightarrow> rest }"

text \<open>\<open>l[i] - r[i]\<close>\<close>

definition minus_at :: "nat \<Rightarrow> nat \<Rightarrow> mem \<Rightarrow> int option" where
  "minus_at l r m = do { a \<leftarrow> m l; b \<leftarrow> m r; Some (uint a - uint b) }"

definition DIFF :: "nat \<Rightarrow> nat \<Rightarrow> nat \<Rightarrow> nat \<Rightarrow> mem \<Rightarrow> int option option" where
  "DIFF w l r at m = do {
     a \<leftarrow> ld w (l + at) m; b \<leftarrow> ld w (r + at) m;
     let k = map Not (maskv (EQv a b));
     if some_bit k then do { e \<leftarrow> minus_at (l + (at + at_bit k)) (r + (at + at_bit k)) m; Some (Some e) }
     else Some None }"

text \<open>Two integers of \<open>w\<close> bytes compared, and the first byte that differs found by \<open>ctz\<close>.\<close>

definition DIFFi :: "nat \<Rightarrow> nat \<Rightarrow> nat \<Rightarrow> nat \<Rightarrow> mem \<Rightarrow> int option option" where
  "DIFFi w l r at m = do {
     a \<leftarrow> ld w (l + at) m; b \<leftarrow> ld w (r + at) m;
     if le_word a \<noteq> le_word b
     then let i = at + ctz (le_word a XOR le_word b) div 8 in
       do { e \<leftarrow> minus_at (l + i) (r + i) m; Some (Some e) }
     else Some None }"

fun cmp_bytes :: "nat \<Rightarrow> nat \<Rightarrow> nat \<Rightarrow> mem \<Rightarrow> int option" where
  "cmp_bytes l r 0 m = Some 0"
| "cmp_bytes l r (Suc n) m = do {
     a \<leftarrow> m l; b \<leftarrow> m r;
     if a = b then cmp_bytes (l + 1) (r + 1) n m else Some (uint a - uint b) }"

definition cmp_small :: "nat \<Rightarrow> nat \<Rightarrow> nat \<Rightarrow> mem \<Rightarrow> int option" where
  "cmp_small l r n m =
     (if 8 \<le> n then or_else (DIFFi 8 l r 0 m) (or_else (DIFFi 8 l r (n - 8) m) (Some 0))
      else if 4 \<le> n then or_else (DIFFi 4 l r 0 m) (or_else (DIFFi 4 l r (n - 4) m) (Some 0))
      else cmp_bytes l r n m)"

text \<open>\<open>DIFF16(l, r, a); DIFF16(l, r, b); \<dots>\<close>, and the conjunction of the comparisons at several
  offsets, as the mask of it that is all ones.\<close>

fun DIFFs :: "nat \<Rightarrow> nat \<Rightarrow> nat \<Rightarrow> nat list \<Rightarrow> mem \<Rightarrow> int option \<Rightarrow> int option" where
  "DIFFs w l r [] m rest = rest"
| "DIFFs w l r (at # ats) m rest = or_else (DIFF w l r at m) (DIFFs w l r ats m rest)"

fun all_eq :: "nat \<Rightarrow> nat \<Rightarrow> nat \<Rightarrow> nat list \<Rightarrow> mem \<Rightarrow> byte list option" where
  "all_eq w l r [] m = Some (splat w 0xff)"
| "all_eq w l r (at # ats) m = do {
     a \<leftarrow> ld w (l + at) m; b \<leftarrow> ld w (r + at) m;
     e \<leftarrow> all_eq w l r ats m;
     Some (ANDv (EQv a b) e) }"

definition full :: "byte list \<Rightarrow> bool" where
  "full e \<longleftrightarrow> list_all id (maskv e)"

function cmp16_tail :: "nat \<Rightarrow> nat \<Rightarrow> nat \<Rightarrow> nat \<Rightarrow> mem \<Rightarrow> int option" where
  "cmp16_tail l r n i m =
     (if i + 16 \<le> n then or_else (DIFF 16 l r i m) (cmp16_tail l r n (i + 16) m)
      else if i < n then or_else (DIFF 16 l r (n - 16) m) (Some 0)
      else Some 0)"
  by pat_completeness auto
termination
  by (relation "measure (\<lambda>(l, r, n, i, m). n - i)") auto

function cmp16_blocks :: "nat \<Rightarrow> nat \<Rightarrow> nat \<Rightarrow> nat \<Rightarrow> mem \<Rightarrow> int option" where
  "cmp16_blocks l r n i m =
     (if i + 64 \<le> n then do {
        e \<leftarrow> all_eq 16 l r [i, i + 16, i + 32, i + 48] m;
        if full e then cmp16_blocks l r n (i + 64) m
        else DIFFs 16 l r [i, i + 16, i + 32, i + 48] m (cmp16_blocks l r n (i + 64) m) }
      else cmp16_tail l r n i m)"
  by pat_completeness auto
termination
  by (relation "measure (\<lambda>(l, r, n, i, m). n - i)") auto

definition cmp16 :: "nat \<Rightarrow> nat \<Rightarrow> nat \<Rightarrow> mem \<Rightarrow> int option" where
  "cmp16 l r n m =
     (if n \<le> 32 then DIFFs 16 l r [0, n - 16] m (Some 0) else cmp16_blocks l r n 0 m)"

function cmp32_tail :: "nat \<Rightarrow> nat \<Rightarrow> nat \<Rightarrow> nat \<Rightarrow> mem \<Rightarrow> int option" where
  "cmp32_tail l r n i m =
     (if i + 32 \<le> n then or_else (DIFF 32 l r i m) (cmp32_tail l r n (i + 32) m)
      else if i < n then or_else (DIFF 32 l r (n - 32) m) (Some 0)
      else Some 0)"
  by pat_completeness auto
termination
  by (relation "measure (\<lambda>(l, r, n, i, m). n - i)") auto

function cmp32_blocks :: "nat \<Rightarrow> nat \<Rightarrow> nat \<Rightarrow> nat \<Rightarrow> mem \<Rightarrow> int option" where
  "cmp32_blocks l r n i m =
     (if i + 128 \<le> n then do {
        e \<leftarrow> all_eq 32 l r [i, i + 32, i + 64, i + 96] m;
        if full e then cmp32_blocks l r n (i + 128) m
        else DIFFs 32 l r [i, i + 32, i + 64, i + 96] m (cmp32_blocks l r n (i + 128) m) }
      else cmp32_tail l r n i m)"
  by pat_completeness auto
termination
  by (relation "measure (\<lambda>(l, r, n, i, m). n - i)") auto

text \<open>Vectors compared together and tested once; the one that differs is found afterwards.\<close>

definition cmp_together :: "nat \<Rightarrow> nat \<Rightarrow> nat \<Rightarrow> nat list \<Rightarrow> mem \<Rightarrow> int option" where
  "cmp_together w l r ats m = do {
     e \<leftarrow> all_eq w l r ats m;
     if full e then Some 0 else DIFFs w l r ats m (Some 0) }"

definition cmp32 :: "nat \<Rightarrow> nat \<Rightarrow> nat \<Rightarrow> mem \<Rightarrow> int option" where
  "cmp32 l r n m =
     (if n \<le> 64 then cmp_together 32 l r [0, n - 32] m
      else if n \<le> 128 then cmp_together 32 l r [0, 32, n - 64, n - 32] m
      else if n \<le> 256 then cmp_together 32 l r [0, 32, 64, 96, n - 128, n - 96, n - 64, n - 32] m
      else cmp32_blocks l r n 0 m)"

definition memcmp16 :: "nat \<Rightarrow> nat \<Rightarrow> nat \<Rightarrow> mem \<Rightarrow> int option" where
  "memcmp16 l r n m = (if n < 16 then cmp_small l r n m else cmp16 l r n m)"

definition memcmp32 :: "nat \<Rightarrow> nat \<Rightarrow> nat \<Rightarrow> mem \<Rightarrow> int option" where
  "memcmp32 l r n m =
     (if n < 16 then cmp_small l r n m
      else if n \<le> 32 then DIFFs 16 l r [0, n - 16] m (Some 0)
      else cmp32 l r n m)"

function memcmp_word :: "nat \<Rightarrow> nat \<Rightarrow> nat \<Rightarrow> mem \<Rightarrow> int option" where
  "memcmp_word l r n m =
     (if 16 \<le> n then or_else (DIFFi 8 l r 0 m) (memcmp_word (l + 8) (r + 8) (n - 8) m)
      else cmp_small l r n m)"
  by pat_completeness auto
termination
  by (relation "measure (\<lambda>(l, r, n, m). n)") auto

fun memcmp :: "width \<Rightarrow> nat \<Rightarrow> nat \<Rightarrow> nat \<Rightarrow> mem \<Rightarrow> int option" where
  "memcmp Words l r n m = memcmp_word l r n m"
| "memcmp Sse2 l r n m = memcmp16 l r n m"
| "memcmp Avx2 l r n m = memcmp32 l r n m"

declare cmp16_tail.simps [simp del] cmp16_blocks.simps [simp del] cmp32_tail.simps [simp del]
  cmp32_blocks.simps [simp del] memcmp_word.simps [simp del]

section \<open>What a comparison answers\<close>

text \<open>The difference of the first bytes that differ, zero when none do.\<close>

definition cmp_value :: "mem \<Rightarrow> nat \<Rightarrow> nat \<Rightarrow> nat \<Rightarrow> int" where
  "cmp_value m l r n =
     (case scan_up (\<lambda>i. m (l + i) \<noteq> m (r + i)) 0 n of
        None \<Rightarrow> 0
      | Some i \<Rightarrow> uint (the (m (l + i))) - uint (the (m (r + i))))"

definition eq_upto :: "mem \<Rightarrow> nat \<Rightarrow> nat \<Rightarrow> nat \<Rightarrow> bool" where
  "eq_upto m l r c \<longleftrightarrow> (\<forall>i < c. m (l + i) = m (r + i))"

lemma eq_upto_value: "eq_upto m l r n \<Longrightarrow> cmp_value m l r n = 0"
  by (simp add: cmp_value_def eq_upto_def scan_up_None [THEN iffD2])

lemma eq_upto_mono: "eq_upto m l r c \<Longrightarrow> c' \<le> c \<Longrightarrow> eq_upto m l r c'"
  by (simp add: eq_upto_def)

lemma cmp_value_at:
  assumes "eq_upto m l r i" "i < n" "m (l + i) \<noteq> m (r + i)"
  shows "cmp_value m l r n = uint (the (m (l + i))) - uint (the (m (r + i)))"
proof -
  have "scan_up (\<lambda>i. m (l + i) \<noteq> m (r + i)) 0 n = Some i"
    using assms by (auto simp: scan_up_Some eq_upto_def)
  then show ?thesis by (simp add: cmp_value_def)
qed

definition both :: "mem \<Rightarrow> nat \<Rightarrow> nat \<Rightarrow> nat \<Rightarrow> bool" where
  "both m l r n \<longleftrightarrow> mapped m l n \<and> mapped m r n"

lemma bothD:
  assumes "both m l r n" "i < n"
  obtains a b where "m (l + i) = Some a" "m (r + i) = Some b"
  using assms mappedD [of m l n "l + i"] mappedD [of m r n "r + i"] by (auto simp: both_def)

lemma minus_at_value:
  assumes "both m l r n" "eq_upto m l r i" "i < n" "m (l + i) \<noteq> m (r + i)"
  shows "minus_at (l + i) (r + i) m = Some (cmp_value m l r n)"
proof -
  obtain a b where "m (l + i) = Some a" "m (r + i) = Some b" by (rule bothD [OF assms(1,3)])
  then show ?thesis by (simp add: minus_at_def cmp_value_at [OF assms(2-4)])
qed

lemma at_equal:
  assumes "both m l r n" "i < w" "a + w \<le> n"
  shows "bytes m (l + a) w ! i = bytes m (r + a) w ! i \<longleftrightarrow> m (l + (a + i)) = m (r + (a + i))"
proof -
  obtain x y where "m (l + (a + i)) = Some x" "m (r + (a + i)) = Some y"
    using bothD [OF assms(1), of "a + i"] assms(2,3) by auto
  then show ?thesis using assms(2) by (simp add: add.assoc)
qed

lemma ld_both:
  assumes "both m l r n" "a + w \<le> n"
  shows "ld w (l + a) m = Some (bytes m (l + a) w)" "ld w (r + a) m = Some (bytes m (r + a) w)"
  using assms by (auto simp: both_def intro!: ld_mapped intro: mapped_sub)

text \<open>A test at an offset up to which the two are known equal (or equal further) answers, or extends
  what is known.\<close>

lemma DIFF_step:
  assumes B: "both m l r n" and eq: "eq_upto m l r c" and a: "a \<le> c" "a + w \<le> n"
    and rest: "eq_upto m l r (max c (a + w)) \<Longrightarrow> rest = Some (cmp_value m l r n)"
  shows "or_else (DIFF w l r a m) rest = Some (cmp_value m l r n)"
proof -
  let ?k = "map Not (maskv (EQv (bytes m (l + a) w) (bytes m (r + a) w)))"
  have len: "length ?k = w" by (simp add: mask_EQ)
  have k: "?k ! i \<longleftrightarrow> m (l + (a + i)) \<noteq> m (r + (a + i))" if "i < w" for i
    using that a(2) at_equal [OF B that a(2)] by (simp add: mask_EQ)
  show ?thesis
  proof (cases "some_bit ?k")
    case True
    let ?i = "a + at_bit ?k"
    have i: "at_bit ?k < w" "m (l + ?i) \<noteq> m (r + ?i)" using at_bit(1,2) [OF True] len k [of "at_bit ?k"] by auto
    have "eq_upto m l r ?i"
      unfolding eq_upto_def
    proof (intro allI impI)
      fix j assume "j < ?i"
      show "m (l + j) = m (r + j)"
      proof (cases "j < a")
        case True
        then show ?thesis using eq a(1) by (simp add: eq_upto_def)
      next
        case False
        then show ?thesis using at_bit(3) [OF True, of "j - a"] k [of "j - a"] \<open>j < ?i\<close> i(1) by auto
      qed
    qed
    then show ?thesis
      using True minus_at_value [OF B, of ?i] i a(2) by (simp add: or_else_def DIFF_def ld_both [OF B] Let_def)
  next
    case False
    then have none: "m (l + (a + i)) = m (r + (a + i))" if "i < w" for i using k [OF that] len that by (auto simp: some_bit_iff)
    have "eq_upto m l r (max c (a + w))"
      unfolding eq_upto_def
    proof (intro allI impI)
      fix j assume "j < max c (a + w)"
      then show "m (l + j) = m (r + j)" using eq none [of "j - a"] a(1) by (cases "j < c") (auto simp: eq_upto_def)
    qed
    then show ?thesis using False rest a(2) by (simp add: or_else_def DIFF_def ld_both [OF B] Let_def)
  qed
qed

lemma DIFFs_ok:
  assumes B: "both m l r n" and "eq_upto m l r c"
    and "\<And>i. i < length ats \<Longrightarrow> ats ! i + w \<le> n \<and> (ats ! i \<le> c \<or> 0 < i \<and> ats ! i \<le> ats ! (i - 1) + w)"
    and "\<And>c'. \<lbrakk>eq_upto m l r c'; c \<le> c'; ats \<noteq> [] \<Longrightarrow> last ats + w \<le> c'\<rbrakk> \<Longrightarrow> rest = Some (cmp_value m l r n)"
  shows "DIFFs w l r ats m rest = Some (cmp_value m l r n)"
  using assms(2-)
proof (induction ats arbitrary: c)
  case (Cons a ats)
  have a: "a \<le> c" "a + w \<le> n" using Cons.prems(2) [of 0] by auto
  have "DIFFs w l r ats m rest = Some (cmp_value m l r n)" if "eq_upto m l r (max c (a + w))"
  proof (rule Cons.IH [OF that])
    fix i assume "i < length ats"
    then show "ats ! i + w \<le> n \<and> (ats ! i \<le> max c (a + w) \<or> 0 < i \<and> ats ! i \<le> ats ! (i - 1) + w)"
      using Cons.prems(2) [of "Suc i"] by (cases i) auto
  next
    fix c' assume "eq_upto m l r c'" "max c (a + w) \<le> c'" "ats \<noteq> [] \<Longrightarrow> last ats + w \<le> c'"
    then show "rest = Some (cmp_value m l r n)" by (intro Cons.prems(3) [of c']) auto
  qed
  then show ?case using DIFF_step [OF B Cons.prems(1) a] by simp
qed simp

subsection \<open>Integers\<close>

lemma le_word_diff:
  assumes "length a = w" "length b = w" "w \<le> 8" "le_word a \<noteq> le_word b"
  defines "j \<equiv> ctz (le_word a XOR le_word b) div 8"
  shows "j < w" "a ! j \<noteq> b ! j" "\<And>i. i < j \<Longrightarrow> a ! i = b ! i"
proof -
  let ?x = "le_word a XOR le_word b"
  let ?k = "map (bit ?x) [0..<64]"
  have bit: "bit ?x k \<longleftrightarrow> k div 8 < w \<and> bit (a ! (k div 8)) (k mod 8) \<noteq> bit (b ! (k div 8)) (k mod 8)" if "k < 64" for k
    using that assms(1,2) by (auto simp: bit_xor_iff bit_le_word)
  obtain k0 where "k0 < LENGTH(64)" "bit (le_word a) k0 \<noteq> bit (le_word b) k0"
    using assms(4) bit_word_eqI by blast
  then have some: "some_bit ?k" by (auto simp: some_bit_iff bit_xor_iff intro!: exI [of _ k0])
  let ?c = "at_bit ?k"
  have c: "?c < 64" "bit ?x ?c" using at_bit(1,2) [OF some] by auto
  have j: "j = ?c div 8" by (simp add: j_def ctz_def)
  show "j < w" "a ! j \<noteq> b ! j" using bit [OF c(1)] c(2) by (auto simp: j)
  fix i assume i: "i < j"
  show "a ! i = b ! i"
  proof (rule bit_word_eqI)
    fix n assume "n < LENGTH(8)"
    then have n: "8 * i + n < ?c" "(8 * i + n) div 8 = i" "(8 * i + n) mod 8 = n" using i j by auto
    then have "\<not> bit ?x (8 * i + n)" using at_bit(3) [OF some n(1)] c(1) by auto
    then show "bit (a ! i) n = bit (b ! i) n" using bit [of "8 * i + n"] n c(1) i \<open>j < w\<close> by auto
  qed
qed

lemma DIFFi_step:
  assumes B: "both m l r n" and eq: "eq_upto m l r c" and a: "a \<le> c" "a + w \<le> n" and w: "w \<le> 8"
    and rest: "eq_upto m l r (max c (a + w)) \<Longrightarrow> rest = Some (cmp_value m l r n)"
  shows "or_else (DIFFi w l r a m) rest = Some (cmp_value m l r n)"
proof (cases "le_word (bytes m (l + a) w) \<noteq> le_word (bytes m (r + a) w)")
  case True
  define j where "j = ctz (le_word (bytes m (l + a) w) XOR le_word (bytes m (r + a) w)) div 8"
  note d = le_word_diff [OF length_bytes length_bytes w True, folded j_def]
  have i: "m (l + (a + j)) \<noteq> m (r + (a + j))" using d(2) at_equal [OF B d(1) a(2)] by simp
  have "eq_upto m l r (a + j)"
    unfolding eq_upto_def
  proof (intro allI impI)
    fix x assume x: "x < a + j"
    show "m (l + x) = m (r + x)"
    proof (cases "x < a")
      case True
      then show ?thesis using eq a(1) by (simp add: eq_upto_def)
    next
      case False
      then have "x - a < j" using x by simp
      from d(3) [OF this] show ?thesis using at_equal [OF B, of "x - a" w a] \<open>x - a < j\<close> d(1) a(2) False by simp
    qed
  qed
  from minus_at_value [OF B this _ i] d(1) a(2) True show ?thesis
    by (simp add: or_else_def DIFFi_def ld_both [OF B] Let_def j_def)
next
  case False
  have same: "bytes m (l + a) w ! i = bytes m (r + a) w ! i" if "i < w" for i
  proof (rule bit_word_eqI)
    fix n assume n: "n < LENGTH(8)"
    have "bit (le_word (bytes m (l + a) w)) (8 * i + n) = bit (le_word (bytes m (r + a) w)) (8 * i + n)" using False by simp
    then show "bit (bytes m (l + a) w ! i) n = bit (bytes m (r + a) w ! i) n"
      using n that w by (simp add: bit_le_word)
  qed
  have "eq_upto m l r (max c (a + w))"
    unfolding eq_upto_def
  proof (intro allI impI)
    fix j assume "j < max c (a + w)"
    then show "m (l + j) = m (r + j)"
      using eq same [of "j - a"] at_equal [OF B, of "j - a" w a] a by (cases "j < c") (auto simp: eq_upto_def)
  qed
  then show ?thesis using False rest a(2) by (simp add: or_else_def DIFFi_def ld_both [OF B])
qed

lemma eq_upto_0 [simp]: "eq_upto m l r 0"
  by (simp add: eq_upto_def)

lemma value_0: "eq_upto m l r c \<Longrightarrow> n \<le> c \<Longrightarrow> Some 0 = Some (cmp_value m l r n)"
  using eq_upto_value [of m l r n] eq_upto_mono [of m l r c n] by simp

lemma cmp_bytes_ok:
  "both m (l + c) (r + c) k \<Longrightarrow> eq_upto m l r c \<Longrightarrow> cmp_bytes (l + c) (r + c) k m = Some (cmp_value m l r (c + k))"
proof (induction k arbitrary: c)
  case 0
  then show ?case by (simp add: eq_upto_value)
next
  case (Suc k)
  obtain a b where ab: "m (l + c) = Some a" "m (r + c) = Some b"
    using bothD [OF Suc.prems(1), of 0] by auto
  show ?case
  proof (cases "a = b")
    case True
    have "both m (l + Suc c) (r + Suc c) k" using Suc.prems(1) by (auto simp: both_def intro: mapped_sub)
    moreover have "eq_upto m l r (Suc c)" using Suc.prems(2) ab True by (auto simp: eq_upto_def less_Suc_eq)
    ultimately show ?thesis using Suc.IH [of "Suc c"] ab True by simp
  next
    case False
    then show ?thesis using cmp_value_at [OF Suc.prems(2), of "c + Suc k"] ab by simp
  qed
qed

lemma cmp_small_ok:
  assumes B: "both m l r n" and n: "n \<le> 16"
  shows "cmp_small l r n m = Some (cmp_value m l r n)"
proof -
  have two: "or_else (DIFFi w l r 0 m) (or_else (DIFFi w l r (n - w) m) (Some 0)) = Some (cmp_value m l r n)"
    if "w \<le> n" "n \<le> 2 * w" "w \<le> 8" for w
    by (rule DIFFi_step [OF B eq_upto_0 _ _ that(3)], simp, use that in simp,
        erule DIFFi_step [OF B _ _ _ that(3)], use that in simp, use that in simp, erule value_0) (use that in simp)
  have "cmp_bytes l r n m = Some (cmp_value m l r n)" using cmp_bytes_ok [of m l 0 r n] B by simp
  then show ?thesis using two [of 8] two [of 4] n by (simp add: cmp_small_def)
qed

subsection \<open>Vectors compared together\<close>

lemma all_eq_ok:
  assumes B: "both m l r n" and "\<And>a. a \<in> set ats \<Longrightarrow> a + w \<le> n"
  obtains e where "all_eq w l r ats m = Some e" "length e = w"
    "full e \<longleftrightarrow> (\<forall>a \<in> set ats. \<forall>i < w. m (l + (a + i)) = m (r + (a + i)))"
  using assms(2)
proof (induction ats arbitrary: thesis)
  case Nil
  show ?case by (rule Nil.prems(1)) (auto simp: splat_def full_def maskv_def list_all_length bit_iff_odd)
next
  case (Cons a ats)
  obtain e where e: "all_eq w l r ats m = Some e" "length e = w"
    "full e \<longleftrightarrow> (\<forall>a \<in> set ats. \<forall>i < w. m (l + (a + i)) = m (r + (a + i)))"
    using Cons.IH Cons.prems(2) by (metis list.set_intros(2))
  have a: "a + w \<le> n" using Cons.prems(2) by simp
  let ?E = "EQv (bytes m (l + a) w) (bytes m (r + a) w)"
  have "full (ANDv ?E e) \<longleftrightarrow> full ?E \<and> full e"
    using e(2) by (auto simp: full_def ANDv_def EQv_def maskv_def list_all_length bit_and_iff)
  moreover have "full ?E \<longleftrightarrow> (\<forall>i < w. m (l + (a + i)) = m (r + (a + i)))"
    using at_equal [OF B _ a] by (auto simp: full_def list_all_length mask_EQ)
  ultimately show ?case
    using e by (intro Cons.prems(1) [of "ANDv ?E e"]) (auto simp: ld_both [OF B a] ANDv_def EQv_def)
qed

lemma all_eq_upto:
  assumes "\<forall>a \<in> set ats. \<forall>i < w. m (l + (a + i)) = m (r + (a + i))" "eq_upto m l r c"
    and "\<And>j. j < c' \<Longrightarrow> j < c \<or> (\<exists>a \<in> set ats. a \<le> j \<and> j < a + w)"
  shows "eq_upto m l r c'"
  unfolding eq_upto_def
proof (intro allI impI)
  fix j assume "j < c'"
  from assms(3) [OF this] show "m (l + j) = m (r + j)"
  proof
    assume "\<exists>a \<in> set ats. a \<le> j \<and> j < a + w"
    then obtain a where a: "a \<in> set ats" "a \<le> j" "j - a < w" by auto
    then have "m (l + (a + (j - a))) = m (r + (a + (j - a)))" using assms(1) by blast
    then show ?thesis using a(2) by simp
  qed (use assms(2) in \<open>simp add: eq_upto_def\<close>)
qed

lemma cmp_together_ok:
  assumes B: "both m l r n"
    and a: "\<And>i. i < length ats \<Longrightarrow> ats ! i + w \<le> n \<and> (ats ! i = 0 \<or> 0 < i \<and> ats ! i \<le> ats ! (i - 1) + w)"
    and c: "\<And>j. j < n \<Longrightarrow> \<exists>a \<in> set ats. a \<le> j \<and> j < a + w" "ats \<noteq> []" "n \<le> last ats + w"
  shows "cmp_together w l r ats m = Some (cmp_value m l r n)"
proof -
  have "x + w \<le> n" if "x \<in> set ats" for x using that a by (auto simp: in_set_conv_nth)
  then obtain e where e: "all_eq w l r ats m = Some e"
    "full e \<longleftrightarrow> (\<forall>a \<in> set ats. \<forall>i < w. m (l + (a + i)) = m (r + (a + i)))"
    using all_eq_ok [OF B, of ats w] by metis
  show ?thesis
  proof (cases "full e")
    case True
    have "eq_upto m l r n" by (rule all_eq_upto [OF _ eq_upto_0, of ats w]) (use True e(2) c(1) in auto)
    then show ?thesis using True e(1) by (simp add: cmp_together_def eq_upto_value)
  next
    case False
    have "DIFFs w l r ats m (Some 0) = Some (cmp_value m l r n)"
    proof (rule DIFFs_ok [OF B eq_upto_0])
      show "ats ! i + w \<le> n \<and> (ats ! i \<le> 0 \<or> 0 < i \<and> ats ! i \<le> ats ! (i - 1) + w)" if "i < length ats" for i
        using a [OF that] by auto
      show "Some 0 = Some (cmp_value m l r n)" if "eq_upto m l r c'" "0 \<le> c'" "ats \<noteq> [] \<Longrightarrow> last ats + w \<le> c'" for c'
        using value_0 [OF that(1), of n] that(3) c(2,3) by simp
    qed
    then show ?thesis using False e(1) by (simp add: cmp_together_def)
  qed
qed

subsection \<open>The loops\<close>

function cmp_tail :: "nat \<Rightarrow> nat \<Rightarrow> nat \<Rightarrow> nat \<Rightarrow> nat \<Rightarrow> mem \<Rightarrow> int option" where
  "cmp_tail w l r n i m =
     (if i + w \<le> n \<and> 0 < w then or_else (DIFF w l r i m) (cmp_tail w l r n (i + w) m)
      else if i < n then or_else (DIFF w l r (n - w) m) (Some 0)
      else Some 0)"
  by pat_completeness auto
termination
  by (relation "measure (\<lambda>(w, l, r, n, i, m). n - i)") auto

function cmp_blocks :: "nat \<Rightarrow> nat \<Rightarrow> nat \<Rightarrow> nat \<Rightarrow> nat \<Rightarrow> mem \<Rightarrow> int option" where
  "cmp_blocks w l r n i m =
     (if i + 4 * w \<le> n \<and> 0 < w then do {
        e \<leftarrow> all_eq w l r (map ((+) i) (four w)) m;
        if full e then cmp_blocks w l r n (i + 4 * w) m
        else DIFFs w l r (map ((+) i) (four w)) m (cmp_blocks w l r n (i + 4 * w) m) }
      else cmp_tail w l r n i m)"
  by pat_completeness auto
termination
  by (relation "measure (\<lambda>(w, l, r, n, i, m). n - i)") auto

declare cmp_tail.simps [simp del] cmp_blocks.simps [simp del]

lemma cmp_loops_generic:
  "cmp16_tail l r n i m = cmp_tail 16 l r n i m"
  "cmp32_tail l r n i m = cmp_tail 32 l r n i m"
  "cmp16_blocks l r n i m = cmp_blocks 16 l r n i m"
  "cmp32_blocks l r n i m = cmp_blocks 32 l r n i m"
proof -
  show t16: "cmp16_tail l r n i m = cmp_tail 16 l r n i m" for l r n i m
    by (induction l r n i m rule: cmp16_tail.induct) (subst cmp16_tail.simps, subst cmp_tail.simps, simp)
  show t32: "cmp32_tail l r n i m = cmp_tail 32 l r n i m" for l r n i m
    by (induction l r n i m rule: cmp32_tail.induct) (subst cmp32_tail.simps, subst cmp_tail.simps, simp)
  show "cmp16_blocks l r n i m = cmp_blocks 16 l r n i m"
    by (induction l r n i m rule: cmp16_blocks.induct)
       (subst cmp16_blocks.simps, subst cmp_blocks.simps, auto simp: t16 simp del: all_eq.simps DIFFs.simps intro!: Option.bind_cong)
  show "cmp32_blocks l r n i m = cmp_blocks 32 l r n i m"
    by (induction l r n i m rule: cmp32_blocks.induct)
       (subst cmp32_blocks.simps, subst cmp_blocks.simps, auto simp: t32 simp del: all_eq.simps DIFFs.simps intro!: Option.bind_cong)
qed

lemma cmp_tail_ok:
  assumes B: "both m l r n" and w: "0 < w" "w \<le> n"
  shows "eq_upto m l r i \<Longrightarrow> cmp_tail w l r n i m = Some (cmp_value m l r n)"
proof (induction "n - i" arbitrary: i rule: less_induct)
  case less
  consider "i + w \<le> n" | "n < i + w" "i < n" | "n \<le> i" by linarith
  then show ?case
  proof cases
    case 1
    have "or_else (DIFF w l r i m) (cmp_tail w l r n (i + w) m) = Some (cmp_value m l r n)"
    proof (rule DIFF_step [OF B less.prems order_refl 1])
      assume "eq_upto m l r (max i (i + w))"
      then have "eq_upto m l r (i + w)" by (rule eq_upto_mono) simp
      then show "cmp_tail w l r n (i + w) m = Some (cmp_value m l r n)"
        by (intro less.hyps) (use 1 w in auto)
    qed
    then show ?thesis using 1 w by (subst cmp_tail.simps) simp
  next
    case 2
    have "or_else (DIFF w l r (n - w) m) (Some 0) = Some (cmp_value m l r n)"
      by (rule DIFF_step [OF B less.prems], use 2 in simp, use w in simp, erule value_0) (use w in simp)
    then show ?thesis using 2 by (subst cmp_tail.simps) simp
  next
    case 3
    then show ?thesis using value_0 [OF less.prems 3] w by (subst cmp_tail.simps) simp
  qed
qed

lemma cmp_blocks_ok:
  assumes B: "both m l r n" and w: "0 < w" "w \<le> n"
  shows "eq_upto m l r i \<Longrightarrow> cmp_blocks w l r n i m = Some (cmp_value m l r n)"
proof (induction "n - i" arbitrary: i rule: less_induct)
  case less
  show ?case
  proof (cases "i + 4 * w \<le> n")
    case False
    then show ?thesis using cmp_tail_ok [OF B w less.prems] by (subst cmp_blocks.simps) simp
  next
    case True
    let ?ats = "map ((+) i) (four w)"
    have rec: "cmp_blocks w l r n (i + 4 * w) m = Some (cmp_value m l r n)" if "eq_upto m l r (i + 4 * w)"
      by (rule less.hyps [OF _ that]) (use True w in auto)
    have "a + w \<le> n" if "a \<in> set ?ats" for a using that True by auto
    then obtain e where e: "all_eq w l r ?ats m = Some e"
      "full e \<longleftrightarrow> (\<forall>a \<in> set ?ats. \<forall>j < w. m (l + (a + j)) = m (r + (a + j)))"
      using all_eq_ok [OF B, of ?ats w] by metis
    have "eq_upto m l r (i + 4 * w)" if "full e"
      by (rule all_eq_upto [OF _ less.prems, of ?ats w]) (use that e(2) in auto)
    moreover have "DIFFs w l r ?ats m (cmp_blocks w l r n (i + 4 * w) m) = Some (cmp_value m l r n)"
    proof (rule DIFFs_ok [OF B less.prems])
      fix j assume "j < length ?ats"
      then have "j = 0 \<or> j = 1 \<or> j = 2 \<or> j = 3" by auto
      then show "?ats ! j + w \<le> n \<and> (?ats ! j \<le> i \<or> 0 < j \<and> ?ats ! j \<le> ?ats ! (j - 1) + w)"
        using True by auto
    next
      fix c' assume "eq_upto m l r c'" "?ats \<noteq> [] \<Longrightarrow> last ?ats + w \<le> c'"
      then show "cmp_blocks w l r n (i + 4 * w) m = Some (cmp_value m l r n)"
        by (intro rec) (auto elim: eq_upto_mono)
    qed
    ultimately show ?thesis using True w e(1) rec
      by (subst cmp_blocks.simps) (simp del: all_eq.simps DIFFs.simps list.map)
  qed
qed

section \<open>memcmp compares\<close>

lemma two_diffs_ok:
  assumes B: "both m l r n" and w: "w \<le> n" "n \<le> 2 * w"
  shows "DIFFs w l r [0, n - w] m (Some 0) = Some (cmp_value m l r n)"
proof (rule DIFFs_ok [OF B eq_upto_0])
  fix i assume "i < length [0, n - w]"
  then have "i = 0 \<or> i = 1" by auto
  then show "[0, n - w] ! i + w \<le> n \<and> ([0, n - w] ! i \<le> 0 \<or> 0 < i \<and> [0, n - w] ! i \<le> [0, n - w] ! (i - 1) + w)"
    using w by auto
next
  fix c' assume "eq_upto m l r c'" "[0, n - w] \<noteq> [] \<Longrightarrow> last [0, n - w] + w \<le> c'"
  then show "Some 0 = Some (cmp_value m l r n)" by (intro value_0) (use w in auto)
qed

lemma cmp16_ok:
  assumes B: "both m l r n" and n: "16 \<le> n"
  shows "cmp16 l r n m = Some (cmp_value m l r n)"
  using two_diffs_ok [OF B, of 16] cmp_blocks_ok [OF B, of 16 0] n
  by (simp add: cmp16_def cmp_loops_generic del: DIFFs.simps)

lemma cmp32_ok:
  assumes B: "both m l r n" and n: "32 < n"
  shows "cmp32 l r n m = Some (cmp_value m l r n)"
proof -
  have cases: "i = 0 \<or> i = 1 \<or> i = 2 \<or> i = 3 \<or> i = 4 \<or> i = 5 \<or> i = 6 \<or> i = 7" if "i < 8" for i :: nat using that by auto
  have a: "cmp_together 32 l r [0, n - 32] m = Some (cmp_value m l r n)" if "n \<le> 64"
  proof (rule cmp_together_ok [OF B])
    fix i assume "i < length [0, n - 32]"
    then show "[0, n - 32] ! i + 32 \<le> n \<and> ([0, n - 32] ! i = 0 \<or> 0 < i \<and> [0, n - 32] ! i \<le> [0, n - 32] ! (i - 1) + 32)"
      using cases [of i] n that by auto
  qed (use n that in auto)
  have b: "cmp_together 32 l r [0, 32, n - 64, n - 32] m = Some (cmp_value m l r n)" if "64 < n" "n \<le> 128"
  proof (rule cmp_together_ok [OF B])
    fix i assume "i < length [0, 32, n - 64, n - 32]"
    then show "[0, 32, n - 64, n - 32] ! i + 32 \<le> n \<and>
        ([0, 32, n - 64, n - 32] ! i = 0 \<or> 0 < i \<and> [0, 32, n - 64, n - 32] ! i \<le> [0, 32, n - 64, n - 32] ! (i - 1) + 32)"
      using cases [of i] that by auto
  qed (use that in auto)
  let ?ats = "[0, 32, 64, 96, n - 128, n - 96, n - 64, n - 32]"
  have c: "cmp_together 32 l r ?ats m = Some (cmp_value m l r n)" if "128 < n" "n \<le> 256"
  proof (rule cmp_together_ok [OF B])
    fix i assume "i < length ?ats"
    then show "?ats ! i + 32 \<le> n \<and> (?ats ! i = 0 \<or> 0 < i \<and> ?ats ! i \<le> ?ats ! (i - 1) + 32)"
      using cases [of i] that by auto
  qed (use that in auto)
  show ?thesis using a b c cmp_blocks_ok [OF B, of 32 0] n
    by (simp add: cmp32_def cmp_loops_generic)
qed

lemma memcmp_word_ok:
  "both m (l + c) (r + c) k \<Longrightarrow> both m l r (c + k) \<Longrightarrow> eq_upto m l r c \<Longrightarrow>
     memcmp_word (l + c) (r + c) k m = Some (cmp_value m l r (c + k))"
proof (induction k arbitrary: c rule: less_induct)
  case (less k)
  have shift: "eq_upto m l r (c + d)" if "eq_upto m (l + c) (r + c) d" for d
    unfolding eq_upto_def
  proof (intro allI impI)
    fix i assume "i < c + d"
    then show "m (l + i) = m (r + i)" using that less.prems(3) le_Suc_ex [of c i] by (cases "i < c") (auto simp: eq_upto_def add.assoc)
  qed
  have val: "cmp_value m (l + c) (r + c) k = cmp_value m l r (c + k)"
  proof (cases "eq_upto m (l + c) (r + c) k")
    case True
    then show ?thesis using shift [OF True] by (simp add: eq_upto_value)
  next
    case False
    then obtain i where i: "i < k" "m (l + c + i) \<noteq> m (r + c + i)" "eq_upto m (l + c) (r + c) i"
    proof (cases "scan_up (\<lambda>i. m (l + c + i) \<noteq> m (r + c + i)) 0 k")
      case None
      then show ?thesis using False by (auto simp: scan_up_None eq_upto_def)
    next
      case (Some i)
      then show ?thesis using that [of i] by (auto simp: scan_up_Some eq_upto_def)
    qed
    then show ?thesis using cmp_value_at [OF i(3,1)] cmp_value_at [OF shift [OF i(3)], of "c + k"] by (simp add: add.assoc)
  qed
  show ?case
  proof (cases "16 \<le> k")
    case False
    then show ?thesis using cmp_small_ok [OF less.prems(1)] val by (subst memcmp_word.simps) simp
  next
    case True
    have "or_else (DIFFi 8 (l + c) (r + c) 0 m) (memcmp_word (l + c + 8) (r + c + 8) (k - 8) m) = Some (cmp_value m (l + c) (r + c) k)"
    proof (rule DIFFi_step [OF less.prems(1) eq_upto_0])
      assume "eq_upto m (l + c) (r + c) (max 0 (0 + 8))"
      then have "eq_upto m l r (c + 8)" using shift [of 8] by simp
      moreover have "both m (l + (c + 8)) (r + (c + 8)) (k - 8)" using less.prems(1) True by (auto simp: both_def intro: mapped_sub)
      moreover have "c + 8 + (k - 8) = c + k" using True by simp
      ultimately have "memcmp_word (l + (c + 8)) (r + (c + 8)) (k - 8) m = Some (cmp_value m l r (c + k))"
        using less.IH [of "k - 8" "c + 8"] less.prems(2) True by simp
      then show "memcmp_word (l + c + 8) (r + c + 8) (k - 8) m = Some (cmp_value m (l + c) (r + c) k)"
        by (simp add: val add.assoc)
    qed (use True in auto)
    then show ?thesis using True val by (subst memcmp_word.simps) simp
  qed
qed

text \<open>C15: \<open>memcmp\<close> answers the difference of the first bytes in which the two ranges differ, zero when
  they are equal, at every width and length, and reads nothing outside them.\<close>

theorem memcmp_correct:
  assumes "mapped m l n" "mapped m r n"
  shows "memcmp v l r n m = Some (cmp_value m l r n)"
proof -
  have B: "both m l r n" using assms by (simp add: both_def)
  show ?thesis
    using memcmp_word_ok [of m l 0 r n] cmp_small_ok [OF B] cmp16_ok [OF B] cmp32_ok [OF B] two_diffs_ok [OF B, of 16] B
    by (cases v) (simp_all add: memcmp16_def memcmp32_def del: DIFFs.simps)
qed

theorem memcmp_correct_witness:
  "memcmp Avx2 256 513 500 sample_memory = Some (- 1) \<and> memcmp Sse2 256 512 500 sample_memory = Some 0"
proof -
  have m: "mapped sample_memory 256 500" "mapped sample_memory 513 500" "mapped sample_memory 512 500"
    by (simp_all add: sample_memory_mapped)
  have "cmp_value sample_memory 256 513 500 = - 1"
    by (subst cmp_value_at [of _ _ _ 0]) (simp_all add: sample_memory_def)
  moreover have "cmp_value sample_memory 256 512 500 = 0"
  proof (rule eq_upto_value)
    have "(of_nat (256 + i) :: byte) = of_nat (512 + i)" for i by simp
    then show "eq_upto sample_memory 256 512 500" by (simp add: eq_upto_def sample_memory_def)
  qed
  ultimately show ?thesis using memcmp_correct [OF m(1,2), of Avx2] memcmp_correct [OF m(1,3), of Sse2] by simp
qed

end
