(* ===== verification/Okm_Strcmp.thy ===== *)
theory Okm_Strcmp
  imports Okm_Cmp
begin

text \<open>
  \<open>strcmp\<close> (port/src/okm_string.c). The loop of each vector width goes from page end to page end of
  the nearer string: blocks of four vectors, vectors, and then bytes (or words, then bytes). Each of
  these inner loops is a function that answers the result (\<open>Inl\<close>) or where it left off (\<open>Inr\<close>).
\<close>

section \<open>Sixteen bytes\<close>

definition STEP16 :: "nat \<Rightarrow> nat \<Rightarrow> nat \<Rightarrow> mem \<Rightarrow> int option option" where
  "STEP16 l r at m = do {
     a \<leftarrow> ld 16 (l + at) m; b \<leftarrow> ld 16 (r + at) m;
     let k = map2 (\<or>) (map Not (maskv (EQv a b))) (maskv (EQv a (splat 16 0)));
     if some_bit k then do { e \<leftarrow> minus_at (l + (at + at_bit k)) (r + (at + at_bit k)) m; Some (Some e) }
     else Some None }"

definition STEP32 :: "nat \<Rightarrow> nat \<Rightarrow> nat \<Rightarrow> mem \<Rightarrow> int option option" where
  "STEP32 l r at m = do {
     a \<leftarrow> ld 32 (l + at) m; b \<leftarrow> ld 32 (r + at) m;
     let k = STOP (MINv a (EQv a b));
     if some_bit k then do { e \<leftarrow> minus_at (l + (at + at_bit k)) (r + (at + at_bit k)) m; Some (Some e) }
     else Some None }"

fun STEPs :: "(nat \<Rightarrow> int option option) \<Rightarrow> nat list \<Rightarrow> int option option" where
  "STEPs f [] = Some None"
| "STEPs f (at # ats) = do { x \<leftarrow> f at; case x of Some e \<Rightarrow> Some (Some e) | None \<Rightarrow> STEPs f ats }"

text \<open>\<open>min(a, a == b)\<close> of four vectors, reduced to one: a lane is zero where in one of the four \<open>a\<close> and
  \<open>b\<close> differ or \<open>a\<close> ends.\<close>

definition ends4 :: "byte list list \<Rightarrow> byte list list \<Rightarrow> byte list" where
  "ends4 a b =
     MINv (MINv (MINv (a ! 0) (EQv (a ! 0) (b ! 0))) (MINv (a ! 1) (EQv (a ! 1) (b ! 1))))
          (MINv (MINv (a ! 2) (EQv (a ! 2) (b ! 2))) (MINv (a ! 3) (EQv (a ! 3) (b ! 3))))"

type_synonym cmp_state = "int + nat \<times> nat \<times> nat"

function strcmp16_blocks :: "nat \<Rightarrow> nat \<Rightarrow> nat \<Rightarrow> mem \<Rightarrow> cmp_state option" where
  "strcmp16_blocks room l r m =
     (if 64 \<le> room then do {
        a \<leftarrow> lds 16 l (four 16) m; b \<leftarrow> lds 16 r (four 16) m;
        x \<leftarrow> (if some_bit (STOP (ends4 a b)) then STEPs (\<lambda>at. STEP16 l r at m) (four 16) else Some None);
        case x of Some e \<Rightarrow> Some (Inl e)
        | None \<Rightarrow> strcmp16_blocks (room - 64) (l + 64) (r + 64) m }
      else Some (Inr (room, l, r)))"
  by pat_completeness auto
termination
  by (relation "measure (\<lambda>(room, l, r, m). room)") auto

function strcmp16_vectors :: "nat \<Rightarrow> nat \<Rightarrow> nat \<Rightarrow> mem \<Rightarrow> cmp_state option" where
  "strcmp16_vectors room l r m =
     (if 16 \<le> room then do {
        x \<leftarrow> STEP16 l r 0 m;
        case x of Some e \<Rightarrow> Some (Inl e)
        | None \<Rightarrow> strcmp16_vectors (room - 16) (l + 16) (r + 16) m }
      else Some (Inr (room, l, r)))"
  by pat_completeness auto
termination
  by (relation "measure (\<lambda>(room, l, r, m). room)") auto

fun strcmp_bytes :: "nat \<Rightarrow> nat \<Rightarrow> nat \<Rightarrow> mem \<Rightarrow> cmp_state option" where
  "strcmp_bytes 0 l r m = Some (Inr (0, l, r))"
| "strcmp_bytes (Suc room) l r m = do {
     a \<leftarrow> m l; b \<leftarrow> m r;
     if a \<noteq> b \<or> a = 0 then Some (Inl (uint a - uint b))
     else strcmp_bytes room (l + 1) (r + 1) m }"

definition nearer_end :: "nat \<Rightarrow> nat \<Rightarrow> nat" where
  "nearer_end l r = (if TO_PAGE_END l < TO_PAGE_END r then TO_PAGE_END l else TO_PAGE_END r)"

text \<open>One round of the outer loop, and the loop.\<close>

definition and_then :: "cmp_state option \<Rightarrow> (nat \<Rightarrow> nat \<Rightarrow> nat \<Rightarrow> cmp_state option) \<Rightarrow> cmp_state option" where
  "and_then x f = do { s \<leftarrow> x; case s of Inl e \<Rightarrow> Some (Inl e) | Inr (room, l, r) \<Rightarrow> f room l r }"

definition strcmp16_round :: "nat \<Rightarrow> nat \<Rightarrow> mem \<Rightarrow> cmp_state option" where
  "strcmp16_round l r m =
     and_then (and_then (strcmp16_blocks (nearer_end l r) l r m)
                        (\<lambda>room l r. strcmp16_vectors room l r m))
              (\<lambda>room l r. strcmp_bytes room l r m)"

partial_function (option) strcmp16 :: "nat \<Rightarrow> nat \<Rightarrow> mem \<Rightarrow> int option" where
  "strcmp16 l r m = do {
     x \<leftarrow> strcmp16_round l r m;
     case x of Inl e \<Rightarrow> Some e | Inr s \<Rightarrow> strcmp16 (fst (snd s)) (snd (snd s)) m }"

definition strcmp16_first :: "nat \<Rightarrow> nat \<Rightarrow> mem \<Rightarrow> int option" where
  "strcmp16_first l r m =
     (if 64 \<le> TO_PAGE_END l \<and> 64 \<le> TO_PAGE_END r
      then or_else (STEPs (\<lambda>at. STEP16 l r at m) [0, 16, 32, 48]) (strcmp16 (l + 64) (r + 64) m)
      else strcmp16 l r m)"

section \<open>Thirty-two bytes\<close>

function strcmp32_blocks :: "nat \<Rightarrow> nat \<Rightarrow> nat \<Rightarrow> mem \<Rightarrow> cmp_state option" where
  "strcmp32_blocks room l r m =
     (if 128 \<le> room then do {
        a \<leftarrow> lds 32 l (four 32) m; b \<leftarrow> lds 32 r (four 32) m;
        x \<leftarrow> (if some_bit (STOP (ends4 a b)) then STEPs (\<lambda>at. STEP32 l r at m) (four 32) else Some None);
        case x of Some e \<Rightarrow> Some (Inl e)
        | None \<Rightarrow> strcmp32_blocks (room - 128) (l + 128) (r + 128) m }
      else Some (Inr (room, l, r)))"
  by pat_completeness auto
termination
  by (relation "measure (\<lambda>(room, l, r, m). room)") auto

function strcmp32_vectors :: "nat \<Rightarrow> nat \<Rightarrow> nat \<Rightarrow> mem \<Rightarrow> cmp_state option" where
  "strcmp32_vectors room l r m =
     (if 32 \<le> room then do {
        x \<leftarrow> STEP32 l r 0 m;
        case x of Some e \<Rightarrow> Some (Inl e)
        | None \<Rightarrow> strcmp32_vectors (room - 32) (l + 32) (r + 32) m }
      else Some (Inr (room, l, r)))"
  by pat_completeness auto
termination
  by (relation "measure (\<lambda>(room, l, r, m). room)") auto

function strcmp32_words :: "nat \<Rightarrow> nat \<Rightarrow> nat \<Rightarrow> mem \<Rightarrow> cmp_state option" where
  "strcmp32_words room l r m =
     (if 8 \<le> room then do {
        a \<leftarrow> ld 8 l m; b \<leftarrow> ld 8 r m;
        if le_word a \<noteq> le_word b \<or> HASZERO (le_word a) \<noteq> 0 then Some (Inr (room, l, r))
        else strcmp32_words (room - 8) (l + 8) (r + 8) m }
      else Some (Inr (room, l, r)))"
  by pat_completeness auto
termination
  by (relation "measure (\<lambda>(room, l, r, m). room)") auto

definition strcmp32_round :: "nat \<Rightarrow> nat \<Rightarrow> mem \<Rightarrow> cmp_state option" where
  "strcmp32_round l r m =
     and_then (and_then (and_then (strcmp32_blocks (nearer_end l r) l r m)
                                  (\<lambda>room l r. strcmp32_vectors room l r m))
                        (\<lambda>room l r. strcmp32_words room l r m))
              (\<lambda>room l r. strcmp_bytes room l r m)"

partial_function (option) strcmp32_loop :: "nat \<Rightarrow> nat \<Rightarrow> mem \<Rightarrow> int option" where
  "strcmp32_loop l r m = do {
     x \<leftarrow> strcmp32_round l r m;
     case x of Inl e \<Rightarrow> Some e | Inr s \<Rightarrow> strcmp32_loop (fst (snd s)) (snd (snd s)) m }"

definition strcmp32 :: "nat \<Rightarrow> nat \<Rightarrow> mem \<Rightarrow> int option" where
  "strcmp32 l r m =
     (if l mod 32 \<noteq> 0 \<and> 32 \<le> TO_PAGE_END l \<and> 32 \<le> TO_PAGE_END r
      then or_else (STEP32 l r 0 m) (let k = 32 - l mod 32 in strcmp32_loop (l + k) (r + k) m)
      else strcmp32_loop l r m)"

definition strcmp32_first :: "nat \<Rightarrow> nat \<Rightarrow> mem \<Rightarrow> int option" where
  "strcmp32_first l r m =
     (if 128 \<le> TO_PAGE_END l \<and> 128 \<le> TO_PAGE_END r
      then or_else (STEPs (\<lambda>at. STEP32 l r at m) [0, 32, 64, 96]) (strcmp32 (l + 128) (r + 128) m)
      else strcmp32 l r m)"

partial_function (option) strcmp_word :: "nat \<Rightarrow> nat \<Rightarrow> mem \<Rightarrow> int option" where
  "strcmp_word l r m = do {
     a \<leftarrow> m l; b \<leftarrow> m r;
     if a = b \<and> a \<noteq> 0 then strcmp_word (l + 1) (r + 1) m else Some (uint a - uint b) }"

fun strcmp :: "width \<Rightarrow> nat \<Rightarrow> nat \<Rightarrow> mem \<Rightarrow> int option" where
  "strcmp Words l r m = strcmp_word l r m"
| "strcmp Sse2 l r m = strcmp16_first l r m"
| "strcmp Avx2 l r m = strcmp32_first l r m"

declare strcmp16_blocks.simps [simp del] strcmp16_vectors.simps [simp del] strcmp32_blocks.simps [simp del]
  strcmp32_vectors.simps [simp del] strcmp32_words.simps [simp del]

section \<open>Where two strings part\<close>

definition parts :: "mem \<Rightarrow> nat \<Rightarrow> nat \<Rightarrow> nat \<Rightarrow> bool" where
  "parts m l r j \<longleftrightarrow> m (l + j) \<noteq> m (r + j) \<or> m (l + j) = Some 0"

text \<open>\<open>i\<close> is the first byte in which the strings differ or both end.\<close>

definition part_at :: "mem \<Rightarrow> nat \<Rightarrow> nat \<Rightarrow> nat \<Rightarrow> bool" where
  "part_at m l r i \<longleftrightarrow> parts m l r i \<and> (\<forall>j < i. \<not> parts m l r j) \<and> (\<forall>j \<le> i. m (l + j) \<noteq> None \<and> m (r + j) \<noteq> None)"

definition part_value :: "mem \<Rightarrow> nat \<Rightarrow> nat \<Rightarrow> nat \<Rightarrow> int" where
  "part_value m l r i = uint (the (m (l + i))) - uint (the (m (r + i)))"

lemma part_shift:
  assumes "part_at m l r i" "d \<le> i"
  shows "part_at m (l + d) (r + d) (i - d)" "part_value m (l + d) (r + d) (i - d) = part_value m l r i"
proof -
  have "parts m (l + d) (r + d) j \<longleftrightarrow> parts m l r (d + j)" for j by (simp add: parts_def add.assoc)
  then show "part_at m (l + d) (r + d) (i - d)" using assms by (auto simp: part_at_def add.assoc)
  show "part_value m (l + d) (r + d) (i - d) = part_value m l r i" using assms(2) by (simp add: part_value_def add.assoc)
qed

lemma minus_at_part: "part_at m l r i \<Longrightarrow> minus_at (l + i) (r + i) m = Some (part_value m l r i)"
  by (auto simp: part_at_def minus_at_def part_value_def)

text \<open>A mask of the bytes at which the strings part.\<close>

lemma part_mask:
  assumes p: "part_at m l r i" and k: "length k = w" "\<And>j. j < w \<Longrightarrow> k ! j \<longleftrightarrow> parts m l r (a + j)" and a: "a \<le> i"
  shows "some_bit k \<longleftrightarrow> i < a + w" "some_bit k \<Longrightarrow> a + at_bit k = i"
proof -
  have pi: "parts m l r i" "\<And>j. j < i \<Longrightarrow> \<not> parts m l r j" using p by (auto simp: part_at_def)
  show iff: "some_bit k \<longleftrightarrow> i < a + w"
  proof
    assume "some_bit k"
    then obtain j where "j < w" "parts m l r (a + j)" using k by (auto simp: some_bit_iff)
    then show "i < a + w" using pi(2) [of "a + j"] by (cases "a + j < i") auto
  next
    assume "i < a + w"
    then have "k ! (i - a)" "i - a < length k" using k a pi(1) by auto
    then show "some_bit k" by (auto simp: some_bit_iff)
  qed
  assume s: "some_bit k"
  have "parts m l r (a + at_bit k)" using at_bit(1,2) [OF s] k by auto
  then have "\<not> a + at_bit k < i" using pi(2) by blast
  moreover have "\<not> i - a < at_bit k" using at_bit(3) [OF s, of "i - a"] k(2) [of "i - a"] iff s a pi(1) by auto
  ultimately show "a + at_bit k = i" using a by linarith
qed

lemma bytes_parts:
  assumes B: "both m l r n" and a: "a + w \<le> n" and j: "j < w"
  shows "bytes m (l + a) w ! j \<noteq> bytes m (r + a) w ! j \<or> bytes m (l + a) w ! j = 0 \<longleftrightarrow> parts m l r (a + j)"
proof -
  obtain x y where "m (l + (a + j)) = Some x" "m (r + (a + j)) = Some y"
    using bothD [OF B, of "a + j"] a j by auto
  then show ?thesis using j by (simp add: parts_def add.assoc)
qed

definition steps_right :: "(nat \<Rightarrow> int option option) \<Rightarrow> nat \<Rightarrow> mem \<Rightarrow> nat \<Rightarrow> nat \<Rightarrow> nat \<Rightarrow> nat \<Rightarrow> bool" where
  "steps_right f w m l r n i \<longleftrightarrow>
     (\<forall>a. a \<le> i \<and> a + w \<le> n \<longrightarrow> f a = Some (if i < a + w then Some (part_value m l r i) else None))"

lemma STEP_generic:
  assumes B: "both m l r n" and p: "part_at m l r i"
    and f: "\<And>a. a + w \<le> n \<Longrightarrow> f a = (let k = g (bytes m (l + a) w) (bytes m (r + a) w) in
      if some_bit k then do { e \<leftarrow> minus_at (l + (a + at_bit k)) (r + (a + at_bit k)) m; Some (Some e) } else Some None)"
    and g: "\<And>a b. length a = w \<Longrightarrow> length b = w \<Longrightarrow> length (g a b) = w \<and> (\<forall>j < w. g a b ! j \<longleftrightarrow> a ! j \<noteq> b ! j \<or> a ! j = 0)"
  shows "steps_right f w m l r n i"
  unfolding steps_right_def
proof (intro allI impI)
  fix a assume a: "a \<le> i \<and> a + w \<le> n"
  let ?k = "g (bytes m (l + a) w) (bytes m (r + a) w)"
  have k: "length ?k = w" "\<And>j. j < w \<Longrightarrow> ?k ! j \<longleftrightarrow> parts m l r (a + j)"
    using g [of "bytes m (l + a) w" "bytes m (r + a) w"] bytes_parts [OF B] a by auto
  note pm = part_mask [OF p k] 
  show "f a = Some (if i < a + w then Some (part_value m l r i) else None)"
    using f [of a] a pm minus_at_part [OF p] by (auto simp: Let_def)
qed

lemma STEP16_ok:
  assumes B: "both m l r n" and p: "part_at m l r i"
  shows "steps_right (\<lambda>at. STEP16 l r at m) 16 m l r n i"
  by (rule STEP_generic [OF B p, where g = "\<lambda>a b. map2 (\<or>) (map Not (maskv (EQv a b))) (maskv (EQv a (splat 16 0)))"])
     (auto simp: STEP16_def ld_both [OF B] mask_EQ splat_def)

lemma EQv_nth: "length a = length b \<Longrightarrow> j < length a \<Longrightarrow> EQv a b ! j = 0 \<longleftrightarrow> a ! j \<noteq> b ! j"
  by (simp add: EQv_def)

lemma length_EQv: "length a = length b \<Longrightarrow> length (EQv a b) = length a"
  by (simp add: EQv_def)

lemma ends_nth:
  assumes "length a = w" "length b = w" "j < w"
  shows "MINv a (EQv a b) ! j = 0 \<longleftrightarrow> a ! j \<noteq> b ! j \<or> a ! j = 0" "length (MINv a (EQv a b)) = w"
  using assms by (auto simp: MINv_zero length_EQv EQv_nth)

lemma STEP32_ok:
  assumes B: "both m l r n" and p: "part_at m l r i"
  shows "steps_right (\<lambda>at. STEP32 l r at m) 32 m l r n i"
  by (rule STEP_generic [OF B p, where g = "\<lambda>a b. STOP (MINv a (EQv a b))"])
     (auto simp: STEP32_def ld_both [OF B] STOP_nth MINv_zero length_EQv EQv_nth)

lemma STEPs_four:
  assumes s: "steps_right f w m l r n i" and w: "0 < w" "4 * w \<le> n"
  shows "STEPs f (four w) = Some (if i < 4 * w then Some (part_value m l r i) else None)"
proof -
  have f: "f a = Some (if i < a + w then Some (part_value m l r i) else None)" if "a \<le> i" "a + w \<le> n" for a
    using s that by (simp add: steps_right_def)
  have n: "0 + w \<le> n" "w + w \<le> n" "2 * w + w \<le> n" "3 * w + w \<le> n" using w(2) by linarith+
  have go: "f a = Some None" if "a + w \<le> i" "a + w \<le> n" for a using f [of a] that by auto
  have hit: "f a = Some (Some (part_value m l r i))" if "a \<le> i" "i < a + w" "a + w \<le> n" for a using f [of a] that by auto
  consider "i < w" | "w \<le> i" "i < w + w" | "2 * w \<le> i" "i < 2 * w + w" | "3 * w \<le> i" "i < 3 * w + w" | "4 * w \<le> i" by linarith
  then show ?thesis
  proof cases
    case 1
    have f0: "f (0) = Some (Some (part_value m l r i))" by (rule hit) (use 1 n in linarith)+
    have "i < 4 * w" using 1 by linarith
    then show ?thesis by (simp add: f0)
  next
    case 2
    have f0: "f (0) = Some None" by (rule go) (use 2 n in linarith)+
    have f1: "f (w) = Some (Some (part_value m l r i))" by (rule hit) (use 2 n in linarith)+
    have "i < 4 * w" using 2 by linarith
    then show ?thesis by (simp add: f0 f1)
  next
    case 3
    have f0: "f (0) = Some None" by (rule go) (use 3 n in linarith)+
    have f1: "f (w) = Some None" by (rule go) (use 3 n in linarith)+
    have f2: "f (2 * w) = Some (Some (part_value m l r i))" by (rule hit) (use 3 n in linarith)+
    have "i < 4 * w" using 3 by linarith
    then show ?thesis by (simp add: f0 f1 f2)
  next
    case 4
    have f0: "f (0) = Some None" by (rule go) (use 4 n in linarith)+
    have f1: "f (w) = Some None" by (rule go) (use 4 n in linarith)+
    have f2: "f (2 * w) = Some None" by (rule go) (use 4 n in linarith)+
    have f3: "f (3 * w) = Some (Some (part_value m l r i))" by (rule hit) (use 4 n in linarith)+
    have "i < 4 * w" using 4 by linarith
    then show ?thesis by (simp add: f0 f1 f2 f3)
  next
    case 5
    have f0: "f (0) = Some None" by (rule go) (use 5 n in linarith)+
    have f1: "f (w) = Some None" by (rule go) (use 5 n in linarith)+
    have f2: "f (2 * w) = Some None" by (rule go) (use 5 n in linarith)+
    have f3: "f (3 * w) = Some None" by (rule go) (use 5 n in linarith)+
    have "\<not> i < 4 * w" using 5 by linarith
    then show ?thesis by (simp add: f0 f1 f2 f3)
  qed
qed

section \<open>The loops\<close>

text \<open>Where an inner loop has got to: it answered, or went on by at most the room it had and not past
  the byte at which the strings part.\<close>

definition went :: "mem \<Rightarrow> nat \<Rightarrow> nat \<Rightarrow> nat \<Rightarrow> nat \<Rightarrow> cmp_state option \<Rightarrow> bool" where
  "went m l r room i x \<longleftrightarrow>
     (case x of
        None \<Rightarrow> False
      | Some (Inl e) \<Rightarrow> e = part_value m l r i
      | Some (Inr (room', l', r')) \<Rightarrow> \<exists>d \<le> i. d \<le> room \<and> room' = room - d \<and> l' = l + d \<and> r' = r + d)"

lemma went_stay: "went m l r room i (Some (Inr (room, l, r)))"
  by (auto simp: went_def)

lemma went_shift:
  assumes "went m (l + c) (r + c) (room - c) (i - c) x" "c \<le> i" "c \<le> room" "part_at m l r i"
  shows "went m l r room i x"
proof -
  have "\<exists>d \<le> i. d \<le> room \<and> room' = room - d \<and> l' = l + d \<and> r' = r + d"
    if "\<exists>d \<le> i - c. d \<le> room - c \<and> room' = room - c - d \<and> l' = l + c + d \<and> r' = r + c + d" for room' l' r'
  proof -
    from that obtain d where "d \<le> i - c \<and> d \<le> room - c \<and> room' = room - c - d \<and> l' = l + c + d \<and> r' = r + c + d" ..
    then show ?thesis using assms(2,3) by (intro exI [of _ "c + d"]) auto
  qed
  with assms part_shift(2) [OF assms(4,2)] show ?thesis
    by (auto simp: went_def split: option.splits sum.splits prod.splits)
qed

lemma both_shift: "both m l r room \<Longrightarrow> c \<le> room \<Longrightarrow> both m (l + c) (r + c) (room - c)"
  by (auto simp: both_def intro: mapped_sub)

lemma went_and_then:
  assumes x: "went m l r room i x" and p: "part_at m l r i" and B: "both m l r room"
    and f: "\<And>room l r i. part_at m l r i \<Longrightarrow> both m l r room \<Longrightarrow> went m l r room i (f room l r)"
  shows "went m l r room i (and_then x f)"
proof (cases x)
  case None
  then show ?thesis using x by (simp add: went_def)
next
  case (Some s)
  show ?thesis
  proof (cases s)
    case (Inl e)
    then show ?thesis using x Some by (simp add: and_then_def)
  next
    case (Inr t)
    obtain room' l' r' where t: "t = (room', l', r')" by (cases t)
    then obtain d where d: "d \<le> i" "d \<le> room" "room' = room - d" "l' = l + d" "r' = r + d"
      using x Some Inr by (auto simp: went_def)
    have "went m (l + d) (r + d) (room - d) (i - d) (f room' l' r')"
      unfolding d by (rule f [OF part_shift(1) [OF p d(1)] both_shift [OF B d(2)]])
    from went_shift [OF this d(1,2) p] show ?thesis using Some Inr t by (simp add: and_then_def)
  qed
qed

lemma went_step:
  assumes x: "x = Some (if i < w then Some (part_value m l r i) else None)" and w: "w \<le> room"
    and p: "part_at m l r i" and rest: "w \<le> i \<Longrightarrow> went m (l + w) (r + w) (room - w) (i - w) y"
  shows "went m l r room i (do { z \<leftarrow> x; case z of Some e \<Rightarrow> Some (Inl e) | None \<Rightarrow> y })"
proof (cases "i < w")
  case True
  then show ?thesis using x by (simp add: went_def)
next
  case False
  then show ?thesis using x went_shift [OF rest _ w p] by simp
qed

lemma ends4_ok:
  assumes B: "both m l r n" and p: "part_at m l r i" and w: "0 < w" "4 * w \<le> n"
    and a: "a = map (\<lambda>k. bytes m (l + k) w) (four w)" and b: "b = map (\<lambda>k. bytes m (r + k) w) (four w)"
  shows "some_bit (STOP (ends4 a b)) \<longleftrightarrow> i < 4 * w"
proof -
  let ?t = "\<lambda>k. MINv (bytes m (l + k) w) (EQv (bytes m (l + k) w) (bytes m (r + k) w))"
  have len: "length (?t k) = w" for k by (simp add: MINv_zero length_EQv)
  have t: "?t k ! j = 0 \<longleftrightarrow> parts m l r (k + j)" if "k + w \<le> n" "j < w" for k j
    using bytes_parts [OF B that] that by (simp add: ends_nth)
  have any: "some_bit (STOP (?t k)) \<longleftrightarrow> (\<exists>j < w. parts m l r (k + j))" if "k + w \<le> n" for k
    using t [OF that] by (auto simp: some_bit_iff STOP_nth len)
  have "some_bit (STOP (ends4 a b)) \<longleftrightarrow>
      some_bit (STOP (?t 0)) \<or> some_bit (STOP (?t w)) \<or> some_bit (STOP (?t (2 * w))) \<or> some_bit (STOP (?t (3 * w)))"
    by (simp add: ends4_def a b some_STOP_MIN MINv_zero length_EQv)
  also have "\<dots> \<longleftrightarrow> (\<exists>j < 4 * w. parts m l r j)"
  proof -
    have "(\<exists>j < 4 * w. parts m l r j) \<longleftrightarrow>
        (\<exists>j < w. parts m l r (0 + j)) \<or> (\<exists>j < w. parts m l r (w + j)) \<or> (\<exists>j < w. parts m l r (2 * w + j)) \<or> (\<exists>j < w. parts m l r (3 * w + j))"
      (is "?L \<longleftrightarrow> ?R")
    proof
      assume ?L
      then obtain j where j: "j < 4 * w" "parts m l r j" by blast
      consider "j < w" | "w \<le> j" "j < 2 * w" | "2 * w \<le> j" "j < 3 * w" | "3 * w \<le> j" using j(1) by linarith
      then show ?R
      proof cases
        case 1
        then show ?thesis using j by auto
      next
        case 2
        then have "parts m l r (w + (j - w))" "j - w < w" using j by auto
        then show ?thesis by blast
      next
        case 3
        then have "parts m l r (2 * w + (j - 2 * w))" "j - 2 * w < w" using j by auto
        then show ?thesis by blast
      next
        case 4
        then have "parts m l r (3 * w + (j - 3 * w))" "j - 3 * w < w" using j by auto
        then show ?thesis by blast
      qed
    next
      assume ?R
      then show ?L
      proof (elim disjE exE conjE)
        fix j assume "j < w" "parts m l r (0 + j)"
        then show ?L by (intro exI [of _ j]) auto
      next
        fix j assume "j < w" "parts m l r (w + j)"
        then show ?L by (intro exI [of _ "w + j"]) auto
      next
        fix j assume "j < w" "parts m l r (2 * w + j)"
        then show ?L by (intro exI [of _ "2 * w + j"]) auto
      next
        fix j assume "j < w" "parts m l r (3 * w + j)"
        then show ?L by (intro exI [of _ "3 * w + j"]) auto
      qed
    qed
    then show ?thesis using any [of 0] any [of w] any [of "2 * w"] any [of "3 * w"] w by simp
  qed
  also have "\<dots> \<longleftrightarrow> i < 4 * w" using p by (auto simp: part_at_def) (metis not_less_iff_gr_or_eq order.strict_trans)
  finally show ?thesis .
qed

lemma lds_four:
  assumes "mapped m p n" "4 * w \<le> n"
  shows "lds w p (four w) m = Some (map (\<lambda>k. bytes m (p + k) w) (four w))"
  by (rule lds_mapped, rule mapped_sub [OF assms(1)]) (use assms(2) in auto)

lemma lds_both:
  assumes "both m l r n" "4 * w \<le> n"
  shows "lds w l (four w) m = Some (map (\<lambda>k. bytes m (l + k) w) (four w))"
    "lds w r (four w) m = Some (map (\<lambda>k. bytes m (r + k) w) (four w))"
  using lds_four [OF _ assms(2)] assms(1) by (simp_all only: both_def)

lemma block_step:
  assumes B: "both m l r room" and p: "part_at m l r i" and w: "0 < w" "4 * w \<le> room"
    and s: "steps_right f w m l r room i"
    and rest: "4 * w \<le> i \<Longrightarrow> went m (l + 4 * w) (r + 4 * w) (room - 4 * w) (i - 4 * w) y"
  shows "went m l r room i (do {
      a \<leftarrow> lds w l (four w) m; b \<leftarrow> lds w r (four w) m;
      x \<leftarrow> (if some_bit (STOP (ends4 a b)) then STEPs f (four w) else Some None);
      case x of Some e \<Rightarrow> Some (Inl e) | None \<Rightarrow> y })"
proof -
  let ?a = "map (\<lambda>k. bytes m (l + k) w) (four w)" and ?b = "map (\<lambda>k. bytes m (r + k) w) (four w)"
  have "(if some_bit (STOP (ends4 ?a ?b)) then STEPs f (four w) else Some None) = Some (if i < 4 * w then Some (part_value m l r i) else None)"
    unfolding ends4_ok [OF B p w refl refl] STEPs_four [OF s w] by simp
  from went_step [OF this w(2) p rest] show ?thesis
    by (simp only: lds_both [OF B w(2)] Option.bind.bind_lunit)
qed

lemma strcmp16_blocks_ok: "part_at m l r i \<Longrightarrow> both m l r room \<Longrightarrow> went m l r room i (strcmp16_blocks room l r m)"
proof (induction room arbitrary: l r i rule: less_induct)
  case (less room)
  show ?case
  proof (cases "64 \<le> room")
    case True
    have "went m l r room i (do {
        a \<leftarrow> lds 16 l (four 16) m; b \<leftarrow> lds 16 r (four 16) m;
        x \<leftarrow> (if some_bit (STOP (ends4 a b)) then STEPs (\<lambda>at. STEP16 l r at m) (four 16) else Some None);
        case x of Some e \<Rightarrow> Some (Inl e) | None \<Rightarrow> strcmp16_blocks (room - 64) (l + 64) (r + 64) m })"
    proof (rule block_step [OF less.prems(2,1) _ _ STEP16_ok [OF less.prems(2,1)]])
      assume "4 * 16 \<le> i"
      then show "went m (l + 4 * 16) (r + 4 * 16) (room - 4 * 16) (i - 4 * 16) (strcmp16_blocks (room - 64) (l + 64) (r + 64) m)"
        using less.IH [of "room - 64" "l + 64" "r + 64" "i - 64"] part_shift(1) [OF less.prems(1), of 64] both_shift [OF less.prems(2) True] True by simp
    qed (use True in auto)
    then show ?thesis using True by (subst strcmp16_blocks.simps) (simp only: if_True)
  next
    case False
    then show ?thesis using went_stay by (subst strcmp16_blocks.simps) simp
  qed
qed

lemma strcmp32_blocks_ok: "part_at m l r i \<Longrightarrow> both m l r room \<Longrightarrow> went m l r room i (strcmp32_blocks room l r m)"
proof (induction room arbitrary: l r i rule: less_induct)
  case (less room)
  show ?case
  proof (cases "128 \<le> room")
    case True
    have "went m l r room i (do {
        a \<leftarrow> lds 32 l (four 32) m; b \<leftarrow> lds 32 r (four 32) m;
        x \<leftarrow> (if some_bit (STOP (ends4 a b)) then STEPs (\<lambda>at. STEP32 l r at m) (four 32) else Some None);
        case x of Some e \<Rightarrow> Some (Inl e) | None \<Rightarrow> strcmp32_blocks (room - 128) (l + 128) (r + 128) m })"
    proof (rule block_step [OF less.prems(2,1) _ _ STEP32_ok [OF less.prems(2,1)]])
      assume "4 * 32 \<le> i"
      then show "went m (l + 4 * 32) (r + 4 * 32) (room - 4 * 32) (i - 4 * 32) (strcmp32_blocks (room - 128) (l + 128) (r + 128) m)"
        using less.IH [of "room - 128" "l + 128" "r + 128" "i - 128"] part_shift(1) [OF less.prems(1), of 128] both_shift [OF less.prems(2) True] True by simp
    qed (use True in auto)
    then show ?thesis using True by (subst strcmp32_blocks.simps) (simp only: if_True)
  next
    case False
    then show ?thesis using went_stay by (subst strcmp32_blocks.simps) simp
  qed
qed

lemma strcmp16_vectors_ok: "part_at m l r i \<Longrightarrow> both m l r room \<Longrightarrow> went m l r room i (strcmp16_vectors room l r m)"
proof (induction room arbitrary: l r i rule: less_induct)
  case (less room)
  show ?case
  proof (cases "16 \<le> room")
    case True
    have "STEP16 l r 0 m = Some (if i < 16 then Some (part_value m l r i) else None)"
      using STEP16_ok [OF less.prems(2,1)] True unfolding steps_right_def by (metis add_0 le0)
    from went_step [OF this True less.prems(1)] show ?thesis
      using less.IH [of "room - 16" "l + 16" "r + 16" "i - 16"] part_shift(1) [OF less.prems(1), of 16] both_shift [OF less.prems(2) True] True
      by (subst strcmp16_vectors.simps) simp
  next
    case False
    then show ?thesis using went_stay by (subst strcmp16_vectors.simps) simp
  qed
qed

lemma strcmp32_vectors_ok: "part_at m l r i \<Longrightarrow> both m l r room \<Longrightarrow> went m l r room i (strcmp32_vectors room l r m)"
proof (induction room arbitrary: l r i rule: less_induct)
  case (less room)
  show ?case
  proof (cases "32 \<le> room")
    case True
    have "STEP32 l r 0 m = Some (if i < 32 then Some (part_value m l r i) else None)"
      using STEP32_ok [OF less.prems(2,1)] True unfolding steps_right_def by (metis add_0 le0)
    from went_step [OF this True less.prems(1)] show ?thesis
      using less.IH [of "room - 32" "l + 32" "r + 32" "i - 32"] part_shift(1) [OF less.prems(1), of 32] both_shift [OF less.prems(2) True] True
      by (subst strcmp32_vectors.simps) simp
  next
    case False
    then show ?thesis using went_stay by (subst strcmp32_vectors.simps) simp
  qed
qed

lemma strcmp32_words_ok: "part_at m l r i \<Longrightarrow> both m l r room \<Longrightarrow> went m l r room i (strcmp32_words room l r m)"
proof (induction room arbitrary: l r i rule: less_induct)
  case (less room)
  show ?case
  proof (cases "8 \<le> room")
    case True
    let ?a = "bytes m l 8" and ?b = "bytes m r 8"
    have ld: "ld 8 l m = Some ?a" "ld 8 r m = Some ?b" using ld_both [OF less.prems(2), of 0 8] True by simp_all
    show ?thesis
    proof (cases "le_word ?a \<noteq> le_word ?b \<or> HASZERO (le_word ?a) \<noteq> 0")
      case stop: True
      then show ?thesis using True ld went_stay by (subst strcmp32_words.simps) (simp del: HASZERO_ok)
    next
      case False
      have nz: "0 \<notin> set ?a" using False HASZERO_ok(1) [of ?a] by auto
      have "\<not> parts m l r j" if "j < 8" for j
      proof -
        have "bytes m l 8 ! j = bytes m r 8 ! j"
        proof (rule bit_word_eqI)
          fix n assume "n < LENGTH(8)"
          moreover have "bit (le_word ?a) (8 * j + n) = bit (le_word ?b) (8 * j + n)" using False by simp
          ultimately show "bit (?a ! j) n = bit (?b ! j) n" using that by (simp add: bit_le_word)
        qed
        moreover have "?a ! j \<noteq> 0" using nz that by (metis length_bytes nth_mem)
        ultimately show ?thesis using bytes_parts [OF less.prems(2), of 0 8 j] that True by simp
      qed
      then have i: "8 \<le> i" using less.prems(1) by (meson not_le part_at_def)
      have "went m (l + 8) (r + 8) (room - 8) (i - 8) (strcmp32_words (room - 8) (l + 8) (r + 8) m)"
        using less.IH [of "room - 8" "l + 8" "r + 8" "i - 8"] part_shift(1) [OF less.prems(1) i] both_shift [OF less.prems(2) True] True by simp
      from went_shift [OF this i True less.prems(1)] show ?thesis
        using True ld False by (subst strcmp32_words.simps) simp
    qed
  next
    case False
    then show ?thesis using went_stay by (subst strcmp32_words.simps) simp
  qed
qed

text \<open>The bytes use up the room.\<close>

lemma strcmp_bytes_ok:
  "part_at m l r i \<Longrightarrow> both m l r room \<Longrightarrow> went m l r room i (strcmp_bytes room l r m)
     \<and> (\<forall>s. strcmp_bytes room l r m = Some (Inr s) \<longrightarrow> fst s = 0)"
proof (induction room arbitrary: l r i)
  case 0
  then show ?case using went_stay by auto
next
  case (Suc room)
  obtain a b where ab: "m l = Some a" "m r = Some b" using bothD [OF Suc.prems(2), of 0] by auto
  show ?case
  proof (cases "a \<noteq> b \<or> a = 0")
    case True
    then have "parts m l r 0" using ab by (auto simp: parts_def)
    then have "i = 0" using Suc.prems(1) by (auto simp: part_at_def)
    then show ?thesis using True ab by (simp add: went_def part_value_def)
  next
    case False
    then have "\<not> parts m l r 0" using ab by (auto simp: parts_def)
    then have i: "1 \<le> i" using Suc.prems(1) by (cases i) (auto simp: part_at_def)
    have "went m (l + 1) (r + 1) room (i - 1) (strcmp_bytes room (l + 1) (r + 1) m)
        \<and> (\<forall>s. strcmp_bytes room (l + 1) (r + 1) m = Some (Inr s) \<longrightarrow> fst s = 0)"
      using both_shift [OF Suc.prems(2), of 1] by (intro Suc.IH part_shift(1) [OF Suc.prems(1) i]) simp
    then show ?thesis using False ab went_shift [of m l 1 r "Suc room" i] i Suc.prems(1) by simp
  qed
qed

lemma near_both:
  assumes "paged m" "part_at m l r i"
  shows "both m l r (nearer_end l r)" "0 < nearer_end l r"
proof -
  have "m l \<noteq> None" "m r \<noteq> None" using assms(2) by (auto simp: part_at_def dest: spec [of _ 0])
  then show "both m l r (nearer_end l r)"
    using page_head [OF assms(1)] by (simp add: both_def nearer_end_def)
  show "0 < nearer_end l r" by (simp add: nearer_end_def TO_PAGE_END_def)
qed

lemma and_then_Inr:
  assumes "and_then x f = Some (Inr s)"
  obtains room l r where "x = Some (Inr (room, l, r))" "f room l r = Some (Inr s)"
proof (cases x)
  case (Some y)
  then show ?thesis using assms that by (cases y) (auto simp: and_then_def)
qed (use assms in \<open>simp add: and_then_def\<close>)

lemma round_final:
  assumes x: "went m l r room i x" and p: "part_at m l r i" and B: "both m l r room"
  shows "went m l r room i (and_then x (\<lambda>room l r. strcmp_bytes room l r m))"
    and "and_then x (\<lambda>room l r. strcmp_bytes room l r m) = Some (Inr s) \<Longrightarrow> fst s = 0"
proof -
  show "went m l r room i (and_then x (\<lambda>room l r. strcmp_bytes room l r m))"
    by (rule went_and_then [OF x p B]) (use strcmp_bytes_ok in blast)
  assume s: "and_then x (\<lambda>room l r. strcmp_bytes room l r m) = Some (Inr s)"
  then obtain room' l' r' where t: "x = Some (Inr (room', l', r'))" "strcmp_bytes room' l' r' m = Some (Inr s)"
    by (rule and_then_Inr)
  then obtain d where d: "d \<le> i" "d \<le> room" "room' = room - d" "l' = l + d" "r' = r + d" using x by (auto simp: went_def)
  show "fst s = 0"
    using strcmp_bytes_ok [OF part_shift(1) [OF p d(1)] both_shift [OF B d(2)]] t(2) d by blast
qed

lemma strcmp16_round_ok:
  assumes m: "paged m" "part_at m l r i"
  shows "went m l r (nearer_end l r) i (strcmp16_round l r m)" "strcmp16_round l r m = Some (Inr s) \<Longrightarrow> fst s = 0"
proof -
  note B = near_both(1) [OF m]
  have x: "went m l r (nearer_end l r) i (and_then (strcmp16_blocks (nearer_end l r) l r m) (\<lambda>room l r. strcmp16_vectors room l r m))"
    by (rule went_and_then [OF strcmp16_blocks_ok [OF m(2) B] m(2) B strcmp16_vectors_ok])
  show "went m l r (nearer_end l r) i (strcmp16_round l r m)" "strcmp16_round l r m = Some (Inr s) \<Longrightarrow> fst s = 0"
    unfolding strcmp16_round_def using round_final [OF x m(2) B] by blast+
qed

lemma strcmp32_round_ok:
  assumes m: "paged m" "part_at m l r i"
  shows "went m l r (nearer_end l r) i (strcmp32_round l r m)" "strcmp32_round l r m = Some (Inr s) \<Longrightarrow> fst s = 0"
proof -
  note B = near_both(1) [OF m]
  have "went m l r (nearer_end l r) i (and_then (strcmp32_blocks (nearer_end l r) l r m) (\<lambda>room l r. strcmp32_vectors room l r m))"
    by (rule went_and_then [OF strcmp32_blocks_ok [OF m(2) B] m(2) B strcmp32_vectors_ok])
  from went_and_then [OF this m(2) B strcmp32_words_ok]
  have x: "went m l r (nearer_end l r) i (and_then (and_then (strcmp32_blocks (nearer_end l r) l r m)
      (\<lambda>room l r. strcmp32_vectors room l r m)) (\<lambda>room l r. strcmp32_words room l r m))" .
  show "went m l r (nearer_end l r) i (strcmp32_round l r m)" "strcmp32_round l r m = Some (Inr s) \<Longrightarrow> fst s = 0"
    unfolding strcmp32_round_def using round_final [OF x m(2) B] by blast+
qed

text \<open>A round that does not answer has passed the end of a page: the loops return.\<close>

lemma round_cases:
  assumes m: "paged m" "part_at m l r i" and g: "went m l r (nearer_end l r) i x" "\<And>s. x = Some (Inr s) \<Longrightarrow> fst s = 0"
  obtains "x = Some (Inl (part_value m l r i))"
  | d where "0 < d" "d \<le> i" "x = Some (Inr (0, l + d, r + d))"
proof (cases x)
  case None
  then show ?thesis using g(1) by (simp add: went_def)
next
  case (Some s)
  show ?thesis
  proof (cases s)
    case (Inl e)
    then show ?thesis using that(1) g(1) Some by (simp add: went_def)
  next
    case (Inr t)
    obtain room' l' r' where t: "t = (room', l', r')" by (cases t)
    then obtain d where d: "d \<le> i" "d \<le> nearer_end l r" "room' = nearer_end l r - d" "l' = l + d" "r' = r + d"
      using g(1) Some Inr by (auto simp: went_def)
    moreover have "room' = 0" using g(2) [of t] Some Inr t by simp
    ultimately show ?thesis using that(2) [of d] near_both(2) [OF m] Some Inr t by simp
  qed
qed

lemma strcmp16_ok: "paged m \<Longrightarrow> part_at m l r i \<Longrightarrow> strcmp16 l r m = Some (part_value m l r i)"
proof (induction i arbitrary: l r rule: less_induct)
  case (less i)
  show ?case
  proof (rule round_cases [OF less.prems strcmp16_round_ok [OF less.prems]])
    assume "strcmp16_round l r m = Some (Inl (part_value m l r i))"
    then show ?thesis by (subst strcmp16.simps) simp
  next
    fix d assume d: "0 < d" "d \<le> i" "strcmp16_round l r m = Some (Inr (0, l + d, r + d))"
    then show ?thesis using less.IH [of "i - d"] less.prems part_shift [OF less.prems(2) d(2)]
      by (subst strcmp16.simps) simp
  qed
qed

lemma strcmp32_loop_ok: "paged m \<Longrightarrow> part_at m l r i \<Longrightarrow> strcmp32_loop l r m = Some (part_value m l r i)"
proof (induction i arbitrary: l r rule: less_induct)
  case (less i)
  show ?case
  proof (rule round_cases [OF less.prems strcmp32_round_ok [OF less.prems]])
    assume "strcmp32_round l r m = Some (Inl (part_value m l r i))"
    then show ?thesis by (subst strcmp32_loop.simps) simp
  next
    fix d assume d: "0 < d" "d \<le> i" "strcmp32_round l r m = Some (Inr (0, l + d, r + d))"
    then show ?thesis using less.IH [of "i - d"] less.prems part_shift [OF less.prems(2) d(2)]
      by (subst strcmp32_loop.simps) simp
  qed
qed

section \<open>strcmp compares\<close>

lemma or_else_part:
  assumes "x = Some (if i < w then Some (part_value m l r i) else None)" "w \<le> i \<Longrightarrow> y = Some (part_value m l r i)"
  shows "or_else x y = Some (part_value m l r i)"
  using assms by (cases "i < w") (simp_all add: or_else_def)

lemma head_both:
  assumes "paged m" "part_at m l r i" "n \<le> TO_PAGE_END l" "n \<le> TO_PAGE_END r"
  shows "both m l r n"
proof -
  have n: "n \<le> nearer_end l r" using assms(3,4) by (simp add: nearer_end_def)
  show ?thesis
    using near_both(1) [OF assms(1,2)] mapped_sub [of m l _ l n] mapped_sub [of m r _ r n] n by (auto simp: both_def)
qed

lemma strcmp16_first_ok:
  assumes m: "paged m" "part_at m l r i"
  shows "strcmp16_first l r m = Some (part_value m l r i)"
proof (cases "64 \<le> TO_PAGE_END l \<and> 64 \<le> TO_PAGE_END r")
  case True
  have B: "both m l r 64" using head_both [OF m] True by blast
  have "STEPs (\<lambda>at. STEP16 l r at m) (four 16) = Some (if i < 4 * 16 then Some (part_value m l r i) else None)"
    by (rule STEPs_four [OF STEP16_ok [OF B m(2)]]) simp_all
  then have "STEPs (\<lambda>at. STEP16 l r at m) [0, 16, 32, 48] = Some (if i < 64 then Some (part_value m l r i) else None)"
    by (simp del: STEPs.simps)
  moreover have "strcmp16 (l + 64) (r + 64) m = Some (part_value m l r i)" if "64 \<le> i"
    using strcmp16_ok [OF m(1) part_shift(1) [OF m(2) that]] part_shift(2) [OF m(2) that] by simp
  ultimately show ?thesis using True by (simp only: strcmp16_first_def or_else_part if_True simp_thms)
next
  case False
  then show ?thesis using strcmp16_ok [OF m] by (simp only: strcmp16_first_def if_False)
qed

lemma strcmp32_ok:
  assumes m: "paged m" "part_at m l r i"
  shows "strcmp32 l r m = Some (part_value m l r i)"
proof (cases "l mod 32 \<noteq> 0 \<and> 32 \<le> TO_PAGE_END l \<and> 32 \<le> TO_PAGE_END r")
  case True
  have B: "both m l r 32" using head_both [OF m] True by blast
  have "STEP32 l r 0 m = Some (if i < 32 then Some (part_value m l r i) else None)"
    using STEP32_ok [OF B m(2)] unfolding steps_right_def by (metis add_0 le0 order_refl)
  moreover have "strcmp32_loop (l + (32 - l mod 32)) (r + (32 - l mod 32)) m = Some (part_value m l r i)" if "32 \<le> i"
  proof -
    have "32 - l mod 32 \<le> i" using that by simp
    from strcmp32_loop_ok [OF m(1) part_shift(1) [OF m(2) this]] part_shift(2) [OF m(2) this] show ?thesis by simp
  qed
  ultimately show ?thesis using True by (simp only: strcmp32_def Let_def or_else_part if_True simp_thms)
next
  case False
  then show ?thesis using strcmp32_loop_ok [OF m] by (simp only: strcmp32_def if_False)
qed

lemma strcmp32_first_ok:
  assumes m: "paged m" "part_at m l r i"
  shows "strcmp32_first l r m = Some (part_value m l r i)"
proof (cases "128 \<le> TO_PAGE_END l \<and> 128 \<le> TO_PAGE_END r")
  case True
  have B: "both m l r 128" using head_both [OF m] True by blast
  have "STEPs (\<lambda>at. STEP32 l r at m) (four 32) = Some (if i < 4 * 32 then Some (part_value m l r i) else None)"
    by (rule STEPs_four [OF STEP32_ok [OF B m(2)]]) simp_all
  then have "STEPs (\<lambda>at. STEP32 l r at m) [0, 32, 64, 96] = Some (if i < 128 then Some (part_value m l r i) else None)"
    by (simp del: STEPs.simps)
  moreover have "strcmp32 (l + 128) (r + 128) m = Some (part_value m l r i)" if "128 \<le> i"
    using strcmp32_ok [OF m(1) part_shift(1) [OF m(2) that]] part_shift(2) [OF m(2) that] by simp
  ultimately show ?thesis using True by (simp only: strcmp32_first_def or_else_part if_True simp_thms)
next
  case False
  then show ?thesis using strcmp32_ok [OF m] by (simp only: strcmp32_first_def if_False)
qed

lemma strcmp_word_ok: "part_at m l r i \<Longrightarrow> strcmp_word l r m = Some (part_value m l r i)"
proof (induction i arbitrary: l r)
  case 0
  then obtain a b where "m l = Some a" "m r = Some b" "a \<noteq> b \<or> a = 0" by (auto simp: part_at_def parts_def)
  then show ?case by (subst strcmp_word.simps) (auto simp: part_value_def)
next
  case (Suc i)
  then have "\<not> parts m l r 0" "m l \<noteq> None" by (auto simp: part_at_def dest: spec [of _ 0])
  then obtain a where a: "m l = Some a" "m r = Some a" "a \<noteq> 0" by (auto simp: parts_def)
  have "part_at m (l + 1) (r + 1) i" "part_value m (l + 1) (r + 1) i = part_value m l r (Suc i)"
    using part_shift [OF Suc.prems, of 1] by simp_all
  with a show ?case using Suc.IH by (subst strcmp_word.simps) simp
qed

text \<open>C13: \<open>strcmp\<close> answers the difference of the first bytes in which the strings differ, zero when both
  end there, at every width and for every pair of alignments; it returns, and reads only the pages the
  two strings lie in up to that byte.\<close>

theorem strcmp_correct:
  assumes "paged m" "part_at m l r i"
  shows "strcmp v l r m = Some (part_value m l r i)"
  using strcmp_word_ok [OF assms(2)] strcmp16_first_ok [OF assms] strcmp32_first_ok [OF assms] by (cases v) simp_all

theorem strcmp_correct_witness:
  "strcmp Avx2 4100 6500 sample_page = Some (- 1) \<and> strcmp Sse2 8000 8000 sample_page = Some 0"
proof -
  have "part_at sample_page 4100 6500 500" "part_at sample_page 8000 8000 0"
    by (auto simp: part_at_def parts_def sample_page_def)
  then show ?thesis
    using strcmp_correct [OF sample_page_paged, of 4100 6500 500 Avx2] strcmp_correct [OF sample_page_paged, of 8000 8000 0 Sse2]
    by (simp add: part_value_def sample_page_def)
qed

end
