(* ===== verification/Okm_Stream.thy ===== *)
theory Okm_Stream
  imports Okm_Fd
begin

text \<open>
  Transfers: bounded reads and writes and the byte a readiness enquiry took
  (port/src/okm_poll.c, to \<open>okm_take_ahead\<close>), and \<open>read\<close>, \<open>write\<close>, their vectored forms and the
  transfers at an offset (port/src/okm_syscall.c, \<open>stream_of\<close> to \<open>do_transfer_at\<close>).

  A transfer answers \<open>Inl\<close> the negated error number or \<open>Inr\<close> the bytes placed in the buffer
  (reading) or the count accepted (writing). A buffer to be filled enters by its length.
\<close>

section \<open>Bounded transfers and the read-ahead\<close>

abbreviation (input) OKM_NOW_NS :: nat where "OKM_NOW_NS \<equiv> 1"

definition okm_can_bound :: "'e kal \<Rightarrow> bool" where
  "okm_can_bound K \<longleftrightarrow> K_timeout K \<noteq> None"

text \<open>
  What a transfer that moved nothing reports. A count or the condition: the environment's
  negative word is an error, and the answer of the transfer is the count otherwise.
\<close>

definition io_error :: "kal_error \<Rightarrow> int" where
  "io_error e = (if e = kal_err_again then - EAGAIN else - okm_errno e)"

definition okm_timed_read ::
  "'e kal \<Rightarrow> kal_stream \<Rightarrow> nat \<Rightarrow> nat \<Rightarrow> 'e okm \<Rightarrow> (int + byte list) \<times> 'e okm" where
  "okm_timed_read K stream len ns s =
     (case K_timeout K of
        None \<Rightarrow> (Inl (- ENOSYS), s)
      | Some T \<Rightarrow>
          if len = 0 then (Inr [], s)
          else case timeout_read T stream len ns (env s) of
            (Inl e, e') \<Rightarrow> (Inl (io_error e), s\<lparr>env := e'\<rparr>)
          | (Inr bs, e') \<Rightarrow> (Inr bs, s\<lparr>env := e'\<rparr>))"

definition okm_timed_write ::
  "'e kal \<Rightarrow> kal_stream \<Rightarrow> byte list \<Rightarrow> nat \<Rightarrow> 'e okm \<Rightarrow> (int + nat) \<times> 'e okm" where
  "okm_timed_write K stream buf ns s =
     (case K_timeout K of
        None \<Rightarrow> (Inl (- ENOSYS), s)
      | Some T \<Rightarrow>
          if length buf = 0 then (Inr 0, s)
          else case timeout_write T stream buf ns (env s) of
            (Inl e, e') \<Rightarrow> (Inl (io_error e), s\<lparr>env := e'\<rparr>)
          | (Inr n, e') \<Rightarrow> (Inr n, s\<lparr>env := e'\<rparr>))"

text \<open>\<open>kal_stream_read\<close> and \<open>kal_stream_write\<close> with the answer translated, as every unbounded
  transfer of the port makes them.\<close>

definition plain_read ::
  "'e kal \<Rightarrow> kal_stream \<Rightarrow> nat \<Rightarrow> 'e okm \<Rightarrow> (int + byte list) \<times> 'e okm" where
  "plain_read K stream len s =
     (case stream_read K stream len (env s) of
        (Inl e, e') \<Rightarrow> (Inl (- okm_errno e), s\<lparr>env := e'\<rparr>)
      | (Inr bs, e') \<Rightarrow> (Inr bs, s\<lparr>env := e'\<rparr>))"

definition plain_write ::
  "'e kal \<Rightarrow> kal_stream \<Rightarrow> byte list \<Rightarrow> 'e okm \<Rightarrow> (int + nat) \<times> 'e okm" where
  "plain_write K stream buf s =
     (case stream_write K stream buf (env s) of
        (Inl e, e') \<Rightarrow> (Inl (- okm_errno e), s\<lparr>env := e'\<rparr>)
      | (Inr n, e') \<Rightarrow> (Inr n, s\<lparr>env := e'\<rparr>))"

text \<open>
  \<open>okm_take_ahead\<close>: the byte held (a count of one), the end of input seen
  (\<open>OKM_AHEAD_EOF\<close>), or nothing (zero).
\<close>

datatype ahead = AHEAD_NONE | AHEAD_EOF | AHEAD_BYTE byte

abbreviation set_desc :: "nat \<Rightarrow> okm_desc \<Rightarrow> 'e okm \<Rightarrow> 'e okm" where
  "set_desc d p s \<equiv> s\<lparr>g_desc := (g_desc s)(d := p)\<rparr>"

definition okm_take_ahead :: "nat option \<Rightarrow> nat \<Rightarrow> 'e okm \<Rightarrow> ahead \<times> 'e okm" where
  "okm_take_ahead od len s =
     (case od of
        None \<Rightarrow> (AHEAD_NONE, s)
      | Some d \<Rightarrow>
          let p = g_desc s d in
          if d_ahead p \<and> len \<noteq> 0
          then (AHEAD_BYTE (d_ahead_byte p), set_desc d (p\<lparr>d_ahead := False\<rparr>) s)
          else if d_ahead_eof p then (AHEAD_EOF, set_desc d (p\<lparr>d_ahead_eof := False\<rparr>) s)
          else (AHEAD_NONE, s))"

section \<open>Reading and writing\<close>

definition stream_of :: "int \<Rightarrow> 'e okm \<Rightarrow> int + kal_stream" where
  "stream_of fd s =
     (case okm_desc_of fd s of
        None \<Rightarrow> Inl (- EBADF)
      | Some d \<Rightarrow>
          let p = g_desc s d in
          if d_kind p = OKM_STREAM \<or> d_kind p = OKM_CHANNEL \<or> d_kind p = OKM_FILE
          then Inr (d_stream p)
          else if d_kind p = OKM_SOCKET
          then (if d_stream p = 0 then Inl (- ENOTCONN) else Inr (d_stream p))
          else Inl (- EISDIR))"

definition is_null :: "int \<Rightarrow> 'e okm \<Rightarrow> bool" where
  "is_null fd s \<longleftrightarrow>
     (case okm_desc_of fd s of None \<Rightarrow> False | Some d \<Rightarrow> d_kind (g_desc s d) = OKM_NULL)"

definition do_write :: "'e kal \<Rightarrow> int \<Rightarrow> byte list \<Rightarrow> 'e okm \<Rightarrow> (int + nat) \<times> 'e okm" where
  "do_write K fd buf s =
     (if is_null fd s then (Inr (length buf), s)
      else case stream_of fd s of
        Inl r \<Rightarrow> (Inl r, s)
      | Inr st \<Rightarrow>
          if length buf = 0 then (Inr 0, s)
          else if has (d_flags (g_desc s (the (okm_desc_of fd s)))) O_NONBLOCK
          then okm_timed_write K st buf OKM_NOW_NS s
          else plain_write K st buf s)"

definition do_read_stream :: "'e kal \<Rightarrow> int \<Rightarrow> nat \<Rightarrow> 'e okm \<Rightarrow> (int + byte list) \<times> 'e okm" where
  "do_read_stream K fd len s =
     (if is_null fd s then (Inr [], s)
      else case stream_of fd s of
        Inl r \<Rightarrow> (Inl r, s)
      | Inr st \<Rightarrow>
          if len = 0 then (Inr [], s)
          else case okm_take_ahead (okm_desc_of fd s) len s of
            (AHEAD_EOF, s') \<Rightarrow> (Inr [], s')
          | (AHEAD_BYTE b, s') \<Rightarrow>
              if 1 < len \<and> okm_can_bound K then
                (case okm_timed_read K st (len - 1) OKM_NOW_NS s' of
                   (Inl e, s'') \<Rightarrow> (Inr [b], s'')
                 | (Inr rest, s'') \<Rightarrow> (Inr (if 0 < length rest then b # rest else [b]), s''))
              else (Inr [b], s')
          | (AHEAD_NONE, s') \<Rightarrow>
              if has (d_flags (g_desc s' (the (okm_desc_of fd s)))) O_NONBLOCK
              then okm_timed_read K st len OKM_NOW_NS s'
              else plain_read K st len s')"

text \<open>
  What the layer does to what is typed (\<open>g_term_alter\<close>, a static of port/src/okm_syscall.c,
  is the argument \<open>alter\<close>).
\<close>

abbreviation (input) ISTRIP :: flagword where "ISTRIP \<equiv> 0x20"
abbreviation (input) ICRNL :: flagword where "ICRNL \<equiv> 0x100"

definition alter_byte :: "flagword \<Rightarrow> byte \<Rightarrow> byte" where
  "alter_byte alter b =
     (let b1 = (if has alter ISTRIP then b AND 0x7f else b)
      in if has alter ICRNL \<and> b1 = 13 then 10 else b1)"

definition do_read ::
  "'e kal \<Rightarrow> flagword \<Rightarrow> int \<Rightarrow> nat \<Rightarrow> 'e okm \<Rightarrow> (int + byte list) \<times> 'e okm" where
  "do_read K alter fd len s =
     (case do_read_stream K fd len s of
        (Inl e, s') \<Rightarrow> (Inl e, s')
      | (Inr bs, s') \<Rightarrow>
          if bs = [] \<or> alter = 0 then (Inr bs, s')
          else case okm_desc_of fd s' of
            None \<Rightarrow> (Inr bs, s')
          | Some d \<Rightarrow>
              if d_kind (g_desc s' d) \<noteq> OKM_STREAM
                 \<or> \<not> stream_interactive K (d_stream (g_desc s' d)) (env s')
              then (Inr bs, s')
              else (Inr (map (alter_byte alter) bs), s'))"

section \<open>Several buffers, and transfers at an offset\<close>

text \<open>
  The loop over the buffers of a vectored transfer, which \<open>writev\<close>, \<open>readv\<close> and both forms of
  \<open>do_transfer_at\<close> share: \<open>op v sofar\<close> transfers one buffer after \<open>sofar\<close> bytes (the source's \<open>total\<close>) and answers
  the count and what it placed in the buffer. A buffer of no bytes is passed over, a short
  transfer ends the loop, and an error is reported only where nothing was moved.
\<close>

fun vec_loop ::
  "(byte list \<Rightarrow> nat \<Rightarrow> 's \<Rightarrow> (int + nat \<times> byte list) \<times> 's) \<Rightarrow> byte list list \<Rightarrow> nat
     \<Rightarrow> byte list \<Rightarrow> 's \<Rightarrow> (int + nat \<times> byte list) \<times> 's" where
  "vec_loop op [] sofar out s = (Inr (sofar, out), s)"
| "vec_loop op (v # vs) sofar out s =
     (if length v = 0 then vec_loop op vs sofar out s
      else case op v sofar s of
        (Inl e, s') \<Rightarrow> (if sofar = 0 then Inl e else Inr (sofar, out), s')
      | (Inr (n, bs), s') \<Rightarrow>
          if n < length v then (Inr (sofar + n, out @ bs), s')
          else vec_loop op vs (sofar + n) (out @ bs) s')"

definition write_one ::
  "'e kal \<Rightarrow> int \<Rightarrow> byte list \<Rightarrow> nat \<Rightarrow> 'e okm \<Rightarrow> (int + nat \<times> byte list) \<times> 'e okm" where
  "write_one K fd v sofar s =
     (case do_write K fd v s of (r, s') \<Rightarrow> (map_sum id (\<lambda>n. (n, [])) r, s'))"

definition read_one ::
  "'e kal \<Rightarrow> flagword \<Rightarrow> int \<Rightarrow> byte list \<Rightarrow> nat \<Rightarrow> 'e okm
     \<Rightarrow> (int + nat \<times> byte list) \<times> 'e okm" where
  "read_one K alter fd v sofar s =
     (case do_read K alter fd (length v) s of (r, s') \<Rightarrow> (map_sum id (\<lambda>bs. (length bs, bs)) r, s'))"

definition sys_writev :: "'e kal \<Rightarrow> int \<Rightarrow> byte list list \<Rightarrow> int \<Rightarrow> 'e okm
     \<Rightarrow> (int + nat \<times> byte list) \<times> 'e okm" where
  "sys_writev K fd v iovcnt s = vec_loop (write_one K fd) (take (nat iovcnt) v) 0 [] s"

definition sys_readv :: "'e kal \<Rightarrow> flagword \<Rightarrow> int \<Rightarrow> byte list list \<Rightarrow> int \<Rightarrow> 'e okm
     \<Rightarrow> (int + nat \<times> byte list) \<times> 'e okm" where
  "sys_readv K alter fd v iovcnt s = vec_loop (read_one K alter fd) (take (nat iovcnt) v) 0 [] s"

definition at_one ::
  "'e kal_fs_at \<Rightarrow> kal_file \<Rightarrow> int \<Rightarrow> bool \<Rightarrow> byte list \<Rightarrow> nat \<Rightarrow> 'e okm
     \<Rightarrow> (int + nat \<times> byte list) \<times> 'e okm" where
  "at_one A f at writing v sofar s =
     (if writing then
        (case fs_write_at A f v (of_int at + of_nat sofar) (env s) of
           (Inl e, e') \<Rightarrow> (Inl (- okm_errno e), s\<lparr>env := e'\<rparr>)
         | (Inr n, e') \<Rightarrow> (Inr (n, []), s\<lparr>env := e'\<rparr>))
      else
        (case fs_read_at A f (length v) (of_int at + of_nat sofar) (env s) of
           (Inl e, e') \<Rightarrow> (Inl (- okm_errno e), s\<lparr>env := e'\<rparr>)
         | (Inr bs, e') \<Rightarrow> (Inr (length bs, bs), s\<lparr>env := e'\<rparr>)))"

definition transfer_at ::
  "'e kal_fs_at \<Rightarrow> kal_file \<Rightarrow> byte list list \<Rightarrow> int \<Rightarrow> bool \<Rightarrow> 'e okm
     \<Rightarrow> (int + nat \<times> byte list) \<times> 'e okm" where
  "transfer_at A f v at writing s = vec_loop (at_one A f at writing) v 0 [] s"

abbreviation (input) SEEK_SET :: int where "SEEK_SET \<equiv> 0"
abbreviation (input) SEEK_CUR :: int where "SEEK_CUR \<equiv> 1"

definition do_transfer_at ::
  "'e kal \<Rightarrow> kal_uintptr \<Rightarrow> flagword \<Rightarrow> int \<Rightarrow> byte list list \<Rightarrow> int \<Rightarrow> int \<Rightarrow> bool \<Rightarrow> 'e okm
     \<Rightarrow> (int + nat \<times> byte list) \<times> 'e okm" where
  "do_transfer_at K me alter fd v iovcnt at writing s =
     (case okm_desc_of fd s of
        None \<Rightarrow> (Inl (- EBADF), s)
      | Some d \<Rightarrow>
          let f = d_file (g_desc s d) in
          if d_kind (g_desc s d) = OKM_NULL then
            (if at < 0 \<or> iovcnt < 0 then (Inl (- EINVAL), s)
             else (Inr (if writing then sum_list (map length (take (nat iovcnt) v)) else 0, []), s))
          else if d_kind (g_desc s d) \<noteq> OKM_FILE then (Inl (- ESPIPE), s)
          else if at < 0 \<or> iovcnt < 0 then (Inl (- EINVAL), s)
          else case K_fs_at K of
            Some A \<Rightarrow> transfer_at A f (take (nat iovcnt) v) at writing s
          | None \<Rightarrow>
              (case fs_seek K f 0 SEEK_CUR (env s) of
                 (Inl e, e1) \<Rightarrow> (Inl (- okm_errno e), okm_unlock K me (s\<lparr>env := e1\<rparr>))
               | (Inr keep, e1) \<Rightarrow>
                   (case fs_seek K f at SEEK_SET e1 of
                      (Inl e, e2) \<Rightarrow> (Inl (- okm_errno e), okm_unlock K me (s\<lparr>env := e2\<rparr>))
                    | (Inr now, e2) \<Rightarrow>
                        (case vec_loop (if writing then write_one K fd else read_one K alter fd)
                                (take (nat iovcnt) v) 0 [] (s\<lparr>env := e2\<rparr>) of
                           (r, s3) \<Rightarrow>
                             (case fs_seek K f (sint keep) SEEK_SET (env s3) of
                                (_, e4) \<Rightarrow> (r, okm_unlock K me (s3\<lparr>env := e4\<rparr>)))))))"

section \<open>No byte is lost or reordered\<close>

text \<open>
  What the port relies on: a stream delivers its input in order. \<open>input st e\<close> is what the
  stream has yet to deliver; a transfer delivers no more than was asked for, removes exactly
  what it delivers, and touches no other stream; one that reports an error delivers nothing.
\<close>

definition takes_input ::
  "(kal_stream \<Rightarrow> 'e \<Rightarrow> byte list) \<Rightarrow> kal_stream \<Rightarrow> nat \<Rightarrow> 'e \<Rightarrow> (kal_error + byte list) \<times> 'e \<Rightarrow> bool"
  where
  "takes_input input st n e r \<longleftrightarrow>
     (\<forall>t. input t e = (if t = st then (case fst r of Inl _ \<Rightarrow> [] | Inr bs \<Rightarrow> bs) else [])
                      @ input t (snd r))
   \<and> (\<forall>bs. fst r = Inr bs \<longrightarrow> length bs \<le> n)"

definition ordered_streams :: "'e kal \<Rightarrow> (kal_stream \<Rightarrow> 'e \<Rightarrow> byte list) \<Rightarrow> bool" where
  "ordered_streams K input \<longleftrightarrow>
     (\<forall>st n e. takes_input input st n e (stream_read K st n e))
   \<and> (\<forall>T st n ns e. K_timeout K = Some T \<longrightarrow> takes_input input st n e (timeout_read T st n ns e))"

text \<open>What a description has yet to deliver: the byte an enquiry took, then the stream's.\<close>

definition held :: "okm_desc \<Rightarrow> byte list" where
  "held p = (if d_ahead p then [d_ahead_byte p] else [])"

definition unread :: "(kal_stream \<Rightarrow> 'e \<Rightarrow> byte list) \<Rightarrow> nat \<Rightarrow> 'e okm \<Rightarrow> byte list" where
  "unread input d s = held (g_desc s d) @ input (d_stream (g_desc s d)) (env s)"

abbreviation delivered :: "int + byte list \<Rightarrow> byte list" where
  "delivered r \<equiv> case_sum (\<lambda>_. []) id r"

lemma plain_read_input:
  assumes "ordered_streams K input" "plain_read K st len s = (r, t)"
  shows "g_desc t = g_desc s" "g_fd t = g_fd s"
    "input u (env s) = (if u = st then delivered r else []) @ input u (env t)"
    "length (delivered r) \<le> len"
proof -
  obtain q e' where q: "stream_read K st len (env s) = (q, e')" by force
  have law: "takes_input input st len (env s) (q, e')"
    using assms(1) q unfolding ordered_streams_def by metis
  show "g_desc t = g_desc s" "g_fd t = g_fd s"
    "input u (env s) = (if u = st then delivered r else []) @ input u (env t)"
    "length (delivered r) \<le> len"
    using assms(2) law by (auto simp: plain_read_def q takes_input_def split: sum.splits)
qed

lemma okm_timed_read_input:
  assumes "ordered_streams K input" "okm_timed_read K st len ns s = (r, t)"
  shows "g_desc t = g_desc s" "g_fd t = g_fd s"
    "input u (env s) = (if u = st then delivered r else []) @ input u (env t)"
    "length (delivered r) \<le> len"
proof -
  have "g_desc t = g_desc s \<and> g_fd t = g_fd s \<and> length (delivered r) \<le> len
      \<and> input u (env s) = (if u = st then delivered r else []) @ input u (env t)"
  proof (cases "K_timeout K")
    case None
    then show ?thesis using assms(2) by (auto simp: okm_timed_read_def)
  next
    case (Some T)
    obtain q e' where q: "timeout_read T st len ns (env s) = (q, e')" by force
    have law: "takes_input input st len (env s) (q, e')"
      using assms(1) q Some unfolding ordered_streams_def by metis
    show ?thesis
      using assms(2) law
      by (auto simp: okm_timed_read_def Some q takes_input_def split: sum.splits if_splits)
  qed
  then show "g_desc t = g_desc s" "g_fd t = g_fd s"
    "input u (env s) = (if u = st then delivered r else []) @ input u (env t)"
    "length (delivered r) \<le> len" by simp_all
qed

lemma okm_take_ahead_unread:
  assumes "okm_take_ahead (Some d) len s = (a, t)"
  shows "g_fd t = g_fd s" "env t = env s"
    "d_stream (g_desc t i) = d_stream (g_desc s i)" "d_kind (g_desc t i) = d_kind (g_desc s i)"
    "d_flags (g_desc t i) = d_flags (g_desc s i)"
    "held (g_desc s i) = (case a of AHEAD_BYTE b \<Rightarrow> if i = d then [b] else [] | _ \<Rightarrow> []) @ held (g_desc t i)"
    "a = AHEAD_BYTE b \<Longrightarrow> 0 < len"
    "a \<noteq> AHEAD_EOF \<Longrightarrow> len \<noteq> 0 \<Longrightarrow> held (g_desc t d) = []"
  using assms by (auto simp: okm_take_ahead_def Let_def held_def split: if_splits)

text \<open>One read: what it delivers is the front of what was unread, and no other description
  that has a stream of its own is touched.\<close>

lemma do_read_stream_unread:
  assumes K: "ordered_streams K input" and rd: "do_read_stream K fd len s = (r, t)"
  shows "g_fd t = g_fd s" "d_stream (g_desc t i) = d_stream (g_desc s i)"
    "d_kind (g_desc t i) = d_kind (g_desc s i)" "d_flags (g_desc t i) = d_flags (g_desc s i)"
    "okm_desc_of fd s = Some d \<Longrightarrow> unread input d s = delivered r @ unread input d t"
    "length (delivered r) \<le> len"
proof -
  have "g_fd t = g_fd s \<and> d_stream (g_desc t i) = d_stream (g_desc s i)
      \<and> d_kind (g_desc t i) = d_kind (g_desc s i) \<and> d_flags (g_desc t i) = d_flags (g_desc s i)
      \<and> (okm_desc_of fd s = Some d \<longrightarrow> unread input d s = delivered r @ unread input d t)
      \<and> length (delivered r) \<le> len"
  proof (cases "is_null fd s \<or> len = 0 \<or> (\<exists>e. stream_of fd s = Inl e)")
    case True
    then show ?thesis using rd by (auto simp: do_read_stream_def split: sum.splits if_splits)
  next
    case False
    then obtain st where st: "stream_of fd s = Inr st" by (cases "stream_of fd s") auto
    then obtain c where c: "okm_desc_of fd s = Some c" "st = d_stream (g_desc s c)"
      by (auto simp: stream_of_def Let_def split: option.splits if_splits)
    obtain a u where a: "okm_take_ahead (Some c) len s = (a, u)" by force
    note ta = okm_take_ahead_unread [OF a]
    show ?thesis
    proof (cases a)
      case AHEAD_EOF
      with False rd st c a ta show ?thesis
        by (auto simp: do_read_stream_def unread_def)
    next
      case AHEAD_NONE
      show ?thesis
      proof (cases "has (d_flags (g_desc u c)) O_NONBLOCK")
        case True
        then have "okm_timed_read K st len OKM_NOW_NS u = (r, t)"
          using AHEAD_NONE False rd st c a by (simp add: do_read_stream_def)
        note tr = okm_timed_read_input [OF K this]
        from tr(1,2,4) tr(3) [of st] ta AHEAD_NONE c False show ?thesis
          by (auto simp: unread_def)
      next
        case nb: False
        then have "plain_read K st len u = (r, t)"
          using AHEAD_NONE False rd st c a by (simp add: do_read_stream_def)
        note tr = plain_read_input [OF K this]
        from tr(1,2,4) tr(3) [of st] ta AHEAD_NONE c False show ?thesis
          by (auto simp: unread_def)
      qed
    next
      case (AHEAD_BYTE b)
      show ?thesis
      proof (cases "1 < len \<and> okm_can_bound K")
        case True
        obtain q w where q: "okm_timed_read K st (len - 1) OKM_NOW_NS u = (q, w)" by force
        note tr = okm_timed_read_input [OF K this]
        have "t = w" "r = Inr (b # delivered q)"
          using True AHEAD_BYTE False rd st c a q
          by (auto simp: do_read_stream_def split: sum.splits if_splits)
        with True tr(1,2,4) tr(3) [of st] ta AHEAD_BYTE c False show ?thesis
          by (auto simp: unread_def)
      next
        case nb: False
        then have "t = u" "r = Inr [b]"
          using AHEAD_BYTE False rd st c a by (auto simp: do_read_stream_def)
        with ta AHEAD_BYTE c show ?thesis
          by (auto simp: unread_def Suc_leI)
      qed
    qed
  qed
  then show "g_fd t = g_fd s" "d_stream (g_desc t i) = d_stream (g_desc s i)"
    "d_kind (g_desc t i) = d_kind (g_desc s i)" "d_flags (g_desc t i) = d_flags (g_desc s i)"
    "okm_desc_of fd s = Some d \<Longrightarrow> unread input d s = delivered r @ unread input d t"
    "length (delivered r) \<le> len" by simp_all
qed

section \<open>A transfer at an offset\<close>

text \<open>
  A source of the bytes \<open>D\<close>: transferring a buffer after \<open>n\<close> bytes delivers the next bytes of
  \<open>D\<close> that fit. The vectored loop then delivers the front of \<open>D\<close> that fits the buffers.
\<close>

lemma vec_loop_source:
  assumes op: "\<And>v n s. R n s \<Longrightarrow> n \<le> length D \<Longrightarrow> \<exists>s'. R (n + length (take (length v) (drop n D))) s'
      \<and> op v n s = (Inr (length (take (length v) (drop n D)), take (length v) (drop n D)), s')"
    and "R n s" "n \<le> length D"
  shows "\<exists>s'. R (min (n + sum_list (map length vs)) (length D)) s'
      \<and> vec_loop op vs n (take n D) s =
          (Inr (min (n + sum_list (map length vs)) (length D),
                take (n + sum_list (map length vs)) D), s')"
  using assms(2,3)
proof (induction vs arbitrary: n s)
  case Nil
  then show ?case by (auto simp: min_absorb1)
next
  case (Cons v vs)
  show ?case
  proof (cases "length v = 0")
    case True
    with Cons show ?thesis by simp
  next
    case False
    let ?b = "take (length v) (drop n D)"
    obtain s' where s': "R (n + length ?b) s'" "op v n s = (Inr (length ?b, ?b), s')"
      using op [OF Cons.prems] by blast
    have out: "take n D @ ?b = take (n + length v) D"
      by (simp add: take_add)
    have len: "length ?b = min (length v) (length D - n)" by simp
    show ?thesis
    proof (cases "length ?b < length v")
      case True
      then have "length D - n < length v" by simp
      then have "length D \<le> n + length v" by simp
      with True False s' Cons.prems out show ?thesis
        by (auto simp: len min_def)
    next
      case full: False
      then have b: "length ?b = length v" "n + length v \<le> length D"
        using Cons.prems False by auto
      from Cons.IH [of "n + length v" s'] s'(1) b
      obtain w where "R (min (n + length v + sum_list (map length vs)) (length D)) w"
        "vec_loop op vs (n + length v) (take (n + length v) D) s' =
           (Inr (min (n + length v + sum_list (map length vs)) (length D),
                 take (n + length v + sum_list (map length vs)) D), w)"
        by auto
      with False s'(2) b out show ?thesis by (simp add: add.assoc)
    qed
  qed
qed

text \<open>
  What the port relies on of a file: reading at an offset delivers what the file holds there
  and moves no position; reading the file's stream delivers what is at the position and moves
  it past that; a seek sets or reports the position. None of them changes the contents.
\<close>

definition file_laws ::
  "'e kal \<Rightarrow> kal_file \<Rightarrow> (kal_file \<Rightarrow> 'e \<Rightarrow> byte list) \<Rightarrow> (kal_file \<Rightarrow> 'e \<Rightarrow> nat) \<Rightarrow> bool" where
  "file_laws K f content pos \<longleftrightarrow>
     (\<forall>A n off e. K_fs_at K = Some A \<longrightarrow>
        (\<exists>e'. fs_read_at A f n off e = (Inr (take n (drop (unat off) (content f e))), e')
              \<and> content f e' = content f e \<and> pos f e' = pos f e))
   \<and> (\<forall>n e. \<exists>e'. stream_read K (fs_stream K f) n e = (Inr (take n (drop (pos f e) (content f e))), e')
              \<and> content f e' = content f e
              \<and> pos f e' = pos f e + length (take n (drop (pos f e) (content f e))))
   \<and> (\<forall>p e. 0 \<le> p \<longrightarrow> (\<exists>e'. fs_seek K f p SEEK_SET e = (Inr (of_int p), e')
              \<and> content f e' = content f e \<and> pos f e' = nat p))
   \<and> (\<forall>e. \<exists>e'. fs_seek K f 0 SEEK_CUR e = (Inr (of_nat (pos f e)), e')
              \<and> content f e' = content f e \<and> pos f e' = pos f e)"

lemma file_laws_read_at:
  assumes "file_laws K f content pos" "K_fs_at K = Some A"
  obtains e' where "fs_read_at A f n off e = (Inr (take n (drop (unat off) (content f e))), e')"
    "content f e' = content f e" "pos f e' = pos f e"
  using assms unfolding file_laws_def by blast

lemma file_laws_read:
  assumes "file_laws K f content pos"
  obtains e' where "stream_read K (fs_stream K f) n e = (Inr (take n (drop (pos f e) (content f e))), e')"
    "content f e' = content f e" "pos f e' = pos f e + length (take n (drop (pos f e) (content f e)))"
  using assms unfolding file_laws_def by blast

lemma file_laws_seek:
  assumes "file_laws K f content pos"
  shows "0 \<le> p \<Longrightarrow> \<exists>e'. fs_seek K f p SEEK_SET e = (Inr (of_int p), e')
           \<and> content f e' = content f e \<and> pos f e' = nat p"
    "\<exists>e'. fs_seek K f 0 SEEK_CUR e = (Inr (of_nat (pos f e)), e')
           \<and> content f e' = content f e \<and> pos f e' = pos f e"
  using assms unfolding file_laws_def by blast+

definition plain_file :: "'e kal \<Rightarrow> kal_file \<Rightarrow> int \<Rightarrow> 'e okm \<Rightarrow> bool" where
  "plain_file K f fd s \<longleftrightarrow>
     (case okm_desc_of fd s of
        None \<Rightarrow> False
      | Some d \<Rightarrow>
          let p = g_desc s d in
          d_kind p = OKM_FILE \<and> d_file p = f \<and> d_stream p = fs_stream K f
          \<and> \<not> d_ahead p \<and> \<not> d_ahead_eof p \<and> \<not> has (d_flags p) O_NONBLOCK)"

lemma plain_fileE:
  assumes "plain_file K f fd s"
  obtains d where "okm_desc_of fd s = Some d" "d_kind (g_desc s d) = OKM_FILE"
    "d_file (g_desc s d) = f" "d_stream (g_desc s d) = fs_stream K f"
    "\<not> d_ahead (g_desc s d)" "\<not> d_ahead_eof (g_desc s d)"
    "\<not> has (d_flags (g_desc s d)) O_NONBLOCK"
  using assms by (auto simp: plain_file_def Let_def split: option.splits)

lemma okm_desc_of_env [simp]: "okm_desc_of fd (s\<lparr>env := e\<rparr>) = okm_desc_of fd s"
  by (simp add: okm_desc_of_def)

lemma plain_file_env [simp]: "plain_file K f fd (s\<lparr>env := e\<rparr>) = plain_file K f fd s"
  by (simp add: plain_file_def split: option.split)

lemma plain_file_read_one:
  assumes "plain_file K f fd s"
  shows "read_one K alter fd v n s =
           (if v = [] then (Inr (0, []), s)
            else case stream_read K (fs_stream K f) (length v) (env s) of
              (Inl e, e') \<Rightarrow> (Inl (- okm_errno e), s\<lparr>env := e'\<rparr>)
            | (Inr bs, e') \<Rightarrow> (Inr (length bs, bs), s\<lparr>env := e'\<rparr>))"
  using assms
  by (rule plain_fileE)
     (auto simp: read_one_def do_read_def do_read_stream_def is_null_def stream_of_def
        okm_take_ahead_def plain_read_def Let_def split: sum.splits prod.splits)

lemma pread_by_seek:
  assumes laws: "file_laws K f content pos" and f: "plain_file K f fd s"
    and D: "D = drop a (content f (env s))" and p: "pos f (env s) = a"
  shows "\<exists>e'. content f e' = content f (env s)
      \<and> vec_loop (read_one K alter fd) vs 0 [] s =
          (Inr (min (sum_list (map length vs)) (length D), take (sum_list (map length vs)) D), s\<lparr>env := e'\<rparr>)"
proof -
  let ?R = "\<lambda>n t. \<exists>e. t = s\<lparr>env := e\<rparr> \<and> content f e = content f (env s) \<and> pos f e = a + n"
  have "\<exists>s'. ?R (min (0 + sum_list (map length vs)) (length D)) s'
      \<and> vec_loop (read_one K alter fd) vs 0 (take 0 D) s =
          (Inr (min (0 + sum_list (map length vs)) (length D), take (0 + sum_list (map length vs)) D), s')"
  proof (rule vec_loop_source [where R = ?R])
    show "?R 0 s" using p by (intro exI [of _ "env s"]) simp
    fix v :: "byte list" and n t assume "?R n t" "n \<le> length D"
    then obtain e where t: "t = s\<lparr>env := e\<rparr>" and e: "content f e = content f (env s)" "pos f e = a + n"
      by blast
    obtain e' where e': "stream_read K (fs_stream K f) (length v) e =
          (Inr (take (length v) (drop (pos f e) (content f e))), e')"
        "content f e' = content f e"
        "pos f e' = pos f e + length (take (length v) (drop (pos f e) (content f e)))"
      by (rule file_laws_read [OF laws])
    have src: "drop (pos f e) (content f e) = drop n D"
      by (simp add: e D add.commute)
    show "\<exists>s'. ?R (n + length (take (length v) (drop n D))) s'
        \<and> read_one K alter fd v n t =
            (Inr (length (take (length v) (drop n D)), take (length v) (drop n D)), s')"
    proof (cases "v = []")
      case True
      then show ?thesis
        using e t f by (auto simp: plain_file_read_one)
    next
      case False
      show ?thesis
        using False e e' f unfolding src
        by (auto simp: t D plain_file_read_one intro!: exI [of _ "s\<lparr>env := e'\<rparr>"] exI [of _ e'])
    qed
  qed simp
  then show ?thesis by auto
qed

lemma pread_at:
  assumes laws: "file_laws K f content pos" and A: "K_fs_at K = Some A"
    and D: "D = drop a (content f (env s))" and a: "a + length D < 2 ^ 64"
  shows "\<exists>e'. content f e' = content f (env s) \<and> pos f e' = pos f (env s)
      \<and> transfer_at A f vs (int a) False s =
          (Inr (min (sum_list (map length vs)) (length D), take (sum_list (map length vs)) D), s\<lparr>env := e'\<rparr>)"
proof -
  let ?R = "\<lambda>(n :: nat) t. \<exists>e. t = s\<lparr>env := e\<rparr> \<and> content f e = content f (env s) \<and> pos f e = pos f (env s)"
  have "\<exists>s'. ?R (min (0 + sum_list (map length vs)) (length D)) s'
      \<and> vec_loop (at_one A f (int a) False) vs 0 (take 0 D) s =
          (Inr (min (0 + sum_list (map length vs)) (length D), take (0 + sum_list (map length vs)) D), s')"
  proof (rule vec_loop_source [where R = ?R])
    show "?R 0 s" by (intro exI [of _ "env s"]) simp
    fix v :: "byte list" and n t assume "?R n t" and n: "n \<le> length D"
    then obtain e where t: "t = s\<lparr>env := e\<rparr>" and e: "content f e = content f (env s)" "pos f e = pos f (env s)"
      by blast
    let ?o = "of_int (int a) + of_nat n :: 64 word"
    have eq: "?o = of_nat (a + n)" by simp
    have "a + n < 2 ^ 64" using a n by simp
    then have o: "unat ?o = a + n"
      unfolding eq by (simp add: unat_of_nat take_bit_nat_eq_self del: of_nat_add)
    obtain e' where e': "fs_read_at A f (length v) ?o e =
          (Inr (take (length v) (drop (unat ?o) (content f e))), e')"
        "content f e' = content f e" "pos f e' = pos f e"
      by (rule file_laws_read_at [OF laws A])
    have src: "drop (unat ?o) (content f e) = drop n D"
      by (simp add: o [simplified] e D add.commute)
    show "\<exists>s'. ?R (n + length (take (length v) (drop n D))) s'
        \<and> at_one A f (int a) False v n t =
            (Inr (length (take (length v) (drop n D)), take (length v) (drop n D)), s')"
      using e e' unfolding src
      by (auto simp: t at_one_def intro!: exI [of _ "s\<lparr>env := e'\<rparr>"] exI [of _ e'])
  qed simp
  then show ?thesis unfolding transfer_at_def by auto
qed

lemma sint_of_nat_small: "n < 2 ^ 63 \<Longrightarrow> sint (of_nat n :: 64 word) = int n"
  by (simp add: signed_of_nat signed_take_bit_int_eq_self)


text \<open>An implementation with one file, whose environment is its contents and its position, and
  a table in which descriptor 0 is that file.\<close>

definition file_kal :: "(byte list \<times> nat) kal" where
  "file_kal = bare_kal
     \<lparr>stream_read := (\<lambda>st n (c, p). (Inr (take n (drop p c)), (c, p + length (take n (drop p c))))),
      fs_seek := (\<lambda>f off wh (c, p). if wh = 0 then (Inr (of_int off), (c, nat off))
                                    else (Inr (of_nat p), (c, p)))\<rparr>"

definition stream_table :: "(byte list \<times> nat) okm" where
  "stream_table = snd (okm_fd_bind file_kal 1 0 OKM_FILE 7 7 0 0 (okm_table_init_memory (zero_okm ([10, 20, 30, 40], 3))))"

lemma file_kal_laws: "file_laws file_kal f (\<lambda>_. fst) (\<lambda>_. snd)"
  by (auto simp: file_laws_def file_kal_def bare_kal_def)

lemma bind_first:
  fixes e :: 'e and s :: "'e okm"
  defines "s \<equiv> okm_table_init_memory (zero_okm e)"
  shows "okm_fd_bind K me 0 kind stream file' dir flags s =
     (0, s\<lparr>g_desc := (\<lambda>_. zero_desc)(0 := bound_desc kind stream file' dir flags zero_desc),
          g_fd := (g_fd s)(0 := \<lparr>fd_desc = 0, fd_cloexec = (if has flags O_CLOEXEC then 1 else 0)\<rparr>)\<rparr>)"
proof -
  have al: "desc_alloc s = Some (0, s\<lparr>g_desc := (\<lambda>_. zero_desc)(0 := zero_desc\<lparr>d_refs := 1\<rparr>)\<rparr>)"
    by (simp add: s_def desc_alloc_def scan_up.simps okm_table_init_memory_def zero_okm_def zero_desc_def)
  show ?thesis
    by (subst okm_fd_bind_eq [OF _ al])
      (simp_all add: s_def fd_in_range_def okm_table_init_memory_def zero_okm_def)
qed

lemma stream_table_eq:
  "okm_desc_of 0 stream_table = Some 0" "g_desc stream_table 0 = bound_desc OKM_FILE 7 7 0 0 zero_desc"
  "g_settling stream_table = []" "env stream_table = ([10, 20, 30, 40], 3)"
  unfolding stream_table_def bind_first
  by (simp_all add: okm_desc_of_def fd_in_range_def
      okm_table_init_memory_def zero_okm_def)


end
