(* ===== verification/Okm_Net.thy ===== *)
theory Okm_Net
  imports Okm_Stream
begin

text \<open>
  The socket calls (port/src/okm_net.c): the table of sockets with its states, the conversion between
  a \<open>sockaddr\<close> and openkal's endpoint, and one definition per call. Memory a caller passes is a
  function from offsets to bytes; a pointer that may be null is an option.

  The theorems here are about addresses; those about the state of the sockets are in the theory that
  follows.
\<close>

section \<open>Constants\<close>

abbreviation (input) AF_INET :: int where "AF_INET \<equiv> 2"
abbreviation (input) AF_INET6 :: int where "AF_INET6 \<equiv> 10"
abbreviation (input) SOCK_STREAM :: int where "SOCK_STREAM \<equiv> 1"
abbreviation (input) SOCK_DGRAM :: int where "SOCK_DGRAM \<equiv> 2"
abbreviation (input) SOCK_NONBLOCK :: flagword where "SOCK_NONBLOCK \<equiv> 0x800"
abbreviation (input) SOCK_CLOEXEC :: flagword where "SOCK_CLOEXEC \<equiv> 0x80000"
abbreviation (input) MSG_DONTWAIT :: flagword where "MSG_DONTWAIT \<equiv> 0x40"
abbreviation (input) MSG_NOSIGNAL :: flagword where "MSG_NOSIGNAL \<equiv> 0x4000"
abbreviation (input) SOL_SOCKET :: int where "SOL_SOCKET \<equiv> 1"
abbreviation (input) SO_REUSEADDR :: int where "SO_REUSEADDR \<equiv> 2"
abbreviation (input) SO_TYPE :: int where "SO_TYPE \<equiv> 3"
abbreviation (input) SO_ERROR :: int where "SO_ERROR \<equiv> 4"
abbreviation (input) SO_RCVTIMEO :: int where "SO_RCVTIMEO \<equiv> 20"
abbreviation (input) SO_SNDTIMEO :: int where "SO_SNDTIMEO \<equiv> 21"
abbreviation (input) OKM_DGRAM_MAX :: nat where "OKM_DGRAM_MAX \<equiv> 65536"

section \<open>The socket of a descriptor\<close>

definition slot_of :: "nat option \<Rightarrow> 'e okm \<Rightarrow> nat option" where
  "slot_of od s =
     (case od of
        None \<Rightarrow> None
      | Some d \<Rightarrow>
          let p = g_desc s d in
          if d_kind p \<noteq> OKM_SOCKET then None
          else if d_sock p < 0 \<or> int OKM_MAX_SOCK \<le> d_sock p then None
          else Some (nat (d_sock p)))"

text \<open>
  The first three lines of every call: \<open>d = okm_desc_of(fd); s = slot_of(d);
  if (!s) return d ? -ENOTSOCK : -EBADF;\<close>.
\<close>

definition sock_of :: "int \<Rightarrow> 'e okm \<Rightarrow> int + nat \<times> nat" where
  "sock_of fd s =
     (case slot_of (okm_desc_of fd s) s of
        None \<Rightarrow> Inl (if okm_desc_of fd s \<noteq> None then - ENOTSOCK else - EBADF)
      | Some k \<Rightarrow> Inr (the (okm_desc_of fd s), k))"

abbreviation set_sock :: "nat \<Rightarrow> okm_sock \<Rightarrow> 'e okm \<Rightarrow> 'e okm" where
  "set_sock k q s \<equiv> s\<lparr>g_sock := (g_sock s)(k := q)\<rparr>"

section \<open>Addresses\<close>

text \<open>
  The caller's memory at an address, byte by byte. \<open>struct sockaddr_in\<close> is 16 bytes: the family
  (host order), the port (network order), the address; \<open>struct sockaddr_in6\<close> is 28: the family,
  the port, four bytes of flow information, the address, the scope (host order).
\<close>

type_synonym memory = "nat \<Rightarrow> byte"

definition sa_family :: "memory \<Rightarrow> int" where
  "sa_family m = uint (m 0) + 256 * uint (m 1)"

definition ntohs_at :: "memory \<Rightarrow> nat \<Rightarrow> nat" where
  "ntohs_at m i = 256 * unat (m i) + unat (m (i + 1))"

definition le32_at :: "memory \<Rightarrow> nat \<Rightarrow> 32 word" where
  "le32_at m i = ucast (m i) OR push_bit 8 (ucast (m (i + 1))) OR push_bit 16 (ucast (m (i + 2)))
     OR push_bit 24 (ucast (m (i + 3)))"

definition le32_bytes :: "32 word \<Rightarrow> byte list" where
  "le32_bytes w = map (\<lambda>i. ucast (drop_bit (i * 8) w AND 0xff)) [0, 1, 2, 3]"

definition to_endpoint :: "memory option \<Rightarrow> nat \<Rightarrow> int + kal_endpoint" where
  "to_endpoint address len =
     (case address of
        None \<Rightarrow> Inl (- EFAULT)
      | Some m \<Rightarrow>
          if sa_family m = AF_INET then
            (if len < 16 then Inl (- EINVAL)
             else Inr \<lparr>addr = map (\<lambda>i. m (4 + i)) [0..<4], port = ntohs_at m 2\<rparr>)
          else if sa_family m = AF_INET6 then
            (if len < 28 then Inl (- EINVAL)
             else let sc = le32_at m 24 in
               Inr \<lparr>addr = map (\<lambda>i. m (8 + i)) [0..<16] @ (if sc \<noteq> 0 then le32_bytes sc else []),
                    port = ntohs_at m 2\<rparr>)
          else Inl (- EAFNOSUPPORT))"

definition htons_bytes :: "nat \<Rightarrow> byte list" where
  "htons_bytes p = [of_nat (p div 256), of_nat p]"

definition sockaddr_of :: "kal_endpoint \<Rightarrow> byte list option" where
  "sockaddr_of ep =
     (if length (addr ep) = 4 then
        Some ([2, 0] @ htons_bytes (port ep) @ addr ep @ replicate 8 0)
      else if length (addr ep) = 16 \<or> length (addr ep) = 20 then
        (let sc = (if length (addr ep) = 20 then le32_at (\<lambda>i. addr ep ! i) 16 else 0)
         in Some ([10, 0] @ htons_bytes (port ep) @ replicate 4 0 @ take 16 (addr ep) @ le32_bytes sc))
      else None)"

text \<open>
  The caller's address and length, both optional; the answer carries them as they are
  afterwards. The union is written from its start, as far as the caller's length allows.
\<close>

definition from_endpoint ::
  "kal_endpoint \<Rightarrow> memory option \<Rightarrow> nat option \<Rightarrow> int \<times> memory option \<times> nat option" where
  "from_endpoint ep address len =
     (case (address, len) of
        (Some m, Some l) \<Rightarrow>
          (case sockaddr_of ep of
             None \<Rightarrow> (- EAFNOSUPPORT, Some m, Some 0)
           | Some u \<Rightarrow>
               let room = (if length u < l then length u else l)
               in (0, Some (\<lambda>i. if i < room then u ! i else m i), Some (length u)))
      | _ \<Rightarrow> (0, address, len))"

section \<open>Opening, binding, listening\<close>

text \<open>
  The port calls an operation of \<open>openkal.net\<close> or \<open>openkal.datagram\<close> without a test where the state
  of the socket says the interface is there. \<open>None\<close> is a call through an interface the
  environment does not have, that is through a null pointer.
\<close>

definition okm_sock_open ::
  "'e kal \<Rightarrow> kal_uintptr \<Rightarrow> int \<Rightarrow> flagword \<Rightarrow> int \<Rightarrow> 'e okm \<Rightarrow> (int \<times> 'e okm) option" where
  "okm_sock_open K me domain type protocol s =
     (let base = sint (type AND NOT (SOCK_CLOEXEC OR SOCK_NONBLOCK)) in
      if domain \<noteq> AF_INET \<and> domain \<noteq> AF_INET6 then Some (- EAFNOSUPPORT, s)
      else if base \<noteq> SOCK_STREAM \<and> base \<noteq> SOCK_DGRAM then Some (- ESOCKTNOSUPPORT, s)
      else if base = SOCK_STREAM \<and> K_net K = None then Some (- EAFNOSUPPORT, s)
      else if base = SOCK_DGRAM \<and> K_dgram K = None then Some (- EAFNOSUPPORT, s)
      else if has type SOCK_NONBLOCK \<and> \<not> okm_can_bound K then Some (- ENOSYS, s)
      else
        let fd = okm_fd_alloc 0 s in
        if fd < 0 then Some (fd, okm_unlock K me s)
        else case slot_alloc s of
          None \<Rightarrow> Some (- ENFILE, okm_unlock K me s)
        | Some (slot, s1) \<Rightarrow>
            let flags = O_RDWR OR (if has type SOCK_NONBLOCK then O_NONBLOCK else 0)
                          OR (if has type SOCK_CLOEXEC then O_CLOEXEC else 0);
                s2 = snd (okm_fd_bind K me fd OKM_SOCKET 0 0 0 flags s1)
            in case okm_desc_of fd s2 of
                 None \<Rightarrow> None
               | Some d \<Rightarrow>
                   let s3 = set_desc d ((g_desc s2 d)\<lparr>d_sock := int slot\<rparr>) s2;
                       s4 = set_sock slot ((g_sock s3 slot)\<lparr>s_domain := domain, s_type := base,
                                                            s_protocol := protocol\<rparr>) s3
                   in Some (fd, okm_unlock K me s4))"

definition okm_sock_bind ::
  "'e kal \<Rightarrow> int \<Rightarrow> memory option \<Rightarrow> nat \<Rightarrow> 'e okm \<Rightarrow> int \<times> 'e okm" where
  "okm_sock_bind K fd address len s =
     (case sock_of fd s of
        Inl e \<Rightarrow> (e, s)
      | Inr (d, k) \<Rightarrow>
          let q = g_sock s k in
          if s_state q \<noteq> OKM_SOCK_NEW then (- EINVAL, s)
          else case to_endpoint address len of
            Inl r \<Rightarrow> (r, s)
          | Inr ep \<Rightarrow>
              let q1 = q\<lparr>s_local := ep, s_have_local := True\<rparr>; s1 = set_sock k q1 s in
              if s_type q = SOCK_DGRAM then
                (case K_dgram K of
                   None \<Rightarrow> (- ENOSYS, s1)
                 | Some D \<Rightarrow>
                     (case dgram_open D (Some ep) (env s1) of
                        (Inl e, e') \<Rightarrow> (- okm_errno e, s1\<lparr>env := e'\<rparr>)
                      | (Inr h, e') \<Rightarrow>
                          (0, set_sock k (q1\<lparr>s_dg := h, s_state := OKM_SOCK_DGRAM\<rparr>) (s1\<lparr>env := e'\<rparr>))))
              else (0, s1))"

definition okm_sock_listen :: "'e kal \<Rightarrow> int \<Rightarrow> 'e okm \<Rightarrow> int \<times> 'e okm" where
  "okm_sock_listen K fd s =
     (case sock_of fd s of
        Inl e \<Rightarrow> (e, s)
      | Inr (d, k) \<Rightarrow>
          let q = g_sock s k in
          if s_type q \<noteq> SOCK_STREAM then (- EOPNOTSUPP, s)
          else if s_state q = OKM_SOCK_LISTEN then (0, s)
          else if s_state q \<noteq> OKM_SOCK_NEW then (- EINVAL, s)
          else case K_net K of
            None \<Rightarrow> (- ENOSYS, s)
          | Some N \<Rightarrow>
              let ep = (if s_have_local q then s_local q
                        else \<lparr>addr = replicate (if s_domain q = AF_INET6 then 16 else 4) 0, port = 0\<rparr>)
              in case net_listen N ep (env s) of
                   (Inl e, e') \<Rightarrow> (- okm_errno e, s\<lparr>env := e'\<rparr>)
                 | (Inr h, e') \<Rightarrow>
                     (0, set_sock k (q\<lparr>s_lis := h, s_state := OKM_SOCK_LISTEN\<rparr>) (s\<lparr>env := e'\<rparr>)))"

section \<open>Connections\<close>

text \<open>\<open>adopt\<close>: a connection placed into a descriptor of its own; the lock is held.\<close>

definition adopt ::
  "'e kal \<Rightarrow> 'e kal_net \<Rightarrow> kal_uintptr \<Rightarrow> kal_net_conn \<Rightarrow> flagword \<Rightarrow> 'e okm \<Rightarrow> (int \<times> 'e okm) option" where
  "adopt K N me c flags s =
     (let fd = okm_fd_alloc 0 s in
      if fd < 0 then Some (fd, s\<lparr>env := net_close N c (env s)\<rparr>)
      else case slot_alloc s of
        None \<Rightarrow> Some (- ENFILE, s\<lparr>env := net_close N c (env s)\<rparr>)
      | Some (slot, s1) \<Rightarrow>
          let s2 = snd (okm_fd_bind K me fd OKM_SOCKET (net_stream N c) 0 0 (O_RDWR OR flags) s1)
          in case okm_desc_of fd s2 of
               None \<Rightarrow> None
             | Some d \<Rightarrow>
                 let s3 = set_desc d ((g_desc s2 d)\<lparr>d_sock := int slot\<rparr>) s2
                 in Some (fd, set_sock slot ((g_sock s3 slot)\<lparr>s_state := OKM_SOCK_CONN, s_conn := c,
                                               s_type := SOCK_STREAM\<rparr>) s3))"

text \<open>Which connection \<open>accept\<close> delivers: the one an enquiry took, or the next.\<close>

definition accept_conn ::
  "'e kal \<Rightarrow> nat \<Rightarrow> nat \<Rightarrow> 'e okm \<Rightarrow> ((int + kal_net_conn) \<times> 'e okm) option" where
  "accept_conn K d k s =
     (let q = g_sock s k in
      if s_pend_conn q then Some (Inr (s_pend q), set_sock k (q\<lparr>s_pend_conn := False\<rparr>) s)
      else if has (d_flags (g_desc s d)) O_NONBLOCK then
        (case K_timeout K of
           None \<Rightarrow> Some (Inl (- ENOSYS), s)
         | Some T \<Rightarrow>
             (case timeout_accept T (s_lis q) OKM_NOW_NS (env s) of
                (Inl e, e') \<Rightarrow> Some (Inl (io_error e), s\<lparr>env := e'\<rparr>)
              | (Inr c, e') \<Rightarrow> Some (Inr c, s\<lparr>env := e'\<rparr>)))
      else case K_net K of
        None \<Rightarrow> None
      | Some N \<Rightarrow>
          (case net_accept N (s_lis q) (env s) of
             (Inl e, e') \<Rightarrow> Some (Inl (- okm_errno e), s\<lparr>env := e'\<rparr>)
           | (Inr c, e') \<Rightarrow> Some (Inr c, s\<lparr>env := e'\<rparr>)))"

definition okm_sock_accept ::
  "'e kal \<Rightarrow> kal_uintptr \<Rightarrow> int \<Rightarrow> memory option \<Rightarrow> nat option \<Rightarrow> flagword \<Rightarrow> 'e okm
     \<Rightarrow> (int \<times> memory option \<times> nat option \<times> 'e okm) option" where
  "okm_sock_accept K me fd address len flags s =
     (case sock_of fd s of
        Inl e \<Rightarrow> Some (e, address, len, s)
      | Inr (d, k) \<Rightarrow>
          if s_state (g_sock s k) \<noteq> OKM_SOCK_LISTEN then Some (- EINVAL, address, len, s)
          else if flags AND NOT (SOCK_CLOEXEC OR SOCK_NONBLOCK) \<noteq> 0
          then Some (- EINVAL, address, len, s)
          else if has flags SOCK_NONBLOCK \<and> \<not> okm_can_bound K then Some (- ENOSYS, address, len, s)
          else case accept_conn K d k s of
            None \<Rightarrow> None
          | Some (Inl e, s1) \<Rightarrow> Some (e, address, len, s1)
          | Some (Inr c, s1) \<Rightarrow>
              (case K_net K of
                 None \<Rightarrow> None
               | Some N \<Rightarrow>
                   let newflags = (if has flags SOCK_NONBLOCK then O_NONBLOCK else 0)
                                    OR (if has flags SOCK_CLOEXEC then O_CLOEXEC else 0)
                   in case adopt K N me c newflags s1 of
                        None \<Rightarrow> None
                      | Some (nfd, s2) \<Rightarrow>
                          let s3 = (if 0 \<le> nfd \<and> has flags SOCK_CLOEXEC
                                    then snd (okm_fd_cloexec nfd True s2) else s2);
                              s4 = okm_unlock K me s3
                          in if nfd < 0 then Some (nfd, address, len, s4)
                             else if address \<noteq> None \<and> len \<noteq> None then
                               (case net_peer N c (env s4) of
                                  Inl _ \<Rightarrow> Some (nfd, address, Some 0, s4)
                                | Inr peer \<Rightarrow>
                                    (case from_endpoint peer address len of
                                       (_, address', len') \<Rightarrow> Some (nfd, address', len', s4)))
                             else Some (nfd, address, len, s4)))"

text \<open>The opening of a datagram socket that \<open>connect\<close>, \<open>send\<close> and \<open>recv\<close> make if \<open>bind\<close> had not:
  \<open>Some\<close> the negated error, or \<open>None\<close>.\<close>

definition dgram_ready :: "'e kal_dgram \<Rightarrow> nat \<Rightarrow> 'e okm \<Rightarrow> int option \<times> 'e okm" where
  "dgram_ready D k s =
     (let q = g_sock s k in
      if s_state q = OKM_SOCK_NEW then
        (case dgram_open D (if s_have_local q then Some (s_local q) else None) (env s) of
           (Inl e, e') \<Rightarrow> (Some (- okm_errno e), s\<lparr>env := e'\<rparr>)
         | (Inr h, e') \<Rightarrow> (None, set_sock k (q\<lparr>s_dg := h, s_state := OKM_SOCK_DGRAM\<rparr>) (s\<lparr>env := e'\<rparr>)))
      else (None, s))"

definition okm_sock_connect ::
  "'e kal \<Rightarrow> int \<Rightarrow> memory option \<Rightarrow> nat \<Rightarrow> 'e okm \<Rightarrow> int \<times> 'e okm" where
  "okm_sock_connect K fd address len s =
     (case sock_of fd s of
        Inl e \<Rightarrow> (e, s)
      | Inr (d, k) \<Rightarrow>
          (case to_endpoint address len of
             Inl r \<Rightarrow> (r, s)
           | Inr ep \<Rightarrow>
               let q = g_sock s k in
               if s_type q = SOCK_DGRAM then
                 (case K_dgram K of
                    None \<Rightarrow> (- ENOSYS, s)
                  | Some D \<Rightarrow>
                      (case dgram_ready D k s of
                         (Some e, s1) \<Rightarrow> (e, s1)
                       | (None, s1) \<Rightarrow>
                           (0, set_sock k ((g_sock s1 k)\<lparr>s_peer := ep, s_have_peer := True\<rparr>) s1)))
               else if s_state q = OKM_SOCK_CONN then (- EISCONN, s)
               else if s_state q \<noteq> OKM_SOCK_NEW then (- EINVAL, s)
               else case K_net K of
                 None \<Rightarrow> (- ENOSYS, s)
               | Some N \<Rightarrow>
                   (case net_connect N ep (env s) of
                      (Inl e, e') \<Rightarrow> (- okm_errno e, s\<lparr>env := e'\<rparr>)
                    | (Inr c, e') \<Rightarrow>
                        (0, set_desc d ((g_desc s d)\<lparr>d_stream := net_stream N c\<rparr>)
                              (set_sock k (q\<lparr>s_conn := c, s_state := OKM_SOCK_CONN, s_peer := ep,
                                            s_have_peer := True\<rparr>) (s\<lparr>env := e'\<rparr>))))))"

section \<open>Names, shutdown\<close>

definition okm_sock_name ::
  "'e kal \<Rightarrow> int \<Rightarrow> memory option \<Rightarrow> nat option \<Rightarrow> bool \<Rightarrow> 'e okm
     \<Rightarrow> (int \<times> memory option \<times> nat option) option" where
  "okm_sock_name K fd address len peer s =
     (case sock_of fd s of
        Inl e \<Rightarrow> Some (e, address, len)
      | Inr (d, k) \<Rightarrow>
          if address = None \<or> len = None then Some (- EFAULT, address, len)
          else
            let q = g_sock s k;
                answer = (\<lambda>r. case r of Inl e \<Rightarrow> Some (- okm_errno e, address, len)
                                      | Inr ep \<Rightarrow> Some (from_endpoint ep address len))
            in if peer then
                 (if s_state q = OKM_SOCK_CONN then
                    (case K_net K of None \<Rightarrow> None | Some N \<Rightarrow> answer (net_peer N (s_conn q) (env s)))
                  else if s_have_peer q then answer (Inr (s_peer q))
                  else Some (- ENOTCONN, address, len))
               else case s_state q of
                 OKM_SOCK_CONN \<Rightarrow>
                   (case K_net K of None \<Rightarrow> None | Some N \<Rightarrow> answer (net_local N (s_conn q) (env s)))
               | OKM_SOCK_LISTEN \<Rightarrow>
                   (case K_net K of None \<Rightarrow> None
                    | Some N \<Rightarrow> answer (net_listener_local N (s_lis q) (env s)))
               | OKM_SOCK_DGRAM \<Rightarrow>
                   (case K_dgram K of None \<Rightarrow> None
                    | Some D \<Rightarrow> answer (dgram_local D (s_dg q) (env s)))
               | _ \<Rightarrow> if \<not> s_have_local q then Some (- EINVAL, address, len)
                       else answer (Inr (s_local q)))"

definition okm_sock_shutdown :: "'e kal \<Rightarrow> int \<Rightarrow> int \<Rightarrow> 'e okm \<Rightarrow> (int \<times> 'e okm) option" where
  "okm_sock_shutdown K fd how s =
     (case sock_of fd s of
        Inl e \<Rightarrow> Some (e, s)
      | Inr (d, k) \<Rightarrow>
          let q = g_sock s k in
          if s_state q \<noteq> OKM_SOCK_CONN then Some (- ENOTCONN, s)
          else
            let dir = (if how = 0 then Some KAL_SHUT_READ else if how = 1 then Some KAL_SHUT_WRITE
                       else if how = 2 then Some KAL_SHUT_BOTH else None)
            in case dir of
                 None \<Rightarrow> Some (- EINVAL, s)
               | Some dr \<Rightarrow>
                   (case K_net K of
                      None \<Rightarrow> None
                    | Some N \<Rightarrow>
                        (case net_shutdown N (s_conn q) dr (env s) of
                           (e, e') \<Rightarrow> Some (if e = kal_ok then 0 else - okm_errno e, s\<lparr>env := e'\<rparr>))))"

section \<open>Sending and receiving\<close>

definition bound_of :: "okm_desc \<Rightarrow> okm_sock \<Rightarrow> flagword \<Rightarrow> bool \<Rightarrow> nat" where
  "bound_of p q flags receiving =
     (if has flags MSG_DONTWAIT \<or> has (d_flags p) O_NONBLOCK then OKM_NOW_NS
      else if receiving then s_rcv_bound q else s_snd_bound q)"

definition okm_sock_send ::
  "'e kal \<Rightarrow> int \<Rightarrow> byte list \<Rightarrow> flagword \<Rightarrow> memory option \<Rightarrow> nat \<Rightarrow> 'e okm \<Rightarrow> (int + nat) \<times> 'e okm" where
  "okm_sock_send K fd buf flags address alen s =
     (case sock_of fd s of
        Inl e \<Rightarrow> (Inl e, s)
      | Inr (d, k) \<Rightarrow>
          let q = g_sock s k in
          if flags AND NOT (MSG_NOSIGNAL OR MSG_DONTWAIT) \<noteq> 0 then (Inl (- ENOSYS), s)
          else if s_type q = SOCK_DGRAM then
            (case K_dgram K of
               None \<Rightarrow> (Inl (- ENOSYS), s)
             | Some D \<Rightarrow>
                 (case (if address \<noteq> None then to_endpoint address alen
                        else if s_have_peer q then Inr (s_peer q) else Inl (- EDESTADDRREQ)) of
                    Inl r \<Rightarrow> (Inl r, s)
                  | Inr to \<Rightarrow>
                      (case dgram_ready D k s of
                         (Some e, s1) \<Rightarrow> (Inl e, s1)
                       | (None, s1) \<Rightarrow>
                           (case dgram_send_to D (s_dg (g_sock s1 k)) buf to (env s1) of
                              (Inl e, e') \<Rightarrow> (Inl (- okm_errno e), s1\<lparr>env := e'\<rparr>)
                            | (Inr n, e') \<Rightarrow> (Inr n, s1\<lparr>env := e'\<rparr>)))))
          else if s_state q \<noteq> OKM_SOCK_CONN then (Inl (- ENOTCONN), s)
          else if address \<noteq> None then (Inl (- EISCONN), s)
          else
            let ns = bound_of (g_desc s d) q flags False; st = d_stream (g_desc s d)
            in if ns \<noteq> 0 then okm_timed_write K st buf ns s else plain_write K st buf s)"

text \<open>The message of a datagram socket: the one an enquiry took, or the next.\<close>

definition recv_msg ::
  "'e kal \<Rightarrow> 'e kal_dgram \<Rightarrow> nat \<Rightarrow> nat \<Rightarrow> nat \<Rightarrow> flagword \<Rightarrow> 'e okm
     \<Rightarrow> (int + byte list \<times> kal_endpoint) \<times> 'e okm" where
  "recv_msg K D d k len flags s =
     (let q = g_sock s k in
      if s_pend_msg q then
        (Inr (take (if s_pend_len q < len then s_pend_len q else len)
                (case s_buf q of None \<Rightarrow> [] | Some b \<Rightarrow> b), s_pend_from q),
         set_sock k (q\<lparr>s_pend_msg := False\<rparr>) s)
      else
        let ns = bound_of (g_desc s d) q flags True in
        if ns \<noteq> 0 then
          (case K_timeout K of
             None \<Rightarrow> (Inl (- ENOSYS), s)
           | Some T \<Rightarrow>
               (case timeout_recv_from T (s_dg q) len ns (env s) of
                  (Inl e, e') \<Rightarrow> (Inl (io_error e), s\<lparr>env := e'\<rparr>)
                | (Inr m, e') \<Rightarrow> (Inr m, s\<lparr>env := e'\<rparr>)))
        else
          (case dgram_recv_from D (s_dg q) len (env s) of
             (Inl e, e') \<Rightarrow> (Inl (- okm_errno e), s\<lparr>env := e'\<rparr>)
           | (Inr m, e') \<Rightarrow> (Inr m, s\<lparr>env := e'\<rparr>)))"

definition okm_sock_recv ::
  "'e kal \<Rightarrow> int \<Rightarrow> nat \<Rightarrow> flagword \<Rightarrow> memory option \<Rightarrow> nat option \<Rightarrow> 'e okm
     \<Rightarrow> (int + byte list) \<times> memory option \<times> nat option \<times> 'e okm" where
  "okm_sock_recv K fd len flags address alen s =
     (case sock_of fd s of
        Inl e \<Rightarrow> (Inl e, address, alen, s)
      | Inr (d, k) \<Rightarrow>
          let q = g_sock s k in
          if flags AND NOT (MSG_NOSIGNAL OR MSG_DONTWAIT) \<noteq> 0 then (Inl (- ENOSYS), address, alen, s)
          else if s_type q = SOCK_DGRAM then
            (case K_dgram K of
               None \<Rightarrow> (Inl (- ENOSYS), address, alen, s)
             | Some D \<Rightarrow>
                 (case dgram_ready D k s of
                    (Some e, s1) \<Rightarrow> (Inl e, address, alen, s1)
                  | (None, s1) \<Rightarrow>
                      (case recv_msg K D d k len flags s1 of
                         (Inl e, s2) \<Rightarrow> (Inl e, address, alen, s2)
                       | (Inr (bs, from'), s2) \<Rightarrow>
                           (case (if address \<noteq> None \<and> alen \<noteq> None then from_endpoint from' address alen
                                  else (0, address, alen)) of
                              (_, address', alen') \<Rightarrow> (Inr bs, address', alen', s2)))))
          else if s_state q \<noteq> OKM_SOCK_CONN then (Inl (- ENOTCONN), address, alen, s)
          else
            let alen' = (if address \<noteq> None \<and> alen \<noteq> None then Some 0 else alen) in
            (case okm_take_ahead (Some d) len s of
               (AHEAD_EOF, s1) \<Rightarrow> (Inr [], address, alen', s1)
             | (AHEAD_BYTE b, s1) \<Rightarrow> (Inr [b], address, alen', s1)
             | (AHEAD_NONE, s1) \<Rightarrow>
                 let ns = bound_of (g_desc s1 d) (g_sock s1 k) flags True;
                     st = d_stream (g_desc s1 d)
                 in (case (if ns \<noteq> 0 then okm_timed_read K st len ns s1 else plain_read K st len s1) of
                       (r, s2) \<Rightarrow> (r, address, alen', s2))))"

section \<open>Options\<close>

text \<open>
  \<open>struct timeval\<close> is two 64-bit numbers, and \<open>val\<close> is what the caller's pointer refers to; all ones
  is what the code returns for a value too short, and the arithmetic wraps at 64 bits.
\<close>

definition ns_of_timeval :: "64 word \<Rightarrow> 64 word \<Rightarrow> nat \<Rightarrow> 64 word" where
  "ns_of_timeval tv_sec tv_usec len =
     (if len < 16 then - 1
      else if tv_sec = 0 \<and> tv_usec = 0 then 0
      else let ns = tv_sec * 1000000000 + tv_usec * 1000 in if ns \<noteq> 0 then ns else of_nat OKM_NOW_NS)"

definition okm_sock_setopt ::
  "'e kal \<Rightarrow> int \<Rightarrow> int \<Rightarrow> int \<Rightarrow> 64 word \<times> 64 word \<Rightarrow> nat \<Rightarrow> 'e okm \<Rightarrow> int \<times> 'e okm" where
  "okm_sock_setopt K fd level opt val len s =
     (case sock_of fd s of
        Inl e \<Rightarrow> (e, s)
      | Inr (d, k) \<Rightarrow>
          if level \<noteq> SOL_SOCKET then (- ENOPROTOOPT, s)
          else if opt = SO_REUSEADDR then (0, s)
          else if opt = SO_RCVTIMEO \<or> opt = SO_SNDTIMEO then
            (let ns = ns_of_timeval (fst val) (snd val) len in
             if ns = - 1 then (- EINVAL, s)
             else if ns \<noteq> 0 \<and> \<not> okm_can_bound K then (- ENOSYS, s)
             else (0, set_sock k (if opt = SO_RCVTIMEO then (g_sock s k)\<lparr>s_rcv_bound := unat ns\<rparr>
                                  else (g_sock s k)\<lparr>s_snd_bound := unat ns\<rparr>) s))
          else (- ENOPROTOOPT, s))"

text \<open>What \<open>getsockopt\<close> wrote: an \<open>int\<close> or a \<open>struct timeval\<close>; the length is set to its size.\<close>

datatype optval = Opt_none | Opt_int int | Opt_timeval int int

definition okm_sock_getopt ::
  "int \<Rightarrow> int \<Rightarrow> int \<Rightarrow> bool \<Rightarrow> nat option \<Rightarrow> 'e okm \<Rightarrow> int \<times> optval \<times> nat option" where
  "okm_sock_getopt fd level opt val len s =
     (case sock_of fd s of
        Inl e \<Rightarrow> (e, Opt_none, len)
      | Inr (d, k) \<Rightarrow>
          let q = g_sock s k in
          if level \<noteq> SOL_SOCKET then (- ENOPROTOOPT, Opt_none, len)
          else if \<not> val \<or> len = None then (- EFAULT, Opt_none, len)
          else if opt = SO_TYPE then
            (if the len < 4 then (- EINVAL, Opt_none, len) else (0, Opt_int (s_type q), Some 4))
          else if opt = SO_ERROR then
            (if the len < 4 then (- EINVAL, Opt_none, len) else (0, Opt_int 0, Some 4))
          else if opt = SO_RCVTIMEO \<or> opt = SO_SNDTIMEO then
            (if the len < 16 then (- EINVAL, Opt_none, len)
             else let ns = (if opt = SO_RCVTIMEO then s_rcv_bound q else s_snd_bound q)
                  in (0, Opt_timeval (int (ns div 1000000000)) (int (ns mod 1000000000 div 1000)), Some 16))
          else (- ENOPROTOOPT, Opt_none, len))"

section \<open>Readiness\<close>

datatype shape = OKM_SOCK_SHAPE_IDLE | OKM_SOCK_SHAPE_STREAM | OKM_SOCK_SHAPE_OWN

definition okm_sock_shape :: "nat \<Rightarrow> 'e okm \<Rightarrow> shape" where
  "okm_sock_shape d s =
     (case slot_of (Some d) s of
        None \<Rightarrow> OKM_SOCK_SHAPE_IDLE
      | Some k \<Rightarrow>
          if s_state (g_sock s k) = OKM_SOCK_CONN then OKM_SOCK_SHAPE_STREAM
          else if s_state (g_sock s k) = OKM_SOCK_LISTEN \<or> s_state (g_sock s k) = OKM_SOCK_DGRAM
          then OKM_SOCK_SHAPE_OWN
          else OKM_SOCK_SHAPE_IDLE)"

text \<open>
  \<open>okm_sock_wait_in\<close>: 1 ready, 0 the bound expired, negative an error. What a fresh buffer holds is
  not read before a message overwrites it; zeroes stand for it.
\<close>

definition okm_sock_wait_in :: "'e kal \<Rightarrow> nat \<Rightarrow> nat \<Rightarrow> 'e okm \<Rightarrow> int \<times> 'e okm" where
  "okm_sock_wait_in K d ns s =
     (case slot_of (Some d) s of
        None \<Rightarrow> (- EBADF, s)
      | Some k \<Rightarrow>
          let q = g_sock s k in
          if s_state q = OKM_SOCK_LISTEN then
            (if s_pend_conn q then (1, s)
             else case K_timeout K of
               None \<Rightarrow> (- ENOSYS, s)
             | Some T \<Rightarrow>
                 (case timeout_accept T (s_lis q) ns (env s) of
                    (Inl e, e') \<Rightarrow> (if e = kal_err_again then 0 else - okm_errno e, s\<lparr>env := e'\<rparr>)
                  | (Inr c, e') \<Rightarrow>
                      (1, set_sock k (q\<lparr>s_pend := c, s_pend_conn := True\<rparr>) (s\<lparr>env := e'\<rparr>))))
          else if s_state q = OKM_SOCK_DGRAM then
            (if s_pend_msg q then (1, s)
             else case K_timeout K of
               None \<Rightarrow> (- ENOSYS, s)
             | Some T \<Rightarrow>
                 (case (case s_buf q of
                          Some b \<Rightarrow> Some b
                        | None \<Rightarrow> if can_alloc K OKM_DGRAM_MAX (env s)
                                   then Some (replicate OKM_DGRAM_MAX 0) else None) of
                    None \<Rightarrow> (- ENOMEM, s)
                  | Some b \<Rightarrow>
                      let q1 = q\<lparr>s_buf := Some b\<rparr> in
                      (case timeout_recv_from T (s_dg q1) OKM_DGRAM_MAX ns (env s) of
                         (Inl e, e') \<Rightarrow> (if e = kal_err_again then 0 else - okm_errno e,
                                         set_sock k q1 (s\<lparr>env := e'\<rparr>))
                       | (Inr (bs, from'), e') \<Rightarrow>
                           (1, set_sock k (q1\<lparr>s_buf := Some (bs @ drop (length bs) b),
                                              s_pend_len := length bs, s_pend_from := from',
                                              s_pend_msg := True\<rparr>) (s\<lparr>env := e'\<rparr>)))))
          else (0, s))"

section \<open>Addresses go out as they came in\<close>

lemma byte_mask: "(0xff :: 32 word) = mask 8" by (simp add: mask_eq_exp_minus_1)

lemma le32_bytes_nth:
  "i < 4 \<Longrightarrow> le32_bytes w ! i = ucast (drop_bit (i * 8) w AND 0xff)"
  by (auto simp: le32_bytes_def less_Suc_eq numeral_eq_Suc)

lemma length_le32_bytes [simp]: "length (le32_bytes w) = 4"
  by (simp add: le32_bytes_def)

lemma le32_at_bytes:
  assumes "\<And>j. j < 4 \<Longrightarrow> m (i + j) = le32_bytes w ! j"
  shows "le32_at m i = w"
proof (rule bit_word_eqI)
  fix n assume "n < LENGTH(32)"
  then have n: "n < 32" by simp
  have m: "m i = le32_bytes w ! 0" "m (i + 1) = le32_bytes w ! 1" "m (i + 2) = le32_bytes w ! 2"
    "m (i + 3) = le32_bytes w ! 3"
    using assms [of 0] assms [of 1] assms [of 2] assms [of 3] by simp_all
  show "bit (le32_at m i) n = bit w n"
  proof -
    consider "n < 8" | "8 \<le> n" "n < 16" | "16 \<le> n" "n < 24" | "24 \<le> n" using n by linarith
    then show ?thesis
      using n unfolding le32_at_def m
      by cases (auto simp: le32_bytes_nth byte_mask bit_simps)
  qed
qed

lemma le32_bytes_at: "le32_bytes (le32_at m i) = [m i, m (i + 1), m (i + 2), m (i + 3)]"
proof (rule nth_equalityI)
  fix j assume "j < length (le32_bytes (le32_at m i))"
  then have j: "j < 4" by simp
  have "le32_bytes (le32_at m i) ! j = m (i + j)"
  proof (rule bit_word_eqI)
    fix n assume "n < LENGTH(8)"
    then have n: "n < 8" by simp
    consider "j = 0" | "j = 1" | "j = 2" | "j = 3" using j by linarith
    then show "bit (le32_bytes (le32_at m i) ! j) n = bit (m (i + j)) n"
      using n by cases (auto simp: le32_bytes_nth le32_at_def byte_mask bit_simps dest: bit_imp_le_length)
  qed
  then show "le32_bytes (le32_at m i) ! j = [m i, m (i + 1), m (i + 2), m (i + 3)] ! j"
    using j by (auto simp: less_Suc_eq numeral_eq_Suc)
qed simp

lemma htons_ntohs:
  assumes "p < 65536" "m i = htons_bytes p ! 0" "m (i + 1) = htons_bytes p ! 1"
  shows "ntohs_at m i = p"
proof -
  have "p div 256 < 256" using assms(1) by simp
  then have "unat (of_nat (p div 256) :: byte) = p div 256"
    by (simp add: unat_of_nat take_bit_nat_eq_self)
  moreover have "unat (of_nat p :: byte) = p mod 256"
    by (simp add: unat_of_nat take_bit_eq_mod)
  ultimately show ?thesis using assms by (simp add: ntohs_at_def htons_bytes_def)
qed

lemma ntohs_htons: "htons_bytes (ntohs_at m i) = [m i, m (i + 1)]"
proof -
  have "unat (m (i + 1)) < 256" using unsigned_less [of "m (i + 1)"] by simp
  then have "ntohs_at m i div 256 = unat (m i)" by (simp add: ntohs_at_def)
  moreover have z: "(256 :: byte) = 0" by transfer (simp add: take_bit_eq_mod)
  have "(of_nat (ntohs_at m i) :: byte) = m (i + 1)" by (simp add: ntohs_at_def z)
  ultimately show ?thesis by (simp add: htons_bytes_def)
qed

text \<open>The addresses the port knows how to write, in the form it would write them back.\<close>

definition known_endpoint :: "kal_endpoint \<Rightarrow> bool" where
  "known_endpoint ep \<longleftrightarrow>
     port ep < 65536
   \<and> (length (addr ep) = 4 \<or> length (addr ep) = 16
      \<or> length (addr ep) = 20 \<and> drop 16 (addr ep) \<noteq> [0, 0, 0, 0])"

lemma sockaddr_of_length:
  assumes "sockaddr_of ep = Some u"
  shows "length u = (if length (addr ep) = 4 then 16 else 28)"
  using assms by (auto simp: sockaddr_of_def htons_bytes_def Let_def split: if_splits)

lemma le32_zero_bytes: "le32_bytes 0 = [0, 0, 0, 0]"
  by (simp add: le32_bytes_def)

lemma to_endpoint_sockaddr:
  assumes "sockaddr_of ep = Some u" "known_endpoint ep" "length u \<le> len"
    and m: "\<And>i. i < length u \<Longrightarrow> m i = u ! i"
  shows "to_endpoint (Some m) len = Inr ep"
proof (cases "length (addr ep) = 4")
  case True
  then have u: "u = [2, 0] @ htons_bytes (port ep) @ addr ep @ replicate 8 0" and l: "length u = 16"
    using assms(1) by (auto simp: sockaddr_of_def htons_bytes_def)
  have fam: "sa_family m = AF_INET"
    using m [of 0] m [of 1] l by (simp add: sa_family_def u)
  have port: "ntohs_at m 2 = port ep"
    using assms(2) m [of 2] m [of 3] l
    by (intro htons_ntohs) (simp_all add: known_endpoint_def u htons_bytes_def nth_append)
  have "map (\<lambda>i. m (4 + i)) [0..<4] = addr ep"
    using True l by (intro nth_equalityI) (auto simp: m u htons_bytes_def nth_append)
  then show ?thesis
    using fam port l assms(3) by (simp add: to_endpoint_def)
next
  case False
  then have n: "length (addr ep) = 16 \<or> length (addr ep) = 20" and
    scope: "length (addr ep) = 20 \<Longrightarrow> drop 16 (addr ep) \<noteq> [0, 0, 0, 0]"
    using assms(2) by (auto simp: known_endpoint_def)
  define sc where "sc = (if length (addr ep) = 20 then le32_at (\<lambda>i. addr ep ! i) 16 else 0)"
  have u: "u = [10, 0] @ htons_bytes (port ep) @ replicate 4 0 @ take 16 (addr ep) @ le32_bytes sc"
    using assms(1) n by (auto simp: sockaddr_of_def sc_def Let_def)
  have l: "length u = 28" using n by (auto simp: u htons_bytes_def)
  have fam: "sa_family m = AF_INET6"
    using m [of 0] m [of 1] l by (simp add: sa_family_def u)
  have port: "ntohs_at m 2 = port ep"
    using assms(2) m [of 2] m [of 3] l
    by (intro htons_ntohs) (simp_all add: known_endpoint_def u htons_bytes_def nth_append)
  have six: "map (\<lambda>i. m (8 + i)) [0..<16] = take 16 (addr ep)"
    using n l by (intro nth_equalityI) (auto simp: m u htons_bytes_def nth_append)
  have m24: "le32_at m 24 = sc"
    using n l by (intro le32_at_bytes) (auto simp: m u htons_bytes_def nth_append)
  have tail: "take 16 (addr ep) @ (if sc \<noteq> 0 then le32_bytes sc else []) = addr ep"
  proof (cases "length (addr ep) = 20")
    case True
    have d: "drop 16 (addr ep) = [addr ep ! 16, addr ep ! 17, addr ep ! 18, addr ep ! 19]"
      using True by (intro nth_equalityI) (auto simp: less_Suc_eq numeral_eq_Suc)
    have b: "le32_bytes sc = drop 16 (addr ep)"
      using le32_bytes_at [of "\<lambda>i. addr ep ! i" 16] True by (simp add: sc_def d)
    have "sc \<noteq> 0" using b scope [OF True] by (auto simp: le32_zero_bytes)
    then show ?thesis using b append_take_drop_id [of 16 "addr ep"] by simp
  next
    case False
    then show ?thesis using n by (simp add: sc_def)
  qed
  show ?thesis
    using fam port l assms(3) tail six by (simp add: to_endpoint_def m24 Let_def)
qed

lemma known_sockaddr: "known_endpoint ep \<Longrightarrow> \<exists>u. sockaddr_of ep = Some u"
  by (auto simp: known_endpoint_def sockaddr_of_def Let_def)

lemma from_endpoint_writes:
  assumes "known_endpoint ep"
  shows "\<exists>m' u. from_endpoint ep (Some m) (Some l) = (0, Some m', Some (length u)) \<and> sockaddr_of ep = Some u
      \<and> (length u \<le> l \<longrightarrow> to_endpoint (Some m') (length u) = Inr ep)
      \<and> (\<forall>i. l \<le> i \<or> length u \<le> i \<longrightarrow> m' i = m i)"
proof -
  obtain u where u: "sockaddr_of ep = Some u" using known_sockaddr [OF assms] by blast
  let ?m = "\<lambda>i. if i < (if length u < l then length u else l) then u ! i else m i"
  have "from_endpoint ep (Some m) (Some l) = (0, Some ?m, Some (length u))"
    using u by (simp add: from_endpoint_def Let_def)
  moreover have "to_endpoint (Some ?m) (length u) = Inr ep" if "length u \<le> l"
    using to_endpoint_sockaddr [OF u assms order_refl, of ?m] that by auto
  moreover have "?m i = m i" if "l \<le> i \<or> length u \<le> i" for i
    using that by auto
  ultimately show ?thesis using u by blast
qed

lemma to_endpoint_known:
  assumes "to_endpoint (Some w) n = Inr ep"
  shows "\<exists>u. sockaddr_of ep = Some u \<and> known_endpoint ep
      \<and> (\<forall>i. i < 8 \<and> sa_family w = AF_INET \<or> (i < 4 \<or> 8 \<le> i \<and> i < 28) \<and> sa_family w = AF_INET6 \<longrightarrow> u ! i = w i)"
proof -
  have fam: "w 0 = of_int (sa_family w)" "w 1 = 0"
    if "sa_family w < 256"
  proof -
    have "0 \<le> uint (w 0)" "0 \<le> uint (w 1)" by simp_all
    then have "uint (w 1) = 0" using that unfolding sa_family_def by linarith
    then show "w 1 = 0" by (simp add: unsigned_eq_0_iff)
    then show "w 0 = of_int (sa_family w)" by (simp add: sa_family_def)
  qed
  have p: "ntohs_at w 2 < 65536"
  proof -
    have "unat (w 2) < 2 ^ LENGTH(8)" "unat (w 3) < 2 ^ LENGTH(8)" by (rule unsigned_less)+
    then show ?thesis by (simp add: ntohs_at_def)
  qed
  have hp: "htons_bytes (ntohs_at w 2) = [w 2, w 3]"
    using ntohs_htons [of w 2] by simp
  consider "sa_family w = AF_INET" "ep = \<lparr>addr = map (\<lambda>i. w (4 + i)) [0..<4], port = ntohs_at w 2\<rparr>"
    | "sa_family w = AF_INET6"
      "ep = \<lparr>addr = map (\<lambda>i. w (8 + i)) [0..<16]
                     @ (if le32_at w 24 \<noteq> 0 then le32_bytes (le32_at w 24) else []), port = ntohs_at w 2\<rparr>"
    using assms by (auto simp: to_endpoint_def Let_def split: if_splits)
  then show ?thesis
  proof cases
    case 1
    then have s: "sockaddr_of ep = Some ([2, 0] @ [w 2, w 3] @ map (\<lambda>i. w (4 + i)) [0..<4] @ replicate 8 0)"
      by (simp add: sockaddr_of_def hp)
    have "([2, 0] @ [w 2, w 3] @ map (\<lambda>i. w (4 + i)) [0..<4] @ replicate 8 0) ! i = w i" if "i < 8" for i
      using that 1(1) fam by (auto simp: less_Suc_eq numeral_eq_Suc)
    with 1 p s show ?thesis by (auto simp: known_endpoint_def)
  next
    case 2
    let ?six = "map (\<lambda>i. w (8 + i)) [0..<16]" and ?sc = "le32_at w 24"
    have le: "le32_at (\<lambda>i. (?six @ le32_bytes ?sc) ! i) 16 = ?sc"
      by (rule le32_at_bytes) (simp add: nth_append)
    have s: "sockaddr_of ep = Some ([10, 0] @ [w 2, w 3] @ replicate 4 0 @ ?six @ le32_bytes ?sc)"
      using 2(2) le by (simp add: sockaddr_of_def hp Let_def le32_bytes_def)
    have nz: "le32_bytes ?sc \<noteq> [0, 0, 0, 0]" if "?sc \<noteq> 0"
    proof
      assume "le32_bytes ?sc = [0, 0, 0, 0]"
      then have "le32_at (\<lambda>i. [0, 0, 0, 0] ! i) 0 = ?sc" by (intro le32_at_bytes) simp
      with that show False by (simp add: le32_at_def)
    qed
    have b: "le32_bytes ?sc = [w 24, w 25, w 26, w 27]" using le32_bytes_at [of w 24] by simp
    have "([10, 0] @ [w 2, w 3] @ replicate 4 0 @ ?six @ le32_bytes ?sc) ! i = w i"
      if r: "i < 4 \<or> 8 \<le> i \<and> i < 28" for i
    proof -
      consider "i = 0" | "i = 1" | "i = 2" | "i = 3" | "8 \<le> i" "i < 24" | "i = 24" | "i = 25" | "i = 26" | "i = 27"
        using r by linarith
      then show ?thesis using 2(1) fam by cases (auto simp: b nth_append)
    qed
    moreover have "known_endpoint ep" using 2(2) p nz by (simp add: known_endpoint_def)
    ultimately show ?thesis using 2(1) s by (intro exI conjI) auto
  qed
qed

text \<open>
  an address survives the conversion in both directions. What \<open>from_endpoint\<close> writes into a
  buffer of the caller's that has room, \<open>to_endpoint\<close> reads back as the same address and port;
  the length reported is that of the whole address even when the caller's buffer is shorter, and no
  byte past the caller's length or past the address is written. An address a program gives is one of
  those, and is written back with the family, port, address and scope bytes it had.
\<close>

theorem endpoint_roundtrip:
  "(known_endpoint ep \<longrightarrow>
      (\<exists>m' u. from_endpoint ep (Some m) (Some l) = (0, Some m', Some (length u)) \<and> sockaddr_of ep = Some u
        \<and> (length u \<le> l \<longrightarrow> to_endpoint (Some m') (length u) = Inr ep)
        \<and> (\<forall>i. l \<le> i \<or> length u \<le> i \<longrightarrow> m' i = m i)))
   \<and> (to_endpoint (Some w) n = Inr ep \<longrightarrow>
      (\<exists>u. sockaddr_of ep = Some u \<and> known_endpoint ep
        \<and> (\<forall>i. i < 8 \<and> sa_family w = AF_INET \<or> (i < 4 \<or> 8 \<le> i \<and> i < 28) \<and> sa_family w = AF_INET6
                \<longrightarrow> u ! i = w i)))"
  using from_endpoint_writes [of ep m l] to_endpoint_known [of w n ep] by blast

theorem endpoint_roundtrip_witness:
  "\<exists>m'. from_endpoint \<lparr>addr = [127, 0, 0, 1], port = 8080\<rparr> (Some (\<lambda>_. 0)) (Some 28) = (0, Some m', Some 16)
      \<and> to_endpoint (Some m') 16 = Inr \<lparr>addr = [127, 0, 0, 1], port = 8080\<rparr>"
proof -
  let ?e = "\<lparr>addr = [127, 0, 0, 1], port = 8080\<rparr>"
  have k: "known_endpoint ?e" by (simp add: known_endpoint_def)
  have u: "sockaddr_of ?e = Some u \<Longrightarrow> length u = 16" for u
    using sockaddr_of_length [of ?e u] by simp
  from endpoint_roundtrip [THEN conjunct1, THEN mp, OF k, of "\<lambda>_. 0" 28] show ?thesis
    by (auto dest!: u)
qed

end
