(* ===== verification/Okm_Sockets.thy ===== *)
theory Okm_Sockets
  imports Okm_Net
begin

text \<open>
  What the socket calls keep: each slot in use belongs to one description, each state of a slot to an
  interface the environment has, and what a readiness enquiry took is delivered by the call that
  follows. The invariant is stated over the slots and the descriptions that are sockets, and is kept by
  every operation on descriptors and every socket call; timeouts read back as they were set.
\<close>

section \<open>Timeouts\<close>

lemma ns_of_timeval_valid: "16 \<le> len \<Longrightarrow> ns_of_timeval sec usec len \<noteq> - 1"
proof
  assume len: "16 \<le> len" and eq: "ns_of_timeval sec usec len = - 1"
  have "even (sec * 1000000000 + usec * 1000)" by simp
  moreover have "odd (- 1 :: 64 word)" by simp
  ultimately have "sec * 1000000000 + usec * 1000 \<noteq> - 1" by metis
  with eq len show False by (auto simp: ns_of_timeval_def Let_def split: if_splits)
qed

lemma ns_of_timeval_zero: "16 \<le> len \<Longrightarrow> ns_of_timeval sec usec len = 0 \<longleftrightarrow> sec = 0 \<and> usec = 0"
  by (auto simp: ns_of_timeval_def Let_def)

lemma ns_of_timeval_exact:
  assumes "16 \<le> len" "unat sec * 1000000000 + unat usec * 1000 < 2 ^ 64"
  shows "unat (ns_of_timeval sec usec len) = unat sec * 1000000000 + unat usec * 1000"
proof -
  let ?n = "unat sec * 1000000000 + unat usec * 1000"
  have eq: "sec * 1000000000 + usec * 1000 = of_nat ?n" by simp
  have u: "unat (of_nat ?n :: 64 word) = ?n"
    using assms(2) by (simp add: unat_of_nat take_bit_nat_eq_self del: of_nat_add of_nat_mult)
  show ?thesis
  proof (cases "sec = 0 \<and> usec = 0")
    case True
    then show ?thesis using assms(1) by (simp add: ns_of_timeval_def)
  next
    case False
    then have "?n \<noteq> 0" by (auto simp: unsigned_eq_0_iff)
    then have "of_nat ?n \<noteq> (0 :: 64 word)" using u by (metis unsigned_0)
    with False assms(1) u show ?thesis
      unfolding ns_of_timeval_def Let_def eq by (simp del: of_nat_add of_nat_mult)
  qed
qed

lemma okm_desc_of_set_sock [simp]: "okm_desc_of fd (s\<lparr>g_sock := G\<rparr>) = okm_desc_of fd s"
  by (simp add: okm_desc_of_def)

lemma sock_of_set_sock [simp]: "sock_of fd (s\<lparr>g_sock := G\<rparr>) = sock_of fd s"
  by (simp add: sock_of_def slot_of_def split: option.split)

lemma sock_of_set_env [simp]: "sock_of fd (s\<lparr>env := e\<rparr>) = sock_of fd s"
  by (simp add: sock_of_def slot_of_def split: option.split)

text \<open>
  a timeout set on a socket is the timeout read back. A value of the right length is never
  taken for the mark of one too short, a wait is never recorded as no bound, and where the
  interval fits 64 bits of nanoseconds and the microseconds are in range, \<open>getsockopt\<close> answers the seconds and
  microseconds \<open>setsockopt\<close> was given, for either direction. The other direction keeps its own.
\<close>

theorem sockopt_timeout_roundtrip:
  assumes "sock_of fd s = Inr (d, k)" "opt = SO_RCVTIMEO \<or> opt = SO_SNDTIMEO"
    and "16 \<le> len" "okm_can_bound K"
  shows "\<exists>t. okm_sock_setopt K fd SOL_SOCKET opt (sec, usec) len s = (0, t)
    \<and> ((if opt = SO_RCVTIMEO then s_rcv_bound (g_sock t k) else s_snd_bound (g_sock t k)) = 0
         \<longleftrightarrow> sec = 0 \<and> usec = 0)
    \<and> (if opt = SO_RCVTIMEO then s_snd_bound (g_sock t k) = s_snd_bound (g_sock s k)
       else s_rcv_bound (g_sock t k) = s_rcv_bound (g_sock s k))
    \<and> (unat usec < 1000000 \<longrightarrow> unat sec * 1000000000 + unat usec * 1000 < 2 ^ 64 \<longrightarrow>
         okm_sock_getopt fd SOL_SOCKET opt True (Some len) t =
           (0, Opt_timeval (int (unat sec)) (int (unat usec)), Some 16))"
proof -
  let ?ns = "ns_of_timeval sec usec len"
  let ?q = "if opt = SO_RCVTIMEO then (g_sock s k)\<lparr>s_rcv_bound := unat ?ns\<rparr>
            else (g_sock s k)\<lparr>s_snd_bound := unat ?ns\<rparr>"
  have set: "okm_sock_setopt K fd SOL_SOCKET opt (sec, usec) len s = (0, set_sock k ?q s)"
    using assms ns_of_timeval_valid [OF assms(3)] by (auto simp: okm_sock_setopt_def Let_def)
  have "okm_sock_getopt fd SOL_SOCKET opt True (Some len) (set_sock k ?q s) =
           (0, Opt_timeval (int (unat sec)) (int (unat usec)), Some 16)"
    if "unat usec < 1000000" "unat sec * 1000000000 + unat usec * 1000 < 2 ^ 64"
  proof -
    have "unat ?ns div 1000000000 = unat sec" "unat ?ns mod 1000000000 div 1000 = unat usec"
      using that by (simp_all add: ns_of_timeval_exact [OF assms(3) that(2)])
    with assms show ?thesis by (auto simp: okm_sock_getopt_def Let_def)
  qed
  then show ?thesis
    using set ns_of_timeval_zero [OF assms(3), of sec usec]
    by (auto simp: unsigned_eq_0_iff)
qed

section \<open>Sockets and descriptions\<close>

text \<open>
  The invariant of a slot: a listener or a connection exists only where \<open>openkal.net\<close> does, a datagram
  endpoint only where \<open>openkal.datagram\<close> does; a connection held for \<open>accept\<close> is held by a listener, and
  a message held for \<open>recv\<close> lies within the buffer of a datagram endpoint.
\<close>

definition slot_ok :: "'e kal \<Rightarrow> okm_sock \<Rightarrow> bool" where
  "slot_ok K q \<longleftrightarrow>
     (s_state q = OKM_SOCK_LISTEN \<or> s_state q = OKM_SOCK_CONN \<longrightarrow> K_net K \<noteq> None \<and> s_type q = SOCK_STREAM)
   \<and> (s_state q = OKM_SOCK_DGRAM \<longrightarrow> K_dgram K \<noteq> None \<and> s_type q = SOCK_DGRAM)
   \<and> (s_state q \<noteq> OKM_SOCK_FREE \<longrightarrow> s_type q = SOCK_STREAM \<or> s_type q = SOCK_DGRAM)
   \<and> (s_pend_conn q \<longrightarrow> s_state q = OKM_SOCK_LISTEN)
   \<and> (s_pend_msg q \<longrightarrow> s_state q = OKM_SOCK_DGRAM
        \<and> (\<exists>b. s_buf q = Some b \<and> s_pend_len q \<le> length b))"

text \<open>The stream a description of the socket has: its connection's, or none.\<close>

definition stream_for :: "'e kal \<Rightarrow> okm_sock \<Rightarrow> kal_stream" where
  "stream_for K q =
     (if s_state q = OKM_SOCK_CONN then (case K_net K of None \<Rightarrow> 0 | Some N \<Rightarrow> net_stream N (s_conn q))
      else 0)"

text \<open>The descriptions that are sockets, with their slot and stream.\<close>

definition sview :: "'e okm \<Rightarrow> nat \<Rightarrow> (int \<times> kal_stream) option" where
  "sview s d = (if live s d \<and> d_kind (g_desc s d) = OKM_SOCKET
                then Some (d_sock (g_desc s d), d_stream (g_desc s d)) else None)"

definition linked ::
  "'e kal \<Rightarrow> (nat \<Rightarrow> (int \<times> kal_stream) option) \<Rightarrow> (nat \<Rightarrow> okm_sock) \<Rightarrow> bool" where
  "linked K V G \<longleftrightarrow>
     (\<forall>d k st. V d = Some (k, st) \<longrightarrow> 0 \<le> k \<and> k < int OKM_MAX_SOCK
        \<and> s_state (G (nat k)) \<noteq> OKM_SOCK_FREE \<and> st = stream_for K (G (nat k)))
   \<and> (\<forall>d e k st st'. V d = Some (k, st) \<longrightarrow> V e = Some (k, st') \<longrightarrow> d = e)
   \<and> (\<forall>k < OKM_MAX_SOCK. s_state (G k) \<noteq> OKM_SOCK_FREE \<longrightarrow> (\<exists>d st. V d = Some (int k, st)))"

lemma linkedD:
  assumes "linked K V G" "V d = Some (k, st)"
  shows "0 \<le> k" "k < int OKM_MAX_SOCK" "s_state (G (nat k)) \<noteq> OKM_SOCK_FREE" "st = stream_for K (G (nat k))"
  using assms unfolding linked_def by blast+

lemma linked_inj: "linked K V G \<Longrightarrow> V d = Some (k, st) \<Longrightarrow> V e = Some (k, st') \<Longrightarrow> d = e"
  unfolding linked_def by blast

lemma linked_ex:
  "linked K V G \<Longrightarrow> k < OKM_MAX_SOCK \<Longrightarrow> s_state (G k) \<noteq> OKM_SOCK_FREE \<Longrightarrow> \<exists>d st. V d = Some (int k, st)"
  unfolding linked_def by blast

lemma linkedI:
  assumes "\<And>d k st. V d = Some (k, st) \<Longrightarrow> 0 \<le> k \<and> k < int OKM_MAX_SOCK
        \<and> s_state (G (nat k)) \<noteq> OKM_SOCK_FREE \<and> st = stream_for K (G (nat k))"
    and "\<And>d e k st st'. V d = Some (k, st) \<Longrightarrow> V e = Some (k, st') \<Longrightarrow> d = e"
    and "\<And>k. k < OKM_MAX_SOCK \<Longrightarrow> s_state (G k) \<noteq> OKM_SOCK_FREE \<Longrightarrow> \<exists>d st. V d = Some (int k, st)"
  shows "linked K V G"
  using assms unfolding linked_def by blast

text \<open>The three changes: a socket made, changed, released.\<close>

lemma linked_add:
  assumes l: "linked K V G" and d: "V d = None" and k: "k < OKM_MAX_SOCK" "s_state (G k) = OKM_SOCK_FREE"
    and q: "s_state q \<noteq> OKM_SOCK_FREE" "st = stream_for K q"
  shows "linked K (V(d := Some (int k, st))) (G(k := q))"
proof (rule linkedI)
  have fresh: "V e = Some (j, t) \<Longrightarrow> j \<noteq> int k" for e j t
    using linkedD [OF l] k(2) by (metis nat_int)
  show "0 \<le> j \<and> j < int OKM_MAX_SOCK \<and> s_state ((G(k := q)) (nat j)) \<noteq> OKM_SOCK_FREE
      \<and> t = stream_for K ((G(k := q)) (nat j))" if "(V(d := Some (int k, st))) e = Some (j, t)" for e j t
    using that linkedD [OF l, of e j t] fresh [of e j t] k(1) q
    by (cases "e = d") (auto simp: nat_eq_iff)
  show "e = e'" if "(V(d := Some (int k, st))) e = Some (j, t)" "(V(d := Some (int k, st))) e' = Some (j, t')"
    for e e' j t t'
    using that fresh linked_inj [OF l] by (auto split: if_splits)
  show "\<exists>e t. (V(d := Some (int k, st))) e = Some (int j, t)"
    if j: "j < OKM_MAX_SOCK" "s_state ((G(k := q)) j) \<noteq> OKM_SOCK_FREE" for j
  proof (cases "j = k")
    case True
    then show ?thesis by auto
  next
    case False
    then obtain e t where "V e = Some (int j, t)" using linked_ex [OF l j(1)] j(2) by auto
    with d show ?thesis by (metis fun_upd_other option.distinct(1))
  qed
qed

lemma linked_upd:
  assumes l: "linked K V G" and d: "V d = Some (int k, st)"
    and q: "s_state q \<noteq> OKM_SOCK_FREE" "st' = stream_for K q"
  shows "linked K (V(d := Some (int k, st'))) (G(k := q))"
proof (rule linkedI)
  have own: "V e = Some (int k, t) \<Longrightarrow> e = d" for e t
    using linked_inj [OF l d] by blast
  show "0 \<le> j \<and> j < int OKM_MAX_SOCK \<and> s_state ((G(k := q)) (nat j)) \<noteq> OKM_SOCK_FREE
      \<and> t = stream_for K ((G(k := q)) (nat j))" if "(V(d := Some (int k, st'))) e = Some (j, t)" for e j t
    using that linkedD [OF l, of e j t] linkedD [OF l d] own [of e t] q
    by (cases "e = d") (auto simp: nat_eq_iff)
  show "e = e'" if "(V(d := Some (int k, st'))) e = Some (j, t)" "(V(d := Some (int k, st'))) e' = Some (j, t')"
    for e e' j t t'
    using that own linked_inj [OF l] by (auto split: if_splits)
  show "\<exists>e t. (V(d := Some (int k, st'))) e = Some (int j, t)"
    if j: "j < OKM_MAX_SOCK" "s_state ((G(k := q)) j) \<noteq> OKM_SOCK_FREE" for j
  proof (cases "j = k")
    case True
    then show ?thesis by (intro exI [of _ d] exI [of _ st']) simp
  next
    case False
    then obtain e t where e: "V e = Some (int j, t)" using linked_ex [OF l j(1)] j(2) by auto
    with False d have "e \<noteq> d" by auto
    with e show ?thesis by (intro exI [of _ e] exI [of _ t]) simp
  qed
qed

lemma linked_del:
  assumes l: "linked K V G" and d: "V d = Some (k, st)" and q: "s_state q = OKM_SOCK_FREE"
  shows "linked K (V(d := None)) (G(nat k := q))"
proof (rule linkedI)
  have own: "V e = Some (k, t) \<Longrightarrow> e = d" for e t
    using linked_inj [OF l d] by blast
  show "0 \<le> j \<and> j < int OKM_MAX_SOCK \<and> s_state ((G(nat k := q)) (nat j)) \<noteq> OKM_SOCK_FREE
      \<and> t = stream_for K ((G(nat k := q)) (nat j))" if "(V(d := None)) e = Some (j, t)" for e j t
    using that linkedD [OF l, of e j t] linkedD [OF l d] own [of e t]
    by (cases "e = d") (auto simp: nat_eq_iff)
  show "e = e'" if "(V(d := None)) e = Some (j, t)" "(V(d := None)) e' = Some (j, t')" for e e' j t t'
    using that linked_inj [OF l] by (auto split: if_splits)
  show "\<exists>e t. (V(d := None)) e = Some (int j, t)"
    if j: "j < OKM_MAX_SOCK" "s_state ((G(nat k := q)) j) \<noteq> OKM_SOCK_FREE" for j
  proof -
    have "j \<noteq> nat k" using j(2) q by auto
    then obtain e t where "V e = Some (int j, t)" using linked_ex [OF l j(1)] j(2) by auto
    moreover have "e \<noteq> d" using calculation d \<open>j \<noteq> nat k\<close> by auto
    ultimately show ?thesis by auto
  qed
qed

definition sinv :: "'e kal \<Rightarrow> 'e okm \<Rightarrow> bool" where
  "sinv K s \<longleftrightarrow>
     (\<forall>k < OKM_MAX_SOCK. slot_ok K (g_sock s k)) \<and> linked K (sview s) (g_sock s)
   \<and> (\<forall>(me, p) \<in> set (g_settling s). d_kind p \<noteq> OKM_SOCKET)"

definition sock_inv :: "'e kal \<Rightarrow> 'e okm \<Rightarrow> bool" where
  "sock_inv K s \<longleftrightarrow> table_inv s \<and> sinv K s"

lemma sinvD:
  assumes "sinv K s"
  shows "k < OKM_MAX_SOCK \<Longrightarrow> slot_ok K (g_sock s k)" "linked K (sview s) (g_sock s)"
    "(me, p) \<in> set (g_settling s) \<Longrightarrow> d_kind p \<noteq> OKM_SOCKET"
  using assms by (auto simp: sinv_def)

text \<open>A change the invariant does not read.\<close>

lemma sinv_cong:
  assumes "sinv K s" "sview t = sview s" "g_sock t = g_sock s" "set (g_settling t) \<subseteq> set (g_settling s)"
  shows "sinv K t"
  using assms by (auto simp: sinv_def)

lemma sview_cong:
  assumes "\<And>d. d < OKM_MAX_DESC \<Longrightarrow> (0 < d_refs (g_desc t d) \<and> d_kind (g_desc t d) = OKM_SOCKET) =
        (0 < d_refs (g_desc s d) \<and> d_kind (g_desc s d) = OKM_SOCKET)"
    and "\<And>d. d < OKM_MAX_DESC \<Longrightarrow> 0 < d_refs (g_desc s d) \<Longrightarrow> d_kind (g_desc s d) = OKM_SOCKET \<Longrightarrow> d_sock (g_desc t d) = d_sock (g_desc s d)
        \<and> d_stream (g_desc t d) = d_stream (g_desc s d)"
  shows "sview t = sview s"
proof
  fix d
  show "sview t d = sview s d"
    using assms [of d] by (cases "d < OKM_MAX_DESC") (auto simp: sview_def live_def)
qed

lemma sview_g_desc: "g_desc t = g_desc s \<Longrightarrow> sview t = sview s"
  by (simp add: sview_def live_def fun_eq_iff)

lemma close_owned_sock [simp]: "d_kind p \<noteq> OKM_SOCKET \<Longrightarrow> g_sock (close_owned K p s) = g_sock s"
  by (cases "d_kind p") (simp_all add: close_owned_def split: option.split)

lemma settle_sock:
  "g_sock (settle K me p s) =
     (if d_kind p = OKM_SOCKET then g_sock (okm_sock_release K (d_sock p) s) else g_sock s)"
  by (simp add: settle_def) (simp add: close_owned_def)

lemma settle_settling:
  "(a, r) \<in> set (g_settling (settle K me p s)) \<Longrightarrow> (a, r) \<in> set (g_settling s) \<or> r = p \<and> d_kind p \<noteq> OKM_SOCKET"
  by (auto simp: settle_def split: if_splits)

text \<open>The release of a reference: where it is the last of a socket, its slot is free.\<close>

lemma desc_release_sinv:
  assumes inv: "sinv K s" and d: "d < OKM_MAX_DESC" "0 < d_refs (g_desc s d)"
  shows "sinv K (desc_release K me (int d) s)"
proof (cases "d_refs (g_desc s d) = 1")
  case False
  with d have "desc_release K me (int d) s =
      s\<lparr>g_desc := (g_desc s)(d := (g_desc s d)\<lparr>d_refs := d_refs (g_desc s d) - 1\<rparr>)\<rparr>"
    by (intro desc_release_shared) auto
  moreover have "sview (s\<lparr>g_desc := (g_desc s)(d := (g_desc s d)\<lparr>d_refs := d_refs (g_desc s d) - 1\<rparr>)\<rparr>) = sview s"
    using d False by (intro sview_cong) auto
  ultimately show ?thesis using inv by (auto intro: sinv_cong)
next
  case True
  let ?t = "desc_release K me (int d) s"
  let ?p = "(g_desc s d)\<lparr>d_refs := 0\<rparr>" and ?s1 = "s\<lparr>g_desc := (g_desc s)(d := (g_desc s d)\<lparr>d_refs := 0\<rparr>)\<rparr>"
  have other: "g_desc ?t e = g_desc s e" if "e \<noteq> d" for e
    using that by simp
  have view: "sview ?t = (sview s)(d := None)"
    using desc_release_last [OF d(1) True, of K me] by (auto simp: fun_eq_iff sview_def live_def other)
  have sock: "g_sock ?t = g_sock (settle K me ?p ?s1)" and sett: "g_settling ?t = g_settling (settle K me ?p ?s1)"
    using d True by (simp_all add: desc_release_def Let_def path_slot_clear_def)
  have st: "\<forall>(me, p) \<in> set (g_settling ?t). d_kind p \<noteq> OKM_SOCKET"
    using inv unfolding sett by (auto dest!: settle_settling simp: sinv_def)
  show ?thesis
  proof (cases "d_kind (g_desc s d) = OKM_SOCKET")
    case sk: True
    let ?k = "d_sock (g_desc s d)"
    have v: "sview s d = Some (?k, d_stream (g_desc s d))"
      using sk d by (simp add: sview_def live_def)
    note ld = linkedD [OF sinvD(2) [OF inv] v]
    let ?q = "(g_sock s (nat ?k))\<lparr>s_state := OKM_SOCK_FREE, s_pend_conn := False, s_pend_msg := False\<rparr>"
    have g: "g_sock ?t = (g_sock s)(nat ?k := ?q)"
      using sk ld by (simp add: sock settle_sock okm_sock_release_def Let_def)
    have "linked K (sview ?t) (g_sock ?t)"
      unfolding view g by (rule linked_del [OF sinvD(2) [OF inv] v]) simp
    moreover have "slot_ok K (g_sock ?t k)" if "k < OKM_MAX_SOCK" for k
      using sinvD(1) [OF inv that] by (simp add: g slot_ok_def)
    ultimately show ?thesis using st by (simp add: sinv_def)
  next
    case False
    then have "g_sock ?t = g_sock s" by (simp add: sock settle_sock)
    moreover have "sview s d = None" using False by (simp add: sview_def)
    then have "sview ?t = sview s" unfolding view by auto
    ultimately show ?thesis using inv st by (simp add: sinv_def)
  qed
qed

lemma sinv_g_fd: "sinv K s \<Longrightarrow> sinv K (s\<lparr>g_fd := F\<rparr>)"
  by (erule sinv_cong) (auto intro: sview_g_desc)

lemma table_inv_refers:
  assumes "table_inv s" "fd_in_range fd" "0 \<le> fd_desc (g_fd s (nat fd))"
  shows "nat (fd_desc (g_fd s (nat fd))) < OKM_MAX_DESC" "0 < d_refs (g_desc s (nat (fd_desc (g_fd s (nat fd)))))"
proof -
  have f: "nat fd < OKM_MAX_FD" using assms(2) by (auto simp: fd_in_range_def)
  then show d: "nat (fd_desc (g_fd s (nat fd))) < OKM_MAX_DESC"
    using assms by (auto simp: table_inv_def table_inv_x_def)
  show "0 < d_refs (g_desc s (nat (fd_desc (g_fd s (nat fd)))))"
    using assms d refcount_pos [OF f, of s "nat (fd_desc (g_fd s (nat fd)))"]
    by (auto simp: table_inv_def table_inv_x_def refs_ok_def)
qed

lemma desc_release_sinv':
  assumes "sinv K s" "0 \<le> i" "nat i < OKM_MAX_DESC" "0 < d_refs (g_desc s (nat i))"
  shows "sinv K (desc_release K me i s)"
  using desc_release_sinv [OF assms(1,3,4), of me] assms(2) by simp

section \<open>The operations of the table keep it\<close>

lemma okm_fd_release_sock [okm_inv]:
  assumes "sock_inv K s"
  shows "sock_inv K (okm_fd_release K me fd s)"
proof -
  have "sinv K (okm_fd_release K me fd s)"
    using assms table_inv_refers [of s fd]
    by (auto simp: okm_fd_release_def Let_def sock_inv_def intro!: desc_release_sinv' sinv_g_fd)
  then show ?thesis using assms by (simp add: sock_inv_def okm_fd_release_inv)
qed

lemma sview_bound:
  assumes "d_refs (g_desc s d) = 0" "kind \<noteq> OKM_SOCKET"
  shows "sview (s\<lparr>g_desc := (g_desc s)(d := bound_desc kind stream f dir flags p)\<rparr>) = sview s"
  using assms by (intro sview_cong) (auto simp: bound_desc_def)

lemma okm_fd_bind_sock [okm_inv]:
  assumes "sock_inv K s" "kind \<noteq> OKM_FREE" "kind \<noteq> OKM_SOCKET"
  shows "sock_inv K (snd (okm_fd_bind K me fd kind stream f dir flags s))"
proof -
  have "sinv K (snd (okm_fd_bind K me fd kind stream f dir flags s))"
  proof (cases "fd_in_range fd \<and> desc_alloc s \<noteq> None")
    case False
    then show ?thesis
      using assms by (cases "fd_in_range fd"; cases "desc_alloc s") (simp_all add: okm_fd_bind_def sock_inv_def)
  next
    case True
    then obtain d s1 where al: "desc_alloc s = Some (d, s1)" by auto
    let ?s2 = "s\<lparr>g_desc := (g_desc s)(d := bound_desc kind stream f dir flags (g_desc s d))\<rparr>"
    let ?o = "fd_desc (g_fd s (nat fd))"
    have s2: "sinv K ?s2"
      using assms sview_bound [OF desc_alloc_Some(2) [OF al] assms(3)]
      by (auto simp: sock_inv_def elim!: sinv_cong)
    have "0 \<le> ?o \<Longrightarrow> sinv K (desc_release K me ?o ?s2)"
    proof (rule desc_release_sinv' [OF s2])
      assume "0 \<le> ?o"
      then show "0 \<le> ?o" "nat ?o < OKM_MAX_DESC" "0 < d_refs (g_desc ?s2 (nat ?o))"
        using table_inv_refers [of s fd] True assms(1) by (auto simp: sock_inv_def bound_desc_def)
    qed
    with s2 show ?thesis
      using True by (auto simp: okm_fd_bind_eq [OF _ al] Let_def intro: sinv_g_fd)
  qed
  then show ?thesis using assms by (simp add: sock_inv_def okm_fd_bind_inv)
qed

lemma okm_fd_cloexec_sock [okm_inv]: "sock_inv K s \<Longrightarrow> sock_inv K (snd (okm_fd_cloexec fd on s))"
  using okm_fd_cloexec_inv [of s fd on] by (auto simp: sock_inv_def okm_fd_cloexec_def intro: sinv_g_fd)

lemma sinv_add_ref:
  assumes "sinv K t" "0 < d_refs (g_desc t i)"
  shows "sinv K (t\<lparr>g_desc := (g_desc t)(i := (g_desc t i)\<lparr>d_refs := d_refs (g_desc t i) + 1\<rparr>)\<rparr>)"
  using assms by (elim sinv_cong) (auto intro!: sview_cong split: if_splits)

text \<open>A description two descriptors refer to is still referred to when one is let go of.\<close>

lemma release_other_live:
  assumes inv: "table_inv s" and fd: "fd_in_range fd" "0 \<le> fd_desc (g_fd s (nat fd))"
    and n: "fd_in_range n" "0 \<le> fd_desc (g_fd s (nat n))" "n \<noteq> fd"
  shows "0 < d_refs (g_desc (desc_release K me (fd_desc (g_fd s (nat n))) s) (nat (fd_desc (g_fd s (nat fd)))))"
proof -
  let ?o = "nat (fd_desc (g_fd s (nat n)))" and ?d = "nat (fd_desc (g_fd s (nat fd)))"
  have r: "nat fd < OKM_MAX_FD" "nat n < OKM_MAX_FD" "nat n \<noteq> nat fd"
    using fd n by (auto simp: fd_in_range_def)
  note d = table_inv_refers [OF inv fd] and o = table_inv_refers [OF inv n(1,2)]
  have "1 < d_refs (g_desc s ?d)" if "?o = ?d"
  proof -
    have "fd_desc (g_fd s (nat n)) = fd_desc (g_fd s (nat fd))" using that fd n by linarith
    then show ?thesis
      using refcount_two [OF r, of s ?d] fd d(1) inv
      by (auto simp: table_inv_def table_inv_x_def refs_ok_def)
  qed
  then show ?thesis
    using desc_release_refs [OF o d(1), of K me] d(2) n(2) by auto
qed

lemma okm_fd_dup_sock [okm_inv]:
  assumes "sock_inv K s"
  shows "sock_inv K (snd (okm_fd_dup K me fd newfd0 cloexec s))"
proof -
  define newfd where "newfd = (if newfd0 < 0 then okm_fd_alloc 0 s else newfd0)"
  have inv: "table_inv s" "sinv K s" using assms by (auto simp: sock_inv_def)
  have "sinv K (snd (okm_fd_dup K me fd newfd0 cloexec s))"
  proof (cases "fd_in_range fd \<and> 0 \<le> fd_desc (g_fd s (nat fd)) \<and> fd_in_range newfd \<and> newfd \<noteq> fd")
    case False
    then show ?thesis
      using inv by (auto simp: okm_fd_dup_def Let_def fd_in_range_def not_le not_less simp flip: newfd_def)
  next
    case True
    let ?o = "fd_desc (g_fd s (nat newfd))" and ?d = "nat (fd_desc (g_fd s (nat fd)))"
    let ?s1 = "if 0 \<le> ?o then desc_release K me ?o s else s"
    have "sinv K ?s1" "0 < d_refs (g_desc ?s1 ?d)"
      using True inv table_inv_refers [OF inv(1)] release_other_live [OF inv(1)]
      by (auto intro: desc_release_sinv')
    from sinv_g_fd [OF sinv_add_ref [OF this]] True show ?thesis
      by (cases "0 \<le> ?o") (simp_all add: okm_fd_dup_def Let_def fd_in_range_def flip: newfd_def)
  qed
  then show ?thesis using assms by (simp add: sock_inv_def okm_fd_dup_inv)
qed

lemma sview_unlock [simp]: "sview (okm_unlock K me s) = sview s"
  by (rule sview_g_desc) simp

lemma okm_unlock_sock [okm_inv]:
  assumes "sock_inv K s"
  shows "sock_inv K (okm_unlock K me s)"
proof -
  obtain mine where m: "okm_unlock K me s = fold (close_owned K) mine (s\<lparr>g_settling := g_settling (okm_unlock K me s)\<rparr>)"
    "mset mine = image_mset snd (filter_mset (\<lambda>p. fst p = me) (mset (g_settling s)))"
    using okm_unlock_closes [of K me s] by blast
  have ns: "d_kind p \<noteq> OKM_SOCKET" if "p \<in> set mine" for p
  proof -
    have "p \<in># image_mset snd (filter_mset (\<lambda>p. fst p = me) (mset (g_settling s)))"
      using that unfolding m(2) [symmetric] by simp
    then obtain a where "(a, p) \<in> set (g_settling s)" by auto
    then show ?thesis using assms sinvD(3) unfolding sock_inv_def by blast
  qed
  have fold: "g_sock (fold (close_owned K) ps t) = g_sock t" if "\<And>p. p \<in> set ps \<Longrightarrow> d_kind p \<noteq> OKM_SOCKET" for ps t
    using that by (induction ps arbitrary: t) simp_all
  have sub: "set (g_settling (okm_unlock K me s)) \<subseteq> set (g_settling s)"
    using okm_unlock_settling [of K me s] by (metis filter_is_subset mset_filter set_mset_mset)
  have g: "g_sock (okm_unlock K me s) = g_sock s"
    by (subst m(1)) (simp add: fold ns)
  have "sinv K (okm_unlock K me s)"
    by (rule sinv_cong [of K s]) (use assms sub g in \<open>simp_all add: sock_inv_def\<close>)
  then show ?thesis using assms by (simp add: sock_inv_def okm_unlock_inv)
qed

lemma okm_dir_remember_g_desc:
  "\<exists>d j. g_desc (okm_dir_remember K fd absn s) = (g_desc s)(d := (g_desc s d)\<lparr>d_path_slot := j\<rparr>)
     \<and> g_sock (okm_dir_remember K fd absn s) = g_sock s
     \<and> g_settling (okm_dir_remember K fd absn s) = g_settling s"
proof -
  have id: "(g_desc s)(d := (g_desc s d)\<lparr>d_path_slot := d_path_slot (g_desc s d)\<rparr>) = g_desc s" for d by simp
  show ?thesis
  proof (cases "okm_desc_of fd s")
    case None
    then show ?thesis
      by (intro exI [of _ 0] exI [of _ "d_path_slot (g_desc s 0)"]) (simp add: okm_dir_remember_def)
  next
    case (Some d)
    have *: "g_desc t = (g_desc s)(d := (g_desc s d)\<lparr>d_path_slot := j\<rparr>) \<Longrightarrow> g_sock t = g_sock s \<Longrightarrow>
        g_settling t = g_settling s \<Longrightarrow> ?thesis" if "okm_dir_remember K fd absn s = t" for t j
      using that by blast
    show ?thesis
    proof (cases "path_slot_alloc s")
      case None
      then show ?thesis
        using Some by (intro * [OF refl, of "d_path_slot (g_desc s d)"])
          (simp_all add: okm_dir_remember_def Let_def path_slot_clear_def)
    next
      case (Some a)
      obtain i s' where a: "a = (i, s')" by force
      note s' = path_slot_alloc_Some(3) [OF Some [unfolded a]]
      show ?thesis
        using \<open>okm_desc_of fd s = Some d\<close> Some a
        by (intro * [OF refl, of "if d_kind (g_desc s d) = OKM_DIR \<and> d_path_slot (g_desc s d) < 0 then int i
                                    else d_path_slot (g_desc s d)"])
          (simp_all add: okm_dir_remember_def Let_def path_slot_clear_def s')
    qed
  qed
qed

lemma okm_dir_remember_sock [okm_inv]:
  assumes "sock_inv K s"
  shows "sock_inv K (okm_dir_remember K fd absn s)"
proof -
  obtain d j where g: "g_desc (okm_dir_remember K fd absn s) = (g_desc s)(d := (g_desc s d)\<lparr>d_path_slot := j\<rparr>)"
    "g_sock (okm_dir_remember K fd absn s) = g_sock s"
    "g_settling (okm_dir_remember K fd absn s) = g_settling s"
    using okm_dir_remember_g_desc [of K fd absn s] by blast
  have "sview (okm_dir_remember K fd absn s) = sview s"
    by (rule sview_cong) (simp_all add: g(1))
  then have "sinv K (okm_dir_remember K fd absn s)"
    using assms g(2,3) by (auto simp: sock_inv_def elim: sinv_cong)
  then show ?thesis using assms by (simp add: sock_inv_def okm_dir_remember_inv)
qed

section \<open>The socket calls keep it, and reach no absent interface\<close>

lemma sock_of_Inr:
  assumes "sock_inv K s" "sock_of fd s = Inr (d, k)"
  shows "okm_desc_of fd s = Some d" "live s d" "d_kind (g_desc s d) = OKM_SOCKET"
    "d_sock (g_desc s d) = int k" "sview s d = Some (int k, d_stream (g_desc s d))"
    "k < OKM_MAX_SOCK" "s_state (g_sock s k) \<noteq> OKM_SOCK_FREE" "slot_ok K (g_sock s k)"
    "d_stream (g_desc s d) = stream_for K (g_sock s k)"
proof -
  show d: "okm_desc_of fd s = Some d" and kd: "d_kind (g_desc s d) = OKM_SOCKET"
    and k: "d_sock (g_desc s d) = int k"
    using assms(2) by (auto simp: sock_of_def slot_of_def Let_def split: option.splits if_splits)
  show l: "live s d" using okm_desc_of_live [OF _ d] assms(1) by (simp add: sock_inv_def)
  show v: "sview s d = Some (int k, d_stream (g_desc s d))" using l kd k by (simp add: sview_def)
  have i: "sinv K s" using assms(1) by (simp add: sock_inv_def)
  note ld = linkedD [OF sinvD(2) [OF i] v]
  from ld show "k < OKM_MAX_SOCK" "s_state (g_sock s k) \<noteq> OKM_SOCK_FREE"
    "d_stream (g_desc s d) = stream_for K (g_sock s k)" by simp_all
  then show "slot_ok K (g_sock s k)" using sinvD(1) [OF i] by simp
qed

lemma sview_set_sock [simp]: "sview (s\<lparr>g_sock := G\<rparr>) = sview s"
  by (rule sview_g_desc) simp

lemma sview_set_env [simp]: "sview (s\<lparr>env := e\<rparr>) = sview s"
  by (rule sview_g_desc) simp

lemma table_inv_set_sock [simp]: "table_inv (s\<lparr>g_sock := G\<rparr>) = table_inv s"
  unfolding table_inv_def by (rule table_inv_x_cong) simp_all

lemma table_inv_set_env [simp]: "table_inv (s\<lparr>env := e\<rparr>) = table_inv s"
  unfolding table_inv_def by (rule table_inv_x_cong) simp_all

lemma sock_inv_set_env [simp]: "sock_inv K (s\<lparr>env := e\<rparr>) = sock_inv K s"
  by (simp add: sock_inv_def sinv_def)

lemma sock_inv_set_sock:
  assumes "sock_inv K s" "sview s d = Some (int k, st)" "slot_ok K q" "s_state q \<noteq> OKM_SOCK_FREE"
    "stream_for K q = st"
  shows "sock_inv K (set_sock k q s)"
proof -
  have "linked K ((sview s)(d := Some (int k, st))) ((g_sock s)(k := q))"
    using assms by (intro linked_upd [of K _ _ d k st]) (auto simp: sock_inv_def sinv_def)
  then have "linked K (sview s) ((g_sock s)(k := q))"
    using assms(2) by (simp add: fun_upd_idem)
  with assms show ?thesis by (auto simp: sock_inv_def sinv_def)
qed

text \<open>Fields of a description the table's invariant does not read.\<close>

lemma table_inv_set_desc:
  assumes "table_inv s" "d_refs p = d_refs (g_desc s d)" "d_kind p = d_kind (g_desc s d)"
    "d_path_slot p = d_path_slot (g_desc s d)"
  shows "table_inv (set_desc d p s)"
proof -
  have eq: "d_refs (g_desc (set_desc d p s) e) = d_refs (g_desc s e)"
    "d_kind (g_desc (set_desc d p s) e) = d_kind (g_desc s e)"
    "d_path_slot (g_desc (set_desc d p s) e) = d_path_slot (g_desc s e)"
    "live (set_desc d p s) e = live s e" for e
    using assms by (simp_all add: live_def)
  have fr: "g_fd (set_desc d p s) = g_fd s" "g_dirpath_used (set_desc d p s) = g_dirpath_used s"
    "g_settling (set_desc d p s) = g_settling s" by simp_all
  show ?thesis
    using assms(1)
    unfolding table_inv_def table_inv_x_def refs_ok_def names_ok_def eq fr refcount_g_desc .
qed

text \<open>A slot and a description for a new socket.\<close>

lemma new_socket:
  assumes inv: "sock_inv K s" and fd: "0 \<le> okm_fd_alloc 0 s"
    and slot: "slot_alloc s = Some (slot, s1)"
    and s2_def: "s2 = snd (okm_fd_bind K me (okm_fd_alloc 0 s) OKM_SOCKET st 0 0 flags s1)"
  obtains d where "okm_desc_of (okm_fd_alloc 0 s) s2 = Some d" "g_sock s2 slot = g_sock s1 slot"
    "slot < OKM_MAX_SOCK" "d_kind (g_desc s2 d) = OKM_SOCKET" "env s2 = env s" "g_settling s2 = g_settling s"
    "g_sock s2 = g_sock s1"
    "\<And>q. slot_ok K q \<Longrightarrow> s_state q \<noteq> OKM_SOCK_FREE \<Longrightarrow> stream_for K q = st \<Longrightarrow>
       sock_inv K (set_sock slot q (set_desc d ((g_desc s2 d)\<lparr>d_sock := int slot\<rparr>) s2))"
proof -
  let ?fd = "okm_fd_alloc 0 s"
  note sl = slot_alloc_Some [OF slot]
  have i1: "table_inv s1" using inv by (simp add: sl(3) sock_inv_def)
  have r: "fd_in_range ?fd" using fd_alloc_in_range [OF fd] .
  have free: "fd_desc (g_fd s1 (nat ?fd)) = OKM_FD_FREE"
    using okm_fd_alloc_free [OF fd] by (simp add: sl(3))
  obtain d where d: "d < OKM_MAX_DESC" "d_refs (g_desc s1 d) = 0"
    and s2: "s2 = s1\<lparr>g_desc := (g_desc s1)(d := bound_desc OKM_SOCKET st 0 0 flags (g_desc s1 d)),
       g_fd := (g_fd s1)(nat ?fd := \<lparr>fd_desc = int d, fd_cloexec = (if has flags O_CLOEXEC then 1 else 0)\<rparr>)\<rparr>"
    unfolding s2_def using okm_fd_bind_free [OF i1 r free, of K me OKM_SOCKET st 0 0 flags]
    by (metis snd_conv)
  have t2: "table_inv s2" unfolding s2_def using i1 by (rule okm_fd_bind_inv) simp
  show thesis
  proof (rule that)
    show "okm_desc_of ?fd s2 = Some d" using r by (simp add: s2 okm_desc_of_fd)
    show "g_sock s2 slot = g_sock s1 slot" by (simp add: s2)
    show "slot < OKM_MAX_SOCK" by (rule sl(1))
    show "d_kind (g_desc s2 d) = OKM_SOCKET" "env s2 = env s" "g_settling s2 = g_settling s" "g_sock s2 = g_sock s1"
      by (simp_all add: s2 bound_desc_def sl(3))
    fix q assume q: "slot_ok K q" "s_state q \<noteq> OKM_SOCK_FREE" "stream_for K q = st"
    let ?t = "set_sock slot q (set_desc d ((g_desc s2 d)\<lparr>d_sock := int slot\<rparr>) s2)"
    have "table_inv ?t" using table_inv_set_desc [OF t2] by simp
    moreover have v: "sview ?t = (sview s)(d := Some (int slot, st))"
      using d by (auto simp: fun_eq_iff sview_def live_def s2 bound_desc_def sl(3))
    moreover have "sview s d = None" using d by (simp add: sview_def live_def sl(3))
    then have "linked K ((sview s)(d := Some (int slot, st))) ((g_sock s)(slot := q))"
      using inv q sl(1,2) by (intro linked_add) (auto simp: sock_inv_def sinv_def)
    moreover have "g_sock ?t = (g_sock s)(slot := q)" by (simp add: s2 sl(3))
    moreover have "g_settling ?t = g_settling s" by (simp add: s2 sl(3))
    ultimately show "sock_inv K ?t"
      using inv q(1) by (auto simp: sock_inv_def sinv_def)
  qed
qed

lemma okm_sock_open_inv:
  assumes inv: "sock_inv K s"
  obtains r t where "okm_sock_open K me domain type protocol s = Some (r, t)" "sock_inv K t"
proof -
  let ?fd = "okm_fd_alloc 0 s" and ?base = "sint (type AND NOT (SOCK_CLOEXEC OR SOCK_NONBLOCK))"
  have un: "sock_inv K (okm_unlock K me s)" by (rule okm_unlock_sock [OF inv])
  have "\<exists>r t. okm_sock_open K me domain type protocol s = Some (r, t) \<and> sock_inv K t"
  proof (cases "?fd < 0 \<or> slot_alloc s = None \<or> ?base \<noteq> SOCK_STREAM \<and> ?base \<noteq> SOCK_DGRAM")
    case True
    then show ?thesis using inv un by (auto simp: okm_sock_open_def Let_def split: option.split)
  next
    case False
    then obtain slot s1 where al: "slot_alloc s = Some (slot, s1)" and fd: "0 \<le> ?fd" by auto
    let ?flags = "O_RDWR OR (if has type SOCK_NONBLOCK then O_NONBLOCK else 0)
                    OR (if has type SOCK_CLOEXEC then O_CLOEXEC else 0)"
    define s2 where "s2 = snd (okm_fd_bind K me ?fd OKM_SOCKET 0 0 0 ?flags s1)"
    obtain d where d: "okm_desc_of ?fd s2 = Some d" and g: "g_sock s2 slot = g_sock s1 slot"
      and "slot < OKM_MAX_SOCK"
      and new: "\<And>q. slot_ok K q \<Longrightarrow> s_state q \<noteq> OKM_SOCK_FREE \<Longrightarrow> stream_for K q = 0 \<Longrightarrow>
        sock_inv K (set_sock slot q (set_desc d ((g_desc s2 d)\<lparr>d_sock := int slot\<rparr>) s2))"
      by (rule new_socket [OF inv fd al s2_def]) blast
    have q: "g_sock s1 slot = (zero_sock (s_buf (g_sock s slot)))\<lparr>s_state := OKM_SOCK_NEW\<rparr>"
      using slot_alloc_Some(3) [OF al] by simp
    let ?q = "(g_sock s1 slot)\<lparr>s_domain := domain, s_type := ?base, s_protocol := protocol\<rparr>"
    have "slot_ok K ?q" "s_state ?q \<noteq> OKM_SOCK_FREE" "stream_for K ?q = 0"
      using False by (simp_all add: q slot_ok_def zero_sock_def stream_for_def)
    from okm_unlock_sock [OF new [OF this], of me] show ?thesis
      using inv fd by (auto simp: okm_sock_open_def Let_def al d g simp flip: s2_def)
  qed
  then show thesis using that by blast
qed

text \<open>A change to the slot of a descriptor's socket that leaves its stream alone.\<close>

lemma sock_inv_slot:
  assumes "sock_inv K s" "sock_of fd s = Inr (d, k)" "slot_ok K q" "s_state q \<noteq> OKM_SOCK_FREE"
    "stream_for K q = stream_for K (g_sock s k)"
  shows "sock_inv K (set_sock k q s)" "sock_inv K (set_sock k q (s\<lparr>env := e\<rparr>))"
proof -
  note v = sock_of_Inr(5) [OF assms(1,2)] and st = sock_of_Inr(9) [OF assms(1,2)]
  show "sock_inv K (set_sock k q s)"
    using assms v st by (intro sock_inv_set_sock) simp_all
  show "sock_inv K (set_sock k q (s\<lparr>env := e\<rparr>))"
    using assms v st by (intro sock_inv_set_sock [of K _ d]) simp_all
qed

lemma okm_sock_bind_inv [okm_inv]:
  assumes "sock_inv K s"
  shows "sock_inv K (snd (okm_sock_bind K fd address len s))"
proof (cases "sock_of fd s")
  case (Inl e)
  then show ?thesis using assms by (simp add: okm_sock_bind_def)
next
  case (Inr dk)
  obtain d k where dk: "dk = (d, k)" by force
  note o = sock_of_Inr [OF assms Inr [unfolded dk]]
  show ?thesis
    using assms Inr dk o(7,8) sock_inv_slot [OF assms Inr [unfolded dk]]
    by (auto simp: okm_sock_bind_def Let_def slot_ok_def stream_for_def
        split: sum.splits option.splits prod.splits)
qed

lemma okm_sock_listen_inv [okm_inv]:
  assumes "sock_inv K s"
  shows "sock_inv K (snd (okm_sock_listen K fd s))"
proof (cases "sock_of fd s")
  case (Inl e)
  then show ?thesis using assms by (simp add: okm_sock_listen_def)
next
  case (Inr dk)
  obtain d k where dk: "dk = (d, k)" by force
  note o = sock_of_Inr [OF assms Inr [unfolded dk]]
  have "sock_inv K (set_sock k ((g_sock s k)\<lparr>s_lis := h, s_state := OKM_SOCK_LISTEN\<rparr>) (s\<lparr>env := e\<rparr>))"
    if "K_net K = Some N" "s_type (g_sock s k) = SOCK_STREAM" "s_state (g_sock s k) = OKM_SOCK_NEW" for h e N
    using o(8) that by (intro sock_inv_slot(2) [OF assms Inr [unfolded dk]]) (auto simp: slot_ok_def stream_for_def)
  then show ?thesis
    using assms Inr dk by (simp add: okm_sock_listen_def Let_def split: sum.split option.split prod.split)
qed

lemma adopt_inv:
  assumes inv: "sock_inv K s" and N: "K_net K = Some N"
  obtains r t where "adopt K N me c flags s = Some (r, t)" "sock_inv K t"
proof -
  let ?fd = "okm_fd_alloc 0 s"
  have "\<exists>r t. adopt K N me c flags s = Some (r, t) \<and> sock_inv K t"
  proof (cases "?fd < 0 \<or> slot_alloc s = None")
    case True
    then show ?thesis using inv by (auto simp: adopt_def Let_def)
  next
    case False
    then obtain slot s1 where al: "slot_alloc s = Some (slot, s1)" and fd: "0 \<le> ?fd" by auto
    define s2 where "s2 = snd (okm_fd_bind K me ?fd OKM_SOCKET (net_stream N c) 0 0 (O_RDWR OR flags) s1)"
    obtain d where d: "okm_desc_of ?fd s2 = Some d" and g: "g_sock s2 slot = g_sock s1 slot"
      and "slot < OKM_MAX_SOCK"
      and new: "\<And>q. slot_ok K q \<Longrightarrow> s_state q \<noteq> OKM_SOCK_FREE \<Longrightarrow> stream_for K q = net_stream N c \<Longrightarrow>
        sock_inv K (set_sock slot q (set_desc d ((g_desc s2 d)\<lparr>d_sock := int slot\<rparr>) s2))"
      by (rule new_socket [OF inv fd al s2_def]) blast
    have q: "g_sock s1 slot = (zero_sock (s_buf (g_sock s slot)))\<lparr>s_state := OKM_SOCK_NEW\<rparr>"
      using slot_alloc_Some(3) [OF al] by simp
    let ?q = "(g_sock s1 slot)\<lparr>s_state := OKM_SOCK_CONN, s_conn := c, s_type := SOCK_STREAM\<rparr>"
    have "slot_ok K ?q" "s_state ?q \<noteq> OKM_SOCK_FREE" "stream_for K ?q = net_stream N c"
      by (simp_all add: q slot_ok_def zero_sock_def stream_for_def N)
    from new [OF this] show ?thesis
      using inv fd by (auto simp: adopt_def Let_def al d g simp flip: s2_def)
  qed
  then show thesis using that by blast
qed

lemma accept_conn_inv:
  assumes inv: "sock_inv K s" and o: "sock_of fd s = Inr (d, k)" and l: "s_state (g_sock s k) = OKM_SOCK_LISTEN"
  obtains r t where "accept_conn K d k s = Some (r, t)" "sock_inv K t"
proof -
  note so = sock_of_Inr [OF inv o]
  obtain N where N: "K_net K = Some N" using so(8) l by (auto simp: slot_ok_def)
  let ?q = "(g_sock s k)\<lparr>s_pend_conn := False\<rparr>"
  have "sock_inv K (set_sock k ?q s)"
    using so(7,8) by (intro sock_inv_slot(1) [OF inv o]) (auto simp: slot_ok_def stream_for_def)
  then have "\<exists>r t. accept_conn K d k s = Some (r, t) \<and> sock_inv K t"
    using inv N by (auto simp: accept_conn_def Let_def split: option.splits sum.splits prod.splits)
  then show thesis using that by blast
qed

lemma okm_sock_accept_inv:
  assumes inv: "sock_inv K s"
  obtains r a l t where "okm_sock_accept K me fd address len flags s = Some (r, a, l, t)" "sock_inv K t"
proof -
  have "\<exists>r a l t. okm_sock_accept K me fd address len flags s = Some (r, a, l, t) \<and> sock_inv K t"
  proof (cases "\<exists>d k. sock_of fd s = Inr (d, k) \<and> s_state (g_sock s k) = OKM_SOCK_LISTEN")
    case False
    then show ?thesis
      using inv by (cases "sock_of fd s") (auto simp: okm_sock_accept_def)
  next
    case True
    then obtain d k where o: "sock_of fd s = Inr (d, k)" and l: "s_state (g_sock s k) = OKM_SOCK_LISTEN" by blast
    obtain N where N: "K_net K = Some N" using sock_of_Inr(8) [OF inv o] l by (auto simp: slot_ok_def)
    obtain r t where a: "accept_conn K d k s = Some (r, t)" "sock_inv K t"
      by (rule accept_conn_inv [OF inv o l])
    let ?nf = "(if has flags SOCK_NONBLOCK then O_NONBLOCK else 0) OR (if has flags SOCK_CLOEXEC then O_CLOEXEC else 0)"
    show ?thesis
    proof (cases r)
      case (Inl e)
      then show ?thesis using o a inv l by (auto simp: okm_sock_accept_def)
    next
      case (Inr c)
      obtain nfd u where u: "adopt K N me c ?nf t = Some (nfd, u)" "sock_inv K u"
        by (rule adopt_inv [OF a(2) N])
      have "sock_inv K (okm_unlock K me u)" "sock_inv K (okm_unlock K me (snd (okm_fd_cloexec nfd True u)))"
        using okm_unlock_sock okm_fd_cloexec_sock u(2) by blast+
      then show ?thesis
        using o a inv l N u(1) Inr
        by (auto simp: okm_sock_accept_def Let_def split: sum.splits prod.splits)
    qed
  qed
  then show thesis using that by blast
qed

lemma dgram_ready_inv:
  assumes inv: "sock_inv K s" and o: "sock_of fd s = Inr (d, k)" and D: "K_dgram K = Some D"
    and t: "s_type (g_sock s k) = SOCK_DGRAM" and r: "dgram_ready D k s = (r, u)"
  shows "sock_inv K u" "sock_of fd u = Inr (d, k)" "s_type (g_sock u k) = SOCK_DGRAM"
    "r = None \<Longrightarrow> s_state (g_sock u k) = OKM_SOCK_DGRAM" "g_desc u = g_desc s"
proof -
  note so = sock_of_Inr [OF inv o]
  have st: "s_state (g_sock s k) = OKM_SOCK_NEW \<or> s_state (g_sock s k) = OKM_SOCK_DGRAM"
    using so(7,8) t by (cases "s_state (g_sock s k)") (auto simp: slot_ok_def)
  have "sock_inv K (set_sock k ((g_sock s k)\<lparr>s_dg := h, s_state := OKM_SOCK_DGRAM\<rparr>) (s\<lparr>env := e\<rparr>))"
    if "s_state (g_sock s k) = OKM_SOCK_NEW" for h e
    using so(8) D t that by (intro sock_inv_slot(2) [OF inv o]) (auto simp: slot_ok_def stream_for_def)
  then show "sock_inv K u" "sock_of fd u = Inr (d, k)" "s_type (g_sock u k) = SOCK_DGRAM"
    "r = None \<Longrightarrow> s_state (g_sock u k) = OKM_SOCK_DGRAM" "g_desc u = g_desc s"
    using r inv o t st
    by (auto simp: dgram_ready_def Let_def split: sum.splits prod.splits if_splits)
qed

lemma okm_sock_connect_inv [okm_inv]:
  assumes inv: "sock_inv K s"
  shows "sock_inv K (snd (okm_sock_connect K fd address len s))"
proof (cases "\<exists>d k ep. sock_of fd s = Inr (d, k) \<and> to_endpoint address len = Inr ep")
  case False
  then show ?thesis
    using inv by (cases "sock_of fd s"; cases "to_endpoint address len") (auto simp: okm_sock_connect_def)
next
  case True
  then obtain d k ep where o: "sock_of fd s = Inr (d, k)" and ep: "to_endpoint address len = Inr ep" by blast
  note so = sock_of_Inr [OF inv o]
  show ?thesis
  proof (cases "s_type (g_sock s k) = SOCK_DGRAM")
    case dg: True
    show ?thesis
    proof (cases "K_dgram K")
      case None
      then show ?thesis using inv o ep dg by (simp add: okm_sock_connect_def Let_def)
    next
      case (Some D)
      obtain r u where r: "dgram_ready D k s = (r, u)" by force
      note dr = dgram_ready_inv [OF inv o Some dg r]
      note du = sock_of_Inr [OF dr(1,2)]
      have "sock_inv K (set_sock k ((g_sock u k)\<lparr>s_peer := ep, s_have_peer := True\<rparr>) u)"
        using du(7,8) by (intro sock_inv_slot(1) [OF dr(1,2)]) (auto simp: slot_ok_def stream_for_def)
      with dr(1) show ?thesis
        using o ep dg Some r by (cases r) (simp_all add: okm_sock_connect_def Let_def)
    qed
  next
    case st: False
    have "sock_inv K (set_desc d ((g_desc s d)\<lparr>d_stream := net_stream N c\<rparr>)
       (set_sock k ((g_sock s k)\<lparr>s_conn := c, s_state := OKM_SOCK_CONN, s_peer := ep, s_have_peer := True\<rparr>)
         (s\<lparr>env := e\<rparr>)))" (is "sock_inv K ?t")
      if N: "K_net K = Some N" and new: "s_state (g_sock s k) = OKM_SOCK_NEW"
        and ty: "s_type (g_sock s k) = SOCK_STREAM" for N c e
    proof -
      let ?q = "(g_sock s k)\<lparr>s_conn := c, s_state := OKM_SOCK_CONN, s_peer := ep, s_have_peer := True\<rparr>"
      have q: "slot_ok K ?q" using so(8) N new ty by (auto simp: slot_ok_def)
      have v: "sview ?t = (sview s)(d := Some (int k, net_stream N c))"
        using so(2,3,4) by (auto simp: fun_eq_iff sview_def live_def)
      have "linked K ((sview s)(d := Some (int k, net_stream N c))) ((g_sock s)(k := ?q))"
        using inv so(5) N by (intro linked_upd) (auto simp: sock_inv_def sinv_def stream_for_def)
      moreover have "table_inv ?t"
        using inv by (intro table_inv_set_desc) (simp_all add: sock_inv_def)
      ultimately show ?thesis
        using inv q unfolding sock_inv_def sinv_def v by simp
    qed
    moreover have "s_type (g_sock s k) = SOCK_STREAM"
      using st so(7,8) by (auto simp: slot_ok_def)
    ultimately show ?thesis
      using inv o ep st by (simp add: okm_sock_connect_def Let_def split: sum.split option.split prod.split)
  qed
qed

lemma okm_sock_shutdown_inv:
  assumes inv: "sock_inv K s"
  obtains r t where "okm_sock_shutdown K fd how s = Some (r, t)" "sock_inv K t"
proof -
  have "\<exists>r t. okm_sock_shutdown K fd how s = Some (r, t) \<and> sock_inv K t"
  proof (cases "sock_of fd s")
    case (Inl e)
    then show ?thesis using inv by (simp add: okm_sock_shutdown_def)
  next
    case (Inr dk)
    obtain d k where dk: "dk = (d, k)" by force
    have "s_state (g_sock s k) = OKM_SOCK_CONN \<Longrightarrow> \<exists>N. K_net K = Some N"
      using sock_of_Inr(8) [OF inv Inr [unfolded dk]] by (auto simp: slot_ok_def)
    then show ?thesis
      using inv Inr dk by (auto simp: okm_sock_shutdown_def Let_def split: option.split prod.split)
  qed
  then show thesis using that by blast
qed

lemma okm_sock_name_total:
  assumes inv: "sock_inv K s"
  shows "okm_sock_name K fd address len peer s \<noteq> None"
proof (cases "sock_of fd s")
  case (Inl e)
  then show ?thesis by (simp add: okm_sock_name_def)
next
  case (Inr dk)
  obtain d k where dk: "dk = (d, k)" by force
  have ok: "slot_ok K (g_sock s k)" using sock_of_Inr(8) [OF inv Inr [unfolded dk]] .
  have "s_state (g_sock s k) = OKM_SOCK_CONN \<or> s_state (g_sock s k) = OKM_SOCK_LISTEN \<Longrightarrow> K_net K \<noteq> None"
    "s_state (g_sock s k) = OKM_SOCK_DGRAM \<Longrightarrow> K_dgram K \<noteq> None"
    using ok unfolding slot_ok_def by blast+
  then show ?thesis
    using Inr dk by (cases "s_state (g_sock s k)")
      (simp_all add: okm_sock_name_def Let_def del: not_None_eq split: option.split sum.split)
qed

lemma okm_timed_write_inv: "sock_inv K s \<Longrightarrow> sock_inv K (snd (okm_timed_write K st buf ns s))"
  by (simp add: okm_timed_write_def split: option.split sum.split prod.split)

lemma plain_write_inv: "sock_inv K s \<Longrightarrow> sock_inv K (snd (plain_write K st buf s))"
  by (simp add: plain_write_def split: sum.split prod.split)

lemma okm_timed_read_inv: "sock_inv K s \<Longrightarrow> sock_inv K (snd (okm_timed_read K st len ns s))"
  by (simp add: okm_timed_read_def split: option.split sum.split prod.split)

lemma plain_read_inv: "sock_inv K s \<Longrightarrow> sock_inv K (snd (plain_read K st len s))"
  by (simp add: plain_read_def split: sum.split prod.split)

lemma sock_inv_set_desc:
  assumes "sock_inv K s" "d_refs p = d_refs (g_desc s d)" "d_kind p = d_kind (g_desc s d)"
    "d_path_slot p = d_path_slot (g_desc s d)" "d_sock p = d_sock (g_desc s d)"
    "d_stream p = d_stream (g_desc s d)"
  shows "sock_inv K (set_desc d p s)"
proof -
  have "sview (set_desc d p s) = sview s" using assms by (intro sview_cong) simp_all
  then show ?thesis
    using assms table_inv_set_desc [of s p d] by (simp add: sock_inv_def sinv_def)
qed

lemma okm_take_ahead_inv: "sock_inv K s \<Longrightarrow> sock_inv K (snd (okm_take_ahead od len s))"
  by (auto simp: okm_take_ahead_def Let_def intro!: sock_inv_set_desc split: option.split)

lemma okm_sock_send_inv [okm_inv]:
  assumes inv: "sock_inv K s"
  shows "sock_inv K (snd (okm_sock_send K fd buf flags address alen s))"
proof (cases "sock_of fd s")
  case (Inl e)
  then show ?thesis using inv by (simp add: okm_sock_send_def)
next
  case (Inr dk)
  obtain d k where o: "sock_of fd s = Inr (d, k)" using Inr by (cases dk) simp
  show ?thesis
  proof (cases "s_type (g_sock s k) = SOCK_DGRAM")
    case True
    show ?thesis
    proof (cases "K_dgram K")
      case None
      then show ?thesis using inv True by (simp add: okm_sock_send_def o Let_def)
    next
      case (Some D)
      obtain r u where r: "dgram_ready D k s = (r, u)" by force
      have u: "sock_inv K u" by (rule dgram_ready_inv(1) [OF inv o Some True r])
      define to where "to = (if address \<noteq> None then to_endpoint address alen
          else if s_have_peer (g_sock s k) then Inr (s_peer (g_sock s k)) else Inl (- EDESTADDRREQ))"
      show ?thesis
        using inv u True Some r
        by (cases to; cases r)
          (simp_all add: okm_sock_send_def o Let_def split: sum.split prod.split flip: to_def)
    qed
  next
    case False
    with inv show ?thesis
      by (simp add: okm_sock_send_def o Let_def okm_timed_write_inv plain_write_inv)
  qed
qed

lemma recv_msg_inv:
  assumes inv: "sock_inv K s" and o: "sock_of fd s = Inr (d, k)"
  shows "sock_inv K (snd (recv_msg K D d k len flags s))"
proof -
  note so = sock_of_Inr [OF inv o]
  have "sock_inv K (set_sock k ((g_sock s k)\<lparr>s_pend_msg := False\<rparr>) s)"
    using so(7,8) by (intro sock_inv_slot(1) [OF inv o]) (auto simp: slot_ok_def stream_for_def)
  with inv show ?thesis
    by (simp add: recv_msg_def Let_def split: option.split sum.split prod.split)
qed

lemma okm_sock_recv_inv [okm_inv]:
  assumes inv: "sock_inv K s"
  shows "sock_inv K (snd (snd (snd (okm_sock_recv K fd len flags address alen s))))"
proof (cases "sock_of fd s")
  case (Inl e)
  then show ?thesis using inv by (simp add: okm_sock_recv_def)
next
  case (Inr dk)
  obtain d k where o: "sock_of fd s = Inr (d, k)" using Inr by (cases dk) simp
  show ?thesis
  proof (cases "s_type (g_sock s k) = SOCK_DGRAM")
    case True
    have "sock_inv K u" "sock_inv K (snd (recv_msg K D d k len flags u))"
      if "K_dgram K = Some D" "dgram_ready D k s = (r, u)" for D r u
      using dgram_ready_inv [OF inv o that(1) True that(2)] recv_msg_inv by blast+
    with inv True show ?thesis
      by (auto simp: okm_sock_recv_def o Let_def split: sum.split option.split prod.split) (metis snd_conv)+
  next
    case False
    have "sock_inv K u" "sock_inv K (snd (okm_timed_read K st len ns u))" "sock_inv K (snd (plain_read K st len u))"
      if "okm_take_ahead (Some d) len s = (a, u)" for a u st ns
      using okm_take_ahead_inv [OF inv, of "Some d" len] that okm_timed_read_inv plain_read_inv by fastforce+
    with inv False show ?thesis
      by (auto simp: okm_sock_recv_def o Let_def split: sum.split option.split prod.split ahead.split) (metis snd_conv)+
  qed
qed

lemma okm_sock_setopt_inv [okm_inv]:
  assumes inv: "sock_inv K s"
  shows "sock_inv K (snd (okm_sock_setopt K fd level opt val len s))"
proof (cases "sock_of fd s")
  case (Inl e)
  then show ?thesis using inv by (simp add: okm_sock_setopt_def)
next
  case (Inr dk)
  obtain d k where o: "sock_of fd s = Inr (d, k)" using Inr by (cases dk) simp
  note so = sock_of_Inr [OF inv o]
  have "sock_inv K (set_sock k ((g_sock s k)\<lparr>s_rcv_bound := n\<rparr>) s)"
    "sock_inv K (set_sock k ((g_sock s k)\<lparr>s_snd_bound := n\<rparr>) s)" for n
    using so(7,8) by (intro sock_inv_slot(1) [OF inv o]; auto simp: slot_ok_def stream_for_def)+
  with inv show ?thesis by (simp add: okm_sock_setopt_def o Let_def)
qed

lemma sock_of_desc:
  assumes "live s d" "slot_of (Some d) s = Some k" "sock_inv K s"
  shows "sview s d = Some (int k, d_stream (g_desc s d))" "slot_ok K (g_sock s k)"
    "s_state (g_sock s k) \<noteq> OKM_SOCK_FREE" "d_stream (g_desc s d) = stream_for K (g_sock s k)" "k < OKM_MAX_SOCK"
proof -
  have p: "d_kind (g_desc s d) = OKM_SOCKET" "d_sock (g_desc s d) = int k" "k < OKM_MAX_SOCK"
    using assms(2) by (auto simp: slot_of_def Let_def split: if_splits)
  show v: "sview s d = Some (int k, d_stream (g_desc s d))" using assms(1) p by (simp add: sview_def)
  have i: "sinv K s" using assms(3) by (simp add: sock_inv_def)
  show "slot_ok K (g_sock s k)" by (rule sinvD(1) [OF i p(3)])
  show "s_state (g_sock s k) \<noteq> OKM_SOCK_FREE" "d_stream (g_desc s d) = stream_for K (g_sock s k)"
    using linkedD [OF sinvD(2) [OF i] v] by simp_all
  show "k < OKM_MAX_SOCK" by (rule p(3))
qed

lemma okm_sock_wait_in_inv [okm_inv]:
  assumes inv: "sock_inv K s" and d: "live s d"
  shows "sock_inv K (snd (okm_sock_wait_in K d ns s))"
proof (cases "slot_of (Some d) s")
  case None
  then show ?thesis using inv by (simp add: okm_sock_wait_in_def)
next
  case (Some k)
  note so = sock_of_desc [OF d Some inv]
  let ?q = "g_sock s k"
  have upd: "sock_inv K (set_sock k q (s\<lparr>env := e\<rparr>))"
    if "slot_ok K q" "s_state q = s_state ?q" "s_conn q = s_conn ?q" for q e
  proof -
    have "stream_for K q = stream_for K ?q" unfolding stream_for_def that(2,3) ..
    then show ?thesis using that so inv by (intro sock_inv_set_sock [of K _ d]) simp_all
  qed
  show ?thesis
  proof (cases "s_state ?q = OKM_SOCK_LISTEN")
    case True
    have "sock_inv K (set_sock k (?q\<lparr>s_pend := c, s_pend_conn := True\<rparr>) (s\<lparr>env := e\<rparr>))" for c e
      using so(2) True by (intro upd) (auto simp: slot_ok_def)
    with True Some inv show ?thesis
      by (simp add: okm_sock_wait_in_def Let_def split: option.split sum.split prod.split)
  next
    case nl: False
    show ?thesis
    proof (cases "s_state ?q = OKM_SOCK_DGRAM \<and> \<not> s_pend_msg ?q")
      case False
      with nl Some inv show ?thesis by (auto simp: okm_sock_wait_in_def Let_def)
    next
      case True
      have 1: "sock_inv K (set_sock k (?q\<lparr>s_buf := Some b\<rparr>) (s\<lparr>env := e\<rparr>))" for b e
        using so(2) True by (intro upd) (auto simp: slot_ok_def)
      have 2: "sock_inv K (set_sock k (?q\<lparr>s_buf := Some (bs @ drop (length bs) b), s_pend_len := length bs,
            s_pend_from := f, s_pend_msg := True\<rparr>) (s\<lparr>env := e\<rparr>))" for b bs f e
        using so(2) True by (intro upd) (auto simp: slot_ok_def)
      from True Some inv 1 2 show ?thesis
        by (simp add: okm_sock_wait_in_def Let_def del: drop_replicate split: option.split sum.split prod.split)
    qed
  qed
qed

section \<open>Every sequence of calls\<close>

text \<open>What a program does to its descriptors and sockets, call by call. (A descriptor is made a
  socket only by \<open>okm_sock_open\<close> and \<open>adopt\<close>.)\<close>

inductive net_step :: "'e kal \<Rightarrow> 'e okm \<Rightarrow> 'e okm \<Rightarrow> bool" for K where
  bind: "kind \<noteq> OKM_FREE \<Longrightarrow> kind \<noteq> OKM_SOCKET \<Longrightarrow>
      net_step K s (snd (okm_fd_bind K me fd kind stream f dir flags s))"
| dup: "net_step K s (snd (okm_fd_dup K me fd newfd cloexec s))"
| release: "net_step K s (okm_fd_release K me fd s)"
| cloexec: "net_step K s (snd (okm_fd_cloexec fd on s))"
| remember: "net_step K s (okm_dir_remember K fd absn s)"
| unlock: "net_step K s (okm_unlock K me s)"
| sock_open: "okm_sock_open K me domain type protocol s = Some (r, t) \<Longrightarrow> net_step K s t"
| sock_bind: "net_step K s (snd (okm_sock_bind K fd address len s))"
| sock_listen: "net_step K s (snd (okm_sock_listen K fd s))"
| sock_accept: "okm_sock_accept K me fd address alen flags s = Some (r, a, l, t) \<Longrightarrow> net_step K s t"
| sock_connect: "net_step K s (snd (okm_sock_connect K fd address len s))"
| sock_shutdown: "okm_sock_shutdown K fd how s = Some (r, t) \<Longrightarrow> net_step K s t"
| sock_send: "net_step K s (snd (okm_sock_send K fd buf flags address len s))"
| sock_recv: "net_step K s (snd (snd (snd (okm_sock_recv K fd len flags address alen s))))"
| sock_setopt: "net_step K s (snd (okm_sock_setopt K fd level opt val len s))"
| sock_wait_in: "okm_desc_of fd s = Some d \<Longrightarrow> net_step K s (snd (okm_sock_wait_in K d ns s))"

lemma net_step_inv: "net_step K s t \<Longrightarrow> sock_inv K s \<Longrightarrow> sock_inv K t"
proof (induction rule: net_step.induct)
  case (sock_open me domain type protocol s r t)
  then show ?case by (metis okm_sock_open_inv option.inject prod.inject)
next
  case (sock_accept me fd address alen flags s r a l t)
  then show ?case by (metis okm_sock_accept_inv option.inject prod.inject)
next
  case (sock_shutdown fd how s r t)
  then show ?case by (metis okm_sock_shutdown_inv option.inject prod.inject)
next
  case (sock_wait_in fd s d ns)
  then show ?case using okm_desc_of_live by (intro okm_sock_wait_in_inv) (auto simp: sock_inv_def)
qed (auto intro: okm_inv)

lemma sock_inv_init: "sock_inv K (okm_table_init_memory (zero_okm e))"
proof -
  let ?s = "okm_table_init_memory (zero_okm e)"
  have "sview ?s = (\<lambda>_. None)"
    by (auto simp: fun_eq_iff sview_def live_def okm_table_init_memory_def zero_okm_def zero_desc_def)
  then show ?thesis
    by (simp add: sock_inv_def sinv_def table_inv_init)
      (simp add: linked_def slot_ok_def okm_table_init_memory_def zero_okm_def zero_sock_def)
qed

interpretation nets: invariant_system "\<lambda>s. \<exists>e. s = okm_table_init_memory (zero_okm e)" "net_step K" "sock_inv K"
  for K :: "'e kal"
  by unfold_locales (auto simp: sock_inv_init intro: net_step_inv)

text \<open>
  C17: in every state a program reaches by calls on descriptors and sockets, each socket slot in use
  belongs to exactly one open description and each socket description to a slot in use, a socket
  description has a stream just when its socket is connected (that of the connection), and no call reaches
  an interface the environment does not have: the calls the code makes
  without a test are never made through a null pointer.
\<close>

theorem sockets_reachable_safe:
  assumes "(net_step K)\<^sup>*\<^sup>* (okm_table_init_memory (zero_okm e)) s"
  shows "(\<forall>k < OKM_MAX_SOCK. s_state (g_sock s k) \<noteq> OKM_SOCK_FREE \<longrightarrow>
        (\<exists>!d. live s d \<and> d_kind (g_desc s d) = OKM_SOCKET \<and> d_sock (g_desc s d) = int k))
    \<and> (\<forall>fd d. okm_desc_of fd s = Some d \<longrightarrow> d_kind (g_desc s d) = OKM_SOCKET \<longrightarrow>
        (\<exists>k. sock_of fd s = Inr (d, k) \<and> s_state (g_sock s k) \<noteq> OKM_SOCK_FREE
            \<and> d_stream (g_desc s d) = stream_for K (g_sock s k)))
    \<and> okm_sock_open K me domain type protocol s \<noteq> None
    \<and> okm_sock_accept K me fd address alen flags s \<noteq> None
    \<and> okm_sock_shutdown K fd how s \<noteq> None \<and> okm_sock_name K fd address alen peer s \<noteq> None"
proof -
  have inv: "sock_inv K s" by (rule nets.reachable_inv [OF _ assms]) auto
  have l: "linked K (sview s) (g_sock s)" using inv by (simp add: sock_inv_def sinv_def)
  have "\<exists>!d. live s d \<and> d_kind (g_desc s d) = OKM_SOCKET \<and> d_sock (g_desc s d) = int k"
    if k: "k < OKM_MAX_SOCK" "s_state (g_sock s k) \<noteq> OKM_SOCK_FREE" for k
  proof -
    obtain d st where v: "sview s d = Some (int k, st)" using linked_ex [OF l k] by blast
    have "live s e \<and> d_kind (g_desc s e) = OKM_SOCKET \<and> d_sock (g_desc s e) = int k \<longleftrightarrow> e = d" for e
      using linked_inj [OF l, of e "int k" _ d st] v by (auto simp: sview_def split: if_splits)
    then show ?thesis by simp
  qed
  moreover have "\<exists>k. sock_of fd s = Inr (d, k) \<and> s_state (g_sock s k) \<noteq> OKM_SOCK_FREE
            \<and> d_stream (g_desc s d) = stream_for K (g_sock s k)"
    if d: "okm_desc_of fd s = Some d" "d_kind (g_desc s d) = OKM_SOCKET" for fd d
  proof -
    have v: "sview s d = Some (d_sock (g_desc s d), d_stream (g_desc s d))"
      using d okm_desc_of_live [OF _ d(1)] inv by (simp add: sview_def sock_inv_def)
    note ld = linkedD [OF l v]
    then have "sock_of fd s = Inr (d, nat (d_sock (g_desc s d)))"
      using d by (simp add: sock_of_def slot_of_def Let_def)
    with ld show ?thesis by blast
  qed
  moreover have "okm_sock_open K me domain type protocol s \<noteq> None"
    by (metis okm_sock_open_inv [OF inv] option.distinct(1))
  moreover have "okm_sock_accept K me fd address alen flags s \<noteq> None"
    by (metis okm_sock_accept_inv [OF inv] option.distinct(1))
  moreover have "okm_sock_shutdown K fd how s \<noteq> None"
    by (metis okm_sock_shutdown_inv [OF inv] option.distinct(1))
  ultimately show ?thesis
    using okm_sock_name_total [OF inv, of fd address alen peer] by blast
qed

definition net_ops :: "'e kal_net" where
  "net_ops = \<lparr>net_connect = (\<lambda>_ e. (Inr 5, e)), net_listen = (\<lambda>_ e. (Inr 6, e)), net_accept = (\<lambda>_ e. (Inr 7, e)),
     net_stream = (\<lambda>c. c + 100), net_peer = (\<lambda>_ _. Inl kal_err_closed), net_local = (\<lambda>_ _. Inl kal_err_closed),
     net_listener_local = (\<lambda>_ _. Inl kal_err_closed), net_shutdown = (\<lambda>_ _ e. (kal_ok, e)),
     net_close = (\<lambda>_ e. e), net_close_listener = (\<lambda>_ e. e)\<rparr>"

definition timeout_ops :: "'e kal_timeout" where
  "timeout_ops = \<lparr>timeout_read = (\<lambda>_ _ _ e. (Inl kal_err_again, e)), timeout_write = (\<lambda>_ bs _ e. (Inr (length bs), e)),
     timeout_accept = (\<lambda>_ _ e. (Inr 7, e)), timeout_recv_from = (\<lambda>_ _ _ e. (Inl kal_err_again, e)),
     timeout_wait_process = (\<lambda>_ _ e. (Inl kal_err_again, e))\<rparr>"

text \<open>An implementation with a network, whose connections are all alike.\<close>

definition net_kal :: "'e kal" where
  "net_kal = bare_kal\<lparr>K_net := Some net_ops, K_timeout := Some timeout_ops\<rparr>"

theorem sockets_reachable_safe_witness:
  "\<exists>r t. okm_sock_open net_kal 1 AF_INET 1 0 (okm_table_init_memory (zero_okm ())) = Some (r, t)
     \<and> okm_sock_accept net_kal 1 r None None 0 t \<noteq> None"
proof -
  obtain r t where t: "okm_sock_open net_kal 1 AF_INET 1 0 (okm_table_init_memory (zero_okm ())) = Some (r, t)"
    by (rule okm_sock_open_inv [OF sock_inv_init])
  then have "(net_step net_kal)\<^sup>*\<^sup>* (okm_table_init_memory (zero_okm ())) t"
    by (intro r_into_rtranclp net_step.sock_open)
  from sockets_reachable_safe [OF this, of 1 AF_INET 1 0 r None None 0] t show ?thesis by blast
qed

section \<open>What an enquiry took is what the next call delivers\<close>

lemma slot_alloc_None:
  "slot_alloc s = None \<longleftrightarrow> (\<forall>k < OKM_MAX_SOCK. s_state (g_sock s k) \<noteq> OKM_SOCK_FREE)"
  by (auto simp: slot_alloc_def scan_up_None split: option.split dest: scan_upD)

lemma adopt_result:
  assumes inv: "sock_inv K s" and N: "K_net K = Some N" and fd: "0 \<le> okm_fd_alloc 0 s"
    and slot: "slot_alloc s \<noteq> None"
  obtains t d j where "adopt K N me c flags s = Some (okm_fd_alloc 0 s, t)" "sock_of (okm_fd_alloc 0 s) t = Inr (d, j)"
    "s_state (g_sock t j) = OKM_SOCK_CONN" "s_conn (g_sock t j) = c" "env t = env s" "g_settling t = g_settling s"
    "s_state (g_sock s j) = OKM_SOCK_FREE" "\<And>k. k \<noteq> j \<Longrightarrow> g_sock t k = g_sock s k"
proof -
  let ?fd = "okm_fd_alloc 0 s"
  obtain j s1 where al: "slot_alloc s = Some (j, s1)" using slot by auto
  note sl = slot_alloc_Some [OF al]
  define s2 where "s2 = snd (okm_fd_bind K me ?fd OKM_SOCKET (net_stream N c) 0 0 (O_RDWR OR flags) s1)"
  obtain d where d: "okm_desc_of ?fd s2 = Some d" "d_kind (g_desc s2 d) = OKM_SOCKET" "env s2 = env s"
    "g_settling s2 = g_settling s" "g_sock s2 = g_sock s1"
    by (rule new_socket [OF inv fd al s2_def]) blast
  let ?t = "set_sock j ((g_sock s2 j)\<lparr>s_state := OKM_SOCK_CONN, s_conn := c, s_type := SOCK_STREAM\<rparr>)
       (set_desc d ((g_desc s2 d)\<lparr>d_sock := int j\<rparr>) s2)"
  have "okm_desc_of ?fd (set_desc d p s2) = Some d" for p
    using d(1) by (simp add: okm_desc_of_fd)
  then have "sock_of ?fd ?t = Inr (d, j)"
    using d(1,2) sl(1) by (simp add: sock_of_def slot_of_def)
  moreover have "adopt K N me c flags s = Some (?fd, ?t)"
    using fd d(1) by (simp add: adopt_def Let_def al flip: s2_def)
  ultimately show thesis
    using that [of ?t d j] d sl by simp
qed

text \<open>
  a connection a readiness enquiry took from a listener is the one the next \<open>accept\<close> delivers. An
  enquiry that answers ready holds a connection (the one held before, or the one the environment just
  delivered under the enquiry's bound), and an \<open>accept\<close> that finds a descriptor and a slot free answers the lowest descriptor free, which is a
  connected socket with exactly that connection; it asks the environment for no other, and holds the connection no
  longer.
\<close>

theorem enquiry_then_accept:
  assumes "sock_inv K s" "sock_of lfd s = Inr (d, k)" "s_state (g_sock s k) = OKM_SOCK_LISTEN"
    and "okm_sock_wait_in K d ns s = (1, t)"
    and "0 \<le> okm_fd_alloc 0 t" "slot_alloc t \<noteq> None" "g_settling t = []"
  shows "\<exists>c u d' j. (if s_pend_conn (g_sock s k) then c = s_pend (g_sock s k) \<and> env t = env s
           else \<exists>T. K_timeout K = Some T \<and> timeout_accept T (s_lis (g_sock s k)) ns (env s) = (Inr c, env t))
     \<and> okm_sock_accept K me lfd None None 0 t = Some (okm_fd_alloc 0 t, None, None, u)
     \<and> sock_of (okm_fd_alloc 0 t) u = Inr (d', j) \<and> s_state (g_sock u j) = OKM_SOCK_CONN \<and> s_conn (g_sock u j) = c
     \<and> \<not> s_pend_conn (g_sock u k) \<and> env u = env t"
proof -
  note so = sock_of_Inr [OF assms(1,2)]
  have sl: "slot_of (Some d) s = Some k"
    using so(3,4,6) by (simp add: slot_of_def Let_def)
  define c where "c = s_pend (g_sock t k)"
  have t: "t = set_sock k ((g_sock s k)\<lparr>s_pend := c, s_pend_conn := True\<rparr>) (s\<lparr>env := env t\<rparr>)
    \<and> (if s_pend_conn (g_sock s k) then c = s_pend (g_sock s k) \<and> env t = env s
       else \<exists>T. K_timeout K = Some T \<and> timeout_accept T (s_lis (g_sock s k)) ns (env s) = (Inr c, env t))"
  proof (cases "s_pend_conn (g_sock s k)")
    case True
    then have "t = s" using assms(3,4) sl by (simp add: okm_sock_wait_in_def Let_def)
    moreover have "(g_sock s k)\<lparr>s_pend_conn := True\<rparr> = g_sock s k"
      using True by simp
    ultimately show ?thesis using True by (simp add: c_def fun_upd_idem)
  next
    case False
    then show ?thesis
      using assms(3,4) sl okm_errno_range(1)
      by (auto simp: okm_sock_wait_in_def Let_def c_def split: option.splits sum.splits prod.splits if_splits)
        (metis neg_equal_0_iff_equal not_one_le_zero neg_0_le_iff_le order.trans zero_le_one)
  qed
  note t = t [THEN conjunct1] t [THEN conjunct2]
  have inv: "sock_inv K t"
    using okm_sock_wait_in_inv [OF assms(1) so(2), of ns] assms(4) by simp
  obtain N where N: "K_net K = Some N" using so(8) assms(3) by (auto simp: slot_ok_def)
  have o: "sock_of lfd t = Inr (d, k)" using assms(2)
    by (subst t(1)) simp
  let ?v = "set_sock k ((g_sock t k)\<lparr>s_pend_conn := False\<rparr>) t"
  have p: "s_pend_conn (g_sock t k)" "s_state (g_sock t k) = OKM_SOCK_LISTEN"
    using assms(3) by (subst t(1), simp)+
  have a: "accept_conn K d k t = Some (Inr c, ?v)"
    using p by (simp add: accept_conn_def Let_def c_def)
  have inv': "sock_inv K ?v"
    using accept_conn_inv [OF inv o p(2)] a by (metis option.inject prod.inject)
  have "okm_fd_alloc 0 ?v = okm_fd_alloc 0 t" by (simp add: okm_fd_alloc_def)
  moreover have "slot_alloc ?v \<noteq> None"
    using assms(6) unfolding slot_alloc_None by (auto split: if_splits)
  ultimately obtain u d' j where u: "adopt K N me c 0 ?v = Some (okm_fd_alloc 0 t, u)" "sock_of (okm_fd_alloc 0 t) u = Inr (d', j)"
    "s_state (g_sock u j) = OKM_SOCK_CONN" "s_conn (g_sock u j) = c" "env u = env ?v" "g_settling u = g_settling ?v"
    "s_state (g_sock ?v j) = OKM_SOCK_FREE" "\<And>i. i \<noteq> j \<Longrightarrow> g_sock u i = g_sock ?v i"
    using adopt_result [OF inv' N, of me c 0] assms(5) by metis
  have "okm_unlock K me u = u" using u(6) assms(7) by (simp add: okm_unlock_def)
  then have "okm_sock_accept K me lfd None None 0 t = Some (okm_fd_alloc 0 t, None, None, u)"
    using o p a N u(1) assms(5) by (simp add: okm_sock_accept_def Let_def has_def)
  moreover have "k \<noteq> j" using u(7) p by auto
  then have "\<not> s_pend_conn (g_sock u k)" using u(8) by simp
  ultimately show ?thesis using t(2) u by auto
qed

text \<open>
  A table in which descriptor 0 is a socket with the given stream and slot.
\<close>

definition sock_table :: "kal_stream \<Rightarrow> okm_sock \<Rightarrow> unit okm" where
  "sock_table st q = set_sock 0 q (set_desc 0 ((bound_desc OKM_SOCKET st 0 0 O_RDWR zero_desc)\<lparr>d_sock := 0\<rparr>)
     (snd (okm_fd_bind net_kal 1 0 OKM_SOCKET st 0 0 O_RDWR (okm_table_init_memory (zero_okm ())))))"

lemma sock_table_facts:
  "g_desc (sock_table st q) = (\<lambda>_. zero_desc)(0 := (bound_desc OKM_SOCKET st 0 0 O_RDWR zero_desc)\<lparr>d_sock := 0\<rparr>)"
  "g_sock (sock_table st q) = (\<lambda>_. zero_sock None)(0 := q)" "g_settling (sock_table st q) = []"
  "g_fd (sock_table st q) = (\<lambda>i. if i = 0 then \<lparr>fd_desc = 0, fd_cloexec = 0\<rparr> else
      if i < OKM_MAX_FD then \<lparr>fd_desc = -1, fd_cloexec = 0\<rparr> else \<lparr>fd_desc = 0, fd_cloexec = 0\<rparr>)"
  "sock_of 0 (sock_table st q) = Inr (0, 0)"
  unfolding sock_table_def bind_first
  by (auto simp: okm_table_init_memory_def zero_okm_def has_def fun_eq_iff sock_of_def slot_of_def okm_desc_of_def
      fd_in_range_def bound_desc_def)

lemma sock_table_inv:
  assumes "slot_ok K q" "s_state q \<noteq> OKM_SOCK_FREE" "stream_for K q = st"
  shows "sock_inv K (sock_table st q)"
proof -
  let ?b = "snd (okm_fd_bind net_kal 1 0 OKM_SOCKET st 0 0 O_RDWR (okm_table_init_memory (zero_okm ()))) :: unit okm"
  have "table_inv ?b" by (rule okm_fd_bind_inv [OF table_inv_init]) simp
  moreover have "g_desc ?b 0 = bound_desc OKM_SOCKET st 0 0 O_RDWR zero_desc" unfolding bind_first by simp
  ultimately have "table_inv (sock_table st q)"
    unfolding sock_table_def by (simp add: table_inv_set_desc)
  moreover have v: "sview (sock_table st q) = [0 \<mapsto> (0, st)]"
    by (auto simp: fun_eq_iff sview_def live_def sock_table_facts bound_desc_def zero_desc_def)
  have "linked K (sview (sock_table st q)) (g_sock (sock_table st q))"
    unfolding v sock_table_facts using assms
    by (auto simp: linked_def zero_sock_def split: if_splits)
  ultimately show ?thesis
    using assms by (auto simp: sock_inv_def sinv_def sock_table_facts slot_ok_def zero_sock_def)
qed

definition listener :: okm_sock where
  "listener = (zero_sock None)\<lparr>s_state := OKM_SOCK_LISTEN, s_type := SOCK_STREAM, s_lis := 6\<rparr>"

lemma listener_facts:
  "sock_inv net_kal (sock_table 0 listener)" "okm_fd_alloc 0 (sock_table st q) = 1" "slot_alloc (sock_table st q) \<noteq> None"
proof -
  show "sock_inv net_kal (sock_table 0 listener)"
    by (rule sock_table_inv) (simp_all add: listener_def slot_ok_def zero_sock_def stream_for_def net_kal_def bare_kal_def)
  show "okm_fd_alloc 0 (sock_table st q) = 1"
    by (simp add: okm_fd_alloc_def sock_table_facts scan_up.simps)
  show "slot_alloc (sock_table st q) \<noteq> None"
    by (auto simp: slot_alloc_None sock_table_facts zero_sock_def intro!: exI [of _ 1] split: if_splits)
qed

theorem enquiry_then_accept_witness:
  "\<exists>t u d j. okm_sock_wait_in net_kal 0 1 (sock_table 0 listener) = (1, t)
     \<and> okm_sock_accept net_kal 1 0 None None 0 t = Some (1, None, None, u)
     \<and> sock_of 1 u = Inr (d, j) \<and> s_conn (g_sock u j) = 7"
proof -
  let ?s = "sock_table 0 listener"
  define t where "t = set_sock 0 (listener\<lparr>s_pend := 7, s_pend_conn := True\<rparr>) ?s"
  have w: "okm_sock_wait_in net_kal 0 1 ?s = (1, t)"
    by (simp add: okm_sock_wait_in_def slot_of_def sock_table_facts bound_desc_def listener_def zero_sock_def
        net_kal_def timeout_ops_def Let_def t_def)
  have "t = sock_table 0 (listener\<lparr>s_pend := 7, s_pend_conn := True\<rparr>)"
    by (simp add: t_def sock_table_def)
  then have f: "okm_fd_alloc 0 t = 1" "slot_alloc t \<noteq> None" "g_settling t = []"
    using listener_facts(2,3) sock_table_facts(3) by simp_all
  have l: "s_state (g_sock ?s 0) = OKM_SOCK_LISTEN" "\<not> s_pend_conn (g_sock ?s 0)"
    by (simp_all add: sock_table_facts listener_def zero_sock_def)
  have "K_timeout (net_kal :: unit kal) = Some timeout_ops" by (simp add: net_kal_def)
  with enquiry_then_accept [OF listener_facts(1) sock_table_facts(5) l(1) w _ f(2,3), of 1] w f(1) l(2)
  show ?thesis by (auto simp: timeout_ops_def)
qed

text \<open>
  a message a readiness enquiry took from a datagram socket is the one the next receive
  delivers: as much of it as the caller's buffer holds, with the address of its sender, without asking the
  environment again; after it the socket holds no message.
\<close>

theorem enquiry_then_recv:
  assumes "sock_inv K s" "sock_of fd s = Inr (d, k)" "s_state (g_sock s k) = OKM_SOCK_DGRAM"
    and "\<not> s_pend_msg (g_sock s k)" "okm_sock_wait_in K d ns s = (1, t)"
    and "flags AND NOT (MSG_NOSIGNAL OR MSG_DONTWAIT) = 0"
  shows "\<exists>T bs from' u. K_timeout K = Some T
     \<and> timeout_recv_from T (s_dg (g_sock s k)) OKM_DGRAM_MAX ns (env s) = (Inr (bs, from'), env t)
     \<and> okm_sock_recv K fd len flags (Some m) (Some l) t =
         (Inr (take len bs), fst (snd (from_endpoint from' (Some m) (Some l))),
          snd (snd (from_endpoint from' (Some m) (Some l))), u)
     \<and> env u = env t \<and> \<not> s_pend_msg (g_sock u k)"
proof -
  note so = sock_of_Inr [OF assms(1,2)]
  have sl: "slot_of (Some d) s = Some k" using so(3,4,6) by (simp add: slot_of_def Let_def)
  have ty: "s_type (g_sock s k) = SOCK_DGRAM" and "K_dgram K \<noteq> None"
    using so(8) assms(3) unfolding slot_ok_def by blast+
  then obtain D where D: "K_dgram K = Some D" by blast
  obtain T bs from' b where T: "K_timeout K = Some T"
    "timeout_recv_from T (s_dg (g_sock s k)) OKM_DGRAM_MAX ns (env s) = (Inr (bs, from'), env t)"
    and t: "t = set_sock k ((g_sock s k)\<lparr>s_buf := Some (bs @ b), s_pend_len := length bs, s_pend_from := from',
              s_pend_msg := True\<rparr>) (s\<lparr>env := env t\<rparr>)"
    using assms(3-5) sl okm_errno_range(1)
    by (auto simp: okm_sock_wait_in_def Let_def split: option.splits sum.splits prod.splits if_splits)
      (smt (verit) okm_errno_range(1))+
  let ?q = "g_sock t k"
  have q: "?q = (g_sock s k)\<lparr>s_buf := Some (bs @ b), s_pend_len := length bs, s_pend_from := from', s_pend_msg := True\<rparr>"
    by (subst t) simp
  have o: "sock_of fd t = Inr (d, k)" using assms(2) by (subst t) simp
  let ?u = "set_sock k (?q\<lparr>s_pend_msg := False\<rparr>) t"
  have "take (if length bs < len then length bs else len) (bs @ b) = take len bs" by simp
  then have "recv_msg K D d k len flags t = (Inr (take len bs, from'), ?u)"
    by (simp add: recv_msg_def Let_def q)
  moreover have "dgram_ready D k t = (None, t)"
    using assms(3) by (simp add: dgram_ready_def Let_def q)
  moreover obtain z a l' where "from_endpoint from' (Some m) (Some l) = (z, a, l')" by (metis prod_cases3)
  ultimately have "okm_sock_recv K fd len flags (Some m) (Some l) t =
      (Inr (take len bs), fst (snd (from_endpoint from' (Some m) (Some l))),
        snd (snd (from_endpoint from' (Some m) (Some l))), ?u)"
    using o D ty assms(6) by (simp add: okm_sock_recv_def Let_def q)
  with T show ?thesis by (intro exI [of _ T] exI [of _ bs] exI [of _ from'] exI [of _ ?u]) simp
qed

definition dgram_ops :: "'e kal_dgram" where
  "dgram_ops = \<lparr>dgram_open = (\<lambda>_ e. (Inr 9, e)), dgram_local = (\<lambda>_ _. Inl kal_err_closed),
     dgram_send_to = (\<lambda>_ bs _ e. (Inr (length bs), e)), dgram_recv_from = (\<lambda>_ _ e. (Inl kal_err_closed, e)),
     dgram_close = (\<lambda>_ e. e)\<rparr>"

definition dgram_kal :: "'e kal" where
  "dgram_kal = bare_kal\<lparr>K_dgram := Some dgram_ops,
     K_timeout := Some (timeout_ops\<lparr>timeout_recv_from :=
       (\<lambda>_ _ _ e. (Inr ([1, 2, 3], \<lparr>addr = [10, 0, 0, 9], port = 53\<rparr>), e))\<rparr>)\<rparr>"

definition endpoint_sock :: okm_sock where
  "endpoint_sock = (zero_sock (Some [0, 0, 0, 0]))\<lparr>s_state := OKM_SOCK_DGRAM, s_type := SOCK_DGRAM, s_dg := 9\<rparr>"

theorem enquiry_then_recv_witness:
  "\<exists>t a l u. okm_sock_wait_in dgram_kal 0 1 (sock_table 0 endpoint_sock) = (1, t)
     \<and> okm_sock_recv dgram_kal 0 2 0 (Some (\<lambda>_. 0)) (Some 16) t = (Inr [1, 2], a, l, u)"
proof -
  let ?s = "sock_table 0 endpoint_sock"
  have inv: "sock_inv dgram_kal ?s"
    by (rule sock_table_inv)
      (simp_all add: endpoint_sock_def slot_ok_def zero_sock_def stream_for_def dgram_kal_def bare_kal_def)
  obtain t where w: "okm_sock_wait_in dgram_kal 0 1 ?s = (1, t)"
    by (simp add: okm_sock_wait_in_def slot_of_def sock_table_facts bound_desc_def endpoint_sock_def zero_sock_def
        dgram_kal_def Let_def)
  have l: "s_state (g_sock ?s 0) = OKM_SOCK_DGRAM" "\<not> s_pend_msg (g_sock ?s 0)"
    by (simp_all add: sock_table_facts endpoint_sock_def zero_sock_def)
  have "K_timeout (dgram_kal :: unit kal) = Some (timeout_ops\<lparr>timeout_recv_from :=
       (\<lambda>_ _ _ e. (Inr ([1, 2, 3], \<lparr>addr = [10, 0, 0, 9], port = 53\<rparr>), e))\<rparr>)"
    by (simp add: dgram_kal_def)
  with enquiry_then_recv [OF inv sock_table_facts(5) l w, of 0 2 "\<lambda>_. 0" 16] w show ?thesis
    by auto
qed

text \<open>
  \<open>recv\<close> on a polled connection delivers one byte whatever has arrived. Where a readiness enquiry
  holds a byte, \<open>read\<close> delivers it together with what the environment already has, and
  \<open>recv\<close> on the same descriptor in the same state delivers that byte alone: a program that polls and
  receives gets its stream one byte at a time, the defect \<open>do_read_stream\<close> says was remedied.
\<close>

theorem recv_after_enquiry_one_byte:
  assumes "sock_inv K s" "sock_of fd s = Inr (d, k)" "s_state (g_sock s k) = OKM_SOCK_CONN"
    and "d_ahead (g_desc s d)" "1 < len" "d_stream (g_desc s d) \<noteq> 0"
    and "okm_timed_read K (d_stream (g_desc s d)) (len - 1) OKM_NOW_NS
           (set_desc d ((g_desc s d)\<lparr>d_ahead := False\<rparr>) s) = (Inr rest, s')" "rest \<noteq> []"
  shows "do_read_stream K fd len s = (Inr (d_ahead_byte (g_desc s d) # rest), s')
    \<and> fst (okm_sock_recv K fd len 0 address alen s) = Inr [d_ahead_byte (g_desc s d)]"
proof -
  note so = sock_of_Inr [OF assms(1,2)]
  have ty: "s_type (g_sock s k) = SOCK_STREAM" using so(8) assms(3) unfolding slot_ok_def by blast
  have a: "okm_take_ahead (Some d) len s =
      (AHEAD_BYTE (d_ahead_byte (g_desc s d)), set_desc d ((g_desc s d)\<lparr>d_ahead := False\<rparr>) s)"
    using assms(4,5) by (simp add: okm_take_ahead_def Let_def)
  have "okm_can_bound K" using assms(7) by (auto simp: okm_can_bound_def okm_timed_read_def split: option.splits)
  then have "do_read_stream K fd len s = (Inr (d_ahead_byte (g_desc s d) # rest), s')"
    using so(1,3) assms(5-8) a by (simp add: do_read_stream_def is_null_def stream_of_def Let_def)
  moreover have "fst (okm_sock_recv K fd len 0 address alen s) = Inr [d_ahead_byte (g_desc s d)]"
    using assms(2,3) ty a by (simp add: okm_sock_recv_def Let_def)
  ultimately show ?thesis by blast
qed

definition stream_kal :: "'e kal" where
  "stream_kal = net_kal\<lparr>K_timeout := Some (timeout_ops\<lparr>timeout_read := (\<lambda>_ n _ e. (Inr (take n [66, 67]), e))\<rparr>)\<rparr>"

definition connection :: okm_sock where
  "connection = (zero_sock None)\<lparr>s_state := OKM_SOCK_CONN, s_type := SOCK_STREAM, s_conn := 5\<rparr>"

definition polled_table :: "unit okm" where
  "polled_table = set_desc 0 ((g_desc (sock_table 105 connection) 0)\<lparr>d_ahead := True, d_ahead_byte := 65\<rparr>)
     (sock_table 105 connection)"

lemma polled_table_facts:
  "sock_inv stream_kal polled_table" "sock_of 0 polled_table = Inr (0, 0)"
  "s_state (g_sock polled_table 0) = OKM_SOCK_CONN" "d_ahead (g_desc polled_table 0)"
  "d_ahead_byte (g_desc polled_table 0) = 65" "d_stream (g_desc polled_table 0) = 105"
proof -
  have "sock_inv stream_kal (sock_table 105 connection)"
    by (rule sock_table_inv)
      (simp_all add: connection_def slot_ok_def zero_sock_def stream_for_def stream_kal_def net_kal_def bare_kal_def net_ops_def)
  then show "sock_inv stream_kal polled_table"
    unfolding polled_table_def by (rule sock_inv_set_desc) simp_all
  have "okm_desc_of 0 (sock_table 105 connection) = Some 0"
    by (simp add: okm_desc_of_def fd_in_range_def sock_table_facts)
  then have "okm_desc_of 0 polled_table = Some 0" by (simp add: polled_table_def okm_desc_of_fd)
  then show "sock_of 0 polled_table = Inr (0, 0)"
    by (simp add: sock_of_def slot_of_def polled_table_def sock_table_facts bound_desc_def)
  show "s_state (g_sock polled_table 0) = OKM_SOCK_CONN" "d_ahead (g_desc polled_table 0)"
    "d_ahead_byte (g_desc polled_table 0) = 65" "d_stream (g_desc polled_table 0) = 105"
    by (simp_all add: polled_table_def sock_table_facts connection_def bound_desc_def)
qed

theorem recv_after_enquiry_one_byte_witness:
  "fst (do_read_stream stream_kal 0 8 polled_table) = Inr [65, 66, 67]
   \<and> fst (okm_sock_recv stream_kal 0 8 0 None None polled_table) = Inr [65]"
proof -
  let ?s = "set_desc 0 ((g_desc polled_table 0)\<lparr>d_ahead := False\<rparr>) polled_table"
  have "okm_timed_read stream_kal (d_stream (g_desc polled_table 0)) (8 - 1) OKM_NOW_NS ?s =
      (Inr [66, 67], ?s\<lparr>env := ()\<rparr>)"
    by (simp add: okm_timed_read_def stream_kal_def)
  from recv_after_enquiry_one_byte [OF polled_table_facts(1-4) _ _ this] polled_table_facts(5,6)
  show ?thesis by simp
qed

theorem sockopt_timeout_roundtrip_witness:
  "\<exists>t. okm_sock_setopt net_kal 0 SOL_SOCKET SO_RCVTIMEO (3, 250000) 16 (sock_table 0 listener) = (0, t)
     \<and> okm_sock_getopt 0 SOL_SOCKET SO_RCVTIMEO True (Some 16) t = (0, Opt_timeval 3 250000, Some 16)"
proof -
  have "okm_can_bound (net_kal :: unit kal)" by (simp add: okm_can_bound_def net_kal_def)
  from sockopt_timeout_roundtrip [OF sock_table_facts(5) _ _ this, of SO_RCVTIMEO 16 3 250000 0 listener]
  show ?thesis by auto
qed

end
