(* ===== verification/Okm_Poll.thy ===== *)
theory Okm_Poll
  imports Okm_Sockets
begin

text \<open>
  Readiness (port/src/okm_poll.c, from \<open>has_input_route\<close>): an enquiry is answered by attempting the
  transfer under a bound and keeping what it produced. The loop of \<open>okm_poll\<close> need not end where
  the caller states no bound, so it is a partial function whose value is \<open>None\<close> when it does not.
\<close>

section \<open>The code\<close>

abbreviation (input) POLLIN :: flagword where "POLLIN \<equiv> 1"
abbreviation (input) POLLOUT :: flagword where "POLLOUT \<equiv> 4"
abbreviation (input) POLLHUP :: flagword where "POLLHUP \<equiv> 0x10"
abbreviation (input) POLLNVAL :: flagword where "POLLNVAL \<equiv> 0x20"
abbreviation (input) OKM_ROUND_NS :: nat where "OKM_ROUND_NS \<equiv> 1000000"

record pollfd =
  p_fd :: int
  p_events :: flagword
  p_revents :: flagword

definition has_input_route :: "nat \<Rightarrow> 'e okm \<Rightarrow> bool" where
  "has_input_route d s =
     (let p = g_desc s d in
      case d_kind p of
        OKM_STREAM \<Rightarrow> d_flags p AND O_ACCMODE \<noteq> O_WRONLY
      | OKM_CHANNEL \<Rightarrow> d_flags p AND O_ACCMODE \<noteq> O_WRONLY
      | OKM_SOCKET \<Rightarrow> okm_sock_shape d s \<noteq> OKM_SOCK_SHAPE_IDLE
      | _ \<Rightarrow> False)"

definition wait_in :: "'e kal \<Rightarrow> nat \<Rightarrow> nat \<Rightarrow> 'e okm \<Rightarrow> int \<times> 'e okm" where
  "wait_in K d ns s =
     (let p = g_desc s d in
      if d_ahead p \<or> d_ahead_eof p then (1, s)
      else if d_kind p = OKM_SOCKET \<and> okm_sock_shape d s = OKM_SOCK_SHAPE_OWN
      then okm_sock_wait_in K d ns s
      else case K_timeout K of
        None \<Rightarrow> (- ENOSYS, s)
      | Some T \<Rightarrow>
          (case timeout_read T (d_stream p) 1 ns (env s) of
             (Inl e, e') \<Rightarrow> (if e = kal_err_again then 0 else - okm_errno e, s\<lparr>env := e'\<rparr>)
           | (Inr [], e') \<Rightarrow> (1, set_desc d (p\<lparr>d_ahead_eof := True\<rparr>) (s\<lparr>env := e'\<rparr>))
           | (Inr (b # _), e') \<Rightarrow>
               (1, set_desc d (p\<lparr>d_ahead := True, d_ahead_byte := b\<rparr>) (s\<lparr>env := e'\<rparr>))))"

text \<open>
  One descriptor of one round: its \<open>revents\<close>, the failure of the enquiry (zero for none), whether
  there was an enquiry, and the state after it. The descriptor counts as ready when its
  \<open>revents\<close> is not zero.
\<close>

definition poll_one ::
  "'e kal \<Rightarrow> nat \<Rightarrow> pollfd \<Rightarrow> 'e okm \<Rightarrow> flagword \<times> int \<times> bool \<times> 'e okm" where
  "poll_one K ns f s =
     (if p_fd f < 0 then (0, 0, False, s)
      else case okm_desc_of (p_fd f) s of
        None \<Rightarrow> (POLLNVAL, 0, False, s)
      | Some d \<Rightarrow>
          if d_kind (g_desc s d) = OKM_FILE \<or> d_kind (g_desc s d) = OKM_DIR \<or> d_kind (g_desc s d) = OKM_NULL
          then ((if has (p_events f) POLLIN then POLLIN else 0)
                  OR (if has (p_events f) POLLOUT then POLLOUT else 0), 0, False, s)
          else
            let (r_in, failure, waited, s') =
                  (if has (p_events f) POLLIN \<and> has_input_route d s then
                     (case wait_in K d ns s of
                        (r, s') \<Rightarrow>
                          if r < 0 then (0, r, True, s')
                          else if 0 < r then
                            (POLLIN OR (if d_ahead_eof (g_desc s' d) \<and> d_kind (g_desc s' d) \<noteq> OKM_STREAM
                                        then POLLHUP else 0), 0, True, s')
                          else (0, 0, True, s'))
                   else (0, 0, False, s))
            in (r_in OR (if has (p_events f) POLLOUT \<and> d_flags (g_desc s' d) AND O_ACCMODE \<noteq> O_RDONLY
                         then POLLOUT else 0), failure, waited, s'))"

text \<open>One round: the descriptors in order; the count ready, and the first failure.\<close>

fun poll_round ::
  "'e kal \<Rightarrow> nat \<Rightarrow> pollfd list \<Rightarrow> 'e okm \<Rightarrow> pollfd list \<times> nat \<times> int \<times> bool \<times> 'e okm" where
  "poll_round K ns [] s = ([], 0, 0, False, s)"
| "poll_round K ns (f # fs) s =
     (case poll_one K ns f s of
        (r, failure, waited, s1) \<Rightarrow>
          (case poll_round K ns fs s1 of
             (fs', ready, failure', waited', s2) \<Rightarrow>
               (f\<lparr>p_revents := r\<rparr> # fs', (if r \<noteq> 0 then 1 else 0) + ready,
                if failure \<noteq> 0 then failure else failure', waited \<or> waited', s2)))"

definition round_bound :: "bool \<Rightarrow> bool \<Rightarrow> nat \<Rightarrow> nat" where
  "round_bound single forever left =
     (if single then (if forever then 0 else if left \<noteq> 0 then left else OKM_NOW_NS) else OKM_NOW_NS)"

partial_function (option) poll_loop ::
  "'e kal \<Rightarrow> bool \<Rightarrow> bool \<Rightarrow> nat \<Rightarrow> pollfd list \<Rightarrow> 'e okm \<Rightarrow> (int \<times> pollfd list \<times> 'e okm) option" where
  "poll_loop K single forever left fs s =
     (case poll_round K (round_bound single forever left) fs s of
        (fs', ready, failure, waited, s') \<Rightarrow>
          if ready \<noteq> 0 then Some (int ready, fs', s')
          else if failure \<noteq> 0 then Some (failure, fs', s')
          else if \<not> forever \<and> left = 0 then Some (0, fs', s')
          else if single \<and> waited then
            (if \<not> forever then Some (0, fs', s') else poll_loop K single forever left fs' s')
          else
            poll_loop K single forever
              (if \<not> forever then (if left \<le> OKM_ROUND_NS then 0 else left - OKM_ROUND_NS) else left) fs'
              (s'\<lparr>env := time_sleep K OKM_ROUND_NS (env s')\<rparr>))"

definition okm_poll ::
  "'e kal \<Rightarrow> pollfd list option \<Rightarrow> nat \<Rightarrow> int \<Rightarrow> 'e okm \<Rightarrow> (int \<times> pollfd list \<times> 'e okm) option" where
  "okm_poll K p n timeout_ms s =
     (if n \<noteq> 0 \<and> p = None then Some (- EFAULT, [], s)
      else let fds = take n (case p of None \<Rightarrow> [] | Some fs \<Rightarrow> fs) in
        if OKM_MAX_FD < n then Some (- EINVAL, fds, s)
        else
          let forever = timeout_ms < 0;
              left = (if forever then 0 else nat timeout_ms * 1000000);
              single = (n = 1 \<and> 0 \<le> p_fd (hd fds))
          in poll_loop K single forever left fds s)"

section \<open>The answer\<close>

lemma poll_round_shape:
  assumes "poll_round K ns fs s = (fs', ready, failure, waited, t)"
  shows "ready = length (filter (\<lambda>f. p_revents f \<noteq> 0) fs')"
    "map (\<lambda>f. (p_fd f, p_events f)) fs' = map (\<lambda>f. (p_fd f, p_events f)) fs"
proof -
  have "ready = length (filter (\<lambda>f. p_revents f \<noteq> 0) fs')
      \<and> map (\<lambda>f. (p_fd f, p_events f)) fs' = map (\<lambda>f. (p_fd f, p_events f)) fs"
    using assms
  proof (induction fs arbitrary: s fs' ready failure waited t)
    case Nil
    then show ?case by simp
  next
    case (Cons f fs)
    obtain r fl w s1 where o: "poll_one K ns f s = (r, fl, w, s1)" by (metis prod_cases4)
    obtain gs rd fl' w' s2 where g: "poll_round K ns fs s1 = (gs, rd, fl', w', s2)" by (metis prod_cases5)
    have "fs' = f\<lparr>p_revents := r\<rparr> # gs" "ready = (if r \<noteq> 0 then 1 else 0) + rd"
      using Cons.prems o g by simp_all
    with Cons.IH [OF g] show ?case by simp
  qed
  then show "ready = length (filter (\<lambda>f. p_revents f \<noteq> 0) fs')"
    "map (\<lambda>f. (p_fd f, p_events f)) fs' = map (\<lambda>f. (p_fd f, p_events f)) fs" by simp_all
qed

lemma poll_round_failure:
  "poll_round K ns fs s = (fs', ready, failure, waited, t) \<Longrightarrow> failure \<le> 0"
proof (induction fs arbitrary: s fs' ready failure waited t)
  case Nil
  then show ?case by simp
next
  case (Cons f fs)
  obtain r fl w s1 where o: "poll_one K ns f s = (r, fl, w, s1)" by (metis prod_cases4)
  obtain gs rd fl' w' s2 where g: "poll_round K ns fs s1 = (gs, rd, fl', w', s2)" by (metis prod_cases5)
  have "fl \<le> 0"
    using o by (auto simp: poll_one_def Let_def split: if_splits option.splits prod.splits)
  moreover have "failure = (if fl \<noteq> 0 then fl else fl')" using Cons.prems o g by simp
  ultimately show ?case using Cons.IH [OF g] by simp
qed

abbreviation asked :: "pollfd list \<Rightarrow> (int \<times> flagword) list" where
  "asked fs \<equiv> map (\<lambda>f. (p_fd f, p_events f)) fs"

text \<open>
  Whatever rounds and sleeps keep holds at the last round, which is the one \<open>poll\<close> answers by.
\<close>

lemma poll_loop_last_round:
  assumes "poll_loop K single forever left fs s = Some (r, fs', t)" "I s"
    and round: "\<And>ns fs s fs' ready failure waited s'.
        I s \<Longrightarrow> poll_round K ns fs s = (fs', ready, failure, waited, s') \<Longrightarrow> I s'"
    and sleep: "\<And>s. I s \<Longrightarrow> I (s\<lparr>env := time_sleep K OKM_ROUND_NS (env s)\<rparr>)"
  shows "\<exists>ns fs0 s0 ready failure waited. I s0 \<and> asked fs0 = asked fs
      \<and> poll_round K ns fs0 s0 = (fs', ready, failure, waited, t)
      \<and> (if ready \<noteq> 0 then r = int ready else r = 0 \<or> r = failure \<and> failure \<noteq> 0)"
proof -
  define Q where "Q fs y \<longleftrightarrow> (\<exists>ns fs0 s0 ready failure waited. I s0 \<and> asked fs0 = asked fs
      \<and> poll_round K ns fs0 s0 = (fst (snd y), ready, failure, waited, snd (snd y))
      \<and> (if ready \<noteq> 0 then fst y = int ready else fst y = 0 \<or> fst y = failure \<and> failure \<noteq> 0))"
    for fs :: "pollfd list" and y :: "int \<times> pollfd list \<times> 'a okm"
  have "K = K \<longrightarrow> I s \<longrightarrow> Q fs (r, fs', t)"
  proof (rule poll_loop.raw_induct [where P = "\<lambda>K' single forever left fs s y. K' = K \<longrightarrow> I s \<longrightarrow> Q fs y",
        OF _ assms(1)], intro impI)
    fix loop K' single forever left fs s y
    assume IH: "\<And>K' single forever left fs s y. loop K' single forever left fs s = Some y \<Longrightarrow>
        K' = K \<longrightarrow> I s \<longrightarrow> Q fs y"
      and body: "(case poll_round K' (round_bound single forever left) fs s of
      (fs', ready, failure, waited, s') \<Rightarrow>
        if ready \<noteq> 0 then Some (int ready, fs', s')
        else if failure \<noteq> 0 then Some (failure, fs', s')
        else if \<not> forever \<and> left = 0 then Some (0, fs', s')
        else if single \<and> waited
        then if \<not> forever then Some (0, fs', s') else loop K' single forever left fs' s'
        else loop K' single forever
          (if \<not> forever then if left \<le> OKM_ROUND_NS then 0 else left - OKM_ROUND_NS else left) fs'
          (s'\<lparr>env := time_sleep K' OKM_ROUND_NS (env s')\<rparr>)) = Some y"
      and K': "K' = K" and i: "I s"
    obtain gs rd fl w s' where g: "poll_round K (round_bound single forever left) fs s = (gs, rd, fl, w, s')"
      by (metis prod_cases5)
    note i' = round [OF i g]
    have here: "Q fs (z, gs, s')" if "if rd \<noteq> 0 then z = int rd else z = 0 \<or> z = fl \<and> fl \<noteq> 0" for z
      using i g that unfolding Q_def fst_conv snd_conv by blast
    have later: "Q gs y \<Longrightarrow> Q fs y" unfolding Q_def using poll_round_shape(2) [OF g] by simp
    show "Q fs y"
      using body IH [of K single forever _ gs] i' sleep [OF i'] here later
      unfolding K' g by (auto split: if_splits)
  qed
  with assms(2) show ?thesis unfolding Q_def fst_conv snd_conv by blast
qed

text \<open>
  With a bound the loop ends: each round either answers or shortens what is left, and the round with
  nothing left answers.
\<close>

lemma poll_loop_ends: "\<exists>y. poll_loop K single False left fs s = Some y"
proof (induction left arbitrary: fs s rule: less_induct)
  case (less left)
  obtain gs rd fl w s' where g: "poll_round K (round_bound single False left) fs s = (gs, rd, fl, w, s')"
    by (metis prod_cases5)
  show ?case
  proof (cases "rd \<noteq> 0 \<or> fl \<noteq> 0 \<or> left = 0 \<or> single \<and> w")
    case True
    then show ?thesis by (subst poll_loop.simps) (auto simp: g)
  next
    case False
    let ?left = "if left \<le> OKM_ROUND_NS then 0 else left - OKM_ROUND_NS"
    have "?left < left" using False by simp
    from less.IH [OF this] obtain y where
      "poll_loop K single False ?left gs (s'\<lparr>env := time_sleep K OKM_ROUND_NS (env s')\<rparr>) = Some y" by blast
    with False show ?thesis by (cases y) (subst poll_loop.simps, simp add: g)
  qed
qed



section \<open>What poll promises of the read that follows\<close>

text \<open>What the port relies on besides: accepting a connection, receiving a message and sleeping take
  nothing from a stream.\<close>

definition quiet_waits :: "'e kal \<Rightarrow> (kal_stream \<Rightarrow> 'e \<Rightarrow> byte list) \<Rightarrow> bool" where
  "quiet_waits K input \<longleftrightarrow>
     (\<forall>T l ns e st. K_timeout K = Some T \<longrightarrow> input st (snd (timeout_accept T l ns e)) = input st e)
   \<and> (\<forall>T g n ns e st. K_timeout K = Some T \<longrightarrow> input st (snd (timeout_recv_from T g n ns e)) = input st e)
   \<and> (\<forall>ns e st. input st (time_sleep K ns e) = input st e)"

text \<open>No other open description has the stream of \<open>d\<close>.\<close>

definition own_stream :: "nat \<Rightarrow> 'e okm \<Rightarrow> bool" where
  "own_stream d s \<longleftrightarrow> (\<forall>e. e \<noteq> d \<longrightarrow> live s e \<longrightarrow> d_stream (g_desc s e) \<noteq> d_stream (g_desc s d))"

text \<open>What an enquiry leaves alone: which description a descriptor has, and what each is.\<close>

definition same_table :: "'e okm \<Rightarrow> 'e okm \<Rightarrow> bool" where
  "same_table s t \<longleftrightarrow> g_fd t = g_fd s
     \<and> (\<forall>e. d_refs (g_desc t e) = d_refs (g_desc s e) \<and> d_kind (g_desc t e) = d_kind (g_desc s e)
          \<and> d_stream (g_desc t e) = d_stream (g_desc s e) \<and> d_flags (g_desc t e) = d_flags (g_desc s e))"

lemma same_table_refl [simp]: "same_table s s" by (simp add: same_table_def)

lemma same_table_trans: "same_table s t \<Longrightarrow> same_table t u \<Longrightarrow> same_table s u"
  by (simp add: same_table_def)

lemma same_table_env [simp]: "same_table s (t\<lparr>env := e\<rparr>) = same_table s t"
  by (simp add: same_table_def)

lemma same_tableD:
  assumes "same_table s t"
  shows "okm_desc_of fd t = okm_desc_of fd s" "live t e = live s e" "d_kind (g_desc t e) = d_kind (g_desc s e)"
    "d_stream (g_desc t e) = d_stream (g_desc s e)" "own_stream d t = own_stream d s"
  using assms by (simp_all add: same_table_def okm_desc_of_def live_def own_stream_def)

lemma okm_sock_wait_in_frame:
  assumes "quiet_waits K input" "okm_sock_wait_in K d ns s = (r, t)"
  shows "g_desc t = g_desc s \<and> g_fd t = g_fd s \<and> input st (env t) = input st (env s)"
proof (cases "K_timeout K")
  case None
  then show ?thesis using assms(2) by (auto simp: okm_sock_wait_in_def Let_def split: option.splits if_splits)
next
  case (Some T)
  have a: "input st e' = input st e" if "timeout_accept T l ns e = (q, e')" for l e q e'
    using assms(1) Some that unfolding quiet_waits_def by (metis snd_conv)
  have b: "input st e' = input st e" if "timeout_recv_from T g n ns e = (q, e')" for g n e q e'
    using assms(1) Some that unfolding quiet_waits_def by (metis snd_conv)
  show ?thesis
    using assms(2) Some
    by (auto simp: okm_sock_wait_in_def Let_def split: option.splits if_splits sum.splits prod.splits dest: a b)
qed

definition ready_in :: "okm_desc \<Rightarrow> bool" where
  "ready_in p \<longleftrightarrow> d_ahead p \<or> d_ahead_eof p"

lemma wait_in_keeps:
  assumes K: "ordered_streams K input" "quiet_waits K input" and w: "wait_in K e ns s = (r, t)"
    and d: "d_kind (g_desc s d) \<noteq> OKM_SOCKET" "own_stream d s" "live s e"
  shows "same_table s t" "unread input d t = unread input d s" "ready_in (g_desc s d) \<Longrightarrow> ready_in (g_desc t d)"
    "e = d \<Longrightarrow> 0 < r \<Longrightarrow> ready_in (g_desc t d)"
proof -
  have "same_table s t \<and> unread input d t = unread input d s \<and> (ready_in (g_desc s d) \<longrightarrow> ready_in (g_desc t d))
      \<and> (e = d \<longrightarrow> 0 < r \<longrightarrow> ready_in (g_desc t d))"
  proof (cases "ready_in (g_desc s e)")
    case True
    then show ?thesis using w by (auto simp: wait_in_def Let_def ready_in_def)
  next
    case nr: False
    show ?thesis
    proof (cases "d_kind (g_desc s e) = OKM_SOCKET \<and> okm_sock_shape e s = OKM_SOCK_SHAPE_OWN")
      case True
      then have "okm_sock_wait_in K e ns s = (r, t)" and "e \<noteq> d"
        using w nr d(1) by (auto simp: wait_in_def Let_def ready_in_def)
      with okm_sock_wait_in_frame [OF K(2)] show ?thesis
        by (simp add: same_table_def unread_def)
    next
      case False
      show ?thesis
      proof (cases "K_timeout K")
        case None
        with w nr False show ?thesis by (auto simp: wait_in_def Let_def ready_in_def)
      next
        case (Some T)
        obtain q e' where q: "timeout_read T (d_stream (g_desc s e)) 1 ns (env s) = (q, e')" by force
        have law: "takes_input input (d_stream (g_desc s e)) 1 (env s) (q, e')"
          using K(1) Some q unfolding ordered_streams_def by metis
        have other: "input (d_stream (g_desc s d)) e' = input (d_stream (g_desc s d)) (env s)" if "e \<noteq> d"
        proof -
          have "d_stream (g_desc s d) \<noteq> d_stream (g_desc s e)"
            using d(2,3) that unfolding own_stream_def by metis
          then show ?thesis using law unfolding takes_input_def by simp
        qed
        have nh: "held (g_desc s e) = []" using nr by (simp add: held_def ready_in_def)
        consider (err) x where "q = Inl x" | (eof) "q = Inr []" | (one) b where "q = Inr [b]"
        proof (cases q)
          case (Inr bs)
          then have "length bs \<le> 1" using law by (simp add: takes_input_def)
          then show thesis using Inr eof one by (cases bs; cases "tl bs") auto
        qed (use err in blast)
        then show ?thesis
        proof cases
          case err
          then have "t = s\<lparr>env := e'\<rparr>" "r \<le> 0"
            using w nr False Some q okm_errno_range(1) by (auto simp: wait_in_def Let_def ready_in_def)
          moreover have "input (d_stream (g_desc s d)) e' = input (d_stream (g_desc s d)) (env s)"
            using law err unfolding takes_input_def by (cases "d = e") auto
          ultimately show ?thesis by (simp add: unread_def)
        next
          case eof
          then have t: "t = set_desc e ((g_desc s e)\<lparr>d_ahead_eof := True\<rparr>) (s\<lparr>env := e'\<rparr>)"
            using w nr False Some q by (auto simp: wait_in_def Let_def ready_in_def)
          moreover have "input (d_stream (g_desc s d)) e' = input (d_stream (g_desc s d)) (env s)"
            using law eof unfolding takes_input_def by auto
          ultimately show ?thesis by (auto simp: unread_def same_table_def held_def ready_in_def)
        next
          case one
          then have t: "t = set_desc e ((g_desc s e)\<lparr>d_ahead := True, d_ahead_byte := b\<rparr>) (s\<lparr>env := e'\<rparr>)"
            using w nr False Some q by (auto simp: wait_in_def Let_def ready_in_def)
          have "unread input d t = unread input d s"
          proof (cases "e = d")
            case True
            have "input (d_stream (g_desc s e)) (env s) = [b] @ input (d_stream (g_desc s e)) e'"
              using law one unfolding takes_input_def by simp
            with True nh show ?thesis by (simp add: t unread_def held_def)
          next
            case False
            with other show ?thesis by (simp add: t unread_def)
          qed
          then show ?thesis by (auto simp: t same_table_def ready_in_def)
        qed
      qed
    qed
  qed
  then show "same_table s t" "unread input d t = unread input d s" "ready_in (g_desc s d) \<Longrightarrow> ready_in (g_desc t d)"
    "e = d \<Longrightarrow> 0 < r \<Longrightarrow> ready_in (g_desc t d)" by simp_all
qed

definition refers_live :: "'e okm \<Rightarrow> bool" where
  "refers_live s \<longleftrightarrow> (\<forall>fd d. okm_desc_of fd s = Some d \<longrightarrow> live s d)"

lemma same_table_live: "same_table s t \<Longrightarrow> refers_live t = refers_live s"
  by (simp add: refers_live_def same_tableD)

lemma poll_one_keeps:
  assumes K: "ordered_streams K input" "quiet_waits K input" and o: "poll_one K ns f s = (r, fl, w, t)"
    and inv: "refers_live s" and d: "d_kind (g_desc s d) = OKM_STREAM \<or> d_kind (g_desc s d) = OKM_CHANNEL" "own_stream d s"
  shows "same_table s t" "unread input d t = unread input d s" "ready_in (g_desc s d) \<Longrightarrow> ready_in (g_desc t d)"
    "okm_desc_of (p_fd f) s = Some d \<Longrightarrow> has r POLLIN \<Longrightarrow> ready_in (g_desc t d)"
proof -
  have no: "\<not> has 0 POLLIN" "\<not> has POLLOUT POLLIN" "\<not> has POLLNVAL POLLIN" by (simp_all add: has_def)
  have ns: "d_kind (g_desc s d) \<noteq> OKM_SOCKET" using d(1) by auto
  have "same_table s t \<and> unread input d t = unread input d s \<and> (ready_in (g_desc s d) \<longrightarrow> ready_in (g_desc t d))
      \<and> (okm_desc_of (p_fd f) s = Some d \<longrightarrow> has r POLLIN \<longrightarrow> ready_in (g_desc t d))"
  proof (cases "\<exists>e. 0 \<le> p_fd f \<and> okm_desc_of (p_fd f) s = Some e \<and> has (p_events f) POLLIN \<and> has_input_route e s
      \<and> d_kind (g_desc s e) \<notin> {OKM_FILE, OKM_DIR, OKM_NULL}")
    case True
    then obtain e where e: "0 \<le> p_fd f" "okm_desc_of (p_fd f) s = Some e" "has (p_events f) POLLIN" "has_input_route e s"
      "d_kind (g_desc s e) \<notin> {OKM_FILE, OKM_DIR, OKM_NULL}" by blast
    obtain x u where x: "wait_in K e ns s = (x, u)" by force
    note wk = wait_in_keeps [OF K x ns d(2) inv [unfolded refers_live_def, rule_format, OF e(2)]]
    have "t = u" "has r POLLIN \<Longrightarrow> 0 < x"
      using o e x no by (auto simp: poll_one_def Let_def split: if_splits)
    with wk e(2) show ?thesis by auto
  next
    case False
    then have "t = s" "okm_desc_of (p_fd f) s = Some d \<Longrightarrow> \<not> has r POLLIN"
      using o d(1) no by (auto simp: poll_one_def Let_def split: if_splits option.splits)
    then show ?thesis by simp
  qed
  then show "same_table s t" "unread input d t = unread input d s" "ready_in (g_desc s d) \<Longrightarrow> ready_in (g_desc t d)"
    "okm_desc_of (p_fd f) s = Some d \<Longrightarrow> has r POLLIN \<Longrightarrow> ready_in (g_desc t d)" by simp_all
qed

lemma poll_round_keeps:
  assumes K: "ordered_streams K input" "quiet_waits K input"
    and "poll_round K ns fs s = (fs', ready, failure, waited, t)" "refers_live s"
    "d_kind (g_desc s d) = OKM_STREAM \<or> d_kind (g_desc s d) = OKM_CHANNEL" "own_stream d s"
  shows "same_table s t \<and> unread input d t = unread input d s \<and> (ready_in (g_desc s d) \<longrightarrow> ready_in (g_desc t d))
    \<and> (\<forall>f \<in> set fs'. okm_desc_of (p_fd f) s = Some d \<longrightarrow> has (p_revents f) POLLIN \<longrightarrow> ready_in (g_desc t d))"
  using assms(3-)
proof (induction fs arbitrary: s fs' ready failure waited t)
  case Nil
  then show ?case by simp
next
  case (Cons f fs)
  obtain r fl w s1 where o: "poll_one K ns f s = (r, fl, w, s1)" by (metis prod_cases4)
  obtain gs rd fl' w' s2 where g: "poll_round K ns fs s1 = (gs, rd, fl', w', s2)" by (metis prod_cases5)
  note pk = poll_one_keeps [OF K o Cons.prems(2-4)]
  have "same_table s1 s2 \<and> unread input d s2 = unread input d s1 \<and> (ready_in (g_desc s1 d) \<longrightarrow> ready_in (g_desc s2 d))
    \<and> (\<forall>f \<in> set gs. okm_desc_of (p_fd f) s1 = Some d \<longrightarrow> has (p_revents f) POLLIN \<longrightarrow> ready_in (g_desc s2 d))"
    using Cons.IH [OF g] Cons.prems(2-4) pk(1) same_table_live [OF pk(1)] by (simp add: same_tableD)
  moreover have "t = s2" "fs' = f\<lparr>p_revents := r\<rparr> # gs" using Cons.prems(1) o g by simp_all
  ultimately show ?case
    using pk same_table_trans [OF pk(1)] by (auto simp: same_tableD(1) [OF pk(1)])
qed

text \<open>A read that finds something held does not reach the unbounded transfer.\<close>

lemma do_read_stream_ready:
  assumes "okm_desc_of fd s = Some d" "d_kind (g_desc s d) = OKM_STREAM \<or> d_kind (g_desc s d) = OKM_CHANNEL"
    "ready_in (g_desc s d)" "0 < len"
  shows "\<exists>bs u. \<forall>X. do_read_stream (K\<lparr>stream_read := X\<rparr>) fd len s = (Inr bs, u)"
proof -
  obtain a s' where a: "okm_take_ahead (Some d) len s = (a, s')" "a \<noteq> AHEAD_NONE"
    using assms(3,4) by (cases "okm_take_ahead (Some d) len s")
      (auto simp: okm_take_ahead_def Let_def ready_in_def split: if_splits)
  have eq: "okm_timed_read (K\<lparr>stream_read := X\<rparr>) = okm_timed_read K" "okm_can_bound (K\<lparr>stream_read := X\<rparr>) = okm_can_bound K" for X
    by (simp_all add: okm_timed_read_def okm_can_bound_def fun_eq_iff)
  define q where "q = okm_timed_read K (d_stream (g_desc s d)) (len - 1) OKM_NOW_NS s'"
  have "\<forall>X. do_read_stream (K\<lparr>stream_read := X\<rparr>) fd len s =
      (Inr (case a of AHEAD_BYTE b \<Rightarrow> if 1 < len \<and> okm_can_bound K then b # delivered (fst q) else [b] | _ \<Rightarrow> []),
       case a of AHEAD_BYTE b \<Rightarrow> if 1 < len \<and> okm_can_bound K then snd q else s' | _ \<Rightarrow> s')"
  proof (cases a)
    case (AHEAD_BYTE b)
    obtain x u where q: "q = (x, u)" by force
    then have q': "okm_timed_read K (d_stream (g_desc s d)) (len - 1) OKM_NOW_NS s' = (x, u)"
      by (simp add: q_def)
    have nn: "\<not> is_null fd s" "stream_of fd s = Inr (d_stream (g_desc s d))"
      using assms(1,2) by (auto simp: is_null_def stream_of_def Let_def)
    show ?thesis
      using assms(1,4) a AHEAD_BYTE q
      by (cases x) (auto simp: do_read_stream_def nn eq q' [simplified])
  qed (use assms a in \<open>auto simp: do_read_stream_def is_null_def stream_of_def Let_def\<close>)
  then show ?thesis by blast
qed

text \<open>
  C18: what \<open>poll\<close> reports readable, a read delivers without waiting, and nothing is lost by having asked. When
  \<open>poll\<close> reports POLLIN for a descriptor of a stream or a channel, the \<open>read\<close> that follows completes
  without the environment's unbounded read (its answer is the same whatever that operation does), and what it delivers followed by what is then unread is
  exactly what was unread before \<open>poll\<close> was called: the byte the enquiry took is
  delivered first and once.
\<close>

theorem poll_then_read:
  assumes "ordered_streams K input" "quiet_waits K input" "table_inv s"
    and "okm_poll K (Some fs) n timeout_ms s = Some (r, fds, t)"
    and "f \<in> set fds" "has (p_revents f) POLLIN" "n \<le> OKM_MAX_FD"
    and "okm_desc_of (p_fd f) s = Some d" "d_kind (g_desc s d) = OKM_STREAM \<or> d_kind (g_desc s d) = OKM_CHANNEL"
    and "own_stream d s" "0 < len"
  shows "\<exists>bs u. do_read_stream K (p_fd f) len t = (Inr bs, u)
      \<and> (\<forall>X. do_read_stream (K\<lparr>stream_read := X\<rparr>) (p_fd f) len t = (Inr bs, u))
      \<and> unread input d s = bs @ unread input d u"
proof -
  obtain single forever left where l: "poll_loop K single forever left (take n fs) s = Some (r, fds, t)"
    using assms(4,7) by (auto simp: okm_poll_def Let_def)
  let ?I = "\<lambda>u. same_table s u \<and> unread input d u = unread input d s"
  have rl: "refers_live s" using assms(3) okm_desc_of_live by (auto simp: refers_live_def)
  have keep: "?I v \<and> (\<forall>f \<in> set gs. okm_desc_of (p_fd f) s = Some d \<longrightarrow> has (p_revents f) POLLIN \<longrightarrow> ready_in (g_desc v d))"
    if "?I u" "poll_round K ns hs u = (gs, a, b, c, v)" for ns hs u gs a b c v
  proof -
    have st: "same_table s u" using that(1) by simp
    note sd = same_tableD [OF st]
    have "refers_live u" using rl same_table_live [OF st] by simp
    from poll_round_keeps [OF assms(1,2) that(2) this, of d] assms(9,10)
    show ?thesis using that(1) same_table_trans [OF st] by (simp add: sd)
  qed
  have rnd: "?I v" if "?I u" "poll_round K ns hs u = (gs, a, b, c, v)" for ns hs u gs a b c v
    using keep [OF that] by blast
  have slp: "?I (u\<lparr>env := time_sleep K OKM_ROUND_NS (env u)\<rparr>)" if "?I u" for u
    using that assms(2) by (simp add: unread_def quiet_waits_def)
  have "?I s" by simp
  have "\<exists>ns fs0 s0 ready failure waited. ?I s0 \<and> asked fs0 = asked (take n fs)
      \<and> poll_round K ns fs0 s0 = (fds, ready, failure, waited, t)
      \<and> (if ready \<noteq> 0 then r = int ready else r = 0 \<or> r = failure \<and> failure \<noteq> 0)"
    by (rule poll_loop_last_round [where I = ?I, OF l \<open>?I s\<close>]) (fact rnd, fact slp)
  then obtain s0 ns fs0 ready failure waited where p: "?I s0" "poll_round K ns fs0 s0 = (fds, ready, failure, waited, t)"
    by (elim exE conjE) (rule that, intro conjI, assumption+)
  have i: "?I t" and rd: "ready_in (g_desc t d)"
    using keep [OF p] assms(5,6,8) by auto
  note sd = same_tableD [OF i [THEN conjunct1]]
  obtain bs u where u: "\<forall>X. do_read_stream (K\<lparr>stream_read := X\<rparr>) (p_fd f) len t = (Inr bs, u)"
    using do_read_stream_ready [of "p_fd f" t d len K] assms(8,9,11) rd by (auto simp: sd)
  have "do_read_stream K (p_fd f) len t = (Inr bs, u)"
    using u [rule_format, of "stream_read K"] by simp
  moreover have "unread input d t = bs @ unread input d u"
    using do_read_stream_unread(5) [OF assms(1) calculation, of d] assms(8) by (simp add: sd)
  ultimately show ?thesis using u i by metis
qed

text \<open>An implementation whose environment is what each stream has yet to deliver, and a table in which
  descriptor 0 is a channel that has three bytes.\<close>

definition take_bytes :: "kal_stream \<Rightarrow> nat \<Rightarrow> (kal_stream \<Rightarrow> byte list) \<Rightarrow> (kal_error + byte list) \<times> (kal_stream \<Rightarrow> byte list)" where
  "take_bytes st n e = (Inr (take n (e st)), e(st := drop n (e st)))"

definition queue_kal :: "(kal_stream \<Rightarrow> byte list) kal" where
  "queue_kal = bare_kal\<lparr>stream_read := take_bytes,
     K_timeout := Some (timeout_ops\<lparr>timeout_read := (\<lambda>st n ns. take_bytes st n)\<rparr>)\<rparr>"

definition channel_table :: "(kal_stream \<Rightarrow> byte list) okm" where
  "channel_table = snd (okm_fd_bind queue_kal 1 0 OKM_CHANNEL 7 0 0 O_RDONLY
     (okm_table_init_memory (zero_okm (\<lambda>st. if st = 7 then [10, 20, 30] else []))))"

lemma queue_kal_laws: "ordered_streams queue_kal (\<lambda>st e. e st)" "quiet_waits queue_kal (\<lambda>st e. e st)"
  by (auto simp: ordered_streams_def quiet_waits_def queue_kal_def take_bytes_def takes_input_def timeout_ops_def bare_kal_def)

lemma channel_table_eq:
  "table_inv channel_table" "okm_desc_of 0 channel_table = Some 0"
  "g_desc channel_table = (\<lambda>_. zero_desc)(0 := bound_desc OKM_CHANNEL 7 0 0 O_RDONLY zero_desc)"
  "env channel_table = (\<lambda>st. if st = 7 then [10, 20, 30] else [])"
proof -
  show "table_inv channel_table"
    unfolding channel_table_def by (rule okm_fd_bind_inv [OF table_inv_init]) simp
  show "okm_desc_of 0 channel_table = Some 0"
    "g_desc channel_table = (\<lambda>_. zero_desc)(0 := bound_desc OKM_CHANNEL 7 0 0 O_RDONLY zero_desc)"
    "env channel_table = (\<lambda>st. if st = 7 then [10, 20, 30] else [])"
    unfolding channel_table_def bind_first
    by (simp_all add: okm_desc_of_def fd_in_range_def okm_table_init_memory_def zero_okm_def)
qed

lemma channel_poll:
  "\<exists>t. okm_poll queue_kal (Some [\<lparr>p_fd = 0, p_events = POLLIN, p_revents = 0\<rparr>]) 1 0 channel_table =
     Some (1, [\<lparr>p_fd = 0, p_events = POLLIN, p_revents = POLLIN\<rparr>], t)"
proof -
  let ?d = "bound_desc OKM_CHANNEL 7 0 0 O_RDONLY zero_desc"
  have w: "wait_in queue_kal 0 1 channel_table =
      (1, set_desc 0 (?d\<lparr>d_ahead := True, d_ahead_byte := 10\<rparr>) (channel_table\<lparr>env := (env channel_table)(7 := [20, 30])\<rparr>))"
    by (simp add: wait_in_def channel_table_eq bound_desc_def zero_desc_def queue_kal_def take_bytes_def Let_def)
  have "poll_one queue_kal 1 \<lparr>p_fd = 0, p_events = POLLIN, p_revents = 0\<rparr> channel_table =
      (POLLIN, 0, True, set_desc 0 (?d\<lparr>d_ahead := True, d_ahead_byte := 10\<rparr>) (channel_table\<lparr>env := (env channel_table)(7 := [20, 30])\<rparr>))"
    unfolding poll_one_def w
    by (simp add: channel_table_eq bound_desc_def zero_desc_def has_input_route_def Let_def has_def w [simplified])
  then show ?thesis
    by (simp add: okm_poll_def poll_loop.simps [of queue_kal True False 0] round_bound_def)
qed

theorem poll_then_read_witness:
  "\<exists>t u bs. okm_poll queue_kal (Some [\<lparr>p_fd = 0, p_events = POLLIN, p_revents = 0\<rparr>]) 1 0 channel_table =
       Some (1, [\<lparr>p_fd = 0, p_events = POLLIN, p_revents = POLLIN\<rparr>], t)
     \<and> do_read_stream queue_kal 0 8 t = (Inr bs, u)
     \<and> [10, 20, 30] = bs @ unread (\<lambda>st e. e st) 0 u"
proof -
  obtain t where t: "okm_poll queue_kal (Some [\<lparr>p_fd = 0, p_events = POLLIN, p_revents = 0\<rparr>]) 1 0 channel_table =
     Some (1, [\<lparr>p_fd = 0, p_events = POLLIN, p_revents = POLLIN\<rparr>], t)"
    using channel_poll by blast
  have o: "own_stream 0 channel_table"
    by (simp add: own_stream_def live_def channel_table_eq bound_desc_def zero_desc_def)
  have k: "d_kind (g_desc channel_table 0) = OKM_STREAM \<or> d_kind (g_desc channel_table 0) = OKM_CHANNEL"
    by (simp add: channel_table_eq bound_desc_def)
  have unr: "unread (\<lambda>st e. e st) 0 channel_table = [10, 20, 30]"
    by (simp add: unread_def held_def channel_table_eq bound_desc_def zero_desc_def)
  have "\<exists>bs u. do_read_stream queue_kal 0 8 t = (Inr bs, u) \<and> [10, 20, 30] = bs @ unread (\<lambda>st e. e st) 0 u"
    using poll_then_read [OF queue_kal_laws channel_table_eq(1) t, of "\<lparr>p_fd = 0, p_events = POLLIN, p_revents = POLLIN\<rparr>" 0 8]
      channel_table_eq(2) k o unr by (auto simp: has_def)
  with t show ?thesis by blast
qed

end
