(* ===== verification/Okm_Open.thy ===== *)
theory Okm_Open
  imports Okm_Names Okm_Poll
begin

text \<open>
  Opening and the descriptor calls of the dispatcher (port/src/okm_syscall.c: \<open>do_openat\<close> and the
  cases \<open>SYS_close\<close>, \<open>SYS_pipe2\<close>, \<open>SYS_lseek\<close>, \<open>SYS_ftruncate\<close>, \<open>SYS_getcwd\<close>, \<open>SYS_dup\<close>, \<open>SYS_dup2\<close>,
  \<open>SYS_dup3\<close>, \<open>SYS_fcntl\<close> and \<open>SYS_flock\<close>). A call answers a number (negative for an error) and the
  state; \<open>me\<close> is the calling context. The invariant of the theory is that the files the environment
  holds open for the program are exactly those its descriptions own.
\<close>

section \<open>Constants\<close>

abbreviation (input) O_DIRECTORY :: flagword where "O_DIRECTORY \<equiv> 0x10000"
abbreviation (input) O_NOFOLLOW :: flagword where "O_NOFOLLOW \<equiv> 0x20000"
abbreviation (input) FD_CLOEXEC :: flagword where "FD_CLOEXEC \<equiv> 1"
abbreviation (input) ERANGE :: int where "ERANGE \<equiv> 34"
abbreviation (input) F_DUPFD :: int where "F_DUPFD \<equiv> 0"
abbreviation (input) F_GETFD :: int where "F_GETFD \<equiv> 1"
abbreviation (input) F_SETFD :: int where "F_SETFD \<equiv> 2"
abbreviation (input) F_GETFL :: int where "F_GETFL \<equiv> 3"
abbreviation (input) F_SETFL :: int where "F_SETFL \<equiv> 4"
abbreviation (input) F_GETLK :: int where "F_GETLK \<equiv> 5"
abbreviation (input) F_SETLK :: int where "F_SETLK \<equiv> 6"
abbreviation (input) F_SETLKW :: int where "F_SETLKW \<equiv> 7"
abbreviation (input) F_OFD_GETLK :: int where "F_OFD_GETLK \<equiv> 36"
abbreviation (input) F_OFD_SETLK :: int where "F_OFD_SETLK \<equiv> 37"
abbreviation (input) F_OFD_SETLKW :: int where "F_OFD_SETLKW \<equiv> 38"
abbreviation (input) F_DUPFD_CLOEXEC :: int where "F_DUPFD_CLOEXEC \<equiv> 1030"
abbreviation (input) F_RDLCK :: int where "F_RDLCK \<equiv> 0"
abbreviation (input) F_UNLCK :: int where "F_UNLCK \<equiv> 2"
abbreviation (input) LOCK_SH :: flagword where "LOCK_SH \<equiv> 1"
abbreviation (input) LOCK_EX :: flagword where "LOCK_EX \<equiv> 2"
abbreviation (input) LOCK_NB :: flagword where "LOCK_NB \<equiv> 4"
abbreviation (input) LOCK_UN :: flagword where "LOCK_UN \<equiv> 8"

section \<open>Opening\<close>

text \<open>
  \<open>okm_lock(); int fd = okm_fd_alloc(0); if (fd >= 0) fd = okm_fd_bind(fd, \<dots>)\<close>, as every opening
  call makes it.
\<close>

definition new_fd ::
  "'e kal \<Rightarrow> kal_uintptr \<Rightarrow> okm_kind \<Rightarrow> kal_stream \<Rightarrow> kal_file \<Rightarrow> kal_dir \<Rightarrow> flagword \<Rightarrow> 'e okm
     \<Rightarrow> int \<times> 'e okm" where
  "new_fd K me kind stream fl dir flags s =
     (let fd = okm_fd_alloc 0 s
      in if 0 \<le> fd then okm_fd_bind K me fd kind stream fl dir flags s else (fd, s))"

text \<open>The file is open: it is given a descriptor, or closed again.\<close>

definition open_file_end :: "'e kal \<Rightarrow> kal_uintptr \<Rightarrow> flagword \<Rightarrow> kal_file \<Rightarrow> 'e okm \<Rightarrow> int \<times> 'e okm" where
  "open_file_end K me flags f s =
     (case new_fd K me OKM_FILE (fs_stream K f) f 0 flags s of
        (fd, s1) \<Rightarrow>
          let s2 = okm_unlock K me s1
          in (fd, if fd < 0 then s2\<lparr>env := fs_close_file K f (env s2)\<rparr> else s2))"

text \<open>The end of \<open>do_openat\<close>, once a directory was asked for: \<open>r\<close> is the answer of
  \<open>okm_fs_open_dir\<close>. The directory is remembered by its absolute name where it has one.\<close>

definition open_dir_end ::
  "'e kal \<Rightarrow> kal_uintptr \<Rightarrow> int \<Rightarrow> string option \<Rightarrow> flagword \<Rightarrow> kal_error + kal_dir \<Rightarrow> 'e okm
     \<Rightarrow> int \<times> 'e okm" where
  "open_dir_end K me dirfd pathp flags r s =
     (case r of
        Inl e \<Rightarrow> (- okm_errno e, s)
      | Inr d \<Rightarrow>
          let named_as = okm_absolute s dirfd pathp OKM_MAX_PATH in
          (case new_fd K me OKM_DIR 0 0 d flags s of
             (fd, s1) \<Rightarrow>
               let s2 = (case named_as of
                           Inr absn \<Rightarrow> if 0 \<le> fd then okm_dir_remember K fd absn s1 else s1
                         | Inl _ \<Rightarrow> s1);
                   s3 = okm_unlock K me s2
               in (fd, if fd < 0 then s3\<lparr>env := fs_close_dir K d (env s3)\<rparr> else s3)))"

definition is_link :: "'e kal \<Rightarrow> okm_at \<Rightarrow> 'e okm \<Rightarrow> bool" where
  "is_link K at s \<longleftrightarrow>
     (case fs_info K (at_base at) (at_rel at) True {KAL_INFO_KIND} (env s) of
        Inr i \<Rightarrow> ni_kind i = kal_node_link
      | Inl _ \<Rightarrow> False)"

definition do_openat ::
  "'e kal \<Rightarrow> kal_uintptr \<Rightarrow> int \<Rightarrow> string option \<Rightarrow> flagword \<Rightarrow> 'e okm \<Rightarrow> int \<times> 'e okm" where
  "do_openat K me dirfd pathp flags s =
     (if okm_null_name s dirfd pathp then
        (if has flags O_DIRECTORY then (- ENOTDIR, s)
         else if flags AND (O_CREAT OR O_EXCL) = O_CREAT OR O_EXCL then (- EEXIST, s)
         else case new_fd K me OKM_NULL 0 0 0 flags s of (fd, s1) \<Rightarrow> (fd, okm_unlock K me s1))
      else case okm_resolve s dirfd pathp False of
        Inl r \<Rightarrow> (r, s)
      | Inr at \<Rightarrow>
          if has flags O_NOFOLLOW \<and> is_link K at s then (- ELOOP, s)
          else if has flags O_DIRECTORY then
            (case fs_open_dir K (at_base at) (at_rel at) (env s) of
               (r, e1) \<Rightarrow> open_dir_end K me dirfd pathp flags r (s\<lparr>env := e1\<rparr>))
          else case fs_open K (at_base at) (at_rel at) (okm_open_flags flags) (env s) of
            (Inr f, e1) \<Rightarrow> open_file_end K me flags f (s\<lparr>env := e1\<rparr>)
          | (Inl e, e1) \<Rightarrow>
              if e = kal_err_is_directory then
                (case fs_open_dir K (at_base at) (at_rel at) e1 of
                   (r, e2) \<Rightarrow> open_dir_end K me dirfd pathp flags r (s\<lparr>env := e2\<rparr>))
              else (- okm_errno e, s\<lparr>env := e1\<rparr>))"

section \<open>Closing and duplicating\<close>

definition sys_close :: "'e kal \<Rightarrow> kal_uintptr \<Rightarrow> int \<Rightarrow> 'e okm \<Rightarrow> int \<times> 'e okm" where
  "sys_close K me fd s =
     (case okm_desc_of fd s of
        None \<Rightarrow> (- EBADF, okm_unlock K me s)
      | Some d \<Rightarrow> (0, okm_unlock K me (okm_fd_release K me fd s)))"

definition locked_dup ::
  "'e kal \<Rightarrow> kal_uintptr \<Rightarrow> int \<Rightarrow> int \<Rightarrow> int \<Rightarrow> 'e okm \<Rightarrow> int \<times> 'e okm" where
  "locked_dup K me fd newfd cloexec s =
     (case okm_fd_dup K me fd newfd cloexec s of (r, s1) \<Rightarrow> (r, okm_unlock K me s1))"

definition sys_dup :: "'e kal \<Rightarrow> kal_uintptr \<Rightarrow> int \<Rightarrow> 'e okm \<Rightarrow> int \<times> 'e okm" where
  "sys_dup K me fd s = locked_dup K me fd (-1) 0 s"

definition sys_dup2 :: "'e kal \<Rightarrow> kal_uintptr \<Rightarrow> int \<Rightarrow> int \<Rightarrow> 'e okm \<Rightarrow> int \<times> 'e okm" where
  "sys_dup2 K me fd newfd s = locked_dup K me fd newfd 0 s"

definition sys_dup3 :: "'e kal \<Rightarrow> kal_uintptr \<Rightarrow> int \<Rightarrow> int \<Rightarrow> flagword \<Rightarrow> 'e okm \<Rightarrow> int \<times> 'e okm" where
  "sys_dup3 K me fd newfd flags s = locked_dup K me fd newfd (if has flags O_CLOEXEC then 1 else 0) s"

section \<open>Pipes\<close>

definition channel_close :: "'e kal \<Rightarrow> kal_stream \<Rightarrow> 'e okm \<Rightarrow> 'e okm" where
  "channel_close K st s =
     (case process_channel_close K of None \<Rightarrow> s | Some cl \<Rightarrow> s\<lparr>env := cl st (env s)\<rparr>)"

definition sys_pipe2 ::
  "'e kal \<Rightarrow> kal_uintptr \<Rightarrow> bool \<Rightarrow> flagword \<Rightarrow> 'e okm \<Rightarrow> (int + int \<times> int) \<times> 'e okm" where
  "sys_pipe2 K me out flags s =
     (if \<not> out then (Inl (- EFAULT), s)
      else if flags AND NOT (O_CLOEXEC OR O_NONBLOCK) \<noteq> 0 then (Inl (- EINVAL), s)
      else if has flags O_NONBLOCK \<and> \<not> okm_can_bound K then (Inl (- ENOSYS), s)
      else case process_channel K of
        None \<Rightarrow> (Inl (- ENOSYS), s)
      | Some ch \<Rightarrow>
          (case ch (env s) of
             (Inl e, e1) \<Rightarrow> (Inl (- okm_errno e), s\<lparr>env := e1\<rparr>)
           | (Inr (mine, theirs), e1) \<Rightarrow>
               let s1 = s\<lparr>env := e1\<rparr>; rfd = okm_fd_alloc 0 s1 in
               if rfd < 0
               then (Inl rfd, channel_close K theirs (channel_close K mine (okm_unlock K me s1)))
               else
                 let s2 = snd (okm_fd_bind K me rfd OKM_CHANNEL mine 0 0
                                 (O_RDONLY OR (flags AND O_NONBLOCK)) s1);
                     wfd = okm_fd_alloc 0 s2
                 in if wfd < 0 then (Inl wfd, channel_close K theirs (okm_unlock K me s2))
                    else
                      let s3 = snd (okm_fd_bind K me wfd OKM_CHANNEL theirs 0 0
                                      (O_WRONLY OR (flags AND O_NONBLOCK)) s2);
                          s4 = (if has flags O_CLOEXEC
                                then snd (okm_fd_cloexec wfd True (snd (okm_fd_cloexec rfd True s3)))
                                else s3)
                      in (Inr (rfd, wfd), okm_unlock K me s4)))"

section \<open>Position, length and the name of the working directory\<close>

definition sys_lseek :: "'e kal \<Rightarrow> int \<Rightarrow> int \<Rightarrow> int \<Rightarrow> 'e okm \<Rightarrow> int \<times> 'e okm" where
  "sys_lseek K fd off whence s =
     (case okm_desc_of fd s of
        None \<Rightarrow> (- EBADF, s)
      | Some d \<Rightarrow>
          if d_kind (g_desc s d) = OKM_NULL then (0, s)
          else if d_kind (g_desc s d) \<noteq> OKM_FILE then (- ESPIPE, s)
          else case fs_seek K (d_file (g_desc s d)) off whence (env s) of
            (Inl e, e1) \<Rightarrow> (- okm_errno e, s\<lparr>env := e1\<rparr>)
          | (Inr at, e1) \<Rightarrow> (sint at, s\<lparr>env := e1\<rparr>))"

definition sys_ftruncate :: "'e kal \<Rightarrow> int \<Rightarrow> int \<Rightarrow> 'e okm \<Rightarrow> int \<times> 'e okm" where
  "sys_ftruncate K fd len s =
     (case okm_desc_of fd s of
        None \<Rightarrow> (- EBADF, s)
      | Some d \<Rightarrow>
          if d_kind (g_desc s d) = OKM_NULL then (- EINVAL, s)
          else if d_kind (g_desc s d) \<noteq> OKM_FILE then (- EBADF, s)
          else case fs_truncate K (d_file (g_desc s d)) (of_int len) (env s) of
            (e, e1) \<Rightarrow> (if e = kal_ok then 0 else - okm_errno e, s\<lparr>env := e1\<rparr>))"

text \<open>The name with its terminator goes to the buffer; the answer is the count of both.\<close>

definition sys_getcwd :: "nat \<Rightarrow> 'e okm \<Rightarrow> int + string" where
  "sys_getcwd cap s = (if cap < length (g_cwd s) + 1 then Inl (- ERANGE) else Inr (g_cwd s))"

section \<open>fcntl and flock\<close>

record flock =
  l_type :: int
  l_whence :: int
  l_start :: int
  l_len :: int

text \<open>The byte-range forms: where the range begins, then the lock or its release.\<close>

definition lock_start :: "'e kal \<Rightarrow> kal_file \<Rightarrow> flock \<Rightarrow> 'e okm \<Rightarrow> kal_uintptr option \<times> 'e okm" where
  "lock_start K f fl s =
     (if l_whence fl = SEEK_SET then (Some (of_int (l_start fl)), s)
      else if l_whence fl = SEEK_CUR then
        (case fs_seek K f 0 SEEK_CUR (env s) of
           (Inl e, e1) \<Rightarrow> (None, s\<lparr>env := e1\<rparr>)
         | (Inr here, e1) \<Rightarrow> (Some (here + of_int (l_start fl)), s\<lparr>env := e1\<rparr>))
      else (None, s))"

definition fcntl_setlk :: "'e kal \<Rightarrow> nat \<Rightarrow> bool \<Rightarrow> flock option \<Rightarrow> 'e okm \<Rightarrow> int \<times> 'e okm" where
  "fcntl_setlk K d wait flp s =
     (if d_kind (g_desc s d) \<noteq> OKM_FILE then (- EBADF, s)
      else case flp of
        None \<Rightarrow> (- EFAULT, s)
      | Some fl \<Rightarrow>
          (case lock_start K (d_file (g_desc s d)) fl s of
             (None, s1) \<Rightarrow> (- EINVAL, s1)
           | (Some start, s1) \<Rightarrow>
               let len = of_int (l_len fl) in
               if l_type fl = F_UNLCK then
                 (case fs_unlock K (d_file (g_desc s d)) start len (env s1) of
                    (e, e2) \<Rightarrow> (if e = kal_ok then 0 else - okm_errno e, s1\<lparr>env := e2\<rparr>))
               else
                 let mode = {if l_type fl = F_RDLCK then KAL_LOCK_SHARED else KAL_LOCK_EXCLUSIVE}
                            \<union> (if wait then {KAL_LOCK_WAIT} else {})
                 in (case fs_lock K (d_file (g_desc s d)) start len mode (env s1) of
                       (e, e2) \<Rightarrow> (if e = kal_ok then 0 else - okm_errno e, s1\<lparr>env := e2\<rparr>))))"

definition fcntl_dupfd :: "'e kal \<Rightarrow> kal_uintptr \<Rightarrow> int \<Rightarrow> int \<Rightarrow> int \<Rightarrow> 'e okm \<Rightarrow> int \<times> 'e okm" where
  "fcntl_dupfd K me fd arg cloexec s =
     (let nfd = okm_fd_alloc arg s;
          (r, s1) = (if nfd < 0 then (nfd, s) else okm_fd_dup K me fd nfd cloexec s)
      in (r, okm_unlock K me s1))"

definition fcntl_setfl :: "'e kal \<Rightarrow> nat \<Rightarrow> flagword \<Rightarrow> 'e okm \<Rightarrow> int \<times> 'e okm" where
  "fcntl_setfl K d want s =
     (let p = g_desc s d in
      if has want O_NONBLOCK \<and> \<not> has (d_flags p) O_NONBLOCK \<and> \<not> okm_can_bound K
      then (- ENOSYS, s)
      else (0, set_desc d (p\<lparr>d_flags := (d_flags p AND NOT (O_APPEND OR O_NONBLOCK))
                                        OR (want AND (O_APPEND OR O_NONBLOCK))\<rparr>) s))"

definition sys_fcntl ::
  "'e kal \<Rightarrow> kal_uintptr \<Rightarrow> int \<Rightarrow> int \<Rightarrow> int \<Rightarrow> flock option \<Rightarrow> 'e okm \<Rightarrow> int \<times> 'e okm" where
  "sys_fcntl K me fd cmd arg flp s =
     (case okm_desc_of fd s of
        None \<Rightarrow> (- EBADF, s)
      | Some d \<Rightarrow>
          if cmd = F_DUPFD then fcntl_dupfd K me fd arg 0 s
          else if cmd = F_DUPFD_CLOEXEC then fcntl_dupfd K me fd arg 1 s
          else if cmd = F_GETFD then (if okm_fd_get_cloexec fd s \<noteq> 0 then 1 else 0, s)
          else if cmd = F_SETFD then okm_fd_cloexec fd (has (of_int arg) FD_CLOEXEC) s
          else if cmd = F_GETFL then (sint (d_flags (g_desc s d)), s)
          else if cmd = F_SETFL then fcntl_setfl K d (of_int arg) s
          else if cmd = F_SETLK \<or> cmd = F_SETLKW \<or> cmd = F_OFD_SETLK \<or> cmd = F_OFD_SETLKW
          then fcntl_setlk K d (cmd = F_SETLKW \<or> cmd = F_OFD_SETLKW) flp s
          else if cmd = F_GETLK \<or> cmd = F_OFD_GETLK then (- ENOSYS, s)
          else (- EINVAL, s))"

definition sys_flock :: "'e kal \<Rightarrow> int \<Rightarrow> flagword \<Rightarrow> 'e okm \<Rightarrow> int \<times> 'e okm" where
  "sys_flock K fd how s =
     (case okm_desc_of fd s of
        None \<Rightarrow> (- EBADF, s)
      | Some d \<Rightarrow>
          if d_kind (g_desc s d) \<noteq> OKM_FILE then (- EINVAL, s)
          else let opr = how AND NOT LOCK_NB; f = d_file (g_desc s d) in
            if opr = LOCK_UN then
              (case fs_unlock K f 0 0 (env s) of
                 (e, e1) \<Rightarrow> (if e = kal_ok then 0 else - okm_errno e, s\<lparr>env := e1\<rparr>))
            else if opr \<noteq> LOCK_SH \<and> opr \<noteq> LOCK_EX then (- EINVAL, s)
            else
              let mode = {if opr = LOCK_SH then KAL_LOCK_SHARED else KAL_LOCK_EXCLUSIVE}
                         \<union> (if has how LOCK_NB then {} else {KAL_LOCK_WAIT})
              in (case fs_lock K f 0 0 mode (env s) of
                    (e, e1) \<Rightarrow> (if e = kal_ok then 0 else - okm_errno e, s\<lparr>env := e1\<rparr>)))"

section \<open>Every handle the environment holds open is owned by one description\<close>

text \<open>
  The handles openkal gives a descriptor, and what the port relies on: an operation that opens adds
  the handle it answers to those open (\<open>opened e\<close>, each as often as it was given out), one that
  fails adds nothing, a close removes one, and every other operation leaves them alone.
\<close>

datatype handle = HFile kal_file | HDir kal_dir | HChannel kal_stream

definition adds :: "('e \<Rightarrow> 'h multiset) \<Rightarrow> ('a \<Rightarrow> 'h multiset) \<Rightarrow> 'e \<Rightarrow> (kal_error + 'a) \<times> 'e \<Rightarrow> bool" where
  "adds opened h e r \<longleftrightarrow> opened (snd r) = opened e + (case fst r of Inl _ \<Rightarrow> {#} | Inr x \<Rightarrow> h x)"

definition ledger :: "'e kal \<Rightarrow> ('e \<Rightarrow> handle multiset) \<Rightarrow> bool" where
  "ledger K opened \<longleftrightarrow>
     (\<forall>d n fl e. adds opened (\<lambda>f. {#HFile f#}) e (fs_open K d n fl e))
   \<and> (\<forall>d n e. adds opened (\<lambda>f. {#HDir f#}) e (fs_open_dir K d n e))
   \<and> (\<forall>ch e. process_channel K = Some ch \<longrightarrow>
        adds opened (\<lambda>(a, b). {#HChannel a, HChannel b#}) e (ch e))
   \<and> (\<forall>f e. opened (fs_close_file K f e) = opened e - {#HFile f#})
   \<and> (\<forall>d e. opened (fs_close_dir K d e) = opened e - {#HDir d#})
   \<and> (\<exists>cl. process_channel_close K = Some cl \<and> (\<forall>c e. opened (cl c e) = opened e - {#HChannel c#}))
   \<and> (\<forall>N c e. K_net K = Some N \<longrightarrow>
        opened (net_close N c e) = opened e \<and> opened (net_close_listener N c e) = opened e)
   \<and> (\<forall>D c e. K_dgram K = Some D \<longrightarrow> opened (dgram_close D c e) = opened e)
   \<and> (\<forall>f o' w e. opened (snd (fs_seek K f o' w e)) = opened e)
   \<and> (\<forall>f n e. opened (snd (fs_truncate K f n e)) = opened e)
   \<and> (\<forall>f a b m e. opened (snd (fs_lock K f a b m e)) = opened e
        \<and> opened (snd (fs_unlock K f a b e)) = opened e)"

definition owns :: "okm_desc \<Rightarrow> handle multiset" where
  "owns p = (case d_kind p of
       OKM_FILE \<Rightarrow> {#HFile (d_file p)#}
     | OKM_DIR \<Rightarrow> {#HDir (d_dir p)#}
     | OKM_CHANNEL \<Rightarrow> {#HChannel (d_stream p)#}
     | _ \<Rightarrow> {#})"

definition live_owns :: "okm_desc \<Rightarrow> handle multiset" where
  "live_owns p = (if 0 < d_refs p then owns p else {#})"

definition held_open :: "'e okm \<Rightarrow> handle multiset" where
  "held_open s = (\<Sum>d<OKM_MAX_DESC. live_owns (g_desc s d)) + (\<Sum>p\<leftarrow>g_settling s. owns (snd p))"

text \<open>The account: what is open is what is owned, and the handles \<open>h\<close> a call has yet to bind or close.\<close>

definition accounted :: "('e \<Rightarrow> handle multiset) \<Rightarrow> handle multiset \<Rightarrow> 'e okm \<Rightarrow> bool" where
  "accounted opened h s \<longleftrightarrow> opened (env s) = held_open s + h"

lemma ledgerD:
  assumes "ledger K opened"
  shows "opened (snd (fs_open K d n fl e)) =
      opened e + (case fst (fs_open K d n fl e) of Inl _ \<Rightarrow> {#} | Inr f \<Rightarrow> {#HFile f#})"
    "opened (snd (fs_open_dir K d n e)) =
      opened e + (case fst (fs_open_dir K d n e) of Inl _ \<Rightarrow> {#} | Inr f \<Rightarrow> {#HDir f#})"
    "opened (fs_close_file K f e) = opened e - {#HFile f#}"
    "opened (fs_close_dir K d e) = opened e - {#HDir d#}"
    "opened (snd (fs_seek K f off w e)) = opened e"
    "opened (snd (fs_truncate K f len e)) = opened e"
    "opened (snd (fs_lock K f a b m e)) = opened e"
    "opened (snd (fs_unlock K f a b e)) = opened e"
  using assms by (simp_all add: ledger_def adds_def)

lemma ledger_channel:
  assumes "ledger K opened" "process_channel K = Some ch"
  shows "opened (snd (ch e)) =
    opened e + (case fst (ch e) of Inl _ \<Rightarrow> {#} | Inr (a, b) \<Rightarrow> {#HChannel a, HChannel b#})"
  using assms by (simp add: ledger_def adds_def)

lemma channel_close_opened:
  "ledger K opened \<Longrightarrow> opened (env (channel_close K c s)) = opened (env s) - {#HChannel c#}"
  unfolding ledger_def channel_close_def by auto

lemma okm_sock_release_opened:
  assumes "ledger K opened"
  shows "opened (env (okm_sock_release K slot s)) = opened (env s)"
proof -
  have "\<And>N c e. K_net K = Some N \<Longrightarrow> opened (net_close N c e) = opened e"
    "\<And>N c e. K_net K = Some N \<Longrightarrow> opened (net_close_listener N c e) = opened e"
    "\<And>D c e. K_dgram K = Some D \<Longrightarrow> opened (dgram_close D c e) = opened e"
    using assms unfolding ledger_def by blast+
  then show ?thesis
    by (simp add: okm_sock_release_def close_sock_state_def close_sock_pending_def Let_def
        split: sock_state.split option.split)
qed

lemma close_owned_opened:
  assumes "ledger K opened"
  shows "opened (env (close_owned K p s)) = opened (env s) - owns p"
  using ledgerD(3,4) [OF assms] okm_sock_release_opened [OF assms] channel_close_opened [OF assms, of "d_stream p" s]
  by (simp add: close_owned_def owns_def channel_close_def split: okm_kind.split option.splits)

lemma held_open_cong:
  "g_desc s = g_desc t \<Longrightarrow> g_settling s = g_settling t \<Longrightarrow> held_open s = held_open t"
  by (simp add: held_open_def)

lemma held_open_set_desc:
  assumes "d < OKM_MAX_DESC"
  shows "held_open (s\<lparr>g_desc := (g_desc s)(d := p)\<rparr>) + live_owns (g_desc s d) = held_open s + live_owns p"
proof -
  have "(\<Sum>i<OKM_MAX_DESC. live_owns (((g_desc s)(d := p)) i)) =
      live_owns p + (\<Sum>i \<in> {..<OKM_MAX_DESC} - {d}. live_owns (g_desc s i))"
    using assms by (subst sum.remove [of _ d]) (auto intro!: sum.cong)
  moreover have "(\<Sum>i<OKM_MAX_DESC. live_owns (g_desc s i)) =
      live_owns (g_desc s d) + (\<Sum>i \<in> {..<OKM_MAX_DESC} - {d}. live_owns (g_desc s i))"
    using assms by (subst sum.remove [of _ d]) auto
  ultimately show ?thesis by (simp add: held_open_def ac_simps)
qed

lemma owns_refs [simp]: "owns (p\<lparr>d_refs := r\<rparr>) = owns p"
  by (cases "d_kind p") (simp_all add: owns_def)

lemma desc_release_accounted:
  assumes L: "ledger K opened" and A: "accounted opened h s" and d: "d < OKM_MAX_DESC" "0 < d_refs (g_desc s d)"
  shows "accounted opened h (desc_release K me (int d) s)"
proof -
  define p where "p = (g_desc s d)\<lparr>d_refs := d_refs (g_desc s d) - 1\<rparr>"
  define s1 where "s1 = s\<lparr>g_desc := (g_desc s)(d := p)\<rparr>"
  have h1: "held_open s1 + owns p = held_open s + live_owns p"
    using held_open_set_desc [OF d(1), of s p] d(2) by (simp add: s1_def p_def live_owns_def)
  show ?thesis
  proof (cases "0 < d_refs p")
    case True
    then have "desc_release K me (int d) s = s1"
      using d by (simp add: desc_release_def s1_def p_def Let_def)
    moreover have "held_open s1 = held_open s"
      using h1 True by (simp add: live_owns_def)
    ultimately show ?thesis using A by (simp add: accounted_def) (simp add: s1_def)
  next
    case False
    define t where "t = desc_release K me (int d) s"
    have t: "env t = env (settle K me p s1)" "g_settling t = g_settling (settle K me p s1)"
      "d_refs (g_desc t d) \<le> 0" "i \<noteq> d \<Longrightarrow> g_desc t i = g_desc s i" for i
      using d False by (simp_all add: t_def desc_release_def path_slot_clear_def Let_def s1_def p_def)
    have s: "opened (env s1) = held_open s1 + owns p + h"
      using A h1 False by (simp add: accounted_def live_owns_def) (simp add: s1_def)
    have eq: "(\<Sum>i<OKM_MAX_DESC. live_owns (g_desc t i)) = (\<Sum>i<OKM_MAX_DESC. live_owns (g_desc s1 i))"
      by (rule sum.cong) (use t(3,4) False in \<open>auto simp: s1_def live_owns_def\<close>)
    have "opened (env (settle K me p s1)) =
        (\<Sum>i<OKM_MAX_DESC. live_owns (g_desc s1 i)) + (\<Sum>q\<leftarrow>g_settling (settle K me p s1). owns (snd q)) + h"
      using s close_owned_opened [OF L, of p s1]
      by (cases "d_kind p") (simp_all add: settle_def held_open_def owns_def ac_simps)
    then show ?thesis
      unfolding t_def [symmetric] accounted_def held_open_def t(1,2) eq .
  qed
qed

lemma fold_close_owned_opened:
  "ledger K opened \<Longrightarrow> opened (env (fold (close_owned K) ps s)) = opened (env s) - (\<Sum>p\<leftarrow>ps. owns p)"
  by (induction ps arbitrary: s) (simp_all add: close_owned_opened)

lemma sum_mset_filter_split:
  "(\<Sum>p\<in>#M. f p) = (\<Sum>p\<in>#filter_mset P M. f p) + (\<Sum>p\<in>#filter_mset (\<lambda>p. \<not> P p) M. f p)"
  for f :: "'a \<Rightarrow> 'b :: comm_monoid_add"
  by (induction M) (simp_all add: ac_simps)

lemma okm_unlock_accounted:
  assumes L: "ledger K opened" and A: "accounted opened h s"
  shows "accounted opened h (okm_unlock K me s)"
proof -
  obtain mine where u: "okm_unlock K me s =
       fold (close_owned K) mine (s\<lparr>g_settling := g_settling (okm_unlock K me s)\<rparr>)"
    and m: "mset mine = image_mset snd (filter_mset (\<lambda>p. fst p = me) (mset (g_settling s)))"
    using okm_unlock_closes by blast
  let ?w = "\<lambda>xs. \<Sum>p\<leftarrow>xs. owns (snd p)"
  have "opened (env (okm_unlock K me s)) = opened (env s) - (\<Sum>p\<leftarrow>mine. owns p)"
    by (subst u) (simp add: fold_close_owned_opened [OF L])
  moreover have "?w (g_settling s) = (\<Sum>p\<leftarrow>mine. owns p) + ?w (g_settling (okm_unlock K me s))"
  proof -
    have w: "?w xs = (\<Sum>p\<in>#mset xs. owns (snd p))" for xs :: "(kal_uintptr \<times> okm_desc) list"
      by (simp flip: sum_mset_sum_list)
    have "(\<Sum>p\<leftarrow>mine. owns p) = (\<Sum>p\<in>#mset mine. owns p)"
      by (simp flip: sum_mset_sum_list)
    also have "\<dots> = (\<Sum>p\<in>#filter_mset (\<lambda>p. fst p = me) (mset (g_settling s)). owns (snd p))"
      unfolding m by (simp add: multiset.map_comp comp_def)
    finally show ?thesis
      unfolding w okm_unlock_settling
      by (simp add: sum_mset_filter_split [of _ "mset (g_settling s)" "\<lambda>p. fst p = me"])
  qed
  ultimately show ?thesis using A by (simp add: accounted_def held_open_def)
qed

lemma okm_fd_release_accounted:
  assumes "ledger K opened" "accounted opened h s" "table_inv s"
  shows "accounted opened h (okm_fd_release K me fd s)"
proof (cases "okm_desc_of fd s")
  case None
  then have "okm_fd_release K me fd s = s"
    by (auto simp: okm_fd_release_def okm_desc_of_def Let_def split: if_splits)
  with assms show ?thesis by simp
next
  case (Some d)
  let ?s = "s\<lparr>g_fd := (g_fd s)(nat fd := \<lparr>fd_desc = OKM_FD_FREE, fd_cloexec = 0\<rparr>)\<rparr>"
  have "d < OKM_MAX_DESC" "0 < d_refs (g_desc s d)"
    using okm_desc_of_live [OF assms(3) Some] by (simp_all add: live_def)
  moreover have "okm_fd_release K me fd s = desc_release K me (int d) ?s"
    using Some by (simp add: okm_desc_of_fd okm_fd_release_def)
  moreover have "accounted opened h ?s"
    using assms(2) by (simp add: accounted_def held_open_def)
  ultimately show ?thesis
    using desc_release_accounted [OF assms(1), of h ?s d me] by simp
qed

lemma okm_fd_dup_accounted:
  assumes L: "ledger K opened" and A: "accounted opened h s" and inv: "table_inv s"
  shows "accounted opened h (snd (okm_fd_dup K me fd newfd0 cloexec s))"
proof -
  define newfd where "newfd = (if newfd0 < 0 then okm_fd_alloc 0 s else newfd0)"
  show ?thesis
  proof (cases "okm_desc_of fd s \<noteq> None \<and> fd_in_range newfd \<and> newfd \<noteq> fd")
    case False
    then have "snd (okm_fd_dup K me fd newfd0 cloexec s) = s"
      by (auto simp: okm_fd_dup_def okm_desc_of_def Let_def fd_in_range_def simp flip: newfd_def split: if_splits)
    with A show ?thesis by simp
  next
    case True
    then obtain d where d: "okm_desc_of fd s = Some d" by auto
    then have fd: "fd_in_range fd" "fd_desc (g_fd s (nat fd)) = int d" by (simp_all add: okm_desc_of_fd)
    define s1 where "s1 = (if 0 \<le> fd_desc (g_fd s (nat newfd))
        then desc_release K me (fd_desc (g_fd s (nat newfd))) s else s)"
    have l: "d < OKM_MAX_DESC" "0 < d_refs (g_desc s d)"
      using okm_desc_of_live [OF inv d] by (simp_all add: live_def)
    have s1: "accounted opened h s1 \<and> 0 < d_refs (g_desc s1 d)"
    proof (cases "okm_desc_of newfd s")
      case None
      then have "s1 = s" using True by (auto simp: s1_def okm_desc_of_def Let_def)
      with A l show ?thesis by simp
    next
      case (Some c)
      then have c: "fd_desc (g_fd s (nat newfd)) = int c" by (simp add: okm_desc_of_fd)
      have lc: "c < OKM_MAX_DESC" "0 < d_refs (g_desc s c)"
        using okm_desc_of_live [OF inv Some] by (simp_all add: live_def)
      have "c = d \<Longrightarrow> 1 < d_refs (g_desc s d)"
        using refcount_two [of "nat fd" "nat newfd" s d] inv fd c True l(1)
        by (auto simp: table_inv_def table_inv_x_def refs_ok_def fd_in_range_def)
      then show ?thesis
        using desc_release_accounted [OF L A lc, of me] desc_release_refs [OF lc l(1), of K me] l(2)
        by (auto simp: s1_def c)
    qed
    let ?p = "(g_desc s1 d)\<lparr>d_refs := d_refs (g_desc s1 d) + 1\<rparr>"
    have "held_open (s1\<lparr>g_desc := (g_desc s1)(d := ?p)\<rparr>) = held_open s1"
      using held_open_set_desc [OF l(1), of s1 ?p] s1 by (simp add: live_owns_def)
    then have "accounted opened h (s1\<lparr>g_desc := (g_desc s1)(d := ?p)\<rparr>)"
      using s1 by (simp add: accounted_def)
    moreover have "snd (okm_fd_dup K me fd newfd0 cloexec s) =
        s1\<lparr>g_desc := (g_desc s1)(d := ?p), g_fd := (g_fd s1)(nat newfd := \<lparr>fd_desc = int d, fd_cloexec = cloexec\<rparr>)\<rparr>"
      using True fd by (simp add: okm_fd_dup_def Let_def fd_in_range_def s1_def flip: newfd_def)
    ultimately show ?thesis
      by (simp add: accounted_def held_open_def)
  qed
qed

text \<open>A descriptor taken: it was free, the lowest that was, and a description that was free is its
  description; otherwise there was none and nothing changed.\<close>

lemma new_fd_cases:
  assumes "table_inv s" "new_fd K me kind stream fl dir flags s = (fd, t)"
  obtains (none) "okm_fd_alloc 0 s < 0" "fd = - EMFILE" "t = s"
  | (bound) d where "0 \<le> fd" "fd = okm_fd_alloc 0 s" "fd_in_range fd" "okm_desc_of fd s = None"
      "d < OKM_MAX_DESC" "d_refs (g_desc s d) = 0"
      "t = s\<lparr>g_desc := (g_desc s)(d := bound_desc kind stream fl dir flags (g_desc s d)),
             g_fd := (g_fd s)(nat fd :=
               \<lparr>fd_desc = int d, fd_cloexec = (if has flags O_CLOEXEC then 1 else 0)\<rparr>)\<rparr>"
proof (cases "0 \<le> okm_fd_alloc 0 s")
  case False
  then have "okm_fd_alloc 0 s = - EMFILE" using okm_fd_alloc_neg [of 0 s] by linarith
  moreover from False have "(fd, t) = (okm_fd_alloc 0 s, s)"
    using assms(2) by (auto simp: new_fd_def Let_def)
  ultimately show ?thesis using none by simp
next
  case True
  let ?fd = "okm_fd_alloc 0 s"
  have f: "fd_in_range ?fd" "fd_desc (g_fd s (nat ?fd)) = OKM_FD_FREE"
    using True fd_alloc_in_range okm_fd_alloc_free by blast+
  obtain d where d: "d < OKM_MAX_DESC" "d_refs (g_desc s d) = 0"
    and eq: "okm_fd_bind K me ?fd kind stream fl dir flags s =
       (?fd, s\<lparr>g_desc := (g_desc s)(d := bound_desc kind stream fl dir flags (g_desc s d)),
              g_fd := (g_fd s)(nat ?fd :=
                \<lparr>fd_desc = int d, fd_cloexec = (if has flags O_CLOEXEC then 1 else 0)\<rparr>)\<rparr>)"
    by (rule okm_fd_bind_free [OF assms(1) f])
  have "new_fd K me kind stream fl dir flags s = okm_fd_bind K me ?fd kind stream fl dir flags s"
    using True by (simp add: new_fd_def)
  then show ?thesis
    using bound [of d] d True f assms(2) eq fd_alloc_refers_none [OF True] by simp
qed

lemma owns_bound:
  "owns (bound_desc kind stream fl dir flags p) =
     owns (zero_desc\<lparr>d_kind := kind, d_stream := stream, d_file := fl, d_dir := dir\<rparr>)"
  "live_owns (bound_desc kind stream fl dir flags p) = owns (bound_desc kind stream fl dir flags p)"
  by (cases kind; simp add: owns_def live_owns_def bound_desc_def)+

lemma bind_held:
  assumes "d < OKM_MAX_DESC" "d_refs (g_desc s d) = 0"
    "t = s\<lparr>g_desc := (g_desc s)(d := bound_desc kind stream fl dir flags (g_desc s d)), g_fd := F\<rparr>"
  shows "held_open t = held_open s
     + owns (zero_desc\<lparr>d_kind := kind, d_stream := stream, d_file := fl, d_dir := dir\<rparr>)"
proof -
  have "held_open t = held_open (s\<lparr>g_desc := (g_desc s)(d := bound_desc kind stream fl dir flags (g_desc s d))\<rparr>)"
    by (rule held_open_cong) (simp_all add: assms(3))
  then show ?thesis
    using held_open_set_desc [OF assms(1), of s "bound_desc kind stream fl dir flags (g_desc s d)"] assms(2)
    by (simp add: owns_bound) (simp add: live_owns_def)
qed

lemma new_fd_held:
  assumes "table_inv s" "new_fd K me kind stream fl dir flags s = (fd, t)"
  shows "held_open t = held_open s + (if 0 \<le> fd
      then owns (zero_desc\<lparr>d_kind := kind, d_stream := stream, d_file := fl, d_dir := dir\<rparr>) else {#})"
    "env t = env s"
  using assms
  by (cases rule: new_fd_cases, simp, use bind_held in fastforce)+

lemma new_fd_inv:
  assumes "table_inv s" "kind \<noteq> OKM_FREE" "new_fd K me kind stream fl dir flags s = (fd, t)"
  shows "table_inv t"
  using okm_fd_bind_inv [OF assms(1,2), of K me "okm_fd_alloc 0 s" stream fl dir flags] assms
  by (auto simp: new_fd_def Let_def split: if_splits)

lemma okm_dir_remember_held:
  assumes "table_inv s"
  shows "held_open (okm_dir_remember K fd absn s) = held_open s" "env (okm_dir_remember K fd absn s) = env s"
proof -
  let ?t = "okm_dir_remember K fd absn s"
  have "env ?t = env s \<and> g_settling ?t = g_settling s \<and> (\<forall>i. live_owns (g_desc ?t i) = live_owns (g_desc s i))"
    by (auto simp: okm_dir_remember_def path_slot_alloc_def path_slot_clear_def Let_def live_owns_def owns_def
        split: option.split okm_kind.split)
  then show "held_open ?t = held_open s" "env ?t = env s"
    by (simp_all add: held_open_def)
qed

section \<open>The calls keep the account\<close>

text \<open>What the calls of this theory keep: the table's invariant and the account of the handles.\<close>

definition calls_inv :: "('e \<Rightarrow> handle multiset) \<Rightarrow> handle multiset \<Rightarrow> 'e okm \<Rightarrow> bool" where
  "calls_inv opened h s \<longleftrightarrow> table_inv s \<and> accounted opened h s"

lemma calls_inv_env:
  "calls_inv opened h s \<Longrightarrow> opened e + h = opened (env s) + g \<Longrightarrow> calls_inv opened g (s\<lparr>env := e\<rparr>)"
  using held_open_cong [of "s\<lparr>env := e\<rparr>" s]
  by (simp add: calls_inv_def accounted_def)

lemma calls_inv_same:
  "calls_inv opened h s \<Longrightarrow> opened e = opened (env s) \<Longrightarrow> calls_inv opened h (s\<lparr>env := e\<rparr>)"
  by (rule calls_inv_env) simp_all

lemma calls_inv_unlock:
  "ledger K opened \<Longrightarrow> calls_inv opened h s \<Longrightarrow> calls_inv opened h (okm_unlock K me s)"
  by (simp add: calls_inv_def okm_unlock_accounted okm_unlock_inv)

lemma calls_inv_new_fd:
  assumes "calls_inv opened (h + g) s" "kind \<noteq> OKM_FREE" "new_fd K me kind stream fl dir flags s = (fd, t)"
    "h = owns (zero_desc\<lparr>d_kind := kind, d_stream := stream, d_file := fl, d_dir := dir\<rparr>)"
  shows "calls_inv opened (if 0 \<le> fd then g else h + g) t"
  using assms new_fd_inv [of s kind K me stream fl dir flags fd t] new_fd_held [of s K me kind stream fl dir flags fd t]
  by (auto simp: calls_inv_def accounted_def)

lemma open_file_end_inv:
  assumes L: "ledger K opened" and I: "calls_inv opened {#HFile f#} s"
  shows "calls_inv opened {#} (snd (open_file_end K me flags f s))"
proof -
  obtain fd t where n: "new_fd K me OKM_FILE (fs_stream K f) f 0 flags s = (fd, t)" by fastforce
  have "calls_inv opened (if 0 \<le> fd then {#} else {#HFile f#} + {#}) t"
    by (rule calls_inv_new_fd [OF _ _ n]) (use I in \<open>simp_all add: owns_def\<close>)
  then have "calls_inv opened (if 0 \<le> fd then {#} else {#HFile f#}) t" by (cases "0 \<le> fd") simp_all
  then have u: "calls_inv opened (if 0 \<le> fd then {#} else {#HFile f#}) (okm_unlock K me t)"
    by (rule calls_inv_unlock [OF L])
  show ?thesis
  proof (cases "fd < 0")
    case True
    let ?u = "okm_unlock K me t"
    have v: "calls_inv opened {#HFile f#} ?u" using u True by simp
    then have "opened (env ?u) = held_open ?u + {#HFile f#}" by (simp add: calls_inv_def accounted_def)
    then have "calls_inv opened {#} (?u\<lparr>env := fs_close_file K f (env ?u)\<rparr>)"
      by (intro calls_inv_env [OF v]) (simp add: ledgerD(3) [OF L])
    with True show ?thesis by (simp add: open_file_end_def n Let_def)
  next
    case False
    with u show ?thesis by (simp add: open_file_end_def n Let_def)
  qed
qed

lemma open_dir_end_inv:
  assumes L: "ledger K opened" and I: "calls_inv opened (case r of Inr d \<Rightarrow> {#HDir d#} | Inl _ \<Rightarrow> {#}) s"
  shows "calls_inv opened {#} (snd (open_dir_end K me dirfd pathp flags r s))"
proof (cases r)
  case (Inl e)
  with I show ?thesis by (simp add: open_dir_end_def)
next
  case (Inr d)
  obtain fd t where n: "new_fd K me OKM_DIR 0 0 d flags s = (fd, t)" by fastforce
  define h where "h = (if 0 \<le> fd then {#} else {#HDir d#})"
  define t2 where "t2 = (case okm_absolute s dirfd pathp OKM_MAX_PATH of
      Inr absn \<Rightarrow> if 0 \<le> fd then okm_dir_remember K fd absn t else t | Inl _ \<Rightarrow> t)"
  have "calls_inv opened (if 0 \<le> fd then {#} else {#HDir d#} + {#}) t"
    by (rule calls_inv_new_fd [OF _ _ n]) (use I Inr in \<open>simp_all add: owns_def\<close>)
  then have "calls_inv opened h t" by (cases "0 \<le> fd") (simp_all add: h_def)
  then have "calls_inv opened h t2"
    by (auto simp: t2_def calls_inv_def accounted_def okm_dir_remember_held okm_dir_remember_inv split: sum.split)
  then have u: "calls_inv opened h (okm_unlock K me t2)"
    by (rule calls_inv_unlock [OF L])
  have eq: "snd (open_dir_end K me dirfd pathp flags r s) =
      (let t3 = okm_unlock K me t2 in if fd < 0 then t3\<lparr>env := fs_close_dir K d (env t3)\<rparr> else t3)"
    by (simp add: open_dir_end_def Inr n Let_def t2_def)
  show ?thesis
  proof (cases "fd < 0")
    case True
    let ?u = "okm_unlock K me t2"
    have v: "calls_inv opened {#HDir d#} ?u" using u True by (simp add: h_def)
    then have "opened (env ?u) = held_open ?u + {#HDir d#}" by (simp add: calls_inv_def accounted_def)
    then have "calls_inv opened {#} (?u\<lparr>env := fs_close_dir K d (env ?u)\<rparr>)"
      by (intro calls_inv_env [OF v]) (simp add: ledgerD(4) [OF L])
    with True show ?thesis by (simp add: eq Let_def)
  next
    case False
    with u show ?thesis by (simp add: eq h_def Let_def)
  qed
qed

lemma do_openat_inv:
  assumes L: "ledger K opened" and I: "calls_inv opened {#} s"
  shows "calls_inv opened {#} (snd (do_openat K me dirfd pathp flags s))"
proof -
  have null: "calls_inv opened {#} (okm_unlock K me t)" if n: "new_fd K me OKM_NULL 0 0 0 flags s = (fd, t)" for fd t
  proof (rule calls_inv_unlock [OF L])
    have "calls_inv opened (if 0 \<le> fd then {#} else {#} + {#}) t"
      by (rule calls_inv_new_fd [OF _ _ n]) (use I in \<open>simp_all add: owns_def\<close>)
    then show "calls_inv opened {#} t" by (simp split: if_splits)
  qed
  have dir: "calls_inv opened {#} (snd (open_dir_end K me dirfd pathp flags r (s\<lparr>env := e'\<rparr>)))"
    if "fs_open_dir K b n e = (r, e')" "opened e = opened (env s)" for b n e r e'
    by (intro open_dir_end_inv [OF L] calls_inv_env [OF I])
      (use ledgerD(2) [OF L, of b n e] that in \<open>simp split: sum.split\<close>)
  have fl: "calls_inv opened {#} (snd (open_file_end K me flags f (s\<lparr>env := e\<rparr>)))"
    if "fs_open K b n w (env s) = (Inr f, e)" for b n w f e
    by (intro open_file_end_inv [OF L] calls_inv_env [OF I])
      (use ledgerD(1) [OF L, of b n w "env s"] that in simp)
  have fail: "opened e = opened (env s)" if "fs_open K b n w (env s) = (Inl x, e)" for b n w x e
    using ledgerD(1) [OF L, of b n w "env s"] that by simp
  show ?thesis
  proof (cases "okm_null_name s dirfd pathp")
    case True
    with I null show ?thesis by (simp add: do_openat_def split: prod.split)
  next
    case False
    show ?thesis
    proof (cases "okm_resolve s dirfd pathp False")
      case (Inl r)
      with False I show ?thesis by (simp add: do_openat_def)
    next
      case (Inr at)
      obtain r1 e1 where o: "fs_open K (at_base at) (at_rel at) (okm_open_flags flags) (env s) = (r1, e1)" by fastforce
      obtain r2 e2 where d: "fs_open_dir K (at_base at) (at_rel at) (env s) = (r2, e2)" by fastforce
      obtain r3 e3 where d3: "fs_open_dir K (at_base at) (at_rel at) e1 = (r3, e3)" by fastforce
      note eq = do_openat_def if_not_P [OF False] Inr sum.case o d prod.case
      show ?thesis
      proof (cases r1)
        case (Inl x)
        then have same: "opened e1 = opened (env s)" using fail o by blast
        show ?thesis
          unfolding eq Inl d3
          using I dir [OF d] dir [OF d3 same] calls_inv_same [OF I same] by simp
      next
        case (Inr f)
        show ?thesis
          unfolding eq Inr using I dir [OF d] fl [OF o [unfolded Inr]] by simp
      qed
    qed
  qed
qed

lemma sys_close_inv:
  "ledger K opened \<Longrightarrow> calls_inv opened {#} s \<Longrightarrow> calls_inv opened {#} (snd (sys_close K me fd s))"
  by (auto simp: sys_close_def calls_inv_unlock split: option.split
      intro!: calls_inv_unlock) (simp add: calls_inv_def okm_fd_release_accounted okm_fd_release_inv)

lemma dup_inv:
  "ledger K opened \<Longrightarrow> calls_inv opened {#} s \<Longrightarrow> calls_inv opened {#} (snd (okm_fd_dup K me fd nfd c s))"
  by (simp add: calls_inv_def okm_fd_dup_accounted okm_fd_dup_inv)

lemma locked_dup_inv:
  "ledger K opened \<Longrightarrow> calls_inv opened {#} s \<Longrightarrow> calls_inv opened {#} (snd (locked_dup K me fd nfd c s))"
  using dup_inv [of K opened s me fd nfd c] by (simp add: locked_dup_def calls_inv_unlock case_prod_beta)

lemma calls_inv_set_desc:
  assumes "calls_inv opened h s" "okm_desc_of fd s = Some d"
    "d_refs p = d_refs (g_desc s d)" "d_kind p = d_kind (g_desc s d)" "d_path_slot p = d_path_slot (g_desc s d)"
    "owns p = owns (g_desc s d)"
  shows "calls_inv opened h (set_desc d p s)"
proof -
  have inv: "table_inv s" using assms(1) by (simp add: calls_inv_def)
  have d: "d < OKM_MAX_DESC" using okm_desc_of_live [OF inv assms(2)] by (simp add: live_def)
  have "held_open (set_desc d p s) = held_open s"
    using held_open_set_desc [OF d, of s p] assms(3,6) by (simp add: live_owns_def split: if_splits)
  then show ?thesis
    using assms(1) table_inv_set_desc [OF inv assms(3-5)] by (simp add: calls_inv_def accounted_def)
qed

lemma fcntl_dupfd_inv:
  "ledger K opened \<Longrightarrow> calls_inv opened {#} s \<Longrightarrow> calls_inv opened {#} (snd (fcntl_dupfd K me fd arg c s))"
  using dup_inv [of K opened s me fd "okm_fd_alloc arg s" c]
  by (simp add: fcntl_dupfd_def calls_inv_unlock Let_def case_prod_beta)

lemma lock_start_inv:
  "ledger K opened \<Longrightarrow> calls_inv opened {#} s \<Longrightarrow>
   calls_inv opened {#} (snd (lock_start K f fl s)) \<and> g_desc (snd (lock_start K f fl s)) = g_desc s"
  using ledgerD(5) [of K opened f 0 SEEK_CUR "env s"]
  by (auto simp: lock_start_def intro: calls_inv_same split: prod.split sum.split)

lemma fcntl_setlk_inv:
  assumes "ledger K opened" "calls_inv opened {#} s"
  shows "calls_inv opened {#} (snd (fcntl_setlk K d wait flp s))"
proof -
  have "calls_inv opened {#} s1" if "lock_start K f fl s = (r, s1)" for f fl r s1
    using lock_start_inv [OF assms, of f fl] that by simp
  moreover have "opened e' = opened e" if "fs_lock K f a b m e = (x, e')" for f a b m e x e'
    using ledgerD(7) [OF assms(1), of f a b m e] that by simp
  moreover have "opened e' = opened e" if "fs_unlock K f a b e = (x, e')" for f a b e x e'
    using ledgerD(8) [OF assms(1), of f a b e] that by simp
  ultimately show ?thesis
    using assms(2)
    by (auto simp: fcntl_setlk_def Let_def split: option.split prod.split intro!: calls_inv_same)
qed

lemma sys_fcntl_inv:
  assumes "ledger K opened" "calls_inv opened {#} s"
  shows "calls_inv opened {#} (snd (sys_fcntl K me fd cmd arg flp s))"
proof (cases "okm_desc_of fd s")
  case None
  with assms show ?thesis by (simp add: sys_fcntl_def)
next
  case (Some d)
  have "calls_inv opened {#} (snd (okm_fd_cloexec fd on s))" for on
    using assms(2) okm_fd_cloexec_inv [of s fd on]
    by (auto simp: calls_inv_def accounted_def held_open_def okm_fd_cloexec_def)
  moreover have "calls_inv opened {#} (snd (fcntl_setfl K d want s))" for want
    using assms(2)
    by (auto simp: fcntl_setfl_def Let_def owns_def split: okm_kind.split intro!: calls_inv_set_desc [OF _ Some])
  ultimately show ?thesis
    using assms by (simp add: sys_fcntl_def Some fcntl_dupfd_inv fcntl_setlk_inv)
qed

lemma position_inv:
  assumes "ledger K opened" "calls_inv opened {#} s"
  shows "calls_inv opened {#} (snd (sys_lseek K fd off w s))"
    "calls_inv opened {#} (snd (sys_ftruncate K fd len s))"
    "calls_inv opened {#} (snd (sys_flock K fd how s))"
proof -
  have "opened e' = opened e" if "fs_lock K f a b m e = (x, e')" for f a b m e x e'
    using ledgerD(7) [OF assms(1), of f a b m e] that by simp
  moreover have "opened e' = opened e" if "fs_unlock K f a b e = (x, e')" for f a b e x e'
    using ledgerD(8) [OF assms(1), of f a b e] that by simp
  moreover have "opened e' = opened e" if "fs_seek K f off w e = (x, e')" for f off w e x e'
    using ledgerD(5) [OF assms(1), of f off w e] that by simp
  moreover have "opened e' = opened e" if "fs_truncate K f n e = (x, e')" for f n e x e'
    using ledgerD(6) [OF assms(1), of f n e] that by simp
  ultimately show "calls_inv opened {#} (snd (sys_lseek K fd off w s))"
    "calls_inv opened {#} (snd (sys_ftruncate K fd len s))"
    "calls_inv opened {#} (snd (sys_flock K fd how s))"
    using assms(2)
    by (auto simp: sys_lseek_def sys_ftruncate_def sys_flock_def Let_def intro!: calls_inv_same
        split: option.split prod.split sum.split)
qed

lemma bind_is_new_fd:
  "0 \<le> okm_fd_alloc 0 s \<Longrightarrow>
   okm_fd_bind K me (okm_fd_alloc 0 s) kind stream fl dir flags s = new_fd K me kind stream fl dir flags s"
  by (simp add: new_fd_def)

lemma calls_inv_bind_channel:
  assumes "calls_inv opened (add_mset (HChannel c) g) s" "0 \<le> okm_fd_alloc 0 s"
  shows "calls_inv opened g (snd (okm_fd_bind K me (okm_fd_alloc 0 s) OKM_CHANNEL c 0 0 flags s))"
proof -
  obtain fd t where n: "new_fd K me OKM_CHANNEL c 0 0 flags s = (fd, t)" by fastforce
  have inv: "table_inv s" using assms(1) by (simp add: calls_inv_def)
  have "0 \<le> fd" using inv n assms(2) by (cases rule: new_fd_cases) simp_all
  moreover have "calls_inv opened (if 0 \<le> fd then g else {#HChannel c#} + g) t"
    by (rule calls_inv_new_fd [OF _ _ n]) (use assms in \<open>simp_all add: owns_def\<close>)
  ultimately show ?thesis using assms(2) n by (simp add: bind_is_new_fd)
qed

lemma channel_close_inv:
  assumes "ledger K opened" "calls_inv opened (add_mset (HChannel c) g) s"
  shows "calls_inv opened g (channel_close K c s)"
proof -
  have "opened (env s) = held_open s + add_mset (HChannel c) g"
    using assms(2) by (simp add: calls_inv_def accounted_def)
  moreover obtain e where "channel_close K c s = s\<lparr>env := e\<rparr>"
    using assms(1) by (auto simp: channel_close_def ledger_def)
  ultimately show ?thesis
    using calls_inv_env [OF assms(2), of e g] channel_close_opened [OF assms(1), of c s] by simp
qed

lemma sys_pipe2_inv:
  assumes L: "ledger K opened" and I: "calls_inv opened {#} s"
  shows "calls_inv opened {#} (snd (sys_pipe2 K me out flags s))"
proof (cases "process_channel K")
  case None
  with I show ?thesis by (simp add: sys_pipe2_def)
next
  case (Some ch)
  obtain r e1 where ch: "ch (env s) = (r, e1)" by fastforce
  have o: "opened e1 = opened (env s) + (case r of Inl _ \<Rightarrow> {#} | Inr (a, b) \<Rightarrow> {#HChannel a, HChannel b#})"
    using ledger_channel [OF L Some, of "env s"] ch by simp
  show ?thesis
  proof (cases r)
    case (Inl x)
    with o ch Some I show ?thesis by (simp add: sys_pipe2_def calls_inv_same)
  next
    case (Inr ab)
    obtain a b where ab: "ab = (a, b)" by fastforce
    let ?nb = "flags AND O_NONBLOCK"
    define s1 where "s1 = s\<lparr>env := e1\<rparr>"
    define s2 where "s2 = snd (okm_fd_bind K me (okm_fd_alloc 0 s1) OKM_CHANNEL a 0 0 (O_RDONLY OR ?nb) s1)"
    define s3 where "s3 = snd (okm_fd_bind K me (okm_fd_alloc 0 s2) OKM_CHANNEL b 0 0 (O_WRONLY OR ?nb) s2)"
    have i1: "calls_inv opened {#HChannel a, HChannel b#} s1"
      unfolding s1_def by (rule calls_inv_env [OF I]) (simp add: o Inr ab)
    have i2: "calls_inv opened {#HChannel b#} s2" if "0 \<le> okm_fd_alloc 0 s1"
      unfolding s2_def by (rule calls_inv_bind_channel [OF i1 that])
    have i3: "calls_inv opened {#} s3" if "0 \<le> okm_fd_alloc 0 s1" "0 \<le> okm_fd_alloc 0 s2"
      unfolding s3_def by (rule calls_inv_bind_channel [OF i2 [OF that(1)] that(2)])
    have cx: "calls_inv opened {#} (snd (okm_fd_cloexec fd on t))" if "calls_inv opened {#} t" for fd on t
      using that okm_fd_cloexec_inv [of t fd on]
      by (auto simp: calls_inv_def accounted_def held_open_def okm_fd_cloexec_def)
    note eq = sys_pipe2_def Some option.case ch Inr ab sum.case prod.case Let_def
    show ?thesis
      unfolding eq s1_def [symmetric] s2_def [symmetric] s3_def [symmetric]
      using I i1 i2 i3 cx L
      by (simp add: calls_inv_unlock channel_close_inv not_less)
  qed
qed

section \<open>The theorems\<close>

inductive call_step :: "'e kal \<Rightarrow> 'e okm \<Rightarrow> 'e okm \<Rightarrow> bool" for K where
  openat: "call_step K s (snd (do_openat K me dirfd pathp flags s))"
| close: "call_step K s (snd (sys_close K me fd s))"
| dup: "call_step K s (snd (sys_dup K me fd s))"
| dup2: "call_step K s (snd (sys_dup2 K me fd newfd s))"
| dup3: "call_step K s (snd (sys_dup3 K me fd newfd flags s))"
| pipe2: "call_step K s (snd (sys_pipe2 K me out flags s))"
| lseek: "call_step K s (snd (sys_lseek K fd off whence s))"
| ftruncate: "call_step K s (snd (sys_ftruncate K fd len s))"
| fcntl: "call_step K s (snd (sys_fcntl K me fd cmd arg flp s))"
| flock: "call_step K s (snd (sys_flock K fd how s))"

lemma call_step_inv:
  assumes "call_step K s t" "ledger K opened" "calls_inv opened {#} s"
  shows "calls_inv opened {#} t"
  using assms
  by (induction rule: call_step.induct)
    (simp_all add: do_openat_inv sys_close_inv sys_dup_def sys_dup2_def sys_dup3_def locked_dup_inv
      sys_pipe2_inv position_inv sys_fcntl_inv)

lemma calls_inv_init:
  assumes "opened e = {#}"
  shows "calls_inv opened {#} (okm_table_init K me (zero_okm e))"
proof -
  define t where "t = okm_table_init K me (zero_okm e)"
  have t: "g_desc t = g_desc (three_streams K e)" "g_settling t = []" "env t = e"
    unfolding t_def okm_table_init_eq Let_def by (simp_all add: three_streams_def zero_okm_def split: list.split)
  have "live_owns (g_desc t d) = {#}" for d
    by (auto simp: t three_streams_def live_owns_def owns_def bound_desc_def zero_desc_def)
  then have "held_open t = {#}" by (simp add: held_open_def t)
  then show ?thesis
    using assms table_init_inv [of K me e] t unfolding t_def [symmetric] by (simp add: calls_inv_def accounted_def)
qed

interpretation calls: invariant_system
  "\<lambda>s. ledger K opened \<and> (\<exists>me e. opened e = {#} \<and> s = okm_table_init K me (zero_okm e))"
  "\<lambda>s t. ledger K opened \<and> call_step K s t" "calls_inv opened {#}"
  for K :: "'e kal" and opened
  by unfold_locales (auto simp: calls_inv_init intro: call_step_inv)

text \<open>Between calls the queue of outstanding closes is empty: a call's own closes are the only ones in it, and
  its unlock makes them.\<close>

definition only_mine :: "kal_uintptr \<Rightarrow> 'e okm \<Rightarrow> bool" where
  "only_mine me s \<longleftrightarrow> fst ` set (g_settling s) \<subseteq> {me}"

lemma only_mine_cong [simp]:
  "only_mine me (s\<lparr>g_fd := F\<rparr>) = only_mine me s" "only_mine me (s\<lparr>g_desc := D\<rparr>) = only_mine me s"
  "only_mine me (s\<lparr>env := e\<rparr>) = only_mine me s" "only_mine me (s\<lparr>g_dirpath := N\<rparr>) = only_mine me s"
  "only_mine me (s\<lparr>g_dirlong := L\<rparr>) = only_mine me s" "only_mine me (s\<lparr>g_dirpath_used := U\<rparr>) = only_mine me s"
  by (simp_all add: only_mine_def)

lemma only_mine_release: "only_mine me s \<Longrightarrow> only_mine me (desc_release K me d s)"
  by (auto simp: only_mine_def desc_release_def settle_def path_slot_clear_def Let_def)

lemma only_mine_unlock:
  assumes "only_mine me s"
  shows "g_settling (okm_unlock K me s) = []"
proof -
  have "filter_mset (\<lambda>p. fst p \<noteq> me) (mset (g_settling s)) = {#}"
    using assms by (force simp flip: mset_filter simp: filter_empty_conv only_mine_def)
  then have "mset (g_settling (okm_unlock K me s)) = {#}" unfolding okm_unlock_settling .
  then show ?thesis by simp
qed

lemma only_mine_quiet: "g_settling s = [] \<Longrightarrow> only_mine me s"
  by (simp add: only_mine_def)

lemma only_mine_bind: "only_mine me s \<Longrightarrow> only_mine me (snd (okm_fd_bind K me fd kind st f d flags s))"
proof (cases "desc_alloc s")
  case None
  assume "only_mine me s"
  with None show ?thesis by (simp add: okm_fd_bind_def)
next
  case (Some p)
  assume m: "only_mine me s"
  obtain d' s1 where p: "desc_alloc s = Some (d', s1)" using Some by (cases p) simp
  then have "only_mine me s1" using m desc_alloc_Some(3) [OF p] by simp
  then show ?thesis using m by (simp add: okm_fd_bind_def p Let_def only_mine_release)
qed

lemma only_mine_ops:
  assumes "only_mine me s"
  shows "only_mine me (okm_fd_release K me fd s)" "only_mine me (snd (okm_fd_dup K me fd nfd c s))"
    "only_mine me (snd (okm_fd_cloexec fd on s))"
    "only_mine me (okm_dir_remember K fd absn s)" "only_mine me (snd (new_fd K me kind st f d flags s))"
  using assms
  by (simp_all add: okm_fd_release_def okm_fd_dup_def okm_fd_cloexec_def new_fd_def
      okm_dir_remember_def path_slot_alloc_def path_slot_clear_def Let_def only_mine_release only_mine_bind
      split: option.split prod.split)

lemmas only_mine_simps = only_mine_ops only_mine_bind

lemma call_step_quiet:
  assumes "call_step K s t" "g_settling s = []"
  shows "g_settling t = []"
proof -
  note q = only_mine_quiet [OF assms(2)]
  have u: "only_mine me u \<Longrightarrow> g_settling (okm_unlock K me u) = []" for me u by (rule only_mine_unlock)
  show ?thesis
    using assms(1)
  proof cases
    case (openat me dirfd pathp flags)
    have n: "only_mine me w" if "new_fd K me kind st f d flags v = (fd, w)" "only_mine me v" for kind st f d v fd w
      using only_mine_ops(5) [OF that(2), of K kind st f d flags] that(1) by simp
    have of: "g_settling (snd (open_file_end K me flags f (s\<lparr>env := e\<rparr>))) = []" for f e
      using n [of OKM_FILE "fs_stream K f" f 0 "s\<lparr>env := e\<rparr>"] q u
      by (simp add: open_file_end_def Let_def split: prod.split)
    have od: "g_settling (snd (open_dir_end K me dirfd pathp flags r (s\<lparr>env := e\<rparr>))) = []" for r e
      using n [of OKM_DIR 0 0 _ "s\<lparr>env := e\<rparr>"] q u assms(2)
      by (simp add: open_dir_end_def Let_def only_mine_ops(4) split: prod.split sum.split)
    show ?thesis
      unfolding openat do_openat_def
      using of od n [of OKM_NULL 0 0 0 s] q u assms(2)
      by (simp split: prod.split sum.split)
  next
    case (pipe2 me out flags)
    then show ?thesis
      using u q assms(2)
      by (simp add: sys_pipe2_def channel_close_def Let_def only_mine_simps split: option.split prod.split sum.split)
  next
    case (fcntl me fd cmd arg flp)
    have "g_settling (snd (lock_start K f fl s)) = []" for f fl
      using assms(2) by (simp add: lock_start_def split: prod.split sum.split)
    then have "g_settling (snd (fcntl_setlk K d wait flp s)) = []" for d wait
      using assms(2) by (simp add: fcntl_setlk_def case_prod_beta Let_def split: option.split)
    moreover have "g_settling (snd (fcntl_dupfd K me fd arg c s)) = []" for c
      using u q only_mine_ops(2) [OF q, of me K fd "okm_fd_alloc arg s" c]
      by (simp add: fcntl_dupfd_def case_prod_beta Let_def)
    moreover have "g_settling (snd (fcntl_setfl K d want s)) = []" for d want
      using assms(2) by (simp add: fcntl_setfl_def Let_def)
    moreover have "g_settling (snd (okm_fd_cloexec fd on s)) = []" for on
      using assms(2) by (simp add: okm_fd_cloexec_def)
    ultimately show ?thesis
      using assms(2) unfolding fcntl by (simp add: sys_fcntl_def split: option.split)
  next
    case (close me fd)
    then show ?thesis using u q by (simp add: sys_close_def only_mine_simps split: option.split)
  next
    case (lseek fd off whence)
    then show ?thesis using assms(2) by (simp add: sys_lseek_def split: option.split prod.split sum.split)
  next
    case (ftruncate fd len)
    then show ?thesis using assms(2) by (simp add: sys_ftruncate_def split: option.split prod.split)
  next
    case (flock fd how)
    then show ?thesis using assms(2) by (simp add: sys_flock_def Let_def split: option.split prod.split)
  qed (use u [OF only_mine_ops(2) [OF q]] in \<open>simp_all add: sys_dup_def sys_dup2_def sys_dup3_def locked_dup_def case_prod_beta\<close>)
qed

lemma calls_reachable:
  assumes "ledger K opened" "opened e = {#}" "(call_step K)\<^sup>*\<^sup>* (okm_table_init K me (zero_okm e)) t"
  shows "calls_inv opened {#} t" "g_settling t = []"
proof -
  have "(\<lambda>s t. ledger K opened \<and> call_step K s t)\<^sup>*\<^sup>* (okm_table_init K me (zero_okm e)) t"
    by (rule rtranclp_mono [THEN predicate2D, OF _ assms(3)]) (use assms(1) in auto)
  then show "calls_inv opened {#} t"
    using assms by (intro calls.reachable_inv [of K opened]) auto
  show "g_settling t = []"
    using assms(3)
  proof (induction rule: rtranclp_induct)
    case base
    show ?case unfolding okm_table_init_eq Let_def by (simp add: three_streams_def zero_okm_def split: list.split)
  qed (auto intro: call_step_quiet)
qed

lemma no_descriptor_live:
  assumes "table_inv s" "\<forall>fd. okm_desc_of fd s = None" "d < OKM_MAX_DESC"
  shows "live_owns (g_desc s d) = {#}"
proof -
  have "fd_desc (g_fd s f) \<noteq> int d" if "f < OKM_MAX_FD" for f
    using assms(2) that by (auto simp: okm_desc_of_def Let_def fd_in_range_def dest: spec [of _ "int f"])
  then have "refcount s d = 0" by (auto simp: refcount_def)
  then show ?thesis
    using assms(1,3) by (simp add: live_owns_def table_inv_def table_inv_x_def refs_ok_def)
qed

text \<open>C3: Nothing is leaked and nothing is closed twice. Whatever sequence of opening, closing, duplicating,
  piping, seeking, truncating, locking and \<open>fcntl\<close> calls a program makes, whichever of them fail, the files,
  directories and channel ends the environment holds open for it are exactly those the open descriptions
  of the table own, each once; so a program that has closed every descriptor holds nothing open.\<close>

theorem handles_accounted:
  assumes "ledger K opened" and "opened e = {#}"
    and "(call_step K)\<^sup>*\<^sup>* (okm_table_init K me (zero_okm e)) t"
  shows "opened (env t) = (\<Sum>d<OKM_MAX_DESC. if 0 < d_refs (g_desc t d) then owns (g_desc t d) else {#})
    \<and> ((\<forall>fd. okm_desc_of fd t = None) \<longrightarrow> opened (env t) = {#})"
proof -
  have I: "calls_inv opened {#} t" and q: "g_settling t = []" by (rule calls_reachable [OF assms])+
  then have o: "opened (env t) = (\<Sum>d<OKM_MAX_DESC. live_owns (g_desc t d))"
    by (simp add: calls_inv_def accounted_def held_open_def)
  have "(\<Sum>d<OKM_MAX_DESC. live_owns (g_desc t d)) = {#}" if "\<forall>fd. okm_desc_of fd t = None"
    using no_descriptor_live [of t] I that by (intro sum.neutral) (simp add: calls_inv_def)
  with o show ?thesis by (simp add: live_owns_def)
qed

text \<open>An environment that supplies one directory, opens whatever it is asked for, counts the handles it
  gives out and keeps those open.\<close>

record ledger_env =
  handed_out :: nat
  open_now :: "handle multiset"

definition ledger_kal :: "ledger_env kal" where
  "ledger_kal = bare_kal\<lparr>
     fs_preopen_count := (\<lambda>_. 1), fs_preopen := (\<lambda>_ _. Inr (1, ''/home'')),
     fs_open := (\<lambda>_ _ _ e. let h = of_nat (handed_out e) in
        (Inr h, e\<lparr>handed_out := Suc (handed_out e), open_now := add_mset (HFile h) (open_now e)\<rparr>)),
     fs_open_dir := (\<lambda>_ _ e. let h = of_nat (handed_out e) in
        (Inr h, e\<lparr>handed_out := Suc (handed_out e), open_now := add_mset (HDir h) (open_now e)\<rparr>)),
     fs_close_file := (\<lambda>f e. e\<lparr>open_now := open_now e - {#HFile f#}\<rparr>),
     fs_close_dir := (\<lambda>d e. e\<lparr>open_now := open_now e - {#HDir d#}\<rparr>),
     process_channel := Some (\<lambda>e. let h = of_nat (handed_out e) in
        (Inr (h, h + 1), e\<lparr>handed_out := handed_out e + 2,
                           open_now := open_now e + {#HChannel h, HChannel (h + 1)#}\<rparr>)),
     process_channel_close := Some (\<lambda>c e. e\<lparr>open_now := open_now e - {#HChannel c#}\<rparr>)\<rparr>"

lemma ledger_kal_ledger: "ledger ledger_kal open_now"
  by (simp add: ledger_def adds_def ledger_kal_def bare_kal_def Let_def)

definition ledger_start :: "ledger_env okm" where
  "ledger_start = okm_table_init ledger_kal 7 (zero_okm \<lparr>handed_out = 5, open_now = {#}\<rparr>)"

theorem handles_accounted_witness:
  "let t = snd (sys_close ledger_kal 7 3 (snd (do_openat ledger_kal 7 AT_FDCWD (Some ''/home/a'') O_RDWR ledger_start)))
   in open_now (env t) = (\<Sum>d<OKM_MAX_DESC. if 0 < d_refs (g_desc t d) then owns (g_desc t d) else {#})"
  unfolding Let_def ledger_start_def
  by (rule handles_accounted [OF ledger_kal_ledger, where me = 7
        and e = "\<lparr>handed_out = 5, open_now = {#}\<rparr>", THEN conjunct1])
    (simp, blast intro: call_step.openat call_step.close rtranclp.rtrancl_into_rtrancl rtranclp.rtrancl_refl)

section \<open>What the calls answer\<close>

text \<open>openkal's refusals name an error.\<close>

definition refusals_named :: "'e kal \<Rightarrow> bool" where
  "refusals_named K \<longleftrightarrow>
     (\<forall>d n fl e. fst (fs_open K d n fl e) \<noteq> Inl kal_ok) \<and> (\<forall>d n e. fst (fs_open_dir K d n e) \<noteq> Inl kal_ok)"

definition table_unchanged :: "'e okm \<Rightarrow> 'e okm \<Rightarrow> bool" where
  "table_unchanged s t \<longleftrightarrow> (\<forall>g. okm_desc_of g t = okm_desc_of g s) \<and> g_desc t = g_desc s"

text \<open>A descriptor was opened: the lowest free one refers to a description that was free, of the
  kind and with the flags given; every other descriptor refers to what it referred to, unchanged.\<close>

definition opened_at :: "int \<Rightarrow> okm_kind \<Rightarrow> flagword \<Rightarrow> 'e okm \<Rightarrow> 'e okm \<Rightarrow> bool" where
  "opened_at fd kind flags s t \<longleftrightarrow>
     okm_desc_of fd s = None \<and> (\<forall>g. 0 \<le> g \<and> g < fd \<longrightarrow> okm_desc_of g s \<noteq> None)
   \<and> (\<exists>d. okm_desc_of fd t = Some d \<and> d_refs (g_desc s d) = 0
        \<and> d_kind (g_desc t d) = kind \<and> d_flags (g_desc t d) = flags \<and> d_refs (g_desc t d) = 1
        \<and> \<not> d_pending (g_desc t d) \<and> \<not> d_iter_open (g_desc t d) \<and> \<not> d_ahead (g_desc t d)
        \<and> (\<forall>g. g \<noteq> fd \<longrightarrow> okm_desc_of g t = okm_desc_of g s)
        \<and> (\<forall>d'. d' \<noteq> d \<longrightarrow> g_desc t d' = g_desc s d'))"

definition openat_result :: "int \<Rightarrow> flagword \<Rightarrow> 'e okm \<Rightarrow> 'e okm \<Rightarrow> bool" where
  "openat_result r flags s t \<longleftrightarrow>
     (if r < 0 then table_unchanged s t
      else \<exists>kind \<in> {OKM_FILE, OKM_DIR, OKM_NULL}. opened_at r kind flags s t)"

lemma table_unchanged_refl: "table_unchanged s (s\<lparr>env := e\<rparr>)"
  by (simp add: table_unchanged_def okm_desc_of_cong [of "s\<lparr>env := e\<rparr>" s])

lemma frame_result:
  assumes "g_fd t' = g_fd t" "g_desc t' = g_desc t"
  shows "table_unchanged s t' = table_unchanged s t" "opened_at fd kind flags s t' = opened_at fd kind flags s t"
  using assms okm_desc_of_cong [of t' t] by (simp_all add: table_unchanged_def opened_at_def)

lemma frame_start:
  assumes "g_fd s' = g_fd s" "g_desc s' = g_desc s"
  shows "table_unchanged s' t = table_unchanged s t" "opened_at fd kind flags s' t = opened_at fd kind flags s t"
  using assms okm_desc_of_cong [of s' s] by (simp_all add: table_unchanged_def opened_at_def)

lemma new_fd_result:
  assumes "table_inv s" "new_fd K me kind st f d flags s = (fd, t)"
  shows "if fd < 0 then t = s else opened_at fd kind flags s t"
  using assms
proof (cases rule: new_fd_cases)
  case none
  then show ?thesis by simp
next
  case (bound d')
  have low: "okm_desc_of g s \<noteq> None" if "0 \<le> g" "g < fd" for g
    using okm_fd_alloc_lowest [of 0 s g] bound that assms(1)
    by (auto simp: okm_desc_of_def Let_def fd_in_range_def table_inv_def table_inv_x_def dest!: spec [of _ "nat g"])
  have "okm_desc_of g t = (if g = fd then Some d' else okm_desc_of g s)" for g
    using bound by (auto simp: okm_desc_of_def Let_def fd_in_range_def nat_eq_iff)
  then show ?thesis
    using bound low by (auto simp: opened_at_def bound_desc_def)
qed

lemma dir_remember_result:
  assumes "opened_at fd OKM_DIR flags s t"
  shows "opened_at fd OKM_DIR flags s (okm_dir_remember K fd absn t)"
proof -
  obtain d where d: "okm_desc_of fd t = Some d" using assms by (auto simp: opened_at_def)
  let ?u = "okm_dir_remember K fd absn t"
  have g: "g_fd ?u = g_fd t" "i \<noteq> d \<Longrightarrow> g_desc ?u i = g_desc t i"
    "d_kind (g_desc ?u i) = d_kind (g_desc t i)" "d_flags (g_desc ?u i) = d_flags (g_desc t i)"
    "d_refs (g_desc ?u i) = d_refs (g_desc t i)" "d_pending (g_desc ?u i) = d_pending (g_desc t i)"
    "d_iter_open (g_desc ?u i) = d_iter_open (g_desc t i)" "d_ahead (g_desc ?u i) = d_ahead (g_desc t i)" for i
    by (auto simp: okm_dir_remember_def d path_slot_alloc_def path_slot_clear_def Let_def split: option.split)
  show ?thesis
    using assms d okm_desc_of_cong [OF g(1)] unfolding opened_at_def by (auto simp: g)
qed

lemma unlock_result:
  "table_unchanged s (okm_unlock K me t) = table_unchanged s t" "opened_at fd kind flags s (okm_unlock K me t) = opened_at fd kind flags s t"
  by (rule frame_result; simp)+

lemma open_end_result:
  assumes "table_inv s"
  shows "open_file_end K me flags f s = (r, t) \<Longrightarrow> openat_result r flags s t"
    "q \<noteq> Inl kal_ok \<Longrightarrow> open_dir_end K me dirfd pathp flags q s = (r, t) \<Longrightarrow> openat_result r flags s t"
proof -
  show "openat_result r flags s t" if "open_file_end K me flags f s = (r, t)"
  proof -
    obtain fd u where n: "new_fd K me OKM_FILE (fs_stream K f) f 0 flags s = (fd, u)" by fastforce
    have "fd = r" "t = (let v = okm_unlock K me u in if fd < 0 then v\<lparr>env := fs_close_file K f (env v)\<rparr> else v)"
      using that by (auto simp: open_file_end_def n Let_def)
    then show ?thesis
      using new_fd_result [OF assms n]
      by (auto simp: openat_result_def unlock_result Let_def table_unchanged_def split: if_splits)
  qed
  show "openat_result r flags s t" if q: "q \<noteq> Inl kal_ok" and o: "open_dir_end K me dirfd pathp flags q s = (r, t)"
  proof (cases q)
    case (Inl x)
    then have "r < 0" "t = s"
      using q o okm_errno_pos [of x] by (auto simp: open_dir_end_def)
    then show ?thesis by (simp add: openat_result_def table_unchanged_def)
  next
    case (Inr d)
    obtain fd u where n: "new_fd K me OKM_DIR 0 0 d flags s = (fd, u)" by fastforce
    define v where "v = okm_unlock K me (case okm_absolute s dirfd pathp OKM_MAX_PATH of
        Inr absn \<Rightarrow> if 0 \<le> fd then okm_dir_remember K fd absn u else u | Inl _ \<Rightarrow> u)"
    have fd: "fd = r" "t = (if fd < 0 then v\<lparr>env := fs_close_dir K d (env v)\<rparr> else v)"
      using o by (auto simp: open_dir_end_def Inr n Let_def v_def)
    show ?thesis
      using fd new_fd_result [OF assms n]
      by (auto simp: openat_result_def v_def unlock_result dir_remember_result table_unchanged_def split: if_splits sum.split)
  qed
qed



text \<open>The flags \<open>F_SETFL\<close> sets are the description's: every descriptor that shares it reads them back, the two
  bits it may change replaced and the others kept, and every other description keeps its own.\<close>

theorem fcntl_setfl_getfl:
  assumes "sys_fcntl K me fd F_SETFL arg flp s = (0, t)"
    and "okm_desc_of g s = okm_desc_of fd s" and "okm_desc_of fd s = Some d"
  shows "fst (sys_fcntl K me g F_GETFL a q t) =
      sint ((d_flags (g_desc s d) AND NOT (O_APPEND OR O_NONBLOCK)) OR (of_int arg AND (O_APPEND OR O_NONBLOCK)))
    \<and> (\<forall>h d'. okm_desc_of h s = Some d' \<longrightarrow> d' \<noteq> d \<longrightarrow>
          fst (sys_fcntl K me h F_GETFL a q t) = fst (sys_fcntl K me h F_GETFL a q s))"
proof -
  have t: "t = set_desc d ((g_desc s d)\<lparr>d_flags := (d_flags (g_desc s d) AND NOT (O_APPEND OR O_NONBLOCK))
      OR (of_int arg AND (O_APPEND OR O_NONBLOCK))\<rparr>) s"
    using assms(1,3) by (auto simp: sys_fcntl_def fcntl_setfl_def Let_def split: if_splits)
  have "okm_desc_of h t = okm_desc_of h s" for h
    by (rule okm_desc_of_cong) (simp add: t)
  then show ?thesis
    using assms(2,3) by (simp add: sys_fcntl_def t)
qed

theorem fcntl_setfl_getfl_witness:
  "fst (sys_fcntl closing_kal 7 0 F_GETFL 0 None (snd (sys_fcntl closing_kal 7 0 F_SETFL 0x400 None one_file))) = 0x402"
proof -
  have "d_flags (g_desc one_file 0) = O_RDWR"
    by (simp add: one_file_def bind_first bound_desc_def)
  moreover have "sys_fcntl closing_kal 7 0 F_SETFL 0x400 None one_file =
      (0, snd (sys_fcntl closing_kal 7 0 F_SETFL 0x400 None one_file))"
    by (simp add: sys_fcntl_def one_file_facts fcntl_setfl_def Let_def has_def)
  ultimately show ?thesis
    using fcntl_setfl_getfl [of closing_kal 7 0 "0x400" None one_file _ 0 0 0 None]
    by (simp add: one_file_facts)
qed

text \<open>\<open>pipe2\<close> with one descriptor left reports \<open>EMFILE\<close> and keeps the descriptor: the read end stays bound to a
  number the caller was never told, and its stream stays open, until the program ends.\<close>

theorem pipe2_strands_read_end:
  assumes "table_inv s" and "process_channel K = Some ch" and "ch (env s) = (Inr (mine, theirs), e1)"
    and "okm_fd_alloc 0 s = fd" and "0 \<le> fd"
    and "\<forall>g. fd_in_range g \<longrightarrow> g \<noteq> fd \<longrightarrow> okm_desc_of g s \<noteq> None"
    and "sys_pipe2 K me True 0 s = (r, t)"
  shows "r = Inl (- EMFILE) \<and> okm_desc_of fd s = None
    \<and> (\<exists>d. okm_desc_of fd t = Some d \<and> d_kind (g_desc t d) = OKM_CHANNEL \<and> d_stream (g_desc t d) = mine)"
proof -
  define s1 where "s1 = s\<lparr>env := e1\<rparr>"
  have inv: "table_inv s1" using assms(1) by (simp add: s1_def)
  have same: "okm_desc_of g s1 = okm_desc_of g s" for g by (rule okm_desc_of_cong) (simp add: s1_def)
  have fd: "okm_fd_alloc 0 s1 = fd" using assms(4) by (simp add: s1_def okm_fd_alloc_def)
  obtain fd' s2 where n: "new_fd K me OKM_CHANNEL mine 0 0 0 s1 = (fd', s2)" by fastforce
  have "0 \<le> fd'" using inv n fd assms(5) by (cases rule: new_fd_cases) simp_all
  with new_fd_result [OF inv n] have o: "opened_at fd' OKM_CHANNEL 0 s1 s2" by simp
  have "fd' = fd" "d_stream (g_desc s2 d) = mine" if "okm_desc_of fd s2 = Some d" for d
    using inv n fd that assms(5) by (cases rule: new_fd_cases; auto simp: okm_desc_of_fd bound_desc_def)+
  moreover have "fd' = fd" using inv n fd assms(5) by (cases rule: new_fd_cases) simp_all
  ultimately have b: "\<exists>d. okm_desc_of fd s2 = Some d \<and> d_kind (g_desc s2 d) = OKM_CHANNEL \<and> d_stream (g_desc s2 d) = mine"
    "okm_desc_of fd s = None" "\<forall>g. g \<noteq> fd \<longrightarrow> okm_desc_of g s2 = okm_desc_of g s"
    using o same unfolding opened_at_def by auto
  have "okm_fd_alloc 0 s2 < 0"
  proof (rule ccontr)
    assume "\<not> okm_fd_alloc 0 s2 < 0"
    then have z: "0 \<le> okm_fd_alloc 0 s2" by simp
    from fd_alloc_refers_none [OF z] fd_alloc_in_range [OF z] b(1,3) assms(6) show False by (metis option.distinct(1))
  qed
  then have em: "okm_fd_alloc 0 s2 = - EMFILE" using okm_fd_alloc_neg [of 0 s2] by linarith
  have bind: "okm_fd_bind K me fd OKM_CHANNEL mine 0 0 0 s1 = (fd', s2)"
    using n fd assms(5) by (simp add: new_fd_def)
  have "r = Inl (- EMFILE)" "t = channel_close K theirs (okm_unlock K me s2)"
    using assms(7,5) fd em bind
    by (simp_all add: sys_pipe2_def assms(2,3) has_def Let_def flip: s1_def)
  moreover have "okm_desc_of fd (channel_close K theirs u) = okm_desc_of fd u"
    "g_desc (channel_close K theirs u) = g_desc u" for u
    by (simp_all add: channel_close_def okm_desc_of_def split: option.split)
  ultimately show ?thesis using b by simp
qed

text \<open>A table with every descriptor but the last on one description.\<close>

definition nearly_full :: "ledger_env okm" where
  "nearly_full = (zero_okm \<lparr>handed_out = 5, open_now = {#}\<rparr>)
     \<lparr>g_desc := (\<lambda>_. zero_desc)(0 := zero_desc\<lparr>d_refs := 1023, d_kind := OKM_NULL, d_path_slot := -1\<rparr>),
      g_fd := (\<lambda>i. \<lparr>fd_desc = (if i < 1023 then 0 else -1), fd_cloexec = 0\<rparr>)\<rparr>"

lemma nearly_full_inv: "table_inv nearly_full"
proof -
  have "{fd. fd < 1024 \<and> fd_desc (g_fd nearly_full fd) = int d} = (if d = 0 then {..<1023} else {})" for d
    by (auto simp: nearly_full_def)
  then have "refcount nearly_full d = (if d = 0 then 1023 else 0)" for d
    by (simp add: refcount_def)
  then show ?thesis
    by (auto simp: table_inv_def table_inv_x_def refs_ok_def names_ok_def live_def nearly_full_def zero_okm_def zero_desc_def)
qed

lemma nearly_full_alloc: "okm_fd_alloc 0 nearly_full = 1023"
proof -
  have "scan_up (\<lambda>i. fd_desc (g_fd nearly_full i) = OKM_FD_FREE) 0 OKM_MAX_FD = Some 1023"
    by (auto simp: scan_up_Some nearly_full_def)
  then show ?thesis by (simp add: okm_fd_alloc_def)
qed

theorem pipe2_strands_read_end_witness:
  "fst (sys_pipe2 ledger_kal 7 True 0 nearly_full) = Inl (- EMFILE)
    \<and> okm_desc_of 1023 (snd (sys_pipe2 ledger_kal 7 True 0 nearly_full)) \<noteq> None"
proof -
  obtain r t where rt: "sys_pipe2 ledger_kal 7 True 0 nearly_full = (r, t)" by fastforce
  obtain ch e1 where ch: "process_channel ledger_kal = Some ch" "ch (env nearly_full) = (Inr (5, 6), e1)"
    by (simp add: ledger_kal_def nearly_full_def zero_okm_def Let_def)
  have "\<forall>g. fd_in_range g \<longrightarrow> g \<noteq> 1023 \<longrightarrow> okm_desc_of g nearly_full \<noteq> None"
    by (auto simp: okm_desc_of_def fd_in_range_def nearly_full_def)
  from pipe2_strands_read_end [OF nearly_full_inv ch nearly_full_alloc _ this rt] show ?thesis
    by (auto simp: rt)
qed

text \<open>\<open>dup2\<close> to a negative number, which POSIX refuses with \<open>EBADF\<close>, succeeds: it duplicates onto the lowest free
  descriptor, as \<open>dup\<close> does.\<close>

theorem dup2_negative_succeeds:
  assumes "okm_desc_of fd s = Some d" and "newfd < 0" and "0 \<le> okm_fd_alloc 0 s"
  shows "sys_dup2 K me fd newfd s = sys_dup K me fd s
    \<and> fst (sys_dup2 K me fd newfd s) = okm_fd_alloc 0 s
    \<and> okm_desc_of (okm_fd_alloc 0 s) (snd (sys_dup2 K me fd newfd s)) = Some d"
proof -
  let ?n = "okm_fd_alloc 0 s"
  have n: "fd_in_range ?n" "okm_desc_of ?n s = None"
    using assms(3) fd_alloc_in_range fd_alloc_refers_none by blast+
  then have ne: "?n \<noteq> fd" using assms(1) by auto
  have f: "fd_in_range fd" "fd_desc (g_fd s (nat fd)) = int d" using assms(1) by (simp_all add: okm_desc_of_fd)
  have eq: "okm_fd_dup K me fd m 0 s = okm_fd_dup K me fd ?n 0 s" if "m < 0" for m
    using that assms(3) by (simp add: okm_fd_dup_def Let_def)
  have "fst (okm_fd_dup K me fd ?n 0 s) = ?n"
    "g_fd (snd (okm_fd_dup K me fd ?n 0 s)) = (g_fd s)(nat ?n := \<lparr>fd_desc = int d, fd_cloexec = 0\<rparr>)"
    using f n(1) ne assms(3) by (simp_all add: okm_fd_dup_def Let_def fd_in_range_def)
  moreover from this(2) n(1) have "okm_desc_of ?n (snd (okm_fd_dup K me fd ?n 0 s)) = Some d"
    by (simp add: okm_desc_of_def)
  ultimately show ?thesis
    using eq [OF assms(2)] eq [of "-1"]
    by (simp add: sys_dup2_def sys_dup_def locked_dup_def case_prod_beta)
qed

theorem dup2_negative_succeeds_witness:
  "0 \<le> fst (sys_dup2 ledger_kal 7 0 (-5) nearly_full)"
proof -
  have d: "okm_desc_of 0 nearly_full = Some 0" by (simp add: okm_desc_of_def fd_in_range_def nearly_full_def)
  have n: "(-5 :: int) < 0" and z: "0 \<le> okm_fd_alloc 0 nearly_full" by (simp_all add: nearly_full_alloc)
  show ?thesis
    using dup2_negative_succeeds [OF d n z, of ledger_kal 7, THEN conjunct2, THEN conjunct1] z by simp
qed

end
