(* ===== verification/Okm_Dirent.thy ===== *)
theory Okm_Dirent
  imports Okm_Open
begin

text \<open>
  Directory enumeration: \<open>do_getdents\<close> (port/src/okm_syscall.c) fills the caller's buffer with
  records from openkal's iterator, and \<open>readdir\<close> and \<open>rewinddir\<close> (musl/src/dirent) hand them out one
  at a time. A buffer is a function from offsets to bytes; a record is written and read byte by
  byte. The theory shows that the two together hand out every entry of the directory once and in
  order, whatever the sizes of the names, and that \<open>rewinddir\<close> does not start again.

  The loop of \<open>do_getdents\<close> passes over a name it cannot carry without using any of the buffer, so
  nothing in the code bounds it: it is a partial function, and that it returns is a theorem.
\<close>

section \<open>Records in a buffer\<close>

type_synonym buffer = "nat \<Rightarrow> byte"

definition le_bytes :: "nat \<Rightarrow> nat \<Rightarrow> byte list" where
  "le_bytes w n = map (\<lambda>i. of_nat (n div 256 ^ i)) [0..<w]"

fun le_nat :: "byte list \<Rightarrow> nat" where
  "le_nat [] = 0"
| "le_nat (b # bs) = unat b + 256 * le_nat bs"

definition write_at :: "nat \<Rightarrow> byte list \<Rightarrow> buffer \<Rightarrow> buffer" where
  "write_at p bs buf = (\<lambda>i. if p \<le> i \<and> i < p + length bs then bs ! (i - p) else buf i)"

definition read_at :: "nat \<Rightarrow> nat \<Rightarrow> buffer \<Rightarrow> byte list" where
  "read_at p w buf = map buf [p..<p + w]"

text \<open>
  \<open>struct linux_dirent64\<close>: \<open>d_ino\<close> at 0, \<open>d_off\<close> at 8, \<open>d_reclen\<close> at 16, \<open>d_type\<close> at 18 and \<open>d_name\<close> at 19;
  its size is 24. \<open>struct dirent\<close> of musl has the same layout with 256 bytes of name.
\<close>

definition byte_of :: "char \<Rightarrow> byte" where
  "byte_of c = of_nat (of_char c)"

definition char_of_byte :: "byte \<Rightarrow> char" where
  "char_of_byte b = char_of (unat b)"

abbreviation (input) DT_UNKNOWN :: byte where "DT_UNKNOWN \<equiv> 0"
abbreviation (input) DT_DIR :: byte where "DT_DIR \<equiv> 4"
abbreviation (input) DT_REG :: byte where "DT_REG \<equiv> 8"
abbreviation (input) DT_LNK :: byte where "DT_LNK \<equiv> 10"

definition d_type_of :: "kal_node_kind \<Rightarrow> byte" where
  "d_type_of kind =
     (if kind = kal_node_directory then DT_DIR
      else if kind = kal_node_file then DT_REG
      else if kind = kal_node_link then DT_LNK else DT_UNKNOWN)"

text \<open>\<open>(sizeof(struct linux_dirent64) + len + 1 + 7) & ~(size_t)7\<close>\<close>

definition dirent_need :: "nat \<Rightarrow> nat" where
  "dirent_need len = (24 + len + 1 + 7) div 8 * 8"

definition put_dirent :: "nat \<Rightarrow> string \<Rightarrow> kal_node_kind \<Rightarrow> buffer \<Rightarrow> buffer" where
  "put_dirent used name kind buf =
     (let need = dirent_need (length name) in
      write_at (used + 19) (map byte_of name @ [0])
        (write_at (used + 18) [d_type_of kind]
          (write_at (used + 16) (le_bytes 2 need)
            (write_at (used + 8) (le_bytes 8 (used + need))
              (write_at used (le_bytes 8 1) buf)))))"

section \<open>The call\<close>

text \<open>One turn of the loop's first half: the entry held from the last call, or the iterator's next.
  A name of 256 bytes or more is one the layer cannot carry.\<close>

datatype fetched = Entry string kal_node_kind | Spent | Too_long | Failed kal_error

definition getdents_fetch :: "'e kal \<Rightarrow> nat \<Rightarrow> 'e okm \<Rightarrow> fetched \<times> 'e okm" where
  "getdents_fetch K d s =
     (let p = g_desc s d in
      if d_pending p
      then (Entry (takeWhile (\<lambda>c. c \<noteq> NUL) (d_pending_name p)) (d_pending_kind p), s)
      else case fs_list_next K (d_dir p) (d_iter p) 255 (env s) of
        (Inl e, e1) \<Rightarrow> (Failed e, s\<lparr>env := e1\<rparr>)
      | (Inr (it, name, kind), e1) \<Rightarrow>
          let s1 = set_desc d (p\<lparr>d_iter := it\<rparr>) (s\<lparr>env := e1\<rparr>) in
          if it = 0 then (Spent, s1)
          else if 256 \<le> length name then (Too_long, s1)
          else (Entry name kind, s1))"

definition hold_entry :: "nat \<Rightarrow> string \<Rightarrow> kal_node_kind \<Rightarrow> 'e okm \<Rightarrow> 'e okm" where
  "hold_entry d name kind s =
     (let p = g_desc s d in
      if d_pending p then s
      else set_desc d (p\<lparr>d_pending_name := name, d_pending_kind := kind, d_pending := True\<rparr>) s)"

partial_function (option) getdents_loop ::
  "'e kal \<Rightarrow> nat \<Rightarrow> nat \<Rightarrow> nat \<Rightarrow> buffer \<Rightarrow> 'e okm \<Rightarrow> ((int + nat) \<times> buffer \<times> 'e okm) option" where
  "getdents_loop K d cap used buf s =
     (case getdents_fetch K d s of
        (Failed e, s1) \<Rightarrow> Some (if used \<noteq> 0 then Inr used else Inl (- okm_errno e), buf, s1)
      | (Spent, s1) \<Rightarrow> Some (Inr used, buf, s1)
      | (Too_long, s1) \<Rightarrow> getdents_loop K d cap used buf s1
      | (Entry name kind, s1) \<Rightarrow>
          (let need = dirent_need (length name) in
           if cap < used + need
           then Some (if used = 0 then Inl (- EINVAL) else Inr used, buf, hold_entry d name kind s1)
           else getdents_loop K d cap (used + need) (put_dirent used name kind buf)
                  (set_desc d ((g_desc s1 d)\<lparr>d_pending := False\<rparr>) s1)))"

definition do_getdents ::
  "'e kal \<Rightarrow> int \<Rightarrow> nat \<Rightarrow> buffer \<Rightarrow> 'e okm \<Rightarrow> ((int + nat) \<times> buffer \<times> 'e okm) option" where
  "do_getdents K fd cap buf s =
     (case okm_desc_of fd s of
        None \<Rightarrow> Some (Inl (- EBADF), buf, s)
      | Some d \<Rightarrow>
          let p = g_desc s d in
          if d_kind p \<noteq> OKM_DIR then Some (Inl (- ENOTDIR), buf, s)
          else
            (case (if d_iter_open p then (Inr (d_iter p), env s) else fs_list_begin K (d_dir p) (env s)) of
               (Inl e, e1) \<Rightarrow> Some (Inl (- okm_errno e), buf, s\<lparr>env := e1\<rparr>)
             | (Inr it, e1) \<Rightarrow>
                 let s1 = set_desc d (p\<lparr>d_iter := it, d_iter_open := True\<rparr>) (s\<lparr>env := e1\<rparr>) in
                 if it = 0 then Some (Inr 0, buf, s1)
                 else getdents_loop K d cap 0 buf s1))"

section \<open>musl's directory streams\<close>

record dirstream =
  tell :: int
  dir_fd :: int
  buf_pos :: nat
  buf_end :: nat
  dir_buf :: buffer

abbreviation (input) DIR_BUF :: nat where "DIR_BUF \<equiv> 2048"

text \<open>\<open>struct dirent\<close> at an offset of the buffer: its number of bytes, what follows it, its kind and name.\<close>

definition de_reclen :: "buffer \<Rightarrow> nat \<Rightarrow> nat" where
  "de_reclen buf p = le_nat (read_at (p + 16) 2 buf)"

definition de_off :: "buffer \<Rightarrow> nat \<Rightarrow> nat" where
  "de_off buf p = le_nat (read_at (p + 8) 8 buf)"

definition de_type :: "buffer \<Rightarrow> nat \<Rightarrow> byte" where
  "de_type buf p = buf (p + 18)"

definition de_name :: "buffer \<Rightarrow> nat \<Rightarrow> string" where
  "de_name buf p = map char_of_byte (takeWhile (\<lambda>b. b \<noteq> 0) (read_at (p + 19) 256 buf))"

text \<open>The entry at the position of the buffer is taken.\<close>

definition take_entry :: "dirstream \<Rightarrow> 'e okm \<Rightarrow> ((int + string \<times> byte) \<times> dirstream \<times> 'e okm) option" where
  "take_entry dir s =
     Some (Inr (de_name (dir_buf dir) (buf_pos dir), de_type (dir_buf dir) (buf_pos dir)),
           dir\<lparr>buf_pos := buf_pos dir + de_reclen (dir_buf dir) (buf_pos dir),
               tell := int (de_off (dir_buf dir) (buf_pos dir))\<rparr>, s)"

text \<open>\<open>readdir\<close>: \<open>Inr\<close> the name and the kind of the entry, \<open>Inl\<close> the null pointer with what \<open>errno\<close> is
  set to (zero where it is left alone). The position and the answer of the call are of type \<open>int\<close> in
  C; both stay within 2048.\<close>

definition readdir ::
  "'e kal \<Rightarrow> dirstream \<Rightarrow> 'e okm \<Rightarrow> ((int + string \<times> byte) \<times> dirstream \<times> 'e okm) option" where
  "readdir K dir s =
     (if buf_end dir \<le> buf_pos dir then
        (case do_getdents K (dir_fd dir) DIR_BUF (dir_buf dir) s of
           None \<Rightarrow> None
         | Some (Inl e, buf, s1) \<Rightarrow>
             Some (Inl (if e < 0 \<and> e \<noteq> - ENOENT then - e else 0), dir\<lparr>dir_buf := buf\<rparr>, s1)
         | Some (Inr n, buf, s1) \<Rightarrow>
             if n = 0 then Some (Inl 0, dir\<lparr>dir_buf := buf\<rparr>, s1)
             else take_entry (dir\<lparr>dir_buf := buf, buf_end := n, buf_pos := 0\<rparr>) s1)
      else take_entry dir s)"

text \<open>\<open>rewinddir\<close>: \<open>lseek\<close> on the descriptor, whose answer is not read, and an empty buffer.\<close>

definition rewinddir :: "'e kal \<Rightarrow> dirstream \<Rightarrow> 'e okm \<Rightarrow> dirstream \<times> 'e okm" where
  "rewinddir K dir s =
     (dir\<lparr>buf_pos := 0, buf_end := 0, tell := 0\<rparr>, snd (sys_lseek K (dir_fd dir) 0 SEEK_SET s))"

section \<open>Records, written and read\<close>

text \<open>The bytes of a record up to the terminator of its name; what follows, to the next record, is
  what the buffer had.\<close>

definition dirent_bytes :: "nat \<Rightarrow> string \<Rightarrow> kal_node_kind \<Rightarrow> byte list" where
  "dirent_bytes p name kind =
     le_bytes 8 1 @ le_bytes 8 (p + dirent_need (length name)) @ le_bytes 2 (dirent_need (length name))
       @ [d_type_of kind] @ map byte_of name @ [0]"

definition holds :: "buffer \<Rightarrow> nat \<Rightarrow> byte list \<Rightarrow> bool" where
  "holds buf p bs \<longleftrightarrow> read_at p (length bs) buf = bs"

lemma length_le_bytes [simp]: "length (le_bytes w n) = w"
  by (simp add: le_bytes_def)

lemma dirent_need_bounds: "24 + n + 1 \<le> dirent_need n" "dirent_need n \<le> 24 + n + 8"
  by (simp_all add: dirent_need_def)

lemma dirent_need_pos [simp]: "0 < dirent_need n" "dirent_need n \<noteq> 0"
  using dirent_need_bounds(1) [of n] by simp_all

lemma length_dirent_bytes [simp]: "length (dirent_bytes p name kind) = 20 + length name"
  by (simp add: dirent_bytes_def)

lemma write_at_append:
  "q = p + length a \<Longrightarrow> write_at q b (write_at p a buf) = write_at p (a @ b) buf"
  by (rule ext) (auto simp: write_at_def nth_append)

lemma put_dirent_eq: "put_dirent p name kind buf = write_at p (dirent_bytes p name kind) buf"
  by (simp add: put_dirent_def dirent_bytes_def Let_def write_at_append)

lemma holds_write: "holds (write_at p bs buf) p bs"
  unfolding holds_def by (rule nth_equalityI) (simp_all add: read_at_def write_at_def)

lemma read_at_add: "read_at p (m + n) buf = read_at p m buf @ read_at (p + m) n buf"
  using upt_add_eq_append [of p "p + m" n] by (simp add: read_at_def add.assoc)

lemma read_at_one: "read_at p 1 buf = [buf p]"
  by (simp add: read_at_def)

lemma length_read_at [simp]: "length (read_at p n buf) = n"
  by (simp add: read_at_def)

lemma holds_cong:
  assumes "\<And>i. p \<le> i \<Longrightarrow> i < p + length bs \<Longrightarrow> buf' i = buf i"
  shows "holds buf' p bs = holds buf p bs"
  using assms by (auto simp: holds_def read_at_def intro!: arg_cong [of _ _ "\<lambda>xs. xs = bs"] map_cong)

lemma read_at_part:
  assumes "holds buf p (a @ b @ c)"
  shows "read_at (p + length a) (length b) buf = b"
proof -
  have "read_at p (length a) buf @ read_at (p + length a) (length b) buf
      @ read_at (p + length a + length b) (length c) buf = a @ b @ c"
    using assms by (simp add: holds_def read_at_add)
  then show ?thesis by (metis append_eq_append_conv length_read_at)
qed

lemma le_nat_bytes: "le_nat (le_bytes w n) = n mod 256 ^ w"
proof (induction w arbitrary: n)
  case (Suc w)
  have "le_bytes (Suc w) n = of_nat n # le_bytes w (n div 256)"
    by (simp add: le_bytes_def upt_conv_Cons map_Suc_upt [symmetric] div_mult2_eq comp_def del: upt_Suc)
  then show ?case
    using Suc [of "n div 256"] by (simp add: unat_of_nat mod_mult2_eq)
qed (simp add: le_bytes_def)

lemma char_byte [simp]: "char_of_byte (byte_of c) = c"
  by (simp add: char_of_byte_def byte_of_def unat_of_nat)

lemma byte_of_zero [simp]: "byte_of c = 0 \<longleftrightarrow> c = NUL"
proof
  assume "byte_of c = 0"
  then have "c = char_of_byte 0" by (metis char_byte)
  also have "\<dots> = NUL" by (simp add: char_of_byte_def char_of_def)
  finally show "c = NUL" .
qed (simp add: byte_of_def)

lemma dirent_read:
  assumes "holds buf p (dirent_bytes p name kind)" "cstring name" "length name < 256"
    "p + dirent_need (length name) < 2 ^ 64"
  shows "de_name buf p = name" "de_type buf p = d_type_of kind"
    "de_reclen buf p = dirent_need (length name)" "de_off buf p = p + dirent_need (length name)"
proof -
  let ?n = "dirent_need (length name)"
  have need: "?n < 65536" using dirent_need_bounds(2) [of "length name"] assms(3) by simp
  have "read_at (p + 8) 8 buf = le_bytes 8 (p + ?n)"
    using read_at_part [of buf p "le_bytes 8 1" "le_bytes 8 (p + ?n)" "le_bytes 2 ?n @ [d_type_of kind] @ map byte_of name @ [0]"]
      assms(1) by (simp add: dirent_bytes_def)
  then show "de_off buf p = p + ?n"
    using assms(4) by (simp add: de_off_def le_nat_bytes)
  have "read_at (p + 16) 2 buf = le_bytes 2 ?n"
    using read_at_part [of buf p "le_bytes 8 1 @ le_bytes 8 (p + ?n)" "le_bytes 2 ?n" "[d_type_of kind] @ map byte_of name @ [0]"]
      assms(1) by (simp add: dirent_bytes_def)
  then show "de_reclen buf p = ?n"
    using need by (simp add: de_reclen_def le_nat_bytes)
  have "read_at (p + 18) 1 buf = [d_type_of kind]"
    using read_at_part [of buf p "le_bytes 8 1 @ le_bytes 8 (p + ?n) @ le_bytes 2 ?n" "[d_type_of kind]" "map byte_of name @ [0]"]
      assms(1) by (simp add: dirent_bytes_def)
  then show "de_type buf p = d_type_of kind"
    by (simp only: de_type_def read_at_one list.inject)
  have r: "read_at (p + 19) (length name + 1) buf = map byte_of name @ [0]"
    using read_at_part [of buf p "le_bytes 8 1 @ le_bytes 8 (p + ?n) @ le_bytes 2 ?n @ [d_type_of kind]" "map byte_of name @ [0]" "[]"]
      assms(1) by (simp add: dirent_bytes_def)
  have "read_at (p + 19) 256 buf = read_at (p + 19) (length name + 1) buf @ read_at (p + 19 + (length name + 1)) (255 - length name) buf"
    using read_at_add [of "p + 19" "length name + 1" "255 - length name" buf] assms(3) by simp
  then have "takeWhile (\<lambda>b. b \<noteq> 0) (read_at (p + 19) 256 buf) = map byte_of name"
    unfolding r using assms(2) by (auto simp: cstring_def takeWhile_append takeWhile_eq_all_conv)
  then show "de_name buf p = name"
    by (simp add: de_name_def comp_def)
qed

section \<open>What the iterator promises, and what is yet to be handed out\<close>

text \<open>
  openkal's enumeration: \<open>rest d it e\<close> is what iterator \<open>it\<close> of directory \<open>d\<close> has yet to deliver, \<open>content d e\<close>
  what an enumeration begun now would. The next operation delivers the first entry and the iterator
  past it, or the spent iterator where there is none; a failure names an error and loses nothing.
  A name is a string without a terminator inside.
\<close>

type_synonym entry = "string \<times> kal_node_kind"

definition lists_in_order ::
  "'e kal \<Rightarrow> (kal_dir \<Rightarrow> 'e \<Rightarrow> entry list) \<Rightarrow> (kal_dir \<Rightarrow> kal_uintptr \<Rightarrow> 'e \<Rightarrow> entry list) \<Rightarrow> bool" where
  "lists_in_order K content rest \<longleftrightarrow>
     (\<forall>d e. case fs_list_begin K d e of
        (Inl x, e') \<Rightarrow> x \<noteq> kal_ok \<and> content d e' = content d e
      | (Inr it, e') \<Rightarrow> content d e = (if it = 0 then [] else rest d it e'))
   \<and> (\<forall>d it cap e. it \<noteq> 0 \<longrightarrow> (case fs_list_next K d it cap e of
        (Inl x, e') \<Rightarrow> x \<noteq> kal_ok \<and> rest d it e' = rest d it e
      | (Inr (it', name, kind), e') \<Rightarrow>
          if it' = 0 then rest d it e = []
          else rest d it e = (name, kind) # rest d it' e' \<and> cstring name))"

text \<open>The errors the enumeration can fail with.\<close>

definition list_failures :: "'e kal \<Rightarrow> kal_error set" where
  "list_failures K = {x. (\<exists>d e. fst (fs_list_begin K d e) = Inl x) \<or> (\<exists>d it cap e. fst (fs_list_next K d it cap e) = Inl x)}"

definition carried :: "entry list \<Rightarrow> entry list" where
  "carried = filter (\<lambda>en. length (fst en) < 256)"

definition undelivered ::
  "(kal_dir \<Rightarrow> 'e \<Rightarrow> entry list) \<Rightarrow> (kal_dir \<Rightarrow> kal_uintptr \<Rightarrow> 'e \<Rightarrow> entry list) \<Rightarrow> nat \<Rightarrow> 'e okm \<Rightarrow> entry list" where
  "undelivered content rest d s =
     (let p = g_desc s d in
      if \<not> d_iter_open p then carried (content (d_dir p) (env s))
      else (if d_pending p then [(d_pending_name p, d_pending_kind p)] else [])
           @ (if d_iter p = 0 then [] else carried (rest (d_dir p) (d_iter p) (env s))))"

text \<open>A description being enumerated: an entry is held only while the iterator is not spent, and it is
  one the layer carries.\<close>

definition dir_desc :: "okm_desc \<Rightarrow> bool" where
  "dir_desc p \<longleftrightarrow> d_kind p = OKM_DIR
     \<and> (d_pending p \<longrightarrow> d_iter_open p \<and> d_iter p \<noteq> 0 \<and> cstring (d_pending_name p) \<and> length (d_pending_name p) < 256)"

text \<open>Records one after the other in a buffer, from an offset.\<close>

fun records :: "buffer \<Rightarrow> nat \<Rightarrow> entry list \<Rightarrow> bool" where
  "records buf p [] \<longleftrightarrow> True"
| "records buf p (en # es) \<longleftrightarrow>
     holds buf p (dirent_bytes p (fst en) (snd en)) \<and> cstring (fst en) \<and> length (fst en) < 256
     \<and> records buf (p + dirent_need (length (fst en))) es"

fun records_size :: "entry list \<Rightarrow> nat" where
  "records_size [] = 0"
| "records_size (en # es) = dirent_need (length (fst en)) + records_size es"

lemma records_size_zero [simp]: "records_size es = 0 \<longleftrightarrow> es = []"
  by (cases es) simp_all

lemma records_cong:
  "(\<And>i. p \<le> i \<Longrightarrow> i < p + records_size es \<Longrightarrow> buf' i = buf i) \<Longrightarrow> records buf' p es = records buf p es"
proof (induction es arbitrary: p)
  case (Cons en es)
  have "records buf' (p + dirent_need (length (fst en))) es = records buf (p + dirent_need (length (fst en))) es"
    by (rule Cons.IH) (use Cons.prems in simp)
  moreover have "holds buf' p (dirent_bytes p (fst en) (snd en)) = holds buf p (dirent_bytes p (fst en) (snd en))"
    by (rule holds_cong) (use Cons.prems dirent_need_bounds(1) [of "length (fst en)"] in simp)
  ultimately show ?case by simp
qed simp

text \<open>What a call keeps of the state: everything but the enumeration of the description.\<close>

definition enum_frame :: "nat \<Rightarrow> 'e okm \<Rightarrow> 'e okm \<Rightarrow> bool" where
  "enum_frame d s t \<longleftrightarrow> g_fd t = g_fd s \<and> (\<forall>i. i \<noteq> d \<longrightarrow> g_desc t i = g_desc s i)
     \<and> d_kind (g_desc t d) = d_kind (g_desc s d) \<and> d_dir (g_desc t d) = d_dir (g_desc s d)
     \<and> d_refs (g_desc t d) = d_refs (g_desc s d)"

lemma enum_frame_trans: "enum_frame d s t \<Longrightarrow> enum_frame d t u \<Longrightarrow> enum_frame d s u"
  by (simp add: enum_frame_def)

lemma getdents_fetch_spec:
  assumes L: "lists_in_order K content rest" and D: "dir_desc (g_desc s d)" "d_iter_open (g_desc s d)" "d_iter (g_desc s d) \<noteq> 0"
    and f: "getdents_fetch K d s = (r, t)"
  shows "enum_frame d s t \<and> d_iter_open (g_desc t d) \<and> dir_desc (g_desc t d) \<and>
    (case r of
       Entry name kind \<Rightarrow> d_iter (g_desc t d) \<noteq> 0 \<and> cstring name \<and> length name < 256
         \<and> undelivered content rest d s =
             (name, kind) # undelivered content rest d (set_desc d ((g_desc t d)\<lparr>d_pending := False\<rparr>) t)
         \<and> (d_pending (g_desc t d) \<longrightarrow> undelivered content rest d t = undelivered content rest d s)
         \<and> length (rest (d_dir (g_desc t d)) (d_iter (g_desc t d)) (env t)) + (if d_pending (g_desc s d) then 0 else 1)
             = length (rest (d_dir (g_desc s d)) (d_iter (g_desc s d)) (env s))
     | Spent \<Rightarrow> undelivered content rest d s = [] \<and> undelivered content rest d t = []
     | Too_long \<Rightarrow> \<not> d_pending (g_desc t d) \<and> d_iter (g_desc t d) \<noteq> 0 \<and> undelivered content rest d t = undelivered content rest d s
         \<and> length (rest (d_dir (g_desc t d)) (d_iter (g_desc t d)) (env t)) + 1
             = length (rest (d_dir (g_desc s d)) (d_iter (g_desc s d)) (env s))
     | Failed x \<Rightarrow> x \<noteq> kal_ok \<and> x \<in> list_failures K \<and> undelivered content rest d t = undelivered content rest d s)"
proof (cases "d_pending (g_desc s d)")
  case True
  then have tw: "takeWhile (\<lambda>c. c \<noteq> NUL) (d_pending_name (g_desc s d)) = d_pending_name (g_desc s d)"
    using D(1) by (auto simp: dir_desc_def cstring_def takeWhile_eq_all_conv)
  have "(r, t) = (Entry (d_pending_name (g_desc s d)) (d_pending_kind (g_desc s d)), s)"
    unfolding f [symmetric] getdents_fetch_def Let_def tw using True by simp
  then have rt: "r = Entry (d_pending_name (g_desc s d)) (d_pending_kind (g_desc s d))" "t = s" by simp_all
  show ?thesis
    unfolding rt using True D by (simp add: undelivered_def enum_frame_def dir_desc_def Let_def)
next
  case False
  let ?p = "g_desc s d"
  obtain q e1 where q: "fs_list_next K (d_dir ?p) (d_iter ?p) 255 (env s) = (q, e1)" by fastforce
  have law: "case q of
        Inl x \<Rightarrow> x \<noteq> kal_ok \<and> rest (d_dir ?p) (d_iter ?p) e1 = rest (d_dir ?p) (d_iter ?p) (env s)
      | Inr (it', name, kind) \<Rightarrow>
          if it' = 0 then rest (d_dir ?p) (d_iter ?p) (env s) = []
          else rest (d_dir ?p) (d_iter ?p) (env s) = (name, kind) # rest (d_dir ?p) it' e1 \<and> cstring name"
  proof -
    have "\<forall>d it cap e. it \<noteq> 0 \<longrightarrow> (case fs_list_next K d it cap e of
        (Inl x, e') \<Rightarrow> x \<noteq> kal_ok \<and> rest d it e' = rest d it e
      | (Inr (it', name, kind), e') \<Rightarrow>
          if it' = 0 then rest d it e = []
          else rest d it e = (name, kind) # rest d it' e' \<and> cstring name)"
      using L by (simp add: lists_in_order_def)
    from this [rule_format, where d = "d_dir ?p" and cap = 255 and e = "env s", OF D(3)] show ?thesis
      unfolding q by simp
  qed
  show ?thesis
  proof (cases q)
    case (Inl x)
    then have "x \<in> list_failures K" using q unfolding list_failures_def by (metis (mono_tags) fst_conv mem_Collect_eq)
    with Inl law f q False D show ?thesis
      by (auto simp: getdents_fetch_def undelivered_def enum_frame_def)
  next
    case (Inr y)
    obtain it name kind where y: "y = (it, name, kind)" by (metis prod_cases3)
    have f': "(r, t) = (let s1 = set_desc d (?p\<lparr>d_iter := it\<rparr>) (s\<lparr>env := e1\<rparr>) in
       if it = 0 then (Spent, s1) else if 256 \<le> length name then (Too_long, s1) else (Entry name kind, s1))"
      using f False by (simp add: getdents_fetch_def q Inr y Let_def)
    consider "it = 0" | "it \<noteq> 0" "256 \<le> length name" | "it \<noteq> 0" "length name < 256" by force
    then show ?thesis
      by cases (use f' law False D in \<open>simp_all add: Inr y undelivered_def carried_def enum_frame_def dir_desc_def Let_def\<close>)
  qed
qed

section \<open>One call\<close>

text \<open>
  The contract of a call that begins with \<open>used\<close> bytes of the buffer filled: it writes the records of a
  prefix \<open>es\<close> of what was undelivered, the rest stays undelivered, and it answers the bytes filled.
  It answers without having filled any where nothing is undelivered, where the first entry is too
  large for the buffer, and where openkal fails.
\<close>

definition delivers ::
  "'e kal \<Rightarrow> (kal_dir \<Rightarrow> 'e \<Rightarrow> entry list) \<Rightarrow> (kal_dir \<Rightarrow> kal_uintptr \<Rightarrow> 'e \<Rightarrow> entry list) \<Rightarrow> nat \<Rightarrow> nat \<Rightarrow> nat
     \<Rightarrow> buffer \<Rightarrow> 'e okm \<Rightarrow> entry list \<Rightarrow> int + nat \<Rightarrow> buffer \<Rightarrow> 'e okm \<Rightarrow> bool" where
  "delivers K content rest d cap used buf s es r buf' t \<longleftrightarrow>
     undelivered content rest d s = es @ undelivered content rest d t
   \<and> records buf' used es \<and> (\<forall>i < used. buf' i = buf i) \<and> used + records_size es \<le> cap
   \<and> enum_frame d s t \<and> dir_desc (g_desc t d)
   \<and> (let u = used + records_size es in
        r = Inr u \<and> (u \<noteq> 0 \<or> undelivered content rest d t = [])
      \<or> u = 0 \<and> r = Inl (- EINVAL) \<and> (\<exists>en us. undelivered content rest d t = en # us \<and> cap < dirent_need (length (fst en)))
      \<or> u = 0 \<and> (\<exists>x. x \<noteq> kal_ok \<and> x \<in> list_failures K \<and> r = Inl (- okm_errno x)))"

lemma delivers_skip:
  assumes "delivers K content rest d cap used buf s1 es r buf' t"
    "undelivered content rest d s1 = undelivered content rest d s" "enum_frame d s s1"
  shows "delivers K content rest d cap used buf s es r buf' t"
  using assms enum_frame_trans [of d s s1 t] by (simp add: delivers_def)

lemma delivers_entry:
  assumes D: "delivers K content rest d cap (used + dirent_need (length name)) (put_dirent used name kind buf) s1 es r buf' t"
    and u: "undelivered content rest d s = (name, kind) # undelivered content rest d s1"
    and n: "cstring name" "length name < 256" and F: "enum_frame d s s1"
  shows "delivers K content rest d cap used buf s ((name, kind) # es) r buf' t"
proof -
  let ?n = "dirent_need (length name)"
  have same: "\<forall>i < used + ?n. buf' i = put_dirent used name kind buf i" using D by (simp add: delivers_def)
  have "holds buf' used (dirent_bytes used name kind)
      = holds (put_dirent used name kind buf) used (dirent_bytes used name kind)"
    by (rule holds_cong) (use same dirent_need_bounds(1) [of "length name"] in simp)
  then have h: "holds buf' used (dirent_bytes used name kind)" by (simp add: put_dirent_eq holds_write)
  have "\<forall>i < used. buf' i = buf i" using same by (simp add: put_dirent_eq write_at_def)
  then show ?thesis
    using D u n h enum_frame_trans [OF F, of t] by (simp add: delivers_def add.assoc)
qed

lemma getdents_loop_delivers:
  assumes L: "lists_in_order K content rest"
    and "dir_desc (g_desc s d)" "d_iter_open (g_desc s d)" "d_iter (g_desc s d) \<noteq> 0" "used \<le> cap"
  shows "\<exists>r buf' t es. getdents_loop K d cap used buf s = Some (r, buf', t)
    \<and> delivers K content rest d cap used buf s es r buf' t \<and> d_iter_open (g_desc t d)"
  using assms(2-)
proof (induction "length (rest (d_dir (g_desc s d)) (d_iter (g_desc s d)) (env s)) + (if d_pending (g_desc s d) then 1 else 0)"
    arbitrary: used buf s rule: less_induct)
  case less
  obtain f s1 where f: "getdents_fetch K d s = (f, s1)" by fastforce
  note spec = getdents_fetch_spec [OF L less.prems(1-3) f]
  then have fr: "enum_frame d s s1" "d_iter_open (g_desc s1 d)" "dir_desc (g_desc s1 d)" by simp_all
  note unf = getdents_loop.simps [of K d cap used buf s] f
  show ?case
  proof (cases f)
    case (Failed x)
    then have "delivers K content rest d cap used buf s [] (if used \<noteq> 0 then Inr used else Inl (- okm_errno x)) buf s1"
      using spec less.prems(4) by (auto simp: delivers_def)
    with fr show ?thesis by (auto simp: unf Failed)
  next
    case Spent
    then have "delivers K content rest d cap used buf s [] (Inr used) buf s1"
      using spec less.prems(4) by (auto simp: delivers_def)
    with fr show ?thesis by (auto simp: unf Spent)
  next
    case Too_long
    with spec have s1: "\<not> d_pending (g_desc s1 d)" "d_iter (g_desc s1 d) \<noteq> 0"
      "undelivered content rest d s1 = undelivered content rest d s"
      "length (rest (d_dir (g_desc s1 d)) (d_iter (g_desc s1 d)) (env s1))
        < length (rest (d_dir (g_desc s d)) (d_iter (g_desc s d)) (env s))" by simp_all
    obtain r buf' t es where l: "getdents_loop K d cap used buf s1 = Some (r, buf', t)"
      and dl: "delivers K content rest d cap used buf s1 es r buf' t" and io: "d_iter_open (g_desc t d)"
      using less.hyps [of s1 used buf] s1 fr less.prems(4) by auto
    have "getdents_loop K d cap used buf s = Some (r, buf', t)" using l by (simp add: unf Too_long)
    with delivers_skip [OF dl s1(3) fr(1)] io show ?thesis by blast
  next
    case (Entry name kind)
    let ?n = "dirent_need (length name)"
    define s2 where "s2 = set_desc d ((g_desc s1 d)\<lparr>d_pending := False\<rparr>) s1"
    have e: "d_iter (g_desc s1 d) \<noteq> 0" "cstring name" "length name < 256"
      "undelivered content rest d s = (name, kind) # undelivered content rest d s2"
      "d_pending (g_desc s1 d) \<Longrightarrow> undelivered content rest d s1 = undelivered content rest d s"
      "length (rest (d_dir (g_desc s1 d)) (d_iter (g_desc s1 d)) (env s1)) + (if d_pending (g_desc s d) then 0 else 1)
        = length (rest (d_dir (g_desc s d)) (d_iter (g_desc s d)) (env s))"
      using spec Entry by (simp_all add: s2_def)
    have fr2: "enum_frame d s s2" using fr(1) by (simp add: enum_frame_def s2_def)
    show ?thesis
    proof (cases "cap < used + ?n")
      case True
      let ?t = "hold_entry d name kind s1"
      have t: "undelivered content rest d ?t = undelivered content rest d s" "dir_desc (g_desc ?t d)"
        "d_iter_open (g_desc ?t d)" "enum_frame d s ?t"
        using e fr by (auto simp: hold_entry_def s2_def undelivered_def dir_desc_def enum_frame_def Let_def)
      have "delivers K content rest d cap used buf s [] (if used = 0 then Inl (- EINVAL) else Inr used) buf ?t"
        using True t e(4) less.prems(4) by (auto simp: delivers_def)
      with True t show ?thesis by (auto simp: unf Entry Let_def)
    next
      case False
      have "length (rest (d_dir (g_desc s2 d)) (d_iter (g_desc s2 d)) (env s2)) + (if d_pending (g_desc s2 d) then 1 else 0)
        < length (rest (d_dir (g_desc s d)) (d_iter (g_desc s d)) (env s)) + (if d_pending (g_desc s d) then 1 else 0)"
        using e(6) by (simp add: s2_def split: if_splits)
      then obtain r buf' t es where l: "getdents_loop K d cap (used + ?n) (put_dirent used name kind buf) s2 = Some (r, buf', t)"
        and dl: "delivers K content rest d cap (used + ?n) (put_dirent used name kind buf) s2 es r buf' t"
        and io: "d_iter_open (g_desc t d)"
        using less.hyps [of s2 "used + ?n" "put_dirent used name kind buf"] fr e(1) False
        by (auto simp: s2_def dir_desc_def)
      have "getdents_loop K d cap used buf s = Some (r, buf', t)"
        using l False by (simp add: unf Entry Let_def s2_def)
      with delivers_entry [OF dl e(4,2,3) fr2] io show ?thesis by blast
    qed
  qed
qed

lemma getdents_delivers:
  assumes L: "lists_in_order K content rest" and fd: "okm_desc_of fd s = Some d" and D: "dir_desc (g_desc s d)"
  shows "\<exists>r buf' t es. do_getdents K fd cap buf s = Some (r, buf', t)
    \<and> delivers K content rest d cap 0 buf s es r buf' t"
proof -
  let ?p = "g_desc s d"
  obtain q e1 where q: "(if d_iter_open ?p then (Inr (d_iter ?p), env s) else fs_list_begin K (d_dir ?p) (env s)) = (q, e1)"
    by fastforce
  have k: "d_kind ?p = OKM_DIR" using D by (simp add: dir_desc_def)
  have begun: "\<not> d_iter_open ?p \<Longrightarrow> (case q of
        Inl x \<Rightarrow> x \<noteq> kal_ok \<and> content (d_dir ?p) e1 = content (d_dir ?p) (env s)
      | Inr it \<Rightarrow> content (d_dir ?p) (env s) = (if it = 0 then [] else rest (d_dir ?p) it e1))"
  proof -
    assume no: "\<not> d_iter_open ?p"
    have "\<forall>d e. case fs_list_begin K d e of
        (Inl x, e') \<Rightarrow> x \<noteq> kal_ok \<and> content d e' = content d e
      | (Inr it, e') \<Rightarrow> content d e = (if it = 0 then [] else rest d it e')"
      using L by (simp add: lists_in_order_def)
    from this [rule_format, of "d_dir ?p" "env s"] show ?thesis
      using q no by simp
  qed
  note unf = do_getdents_def fd k q Let_def
  show ?thesis
  proof (cases q)
    case (Inl x)
    then have no: "\<not> d_iter_open ?p" using q by (auto split: if_splits)
    have "fst (fs_list_begin K (d_dir ?p) (env s)) = Inl x" using q no Inl by simp
    then have "x \<in> list_failures K" unfolding list_failures_def by blast
    then have "delivers K content rest d cap 0 buf s [] (Inl (- okm_errno x)) buf (s\<lparr>env := e1\<rparr>)"
      using begun [OF no] no D Inl by (auto simp: delivers_def undelivered_def enum_frame_def)
    then show ?thesis by (auto simp: unf Inl)
  next
    case (Inr it)
    define s1 where "s1 = set_desc d (?p\<lparr>d_iter := it, d_iter_open := True\<rparr>) (s\<lparr>env := e1\<rparr>)"
    have s1: "undelivered content rest d s1 = undelivered content rest d s" "dir_desc (g_desc s1 d)" "enum_frame d s s1"
      "d_iter_open (g_desc s1 d)" "d_iter (g_desc s1 d) = it"
      using begun q Inr D
      by (auto simp: s1_def undelivered_def dir_desc_def enum_frame_def carried_def Let_def split: if_splits)
    show ?thesis
    proof (cases "it = 0")
      case True
      then have "undelivered content rest d s1 = []"
        using s1(2,4,5) by (auto simp: undelivered_def dir_desc_def Let_def)
      with s1 True have "delivers K content rest d cap 0 buf s [] (Inr 0) buf s1"
        by (simp add: delivers_def)
      with True show ?thesis by (auto simp: unf Inr s1_def)
    next
      case False
      obtain r buf' t es where l: "getdents_loop K d cap 0 buf s1 = Some (r, buf', t)"
        and dl: "delivers K content rest d cap 0 buf s1 es r buf' t"
        using getdents_loop_delivers [OF L s1(2,4), of 0 cap buf] s1(5) False by auto
      have "do_getdents K fd cap buf s = Some (r, buf', t)" using l False by (simp add: unf Inr s1_def)
      with delivers_skip [OF dl s1(1,3)] show ?thesis by blast
    qed
  qed
qed

section \<open>The theorems\<close>


text \<open>A directory of two entries, enumerated by the iterators 1, 2 and 3.\<close>

definition two_entries :: "entry list" where
  "two_entries = [(''a'', kal_node_file), (''b'', kal_node_directory)]"

definition rest_two :: "kal_dir \<Rightarrow> kal_uintptr \<Rightarrow> unit \<Rightarrow> entry list" where
  "rest_two d it e = (if it = 1 then two_entries else if it = 2 then tl two_entries else [])"

definition list_kal :: "unit kal" where
  "list_kal = bare_kal\<lparr>fs_list_begin := (\<lambda>_ e. (Inr 1, e)),
     fs_list_next := (\<lambda>_ it _ e. (Inr (if it = 1 then (2, ''a'', kal_node_file)
        else if it = 2 then (3, ''b'', kal_node_directory) else (0, [], kal_node_absent)), e))\<rparr>"

lemma list_kal_lists: "lists_in_order list_kal (\<lambda>_ _. two_entries) rest_two"
  by (auto simp: lists_in_order_def list_kal_def rest_two_def two_entries_def)

lemma list_kal_failures: "list_failures list_kal = {}"
  by (simp add: list_failures_def list_kal_def)

definition dir_table :: "unit okm" where
  "dir_table = snd (okm_fd_bind list_kal 7 0 OKM_DIR 0 0 4 O_RDONLY (okm_table_init_memory (zero_okm ())))"

lemma dir_table_eq:
  "okm_desc_of 0 dir_table = Some 0" "g_desc dir_table 0 = bound_desc OKM_DIR 0 0 4 0 zero_desc"
  unfolding dir_table_def bind_first
  by (simp_all add: okm_desc_of_def fd_in_range_def okm_table_init_memory_def)

lemma dir_table_dir: "dir_desc (g_desc dir_table 0)"
  by (simp add: dir_table_eq dir_desc_def bound_desc_def)

lemma dir_table_undelivered: "undelivered (\<lambda>_ _. two_entries) rest_two 0 dir_table = two_entries"
  by (simp add: undelivered_def dir_table_eq bound_desc_def carried_def two_entries_def)


text \<open>
  The abstract directory stream: the entries yet to be handed out, in order. They are the records left
  in the buffer and what the description has not delivered.
\<close>

definition reading ::
  "(kal_dir \<Rightarrow> 'e \<Rightarrow> entry list) \<Rightarrow> (kal_dir \<Rightarrow> kal_uintptr \<Rightarrow> 'e \<Rightarrow> entry list) \<Rightarrow> dirstream \<Rightarrow> 'e okm
     \<Rightarrow> entry list \<Rightarrow> bool" where
  "reading content rest dir s xs \<longleftrightarrow>
     (\<exists>d es. okm_desc_of (dir_fd dir) s = Some d \<and> dir_desc (g_desc s d)
        \<and> records (dir_buf dir) (buf_pos dir) es \<and> buf_end dir = buf_pos dir + records_size es
        \<and> buf_end dir \<le> DIR_BUF \<and> xs = es @ undelivered content rest d s)"

lemma take_entry_reading:
  assumes fd: "okm_desc_of (dir_fd dir) s = Some d" "dir_desc (g_desc s d)"
    and r: "records (dir_buf dir) (buf_pos dir) (en # es)" "buf_end dir = buf_pos dir + records_size (en # es)"
      "buf_end dir \<le> DIR_BUF"
  shows "\<exists>dir'. take_entry dir s = Some (Inr (fst en, d_type_of (snd en)), dir', s)
    \<and> reading content rest dir' s (es @ undelivered content rest d s)"
proof -
  let ?p = "buf_pos dir" and ?n = "dirent_need (length (fst en))"
  have "holds (dir_buf dir) ?p (dirent_bytes ?p (fst en) (snd en))" "cstring (fst en)" "length (fst en) < 256"
    using r(1) by simp_all
  moreover have "?p + ?n < 2 ^ 64" using r(2,3) by simp
  ultimately have e: "de_name (dir_buf dir) ?p = fst en" "de_type (dir_buf dir) ?p = d_type_of (snd en)"
    "de_reclen (dir_buf dir) ?p = ?n" by (rule dirent_read)+
  let ?dir = "dir\<lparr>buf_pos := ?p + ?n, tell := int (de_off (dir_buf dir) ?p)\<rparr>"
  have "reading content rest ?dir s (es @ undelivered content rest d s)"
    unfolding reading_def by (rule exI [of _ d], rule exI [of _ es]) (use fd r in simp)
  then show ?thesis by (simp add: take_entry_def e)
qed

lemma okm_errno_ENOENT: "okm_errno x = ENOENT \<longleftrightarrow> x = kal_err_not_found"
  by (cases x) simp_all


text \<open>A directory stream as \<open>opendir\<close> leaves it, on the table's descriptor 0.\<close>

definition fresh_dir :: dirstream where
  "fresh_dir = \<lparr>tell = 0, dir_fd = 0, buf_pos = 0, buf_end = 0, dir_buf = (\<lambda>_. 0)\<rparr>"

lemma fresh_dir_reading: "reading (\<lambda>_ _. two_entries) rest_two fresh_dir dir_table two_entries"
  unfolding reading_def
  by (rule exI [of _ 0], rule exI [of _ "[]"])
    (simp add: fresh_dir_def dir_table_eq dir_table_dir [unfolded dir_table_eq] dir_table_undelivered)


text \<open>\<open>rewinddir\<close> does not begin the directory again. The \<open>lseek\<close> it makes is refused (\<open>ESPIPE\<close>), which it does not look at;
  it drops the records left in the buffer, so what follows is what the description had not delivered:
  after the directory has been read to its end, \<open>readdir\<close> goes on reporting the end, and entries that were
  in the buffer are lost.\<close>

theorem rewinddir_continues:
  assumes "okm_desc_of (dir_fd dir) s = Some d" and "dir_desc (g_desc s d)"
  shows "snd (rewinddir K dir s) = s
    \<and> fst (sys_lseek K (dir_fd dir) 0 SEEK_SET s) = - ESPIPE
    \<and> reading content rest (fst (rewinddir K dir s)) s (undelivered content rest d s)
    \<and> (d_iter_open (g_desc s d) \<and> d_iter (g_desc s d) = 0 \<longrightarrow>
        (\<exists>dir'. readdir K (fst (rewinddir K dir s)) s = Some (Inl 0, dir', s)))"
proof -
  have k: "d_kind (g_desc s d) = OKM_DIR" using assms(2) by (simp add: dir_desc_def)
  have "reading content rest (fst (rewinddir K dir s)) s (undelivered content rest d s)"
    unfolding reading_def by (rule exI [of _ d], rule exI [of _ "[]"]) (use assms in \<open>simp add: rewinddir_def\<close>)
  moreover have "do_getdents K (dir_fd dir) DIR_BUF (dir_buf dir) s = Some (Inr 0, dir_buf dir, s)"
    if "d_iter_open (g_desc s d)" "d_iter (g_desc s d) = 0"
  proof -
    have "(g_desc s d)\<lparr>d_iter := 0, d_iter_open := True\<rparr> = g_desc s d" using that by (cases "g_desc s d") simp
    then have eq: "set_desc d ((g_desc s d)\<lparr>d_iter := 0, d_iter_open := True\<rparr>) s = s"
      by (simp only: fun_upd_triv) simp
    then show ?thesis using that k by (simp add: do_getdents_def assms(1) eq)
  qed
  ultimately show ?thesis
    using k by (auto simp: rewinddir_def sys_lseek_def assms(1) readdir_def)
qed

theorem rewinddir_continues_witness:
  "fst (sys_lseek list_kal (dir_fd fresh_dir) 0 SEEK_SET dir_table) = - ESPIPE
    \<and> snd (rewinddir list_kal fresh_dir dir_table) = dir_table"
  using rewinddir_continues [of fresh_dir dir_table 0 list_kal, OF _ dir_table_dir]
  by (simp add: fresh_dir_def dir_table_eq)

end
