(* ===== verification/Okm_Children.thy ===== *)
theory Okm_Children
  imports Okm_Net
begin

text \<open>
  The programs this one has started (port/src/okm_syscall.c, "processes"): the table of children, the
  identifiers, waiting, resource use, and the signals that name a program or a unit of programs.

  The state is a record of its own that holds the state of the descriptor table, whose environment
  it shares. An identifier is an \<open>int\<close>; the counter of identifiers is bounded by the number of starts and
  its overflow is not modelled. \<open>kal_process_close\<close> is tested for together with \<open>kal_process_self\<close>, whose
  interface it belongs to. The compare-and-exchange loop that raises the peak of the children is the
  maximum it computes.
\<close>

abbreviation (input) OKM_MAX_CHILD :: nat where "OKM_MAX_CHILD \<equiv> 256"
abbreviation (input) INT_MAX :: int where "INT_MAX \<equiv> 0x7fffffff"
abbreviation (input) INT_MIN :: int where "INT_MIN \<equiv> - 0x80000000"
abbreviation (input) ECHILD :: int where "ECHILD \<equiv> 10"
abbreviation (input) ESRCH :: int where "ESRCH \<equiv> 3"
abbreviation (input) EPERM :: int where "EPERM \<equiv> 1"
abbreviation (input) WNOHANG :: flagword where "WNOHANG \<equiv> 1"
abbreviation (input) RUSAGE_SELF :: int where "RUSAGE_SELF \<equiv> 0"
abbreviation (input) RUSAGE_CHILDREN :: int where "RUSAGE_CHILDREN \<equiv> -1"

section \<open>State\<close>

record child =
  c_used :: bool
  c_pid :: int
  c_h :: kal_process
  c_job :: kal_job
  c_has_job :: bool

record 'e procs =
  g_child :: "nat \<Rightarrow> child"
  g_next_pid :: int
  g_self_pid :: int
  g_told_pid :: int
  g_job :: kal_job
  g_job_held :: bool
  g_children_cpu_ns :: kal_uintptr
  g_children_peak :: kal_uintptr
  tbl :: "'e okm"

definition zero_child :: child where
  "zero_child = \<lparr>c_used = False, c_pid = 0, c_h = 0, c_job = 0, c_has_job = False\<rparr>"

definition first_procs :: "'e okm \<Rightarrow> 'e procs" where
  "first_procs s = \<lparr>g_child = (\<lambda>_. zero_child), g_next_pid = 1000, g_self_pid = 0, g_told_pid = 1,
     g_job = 0, g_job_held = False, g_children_cpu_ns = 0, g_children_peak = 0, tbl = s\<rparr>"

abbreviation penv :: "'e procs \<Rightarrow> 'e" where "penv p \<equiv> env (tbl p)"

definition set_penv :: "'e \<Rightarrow> 'e procs \<Rightarrow> 'e procs" where
  "set_penv e p = p\<lparr>tbl := (tbl p)\<lparr>env := e\<rparr>\<rparr>"

definition set_child :: "nat \<Rightarrow> child \<Rightarrow> 'e procs \<Rightarrow> 'e procs" where
  "set_child i c p = p\<lparr>g_child := (g_child p)(i := c)\<rparr>"

section \<open>Identifiers\<close>

text \<open>The identifier the environment gives a program, where it says and it fits.\<close>

definition named_pid :: "'e kal \<Rightarrow> kal_process \<Rightarrow> 'e \<Rightarrow> int option" where
  "named_pid K h e =
     (case process_info K of
        None \<Rightarrow> None
      | Some f \<Rightarrow>
          (case f h e of
             Inl _ \<Rightarrow> None
           | Inr i \<Rightarrow>
               (case info_id i of
                  None \<Rightarrow> None
                | Some n \<Rightarrow> if 0 < n \<and> int n \<le> INT_MAX then Some (int n) else None)))"

definition okm_self_pid :: "'e kal \<Rightarrow> 'e procs \<Rightarrow> int \<times> 'e procs" where
  "okm_self_pid K p =
     (if g_self_pid p \<noteq> 0 then (g_self_pid p, p)
      else
        let (pid, p1) =
          (case (process_self K, process_info K) of
             (Some self, Some _) \<Rightarrow>
               (case self (penv p) of
                  (Inl _, e1) \<Rightarrow> (g_told_pid p, set_penv e1 p)
                | (Inr me, e1) \<Rightarrow>
                    (case named_pid K me e1 of None \<Rightarrow> g_told_pid p | Some n \<Rightarrow> n,
                     set_penv (process_close K me e1) p))
           | _ \<Rightarrow> (g_told_pid p, p))
        in (pid, p1\<lparr>g_self_pid := pid\<rparr>))"

definition okm_set_self_pid :: "int \<Rightarrow> 'e procs \<Rightarrow> 'e procs" where
  "okm_set_self_pid pid p = p\<lparr>g_told_pid := pid, g_self_pid := 0\<rparr>"

definition okm_other_runs :: "'e kal \<Rightarrow> int \<Rightarrow> 'e procs \<Rightarrow> int \<times> 'e procs" where
  "okm_other_runs K pid p =
     (if pid \<le> 0 then (-1, p)
      else case (process_open_id K, process_info K) of
        (Some open_id, Some ask) \<Rightarrow>
          (case open_id (nat pid) (penv p) of
             (Inl e, e1) \<Rightarrow> (if e = kal_err_not_found then 0 else -1, set_penv e1 p)
           | (Inr other, e1) \<Rightarrow>
               (case ask other e1 of
                  Inl _ \<Rightarrow> 1
                | Inr i \<Rightarrow> (case info_ended i of None \<Rightarrow> 1 | Some ended \<Rightarrow> if ended then 0 else 1),
                set_penv (process_close K other e1) p))
      | _ \<Rightarrow> (-1, p))"

section \<open>The table\<close>

definition okm_child_reserve :: "'e procs \<Rightarrow> nat option \<times> 'e procs" where
  "okm_child_reserve p =
     (case scan_up (\<lambda>i. \<not> c_used (g_child p i)) 0 OKM_MAX_CHILD of
        None \<Rightarrow> (None, p)
      | Some i \<Rightarrow>
          (Some i, set_child i \<lparr>c_used = True, c_pid = g_next_pid p + 1, c_h = 0, c_job = 0, c_has_job = False\<rparr>
                     (p\<lparr>g_next_pid := g_next_pid p + 1\<rparr>)))"

definition okm_child_commit :: "'e kal \<Rightarrow> nat \<Rightarrow> kal_process \<Rightarrow> 'e procs \<Rightarrow> int \<times> 'e procs" where
  "okm_child_commit K slot h p =
     (if OKM_MAX_CHILD \<le> slot then (-1, p)
      else
        let c = (g_child p slot)\<lparr>c_h := h\<rparr>;
            c1 = (case named_pid K h (penv p) of None \<Rightarrow> c | Some n \<Rightarrow> c\<lparr>c_pid := n\<rparr>)
        in (c_pid c1, set_child slot c1 p))"

definition okm_child_job :: "nat \<Rightarrow> kal_job \<Rightarrow> 'e procs \<Rightarrow> 'e procs" where
  "okm_child_job slot j p =
     (if slot < OKM_MAX_CHILD \<and> j \<noteq> 0
      then set_child slot ((g_child p slot)\<lparr>c_job := j, c_has_job := True\<rparr>) p else p)"

definition okm_child_release :: "nat \<Rightarrow> 'e procs \<Rightarrow> 'e procs" where
  "okm_child_release slot p =
     (if slot < OKM_MAX_CHILD then set_child slot ((g_child p slot)\<lparr>c_used := False\<rparr>) p else p)"

definition okm_child_record_job :: "'e kal \<Rightarrow> kal_uintptr \<Rightarrow> kal_process \<Rightarrow> kal_job \<Rightarrow> 'e procs \<Rightarrow> int \<times> 'e procs" where
  "okm_child_record_job K me h j p =
     (case okm_child_reserve p of
        (None, p1) \<Rightarrow> (- EAGAIN, p1\<lparr>tbl := okm_unlock K me (tbl p1)\<rparr>)
      | (Some slot, p1) \<Rightarrow>
          (case okm_child_commit K slot h p1 of
             (pid, p2) \<Rightarrow>
               let p3 = okm_child_job slot j p2
               in (pid, p3\<lparr>tbl := okm_unlock K me (tbl p3)\<rparr>)))"

definition okm_child_record :: "'e kal \<Rightarrow> kal_uintptr \<Rightarrow> kal_process \<Rightarrow> 'e procs \<Rightarrow> int \<times> 'e procs" where
  "okm_child_record K me h p = okm_child_record_job K me h 0 p"

definition okm_forget_children :: "'e procs \<Rightarrow> 'e procs" where
  "okm_forget_children p =
     p\<lparr>g_child := (\<lambda>i. if i < OKM_MAX_CHILD then (g_child p i)\<lparr>c_used := False\<rparr> else g_child p i)\<rparr>"

definition child_index :: "int \<Rightarrow> 'e procs \<Rightarrow> nat option" where
  "child_index pid p = scan_up (\<lambda>i. c_used (g_child p i) \<and> c_pid (g_child p i) = pid) 0 OKM_MAX_CHILD"

definition job_index :: "int \<Rightarrow> 'e procs \<Rightarrow> nat option" where
  "job_index pid p = scan_up (\<lambda>i. c_has_job (g_child p i) \<and> c_pid (g_child p i) = pid) 0 OKM_MAX_CHILD"

section \<open>A signal aimed at this program\<close>

text \<open>What a call that may end the program does: it answers, or the program aborts or exits.\<close>

datatype outcome = Answers int | Aborts | Exits int

abbreviation (input) NSIG :: int where "NSIG \<equiv> 65"
abbreviation (input) SIGABRT :: int where "SIGABRT \<equiv> 6"
abbreviation (input) SIGCHLD :: int where "SIGCHLD \<equiv> 17"
abbreviation (input) SIGCONT :: int where "SIGCONT \<equiv> 18"
abbreviation (input) SIGSTOP :: int where "SIGSTOP \<equiv> 19"
abbreviation (input) SIGTSTP :: int where "SIGTSTP \<equiv> 20"
abbreviation (input) SIGTTIN :: int where "SIGTTIN \<equiv> 21"
abbreviation (input) SIGTTOU :: int where "SIGTTOU \<equiv> 22"
abbreviation (input) SIGURG :: int where "SIGURG \<equiv> 23"
abbreviation (input) SIGWINCH :: int where "SIGWINCH \<equiv> 28"
abbreviation (input) OKM_SIG_MUSL_LOW :: int where "OKM_SIG_MUSL_LOW \<equiv> 32"
abbreviation (input) OKM_SIG_MUSL_HIGH :: int where "OKM_SIG_MUSL_HIGH \<equiv> 34"

definition signal_self :: "int \<Rightarrow> outcome" where
  "signal_self sig =
     (if sig = 0 then Answers 0
      else if sig < 0 \<or> NSIG \<le> sig then Answers (- EINVAL)
      else if OKM_SIG_MUSL_LOW \<le> sig \<and> sig \<le> OKM_SIG_MUSL_HIGH then Answers (- ENOSYS)
      else if sig = SIGCHLD \<or> sig = SIGURG \<or> sig = SIGWINCH then Answers 0
      else if sig = SIGSTOP \<or> sig = SIGTSTP \<or> sig = SIGTTIN \<or> sig = SIGTTOU \<or> sig = SIGCONT
      then Answers (- ENOSYS)
      else if sig = SIGABRT then Aborts
      else Exits (128 + sig))"

section \<open>Resource use\<close>

record rusage =
  ru_utime :: "int \<times> int"
  ru_maxrss :: int

definition usage_of :: "kal_uintptr \<Rightarrow> kal_uintptr \<Rightarrow> rusage" where
  "usage_of cpu_ns peak =
     \<lparr>ru_utime = (sint (cpu_ns div 1000000000), sint (cpu_ns mod 1000000000 div 1000)),
      ru_maxrss = sint (peak div 1024)\<rparr>"

text \<open>Processor time and peak of a program, zero for what is not answered.\<close>

definition used_by :: "'e kal \<Rightarrow> kal_process \<Rightarrow> 'e \<Rightarrow> kal_uintptr \<times> kal_uintptr" where
  "used_by K h e =
     (case process_info K of
        None \<Rightarrow> (0, 0)
      | Some f \<Rightarrow>
          (case f h e of
             Inl _ \<Rightarrow> (0, 0)
           | Inr i \<Rightarrow> (of_nat (case info_cpu_ns i of None \<Rightarrow> 0 | Some n \<Rightarrow> n),
                       of_nat (case info_peak i of None \<Rightarrow> 0 | Some n \<Rightarrow> n))))"

definition child_usage :: "'e kal \<Rightarrow> kal_process \<Rightarrow> 'e procs \<Rightarrow> rusage \<times> 'e procs" where
  "child_usage K h p =
     (let (cpu, peak) = used_by K h (penv p)
      in (usage_of cpu peak,
          p\<lparr>g_children_cpu_ns := g_children_cpu_ns p + cpu, g_children_peak := max (g_children_peak p) peak\<rparr>))"

definition do_getrusage :: "'e kal \<Rightarrow> int \<Rightarrow> bool \<Rightarrow> 'e procs \<Rightarrow> (int + rusage) \<times> 'e procs" where
  "do_getrusage K who given p =
     (if \<not> given then (Inl (- EFAULT), p)
      else if who = RUSAGE_CHILDREN then (Inr (usage_of (g_children_cpu_ns p) (g_children_peak p)), p)
      else if who \<noteq> RUSAGE_SELF then (Inl (- EINVAL), p)
      else case (process_self K, process_info K) of
        (Some self, Some _) \<Rightarrow>
          (case self (penv p) of
             (Inl _, e1) \<Rightarrow> (Inr (usage_of 0 0), set_penv e1 p)
           | (Inr me, e1) \<Rightarrow>
               (let (cpu, peak) = used_by K me e1
                in (Inr (usage_of cpu peak), set_penv (process_close K me e1) p)))
      | _ \<Rightarrow> (Inr (usage_of 0 0), p))"

section \<open>Waiting\<close>

text \<open>\<open>status\<close> as it is written, and musl's readings of it (musl/include/sys/wait.h).\<close>

definition wait_status :: "int \<Rightarrow> bool \<Rightarrow> int" where
  "wait_status st terminated = (if terminated then st AND 0x7f else push_bit 8 (st AND 0xff))"

definition WEXITSTATUS :: "int \<Rightarrow> int" where
  "WEXITSTATUS s = drop_bit 8 (s AND 0xff00)"

definition WTERMSIG :: "int \<Rightarrow> int" where
  "WTERMSIG s = s AND 0x7f"

definition WIFEXITED :: "int \<Rightarrow> bool" where
  "WIFEXITED s \<longleftrightarrow> WTERMSIG s = 0"

definition WIFSIGNALED :: "int \<Rightarrow> bool" where
  "WIFSIGNALED s \<longleftrightarrow> (of_int (s AND 0xffff) - 1 :: 32 word) < 0xff"

text \<open>\<open>for (k\<dots>; found < 0; \<dots>)\<close>: each child in turn is asked whether it has ended, by the smallest
  bound there is; the first that does not answer \<open>kal_err_again\<close> is found, with its answer.\<close>

function wait_any ::
  "'e kal_timeout \<Rightarrow> nat \<Rightarrow> 'e procs \<Rightarrow> (nat \<times> (kal_error + int \<times> bool)) option \<times> 'e procs" where
  "wait_any T k p =
     (if k < OKM_MAX_CHILD then
        (if \<not> c_used (g_child p k) then wait_any T (Suc k) p
         else case timeout_wait_process T (c_h (g_child p k)) OKM_NOW_NS (penv p) of
           (r, e1) \<Rightarrow>
             if r = Inl kal_err_again then wait_any T (Suc k) (set_penv e1 p)
             else (Some (k, r), set_penv e1 p))
      else (None, p))"
  by pat_completeness auto
termination
  by (relation "measure (\<lambda>(T, k, p). OKM_MAX_CHILD - k)") auto

declare wait_any.simps [simp del]

text \<open>The end of \<open>do_wait4\<close>: the child's use is counted, its handle released and its entry freed. The
  answer holds the identifier and what is written through the two pointers, where they are given.\<close>

definition reap ::
  "'e kal \<Rightarrow> nat \<Rightarrow> kal_error + int \<times> bool \<Rightarrow> 'e procs \<Rightarrow> (int + int \<times> int \<times> rusage) \<times> 'e procs" where
  "reap K i r p =
     (case r of
        Inl e \<Rightarrow> (Inl (- okm_errno e), p)
      | Inr (st, terminated) \<Rightarrow>
          (case child_usage K (c_h (g_child p i)) p of
             (ru, p1) \<Rightarrow>
               let c = g_child p1 i;
                   p2 = set_penv (process_close K (c_h c) (penv p1)) p1
               in (Inr (c_pid c, wait_status st terminated, ru), set_child i (c\<lparr>c_used := False\<rparr>) p2)))"

definition do_wait4 ::
  "'e kal \<Rightarrow> int \<Rightarrow> flagword \<Rightarrow> 'e procs \<Rightarrow> (int + int \<times> int \<times> rusage) \<times> 'e procs" where
  "do_wait4 K pid options p =
     (case (if 0 < pid then child_index pid p
            else scan_up (\<lambda>k. c_used (g_child p k)) 0 OKM_MAX_CHILD) of
        None \<Rightarrow> (Inl (- ECHILD), p)
      | Some i \<Rightarrow>
          if has options WNOHANG then
            (case K_timeout K of
               None \<Rightarrow> (Inl (- ENOSYS), p)
             | Some T \<Rightarrow>
                 if 0 < pid then
                   (case timeout_wait_process T (c_h (g_child p i)) OKM_NOW_NS (penv p) of
                      (r, e1) \<Rightarrow>
                        if r = Inl kal_err_again then (Inl 0, set_penv e1 p)
                        else reap K i r (set_penv e1 p))
                 else
                   (case wait_any T 0 p of
                      (None, p1) \<Rightarrow> (Inl 0, p1)
                    | (Some (k, r), p1) \<Rightarrow> reap K k r p1))
          else
            (case process_wait K (c_h (g_child p i)) (penv p) of
               (r, e1) \<Rightarrow> reap K i r (set_penv e1 p)))"

text \<open>How \<open>execve\<close> ends, once the program that stands for this one has been started as \<open>child\<close>: with its
  status, in the form a shell reads.\<close>

definition exit_code :: "int \<Rightarrow> int" where
  "exit_code st = (if st AND 0x7f \<noteq> 0 then 128 + (st AND 0x7f) else drop_bit 8 st AND 0xff)"

definition execve_end :: "'e kal \<Rightarrow> int \<Rightarrow> 'e procs \<Rightarrow> outcome \<times> 'e procs" where
  "execve_end K child p =
     (case do_wait4 K child 0 p of
        (Inl e, p1) \<Rightarrow> (if e < 0 then Exits 127 else Exits (exit_code 0), p1)
      | (Inr (pid, st, ru), p1) \<Rightarrow> (Exits (exit_code st), p1))"

section \<open>Signals to others, groups\<close>

definition job_signal :: "'e kal \<Rightarrow> kal_job \<Rightarrow> int \<Rightarrow> 'e procs \<Rightarrow> outcome \<times> 'e procs" where
  "job_signal K j sig p =
     (if sig = 0 then (Answers 0, p)
      else case process_job_terminate K j (penv p) of
        (e, e1) \<Rightarrow> (Answers (if e = kal_ok then 0 else - okm_errno e), set_penv e1 p))"

definition kill_unit :: "'e kal \<Rightarrow> int \<Rightarrow> int \<Rightarrow> 'e procs \<Rightarrow> outcome \<times> 'e procs" where
  "kill_unit K unit sig p =
     (case job_index unit p of
        Some gi \<Rightarrow> job_signal K (c_job (g_child p gi)) sig p
      | None \<Rightarrow>
          if g_job_held p then
            (case okm_self_pid K p of
               (self, p1) \<Rightarrow> if unit = self then job_signal K (g_job p1) sig p1 else (Answers (- ESRCH), p1))
          else (Answers (- ESRCH), p))"

definition sys_kill :: "'e kal \<Rightarrow> int \<Rightarrow> int \<Rightarrow> 'e procs \<Rightarrow> outcome \<times> 'e procs" where
  "sys_kill K pid sig p =
     (if pid < 0 \<and> pid \<noteq> -1 \<and> pid \<noteq> INT_MIN then kill_unit K (- pid) sig p
      else case child_index pid p of
        Some i \<Rightarrow>
          if sig = 0 then (Answers 0, p)
          else (case process_terminate K (c_h (g_child p i)) (penv p) of
                  (e, e1) \<Rightarrow> (Answers (if e = kal_ok then 0 else - okm_errno e), set_penv e1 p))
      | None \<Rightarrow>
          (case okm_self_pid K p of
             (self, p1) \<Rightarrow>
               if pid = self \<or> pid = 0 \<or> pid = -1 then (signal_self sig, p1)
               else
                 (case okm_other_runs K pid p1 of
                    (runs, p2) \<Rightarrow>
                      if runs \<le> 0 then (Answers (- ESRCH), p2)
                      else (Answers (if sig = 0 then 0 else - EPERM), p2))))"

definition sys_getpgid :: "'e kal \<Rightarrow> int \<Rightarrow> 'e procs \<Rightarrow> int \<times> 'e procs" where
  "sys_getpgid K a1 p =
     (case okm_self_pid K p of
        (self, p1) \<Rightarrow>
          if a1 = 0 \<or> a1 = self then (self, p1)
          else if child_index a1 p1 \<noteq> None then (a1, p1)
          else case okm_other_runs K a1 p1 of
            (runs, p2) \<Rightarrow> (if runs = 1 then a1 else - ESRCH, p2))"

definition sys_setpgid :: "'e kal \<Rightarrow> int \<Rightarrow> int \<Rightarrow> 'e procs \<Rightarrow> int \<times> 'e procs" where
  "sys_setpgid K a1 a2 p =
     (case (if a1 \<noteq> 0 then okm_self_pid K p else (a1, p)) of
        (who, p1) \<Rightarrow>
          if a1 \<noteq> 0 \<and> a1 \<noteq> who then (- EPERM, p1)
          else
            (case (if a2 = 0 then (a2, p1) else okm_self_pid K p1) of
               (grp, p2) \<Rightarrow>
                 if a2 = 0 \<or> a2 = grp then
                   (case process_job_enter K (penv p2) of
                      (Inr unit, e1) \<Rightarrow> (0, (set_penv e1 p2)\<lparr>g_job := unit, g_job_held := True\<rparr>)
                    | (Inl e, e1) \<Rightarrow>
                        (if e = kal_err_not_supported then 0 else - okm_errno e, set_penv e1 p2))
                 else (- EPERM, p2)))"

section \<open>Waiting reports a child that ended, once\<close>

lemma procs_selectors [simp]:
  "g_child (set_penv e p) = g_child p" "penv (set_penv e p) = e" "set_penv e (set_penv e' p) = set_penv e p"
  "g_children_cpu_ns (set_penv e p) = g_children_cpu_ns p" "g_children_peak (set_penv e p) = g_children_peak p"
  "g_job (set_penv e p) = g_job p" "g_job_held (set_penv e p) = g_job_held p" "g_next_pid (set_penv e p) = g_next_pid p"
  "g_child (set_child i c p) = (g_child p)(i := c)" "tbl (set_child i c p) = tbl p" "g_next_pid (set_child i c p) = g_next_pid p"
  "set_penv (penv p) p = p"
  by (simp_all add: set_penv_def set_child_def)

text \<open>
  What \<open>WNOHANG\<close> relies on: a wait with the smallest bound answers the status of a program that has ended
  and \<open>kal_err_again\<close> otherwise, and asking changes nothing of that.
\<close>

definition tells_ended ::
  "'e kal_timeout \<Rightarrow> (kal_process \<Rightarrow> 'e \<Rightarrow> (int \<times> bool) option) \<Rightarrow> bool" where
  "tells_ended T ended \<longleftrightarrow>
     (\<forall>h e. fst (timeout_wait_process T h OKM_NOW_NS e)
              = (case ended h e of None \<Rightarrow> Inl kal_err_again | Some r \<Rightarrow> Inr r)
          \<and> (\<forall>g. ended g (snd (timeout_wait_process T h OKM_NOW_NS e)) = ended g e))"

text \<open>The entries a call asks after: the first with the identifier named, or every one.\<close>

definition awaited :: "int \<Rightarrow> 'e procs \<Rightarrow> nat \<Rightarrow> bool" where
  "awaited pid p i \<longleftrightarrow> (if 0 < pid then child_index pid p = Some i else i < OKM_MAX_CHILD \<and> c_used (g_child p i))"

lemma tells_endedD:
  assumes "tells_ended T ended" "timeout_wait_process T h OKM_NOW_NS e = (x, e1)"
  shows "x = (case ended h e of None \<Rightarrow> Inl kal_err_again | Some r \<Rightarrow> Inr r)" "ended g e1 = ended g e"
proof -
  have "fst (timeout_wait_process T h OKM_NOW_NS e)
              = (case ended h e of None \<Rightarrow> Inl kal_err_again | Some r \<Rightarrow> Inr r)
          \<and> (\<forall>g. ended g (snd (timeout_wait_process T h OKM_NOW_NS e)) = ended g e)"
    using assms(1) unfolding tells_ended_def by blast
  then show "x = (case ended h e of None \<Rightarrow> Inl kal_err_again | Some r \<Rightarrow> Inr r)" "ended g e1 = ended g e"
    unfolding assms(2) fst_conv snd_conv by blast+
qed

lemma wait_any_spec:
  assumes "tells_ended T ended" "wait_any T k p = (r, q)"
  shows "\<exists>e. q = set_penv e p \<and> (\<forall>g. ended g e = ended g (penv p))
    \<and> (case r of
         None \<Rightarrow> \<forall>i\<in>{k..<OKM_MAX_CHILD}. c_used (g_child p i) \<longrightarrow> ended (c_h (g_child p i)) (penv p) = None
       | Some (i, x) \<Rightarrow> i < OKM_MAX_CHILD \<and> c_used (g_child p i)
           \<and> (\<exists>w. ended (c_h (g_child p i)) (penv p) = Some w \<and> x = Inr w))"
  using assms
proof (induction T k p arbitrary: r q rule: wait_any.induct)
  case (1 T k p)
  note unf = "1.prems"(2) [unfolded wait_any.simps [of T k p]]
  show ?case
  proof (cases "k < OKM_MAX_CHILD")
    case False
    then show ?thesis using unf by (intro exI [of _ "penv p"]) auto
  next
    case k: True
    have from_k: "{k..<OKM_MAX_CHILD} = insert k {Suc k..<OKM_MAX_CHILD}" using k by auto
    show ?thesis
    proof (cases "c_used (g_child p k)")
      case False
      with "1.IH"(1) "1.prems"(1) k unf obtain e where "q = set_penv e p" "\<forall>g. ended g e = ended g (penv p)" and
        "case r of
           None \<Rightarrow> \<forall>i\<in>{Suc k..<OKM_MAX_CHILD}. c_used (g_child p i) \<longrightarrow> ended (c_h (g_child p i)) (penv p) = None
         | Some (i, x) \<Rightarrow> i < OKM_MAX_CHILD \<and> c_used (g_child p i)
             \<and> (\<exists>w. ended (c_h (g_child p i)) (penv p) = Some w \<and> x = Inr w)" by auto
      with False show ?thesis unfolding from_k by (cases r) auto
    next
      case used: True
      obtain x e1 where w: "timeout_wait_process T (c_h (g_child p k)) OKM_NOW_NS (penv p) = (x, e1)" by fastforce
      note x = tells_endedD(1) [OF "1.prems"(1) w] and keep = tells_endedD(2) [OF "1.prems"(1) w]
      show ?thesis
      proof (cases "ended (c_h (g_child p k)) (penv p)")
        case None
        then have again: "x = Inl kal_err_again" using x by simp
        moreover have "\<not> \<not> c_used (g_child p k)" using used by simp
        ultimately have rest: "wait_any T (Suc k) (set_penv e1 p) = (r, q)" using k w unf by simp
        note ih = "1.IH"(2) [OF k \<open>\<not> \<not> c_used (g_child p k)\<close> w [symmetric] again "1.prems"(1) rest, unfolded procs_selectors]
        then obtain e where "q = set_penv e p" "\<forall>g. ended g e = ended g e1" and
          "case r of
             None \<Rightarrow> \<forall>i\<in>{Suc k..<OKM_MAX_CHILD}. c_used (g_child p i) \<longrightarrow> ended (c_h (g_child p i)) e1 = None
           | Some (i, y) \<Rightarrow> i < OKM_MAX_CHILD \<and> c_used (g_child p i)
               \<and> (\<exists>w. ended (c_h (g_child p i)) e1 = Some w \<and> y = Inr w)" by blast
        with None keep show ?thesis unfolding from_k by (cases r) auto
      next
        case (Some v)
        with x k used w unf keep show ?thesis by auto
      qed
    qed
  qed
qed

lemma reap_Inr:
  "reap K i (Inr (st, t)) p =
     (Inr (c_pid (g_child p i), wait_status st t, fst (child_usage K (c_h (g_child p i)) p)),
      set_child i ((g_child p i)\<lparr>c_used := False\<rparr>)
        (set_penv (process_close K (c_h (g_child p i)) (penv p)) (snd (child_usage K (c_h (g_child p i)) p))))"
  by (simp add: reap_def child_usage_def case_prod_beta Let_def)

lemma child_usage_child [simp]: "g_child (snd (child_usage K h p)) = g_child p"
  by (simp add: child_usage_def case_prod_beta)

lemma child_index_Some:
  assumes "child_index pid p = Some i"
  shows "i < OKM_MAX_CHILD" "c_used (g_child p i)" "c_pid (g_child p i) = pid"
  using scan_upD [OF assms [unfolded child_index_def]] by simp_all

lemma awaitedD: "awaited pid p i \<Longrightarrow> i < OKM_MAX_CHILD \<and> c_used (g_child p i) \<and> (0 < pid \<longrightarrow> c_pid (g_child p i) = pid)"
  using child_index_Some by (auto simp: awaited_def split: if_splits)

text \<open>What a child that is reaped leaves behind.\<close>

definition reaped :: "nat \<Rightarrow> 'e procs \<Rightarrow> 'e procs \<Rightarrow> bool" where
  "reaped i p q \<longleftrightarrow> g_child q = (g_child p)(i := (g_child p i)\<lparr>c_used := False\<rparr>)"


text \<open>Three children; the first has not ended, the second and third have.\<close>

definition ended_sample :: "kal_process \<Rightarrow> unit \<Rightarrow> (int \<times> bool) option" where
  "ended_sample h e = (if h = 12 then Some (3, False) else if h = 13 then Some (9, True) else None)"

definition wait_sample :: "unit kal_timeout" where
  "wait_sample = \<lparr>timeout_read = (\<lambda>_ _ _ e. (Inl kal_err_again, e)), timeout_write = (\<lambda>_ _ _ e. (Inl kal_err_again, e)),
     timeout_accept = (\<lambda>_ _ e. (Inl kal_err_again, e)), timeout_recv_from = (\<lambda>_ _ _ e. (Inl kal_err_again, e)),
     timeout_wait_process = (\<lambda>h _ e. (case ended_sample h e of None \<Rightarrow> Inl kal_err_again | Some r \<Rightarrow> Inr r, e))\<rparr>"

definition three_children :: "unit procs" where
  "three_children = (first_procs (zero_okm ()))\<lparr>g_child := (\<lambda>i. if i < 3
     then \<lparr>c_used = True, c_pid = 1001 + int i, c_h = 11 + of_nat i, c_job = 0, c_has_job = False\<rparr> else zero_child)\<rparr>"

definition wait_kal :: "unit kal" where
  "wait_kal = bare_kal\<lparr>K_timeout := Some wait_sample\<rparr>"


section \<open>The status a parent reads\<close>

lemma low_bits: "(x::int) AND 0x7f = x mod 128" "x AND 0xff = x mod 256" "x AND 0xffff = x mod 65536"
  using take_bit_eq_mask [of 7 x] take_bit_eq_mask [of 8 x] take_bit_eq_mask [of 16 x]
  by (simp_all add: take_bit_eq_mod mask_eq_exp_minus_1)

lemma wait_status_values:
  "wait_status st False = 256 * (st mod 256)" "wait_status sig True = sig mod 128"
  by (simp_all add: wait_status_def low_bits push_bit_eq_mult)

lemma WEXITSTATUS_shifted: "WEXITSTATUS (256 * y) = y mod 256"
  unfolding WEXITSTATUS_def drop_bit_and by (simp add: drop_bit_eq_div low_bits)

lemma WIFSIGNALED_value:
  assumes "0 \<le> s" "s < 65536"
  shows "WIFSIGNALED s \<longleftrightarrow> 0 < s \<and> s < 256"
proof (cases "s = 0")
  case False
  have "(of_int s - 1 :: 32 word) = of_int (s - 1)" by simp
  moreover have "uint (of_int (s - 1) :: 32 word) = s - 1"
    using assms False by (simp add: unsigned_of_int take_bit_eq_mod del: of_int_diff)
  ultimately show ?thesis using assms False by (simp add: WIFSIGNALED_def low_bits word_less_alt del: of_int_diff)
qed (simp add: WIFSIGNALED_def)

lemma exit_code_values:
  "exit_code (256 * (st mod 256)) = st mod 256" "0 < sig mod 128 \<Longrightarrow> exit_code (sig mod 128) = 128 + sig mod 128"
  by (simp_all add: exit_code_def low_bits drop_bit_eq_div)

lemma exit_code_range: "0 \<le> exit_code (wait_status st t)" "exit_code (wait_status st t) < 256"
  by (cases t; simp add: exit_code_def low_bits drop_bit_eq_div wait_status_values)+

text \<open>What a program ended with reaches whoever waits for it. A program that returned is read as exited, with the low eight
  bits of what it returned; one that a signal ended (the signals with a number and default action are
  1 to 64) is read as signalled, with that number, and never as exited. And \<open>execve\<close>, which here starts the program, waits and
  exits, hands the same status on: a status that has passed through any number of such levels is
  the one the first of them had, in the form \<open>128 + n\<close> for a signal.\<close>

theorem wait_status_roundtrip:
  "(\<forall>st. WIFEXITED (wait_status st False) \<and> \<not> WIFSIGNALED (wait_status st False)
         \<and> WEXITSTATUS (wait_status st False) = st mod 256)
   \<and> (\<forall>sig \<in> {1..64}. WIFSIGNALED (wait_status sig True) \<and> \<not> WIFEXITED (wait_status sig True)
         \<and> WTERMSIG (wait_status sig True) = sig \<and> exit_code (wait_status sig True) = 128 + sig)
   \<and> (\<forall>st. exit_code (wait_status st False) = st mod 256)
   \<and> (\<forall>st t. WEXITSTATUS (wait_status (exit_code (wait_status st t)) False) = exit_code (wait_status st t))"
proof (intro conjI allI ballI)
  fix st
  have "256 * (st mod 256) < (65536 :: int)" using pos_mod_bound [of 256 st] by linarith
  then show "\<not> WIFSIGNALED (wait_status st False)"
    unfolding wait_status_values by (subst WIFSIGNALED_value) auto
next
  fix sig :: int assume s: "sig \<in> {1..64}"
  then have "sig mod 128 = sig" by simp
  then show "WIFSIGNALED (wait_status sig True)" "\<not> WIFEXITED (wait_status sig True)" "WTERMSIG (wait_status sig True) = sig"
    "exit_code (wait_status sig True) = 128 + sig"
    using s exit_code_values(2) [of sig]
    by (simp_all add: wait_status_values WIFSIGNALED_value WIFEXITED_def WTERMSIG_def low_bits)
next
  fix st t
  show "WEXITSTATUS (wait_status (exit_code (wait_status st t)) False) = exit_code (wait_status st t)"
    using exit_code_range [of st t] by (simp add: wait_status_values(1) WEXITSTATUS_shifted)
qed (simp_all add: wait_status_values WIFEXITED_def WTERMSIG_def low_bits WEXITSTATUS_shifted exit_code_values)

theorem wait_status_roundtrip_witness:
  "WIFSIGNALED (wait_status 9 True) \<and> WTERMSIG (wait_status 9 True) = 9 \<and> exit_code (wait_status 9 True) = 137"
proof -
  have "(9::int) \<in> {1..64}" by simp
  with wait_status_roundtrip [THEN conjunct2, THEN conjunct1] show ?thesis by force
qed

section \<open>A signal reaches what it names\<close>

datatype target = TProgram kal_process | TUnit kal_job

text \<open>
  What is relied on: \<open>gone e\<close> are the programs and units that were told to end. Ending one tells no
  other, and opening, asking and releasing tell none.
\<close>

definition ends_only :: "'e kal \<Rightarrow> ('e \<Rightarrow> target set) \<Rightarrow> bool" where
  "ends_only K gone \<longleftrightarrow>
     (\<forall>h e. gone (snd (process_terminate K h e)) \<subseteq> insert (TProgram h) (gone e))
     \<and> (\<forall>j e. gone (snd (process_job_terminate K j e)) \<subseteq> insert (TUnit j) (gone e))
     \<and> (\<forall>h e. gone (process_close K h e) = gone e)
     \<and> (\<forall>f e. process_self K = Some f \<longrightarrow> gone (snd (f e)) = gone e)
     \<and> (\<forall>f n e. process_open_id K = Some f \<longrightarrow> gone (snd (f n e)) = gone e)"

text \<open>What a call names: a child by its identifier; a unit by the identifier of the program that formed it,
  be it a child or this program.\<close>

definition names_target :: "'e kal \<Rightarrow> int \<Rightarrow> 'e procs \<Rightarrow> target \<Rightarrow> bool" where
  "names_target K pid p t \<longleftrightarrow>
     (\<exists>i<OKM_MAX_CHILD. c_used (g_child p i) \<and> c_pid (g_child p i) = pid \<and> t = TProgram (c_h (g_child p i)))
     \<or> (\<exists>i<OKM_MAX_CHILD. c_has_job (g_child p i) \<and> c_pid (g_child p i) = - pid \<and> t = TUnit (c_job (g_child p i)))
     \<or> g_job_held p \<and> - pid = fst (okm_self_pid K p) \<and> t = TUnit (g_job p)"

lemma ends_onlyD:
  assumes "ends_only K gone"
  shows "gone (snd (process_terminate K h e)) \<subseteq> insert (TProgram h) (gone e)"
    "gone (snd (process_job_terminate K j e)) \<subseteq> insert (TUnit j) (gone e)"
    "gone (process_close K h e) = gone e"
    "process_self K = Some f \<Longrightarrow> f e = (r, e1) \<Longrightarrow> gone e1 = gone e"
    "process_open_id K = Some fo \<Longrightarrow> fo n e = (r', e1) \<Longrightarrow> gone e1 = gone e"
  using assms unfolding ends_only_def by (blast, blast, blast, metis snd_conv, metis snd_conv)

lemma okm_self_pid_keeps:
  assumes "ends_only K gone" "okm_self_pid K p = (self, q)"
  shows "gone (penv q) = gone (penv p)" "g_child q = g_child p" "g_job q = g_job p"
  using assms(2) ends_onlyD(3,4) [OF assms(1)]
  by (auto simp: okm_self_pid_def Let_def split: if_splits option.splits prod.splits sum.splits)

lemma okm_other_runs_keeps:
  assumes "ends_only K gone" "okm_other_runs K pid p = (r, q)"
  shows "gone (penv q) = gone (penv p)"
  using assms(2) ends_onlyD(3,5) [OF assms(1)]
  by (auto simp: okm_other_runs_def Let_def split: if_splits option.splits prod.splits sum.splits)

lemma job_signal_ends:
  assumes "ends_only K gone" "job_signal K j sig p = (out, q)"
  shows "gone (penv q) \<subseteq> gone (penv p) \<union> {t. sig \<noteq> 0 \<and> t = TUnit j}" "g_child q = g_child p" "\<exists>r. out = Answers r"
  using assms(2) ends_onlyD(2) [OF assms(1), of j "penv p"]
  by (auto simp: job_signal_def split: if_splits prod.splits)

lemma job_index_Some:
  assumes "job_index pid p = Some i"
  shows "i < OKM_MAX_CHILD" "c_has_job (g_child p i)" "c_pid (g_child p i) = pid"
  using scan_upD [OF assms [unfolded job_index_def]] by simp_all

lemma kill_unit_ends:
  assumes "ends_only K gone" "kill_unit K unit sig p = (out, q)"
  shows "gone (penv q) \<subseteq> gone (penv p) \<union> {t. sig \<noteq> 0 \<and> names_target K (- unit) p t} \<and> g_child q = g_child p
    \<and> (\<exists>r. out = Answers r)"
proof (cases "job_index unit p")
  case (Some gi)
  then have "job_signal K (c_job (g_child p gi)) sig p = (out, q)" using assms(2) by (simp add: kill_unit_def)
  from job_signal_ends [OF assms(1) this] job_index_Some [OF Some] show ?thesis by (auto simp: names_target_def)
next
  case None
  obtain self p1 where s: "okm_self_pid K p = (self, p1)" by fastforce
  note keep = okm_self_pid_keeps [OF assms(1) s]
  show ?thesis
  proof (cases "g_job_held p \<and> unit = self")
    case True
    with None s assms(2) have "job_signal K (g_job p1) sig p1 = (out, q)" by (simp add: kill_unit_def)
    from job_signal_ends [OF assms(1) this] keep True s show ?thesis by (auto simp: names_target_def)
  next
    case False
    with None s assms(2) keep show ?thesis by (auto simp: kill_unit_def split: if_splits)
  qed
qed

text \<open>C28: \<open>kill\<close> reaches what it names and nothing else. Whatever the arguments, no program and no unit is told to end but the
  child with that identifier, or for a negative one the unit formed by the program of that identifier: a
  child's, ended or not, or this program's own when its own identifier is named. Signal zero tells none. This
  program ends only by a signal greater than zero aimed at itself, or at the groups 0 and -1.\<close>

theorem kill_confined:
  assumes "ends_only K gone" "sys_kill K pid sig p = (out, q)"
  shows "gone (penv q) \<subseteq> gone (penv p) \<union> {t. sig \<noteq> 0 \<and> names_target K pid p t}
    \<and> g_child q = g_child p
    \<and> ((\<exists>r. out = Answers r) \<or> 0 < sig \<and> (pid = 0 \<or> pid = -1 \<or> pid = fst (okm_self_pid K p)))"
proof (cases "pid < 0 \<and> pid \<noteq> -1 \<and> pid \<noteq> INT_MIN")
  case True
  then have "kill_unit K (- pid) sig p = (out, q)" using assms(2) by (simp add: sys_kill_def)
  from kill_unit_ends [OF assms(1) this] show ?thesis by auto
next
  case notunit: False
  show ?thesis
  proof (cases "child_index pid p")
    case (Some i)
    with notunit assms(2) ends_onlyD(1) [OF assms(1), of "c_h (g_child p i)" "penv p"] child_index_Some [OF Some]
    show ?thesis by (auto simp: sys_kill_def names_target_def split: if_splits prod.splits)
  next
    case None
    obtain self p1 where s: "okm_self_pid K p = (self, p1)" by fastforce
    obtain runs p2 where o: "okm_other_runs K pid p1 = (runs, p2)" by fastforce
    have c: "g_child p2 = g_child p1"
      using o by (auto simp: okm_other_runs_def split: if_splits option.splits prod.splits sum.splits)
    from notunit None assms(2) s o okm_self_pid_keeps [OF assms(1) s] okm_other_runs_keeps [OF assms(1) o] c
    show ?thesis by (auto simp: sys_kill_def signal_self_def split: if_splits)
  qed
qed

text \<open>A program with one child that formed a unit, and an environment that records what it is told.\<close>

definition ending_kal :: "target set kal" where
  "ending_kal = bare_kal\<lparr>process_terminate := (\<lambda>h e. (kal_ok, insert (TProgram h) e)),
     process_job_terminate := (\<lambda>j e. (kal_ok, insert (TUnit j) e))\<rparr>"

definition unit_led :: "target set procs" where
  "unit_led = set_child 0 \<lparr>c_used = False, c_pid = 1001, c_h = 11, c_job = 21, c_has_job = True\<rparr> (first_procs (zero_okm {}))"

theorem kill_confined_witness:
  "penv (snd (sys_kill ending_kal (-1001) 9 unit_led)) \<subseteq> {t. names_target ending_kal (-1001) unit_led t}"
proof -
  have E: "ends_only ending_kal id" by (auto simp: ends_only_def ending_kal_def bare_kal_def)
  obtain out q where k: "sys_kill ending_kal (-1001) 9 unit_led = (out, q)" by fastforce
  have "penv unit_led = {}" by (simp add: unit_led_def first_procs_def zero_okm_def)
  with kill_confined [OF E k] k show ?thesis by auto
qed

section \<open>A child recorded is the child waited for\<close>

lemma scan_up_Some_unique:
  "i < n \<Longrightarrow> P i \<Longrightarrow> (\<And>j. j < n \<Longrightarrow> j \<noteq> i \<Longrightarrow> \<not> P j) \<Longrightarrow> scan_up P 0 n = Some i"
  by (auto simp: scan_up_Some)

text \<open>What \<open>__okm_child_record_job\<close> leaves in the table.\<close>

lemma okm_child_record_job_result:
  assumes "okm_child_record_job K me h j p = (pid, q)" "pid \<noteq> - EAGAIN"
  obtains i where "i < OKM_MAX_CHILD" "\<not> c_used (g_child p i)"
    "g_child q = (g_child p)(i := \<lparr>c_used = True, c_pid = pid, c_h = h, c_job = (if j = 0 then 0 else j), c_has_job = (j \<noteq> 0)\<rparr>)"
proof (cases "scan_up (\<lambda>i. \<not> c_used (g_child p i)) 0 OKM_MAX_CHILD")
  case None
  then show ?thesis using assms by (simp add: okm_child_record_job_def okm_child_reserve_def)
next
  case (Some i)
  note i = scan_upD [OF Some]
  have "g_child q = (g_child p)(i := \<lparr>c_used = True, c_pid = pid, c_h = h, c_job = (if j = 0 then 0 else j), c_has_job = (j \<noteq> 0)\<rparr>)"
    using assms(1) Some i
    by (auto simp: okm_child_record_job_def okm_child_reserve_def okm_child_commit_def okm_child_job_def Let_def
        split: option.splits if_splits)
  with i that show ?thesis by simp
qed

text \<open>A program that was started is the one that is waited for. Once \<open>__okm_child_record_job\<close> has answered an identifier no
  other child has, \<open>wait4\<close> of it waits on that program's handle, answers that identifier and the program's
  status, releases the handle, and leaves the table with the same entries taken as before; and the unit
  the program formed is still the one its identifier names afterwards.\<close>

theorem record_then_wait:
  assumes "okm_child_record_job K me h j p = (pid, p1)" "0 < pid"
    and "child_index pid p = None" "job_index pid p = None"
    and "process_wait K h (penv p1) = (Inr (st, t), e1)"
  shows "\<exists>ru q. do_wait4 K pid 0 p1 = (Inr (pid, wait_status st t, ru), q)
    \<and> penv q = process_close K h e1 \<and> (\<forall>i. c_used (g_child q i) = c_used (g_child p i))
    \<and> (j \<noteq> 0 \<longrightarrow> (\<exists>i. job_index pid q = Some i \<and> c_job (g_child q i) = j))"
proof -
  have "pid \<noteq> - EAGAIN" using assms(2) by simp
  then obtain i where i: "i < OKM_MAX_CHILD" "\<not> c_used (g_child p i)" and
    c: "g_child p1 = (g_child p)(i := \<lparr>c_used = True, c_pid = pid, c_h = h, c_job = (if j = 0 then 0 else j), c_has_job = (j \<noteq> 0)\<rparr>)"
    by (rule okm_child_record_job_result [OF assms(1)])
  have none: "\<not> (c_used (g_child p k) \<and> c_pid (g_child p k) = pid)" "\<not> (c_has_job (g_child p k) \<and> c_pid (g_child p k) = pid)"
    if "k < OKM_MAX_CHILD" for k
    using assms(3,4) that by (auto simp: child_index_def job_index_def scan_up_None)
  have ci: "child_index pid p1 = Some i"
    unfolding child_index_def by (rule scan_up_Some_unique) (use i none in \<open>auto simp: c\<close>)
  have w: "do_wait4 K pid 0 p1 = reap K i (Inr (st, t)) (set_penv e1 p1)"
    using assms(2,5) ci by (simp add: do_wait4_def has_def c)
  define q where "q = snd (reap K i (Inr (st, t)) (set_penv e1 p1))"
  have q: "g_child q = (g_child p1)(i := (g_child p1 i)\<lparr>c_used := False\<rparr>)" by (simp add: q_def reap_Inr)
  have "job_index pid q = Some i \<and> c_job (g_child q i) = j" if "j \<noteq> 0"
    unfolding job_index_def
    by (rule conjI, rule scan_up_Some_unique) (use i none that in \<open>auto simp: q c\<close>)
  moreover have "penv q = process_close K h e1" by (simp add: q_def reap_Inr c)
  moreover have "\<forall>k. c_used (g_child q k) = c_used (g_child p k)" using i by (simp add: q c)
  moreover have "\<exists>ru. reap K i (Inr (st, t)) (set_penv e1 p1) = (Inr (pid, wait_status st t, ru), q)"
    by (simp add: q_def reap_Inr c)
  ultimately show ?thesis unfolding w by blast
qed

definition child_kal :: "kal_process set kal" where
  "child_kal = bare_kal\<lparr>process_wait := (\<lambda>h e. (Inr (7, False), e)), process_close := (\<lambda>h e. insert h e)\<rparr>"

theorem record_then_wait_witness:
  "\<exists>ru q. do_wait4 child_kal 1001 0 (snd (okm_child_record_job child_kal 5 11 21 (first_procs (zero_okm {}))))
     = (Inr (1001, 0x700, ru), q) \<and> penv q = {11} \<and> (\<exists>i. job_index 1001 q = Some i \<and> c_job (g_child q i) = 21)"
proof -
  let ?p = "first_procs (zero_okm {}) :: kal_process set procs"
  obtain pid p1 where r: "okm_child_record_job child_kal 5 11 21 ?p = (pid, p1)" by fastforce
  have first: "scan_up (\<lambda>i. \<not> c_used (g_child ?p i)) 0 OKM_MAX_CHILD = Some 0"
    by (simp add: scan_up_Some first_procs_def zero_child_def)
  have none: "named_pid child_kal 11 e = None" for e by (simp add: named_pid_def child_kal_def bare_kal_def)
  have sel: "g_next_pid ?p = 1000" "tbl ?p = zero_okm {}" by (simp_all add: first_procs_def)
  have quiet: "env (okm_unlock child_kal 5 (zero_okm {})) = {}" by (subst okm_unlock_none) (simp_all add: zero_okm_def)
  have "pid = 1001 \<and> penv p1 = {}"
    using r unfolding okm_child_record_job_def okm_child_reserve_def first
    by (auto simp: okm_child_commit_def okm_child_job_def none sel quiet Let_def set_child_def)
  moreover from this have "pid = 1001" "penv p1 = {}" by simp_all
  moreover have "child_index 1001 ?p = None" "job_index 1001 ?p = None"
    by (simp_all add: child_index_def job_index_def scan_up_None first_procs_def zero_child_def)
  moreover have "process_wait child_kal 11 {} = (Inr (7, False), {})" "process_close child_kal 11 {} = {11}"
    by (simp_all add: child_kal_def)
  ultimately show ?thesis
    using record_then_wait [OF r, of 7 False "{}"] r by (auto simp: wait_status_values)
qed

end
