(* ===== verification/Okm_Spawn.thy ===== *)
theory Okm_Spawn
  imports Okm_Children Okm_Open
begin

text \<open>
  Starting another program (port/src/okm_spawn.c): the file actions and attributes of \<open>posix_spawn\<close> become one
  call of openkal; \<open>posix_spawnp\<close> searches a path; \<open>execve\<close> starts a program, lets go of every stream, waits
  and ends with the status.

  The list of file actions is as musl links it, the last one added first. What one call builds up (the streams
  of the three positions, the null devices, the files and the directory that belong to the call) is a
  record of its own: the C code keeps it in locals and in buffers that are static under the lock. The
  build for Windows, which retries a name with a suffix, is not modelled.
\<close>

abbreviation (input) OKM_SPAWN_MAX :: nat where "OKM_SPAWN_MAX \<equiv> 512"
abbreviation (input) OKM_SPAWN_MAX_OPEN :: nat where "OKM_SPAWN_MAX_OPEN \<equiv> 8"
abbreviation (input) POSIX_SPAWN_SETPGROUP :: flagword where "POSIX_SPAWN_SETPGROUP \<equiv> 2"
abbreviation (input) POSIX_SPAWN_SETSIGDEF :: flagword where "POSIX_SPAWN_SETSIGDEF \<equiv> 4"
abbreviation (input) POSIX_SPAWN_SETSIGMASK :: flagword where "POSIX_SPAWN_SETSIGMASK \<equiv> 8"
abbreviation (input) E2BIG :: int where "E2BIG \<equiv> 7"
abbreviation (input) NAME_MAX :: nat where "NAME_MAX \<equiv> 255"

section \<open>The name to start\<close>

definition startable :: "'e kal \<Rightarrow> okm_at \<Rightarrow> 'e okm \<Rightarrow> int" where
  "startable K at s =
     (case fs_info K (at_base at) (at_rel at) False {KAL_INFO_KIND} (env s) of
        Inl e \<Rightarrow> if e = kal_err_not_supported then 0 else okm_errno e
      | Inr i \<Rightarrow> if ni_kind i = kal_node_absent then ENOENT
                 else if ni_kind i = kal_node_directory then EACCES else 0)"

section \<open>The three streams\<close>

record spawning =
  at_pos :: "nat \<Rightarrow> kal_stream"
  null_at :: "nat \<Rightarrow> bool"
  placed :: bool
  opened_files :: "kal_file list"
  work_dir :: "kal_dir option"
  work_name :: string

definition no_spawning :: spawning where
  "no_spawning = \<lparr>at_pos = (\<lambda>_. 0), null_at = (\<lambda>_. False), placed = False, opened_files = [],
     work_dir = None, work_name = []\<rparr>"

text \<open>\<open>place\<close>: an error value, zero for none, and what is built up.\<close>

definition place :: "'e okm \<Rightarrow> nat \<Rightarrow> kal_stream \<Rightarrow> spawning \<Rightarrow> int \<times> spawning" where
  "place s pos stream w =
     (let w1 = w\<lparr>null_at := (null_at w)(pos := False)\<rparr> in
      if stream = okm_std_stream (int pos) s then (0, w1\<lparr>at_pos := (at_pos w)(pos := 0)\<rparr>)
      else if stream = 0 then (ENOSYS, w1)
      else (0, w1\<lparr>placed := True, at_pos := (at_pos w)(pos := stream)\<rparr>))"

definition place_null :: "nat \<Rightarrow> spawning \<Rightarrow> spawning" where
  "place_null pos w = w\<lparr>at_pos := (at_pos w)(pos := 0), null_at := (null_at w)(pos := True)\<rparr>"

definition stream_for_spawn :: "int \<Rightarrow> 'e okm \<Rightarrow> int + kal_stream" where
  "stream_for_spawn fd s =
     (case okm_desc_of fd s of
        None \<Rightarrow> Inl EBADF
      | Some d \<Rightarrow>
          let p = g_desc s d in
          (case d_kind p of
             OKM_STREAM \<Rightarrow> Inr (d_stream p)
           | OKM_CHANNEL \<Rightarrow> Inr (d_stream p)
           | OKM_FILE \<Rightarrow> Inr (d_stream p)
           | OKM_SOCKET \<Rightarrow> if d_stream p = 0 then Inl ENOTCONN else Inr (d_stream p)
           | _ \<Rightarrow> Inl EBADF))"

text \<open>The descriptor \<open>fd\<close> at the position \<open>pos\<close>, as both \<open>seed\<close> and the action \<open>FDOP_DUP2\<close> put it there.\<close>

definition place_fd :: "'e okm \<Rightarrow> nat \<Rightarrow> int \<Rightarrow> spawning \<Rightarrow> int \<times> spawning" where
  "place_fd s pos fd w =
     (if is_null fd s then (0, place_null pos w)
      else case stream_for_spawn fd s of
        Inl e \<Rightarrow> (e, w)
      | Inr st \<Rightarrow> place s pos st w)"

fun seed_loop :: "'e okm \<Rightarrow> nat list \<Rightarrow> spawning \<Rightarrow> int \<times> spawning" where
  "seed_loop s [] w = (0, w)"
| "seed_loop s (fd # fds) w =
     (case place_fd s fd (int fd) w of
        (e, w1) \<Rightarrow> if e \<noteq> 0 then (e, w1) else seed_loop s fds w1)"

definition seed :: "'e okm \<Rightarrow> int \<times> spawning" where
  "seed s = seed_loop s [0, 1, 2] no_spawning"

section \<open>File actions\<close>

datatype fdop =
    FDOP_CLOSE int
  | FDOP_DUP2 int int
  | FDOP_OPEN int string flagword
  | FDOP_CHDIR string
  | FDOP_FCHDIR int
  | FDOP_OTHER int

text \<open>\<open>FDOP_DUP2 fd srcfd\<close>. A directory the program is to run in takes the place of an earlier one, which is
  closed.\<close>

definition hold_dir :: "'e kal \<Rightarrow> kal_dir \<Rightarrow> string \<Rightarrow> spawning \<Rightarrow> 'e okm \<Rightarrow> spawning \<times> 'e okm" where
  "hold_dir K d name w s =
     (w\<lparr>work_dir := Some d, work_name := name\<rparr>,
      case work_dir w of None \<Rightarrow> s | Some old \<Rightarrow> s\<lparr>env := fs_close_dir K old (env s)\<rparr>)"

text \<open>\<open>if (okm_absolute(\<dots>, where_name, \<dots>)) where_name[0] = 0\<close>\<close>

definition absolute_or_empty :: "'e okm \<Rightarrow> int \<Rightarrow> string \<Rightarrow> string" where
  "absolute_or_empty s dirfd path = (case okm_absolute s dirfd (Some path) OKM_MAX_PATH of Inl _ \<Rightarrow> [] | Inr a \<Rightarrow> a)"

definition apply_open :: "'e kal \<Rightarrow> int \<Rightarrow> string \<Rightarrow> flagword \<Rightarrow> spawning \<Rightarrow> 'e okm \<Rightarrow> int \<times> spawning \<times> 'e okm" where
  "apply_open K fd path oflag w s =
     (if 2 < fd \<or> fd < 0 then (ENOSYS, w, s)
      else if okm_null_name s AT_FDCWD (Some path) then (0, place_null (nat fd) w, s)
      else if OKM_SPAWN_MAX_OPEN \<le> length (opened_files w) then (ENOSYS, w, s)
      else case okm_resolve s AT_FDCWD (Some path) False of
        Inl r \<Rightarrow> (- r, w, s)
      | Inr at \<Rightarrow>
          (case fs_open K (at_base at) (at_rel at) (okm_open_flags oflag) (env s) of
             (Inl e, e1) \<Rightarrow> (okm_errno e, w, s\<lparr>env := e1\<rparr>)
           | (Inr f, e1) \<Rightarrow>
               (case place s (nat fd) (fs_stream K f) (w\<lparr>opened_files := opened_files w @ [f]\<rparr>) of
                  (e, w1) \<Rightarrow> (e, w1, s\<lparr>env := e1\<rparr>))))"

definition apply_chdir :: "'e kal \<Rightarrow> kal_dir \<Rightarrow> string \<Rightarrow> string \<Rightarrow> spawning \<Rightarrow> 'e okm \<Rightarrow> int \<times> spawning \<times> 'e okm" where
  "apply_chdir K base rel name w s =
     (case fs_open_dir K base rel (env s) of
        (Inl e, e1) \<Rightarrow> (okm_errno e, w, s\<lparr>env := e1\<rparr>)
      | (Inr d, e1) \<Rightarrow> (case hold_dir K d name w (s\<lparr>env := e1\<rparr>) of (w1, s1) \<Rightarrow> (0, w1, s1)))"

definition apply_action :: "'e kal \<Rightarrow> fdop \<Rightarrow> spawning \<Rightarrow> 'e okm \<Rightarrow> int \<times> spawning \<times> 'e okm" where
  "apply_action K op w s =
     (case op of
        FDOP_DUP2 fd srcfd \<Rightarrow>
          if 2 < fd \<or> fd < 0 then (ENOSYS, w, s)
          else (case place_fd s (nat fd) srcfd w of (e, w1) \<Rightarrow> (e, w1, s))
      | FDOP_OPEN fd path oflag \<Rightarrow> apply_open K fd path oflag w s
      | FDOP_CLOSE fd \<Rightarrow> (if 2 < fd then 0 else ENOSYS, w, s)
      | FDOP_CHDIR path \<Rightarrow>
          (case okm_resolve s AT_FDCWD (Some path) False of
             Inl r \<Rightarrow> (- r, w, s)
           | Inr at \<Rightarrow> apply_chdir K (at_base at) (at_rel at) (absolute_or_empty s AT_FDCWD path) w s)
      | FDOP_FCHDIR fd \<Rightarrow>
          (case okm_desc_of fd s of
             None \<Rightarrow> (EBADF, w, s)
           | Some d \<Rightarrow>
               if d_kind (g_desc s d) \<noteq> OKM_DIR then (EBADF, w, s)
               else apply_chdir K (d_dir (g_desc s d)) ''.'' (absolute_or_empty s fd ''.'') w s)
      | FDOP_OTHER cmd \<Rightarrow> (ENOSYS, w, s))"

fun apply_actions :: "'e kal \<Rightarrow> fdop list \<Rightarrow> spawning \<Rightarrow> 'e okm \<Rightarrow> int \<times> spawning \<times> 'e okm" where
  "apply_actions K [] w s = (0, w, s)"
| "apply_actions K (op # ops) w s =
     (case apply_action K op w s of
        (e, w1, s1) \<Rightarrow> if e \<noteq> 0 then (e, w1, s1) else apply_actions K ops w1 s1)"

section \<open>The null device at a position\<close>

definition null_flags :: "spawning \<Rightarrow> kal_spawn_flag set" where
  "null_flags w = (if null_at w 0 then {KAL_SPAWN_NULL_IN} else {})
     \<union> (if null_at w 1 then {KAL_SPAWN_NULL_OUT} else {}) \<union> (if null_at w 2 then {KAL_SPAWN_NULL_ERR} else {})"

fun place_nulls :: "'e okm \<Rightarrow> (nat \<Rightarrow> bool) \<Rightarrow> kal_stream \<Rightarrow> nat list \<Rightarrow> spawning \<Rightarrow> int \<times> spawning" where
  "place_nulls s at st [] w = (0, w)"
| "place_nulls s at st (pos # ps) w =
     (if at pos then (case place s pos st w of (e, w1) \<Rightarrow> if e \<noteq> 0 then (e, w1) else place_nulls s at st ps w1)
      else place_nulls s at st ps w)"

definition settle_nulls ::
  "'e kal \<Rightarrow> spawning \<Rightarrow> 'e okm \<Rightarrow> (int + kal_spawn_flag set) \<times> spawning \<times> 'e okm" where
  "settle_nulls K w s =
     (if \<not> (null_at w 0 \<or> null_at w 1 \<or> null_at w 2) then (Inr {}, w, s)
      else if KAL_PROCESS_PROP_NULL_STREAMS \<in> process_props K then (Inr (null_flags w), w, s)
      else if OKM_SPAWN_MAX_OPEN \<le> length (opened_files w) then (Inl ENOSYS, w, s)
      else case okm_resolve s AT_FDCWD (Some ''/dev/null'') False of
        Inl r \<Rightarrow> (Inl (- r), w, s)
      | Inr at \<Rightarrow>
          (case fs_open K (at_base at) (at_rel at) (okm_open_flags O_RDWR) (env s) of
             (Inl e, e1) \<Rightarrow> (Inl (okm_errno e), w, s\<lparr>env := e1\<rparr>)
           | (Inr f, e1) \<Rightarrow>
               (case place_nulls s (null_at w) (fs_stream K f) [0, 1, 2] (w\<lparr>opened_files := opened_files w @ [f]\<rparr>) of
                  (e, w1) \<Rightarrow> (if e \<noteq> 0 then Inl e else Inr {}, w1, s\<lparr>env := e1\<rparr>))))"

section \<open>The start\<close>

fun grant_rest :: "string \<Rightarrow> (kal_dir \<times> string) list \<Rightarrow> (kal_dir \<times> string) list \<Rightarrow> (kal_dir \<times> string) list" where
  "grant_rest wname [] granted = granted"
| "grant_rest wname ((d, name) # pre) granted =
     (if 16 \<le> length granted then granted
      else if d = 0 \<or> name = wname then grant_rest wname pre granted
      else grant_rest wname pre (granted @ [(d, name)]))"

definition grants_of :: "'e kal \<Rightarrow> kal_dir \<Rightarrow> string \<Rightarrow> 'e okm \<Rightarrow> (kal_dir \<times> string) list" where
  "grants_of K work wname s =
     (if KAL_PROCESS_PROP_GRANT_DIR \<in> process_props K \<and> wname \<noteq> [] then grant_rest wname (g_pre s) [(work, wname)]
      else [])"

definition start_program ::
  "'e kal \<Rightarrow> bool \<Rightarrow> kal_spawn_flag set \<Rightarrow> bool \<Rightarrow> kal_dir \<Rightarrow> string \<Rightarrow> okm_at \<Rightarrow> string list \<Rightarrow> string list
     \<Rightarrow> kal_spawn_streams \<Rightarrow> 'e okm \<Rightarrow> (kal_error + kal_process \<times> kal_job) \<times> 'e okm" where
  "start_program K bound nulls want_unit work wname at argv envp streams s =
     (let how = \<lparr>sp_base = at_base at, sp_work = work,
                 sp_job = (want_unit \<and> KAL_PROCESS_PROP_JOB \<in> process_props K),
                 sp_grants = grants_of K work wname s,
                 sp_flags = nulls \<union> (if bound \<and> KAL_PROCESS_PROP_BOUND_LIFETIME \<in> process_props K
                                     then {KAL_SPAWN_BOUND_LIFETIME} else {})\<rparr>
      in case process_spawn K how (at_rel at) argv envp streams (env s) of
           (r, e1) \<Rightarrow> (r, s\<lparr>env := e1\<rparr>))"

record spawn_attr =
  sa_flags :: flagword
  sa_pgrp :: int
  sa_fn :: bool

text \<open>The files the actions opened and the directory, closed in that order.\<close>

definition release_all :: "'e kal \<Rightarrow> spawning \<Rightarrow> 'e okm \<Rightarrow> 'e okm" where
  "release_all K w s =
     (let s1 = s\<lparr>env := fold (fs_close_file K) (opened_files w) (env s)\<rparr>
      in case work_dir w of None \<Rightarrow> s1 | Some d \<Rightarrow> s1\<lparr>env := fs_close_dir K d (env s1)\<rparr>)"

text \<open>\<open>refused\<close> and what the call built up when the start is made: the streams of the descriptors, the actions in
  the order they were added, the null devices, and the capability that placing a stream needs.\<close>

definition prepare ::
  "'e kal \<Rightarrow> fdop list option \<Rightarrow> 'e okm \<Rightarrow> (int + kal_spawn_flag set) \<times> spawning \<times> 'e okm" where
  "prepare K fa s =
     (case seed s of
        (e, w) \<Rightarrow>
          if e \<noteq> 0 then (Inl e, w, s)
          else
            (case apply_actions K (case fa of None \<Rightarrow> [] | Some ops \<Rightarrow> rev ops) w s of
               (e, w1, s1) \<Rightarrow>
                 if e \<noteq> 0 then (Inl e, w1, s1)
                 else
                   (case settle_nulls K w1 s1 of
                      (Inl e, w2, s2) \<Rightarrow> (Inl e, w2, s2)
                    | (Inr nulls, w2, s2) \<Rightarrow>
                        (if placed w2 \<and> KAL_PROCESS_PROP_STREAM_PASSING \<notin> process_props K then Inl ENOSYS
                         else Inr nulls, w2, s2))))"

definition attr_refused :: "spawn_attr option \<Rightarrow> bool" where
  "attr_refused attr \<longleftrightarrow>
     (case attr of
        None \<Rightarrow> False
      | Some a \<Rightarrow>
          sa_flags a AND NOT (POSIX_SPAWN_SETSIGDEF OR POSIX_SPAWN_SETSIGMASK OR POSIX_SPAWN_SETPGROUP) \<noteq> 0
          \<or> has (sa_flags a) POSIX_SPAWN_SETPGROUP \<and> sa_pgrp a \<noteq> 0 \<or> sa_fn a)"

text \<open>Between \<open>okm_lock\<close> and the last \<open>okm_unlock\<close>: an error value, or the program and its unit.\<close>

definition spawn_locked ::
  "'e kal \<Rightarrow> kal_uintptr \<Rightarrow> okm_at \<Rightarrow> fdop list option \<Rightarrow> bool \<Rightarrow> string list \<Rightarrow> string list \<Rightarrow> bool \<Rightarrow> 'e okm
     \<Rightarrow> (int + kal_process \<times> kal_job) \<times> 'e okm" where
  "spawn_locked K me at fa want_unit argv envp bound s =
     (case prepare K fa s of
        (Inl refused, w, s1) \<Rightarrow> (Inl refused, okm_unlock K me (release_all K w s1))
      | (Inr nulls, w, s1) \<Rightarrow>
          (case start_program K bound nulls want_unit
                  (case work_dir w of None \<Rightarrow> okm_cwd_dir s1 | Some d \<Rightarrow> d)
                  (case work_dir w of None \<Rightarrow> g_cwd s1 | Some d \<Rightarrow> work_name w)
                  at argv envp \<lparr>sp_in = at_pos w 0, sp_out = at_pos w 1, sp_err = at_pos w 2\<rparr> s1 of
             (r, s2) \<Rightarrow>
               let s3 = okm_unlock K me (release_all K w s2)
               in (case r of Inl e \<Rightarrow> Inl (okm_errno e) | Inr ch \<Rightarrow> Inr ch, s3)))"

text \<open>\<open>Inl\<close> the error value, \<open>Inr\<close> the identifier written through \<open>res\<close>.\<close>

definition okm_spawn_common ::
  "'e kal \<Rightarrow> kal_uintptr \<Rightarrow> bool \<Rightarrow> string option \<Rightarrow> fdop list option \<Rightarrow> spawn_attr option \<Rightarrow> string list \<Rightarrow> string list
     \<Rightarrow> bool \<Rightarrow> 'e procs \<Rightarrow> (int + int) \<times> 'e procs" where
  "okm_spawn_common K me res pathp fa attr argv envp bound p =
     (if \<not> res \<or> pathp = None then (Inl EINVAL, p)
      else if attr_refused attr then (Inl ENOSYS, p)
      else case okm_resolve (tbl p) AT_FDCWD pathp False of
        Inl r \<Rightarrow> (Inl (- r), p)
      | Inr at \<Rightarrow>
          if startable K at (tbl p) \<noteq> 0 then (Inl (startable K at (tbl p)), p)
          else if OKM_SPAWN_MAX \<le> length argv \<or> OKM_SPAWN_MAX \<le> length envp then (Inl E2BIG, p)
          else
            (case spawn_locked K me at fa (case attr of None \<Rightarrow> False | Some a \<Rightarrow> has (sa_flags a) POSIX_SPAWN_SETPGROUP)
                    argv envp bound (tbl p) of
               (Inl e, s1) \<Rightarrow> (Inl e, p\<lparr>tbl := s1\<rparr>)
             | (Inr (child, unit), s1) \<Rightarrow>
                 (case okm_child_record_job K me child unit (p\<lparr>tbl := s1\<rparr>) of
                    (pid, p1) \<Rightarrow>
                      if pid < 0 then (Inl EAGAIN, set_penv (process_close K child (penv p1)) p1)
                      else (Inr pid, p1))))"

definition posix_spawn ::
  "'e kal \<Rightarrow> kal_uintptr \<Rightarrow> bool \<Rightarrow> string option \<Rightarrow> fdop list option \<Rightarrow> spawn_attr option \<Rightarrow> string list \<Rightarrow> string list
     \<Rightarrow> 'e procs \<Rightarrow> (int + int) \<times> 'e procs" where
  "posix_spawn K me res pathp fa attr argv envp p = okm_spawn_common K me res pathp fa attr argv envp False p"

section \<open>A name without a path\<close>

text \<open>One entry of the path, of \<open>n\<close> bytes, joined to the name where it fits.\<close>

definition path_candidate :: "string \<Rightarrow> string \<Rightarrow> string option" where
  "path_candidate entry name =
     (if length entry + (if entry = [] then 0 else 1) + length name + 1 \<le> OKM_MAX_PATH
      then Some (if entry = [] then name else entry @ ''/'' @ name) else None)"

lemma dropWhile_shorter: "a \<in> set xs \<Longrightarrow> length (dropWhile P xs) - Suc 0 < length xs"
  using length_dropWhile_le [of P xs] by (cases xs) simp_all

text \<open>The loop over the path: \<open>start\<close> is the attempt upon one candidate, \<open>seen\<close> whether an earlier one answered
  \<open>EACCES\<close>. What is left of the path begins at an entry.\<close>

function spawnp_loop ::
  "(string \<Rightarrow> 'p \<Rightarrow> (int + int) \<times> 'p) \<Rightarrow> string \<Rightarrow> string \<Rightarrow> bool \<Rightarrow> 'p \<Rightarrow> (int + int) \<times> 'p" where
  "spawnp_loop start name path seen p =
     (let entry = takeWhile (\<lambda>c. c \<noteq> CHR '':'') path;
          rest = dropWhile (\<lambda>c. c \<noteq> CHR '':'') path;
          go_on = (\<lambda>seen p. if rest = [] then (Inl (if seen then EACCES else ENOENT), p)
                            else spawnp_loop start name (tl rest) seen p)
      in case path_candidate entry name of
           None \<Rightarrow> go_on seen p
         | Some cand \<Rightarrow>
             (case start cand p of
                (Inr pid, p1) \<Rightarrow> (Inr pid, p1)
              | (Inl e, p1) \<Rightarrow>
                  if e = EACCES then go_on True p1
                  else if e \<noteq> ENOENT \<and> e \<noteq> ENOTDIR then (Inl e, p1)
                  else go_on seen p1))"
  by pat_completeness auto
termination
  by (relation "measure (\<lambda>(start, name, path, seen, p). length path)") (auto intro: dropWhile_shorter)

declare spawnp_loop.simps [simp del]

text \<open>\<open>env_path\<close> is what \<open>getenv("PATH")\<close> answers.\<close>

definition posix_spawnp ::
  "'e kal \<Rightarrow> kal_uintptr \<Rightarrow> string option \<Rightarrow> bool \<Rightarrow> string option \<Rightarrow> fdop list option \<Rightarrow> spawn_attr option
     \<Rightarrow> string list \<Rightarrow> string list \<Rightarrow> 'e procs \<Rightarrow> (int + int) \<times> 'e procs" where
  "posix_spawnp K me env_path res namep fa attr argv envp p =
     (case namep of
        None \<Rightarrow> (Inl EINVAL, p)
      | Some name \<Rightarrow>
          if \<not> res then (Inl EINVAL, p)
          else if name = [] then (Inl ENOENT, p)
          else if SEP \<in> set name then posix_spawn K me res (Some name) fa attr argv envp p
          else if NAME_MAX < length name then (Inl ENAMETOOLONG, p)
          else spawnp_loop (\<lambda>cand. posix_spawn K me res (Some cand) fa attr argv envp) name
                 (case env_path of None \<Rightarrow> ''/usr/local/bin:/bin:/usr/bin'' | Some path \<Rightarrow> path) False p)"

section \<open>execve\<close>

definition sys_execve ::
  "'e kal \<Rightarrow> kal_uintptr \<Rightarrow> string option \<Rightarrow> string list \<Rightarrow> string list \<Rightarrow> 'e procs \<Rightarrow> outcome \<times> 'e procs" where
  "sys_execve K me pathp argv envp p =
     (case okm_spawn_common K me True pathp None None argv envp True p of
        (Inl e, p1) \<Rightarrow> (Answers (- e), p1)
      | (Inr child, p1) \<Rightarrow> execve_end K child (p1\<lparr>tbl := okm_close_all_for_exec K me (tbl p1)\<rparr>))"

section \<open>The search, over the entries of the path\<close>

fun path_entries :: "string \<Rightarrow> string list" where
  "path_entries [] = [[]]"
| "path_entries (c # cs) =
     (if c = CHR '':'' then [] # path_entries cs
      else case path_entries cs of [] \<Rightarrow> [[c]] | e # es \<Rightarrow> (c # e) # es)"

fun try_all :: "(string \<Rightarrow> 'p \<Rightarrow> (int + int) \<times> 'p) \<Rightarrow> string list \<Rightarrow> bool \<Rightarrow> 'p \<Rightarrow> (int + int) \<times> 'p" where
  "try_all start [] seen p = (Inl (if seen then EACCES else ENOENT), p)"
| "try_all start (cand # cands) seen p =
     (case start cand p of
        (Inr pid, p1) \<Rightarrow> (Inr pid, p1)
      | (Inl e, p1) \<Rightarrow>
          if e \<in> {EACCES, ENOENT, ENOTDIR} then try_all start cands (seen \<or> e = EACCES) p1 else (Inl e, p1))"

lemma path_entries_unfold:
  "path_entries path = takeWhile (\<lambda>c. c \<noteq> CHR '':'') path #
     (case dropWhile (\<lambda>c. c \<noteq> CHR '':'') path of [] \<Rightarrow> [] | _ # rest \<Rightarrow> path_entries rest)"
proof (induction path)
  case (Cons c cs)
  then show ?case by (cases "c = CHR '':''") (simp_all split: list.splits)
qed simp

lemma spawnp_loop_tries:
  "spawnp_loop start name path seen p =
     try_all start (List.map_filter (\<lambda>e. path_candidate e name) (path_entries path)) seen p"
proof (induction path arbitrary: seen p rule: length_induct)
  case (1 path)
  let ?rest = "dropWhile (\<lambda>c. c \<noteq> CHR '':'') path" and ?entry = "takeWhile (\<lambda>c. c \<noteq> CHR '':'') path"
  let ?cands = "List.map_filter (\<lambda>e. path_candidate e name)"
  have later: "(if ?rest = [] then (Inl (if seen then EACCES else ENOENT), p) else spawnp_loop start name (tl ?rest) seen p)
    = try_all start (?cands (case ?rest of [] \<Rightarrow> [] | _ # r \<Rightarrow> path_entries r)) seen p" for seen p
  proof (cases ?rest)
    case (Cons c r)
    then have "length r < length path" using length_dropWhile_le [of "\<lambda>c. c \<noteq> CHR '':''" path] by simp
    with "1.IH" Cons show ?thesis by simp
  next
    case Nil
    then show ?thesis unfolding Nil by (simp add: map_filter_simps)
  qed
  show ?case
    unfolding spawnp_loop.simps [of start name path] path_entries_unfold [of path] Let_def later map_filter_simps
    by (cases "path_candidate ?entry name") (auto split: prod.split sum.split)
qed

text \<open>\<open>posix_spawnp\<close> of a name without a separator searches: each entry of the path (or of musl's default, where there is
  none) in order, an empty entry being the working directory and one too long to join passed over. The first
  program that starts, or the first error other than \<open>EACCES\<close>, \<open>ENOENT\<close> and \<open>ENOTDIR\<close>, is the answer; where every entry answers
  one of the three it is \<open>EACCES\<close> if any did, else \<open>ENOENT\<close>. The loop over the characters of the path is that search
  over its entries.\<close>

theorem spawnp_searches:
  assumes "SEP \<notin> set name" "name \<noteq> []" "length name \<le> NAME_MAX"
  shows "posix_spawnp K me env_path True (Some name) fa attr argv envp p
    = try_all (\<lambda>cand. posix_spawn K me True (Some cand) fa attr argv envp)
        (List.map_filter (\<lambda>e. path_candidate e name)
           (path_entries (case env_path of None \<Rightarrow> ''/usr/local/bin:/bin:/usr/bin'' | Some path \<Rightarrow> path))) False p"
  using assms by (simp add: posix_spawnp_def spawnp_loop_tries)

theorem spawnp_searches_witness:
  "posix_spawnp bare_kal 7 (Some ''/bin::/a'') True (Some ''sh'') None None [] [] (first_procs (zero_okm ()))
   = try_all (\<lambda>cand. posix_spawn bare_kal 7 True (Some cand) None None [] []) [''/bin/sh'', ''sh'', ''/a/sh''] False
       (first_procs (zero_okm ()))"
  using spawnp_searches [of "''sh''" bare_kal 7 "Some ''/bin::/a''"]
  by (simp add: path_candidate_def map_filter_simps)

section \<open>What a start opens it closes\<close>

text \<open>The handles that belong to the call.\<close>

definition call_holds :: "spawning \<Rightarrow> handle multiset" where
  "call_holds w = image_mset HFile (mset (opened_files w)) + (case work_dir w of None \<Rightarrow> {#} | Some d \<Rightarrow> {#HDir d#})"

text \<open>What is relied on of \<open>openkal.process\<close>: starting a program and releasing its handle leave this program's files and
  directories as they are.\<close>

definition starts_neutral :: "'e kal \<Rightarrow> ('e \<Rightarrow> handle multiset) \<Rightarrow> bool" where
  "starts_neutral K opened \<longleftrightarrow>
     (\<forall>how n av ev st e. opened (snd (process_spawn K how n av ev st e)) = opened e)
     \<and> (\<forall>h e. opened (process_close K h e) = opened e)"

lemma held_open_env [simp]: "held_open (s\<lparr>env := e\<rparr>) = held_open s"
  by (simp add: held_open_def)

lemma only_env_trans:
  assumes "s0 = s\<lparr>env := env s0\<rparr>" "s1 = s0\<lparr>env := env s1\<rparr>"
  shows "s1 = (s :: 'e okm)\<lparr>env := env s1\<rparr>"
proof -
  have "s1 = (s\<lparr>env := env s0\<rparr>)\<lparr>env := env s1\<rparr>" using assms by metis
  then show ?thesis by simp
qed

lemma place_holds: "place s pos st w = (e, w1) \<Longrightarrow> call_holds w1 = call_holds w"
  by (auto simp: place_def call_holds_def Let_def split: if_splits)

lemma place_null_holds [simp]: "call_holds (place_null pos w) = call_holds w"
  by (simp add: place_null_def call_holds_def)

lemma place_fd_holds: "place_fd s pos fd w = (e, w1) \<Longrightarrow> call_holds w1 = call_holds w"
  by (auto simp: place_fd_def dest: place_holds split: if_splits sum.splits)

lemma seed_loop_holds: "seed_loop s fds w = (e, w1) \<Longrightarrow> call_holds w1 = call_holds w"
  by (induction fds arbitrary: w) (auto dest: place_fd_holds split: prod.splits if_splits)

lemma place_nulls_holds: "place_nulls s at st ps w = (e, w1) \<Longrightarrow> call_holds w1 = call_holds w"
  by (induction ps arbitrary: w) (auto dest: place_holds split: prod.splits if_splits)

lemma call_holds_open [simp]: "call_holds (w\<lparr>opened_files := opened_files w @ [f]\<rparr>) = add_mset (HFile f) (call_holds w)"
  by (simp add: call_holds_def)

lemma apply_chdir_accounted:
  assumes "ledger K opened" "accounted opened (h + call_holds w) s" "apply_chdir K base rel name w s = (e, w1, s1)"
  shows "accounted opened (h + call_holds w1) s1 \<and> s1 = s\<lparr>env := env s1\<rparr>"
  using assms(3) ledgerD(2) [OF assms(1), of base rel "env s"] ledgerD(4) [OF assms(1)] assms(2)
  by (auto simp: apply_chdir_def hold_dir_def accounted_def call_holds_def
      split: prod.splits sum.splits option.splits)

lemma apply_open_accounted:
  assumes "ledger K opened" "accounted opened (h + call_holds w) s" "apply_open K fd path fl w s = (e, w1, s1)"
  shows "accounted opened (h + call_holds w1) s1 \<and> s1 = s\<lparr>env := env s1\<rparr>"
proof (cases "okm_resolve s AT_FDCWD (Some path) False")
  case (Inr at)
  obtain r e1 where o: "fs_open K (at_base at) (at_rel at) (okm_open_flags fl) (env s) = (r, e1)" by fastforce
  have op: "opened e1 = opened (env s) + (case r of Inl _ \<Rightarrow> {#} | Inr f \<Rightarrow> {#HFile f#})"
    using ledgerD(1) [OF assms(1), of "at_base at" "at_rel at" "okm_open_flags fl" "env s"] o by simp
  show ?thesis
    using assms(2,3) Inr o op
    by (cases r)
      (auto simp: apply_open_def accounted_def dest!: place_holds split: if_splits prod.splits)
qed (use assms in \<open>auto simp: apply_open_def split: if_splits\<close>)

lemma apply_action_accounted:
  assumes "ledger K opened" "accounted opened (h + call_holds w) s" "apply_action K op w s = (e, w1, s1)"
  shows "accounted opened (h + call_holds w1) s1 \<and> s1 = s\<lparr>env := env s1\<rparr>"
  using assms(3,2) apply_open_accounted [OF assms(1,2)] apply_chdir_accounted [OF assms(1,2)]
  by (cases op) (auto simp: apply_action_def dest: place_fd_holds split: if_splits prod.splits sum.splits option.splits)

lemma apply_actions_accounted:
  assumes "ledger K opened" "accounted opened (h + call_holds w) s" "apply_actions K ops w s = (e, w1, s1)"
  shows "accounted opened (h + call_holds w1) s1 \<and> s1 = s\<lparr>env := env s1\<rparr>"
  using assms(2,3)
proof (induction ops arbitrary: w s)
  case (Cons op ops)
  obtain e0 w0 s0 where a: "apply_action K op w s = (e0, w0, s0)" by (metis prod_cases3)
  note step = apply_action_accounted [OF assms(1) Cons.prems(1) a]
  show ?case
  proof (cases "e0 = 0")
    case True
    then have "apply_actions K ops w0 s0 = (e, w1, s1)" using Cons.prems(2) a by simp
    from Cons.IH [OF conjunct1 [OF step] this] conjunct2 [OF step] show ?thesis using only_env_trans by blast
  next
    case False
    then show ?thesis using Cons.prems(2) a step by simp
  qed
qed simp

lemma settle_nulls_accounted:
  assumes "ledger K opened" "accounted opened (h + call_holds w) s" "settle_nulls K w s = (r, w1, s1)"
  shows "accounted opened (h + call_holds w1) s1 \<and> s1 = s\<lparr>env := env s1\<rparr>"
proof (cases "okm_resolve s AT_FDCWD (Some ''/dev/null'') False")
  case (Inr at)
  obtain f e1 where o: "fs_open K (at_base at) (at_rel at) (okm_open_flags O_RDWR) (env s) = (f, e1)" by fastforce
  have op: "opened e1 = opened (env s) + (case f of Inl _ \<Rightarrow> {#} | Inr f \<Rightarrow> {#HFile f#})"
    using ledgerD(1) [OF assms(1), of "at_base at" "at_rel at" "okm_open_flags O_RDWR" "env s"] o by simp
  show ?thesis
    using assms(2,3) Inr o op
    by (cases f)
      (auto simp: settle_nulls_def accounted_def simp del: place_nulls.simps dest!: place_nulls_holds split: if_splits prod.splits)
qed (use assms in \<open>auto simp: settle_nulls_def split: if_splits\<close>)

lemma seed_holds: "seed s = (e, w) \<Longrightarrow> call_holds w = {#}"
  unfolding seed_def by (drule seed_loop_holds) (simp add: call_holds_def no_spawning_def)

lemma prepare_accounted:
  assumes "ledger K opened" "accounted opened h s" "prepare K fa s = (r, w, s1)"
  shows "accounted opened (h + call_holds w) s1 \<and> s1 = s\<lparr>env := env s1\<rparr>"
proof -
  obtain e0 w0 where sd: "seed s = (e0, w0)" by fastforce
  obtain e1 w1 t1 where a: "apply_actions K (case fa of None \<Rightarrow> [] | Some ops \<Rightarrow> rev ops) w0 s = (e1, w1, t1)"
    by (metis prod_cases3)
  obtain n w2 t2 where st: "settle_nulls K w1 t1 = (n, w2, t2)" by (metis prod_cases3)
  have A0: "accounted opened (h + call_holds w0) s" using assms(2) seed_holds [OF sd] by simp
  note A1 = apply_actions_accounted [OF assms(1) A0 a]
  note A2 = settle_nulls_accounted [OF assms(1) conjunct1 [OF A1] st]
  have A3: "accounted opened (h + call_holds w2) t2 \<and> t2 = s\<lparr>env := env t2\<rparr>"
    using A2 only_env_trans [OF conjunct2 [OF A1] conjunct2 [OF A2]] by blast
  show ?thesis
    using assms(3) A0 A1 A3
    by (cases n) (auto simp: prepare_def sd a st split: if_splits)
qed

lemma fold_close_files:
  assumes "ledger K opened"
  shows "opened (fold (fs_close_file K) fs e) = opened e - image_mset HFile (mset fs)"
  by (induction fs arbitrary: e) (simp_all add: ledgerD(3) [OF assms])

lemma release_all_accounted:
  assumes "ledger K opened" "accounted opened (h + call_holds w) s"
  shows "accounted opened h (release_all K w s)"
  using assms(2) fold_close_files [OF assms(1), of "opened_files w" "env s"] ledgerD(4) [OF assms(1)]
  by (auto simp: release_all_def accounted_def call_holds_def Let_def split: option.splits)

lemma release_all_frame: "release_all K w s = s\<lparr>env := env (release_all K w s)\<rparr>"
  by (simp add: release_all_def Let_def split: option.split)

lemma starts_neutralD:
  "starts_neutral K opened \<Longrightarrow> process_spawn K how n av ev st e = (r, e1) \<Longrightarrow> opened e1 = opened e"
  unfolding starts_neutral_def by (metis snd_conv)

lemma start_program_accounted:
  assumes "starts_neutral K opened" "accounted opened h s"
    "start_program K bound nulls wu work wname at av ev st s = (r, s1)"
  shows "accounted opened h s1 \<and> s1 = s\<lparr>env := env s1\<rparr>"
  using assms(2,3) by (auto simp: start_program_def accounted_def Let_def dest!: starts_neutralD [OF assms(1)] split: prod.splits)

lemma only_env_unlock:
  assumes "t = (s :: 'e okm)\<lparr>env := env t\<rparr>"
  shows "g_fd (okm_unlock K me t) = g_fd s" "g_desc (okm_unlock K me t) = g_desc s"
proof -
  have "g_fd t = g_fd s" "g_desc t = g_desc s" by (subst assms, simp)+
  then show "g_fd (okm_unlock K me t) = g_fd s" "g_desc (okm_unlock K me t) = g_desc s" by simp_all
qed

lemma spawn_locked_accounted:
  assumes "ledger K opened" "starts_neutral K opened" "accounted opened h s"
    "spawn_locked K me at fa wu av ev bound s = (r, t)"
  shows "accounted opened h t \<and> g_fd t = g_fd s \<and> g_desc t = g_desc s"
proof -
  obtain n w s1 where pr: "prepare K fa s = (n, w, s1)" by (metis prod_cases3)
  note P = prepare_accounted [OF assms(1,3) pr]
  have fin: "accounted opened h (okm_unlock K me (release_all K w s2))
      \<and> g_fd (okm_unlock K me (release_all K w s2)) = g_fd s \<and> g_desc (okm_unlock K me (release_all K w s2)) = g_desc s"
    if "accounted opened (h + call_holds w) s2 \<and> s2 = s1\<lparr>env := env s2\<rparr>" for s2
    using release_all_accounted [OF assms(1), of h w s2] okm_unlock_accounted [OF assms(1)] that
      only_env_unlock [OF only_env_trans [OF only_env_trans [OF conjunct2 [OF P]] release_all_frame], of s2]
    by blast
  show ?thesis
  proof (cases n)
    case (Inl e)
    have "s1 = s1\<lparr>env := env s1\<rparr>" by simp
    then show ?thesis using fin [of s1] P assms(4) pr Inl by (auto simp: spawn_locked_def)
  next
    case (Inr nulls)
    with pr assms(4) obtain r2 s2 where
      sp: "start_program K bound nulls wu (case work_dir w of None \<Rightarrow> okm_cwd_dir s1 | Some d \<Rightarrow> d)
        (case work_dir w of None \<Rightarrow> g_cwd s1 | Some d \<Rightarrow> work_name w) at av ev
        \<lparr>sp_in = at_pos w 0, sp_out = at_pos w 1, sp_err = at_pos w 2\<rparr> s1 = (r2, s2)"
      and t: "t = okm_unlock K me (release_all K w s2)"
      by (auto simp: spawn_locked_def Let_def split: prod.splits)
    from fin [OF start_program_accounted [OF assms(2) conjunct1 [OF P] sp]] t show ?thesis by simp
  qed
qed

lemma okm_child_record_job_tbl:
  assumes "okm_child_record_job K me h j p = (pid, q)"
  shows "tbl q = okm_unlock K me (tbl p)"
  using assms
  by (auto simp: okm_child_record_job_def okm_child_reserve_def okm_child_commit_def okm_child_job_def Let_def set_child_def
      split: option.splits if_splits prod.splits)

text \<open>C4: A start leaves nothing behind. Whatever file actions it is given and wherever it stops, whether a program was started
  or not, the files and directories the call opened are closed again, each once, and nothing else is: the
  handles open for this program are those its descriptors own, as before, and no descriptor has
  changed.\<close>

theorem spawn_keeps_handles:
  assumes "ledger K opened" "starts_neutral K opened" "accounted opened h (tbl p)"
    and "okm_spawn_common K me res pathp fa attr argv envp bound p = (r, q)"
  shows "accounted opened h (tbl q) \<and> (\<forall>fd. okm_desc_of fd (tbl q) = okm_desc_of fd (tbl p)) \<and> g_desc (tbl q) = g_desc (tbl p)"
proof (cases "q = p")
  case False
  then obtain at r1 s1 where
    l: "spawn_locked K me at fa (case attr of None \<Rightarrow> False | Some a \<Rightarrow> has (sa_flags a) POSIX_SPAWN_SETPGROUP)
          argv envp bound (tbl p) = (r1, s1)"
    and rest: "case r1 of
        Inl e \<Rightarrow> q = p\<lparr>tbl := s1\<rparr>
      | Inr (child, unit) \<Rightarrow>
          (let (pid, p1) = okm_child_record_job K me child unit (p\<lparr>tbl := s1\<rparr>)
           in q = (if pid < 0 then set_penv (process_close K child (penv p1)) p1 else p1))"
    using assms(4) by (auto simp: okm_spawn_common_def split: if_splits sum.splits prod.splits)
  note L = spawn_locked_accounted [OF assms(1-3) l]
  have "accounted opened h (tbl q) \<and> g_fd (tbl q) = g_fd s1 \<and> g_desc (tbl q) = g_desc s1"
  proof (cases r1)
    case (Inl e)
    with rest L show ?thesis by simp
  next
    case (Inr cu)
    obtain child unit pid p1 where cu: "cu = (child, unit)"
      and rc: "okm_child_record_job K me child unit (p\<lparr>tbl := s1\<rparr>) = (pid, p1)" by (metis prod.exhaust)
    have t: "tbl p1 = okm_unlock K me s1" using okm_child_record_job_tbl [OF rc] by simp
    have "accounted opened h (tbl p1)" using okm_unlock_accounted [OF assms(1)] L t by simp
    with rest t assms(2) Inr cu rc show ?thesis
      by (auto simp: set_penv_def accounted_def starts_neutral_def)
  qed
  with L show ?thesis using okm_desc_of_cong [of "tbl q" "tbl p"] by simp
qed (use assms(3) in simp)

text \<open>A program started upon a file it opens and in a directory of its own.\<close>

definition start_kal :: "ledger_env kal" where
  "start_kal = ledger_kal\<lparr>process_spawn := (\<lambda>_ _ _ _ _ e. (Inr (77, 0), e)),
     process_props := {KAL_PROCESS_PROP_STREAM_PASSING}\<rparr>"

theorem spawn_keeps_handles_witness:
  "accounted open_now {#} (tbl (snd (okm_spawn_common start_kal 7 True (Some ''/home/cc'')
     (Some [FDOP_CHDIR ''/home/d'', FDOP_OPEN 1 ''/home/out'' O_RDWR]) None [''cc''] [] False (first_procs ledger_start))))"
proof -
  have L: "ledger start_kal open_now" using ledger_kal_ledger by (simp add: ledger_def start_kal_def)
  have N: "starts_neutral start_kal open_now" by (simp add: starts_neutral_def start_kal_def ledger_kal_def bare_kal_def)
  have A: "accounted open_now {#} (tbl (first_procs ledger_start))"
    using calls_inv_init [of open_now "\<lparr>handed_out = 5, open_now = {#}\<rparr>" ledger_kal 7]
    by (simp add: calls_inv_def first_procs_def ledger_start_def)
  obtain r q where "okm_spawn_common start_kal 7 True (Some ''/home/cc'')
     (Some [FDOP_CHDIR ''/home/d'', FDOP_OPEN 1 ''/home/out'' O_RDWR]) None [''cc''] [] False (first_procs ledger_start) = (r, q)"
    by fastforce
  with spawn_keeps_handles [OF L N A this] show ?thesis by simp
qed

section \<open>What the started program is given\<close>

text \<open>A position left at 0 is the stream the program began with.\<close>

definition given_stream :: "'e okm \<Rightarrow> spawning \<Rightarrow> nat \<Rightarrow> kal_stream" where
  "given_stream s w pos = (if at_pos w pos = 0 then okm_std_stream (int pos) s else at_pos w pos)"

lemma stream_for_spawn_stream_of: "stream_for_spawn fd s = Inr st \<longleftrightarrow> stream_of fd s = Inr st"
  by (auto simp: stream_for_spawn_def stream_of_def Let_def split: option.splits okm_kind.splits if_splits)

lemma place_given:
  assumes "place s pos st w = (0, w1)"
  shows "given_stream s w1 pos = st" "\<not> null_at w1 pos" "q \<noteq> pos \<Longrightarrow> at_pos w1 q = at_pos w q" "q \<noteq> pos \<Longrightarrow> null_at w1 q = null_at w q"
  using assms by (auto simp: place_def given_stream_def Let_def split: if_splits)

lemma place_fd_given:
  assumes "place_fd s pos fd w = (0, w1)"
  shows "if is_null fd s then null_at w1 pos \<and> at_pos w1 pos = 0
     else stream_of fd s = Inr (given_stream s w1 pos) \<and> \<not> null_at w1 pos"
    and "q \<noteq> pos \<Longrightarrow> at_pos w1 q = at_pos w q" "q \<noteq> pos \<Longrightarrow> null_at w1 q = null_at w q"
proof -
  have "(if is_null fd s then null_at w1 pos \<and> at_pos w1 pos = 0
     else stream_of fd s = Inr (given_stream s w1 pos) \<and> \<not> null_at w1 pos)
     \<and> (\<forall>q. q \<noteq> pos \<longrightarrow> at_pos w1 q = at_pos w q \<and> null_at w1 q = null_at w q)"
  proof (cases "is_null fd s")
    case True
    with assms have "w1 = place_null pos w" by (simp add: place_fd_def)
    with True show ?thesis by (simp add: place_null_def)
  next
    case False
    with assms obtain st where st: "stream_for_spawn fd s = Inr st" "place s pos st w = (0, w1)"
      by (cases "stream_for_spawn fd s") (auto simp: place_fd_def stream_for_spawn_def Let_def split: option.splits okm_kind.splits if_splits)
    with False place_given [OF st(2)] show ?thesis by (simp add: stream_for_spawn_stream_of)
  qed
  then show "if is_null fd s then null_at w1 pos \<and> at_pos w1 pos = 0
     else stream_of fd s = Inr (given_stream s w1 pos) \<and> \<not> null_at w1 pos"
    and "q \<noteq> pos \<Longrightarrow> at_pos w1 q = at_pos w q" "q \<noteq> pos \<Longrightarrow> null_at w1 q = null_at w q" by blast+
qed

lemma seed_loop_given:
  assumes "seed_loop s fds w = (0, w1)" "distinct fds"
  shows "\<forall>pos \<in> set fds. if is_null (int pos) s then null_at w1 pos \<and> at_pos w1 pos = 0
       else stream_of (int pos) s = Inr (given_stream s w1 pos) \<and> \<not> null_at w1 pos"
    and "\<forall>pos. pos \<notin> set fds \<longrightarrow> at_pos w1 pos = at_pos w pos \<and> null_at w1 pos = null_at w pos"
proof (atomize (full), use assms in \<open>induction fds arbitrary: w\<close>)
  case (Cons fd fds)
  obtain e w0 where p: "place_fd s fd (int fd) w = (e, w0)" by fastforce
  with Cons.prems have z: "e = 0" "seed_loop s fds w0 = (0, w1)" by (auto split: if_splits)
  note ih = Cons.IH [OF z(2)] and f = place_fd_given [OF p [unfolded z(1)]]
  have "given_stream s w1 fd = given_stream s w0 fd" "null_at w1 fd = null_at w0 fd" "at_pos w1 fd = at_pos w0 fd"
    using ih Cons.prems(2) by (simp_all add: given_stream_def)
  with ih f Cons.prems(2) show ?case by (auto split: if_splits)
qed simp

lemma seed_given:
  assumes "seed s = (0, w)" "pos < 3"
  shows "if is_null (int pos) s then null_at w pos else stream_of (int pos) s = Inr (given_stream s w pos) \<and> \<not> null_at w pos"
proof -
  have "pos \<in> set [0, 1, 2]" using assms(2) by auto
  from bspec [OF seed_loop_given(1) [OF assms(1) [unfolded seed_def]] this] show ?thesis by (auto split: if_splits)
qed

lemma null_flags_at: "pos < 3 \<Longrightarrow> null_at w pos \<Longrightarrow> [KAL_SPAWN_NULL_IN, KAL_SPAWN_NULL_OUT, KAL_SPAWN_NULL_ERR] ! pos \<in> null_flags w"
  using less_Suc_eq [of pos 2] less_Suc_eq [of pos 1] by (auto simp: null_flags_def numeral_3_eq_3 numeral_2_eq_2)

lemma grant_rest_confined:
  "set (grant_rest wn pre g) \<subseteq> set pre \<union> set g" "length g \<le> 16 \<Longrightarrow> length (grant_rest wn pre g) \<le> 16"
  "g \<noteq> [] \<Longrightarrow> grant_rest wn pre g \<noteq> []"
  by (induction wn pre g rule: grant_rest.induct) auto

text \<open>What a start that succeeded asked for.\<close>

definition started_with ::
  "'e kal \<Rightarrow> string \<Rightarrow> fdop list option \<Rightarrow> string list \<Rightarrow> string list \<Rightarrow> 'e okm \<Rightarrow> kal_spawn \<Rightarrow> spawning \<Rightarrow> kal_process \<Rightarrow> kal_job \<Rightarrow> bool" where
  "started_with K path fa argv envp s how w child unit \<longleftrightarrow>
     (\<exists>at nulls s1 e1.
        okm_resolve s AT_FDCWD (Some path) False = Inr at
        \<and> prepare K fa s = (Inr nulls, w, s1)
        \<and> process_spawn K how (at_rel at) argv envp \<lparr>sp_in = at_pos w 0, sp_out = at_pos w 1, sp_err = at_pos w 2\<rparr> (env s1)
            = (Inr (child, unit), e1)
        \<and> sp_base how = at_base at
        \<and> sp_work how = (case work_dir w of None \<Rightarrow> okm_cwd_dir s1 | Some d \<Rightarrow> d)
        \<and> sp_grants how = grants_of K (sp_work how) (case work_dir w of None \<Rightarrow> g_cwd s1 | Some d \<Rightarrow> work_name w) s1
        \<and> nulls \<subseteq> sp_flags how)"

lemma spawn_locked_started:
  assumes "spawn_locked K me at fa wu argv envp bound s = (Inr (child, unit), t)" "okm_resolve s AT_FDCWD (Some path) False = Inr at"
  shows "\<exists>how w. started_with K path fa argv envp s how w child unit"
proof -
  obtain n w s1 where pr: "prepare K fa s = (n, w, s1)" by (metis prod_cases3)
  with assms(1) obtain nulls where n: "n = Inr nulls" by (cases n) (auto simp: spawn_locked_def)
  let ?work = "case work_dir w of None \<Rightarrow> okm_cwd_dir s1 | Some d \<Rightarrow> d"
  let ?how = "\<lparr>sp_base = at_base at, sp_work = ?work,
                 sp_job = (wu \<and> KAL_PROCESS_PROP_JOB \<in> process_props K),
                 sp_grants = grants_of K ?work (case work_dir w of None \<Rightarrow> g_cwd s1 | Some d \<Rightarrow> work_name w) s1,
                 sp_flags = nulls \<union> (if bound \<and> KAL_PROCESS_PROP_BOUND_LIFETIME \<in> process_props K
                                     then {KAL_SPAWN_BOUND_LIFETIME} else {})\<rparr>"
  obtain e1 where "process_spawn K ?how (at_rel at) argv envp \<lparr>sp_in = at_pos w 0, sp_out = at_pos w 1, sp_err = at_pos w 2\<rparr> (env s1)
      = (Inr (child, unit), e1)"
    using assms(1) pr n by (auto simp: spawn_locked_def start_program_def Let_def split: prod.splits sum.splits)
  then show ?thesis
    unfolding started_with_def using assms(2) pr n by (intro exI [of _ ?how] exI [of _ w] exI [of _ at] exI [of _ nulls] exI [of _ s1] exI [of _ e1]) simp
qed

lemma spawn_common_started:
  assumes "okm_spawn_common K me True (Some path) fa attr argv envp bound p = (Inr pid, q)"
  shows "\<exists>how w child unit i. started_with K path fa argv envp (tbl p) how w child unit
    \<and> i < OKM_MAX_CHILD \<and> \<not> c_used (g_child p i)
    \<and> g_child q = (g_child p)(i := \<lparr>c_used = True, c_pid = pid, c_h = child, c_job = unit, c_has_job = (unit \<noteq> 0)\<rparr>)"
proof -
  obtain at child unit s1 where at: "okm_resolve (tbl p) AT_FDCWD (Some path) False = Inr at"
    and l: "spawn_locked K me at fa (case attr of None \<Rightarrow> False | Some a \<Rightarrow> has (sa_flags a) POSIX_SPAWN_SETPGROUP)
          argv envp bound (tbl p) = (Inr (child, unit), s1)"
    and rc: "okm_child_record_job K me child unit (p\<lparr>tbl := s1\<rparr>) = (pid, q)" and pos: "\<not> pid < 0"
    using assms by (auto simp: okm_spawn_common_def split: if_splits sum.splits prod.splits)
  have "pid \<noteq> - EAGAIN" using pos by simp
  with okm_child_record_job_result [OF rc] obtain i where "i < OKM_MAX_CHILD" "\<not> c_used (g_child p i)"
    "g_child q = (g_child p)(i := \<lparr>c_used = True, c_pid = pid, c_h = child, c_job = unit, c_has_job = (unit \<noteq> 0)\<rparr>)"
    by (metis procs.select_convs(1) procs.surjective procs.update_convs(9))
  with spawn_locked_started [OF l at] show ?thesis by blast
qed

lemma apply_action_frame: "apply_action K op w s = (e, w1, s1) \<Longrightarrow> s1 = s\<lparr>env := env s1\<rparr>"
  by (cases op)
    (auto simp: apply_action_def apply_open_def apply_chdir_def hold_dir_def split: if_splits prod.splits sum.splits option.splits)

lemma apply_actions_frame: "apply_actions K ops w s = (e, w1, s1) \<Longrightarrow> s1 = s\<lparr>env := env s1\<rparr>"
proof (induction ops arbitrary: w s)
  case (Cons op ops)
  obtain e0 w0 s0 where a: "apply_action K op w s = (e0, w0, s0)" by (metis prod_cases3)
  note f = apply_action_frame [OF a]
  show ?case
  proof (cases "e0 = 0")
    case True
    then have "apply_actions K ops w0 s0 = (e, w1, s1)" using Cons.prems a by simp
    from only_env_trans [OF f Cons.IH [OF this]] show ?thesis .
  next
    case False
    with Cons.prems a f show ?thesis by simp
  qed
qed simp

lemma settle_nulls_frame: "settle_nulls K w s = (r, w1, s1) \<Longrightarrow> s1 = s\<lparr>env := env s1\<rparr>"
  by (auto simp: settle_nulls_def simp del: place_nulls.simps split: if_splits prod.splits sum.splits)

text \<open>A preparation that was not refused, step by step.\<close>

lemma prepareE:
  assumes "prepare K fa s = (Inr nulls, w, s1)"
  obtains w0 w1 t where "seed s = (0, w0)" "apply_actions K (case fa of None \<Rightarrow> [] | Some ops \<Rightarrow> rev ops) w0 s = (0, w1, t)"
    "settle_nulls K w1 t = (Inr nulls, w, s1)" "s1 = s\<lparr>env := env s1\<rparr>"
proof -
  obtain e0 w0 where sd: "seed s = (e0, w0)" by fastforce
  obtain e1 w1 t where a: "apply_actions K (case fa of None \<Rightarrow> [] | Some ops \<Rightarrow> rev ops) w0 s = (e1, w1, t)"
    by (metis prod_cases3)
  obtain n w2 t2 where st: "settle_nulls K w1 t = (n, w2, t2)" by (metis prod_cases3)
  have "e0 = 0" "e1 = 0" "n = Inr nulls" "w2 = w" "t2 = s1"
    using assms by (cases n; auto simp: prepare_def sd a st split: if_splits)+
  with sd a st only_env_trans [OF apply_actions_frame [OF a] settle_nulls_frame [OF st]] that show ?thesis by blast
qed

lemma place_nulls_keeps:
  "place_nulls s at st ps w = (e, w1) \<Longrightarrow>
     (\<not> at q \<longrightarrow> at_pos w1 q = at_pos w q) \<and> work_dir w1 = work_dir w \<and> work_name w1 = work_name w
     \<and> opened_files w1 = opened_files w"
proof (induction ps arbitrary: w)
  case (Cons pos ps)
  show ?case
  proof (cases "at pos")
    case True
    obtain e0 w0 where p: "place s pos st w = (e0, w0)" by fastforce
    have "(\<not> at q \<longrightarrow> at_pos w0 q = at_pos w q) \<and> work_dir w0 = work_dir w \<and> work_name w0 = work_name w
        \<and> opened_files w0 = opened_files w"
      using p True by (auto simp: place_def Let_def split: if_splits)
    with Cons p True show ?thesis by (auto split: if_splits)
  next
    case False
    with Cons show ?thesis by simp
  qed
qed simp

lemma settle_nulls_keeps:
  assumes "settle_nulls K w s = (Inr nulls, w1, s1)"
  shows "\<not> null_at w q \<Longrightarrow> at_pos w1 q = at_pos w q" "work_dir w1 = work_dir w" "work_name w1 = work_name w"
    "KAL_PROCESS_PROP_NULL_STREAMS \<in> process_props K \<Longrightarrow> nulls = null_flags w"
    "set (opened_files w) \<subseteq> set (opened_files w1)"
proof -
  have "(\<not> null_at w q \<longrightarrow> at_pos w1 q = at_pos w q) \<and> work_dir w1 = work_dir w \<and> work_name w1 = work_name w
    \<and> (KAL_PROCESS_PROP_NULL_STREAMS \<in> process_props K \<longrightarrow> nulls = null_flags w)
    \<and> set (opened_files w) \<subseteq> set (opened_files w1)"
    using assms
    by (auto simp: settle_nulls_def null_flags_def simp del: place_nulls.simps dest!: place_nulls_keeps [where q = q]
        split: if_splits prod.splits sum.splits)
  then show "\<not> null_at w q \<Longrightarrow> at_pos w1 q = at_pos w q" "work_dir w1 = work_dir w" "work_name w1 = work_name w"
    "KAL_PROCESS_PROP_NULL_STREAMS \<in> process_props K \<Longrightarrow> nulls = null_flags w"
    "set (opened_files w) \<subseteq> set (opened_files w1)" by blast+
qed

lemma grants_of_confined:
  assumes "KAL_PROCESS_PROP_GRANT_DIR \<in> process_props K" "wname \<noteq> []"
  shows "grants_of K work wname s \<noteq> []" "set (grants_of K work wname s) \<subseteq> insert (work, wname) (set (g_pre s))"
  using grant_rest_confined(1) [of wname "g_pre s" "[(work, wname)]"] grant_rest_confined(3) [of "[(work, wname)]" wname "g_pre s"] assms
  by (auto simp: grants_of_def)


text \<open>A program with its three streams, a directory without a name as descriptor 3, and one supplied directory.\<close>

definition spawn_kal :: "unit kal" where
  "spawn_kal = bare_kal\<lparr>process_spawn := (\<lambda>_ _ _ _ _ e. (Inr (77, 0), e)), fs_open := (\<lambda>_ _ _ e. (Inr 40, e)),
     fs_open_dir := (\<lambda>_ _ e. (Inr 41, e)),
     process_props := {KAL_PROCESS_PROP_STREAM_PASSING, KAL_PROCESS_PROP_GRANT_DIR}\<rparr>"

definition spawn_start :: "unit okm" where
  "spawn_start = (zero_okm ())\<lparr>
     g_fd := (\<lambda>fd. \<lparr>fd_desc = (if fd < 4 then int fd else -1), fd_cloexec = 0\<rparr>),
     g_desc := (\<lambda>d. zero_desc\<lparr>d_refs := if d < 4 then 1 else 0, d_kind := if d < 3 then OKM_STREAM else if d = 3 then OKM_DIR else OKM_FREE,
                 d_stream := 10 + of_nat d, d_dir := 33\<rparr>),
     g_std_stream := (\<lambda>i. 10 + of_nat i), g_pre := [(1, ''/home'')], okm_cwd_dir := 1, g_cwd := ''/home''\<rparr>"

lemma spawn_start_fds:
  "okm_desc_of 0 spawn_start = Some 0" "okm_desc_of 1 spawn_start = Some 1" "okm_desc_of 2 spawn_start = Some 2"
  "okm_desc_of 3 spawn_start = Some 3"
  by (simp_all add: okm_desc_of_def fd_in_range_def spawn_start_def)

lemma spawn_start_resolve: "okm_resolve spawn_start AT_FDCWD (Some ''/home/cc'') False = Inr \<lparr>at_base = 1, at_len = 2, at_rel = ''cc''\<rparr>"
  by code_simp

lemma spawn_start_env: "spawn_start\<lparr>env := e\<rparr> = spawn_start"
  by (simp add: spawn_start_def zero_okm_def)

lemma spawn_start_streams:
  "is_null 0 spawn_start = False" "is_null 1 spawn_start = False" "is_null 2 spawn_start = False"
  "stream_for_spawn 0 spawn_start = Inr 10" "stream_for_spawn 1 spawn_start = Inr 11" "stream_for_spawn 2 spawn_start = Inr 12"
  "okm_std_stream 0 spawn_start = 10" "okm_std_stream 1 spawn_start = 11" "okm_std_stream 2 spawn_start = 12"
  unfolding is_null_def stream_for_spawn_def spawn_start_fds
  by (simp_all add: spawn_start_def okm_std_stream_def)

lemma spawn_start_seed: "seed spawn_start = (0, no_spawning)"
  by (simp add: seed_def place_fd_def place_def spawn_start_streams no_spawning_def fun_upd_idem)

lemma spawn_start_prepare: "prepare spawn_kal None spawn_start = (Inr {}, no_spawning, spawn_start)"
  by (simp add: prepare_def spawn_start_seed settle_nulls_def) (simp add: no_spawning_def)

lemma spawn_start_started:
  assumes "prepare spawn_kal fa spawn_start = (Inr {}, w, spawn_start)"
  shows "\<exists>q. okm_spawn_common spawn_kal 7 True (Some ''/home/cc'') fa None [''cc''] [] False (first_procs spawn_start) = (Inr 1001, q)"
proof -
  have st: "startable spawn_kal \<lparr>at_base = 1, at_len = 2, at_rel = ''cc''\<rparr> spawn_start = 0"
    by (simp add: startable_def spawn_kal_def bare_kal_def)
  obtain s1 where l: "spawn_locked spawn_kal 7 \<lparr>at_base = 1, at_len = 2, at_rel = ''cc''\<rparr> fa False [''cc''] [] False spawn_start
      = (Inr (77, 0), s1)"
    by (auto simp: spawn_locked_def assms start_program_def Let_def) (simp add: spawn_kal_def)
  have first: "scan_up (\<lambda>i. \<not> c_used (g_child (first_procs spawn_start\<lparr>tbl := s1\<rparr>) i)) 0 OKM_MAX_CHILD = Some 0"
    by (simp add: scan_up_Some first_procs_def zero_child_def)
  have none: "named_pid spawn_kal 77 e = None" for e by (simp add: named_pid_def spawn_kal_def bare_kal_def)
  have next_pid: "g_next_pid (first_procs spawn_start\<lparr>tbl := s1\<rparr>) = 1000" by (simp add: first_procs_def)
  obtain q where "okm_child_record_job spawn_kal 7 77 0 (first_procs spawn_start\<lparr>tbl := s1\<rparr>) = (1001, q)"
    unfolding okm_child_record_job_def okm_child_reserve_def first
    by (auto simp: okm_child_commit_def okm_child_job_def none next_pid Let_def set_child_def)
  with st l show ?thesis
    by (simp add: okm_spawn_common_def attr_refused_def first_procs_def spawn_start_resolve)
qed


section \<open>Where it differs from what was asked\<close>

lemma spawn_views_env:
  "is_null fd (s\<lparr>env := e\<rparr>) = is_null fd s" "stream_of fd (s\<lparr>env := e\<rparr>) = stream_of fd s"
  "given_stream (s\<lparr>env := e\<rparr>) w pos = given_stream s w pos"
  by (simp_all add: is_null_def stream_of_def given_stream_def okm_std_stream_def okm_desc_of_env split: option.split)

lemma apply_open_given:
  assumes "apply_open K fd path fl w s = (0, w1, s1)" "0 \<le> fd" "fd \<le> 2" "\<not> okm_null_name s AT_FDCWD (Some path)"
    and N: "refusals_named K"
  shows "\<exists>f. f \<in> set (opened_files w1) \<and> given_stream s w1 (nat fd) = fs_stream K f \<and> \<not> null_at w1 (nat fd)"
proof -
  obtain at where at: "okm_resolve s AT_FDCWD (Some path) False = Inr at"
    using assms(1-4) by (cases "okm_resolve s AT_FDCWD (Some path) False") (auto simp: apply_open_def dest: okm_resolve_error split: if_splits)
  obtain f e1 where o: "fs_open K (at_base at) (at_rel at) (okm_open_flags fl) (env s) = (f, e1)" by fastforce
  have "f \<noteq> Inl kal_ok" using N o unfolding refusals_named_def by (metis fst_conv)
  with o obtain g where g: "f = Inr g" using assms(1-4) at by (cases f) (auto simp: apply_open_def split: if_splits)
  have p: "place s (nat fd) (fs_stream K g) (w\<lparr>opened_files := opened_files w @ [g]\<rparr>) = (0, w1)"
    using assms(1-4) at o g by (auto simp: apply_open_def split: if_splits prod.splits)
  moreover have "opened_files w1 = opened_files w @ [g]"
    using p by (auto simp: place_def Let_def split: if_splits)
  ultimately show ?thesis using place_given(1,2) [OF p] by auto
qed

text \<open>An action that duplicates one position onto another reads the caller's descriptor and not what an earlier action put at
  that position. The idiom for both outputs in one file, \<open>addopen(1, \<dots>)\<close> and then \<open>adddup2(1, 2)\<close>, starts
  the program with its standard output in the file and its errors on the caller's own output.\<close>

theorem spawn_dup2_parent:
  assumes "okm_spawn_common K me True (Some prog) (Some [FDOP_DUP2 2 1, FDOP_OPEN 1 path fl]) attr argv envp bound p = (Inr pid, q)"
    and "\<not> is_null 1 (tbl p)" "\<not> okm_null_name (tbl p) AT_FDCWD (Some path)" "refusals_named K"
  shows "\<exists>how w child unit f.
    started_with K prog (Some [FDOP_DUP2 2 1, FDOP_OPEN 1 path fl]) argv envp (tbl p) how w child unit
    \<and> f \<in> set (opened_files w) \<and> given_stream (tbl p) w 1 = fs_stream K f
    \<and> stream_of 1 (tbl p) = Inr (given_stream (tbl p) w 2)"
proof -
  let ?s = "tbl p" and ?fa = "[FDOP_DUP2 2 1, FDOP_OPEN 1 path fl]"
  obtain how w child unit where st: "started_with K prog (Some ?fa) argv envp ?s how w child unit"
    using spawn_common_started [OF assms(1)] by blast
  then obtain nulls s1 where pr: "prepare K (Some ?fa) ?s = (Inr nulls, w, s1)" unfolding started_with_def by blast
  obtain w0 w1 t where acts: "apply_actions K [FDOP_OPEN 1 path fl, FDOP_DUP2 2 1] w0 ?s = (0, w1, t)"
    and sn: "settle_nulls K w1 t = (Inr nulls, w, s1)"
    by (rule prepareE [OF pr]) auto
  obtain e0 wa ta where o: "apply_open K 1 path fl w0 ?s = (e0, wa, ta)" by (metis prod_cases3)
  have o0: "e0 = 0" and d: "place_fd ta 2 1 wa = (0, w1)"
    using acts o by (auto simp: apply_action_def split: if_splits prod.splits)
  have ta: "ta = ?s\<lparr>env := env ta\<rparr>" using apply_action_frame [of K "FDOP_OPEN 1 path fl"] o by (simp add: apply_action_def)
  obtain f where f: "f \<in> set (opened_files wa)" "given_stream ?s wa 1 = fs_stream K f" "\<not> null_at wa 1"
    using apply_open_given [OF o [unfolded o0]] assms(3,4) by auto
  have ta_views: "is_null 1 ta = is_null 1 ?s" "stream_of 1 ta = stream_of 1 ?s" "given_stream ta w1 2 = given_stream ?s w1 2"
    by (subst ta, simp only: spawn_views_env)+
  have two: "stream_of 1 ?s = Inr (given_stream ?s w1 2)" "\<not> null_at w1 2"
    using place_fd_given(1) [OF d] assms(2) by (simp_all add: ta_views)
  have one: "at_pos w1 1 = at_pos wa 1" "null_at w1 1 = null_at wa 1" using place_fd_given(2,3) [OF d, of 1] by simp_all
  have files: "opened_files w1 = opened_files wa"
    using d by (auto simp: place_fd_def place_null_def place_def Let_def split: if_splits sum.splits)
  have "given_stream ?s w 1 = given_stream ?s wa 1" "given_stream ?s w 2 = given_stream ?s w1 2"
    using settle_nulls_keeps(1) [OF sn, of 1] settle_nulls_keeps(1) [OF sn, of 2] one two(2) f(3) by (simp_all add: given_stream_def)
  then have "given_stream ?s w 1 = fs_stream K f" "stream_of 1 ?s = Inr (given_stream ?s w 2)" using f(2) two(1) by simp_all
  moreover have "f \<in> set (opened_files w)" using settle_nulls_keeps(5) [OF sn] files f by auto
  ultimately show ?thesis using st by blast
qed

text \<open>A directory the program is to run in that has no name this library knows costs the confinement of its grants: with an action
  \<open>addfchdir\<close> of such a descriptor the start is made with no grants at all, which leaves the program the directories the
  implementation supplies by default and not those this program holds.\<close>

theorem spawn_unnamed_grants:
  assumes "okm_spawn_common K me True (Some prog) (Some [FDOP_FCHDIR fd]) attr argv envp bound p = (Inr pid, q)"
    and "okm_absolute (tbl p) fd (Some ''.'') OKM_MAX_PATH = Inl r" "refusals_named K"
  shows "\<exists>how w child unit. started_with K prog (Some [FDOP_FCHDIR fd]) argv envp (tbl p) how w child unit \<and> sp_grants how = []"
proof -
  let ?s = "tbl p"
  obtain how w child unit where st: "started_with K prog (Some [FDOP_FCHDIR fd]) argv envp ?s how w child unit"
    using spawn_common_started [OF assms(1)] by blast
  then obtain nulls s1 where pr: "prepare K (Some [FDOP_FCHDIR fd]) ?s = (Inr nulls, w, s1)"
    and gr: "sp_grants how = grants_of K (sp_work how) (case work_dir w of None \<Rightarrow> g_cwd s1 | Some d \<Rightarrow> work_name w) s1"
    unfolding started_with_def by blast
  obtain w0 w1 t where acts: "apply_actions K [FDOP_FCHDIR fd] w0 ?s = (0, w1, t)" and sn: "settle_nulls K w1 t = (Inr nulls, w, s1)"
    by (rule prepareE [OF pr]) auto
  then obtain d where d: "okm_desc_of fd ?s = Some d"
    and c: "apply_chdir K (d_dir (g_desc ?s d)) ''.'' (absolute_or_empty ?s fd ''.'') w0 ?s = (0, w1, t)"
    by (auto simp: apply_action_def split: if_splits option.splits prod.splits)
  obtain od_r e1 where od: "fs_open_dir K (d_dir (g_desc ?s d)) ''.'' (env ?s) = (od_r, e1)" by fastforce
  have "od_r \<noteq> Inl kal_ok" using assms(3) od unfolding refusals_named_def by (metis fst_conv)
  then have "work_dir w1 \<noteq> None" "work_name w1 = []"
    using c od assms(2) by (cases od_r; auto simp: apply_chdir_def hold_dir_def absolute_or_empty_def)+
  with gr settle_nulls_keeps(2,3) [OF sn] have "sp_grants how = []" by (auto simp: grants_of_def)
  with st show ?thesis by blast
qed



lemma spawn_kal_named: "refusals_named spawn_kal"
  by (simp add: refusals_named_def spawn_kal_def)

theorem spawn_unnamed_grants_witness:
  "\<exists>how w child unit. started_with spawn_kal ''/home/cc'' (Some [FDOP_FCHDIR 3]) [''cc''] [] spawn_start how w child unit
     \<and> sp_grants how = []"
proof -
  have unnamed: "okm_absolute spawn_start 3 (Some ''.'') OKM_MAX_PATH = Inl (- ENOENT)" by code_simp
  have K: "fs_open_dir spawn_kal d n e = (Inr 41, e)" "d_kind (g_desc spawn_start 3) = OKM_DIR" for d n e
    by (simp_all add: spawn_kal_def) (simp add: spawn_start_def)
  have "prepare spawn_kal (Some [FDOP_FCHDIR 3]) spawn_start
      = (Inr {}, no_spawning\<lparr>work_dir := Some 41, work_name := []\<rparr>, spawn_start)"
    by (simp add: prepare_def spawn_start_seed apply_action_def spawn_start_fds apply_chdir_def hold_dir_def absolute_or_empty_def
        unnamed settle_nulls_def no_spawning_def K spawn_start_env)
  from spawn_start_started [OF this] obtain q where "okm_spawn_common spawn_kal 7 True (Some ''/home/cc'') (Some [FDOP_FCHDIR 3]) None
      [''cc''] [] False (first_procs spawn_start) = (Inr 1001, q)" by blast
  from spawn_unnamed_grants [OF this] unnamed spawn_kal_named show ?thesis by (simp add: first_procs_def)
qed

theorem spawn_dup2_parent_witness:
  "\<exists>how w child unit f. started_with spawn_kal ''/home/cc'' (Some [FDOP_DUP2 2 1, FDOP_OPEN 1 ''/home/o'' O_RDWR]) [''cc''] [] spawn_start how w child unit
     \<and> given_stream spawn_start w 1 = fs_stream spawn_kal f \<and> stream_of 1 spawn_start = Inr (given_stream spawn_start w 2)"
proof -
  have at: "okm_resolve spawn_start AT_FDCWD (Some ''/home/o'') False = Inr \<lparr>at_base = 1, at_len = 1, at_rel = ''o''\<rparr>" by code_simp
  have nn: "\<not> okm_null_name spawn_start AT_FDCWD (Some ''/home/o'')" by code_simp
  have K: "fs_open spawn_kal d n fl e = (Inr 40, e)" "fs_stream spawn_kal f = f" "KAL_PROCESS_PROP_STREAM_PASSING \<in> process_props spawn_kal" for d n fl e f
    by (simp_all add: spawn_kal_def bare_kal_def)
  have "\<exists>w. prepare spawn_kal (Some [FDOP_DUP2 2 1, FDOP_OPEN 1 ''/home/o'' O_RDWR]) spawn_start = (Inr {}, w, spawn_start)"
    by (simp add: prepare_def spawn_start_seed apply_action_def apply_open_def nn at K place_def spawn_start_streams place_fd_def
        settle_nulls_def no_spawning_def spawn_start_env)
  then obtain w where "prepare spawn_kal (Some [FDOP_DUP2 2 1, FDOP_OPEN 1 ''/home/o'' O_RDWR]) spawn_start = (Inr {}, w, spawn_start)" by blast
  from spawn_start_started [OF this] obtain q where
    q: "okm_spawn_common spawn_kal 7 True (Some ''/home/cc'') (Some [FDOP_DUP2 2 1, FDOP_OPEN 1 ''/home/o'' O_RDWR]) None
      [''cc''] [] False (first_procs spawn_start) = (Inr 1001, q)" by blast
  have t: "tbl (first_procs spawn_start) = spawn_start" by (simp add: first_procs_def)
  from spawn_dup2_parent [OF q, unfolded t, OF _ nn spawn_kal_named] spawn_start_streams(2) show ?thesis by blast
qed

section \<open>execve\<close>

lemma prepare_frame: "prepare K fa s = (r, w, s1) \<Longrightarrow> s1 = s\<lparr>env := env s1\<rparr>"
proof -
  assume pr: "prepare K fa s = (r, w, s1)"
  obtain e0 w0 where sd: "seed s = (e0, w0)" by fastforce
  obtain e1 w1 t where a: "apply_actions K (case fa of None \<Rightarrow> [] | Some ops \<Rightarrow> rev ops) w0 s = (e1, w1, t)"
    by (metis prod_cases3)
  obtain n w2 t2 where st: "settle_nulls K w1 t = (n, w2, t2)" by (metis prod_cases3)
  have "s1 = s \<or> s1 = t \<or> s1 = t2" using pr by (cases n) (auto simp: prepare_def sd a st split: if_splits)
  moreover have "s = s\<lparr>env := env s\<rparr>" by simp
  ultimately show ?thesis
    using apply_actions_frame [OF a] only_env_trans [OF apply_actions_frame [OF a] settle_nulls_frame [OF st]] by metis
qed

lemma spawn_locked_frame:
  assumes "spawn_locked K me at fa wu av ev bound s = (r, t)"
  shows "\<exists>e. t = okm_unlock K me (s\<lparr>env := e\<rparr>)"
proof -
  obtain n w s1 where pr: "prepare K fa s = (n, w, s1)" by (metis prod_cases3)
  have "\<exists>e. t = okm_unlock K me (release_all K w (s1\<lparr>env := e\<rparr>))"
  proof (cases n)
    case (Inl x)
    then have "t = okm_unlock K me (release_all K w (s1\<lparr>env := env s1\<rparr>))" using assms pr by (simp add: spawn_locked_def)
    then show ?thesis by blast
  next
    case (Inr nulls)
    then show ?thesis using assms pr by (auto simp: spawn_locked_def start_program_def Let_def split: prod.splits)
  qed
  then obtain e where t: "t = okm_unlock K me (release_all K w (s1\<lparr>env := e\<rparr>))" by blast
  have "release_all K w (s1\<lparr>env := e\<rparr>) = s\<lparr>env := env (release_all K w (s1\<lparr>env := e\<rparr>))\<rparr>"
  proof -
    have "s1\<lparr>env := e\<rparr> = s\<lparr>env := e\<rparr>" by (subst prepare_frame [OF pr]) simp
    then show ?thesis using release_all_frame [of K w "s1\<lparr>env := e\<rparr>"] by simp
  qed
  then show ?thesis using t by metis
qed

lemma okm_child_record_job_full:
  assumes "okm_child_record_job K me h j p = (pid, q)" "pid < 0" "0 \<le> g_next_pid p"
  shows "g_child q = g_child p"
  using assms
  by (auto simp: okm_child_record_job_def okm_child_reserve_def okm_child_commit_def okm_child_job_def Let_def set_child_def
      named_pid_def dest: scan_upD(2) split: option.splits if_splits prod.splits sum.splits)

lemma spawn_common_frame:
  assumes "okm_spawn_common K me res pathp fa attr argv envp bound p = (r, q)"
  shows "table_inv (tbl p) \<Longrightarrow> table_inv (tbl q)" "okm_desc_of fd (tbl q) = okm_desc_of fd (tbl p)"
    "r = Inl e \<Longrightarrow> 0 \<le> g_next_pid p \<Longrightarrow> g_child q = g_child p"
proof (atomize (full), cases "q = p")
  case False
  then obtain at r1 s1 where
    l: "spawn_locked K me at fa (case attr of None \<Rightarrow> False | Some a \<Rightarrow> has (sa_flags a) POSIX_SPAWN_SETPGROUP)
          argv envp bound (tbl p) = (r1, s1)"
    and rest: "case r1 of
        Inl e \<Rightarrow> q = p\<lparr>tbl := s1\<rparr>
      | Inr (child, unit) \<Rightarrow>
          (let (pid, p1) = okm_child_record_job K me child unit (p\<lparr>tbl := s1\<rparr>)
           in if pid < 0 then q = set_penv (process_close K child (penv p1)) p1 else q = p1 \<and> r = Inr pid)"
    using assms by (auto simp: okm_spawn_common_def split: if_splits sum.splits prod.splits)
  obtain e1 where s1: "s1 = okm_unlock K me ((tbl p)\<lparr>env := e1\<rparr>)" using spawn_locked_frame [OF l] by blast
  have inv: "table_inv (tbl p) \<Longrightarrow> table_inv s1" and fd: "okm_desc_of fd s1 = okm_desc_of fd (tbl p)"
    by (simp_all add: s1 okm_unlock_inv table_inv_set_env okm_desc_of_env)
  show "(table_inv (tbl p) \<longrightarrow> table_inv (tbl q)) \<and> okm_desc_of fd (tbl q) = okm_desc_of fd (tbl p)
    \<and> (r = Inl e \<longrightarrow> 0 \<le> g_next_pid p \<longrightarrow> g_child q = g_child p)"
  proof (cases r1)
    case (Inl x)
    with rest inv fd show ?thesis by simp
  next
    case (Inr cu)
    obtain child unit pid p1 where cu: "cu = (child, unit)"
      and rc: "okm_child_record_job K me child unit (p\<lparr>tbl := s1\<rparr>) = (pid, p1)" by (metis prod.exhaust)
    have t: "tbl p1 = okm_unlock K me s1" using okm_child_record_job_tbl [OF rc] by simp
    have c: "pid < 0 \<Longrightarrow> 0 \<le> g_next_pid p \<Longrightarrow> g_child p1 = g_child p" using okm_child_record_job_full [OF rc] by simp
    have "tbl q = tbl p1 \<or> tbl q = (tbl p1)\<lparr>env := process_close K child (penv p1)\<rparr>"
      using rest Inr cu rc by (auto simp: set_penv_def split: if_splits)
    then have "(table_inv (tbl p) \<longrightarrow> table_inv (tbl q)) \<and> okm_desc_of fd (tbl q) = okm_desc_of fd (tbl p)"
      using inv fd by (auto simp: t okm_unlock_inv table_inv_set_env okm_desc_of_env)
    moreover have "r = Inl e \<longrightarrow> 0 \<le> g_next_pid p \<longrightarrow> g_child q = g_child p"
      using rest Inr cu rc c by (auto split: if_splits)
    ultimately show ?thesis by blast
  qed
qed simp

lemma spawn_common_pid:
  assumes "okm_spawn_common K me res pathp fa attr argv envp bound p = (Inr pid, q)" "0 \<le> g_next_pid p"
  shows "0 < pid"
proof -
  obtain child unit s1 where rc: "okm_child_record_job K me child unit (p\<lparr>tbl := s1\<rparr>) = (pid, q)" and "\<not> pid < 0"
    using assms(1) by (auto simp: okm_spawn_common_def split: if_splits sum.splits prod.splits)
  with assms(2) show ?thesis
    by (auto simp: okm_child_record_job_def okm_child_reserve_def okm_child_commit_def okm_child_job_def Let_def set_child_def
        named_pid_def dest: scan_upD(2) split: option.splits if_splits prod.splits sum.splits)
qed

lemma reap_fd: "reap K i r p = (x, q) \<Longrightarrow> okm_desc_of fd (tbl q) = okm_desc_of fd (tbl p)"
  by (auto simp: reap_def child_usage_def set_child_def set_penv_def okm_desc_of_env Let_def split: sum.splits prod.splits)



end
