(* ===== verification/Okm_Select.thy ===== *)
theory Okm_Select
  imports Okm_Poll
begin

text \<open>
  \<open>select\<close>, \<open>pselect\<close> and \<open>ppoll\<close> above \<open>poll\<close> (port/src/okm_syscall.c). A \<open>fd_set\<close> is the set of its descriptors, an absent one
  \<open>None\<close>. The time a call states is a pair of seconds and nanoseconds; \<open>long long\<close> is wide enough for the
  product of any time below 2^53 seconds, and the conversion to \<open>int\<close> at the end keeps the low 32 bits.
\<close>

abbreviation (input) FD_SETSIZE :: int where "FD_SETSIZE \<equiv> 1024"
abbreviation (input) OKM_SELECT_MAX :: nat where "OKM_SELECT_MAX \<equiv> 128"
abbreviation (input) POLLERR :: flagword where "POLLERR \<equiv> 8"

section \<open>The bound\<close>

text \<open>\<open>tv_nsec / 1000000\<close> rounds toward zero, as C's division does.\<close>

definition div_to_zero :: "int \<Rightarrow> int \<Rightarrow> int" where
  "div_to_zero a b = sgn a * sgn b * (\<bar>a\<bar> div \<bar>b\<bar>)"

definition ms_of_timespec :: "(int \<times> int) option \<Rightarrow> int" where
  "ms_of_timespec ts =
     (case ts of
        None \<Rightarrow> -1
      | Some (sec, nsec) \<Rightarrow>
          if sec = 0 \<and> nsec = 0 then 0
          else
            let ms = sec * 1000 + div_to_zero nsec 1000000;
                ms1 = (if ms = 0 then 1 else ms);
                ms2 = (if 0x7fffffff < ms1 then 0x7fffffff else ms1)
            in signed_take_bit 31 ms2)"

definition sys_ppoll ::
  "'e kal \<Rightarrow> pollfd list option \<Rightarrow> nat \<Rightarrow> (int \<times> int) option \<Rightarrow> 'e okm \<Rightarrow> (int \<times> pollfd list \<times> 'e okm) option" where
  "sys_ppoll K p n ts s = okm_poll K p n (ms_of_timespec ts) s"

section \<open>select\<close>

definition in_set :: "int \<Rightarrow> int set option \<Rightarrow> bool" where
  "in_set fd fs = (case fs of None \<Rightarrow> False | Some x \<Rightarrow> fd \<in> x)"

text \<open>The descriptors watched, in order; \<open>None\<close> where there are more than the set may have.\<close>

fun select_watch :: "int set option \<Rightarrow> int set option \<Rightarrow> int list \<Rightarrow> pollfd list \<Rightarrow> pollfd list option" where
  "select_watch rd wr [] p = Some p"
| "select_watch rd wr (fd # fds) p =
     (let ev = (if in_set fd rd then POLLIN else 0) OR (if in_set fd wr then POLLOUT else 0) in
      if ev = 0 then select_watch rd wr fds p
      else if length p = OKM_SELECT_MAX then None
      else select_watch rd wr fds (p @ [\<lparr>p_fd = fd, p_events = ev, p_revents = 0\<rparr>]))"

text \<open>The answer: each set that was given is emptied and the descriptors that are ready put into it, each counted.\<close>

fun select_collect :: "bool \<Rightarrow> bool \<Rightarrow> pollfd list \<Rightarrow> int set \<times> int set \<times> nat \<Rightarrow> int set \<times> int set \<times> nat" where
  "select_collect r w [] acc = acc"
| "select_collect r w (f # fs) (rs, ws, n) =
     (let inp = r \<and> p_revents f AND (POLLIN OR POLLHUP OR POLLERR OR POLLNVAL) \<noteq> 0;
          out = w \<and> p_revents f AND (POLLOUT OR POLLERR OR POLLNVAL) \<noteq> 0
      in select_collect r w fs
           (if inp then insert (p_fd f) rs else rs, if out then insert (p_fd f) ws else ws,
            n + (if inp then 1 else 0) + (if out then 1 else 0)))"

text \<open>\<open>ms\<close> is the bound in milliseconds: \<open>ms_of_timespec\<close> of a \<open>timespec\<close>, or of a \<open>timeval\<close> whose microseconds were
  multiplied.\<close>

definition select_call ::
  "'e kal \<Rightarrow> int \<Rightarrow> int set option \<Rightarrow> int set option \<Rightarrow> int set option \<Rightarrow> int \<Rightarrow> 'e okm
     \<Rightarrow> (int \<times> int set option \<times> int set option \<times> int set option \<times> 'e okm) option" where
  "select_call K nfds rd wr ex ms s =
     (if nfds < 0 \<or> FD_SETSIZE < nfds then Some (- EINVAL, rd, wr, ex, s)
      else case select_watch rd wr [0..nfds - 1] [] of
        None \<Rightarrow> Some (- EINVAL, rd, wr, ex, s)
      | Some p \<Rightarrow>
          (case okm_poll K (Some p) (length p) ms s of
             None \<Rightarrow> None
           | Some (r, p', s1) \<Rightarrow>
               if r < 0 then Some (r, rd, wr, ex, s1)
               else
                 (case select_collect (rd \<noteq> None) (wr \<noteq> None) p' ({}, {}, 0) of
                    (rs, ws, n) \<Rightarrow>
                      Some (int n, map_option (\<lambda>_. rs) rd, map_option (\<lambda>_. ws) wr, map_option (\<lambda>_. {}) ex, s1))))"

definition sys_pselect6 ::
  "'e kal \<Rightarrow> int \<Rightarrow> int set option \<Rightarrow> int set option \<Rightarrow> int set option \<Rightarrow> (int \<times> int) option \<Rightarrow> 'e okm
     \<Rightarrow> (int \<times> int set option \<times> int set option \<times> int set option \<times> 'e okm) option" where
  "sys_pselect6 K nfds rd wr ex ts s = select_call K nfds rd wr ex (ms_of_timespec ts) s"

definition sys_select ::
  "'e kal \<Rightarrow> int \<Rightarrow> int set option \<Rightarrow> int set option \<Rightarrow> int set option \<Rightarrow> (int \<times> int) option \<Rightarrow> 'e okm
     \<Rightarrow> (int \<times> int set option \<times> int set option \<times> int set option \<times> 'e okm) option" where
  "sys_select K nfds rd wr ex tv s =
     select_call K nfds rd wr ex
       (case tv of None \<Rightarrow> -1 | Some (sec, usec) \<Rightarrow> ms_of_timespec (Some (sec, usec * 1000))) s"

section \<open>The bound, as a time\<close>

text \<open>The milliseconds \<open>ppoll\<close> and \<open>pselect\<close> wait for are those of the time stated. For a valid time they are
  between 0 and the greatest \<open>int\<close>; zero exactly for a time of zero, so a wait is never turned into a poll; and but for the two ends
  of the range the time stated is at least that many milliseconds and less than one more. A time with negative seconds, which is
  no time, is read as a negative number of milliseconds, which is a wait without bound.\<close>

theorem ms_of_timespec_bounds:
  assumes "0 \<le> nsec" "nsec < 1000000000"
  shows "(0 \<le> sec \<longrightarrow>
       0 \<le> ms_of_timespec (Some (sec, nsec)) \<and> ms_of_timespec (Some (sec, nsec)) \<le> 0x7fffffff
       \<and> (ms_of_timespec (Some (sec, nsec)) = 0 \<longleftrightarrow> sec = 0 \<and> nsec = 0)
       \<and> (ms_of_timespec (Some (sec, nsec)) < 0x7fffffff \<longrightarrow>
            sec * 1000000000 + nsec < (ms_of_timespec (Some (sec, nsec)) + 1) * 1000000)
       \<and> (1 < ms_of_timespec (Some (sec, nsec)) \<longrightarrow>
            ms_of_timespec (Some (sec, nsec)) * 1000000 \<le> sec * 1000000000 + nsec))
     \<and> (sec < 0 \<and> - 2000000 < sec \<longrightarrow> ms_of_timespec (Some (sec, nsec)) < 0)"
proof -
  have d: "div_to_zero nsec 1000000 = nsec div 1000000" using assms by (simp add: div_to_zero_def sgn_if)
  have small: "nsec div 1000000 < 1000" "0 \<le> nsec div 1000000" using assms by simp_all
  have parts: "nsec = 1000000 * (nsec div 1000000) + nsec mod 1000000" "0 \<le> nsec mod 1000000" "nsec mod 1000000 < 1000000" by simp_all
  have keep: "signed_take_bit 31 m = m" if "- 2147483648 \<le> m" "m \<le> 2147483647" for m :: int
    using that by (simp add: signed_take_bit_int_eq_self)
  have pos: "ms_of_timespec (Some (sec, nsec)) =
      (if sec = 0 \<and> nsec = 0 then 0 else let ms = sec * 1000 + nsec div 1000000 in if ms = 0 then 1 else min ms 0x7fffffff)"
    if "0 \<le> sec"
    using that small by (auto simp: ms_of_timespec_def d Let_def keep)
  have neg: "ms_of_timespec (Some (sec, nsec)) = sec * 1000 + nsec div 1000000" if "sec < 0" "- 2000000 < sec"
    using that small by (auto simp: ms_of_timespec_def d Let_def keep)
  show ?thesis
  proof (intro conjI impI)
    assume s: "0 \<le> sec"
    show "0 \<le> ms_of_timespec (Some (sec, nsec))" "ms_of_timespec (Some (sec, nsec)) \<le> 0x7fffffff"
      unfolding pos [OF s] Let_def using s small by auto
    show "ms_of_timespec (Some (sec, nsec)) = 0 \<longleftrightarrow> sec = 0 \<and> nsec = 0"
      unfolding pos [OF s] Let_def using s small by (auto simp: min_def)
    show "sec * 1000000000 + nsec < (ms_of_timespec (Some (sec, nsec)) + 1) * 1000000"
      if "ms_of_timespec (Some (sec, nsec)) < 0x7fffffff"
      using that s small parts unfolding pos [OF s] Let_def by (auto simp: min_def split: if_splits)
    show "ms_of_timespec (Some (sec, nsec)) * 1000000 \<le> sec * 1000000000 + nsec"
      if "1 < ms_of_timespec (Some (sec, nsec))"
      using that s small parts unfolding pos [OF s] Let_def by (auto simp: min_def split: if_splits)
  next
    assume "sec < 0 \<and> - 2000000 < sec"
    then show "ms_of_timespec (Some (sec, nsec)) < 0" using neg small by simp
  qed
qed

theorem ms_of_timespec_bounds_witness:
  "0 \<le> ms_of_timespec (Some (0, 500)) \<and> ms_of_timespec (Some (0, 500)) \<noteq> 0 \<and> ms_of_timespec (Some (-1, 0)) < 0"
  using ms_of_timespec_bounds [of 500 0] ms_of_timespec_bounds [of 0 "-1"] by simp

section \<open>What select reports\<close>

abbreviation watched_event :: "int set option \<Rightarrow> int set option \<Rightarrow> int \<Rightarrow> flagword" where
  "watched_event rd wr fd \<equiv> (if in_set fd rd then POLLIN else 0) OR (if in_set fd wr then POLLOUT else 0)"

abbreviation says_in :: "flagword \<Rightarrow> bool" where
  "says_in r \<equiv> r AND (POLLIN OR POLLHUP OR POLLERR OR POLLNVAL) \<noteq> 0"

abbreviation says_out :: "flagword \<Rightarrow> bool" where
  "says_out r \<equiv> r AND (POLLOUT OR POLLERR OR POLLNVAL) \<noteq> 0"

lemma watched_event_bits:
  "watched_event rd wr fd = 0 \<longleftrightarrow> \<not> in_set fd rd \<and> \<not> in_set fd wr"
  "has (watched_event rd wr fd) POLLIN \<longleftrightarrow> in_set fd rd"
  "has (watched_event rd wr fd) POLLOUT \<longleftrightarrow> in_set fd wr"
  by (auto simp: has_def)

lemma select_watch_eq:
  assumes "length p \<le> OKM_SELECT_MAX"
  shows "select_watch rd wr fds p =
     (let fs = filter (\<lambda>fd. in_set fd rd \<or> in_set fd wr) fds in
      if length p + length fs \<le> OKM_SELECT_MAX
      then Some (p @ map (\<lambda>fd. \<lparr>p_fd = fd, p_events = watched_event rd wr fd, p_revents = 0\<rparr>) fs)
      else None)"
  using assms
proof (induction rd wr fds p rule: select_watch.induct)
  case (2 rd wr fd fds p)
  show ?case
  proof (cases "in_set fd rd \<or> in_set fd wr")
    case False
    then show ?thesis using 2 by (simp add: Let_def)
  next
    case True
    then have "watched_event rd wr fd \<noteq> 0" by (simp add: watched_event_bits)
    then show ?thesis using 2 True by (cases "length p = OKM_SELECT_MAX") (simp_all add: Let_def)
  qed
qed simp

lemma select_collect_eq:
  "select_collect r w fs (rs, ws, n) =
     (rs \<union> p_fd ` {f \<in> set fs. r \<and> says_in (p_revents f)}, ws \<union> p_fd ` {f \<in> set fs. w \<and> says_out (p_revents f)},
      n + length (filter (\<lambda>f. r \<and> says_in (p_revents f)) fs) + length (filter (\<lambda>f. w \<and> says_out (p_revents f)) fs))"
  by (induction fs arbitrary: rs ws n) (auto simp: Let_def)

lemma card_filter_image:
  assumes "distinct (map f xs)"
  shows "card (f ` {x \<in> set xs. P x}) = length (filter P xs)"
proof -
  have "inj_on f {x \<in> set xs. P x}" "distinct xs"
    using assms by (auto simp: distinct_map intro: inj_on_subset)
  then show ?thesis by (simp add: card_image distinct_length_filter Int_def conj_commute)
qed

text \<open>An enquiry about one descriptor, and so a round, leaves the descriptors alone; what it says is what was asked, unless the
  descriptor is not open.\<close>

lemma wait_in_fd: "wait_in K d ns s = (r, t) \<Longrightarrow> g_fd t = g_fd s"
  by (auto simp: wait_in_def okm_sock_wait_in_def Let_def
      split: option.splits if_splits sum.splits prod.splits list.splits)

lemma poll_one_fd: "poll_one K ns f s = (r, fl, w, t) \<Longrightarrow> g_fd t = g_fd s"
  by (auto simp: poll_one_def Let_def dest: wait_in_fd split: option.splits if_splits prod.splits)

lemma poll_round_fd: "poll_round K ns fs s = (fs', ready, failure, waited, t) \<Longrightarrow> g_fd t = g_fd s"
  by (induction fs arbitrary: s fs' ready failure waited t) (auto split: prod.splits dest!: poll_one_fd)

lemma poll_one_says:
  assumes "poll_one K ns f s = (r, fl, w, t)" "0 \<le> p_fd f"
  shows "okm_desc_of (p_fd f) s = None \<Longrightarrow> r = POLLNVAL"
    "okm_desc_of (p_fd f) s = Some d \<Longrightarrow> says_in r \<Longrightarrow> has (p_events f) POLLIN"
    "okm_desc_of (p_fd f) s = Some d \<Longrightarrow> says_out r \<Longrightarrow> has (p_events f) POLLOUT"
  using assms
  by (auto simp: poll_one_def Let_def dest: wait_in_fd split: option.splits if_splits prod.splits)

lemma poll_round_says:
  assumes "poll_round K ns fs s = (fs', ready, failure, waited, t)" "\<forall>f \<in> set fs. 0 \<le> p_fd f"
  shows "(\<forall>f \<in> set fs'. (okm_desc_of (p_fd f) s = None \<longrightarrow> p_revents f = POLLNVAL)
         \<and> (okm_desc_of (p_fd f) s \<noteq> None \<longrightarrow> (says_in (p_revents f) \<longrightarrow> has (p_events f) POLLIN)
              \<and> (says_out (p_revents f) \<longrightarrow> has (p_events f) POLLOUT)))"
  using assms
proof (induction fs arbitrary: s fs' ready failure waited t)
  case Nil
  then show ?case by simp
next
  case (Cons f fs)
  obtain r fl w s1 where o: "poll_one K ns f s = (r, fl, w, s1)" by (metis prod_cases4)
  obtain gs rd fl' w' s2 where g: "poll_round K ns fs s1 = (gs, rd, fl', w', s2)" by (metis prod_cases5)
  have eq: "fs' = f\<lparr>p_revents := r\<rparr> # gs" "t = s2" using Cons.prems o g by simp_all
  have f: "0 \<le> p_fd f" using Cons.prems by simp
  note says = poll_one_says [OF o f]
  have "okm_desc_of fd s1 = okm_desc_of fd s" for fd using poll_one_fd [OF o] by (simp add: okm_desc_of_def)
  with Cons.IH [OF g] Cons.prems(2) says show ?case unfolding eq by auto
qed

lemma select_poll_says:
  assumes "okm_poll K (Some p) (length p) ms s = Some (r, q, t)" "0 \<le> r" "length p \<le> OKM_MAX_FD" "\<forall>f \<in> set p. 0 \<le> p_fd f"
  shows "asked q = asked p
    \<and> (\<forall>f \<in> set q. (okm_desc_of (p_fd f) s = None \<longrightarrow> p_revents f = POLLNVAL)
         \<and> (okm_desc_of (p_fd f) s \<noteq> None \<longrightarrow> (says_in (p_revents f) \<longrightarrow> has (p_events f) POLLIN)
              \<and> (says_out (p_revents f) \<longrightarrow> has (p_events f) POLLOUT)))"
proof -
  obtain single forever left where l: "poll_loop K single forever left p s = Some (r, q, t)"
    using assms(1,3) by (auto simp: okm_poll_def Let_def)
  have s: "g_fd s = g_fd s" by simp
  have "\<exists>ns fs0 s0 ready failure waited. g_fd s0 = g_fd s \<and> asked fs0 = asked p
      \<and> poll_round K ns fs0 s0 = (q, ready, failure, waited, t)
      \<and> (if ready \<noteq> 0 then r = int ready else r = 0 \<or> r = failure \<and> failure \<noteq> 0)"
    by (rule poll_loop_last_round [where I = "\<lambda>u. g_fd u = g_fd s", OF l s]) (auto dest: poll_round_fd)
  then obtain ns fs0 s0 ready failure waited where f: "g_fd s0 = g_fd s" "asked fs0 = asked p"
    "poll_round K ns fs0 s0 = (q, ready, failure, waited, t)" by blast
  have fds: "map p_fd fs0 = map p_fd p" using arg_cong [OF f(2), of "map fst"] by (simp add: comp_def)
  have "\<forall>g \<in> set fs0. 0 \<le> p_fd g" using assms(4) arg_cong [OF fds, of set] by (metis image_iff list.set_map)
  from poll_round_says [OF f(3) this] poll_round_shape(2) [OF f(3)] f(1,2)
  show ?thesis by (simp add: okm_desc_of_def)
qed

abbreviation select_asked :: "int \<Rightarrow> int set option \<Rightarrow> int set option \<Rightarrow> int set" where
  "select_asked nfds rd wr \<equiv> {fd. 0 \<le> fd \<and> fd < nfds \<and> (in_set fd rd \<or> in_set fd wr)}"

lemma select_watched:
  "select_watch rd wr [0..nfds - 1] [] =
     (if card (select_asked nfds rd wr) \<le> OKM_SELECT_MAX
      then Some (map (\<lambda>fd. \<lparr>p_fd = fd, p_events = watched_event rd wr fd, p_revents = 0\<rparr>)
              (filter (\<lambda>fd. in_set fd rd \<or> in_set fd wr) [0..nfds - 1]))
      else None)"
  "length (filter (\<lambda>fd. in_set fd rd \<or> in_set fd wr) [0..nfds - 1]) = card (select_asked nfds rd wr)"
proof -
  let ?fs = "filter (\<lambda>fd. in_set fd rd \<or> in_set fd wr) [0..nfds - 1]"
  have "set ?fs = select_asked nfds rd wr" by auto
  moreover have "distinct ?fs" by simp
  ultimately show len: "length ?fs = card (select_asked nfds rd wr)" by (metis distinct_card)
  show "select_watch rd wr [0..nfds - 1] [] =
     (if card (select_asked nfds rd wr) \<le> OKM_SELECT_MAX
      then Some (map (\<lambda>fd. \<lparr>p_fd = fd, p_events = watched_event rd wr fd, p_revents = 0\<rparr>) ?fs) else None)"
    unfolding len [symmetric] by (simp add: select_watch_eq Let_def)
qed

lemma okm_poll_ends:
  assumes "0 \<le> ms" "length p \<le> OKM_MAX_FD"
  shows "\<exists>y. okm_poll K (Some p) (length p) ms s = Some y"
  using assms poll_loop_ends [of K "length p = 1 \<and> 0 \<le> p_fd (hd p)" "nat ms * 1000000" p s]
  by (simp add: okm_poll_def Let_def)

lemma select_answer:
  assumes "okm_poll K (Some p) (length p) ms s = Some (z, q, u)" "0 \<le> z" "length p \<le> OKM_MAX_FD"
    and p: "asked p = map (\<lambda>fd. (fd, watched_event rd wr fd)) (filter (\<lambda>fd. in_set fd rd \<or> in_set fd wr) [0..nfds - 1])"
  defines "rs r \<equiv> p_fd ` {f \<in> set q. r \<and> says_in (p_revents f)}" and "ws w \<equiv> p_fd ` {f \<in> set q. w \<and> says_out (p_revents f)}"
  shows "length (filter (\<lambda>f. r \<and> says_in (p_revents f)) q) + length (filter (\<lambda>f. w \<and> says_out (p_revents f)) q) = card (rs r) + card (ws w)"
    "rs r \<union> ws w \<subseteq> select_asked nfds rd wr"
    "\<forall>fd \<in> select_asked nfds rd wr.
        (okm_desc_of fd s \<noteq> None \<longrightarrow> (fd \<in> rs r \<longrightarrow> in_set fd rd) \<and> (fd \<in> ws w \<longrightarrow> in_set fd wr))
      \<and> (okm_desc_of fd s = None \<longrightarrow> (fd \<in> rs r \<longleftrightarrow> r) \<and> (fd \<in> ws w \<longleftrightarrow> w))"
proof -
  let ?fs = "filter (\<lambda>fd. in_set fd rd \<or> in_set fd wr) [0..nfds - 1]"
  have fdp: "map p_fd p = ?fs" using arg_cong [OF p, of "map fst"] by (simp add: comp_def)
  have "\<forall>f \<in> set p. p_fd f \<in> set ?fs" unfolding fdp [symmetric] by simp
  then have nn: "\<forall>f \<in> set p. 0 \<le> p_fd f" by auto
  note says = select_poll_says [OF assms(1-3) nn]
  have aq: "asked q = map (\<lambda>fd. (fd, watched_event rd wr fd)) ?fs" using says p by simp
  have fdq: "map p_fd q = ?fs" using arg_cong [OF aq, of "map fst"] by (simp add: comp_def)
  have "distinct (map p_fd q)" unfolding fdq by simp
  then show "length (filter (\<lambda>f. r \<and> says_in (p_revents f)) q) + length (filter (\<lambda>f. w \<and> says_out (p_revents f)) q) = card (rs r) + card (ws w)"
    unfolding rs_def ws_def by (simp add: card_filter_image)
  have range: "p_fd ` set q = select_asked nfds rd wr" using arg_cong [OF fdq, of set] by auto
  then show "rs r \<union> ws w \<subseteq> select_asked nfds rd wr" unfolding rs_def ws_def by blast
  have ev: "p_events f = watched_event rd wr (p_fd f)" if "f \<in> set q" for f
  proof -
    have "(p_fd f, p_events f) \<in> set (asked q)" using that by force
    then show ?thesis unfolding aq by auto
  qed
  have bits: "has (p_events f) POLLIN = in_set (p_fd f) rd" "has (p_events f) POLLOUT = in_set (p_fd f) wr" if "f \<in> set q" for f
    unfolding ev [OF that] by (rule watched_event_bits)+
  show "\<forall>fd \<in> select_asked nfds rd wr.
        (okm_desc_of fd s \<noteq> None \<longrightarrow> (fd \<in> rs r \<longrightarrow> in_set fd rd) \<and> (fd \<in> ws w \<longrightarrow> in_set fd wr))
      \<and> (okm_desc_of fd s = None \<longrightarrow> (fd \<in> rs r \<longleftrightarrow> r) \<and> (fd \<in> ws w \<longleftrightarrow> w))"
    unfolding range [symmetric] rs_def ws_def using says bits by fastforce
qed

text \<open>C20: What \<open>select\<close> reports. With a bound it returns, whatever the environment answers; a count of descriptors that is negative or more than a set
  holds is refused, and so is a set of more than the 128 it can watch, and nothing is changed by a call that fails. When it succeeds, each set that was given is
  replaced: the exceptions by nothing, the other two by descriptors of those asked about, and the count returned is the number in both.
  An open descriptor is put in a set only if it was asked for in that set. A descriptor that is not open is put in every set
  that was given.\<close>

theorem select_correct:
  "(0 \<le> ms \<longrightarrow> select_call K nfds rd wr ex ms s \<noteq> None)
   \<and> (nfds < 0 \<or> FD_SETSIZE < nfds \<or> OKM_SELECT_MAX < card (select_asked nfds rd wr)
        \<longrightarrow> select_call K nfds rd wr ex ms s = Some (- EINVAL, rd, wr, ex, s))
   \<and> (\<forall>r rd' wr' ex' t. select_call K nfds rd wr ex ms s = Some (r, rd', wr', ex', t) \<longrightarrow>
        (r < 0 \<longrightarrow> rd' = rd \<and> wr' = wr \<and> ex' = ex)
        \<and> (0 \<le> r \<longrightarrow> (\<exists>rs ws. rd' = map_option (\<lambda>_. rs) rd \<and> wr' = map_option (\<lambda>_. ws) wr \<and> ex' = map_option (\<lambda>_. {}) ex
              \<and> r = int (card rs + card ws) \<and> rs \<union> ws \<subseteq> select_asked nfds rd wr
              \<and> (\<forall>fd \<in> select_asked nfds rd wr.
                    (okm_desc_of fd s \<noteq> None \<longrightarrow> (fd \<in> rs \<longrightarrow> in_set fd rd) \<and> (fd \<in> ws \<longrightarrow> in_set fd wr))
                  \<and> (okm_desc_of fd s = None \<longrightarrow> (fd \<in> rs \<longleftrightarrow> rd \<noteq> None) \<and> (fd \<in> ws \<longleftrightarrow> wr \<noteq> None))))))"
proof (cases "nfds < 0 \<or> FD_SETSIZE < nfds \<or> OKM_SELECT_MAX < card (select_asked nfds rd wr)")
  case True
  then have "select_call K nfds rd wr ex ms s = Some (- EINVAL, rd, wr, ex, s)"
    by (auto simp: select_call_def select_watched Let_def)
  then show ?thesis using True by simp
next
  case False
  then obtain p where p: "select_watch rd wr [0..nfds - 1] [] = Some p" "length p \<le> OKM_SELECT_MAX"
    "asked p = map (\<lambda>fd. (fd, watched_event rd wr fd)) (filter (\<lambda>fd. in_set fd rd \<or> in_set fd wr) [0..nfds - 1])"
    using select_watched [of rd wr nfds] by (auto simp: comp_def)
  have len: "length p \<le> OKM_MAX_FD" using p(2) by simp
  have call: "select_call K nfds rd wr ex ms s = (case okm_poll K (Some p) (length p) ms s of None \<Rightarrow> None
      | Some (r, q, t) \<Rightarrow> if r < 0 then Some (r, rd, wr, ex, t) else
          case select_collect (rd \<noteq> None) (wr \<noteq> None) q ({}, {}, 0) of (rs, ws, n) \<Rightarrow>
            Some (int n, map_option (\<lambda>_. rs) rd, map_option (\<lambda>_. ws) wr, map_option (\<lambda>_. {}) ex, t))"
    using False p(1) by (simp add: select_call_def)
  have ends: "select_call K nfds rd wr ex ms s \<noteq> None" if "0 \<le> ms"
    using okm_poll_ends [OF that len, of K s] unfolding call by (auto split: prod.splits)
  have "\<exists>rs ws. rd' = map_option (\<lambda>_. rs) rd \<and> wr' = map_option (\<lambda>_. ws) wr \<and> ex' = map_option (\<lambda>_. {}) ex
              \<and> r = int (card rs + card ws) \<and> rs \<union> ws \<subseteq> select_asked nfds rd wr
              \<and> (\<forall>fd \<in> select_asked nfds rd wr.
                    (okm_desc_of fd s \<noteq> None \<longrightarrow> (fd \<in> rs \<longrightarrow> in_set fd rd) \<and> (fd \<in> ws \<longrightarrow> in_set fd wr))
                  \<and> (okm_desc_of fd s = None \<longrightarrow> (fd \<in> rs \<longleftrightarrow> rd \<noteq> None) \<and> (fd \<in> ws \<longleftrightarrow> wr \<noteq> None)))"
    if ok: "select_call K nfds rd wr ex ms s = Some (r, rd', wr', ex', t)" "0 \<le> r" for r rd' wr' ex' t
  proof -
    obtain z q u where q: "okm_poll K (Some p) (length p) ms s = Some (z, q, u)" "0 \<le> z"
      using ok unfolding call by (auto split: option.splits prod.splits if_splits)
    define rs where "rs = p_fd ` {f \<in> set q. rd \<noteq> None \<and> says_in (p_revents f)}"
    define ws where "ws = p_fd ` {f \<in> set q. wr \<noteq> None \<and> says_out (p_revents f)}"
    note says = select_answer [OF q len p(3), of "rd \<noteq> None" "wr \<noteq> None", folded rs_def ws_def]
    have "r = int (card rs + card ws)" "rd' = map_option (\<lambda>_. rs) rd" "wr' = map_option (\<lambda>_. ws) wr" "ex' = map_option (\<lambda>_. {}) ex"
      using ok(1) q(2) says(1) unfolding call q(1) by (simp_all add: select_collect_eq rs_def ws_def)
    with says(2,3) show ?thesis by blast
  qed
  moreover have "rd' = rd \<and> wr' = wr \<and> ex' = ex"
    if "select_call K nfds rd wr ex ms s = Some (r, rd', wr', ex', t)" "r < 0" for r rd' wr' ex' t
    using that unfolding call by (auto split: option.splits prod.splits if_splits)
  ultimately show ?thesis using ends False by simp
qed

theorem select_correct_witness:
  "select_call bare_kal 6 (Some {}) (Some {5}) None 0 (okm_table_init_memory (zero_okm ())) =
     Some (2, Some {5}, Some {5}, None, okm_table_init_memory (zero_okm ()))"
proof -
  let ?s = "okm_table_init_memory (zero_okm ())"
  have none: "okm_desc_of 5 ?s = None"
    by (simp add: okm_desc_of_def fd_in_range_def okm_table_init_memory_def zero_okm_def)
  have as: "select_asked 6 (Some {}) (Some {5}) = {5}" by (auto simp: in_set_def)
  have w: "select_watch (Some {}) (Some {5}) [0..6 - 1] [] = Some [\<lparr>p_fd = 5, p_events = POLLOUT, p_revents = 0\<rparr>]"
    by (simp add: upto.simps in_set_def)
  have "okm_poll bare_kal (Some [\<lparr>p_fd = 5, p_events = POLLOUT, p_revents = 0\<rparr>]) 1 0 ?s =
      Some (1, [\<lparr>p_fd = 5, p_events = POLLOUT, p_revents = POLLNVAL\<rparr>], ?s)"
    by (simp add: okm_poll_def poll_loop.simps [of bare_kal True False 0] round_bound_def poll_one_def none)
  then obtain r rd wr ex where c: "select_call bare_kal 6 (Some {}) (Some {5}) None 0 ?s = Some (r, rd, wr, ex, ?s)" "0 \<le> r"
    by (simp add: select_call_def w [simplified])
  from select_correct [of 0 bare_kal 6 "Some {}" "Some {5}" None ?s] c none
  obtain rs ws where "rd = Some rs" "wr = Some ws" "ex = None" "r = int (card rs + card ws)" "rs \<union> ws \<subseteq> {5}" "5 \<in> rs" "5 \<in> ws"
    unfolding as by auto
  then have "rs = {5}" "ws = {5}" by auto
  then show ?thesis using c \<open>rd = Some rs\<close> \<open>wr = Some ws\<close> \<open>ex = None\<close> \<open>r = int (card rs + card ws)\<close> by simp
qed

end
