(* ===== verification/Okm_Terminal.thy ===== *)
theory Okm_Terminal
  imports Okm_Stream
begin

text \<open>
  The terminal (port/src/okm_syscall.c, "the terminal" and \<open>SYS_ioctl\<close>): the settings of a terminal as \<open>struct termios\<close>,
  composed of the mode openkal states; and musl's calls above it (musl/src/termios, musl/src/unistd/isatty.c). What the
  layer itself does to what is typed (\<open>g_term_alter\<close>) is a word beside the state, read by
  \<open>do_read\<close> and written here.
\<close>

abbreviation (input) ENOTTY :: int where "ENOTTY \<equiv> 25"
abbreviation (input) INLCR :: flagword where "INLCR \<equiv> 0x40"
abbreviation (input) IGNCR :: flagword where "IGNCR \<equiv> 0x80"
abbreviation (input) IXON :: flagword where "IXON \<equiv> 0x400"
abbreviation (input) IGNBRK :: flagword where "IGNBRK \<equiv> 1"
abbreviation (input) BRKINT :: flagword where "BRKINT \<equiv> 2"
abbreviation (input) PARMRK :: flagword where "PARMRK \<equiv> 8"
abbreviation (input) OPOST :: flagword where "OPOST \<equiv> 1"
abbreviation (input) ONLCR :: flagword where "ONLCR \<equiv> 4"
abbreviation (input) CREAD :: flagword where "CREAD \<equiv> 0x80"
abbreviation (input) CS8 :: flagword where "CS8 \<equiv> 0x30"
abbreviation (input) CSIZE :: flagword where "CSIZE \<equiv> 0x30"
abbreviation (input) PARENB :: flagword where "PARENB \<equiv> 0x100"
abbreviation (input) B38400 :: flagword where "B38400 \<equiv> 0xf"
abbreviation (input) ISIG :: flagword where "ISIG \<equiv> 1"
abbreviation (input) ICANON :: flagword where "ICANON \<equiv> 2"
abbreviation (input) ECHO :: flagword where "ECHO \<equiv> 8"
abbreviation (input) ECHOE :: flagword where "ECHOE \<equiv> 0x10"
abbreviation (input) ECHOK :: flagword where "ECHOK \<equiv> 0x20"
abbreviation (input) ECHONL :: flagword where "ECHONL \<equiv> 0x40"
abbreviation (input) IEXTEN :: flagword where "IEXTEN \<equiv> 0x8000"
abbreviation (input) TCGETS :: nat where "TCGETS \<equiv> 0x5401"
abbreviation (input) TCSETS :: nat where "TCSETS \<equiv> 0x5402"
abbreviation (input) TCSETSW :: nat where "TCSETSW \<equiv> 0x5403"
abbreviation (input) TCSETSF :: nat where "TCSETSF \<equiv> 0x5404"
abbreviation (input) TIOCGWINSZ :: nat where "TIOCGWINSZ \<equiv> 0x5413"

section \<open>The code\<close>

record termios =
  c_iflag :: flagword
  c_oflag :: flagword
  c_cflag :: flagword
  c_lflag :: flagword
  c_line :: byte
  c_cc :: "byte list"
  c_ispeed :: flagword
  c_ospeed :: flagword

record winsize =
  ws_row :: "16 word"
  ws_col :: "16 word"
  ws_xpixel :: "16 word"
  ws_ypixel :: "16 word"

text \<open>The control characters: \<open>VINTR\<close>, \<open>VQUIT\<close>, \<open>VERASE\<close>, \<open>VKILL\<close>, \<open>VEOF\<close>, \<open>VTIME\<close>, \<open>VMIN\<close>, \<open>VSWTC\<close>, \<open>VSTART\<close>, \<open>VSTOP\<close>, \<open>VSUSP\<close>,
  \<open>VEOL\<close>, \<open>VREPRINT\<close>, \<open>VDISCARD\<close>, \<open>VWERASE\<close>, \<open>VLNEXT\<close> are the first sixteen of 32.\<close>

definition agreed_cc :: "byte list" where
  "agreed_cc = [3, 28, 127, 21, 4, 0, 1, 0, 17, 19, 26, 0, 18, 15, 23, 22] @ replicate 16 0"

definition termios_of :: "flagword \<Rightarrow> kal_term_mode set \<Rightarrow> termios" where
  "termios_of alter mode =
     \<lparr>c_iflag = (if KAL_TERM_PASS_INPUT \<notin> mode then ICRNL else 0) OR alter
        OR (if KAL_TERM_PASS_CONTROL \<notin> mode then IXON else 0),
      c_oflag = OPOST OR ONLCR,
      c_cflag = CREAD OR CS8 OR B38400,
      c_lflag = (if KAL_TERM_LINE_EDIT \<in> mode then ICANON OR ECHOE OR ECHOK else 0)
        OR (if KAL_TERM_ECHO \<in> mode then ECHO else 0)
        OR (if KAL_TERM_PASS_CONTROL \<notin> mode then ISIG OR IEXTEN else 0),
      c_line = 0, c_cc = agreed_cc, c_ispeed = 0, c_ospeed = 0\<rparr>"

definition okm_termios_get :: "'e kal \<Rightarrow> flagword \<Rightarrow> kal_stream \<Rightarrow> bool \<Rightarrow> 'e \<Rightarrow> int + termios" where
  "okm_termios_get K alter st given e =
     (if \<not> given then Inl (- EFAULT)
      else case terminal_get_mode (K_terminal K) of
        None \<Rightarrow> Inl (- ENOTTY)
      | Some get_mode \<Rightarrow>
          (case get_mode st e of
             Inl err \<Rightarrow> Inl (- okm_errno err)
           | Inr mode \<Rightarrow> Inr (termios_of alter mode)))"

text \<open>The four flags of input a mode has one position for, and whether this layer performs the ones kept.\<close>

definition want_of :: "termios \<Rightarrow> flagword" where
  "want_of t = c_iflag t AND (ICRNL OR INLCR OR IGNCR OR ISTRIP)"

definition takes :: "termios \<Rightarrow> bool" where
  "takes t \<longleftrightarrow> want_of t \<noteq> 0 \<and> \<not> has (c_lflag t) (ICANON OR ECHO) \<and> \<not> has (want_of t) (INLCR OR IGNCR)"

definition mode_of :: "termios \<Rightarrow> kal_term_mode set" where
  "mode_of t =
     (if has (c_lflag t) ICANON then {KAL_TERM_LINE_EDIT} else {})
     \<union> (if has (c_lflag t) ECHO then {KAL_TERM_ECHO} else {})
     \<union> (if \<not> has (c_lflag t) ISIG then {KAL_TERM_PASS_CONTROL} else {})
     \<union> (if want_of t = 0 \<or> takes t then {KAL_TERM_PASS_INPUT} else {})"

definition okm_termios_set :: "'e kal \<Rightarrow> flagword \<Rightarrow> kal_stream \<Rightarrow> termios option \<Rightarrow> 'e \<Rightarrow> int \<times> flagword \<times> 'e" where
  "okm_termios_set K alter st t e =
     (case t of
        None \<Rightarrow> (- EFAULT, alter, e)
      | Some t \<Rightarrow>
          (case terminal_set_mode (K_terminal K) of
             None \<Rightarrow> (- ENOTTY, alter, e)
           | Some set_mode \<Rightarrow>
               (case set_mode st (mode_of t) e of
                  (err, e1) \<Rightarrow>
                    if err \<noteq> kal_ok then (- okm_errno err, alter, e1)
                    else
                      (0,
                       if takes t \<and> (case terminal_get_mode (K_terminal K) of
                            None \<Rightarrow> False
                          | Some get_mode \<Rightarrow>
                              (case get_mode st e1 of Inl _ \<Rightarrow> False | Inr now \<Rightarrow> KAL_TERM_PASS_INPUT \<in> now))
                       then want_of t else 0, e1))))"

definition okm_winsize_get :: "'e kal \<Rightarrow> kal_stream \<Rightarrow> bool \<Rightarrow> 'e \<Rightarrow> int + winsize" where
  "okm_winsize_get K st given e =
     (if \<not> given then Inl (- EFAULT)
      else
        let (cols, rows) =
          (case terminal_size (K_terminal K) of
             None \<Rightarrow> (0, 0)
           | Some f \<Rightarrow> (case f st e of Inl _ \<Rightarrow> (0, 0) | Inr cr \<Rightarrow> cr))
        in Inr \<lparr>ws_row = ucast rows, ws_col = ucast cols, ws_xpixel = 0, ws_ypixel = 0\<rparr>)"

text \<open>What a request writes through its pointer. The pointer is \<open>None\<close> where it is null, and else the \<open>struct termios\<close> it
  points to, of which only the requests that set the mode read the content.\<close>

datatype ioctl_out = Wrote_nothing | Wrote_termios termios | Wrote_winsize winsize

definition sys_ioctl ::
  "'e kal \<Rightarrow> flagword \<Rightarrow> int \<Rightarrow> nat \<Rightarrow> termios option \<Rightarrow> 'e okm \<Rightarrow> int \<times> ioctl_out \<times> flagword \<times> 'e okm" where
  "sys_ioctl K alter fd request arg s =
     (case okm_desc_of fd s of
        None \<Rightarrow> (- EBADF, Wrote_nothing, alter, s)
      | Some d \<Rightarrow>
          let p = g_desc s d in
          if d_kind p = OKM_STREAM \<or> d_kind p = OKM_CHANNEL \<or> d_kind p = OKM_FILE then
            (if \<not> (d_kind p = OKM_STREAM \<and> stream_interactive K (d_stream p) (env s))
             then (- ENOTTY, Wrote_nothing, alter, s)
             else if request = TCGETS then
               (case okm_termios_get K alter (d_stream p) (arg \<noteq> None) (env s) of
                  Inl r \<Rightarrow> (r, Wrote_nothing, alter, s)
                | Inr t \<Rightarrow> (0, Wrote_termios t, alter, s))
             else if request = TCSETS \<or> request = TCSETSW \<or> request = TCSETSF then
               (case okm_termios_set K alter (d_stream p) arg (env s) of
                  (r, alter', e1) \<Rightarrow> (r, Wrote_nothing, alter', s\<lparr>env := e1\<rparr>))
             else if request = TIOCGWINSZ then
               (case okm_winsize_get K (d_stream p) (arg \<noteq> None) (env s) of
                  Inl r \<Rightarrow> (r, Wrote_nothing, alter, s)
                | Inr w \<Rightarrow> (0, Wrote_winsize w, alter, s))
             else (- ENOTTY, Wrote_nothing, alter, s))
          else (- ENOTTY, Wrote_nothing, alter, s))"

section \<open>musl's calls\<close>

text \<open>Each answers the negated error here; musl turns it into -1 and \<open>errno\<close>.\<close>

definition tcgetattr :: "'e kal \<Rightarrow> flagword \<Rightarrow> int \<Rightarrow> termios \<Rightarrow> 'e okm \<Rightarrow> int + termios" where
  "tcgetattr K alter fd t s =
     (case sys_ioctl K alter fd TCGETS (Some t) s of
        (r, out, _, _) \<Rightarrow>
          if r \<noteq> 0 then Inl r else (case out of Wrote_termios t' \<Rightarrow> Inr t' | _ \<Rightarrow> Inr t))"

definition tcsetattr :: "'e kal \<Rightarrow> flagword \<Rightarrow> int \<Rightarrow> int \<Rightarrow> termios \<Rightarrow> 'e okm \<Rightarrow> int \<times> flagword \<times> 'e okm" where
  "tcsetattr K alter fd act t s =
     (if act < 0 \<or> 2 < act then (- EINVAL, alter, s)
      else case sys_ioctl K alter fd (TCSETS + nat act) (Some t) s of
        (r, _, alter', s') \<Rightarrow> (r, alter', s'))"

definition cfmakeraw :: "termios \<Rightarrow> termios" where
  "cfmakeraw t =
     t\<lparr>c_iflag := c_iflag t AND NOT (IGNBRK OR BRKINT OR PARMRK OR ISTRIP OR INLCR OR IGNCR OR ICRNL OR IXON),
       c_oflag := c_oflag t AND NOT OPOST,
       c_lflag := c_lflag t AND NOT (ECHO OR ECHONL OR ICANON OR ISIG OR IEXTEN),
       c_cflag := (c_cflag t AND NOT (CSIZE OR PARENB)) OR CS8,
       c_cc := (c_cc t)[6 := 1, 5 := 0]\<rparr>"

definition isatty :: "'e kal \<Rightarrow> flagword \<Rightarrow> int \<Rightarrow> 'e okm \<Rightarrow> bool" where
  "isatty K alter fd s = (fst (sys_ioctl K alter fd TIOCGWINSZ (Some (termios_of 0 {})) s) = 0)"

section \<open>Which descriptors are terminals\<close>

definition is_terminal :: "'e kal \<Rightarrow> int \<Rightarrow> 'e okm \<Rightarrow> bool" where
  "is_terminal K fd s \<longleftrightarrow> (\<exists>d. okm_desc_of fd s = Some d \<and> d_kind (g_desc s d) = OKM_STREAM
     \<and> stream_interactive K (d_stream (g_desc s d)) (env s))"

lemma is_terminalE:
  assumes "is_terminal K fd s"
  obtains d where "okm_desc_of fd s = Some d" "d_kind (g_desc s d) = OKM_STREAM"
    "stream_interactive K (d_stream (g_desc s d)) (env s)"
  using assms by (auto simp: is_terminal_def)

lemma ioctl_elsewhere:
  assumes "\<not> is_terminal K fd s"
  shows "sys_ioctl K alter fd request arg s =
    (if okm_desc_of fd s = None then - EBADF else - ENOTTY, Wrote_nothing, alter, s)"
  using assms by (auto simp: sys_ioctl_def is_terminal_def Let_def split: option.splits)

text \<open>\<open>isatty\<close> is true of exactly the standard streams the environment says are interactive. For every other
  descriptor each request fails, writes nothing and changes nothing: with EBADF for a descriptor that is not open, and with ENOTTY
  else, whatever the request.\<close>

theorem isatty_correct:
  "isatty K alter fd s = is_terminal K fd s
   \<and> (\<not> is_terminal K fd s \<longrightarrow> sys_ioctl K alter fd request arg s =
        (if okm_desc_of fd s = None then - EBADF else - ENOTTY, Wrote_nothing, alter, s))"
proof (cases "is_terminal K fd s")
  case True
  then show ?thesis
    by (elim is_terminalE)
      (auto simp: isatty_def sys_ioctl_def okm_winsize_get_def is_terminal_def Let_def split: option.splits sum.splits prod.splits)
next
  case False
  then show ?thesis by (simp add: isatty_def ioctl_elsewhere)
qed


section \<open>Settings, written and read back\<close>

text \<open>What openkal documents of a terminal: a mode that was established is the mode that is read, but for a position the environment does not
  know, which reads as clear (an environment of before 0.16 does not know \<open>KAL_TERM_PASS_INPUT\<close>); and a terminal stays one.\<close>

definition mode_kept :: "'e kal \<Rightarrow> kal_stream \<Rightarrow> kal_term_mode set \<Rightarrow> bool" where
  "mode_kept K st known \<longleftrightarrow> {KAL_TERM_LINE_EDIT, KAL_TERM_ECHO, KAL_TERM_PASS_CONTROL} \<subseteq> known
     \<and> (\<exists>get_mode set_mode. terminal_get_mode (K_terminal K) = Some get_mode \<and> terminal_set_mode (K_terminal K) = Some set_mode
          \<and> (\<forall>m e e'. set_mode st m e = (kal_ok, e') \<longrightarrow>
               get_mode st e' = Inr (m \<inter> known) \<and> stream_interactive K st e' = stream_interactive K st e))"

lemma tcsetattr_then:
  assumes "okm_desc_of fd s = Some d" "mode_kept K (d_stream (g_desc s d)) known" "tcsetattr K alter fd act t s = (0, a, u)"
  shows "a = (if takes t \<and> KAL_TERM_PASS_INPUT \<in> known then want_of t else 0)"
    "tcgetattr K b fd x u = Inr (termios_of b (mode_of t \<inter> known))"
    "g_fd u = g_fd s" "g_desc u = g_desc s"
proof -
  let ?st = "d_stream (g_desc s d)"
  obtain get_mode set_mode where m: "terminal_get_mode (K_terminal K) = Some get_mode" "terminal_set_mode (K_terminal K) = Some set_mode"
    "\<And>m e e'. set_mode ?st m e = (kal_ok, e') \<Longrightarrow>
       get_mode ?st e' = Inr (m \<inter> known) \<and> stream_interactive K ?st e' = stream_interactive K ?st e"
    using assms(2) by (auto simp: mode_kept_def)
  have "is_terminal K fd s"
    by (rule ccontr) (use assms(1,3) in \<open>simp add: tcsetattr_def ioctl_elsewhere split: if_splits\<close>)
  moreover have "\<not> (act < 0 \<or> 2 < act)" using assms(3) by (auto simp: tcsetattr_def split: if_splits)
  ultimately have it: "is_terminal K fd s" "\<not> (act < 0 \<or> 2 < act)" .
  then have req: "TCSETS + nat act = TCSETS \<or> TCSETS + nat act = TCSETSW \<or> TCSETS + nat act = TCSETSF" "TCSETS + nat act \<noteq> TCGETS"
    by auto
  have k: "d_kind (g_desc s d) = OKM_STREAM" "stream_interactive K ?st (env s)"
    using it(1) assms(1) by (auto simp: is_terminal_def)
  have io: "sys_ioctl K alter fd (TCSETS + nat act) (Some t) s =
      (case okm_termios_set K alter ?st (Some t) (env s) of (r, alter', e1) \<Rightarrow> (r, Wrote_nothing, alter', s\<lparr>env := e1\<rparr>))"
    using req unfolding sys_ioctl_def Let_def by (simp add: assms(1) k)
  obtain e1 where e1: "set_mode ?st (mode_of t) (env s) = (kal_ok, e1)" "u = s\<lparr>env := e1\<rparr>"
    and a: "a = (if takes t \<and> KAL_TERM_PASS_INPUT \<in> mode_of t \<inter> known then want_of t else 0)"
    using assms(3) it(2) m(3) unfolding tcsetattr_def io
    by (fastforce simp: okm_termios_set_def m(1,2) split: prod.splits if_splits)
  show "g_fd u = g_fd s" "g_desc u = g_desc s" using e1(2) by simp_all
  show "a = (if takes t \<and> KAL_TERM_PASS_INPUT \<in> known then want_of t else 0)"
    unfolding a by (auto simp: mode_of_def)
  have "okm_desc_of fd u = Some d" using assms(1) e1(2) by (simp add: okm_desc_of_def split: if_splits)
  then show "tcgetattr K b fd x u = Inr (termios_of b (mode_of t \<inter> known))"
    using m(3) [OF e1(1)] k m(1) by (simp add: tcgetattr_def sys_ioctl_def okm_termios_get_def e1(2) Let_def)
qed

text \<open>The flags of the settings read, in terms of the mode; and the settings a mode gives, set again.\<close>

lemma termios_of_lflag:
  "has (c_lflag (termios_of a m)) ICANON \<longleftrightarrow> KAL_TERM_LINE_EDIT \<in> m"
  "has (c_lflag (termios_of a m)) ECHO \<longleftrightarrow> KAL_TERM_ECHO \<in> m"
  "has (c_lflag (termios_of a m)) ISIG \<longleftrightarrow> KAL_TERM_PASS_CONTROL \<notin> m"
  "has (c_lflag (termios_of a m)) (ICANON OR ECHO) \<longleftrightarrow> KAL_TERM_LINE_EDIT \<in> m \<or> KAL_TERM_ECHO \<in> m"
  by (auto simp: termios_of_def has_def)

lemma has_or: "has x (b OR c) \<longleftrightarrow> has x b \<or> has x c"
  by (simp add: has_def bit.conj_disj_distrib or_eq_0_iff)

lemma want_of_termios_of:
  "want_of (termios_of a m) = (if KAL_TERM_PASS_INPUT \<notin> m then ICRNL else 0) OR (a AND (ICRNL OR INLCR OR IGNCR OR ISTRIP))"
  by (simp add: want_of_def termios_of_def bit.conj_disj_distrib2)

lemma want_of_idem: "want_of t AND (ICRNL OR INLCR OR IGNCR OR ISTRIP) = want_of t"
  by (simp add: want_of_def and.assoc)

lemma mode_of_bits:
  "KAL_TERM_LINE_EDIT \<in> mode_of t \<longleftrightarrow> has (c_lflag t) ICANON"
  "KAL_TERM_ECHO \<in> mode_of t \<longleftrightarrow> has (c_lflag t) ECHO"
  "KAL_TERM_PASS_CONTROL \<in> mode_of t \<longleftrightarrow> \<not> has (c_lflag t) ISIG"
  "KAL_TERM_PASS_INPUT \<in> mode_of t \<longleftrightarrow> want_of t = 0 \<or> takes t"
  by (auto simp: mode_of_def)

lemma termios_of_eqI:
  assumes "KAL_TERM_LINE_EDIT \<in> m \<longleftrightarrow> KAL_TERM_LINE_EDIT \<in> n" "KAL_TERM_ECHO \<in> m \<longleftrightarrow> KAL_TERM_ECHO \<in> n"
    "KAL_TERM_PASS_CONTROL \<in> m \<longleftrightarrow> KAL_TERM_PASS_CONTROL \<in> n"
    and i: "(if KAL_TERM_PASS_INPUT \<notin> m then ICRNL else 0) OR a = (if KAL_TERM_PASS_INPUT \<notin> n then ICRNL else 0) OR b"
  shows "termios_of a m = termios_of b n"
proof -
  have "((if KAL_TERM_PASS_INPUT \<notin> m then ICRNL else 0) OR a) OR x = ((if KAL_TERM_PASS_INPUT \<notin> n then ICRNL else 0) OR b) OR x" for x
    unfolding i ..
  then show ?thesis unfolding termios_of_def or.assoc assms(1-3) by simp
qed


text \<open>A terminal whose mode is the environment, on descriptor 0.\<close>

definition tty_kal :: "kal_term_mode set kal" where
  "tty_kal = bare_kal\<lparr>stream_interactive := (\<lambda>_ _. True),
     K_terminal := \<lparr>terminal_get_mode = Some (\<lambda>_ m. Inr m), terminal_set_mode = Some (\<lambda>_ m _. (kal_ok, m)),
       terminal_size = None\<rparr>\<rparr>"

definition tty_table :: "kal_term_mode set okm" where
  "tty_table = snd (okm_fd_bind tty_kal 1 0 OKM_STREAM 7 0 0 O_RDONLY
     (okm_table_init_memory (zero_okm {KAL_TERM_LINE_EDIT, KAL_TERM_ECHO})))"

lemma tty_table_eq:
  "okm_desc_of 0 tty_table = Some 0" "d_kind (g_desc tty_table 0) = OKM_STREAM"
  "env tty_table = {KAL_TERM_LINE_EDIT, KAL_TERM_ECHO}"
  unfolding tty_table_def bind_first
  by (simp_all add: okm_desc_of_def fd_in_range_def okm_table_init_memory_def zero_okm_def bound_desc_def)

lemma tty_mode_kept: "mode_kept tty_kal st UNIV"
  by (simp add: mode_kept_def tty_kal_def)

lemma tty_set: "\<exists>a. tcsetattr tty_kal alter 0 0 t tty_table = (0, a, tty_table\<lparr>env := mode_of t\<rparr>)"
  by (simp add: tcsetattr_def sys_ioctl_def okm_termios_set_def tty_table_eq Let_def) (simp add: tty_kal_def)


text \<open>What the layer performs itself, it performs where the environment alters nothing and neither echoes nor assembles lines.\<close>

definition alter_sound :: "flagword \<Rightarrow> kal_term_mode set \<Rightarrow> bool" where
  "alter_sound alter m \<longleftrightarrow> alter = 0 \<or> (alter AND (ICRNL OR ISTRIP) = alter
     \<and> KAL_TERM_PASS_INPUT \<in> m \<and> KAL_TERM_LINE_EDIT \<notin> m \<and> KAL_TERM_ECHO \<notin> m)"

lemma two_of_four:
  assumes "alter AND (ICRNL OR ISTRIP) = alter"
  shows "alter AND (ICRNL OR INLCR OR IGNCR OR ISTRIP) = alter" "\<not> has alter (INLCR OR IGNCR)"
proof -
  have "alter AND (ICRNL OR INLCR OR IGNCR OR ISTRIP) = (alter AND (ICRNL OR ISTRIP)) AND (ICRNL OR INLCR OR IGNCR OR ISTRIP)"
    "alter AND (INLCR OR IGNCR) = (alter AND (ICRNL OR ISTRIP)) AND (INLCR OR IGNCR)"
    unfolding assms by simp_all
  then show "alter AND (ICRNL OR INLCR OR IGNCR OR ISTRIP) = alter" "\<not> has alter (INLCR OR IGNCR)"
    using assms by (simp_all add: and.assoc has_def)
qed

lemma set_what_was_read:
  assumes "alter_sound alter m"
  defines "t \<equiv> termios_of alter m"
  shows "termios_of (if takes t then want_of t else 0) (mode_of t) = t"
    and "alter_sound (if takes t then want_of t else 0) (mode_of t)"
proof -
  have w: "want_of t = (if alter = 0 then if KAL_TERM_PASS_INPUT \<in> m then 0 else ICRNL else alter)"
    using assms(1) two_of_four(1) [of alter] unfolding t_def want_of_termios_of alter_sound_def by auto
  have tk: "takes t \<longleftrightarrow> want_of t \<noteq> 0 \<and> KAL_TERM_LINE_EDIT \<notin> m \<and> KAL_TERM_ECHO \<notin> m"
    using assms(1) two_of_four(2) [of alter] unfolding takes_def t_def termios_of_lflag(4)
    unfolding t_def [symmetric] w by (auto simp: alter_sound_def has_def)
  show "termios_of (if takes t then want_of t else 0) (mode_of t) = t"
    unfolding t_def
  proof (rule termios_of_eqI, fold t_def)
    show "(if KAL_TERM_PASS_INPUT \<notin> mode_of t then ICRNL else 0) OR (if takes t then want_of t else 0) =
        (if KAL_TERM_PASS_INPUT \<notin> m then ICRNL else 0) OR alter"
      using assms(1) unfolding mode_of_bits tk w alter_sound_def by auto
  qed (simp_all add: mode_of_bits t_def termios_of_lflag)
  show "alter_sound (if takes t then want_of t else 0) (mode_of t)"
    using assms(1) unfolding alter_sound_def mode_of_bits tk w by (auto simp: t_def termios_of_lflag)
qed

text \<open>A program that enters raw mode and leaves it. On a terminal whose environment knows every position, the settings that \<open>tcgetattr\<close> read, made raw by
  \<open>cfmakeraw\<close> and set, establish the mode in which the environment assembles no line, echoes nothing, reserves no keystroke and alters nothing,
  and this layer alters nothing either: what a read delivers is what the stream delivered. The settings read first, set again, are then
  what \<open>tcgetattr\<close> reads.\<close>

theorem raw_and_back:
  assumes "okm_desc_of fd s = Some d" "mode_kept K (d_stream (g_desc s d)) UNIV" "alter_sound alter m"
    and "tcgetattr K alter fd x s = Inr (termios_of alter m)"
    and "tcsetattr K alter fd act (cfmakeraw (termios_of alter m)) s = (0, a, u)"
  shows "tcgetattr K a fd x u = Inr (termios_of 0 {KAL_TERM_PASS_CONTROL, KAL_TERM_PASS_INPUT})
    \<and> do_read K a fd len u = do_read_stream K fd len u
    \<and> (\<forall>act' b v. tcsetattr K a fd act' (termios_of alter m) u = (0, b, v) \<longrightarrow>
         tcgetattr K b fd x v = tcgetattr K alter fd x s)"
proof -
  let ?t = "termios_of alter m" and ?r = "cfmakeraw (termios_of alter m)"
  note eq = tcsetattr_then [OF assms(1,2,5)]
  have w: "want_of ?r = 0" by (simp add: want_of_def cfmakeraw_def and.assoc)
  have l: "\<not> has (c_lflag ?r) ICANON" "\<not> has (c_lflag ?r) ECHO" "\<not> has (c_lflag ?r) ISIG"
    by (simp_all add: has_def cfmakeraw_def and.assoc)
  have "mode_of ?r = {KAL_TERM_PASS_CONTROL, KAL_TERM_PASS_INPUT}" using w l by (auto simp: mode_of_def)
  moreover have a: "a = 0" using eq(1) w by (simp add: takes_def)
  moreover have "do_read K 0 fd len u = do_read_stream K fd len u"
    by (simp add: do_read_def split: prod.splits sum.splits)
  moreover have "tcgetattr K b fd x v = Inr ?t" if "tcsetattr K a fd act' ?t u = (0, b, v)" for act' b v
  proof -
    have d: "okm_desc_of fd u = Some d" "mode_kept K (d_stream (g_desc u d)) UNIV"
      using assms(1,2) eq(3,4) by (simp_all add: okm_desc_of_def split: if_splits)
    note eq2 = tcsetattr_then [OF d that]
    show ?thesis using eq2(2) set_what_was_read(1) [OF assms(3)] unfolding eq2(1) by simp
  qed
  ultimately show ?thesis using eq(2) assms(4) by simp
qed

theorem raw_and_back_witness:
  "\<exists>a u. tcsetattr tty_kal 0 0 0 (cfmakeraw (termios_of 0 {KAL_TERM_LINE_EDIT, KAL_TERM_ECHO})) tty_table = (0, a, u)
     \<and> tcgetattr tty_kal a 0 (termios_of 0 {}) u = Inr (termios_of 0 {KAL_TERM_PASS_CONTROL, KAL_TERM_PASS_INPUT})
     \<and> do_read tty_kal a 0 8 u = do_read_stream tty_kal 0 8 u"
proof -
  let ?t = "termios_of 0 {KAL_TERM_LINE_EDIT, KAL_TERM_ECHO}"
  obtain a where a: "tcsetattr tty_kal 0 0 0 (cfmakeraw ?t) tty_table = (0, a, tty_table\<lparr>env := mode_of (cfmakeraw ?t)\<rparr>)"
    using tty_set by blast
  have g: "tcgetattr tty_kal 0 0 (termios_of 0 {}) tty_table = Inr ?t"
    by (simp add: tcgetattr_def sys_ioctl_def okm_termios_get_def tty_table_eq Let_def) (simp add: tty_kal_def)
  have "alter_sound 0 {KAL_TERM_LINE_EDIT, KAL_TERM_ECHO}" by (simp add: alter_sound_def)
  from raw_and_back [OF tty_table_eq(1) tty_mode_kept this g a, of 8] a show ?thesis by blast
qed

end
