(* ===== verification/Okm_Context.thy ===== *)
theory Okm_Context
  imports Okm_Prelude
begin

text \<open>
  Where the state of one execution context is kept (port/src/okm_context.c): an open-addressed table
  of 512 entries keyed on the identity openkal gives a context, probed from a multiplicative hash.
  An entry is free (key 0), retired, or a context's.

  \<open>context_find\<close> (the code's \<open>find\<close>) is a probe of the table followed, when an entry is to be made, by one compare-and-exchange.
  The two are separate definitions, \<open>find_probe\<close> and \<open>find_claim\<close>, because other contexts run
  between them; \<open>context_find\<close> is the two with nothing in between. \<open>None\<close> as the answer of an operation that
  the code ends with \<open>kal_abort\<close> is that end.

  The table refines a map of at most 512 contexts (\<open>context_refines\<close>), by an invariant on the ways of
  its keys; what two contexts that claim at once can see is \<open>claim_lost_race\<close>.
\<close>

section \<open>The table\<close>

abbreviation (input) OKM_CONTEXTS :: nat where "OKM_CONTEXTS \<equiv> 512"

record okm_slot =
  key :: kal_uintptr
  tp :: kal_uintptr
  self :: kal_uintptr

type_synonym slots = "nat \<Rightarrow> okm_slot"

abbreviation (input) OKM_RETIRED :: kal_uintptr where "OKM_RETIRED \<equiv> - 1"
abbreviation (input) OKM_ZERO :: kal_uintptr where "OKM_ZERO \<equiv> - 2"

definition key_of :: "kal_uintptr \<Rightarrow> kal_uintptr" where
  "key_of identity = (if identity \<noteq> 0 then identity else OKM_ZERO)"

definition start_at :: "kal_uintptr \<Rightarrow> nat" where
  "start_at k = unat (drop_bit 32 (k * 0x9E3779B97F4A7C15) AND 511)"

text \<open>The answer of the probe: the entry of this key, or that there is none and the first entry of
  the way that could be made this key's.\<close>

datatype probe = Found nat | Absent "nat option"

function find_loop :: "slots \<Rightarrow> kal_uintptr \<Rightarrow> nat \<Rightarrow> nat \<Rightarrow> nat option \<Rightarrow> probe" where
  "find_loop g me i n free_slot =
     (if n < OKM_CONTEXTS then
        let k = key (g i) in
        if k = me then Found i
        else if k = 0 then Absent (if free_slot = None then Some i else free_slot)
        else find_loop g me ((i + 1) AND (OKM_CONTEXTS - 1)) (n + 1)
               (if k = OKM_RETIRED \<and> free_slot = None then Some i else free_slot)
      else Absent free_slot)"
  by pat_completeness auto
termination
  by (relation "measure (\<lambda>(g, me, i, n, f). OKM_CONTEXTS - n)") auto

declare find_loop.simps [simp del]

definition find_probe :: "slots \<Rightarrow> kal_uintptr \<Rightarrow> probe" where
  "find_probe g me = find_loop g me (start_at me) 0 None"

definition find_claim :: "kal_uintptr \<Rightarrow> nat \<Rightarrow> slots \<Rightarrow> nat option \<times> slots" where
  "find_claim me f g =
     (let expected = key (g f) in
      if expected = me then (Some f, g)
      else if expected \<noteq> 0 \<and> expected \<noteq> OKM_RETIRED then (None, g)
      else (Some f, g(f := (g f)\<lparr>key := me\<rparr>)))"

definition context_find :: "kal_uintptr \<Rightarrow> bool \<Rightarrow> slots \<Rightarrow> nat option \<times> slots" where
  "context_find me create g =
     (case find_probe g me of
        Found i \<Rightarrow> (Some i, g)
      | Absent free_slot \<Rightarrow>
          if \<not> create then (None, g)
          else (case free_slot of None \<Rightarrow> (None, g) | Some f \<Rightarrow> find_claim me f g))"

section \<open>The operations\<close>

record contexts =
  g_slots :: slots
  g_recorded :: bool

definition okm_get_tp :: "kal_uintptr \<Rightarrow> contexts \<Rightarrow> kal_uintptr option" where
  "okm_get_tp me c =
     (case fst (context_find (key_of me) False (g_slots c)) of
        Some i \<Rightarrow> Some (tp (g_slots c i))
      | None \<Rightarrow> if g_recorded c then None else Some 0)"

definition okm_set_tp :: "kal_uintptr \<Rightarrow> kal_uintptr \<Rightarrow> contexts \<Rightarrow> contexts option" where
  "okm_set_tp me v c =
     (case context_find (key_of me) True (g_slots c) of
        (None, g) \<Rightarrow> None
      | (Some i, g) \<Rightarrow> Some \<lparr>g_slots = g(i := (g i)\<lparr>tp := v\<rparr>), g_recorded = True\<rparr>)"

definition okm_get_self :: "kal_uintptr \<Rightarrow> contexts \<Rightarrow> kal_uintptr" where
  "okm_get_self me c =
     (case fst (context_find (key_of me) False (g_slots c)) of Some i \<Rightarrow> self (g_slots c i) | None \<Rightarrow> 0)"

definition okm_set_self :: "kal_uintptr \<Rightarrow> kal_uintptr \<Rightarrow> contexts \<Rightarrow> contexts" where
  "okm_set_self me v c =
     (case context_find (key_of me) True (g_slots c) of
        (None, g) \<Rightarrow> c\<lparr>g_slots := g\<rparr>
      | (Some i, g) \<Rightarrow> c\<lparr>g_slots := g(i := (g i)\<lparr>self := v\<rparr>)\<rparr>)"

definition okm_release_context :: "kal_uintptr \<Rightarrow> contexts \<Rightarrow> contexts" where
  "okm_release_context me c =
     (case fst (context_find (key_of me) False (g_slots c)) of
        None \<Rightarrow> c
      | Some i \<Rightarrow> c\<lparr>g_slots := (g_slots c)(i := \<lparr>key = OKM_RETIRED, tp = 0, self = 0\<rparr>)\<rparr>)"

definition okm_rebind_context :: "kal_uintptr \<Rightarrow> kal_uintptr \<Rightarrow> contexts \<Rightarrow> contexts option" where
  "okm_rebind_context me from c =
     (case fst (context_find (key_of from) False (g_slots c)) of
        None \<Rightarrow> Some c
      | Some w \<Rightarrow>
          let was = g_slots c w;
              g1 = (g_slots c)(w := \<lparr>key = OKM_RETIRED, tp = 0, self = 0\<rparr>)
          in (case context_find (key_of me) True g1 of
                (None, _) \<Rightarrow> None
              | (Some i, g2) \<Rightarrow>
                  Some \<lparr>g_slots = g2(i := (g2 i)\<lparr>tp := tp was, self := self was\<rparr>), g_recorded = True\<rparr>))"

section \<open>The way of a key\<close>

definition way :: "kal_uintptr \<Rightarrow> nat \<Rightarrow> nat" where
  "way k n = (start_at k + n) mod OKM_CONTEXTS"

lemma and_511: "(i :: nat) AND (OKM_CONTEXTS - 1) = i mod OKM_CONTEXTS"
  using take_bit_eq_mask [of 9 i] by (simp add: take_bit_eq_mod mask_eq_exp_minus_1)

lemma start_at_less: "start_at k < OKM_CONTEXTS"
proof -
  let ?w = "drop_bit 32 (k * 0x9E3779B97F4A7C15)"
  have "?w AND 511 = take_bit 9 ?w" using take_bit_eq_mask [of 9 ?w] by (simp add: mask_eq_exp_minus_1)
  then have "start_at k = take_bit 9 (unat ?w)" unfolding start_at_def by (simp only: unsigned_take_bit_eq)
  then show ?thesis using take_bit_nat_less_exp [of 9 "unat ?w"] by simp
qed

lemma way_0 [simp]: "way k 0 = start_at k"
  using start_at_less by (simp add: way_def)

lemma way_less [simp]: "way k n < OKM_CONTEXTS"
  by (simp add: way_def)

lemma way_Suc: "(way k n + 1) AND (OKM_CONTEXTS - 1) = way k (n + 1)"
  unfolding and_511 by (simp add: way_def mod_Suc_eq)

lemma way_onto:
  assumes "j < OKM_CONTEXTS"
  obtains n where "n < OKM_CONTEXTS" "j = way k n"
proof -
  let ?n = "(j + (OKM_CONTEXTS - start_at k)) mod OKM_CONTEXTS"
  have "way k ?n = (start_at k + (j + (OKM_CONTEXTS - start_at k))) mod OKM_CONTEXTS"
    unfolding way_def by (simp add: mod_add_right_eq)
  also have "start_at k + (j + (OKM_CONTEXTS - start_at k)) = j + OKM_CONTEXTS"
    using start_at_less [of k] by simp
  finally have "j = way k ?n" using assms by simp
  then show ?thesis using that [of ?n] by simp
qed

section \<open>The probe\<close>

definition valid :: "kal_uintptr \<Rightarrow> bool" where
  "valid k \<longleftrightarrow> k \<noteq> 0 \<and> k \<noteq> OKM_RETIRED"

text \<open>Every key in the table is in one entry, on its way, with no free entry before it.\<close>

definition slots_inv :: "slots \<Rightarrow> bool" where
  "slots_inv g \<longleftrightarrow>
     (\<forall>j < OKM_CONTEXTS. valid (key (g j)) \<longrightarrow>
        (\<exists>n < OKM_CONTEXTS. j = way (key (g j)) n \<and> (\<forall>m < n. key (g (way (key (g j)) m)) \<noteq> 0)))
   \<and> (\<forall>i < OKM_CONTEXTS. \<forall>j < OKM_CONTEXTS. valid (key (g i)) \<longrightarrow> key (g i) = key (g j) \<longrightarrow> i = j)"

definition passed :: "slots \<Rightarrow> kal_uintptr \<Rightarrow> nat \<Rightarrow> nat option \<Rightarrow> bool" where
  "passed g me n f \<longleftrightarrow> (\<forall>m < n. key (g (way me m)) \<noteq> me \<and> key (g (way me m)) \<noteq> 0)
     \<and> (case f of
          None \<Rightarrow> \<forall>m < n. key (g (way me m)) \<noteq> OKM_RETIRED
        | Some i \<Rightarrow> \<exists>m < n. i = way me m \<and> key (g i) = OKM_RETIRED)"

definition probe_ok :: "slots \<Rightarrow> kal_uintptr \<Rightarrow> probe \<Rightarrow> bool" where
  "probe_ok g me p \<longleftrightarrow>
     (case p of
        Found i \<Rightarrow> i < OKM_CONTEXTS \<and> key (g i) = me
      | Absent f \<Rightarrow> \<exists>z \<le> OKM_CONTEXTS.
          (\<forall>m < z. key (g (way me m)) \<noteq> me \<and> key (g (way me m)) \<noteq> 0)
          \<and> (z < OKM_CONTEXTS \<longrightarrow> key (g (way me z)) = 0)
          \<and> (case f of
               None \<Rightarrow> z = OKM_CONTEXTS \<and> (\<forall>m < z. key (g (way me m)) \<noteq> OKM_RETIRED)
             | Some i \<Rightarrow> \<exists>m \<le> z. m < OKM_CONTEXTS \<and> i = way me m \<and> key (g i) \<in> {0, OKM_RETIRED}))"

lemma probe_ok_someI:
  assumes "z \<le> OKM_CONTEXTS" "\<forall>m < z. key (g (way me m)) \<noteq> me \<and> key (g (way me m)) \<noteq> 0"
    and "z < OKM_CONTEXTS \<Longrightarrow> key (g (way me z)) = 0"
    and "m \<le> z" "m < OKM_CONTEXTS" "i = way me m" "key (g i) \<in> {0, OKM_RETIRED}"
  shows "probe_ok g me (Absent (Some i))"
  unfolding probe_ok_def probe.case option.case
  by (rule exI [of _ z], intro conjI impI exI [of _ m]) (use assms in simp_all)

lemma passed_step:
  assumes "passed g me n f" "key (g (way me n)) \<noteq> me" "key (g (way me n)) \<noteq> 0"
  shows "passed g me (Suc n) (if key (g (way me n)) = OKM_RETIRED \<and> f = None then Some (way me n) else f)"
  using assms by (auto simp: passed_def less_Suc_eq split: option.splits)

lemma find_loop_ok:
  assumes "n \<le> OKM_CONTEXTS" "passed g me n f"
  shows "probe_ok g me (find_loop g me (way me n) n f)"
  using assms
proof (induction "OKM_CONTEXTS - n" arbitrary: n f)
  case 0
  then have n: "n = OKM_CONTEXTS" by simp
  have eq: "find_loop g me (way me n) n f = Absent f" by (subst find_loop.simps) (simp add: n)
  have all: "\<forall>m < OKM_CONTEXTS. key (g (way me m)) \<noteq> me \<and> key (g (way me m)) \<noteq> 0"
    using "0.prems"(2) n by (simp add: passed_def)
  show ?case
  proof (cases f)
    case None
    then have "\<forall>m < OKM_CONTEXTS. key (g (way me m)) \<noteq> OKM_RETIRED"
      using "0.prems"(2) n by (simp add: passed_def)
    with all show ?thesis unfolding eq unfolding probe_ok_def None by simp
  next
    case (Some i)
    then obtain m where m: "m < OKM_CONTEXTS" "i = way me m" "key (g i) = OKM_RETIRED"
      using "0.prems"(2) n by (auto simp: passed_def)
    show ?thesis unfolding eq unfolding Some
      by (rule probe_ok_someI [of OKM_CONTEXTS _ _ m]) (use m all in simp_all)
  qed
next
  case (Suc k)
  then have n: "n < OKM_CONTEXTS" by simp
  let ?k = "key (g (way me n))"
  consider "?k = me" | "?k \<noteq> me" "?k = 0" | "?k \<noteq> me" "?k \<noteq> 0" by blast
  then show ?case
  proof cases
    case 1
    then show ?thesis using n by (subst find_loop.simps) (simp add: probe_ok_def Let_def)
  next
    case 2
    have eq: "find_loop g me (way me n) n f = Absent (if f = None then Some (way me n) else f)"
      using n 2 by (subst find_loop.simps) (simp add: Let_def)
    have all: "\<forall>m < n. key (g (way me m)) \<noteq> me \<and> key (g (way me m)) \<noteq> 0"
      using Suc.prems(2) by (simp add: passed_def)
    show ?thesis
    proof (cases f)
      case None
      then show ?thesis unfolding eq by (simp, intro probe_ok_someI [of n _ _ n]) (use n 2 all in simp_all)
    next
      case (Some i)
      then obtain m where "m < n" "i = way me m" "key (g i) = OKM_RETIRED"
        using Suc.prems(2) by (auto simp: passed_def)
      then show ?thesis unfolding eq using Some
        by (simp, intro probe_ok_someI [of n _ _ m]) (use n 2 all in simp_all)
    qed
  next
    case 3
    let ?f = "if ?k = OKM_RETIRED \<and> f = None then Some (way me n) else f"
    have "find_loop g me (way me n) n f = find_loop g me (way me (Suc n)) (Suc n) ?f"
      using n 3 by (subst find_loop.simps) (simp add: Let_def way_Suc [simplified])
    moreover have "probe_ok g me (find_loop g me (way me (Suc n)) (Suc n) ?f)"
      using Suc n by (intro Suc.hyps(1) passed_step [OF Suc.prems(2) 3]) simp_all
    ultimately show ?thesis by simp
  qed
qed

lemma find_probe_ok: "probe_ok g me (find_probe g me)"
  using find_loop_ok [of 0 g me None] by (simp add: find_probe_def passed_def)

lemma probe_absent:
  assumes "slots_inv g" "valid me" "find_probe g me = Absent f" "j < OKM_CONTEXTS"
  shows "key (g j) \<noteq> me"
proof
  assume j: "key (g j) = me"
  obtain z where z: "z \<le> OKM_CONTEXTS" "\<forall>m < z. key (g (way me m)) \<noteq> me \<and> key (g (way me m)) \<noteq> 0"
    "z < OKM_CONTEXTS \<longrightarrow> key (g (way me z)) = 0"
    using find_probe_ok [of g me] assms(3) by (auto simp: probe_ok_def)
  obtain n where n: "n < OKM_CONTEXTS" "j = way me n" "\<forall>m < n. key (g (way me m)) \<noteq> 0"
    using assms(1,2,4) j by (auto simp: slots_inv_def)
  show False
  proof (cases "n < z")
    case True
    then show False using z(2) n(2) j by blast
  next
    case False
    with z(1,3) n(1) have "key (g (way me z)) = 0" by simp
    then show False using n(2,3) j False assms(2) by (cases "z = n") (auto simp: valid_def)
  qed
qed

lemma find_probe_iff:
  assumes "slots_inv g" "valid me"
  shows "find_probe g me = Found i \<longleftrightarrow> i < OKM_CONTEXTS \<and> key (g i) = me"
proof
  assume "find_probe g me = Found i"
  then show "i < OKM_CONTEXTS \<and> key (g i) = me" using find_probe_ok [of g me] by (simp add: probe_ok_def)
next
  assume i: "i < OKM_CONTEXTS \<and> key (g i) = me"
  show "find_probe g me = Found i"
  proof (cases "find_probe g me")
    case (Found j)
    then have "j < OKM_CONTEXTS" "key (g j) = me" using find_probe_ok [of g me] by (simp_all add: probe_ok_def)
    then show ?thesis using assms i Found by (auto simp: slots_inv_def)
  next
    case (Absent f)
    then show ?thesis using probe_absent [OF assms Absent] i by blast
  qed
qed

text \<open>An entry that may be claimed keeps the ways of all keys whole.\<close>

lemma claim_inv:
  assumes inv: "slots_inv g" and me: "valid me"
    and f: "find_probe g me = Absent (Some f)"
  shows "find_claim me f g = (Some f, g(f := (g f)\<lparr>key := me\<rparr>))" "f < OKM_CONTEXTS"
    "\<not> valid (key (g f))" "slots_inv (g(f := (g f)\<lparr>key := me\<rparr>))"
proof -
  obtain z m where z: "\<forall>l < z. key (g (way me l)) \<noteq> me \<and> key (g (way me l)) \<noteq> 0"
    and m: "m \<le> z" "m < OKM_CONTEXTS" "f = way me m" "key (g f) \<in> {0, OKM_RETIRED}"
    using find_probe_ok [of g me] f by (auto simp: probe_ok_def)
  show "find_claim me f g = (Some f, g(f := (g f)\<lparr>key := me\<rparr>))" "f < OKM_CONTEXTS" "\<not> valid (key (g f))"
    using m me by (auto simp: find_claim_def Let_def valid_def)
  have absent: "key (g j) \<noteq> me" if "j < OKM_CONTEXTS" for j by (rule probe_absent [OF inv me f that])
  let ?g = "g(f := (g f)\<lparr>key := me\<rparr>)"
  have keys: "key (?g j) = (if j = f then me else key (g j))" for j by simp
  have nz: "key (g j) \<noteq> 0 \<Longrightarrow> key (?g j) \<noteq> 0" for j using me by (simp add: valid_def)
  have "\<exists>n < OKM_CONTEXTS. j = way (key (?g j)) n \<and> (\<forall>l < n. key (?g (way (key (?g j)) l)) \<noteq> 0)"
    if j: "j < OKM_CONTEXTS" "valid (key (?g j))" for j
  proof (cases "j = f")
    case True
    then show ?thesis using m z nz by (intro exI [of _ m]) auto
  next
    case False
    then obtain n where "n < OKM_CONTEXTS" "j = way (key (g j)) n" "\<forall>l < n. key (g (way (key (g j)) l)) \<noteq> 0"
      using inv j by (auto simp: slots_inv_def)
    with False nz show ?thesis by (intro exI [of _ n]) auto
  qed
  moreover have "i = j" if "i < OKM_CONTEXTS" "j < OKM_CONTEXTS" "valid (key (?g i))" "key (?g i) = key (?g j)" for i j
    using that absent inv unfolding keys by (auto simp: slots_inv_def split: if_splits)
  ultimately show "slots_inv ?g" unfolding slots_inv_def by blast
qed

lemma slots_inv_inj:
  "\<lbrakk>slots_inv g; i < OKM_CONTEXTS; j < OKM_CONTEXTS; valid (key (g i)); key (g i) = key (g j)\<rbrakk> \<Longrightarrow> i = j"
  unfolding slots_inv_def by blast

lemma slots_inv_keep:
  assumes inv: "slots_inv g" and i: "i < OKM_CONTEXTS" and k: "key s = key (g i)"
  shows "slots_inv (g(i := s))"
proof -
  have "key ((g(i := s)) j) = key (g j)" for j using k by simp
  then show ?thesis using inv by (simp only: slots_inv_def)
qed

lemma slots_inv_retire:
  assumes inv: "slots_inv g" and s: "key s = OKM_RETIRED"
  shows "slots_inv (g(i := s))"
proof -
  let ?g = "g(i := s)"
  have nz: "key (g j) \<noteq> 0 \<Longrightarrow> key (?g j) \<noteq> 0" for j using s by simp
  have old: "j \<noteq> i \<and> key (?g j) = key (g j)" if "valid (key (?g j))" for j
    using that s by (auto simp: valid_def split: if_splits)
  have "\<exists>n < OKM_CONTEXTS. j = way (key (?g j)) n \<and> (\<forall>l < n. key (?g (way (key (?g j)) l)) \<noteq> 0)"
    if j: "j < OKM_CONTEXTS" "valid (key (?g j))" for j
  proof -
    have "valid (key (g j))" using old [OF j(2)] j(2) by simp
    then obtain n where n: "n < OKM_CONTEXTS" "j = way (key (g j)) n" "\<forall>l < n. key (g (way (key (g j)) l)) \<noteq> 0"
      using inv j by (auto simp: slots_inv_def)
    have kj: "key (?g j) = key (g j)" using old [OF j(2)] by blast
    have "\<forall>l < n. key (?g (way (key (g j)) l)) \<noteq> 0" using n(3) nz by blast
    with n(1,2) show ?thesis unfolding kj by blast
  qed
  moreover have "a = b" if "a < OKM_CONTEXTS" "b < OKM_CONTEXTS" "valid (key (?g a))" "key (?g a) = key (?g b)" for a b
  proof -
    have "valid (key (?g b))" using that(3) unfolding that(4) .
    note ab = old [OF that(3)] old [OF this]
    have "key (g a) = key (g b)" "valid (key (g a))" using ab that(3,4) by metis+
    then show ?thesis using slots_inv_inj [OF inv that(1,2)] by blast
  qed
  ultimately show ?thesis unfolding slots_inv_def by blast
qed

section \<open>The table as a map\<close>

text \<open>What the table promises: a map from the contexts to their two words, of at most 512 contexts.
  \<open>ctx_put\<close> writes a context's words, making the context known if there is room.\<close>

type_synonym ctx = "kal_uintptr \<rightharpoonup> kal_uintptr \<times> kal_uintptr"

definition ctx_of :: "slots \<Rightarrow> ctx" where
  "ctx_of g k = (if valid k then
      (case find_probe g k of Found i \<Rightarrow> Some (tp (g i), self (g i)) | Absent _ \<Rightarrow> None) else None)"

definition words_of :: "ctx \<Rightarrow> kal_uintptr \<Rightarrow> kal_uintptr \<times> kal_uintptr" where
  "words_of m k = (case m k of None \<Rightarrow> (0, 0) | Some p \<Rightarrow> p)"

definition ctx_put :: "kal_uintptr \<Rightarrow> (kal_uintptr \<times> kal_uintptr \<Rightarrow> kal_uintptr \<times> kal_uintptr) \<Rightarrow> ctx \<Rightarrow> ctx option" where
  "ctx_put k f m =
     (if m k \<noteq> None \<or> card (dom m) < OKM_CONTEXTS then Some (m(k \<mapsto> f (words_of m k))) else None)"

text \<open>An entry no context has holds no words.\<close>

definition unused_clear :: "slots \<Rightarrow> bool" where
  "unused_clear g \<longleftrightarrow> (\<forall>i < OKM_CONTEXTS. \<not> valid (key (g i)) \<longrightarrow> tp (g i) = 0 \<and> self (g i) = 0)"

definition contexts_inv :: "contexts \<Rightarrow> bool" where
  "contexts_inv c \<longleftrightarrow> slots_inv (g_slots c) \<and> unused_clear (g_slots c)"

lemma ctx_of_iff:
  assumes "slots_inv g"
  shows "ctx_of g k = Some p \<longleftrightarrow> valid k \<and> (\<exists>i < OKM_CONTEXTS. key (g i) = k \<and> p = (tp (g i), self (g i)))"
proof (cases "valid k")
  case True
  show ?thesis
  proof
    assume "ctx_of g k = Some p"
    then obtain i where "find_probe g k = Found i" "p = (tp (g i), self (g i))"
      using True by (auto simp: ctx_of_def split: probe.splits)
    then show "valid k \<and> (\<exists>i < OKM_CONTEXTS. key (g i) = k \<and> p = (tp (g i), self (g i)))"
      using True find_probe_iff [OF assms True] by auto
  next
    assume "valid k \<and> (\<exists>i < OKM_CONTEXTS. key (g i) = k \<and> p = (tp (g i), self (g i)))"
    then obtain i where "find_probe g k = Found i" "p = (tp (g i), self (g i))"
      using find_probe_iff [OF assms True] by auto
    then show "ctx_of g k = Some p" using True by (simp add: ctx_of_def)
  qed
qed (simp add: ctx_of_def)

lemma ctx_of_at:
  "\<lbrakk>slots_inv g; i < OKM_CONTEXTS; valid (key (g i))\<rbrakk> \<Longrightarrow> ctx_of g (key (g i)) = Some (tp (g i), self (g i))"
  by (auto simp: ctx_of_iff)

lemma ctx_of_update:
  assumes inv: "slots_inv g" and i: "i < OKM_CONTEXTS" "valid (key (g i))" and k: "key s = key (g i)"
  shows "ctx_of (g(i := s)) = (ctx_of g)(key (g i) \<mapsto> (tp s, self s))"
proof
  fix k'
  have inv': "slots_inv (g(i := s))" by (rule slots_inv_keep [OF inv i(1) k])
  show "ctx_of (g(i := s)) k' = ((ctx_of g)(key (g i) \<mapsto> (tp s, self s))) k'"
  proof (cases "k' = key (g i)")
    case True
    then show ?thesis using ctx_of_at [OF inv' i(1)] i k by simp
  next
    case False
    have "ctx_of (g(i := s)) k' = Some p \<longleftrightarrow> ctx_of g k' = Some p" for p
      unfolding ctx_of_iff [OF inv] ctx_of_iff [OF inv'] using False k by auto
    then have "ctx_of (g(i := s)) k' = ctx_of g k'" by (metis not_Some_eq)
    with False show ?thesis by simp
  qed
qed

lemma ctx_of_retire:
  assumes inv: "slots_inv g" and i: "i < OKM_CONTEXTS" "valid (key (g i))" and s: "key s = OKM_RETIRED"
  shows "ctx_of (g(i := s)) = (ctx_of g)(key (g i) := None)"
proof
  fix k'
  have inv': "slots_inv (g(i := s))" by (rule slots_inv_retire [OF inv s])
  have "(valid k' \<and> j < OKM_CONTEXTS \<and> key ((g(i := s)) j) = k' \<and> p = (tp ((g(i := s)) j), self ((g(i := s)) j)))
      \<longleftrightarrow> k' \<noteq> key (g i) \<and> valid k' \<and> j < OKM_CONTEXTS \<and> key (g j) = k' \<and> p = (tp (g j), self (g j))" for j p
  proof (cases "j = i")
    case True
    then show ?thesis using s by (auto simp: valid_def)
  next
    case False
    then have "j < OKM_CONTEXTS \<Longrightarrow> key (g j) \<noteq> key (g i)" using slots_inv_inj [OF inv i(1) _ i(2)] by metis
    then show ?thesis using False by auto
  qed
  then have "ctx_of (g(i := s)) k' = Some p \<longleftrightarrow> k' \<noteq> key (g i) \<and> ctx_of g k' = Some p" for p
    unfolding ctx_of_iff [OF inv] ctx_of_iff [OF inv'] by blast
  then show "ctx_of (g(i := s)) k' = ((ctx_of g)(key (g i) := None)) k'"
    by (metis fun_upd_apply not_Some_eq)
qed

lemma ctx_of_claim:
  assumes inv: "slots_inv g" and me: "valid me" and f: "find_probe g me = Absent (Some f)" and clear: "unused_clear g"
  shows "ctx_of (g(f := (g f)\<lparr>key := me\<rparr>)) = (ctx_of g)(me \<mapsto> (0, 0))"
proof
  fix k
  note c = claim_inv [OF inv me f]
  have z: "tp (g f) = 0" "self (g f) = 0" using clear c(2,3) by (simp_all add: unused_clear_def)
  show "ctx_of (g(f := (g f)\<lparr>key := me\<rparr>)) k = ((ctx_of g)(me \<mapsto> (0, 0))) k"
  proof (cases "k = me")
    case True
    then show ?thesis using ctx_of_at [OF c(4) c(2)] me z by simp
  next
    case False
    have "ctx_of (g(f := (g f)\<lparr>key := me\<rparr>)) k = Some p \<longleftrightarrow> ctx_of g k = Some p" for p
      unfolding ctx_of_iff [OF inv] ctx_of_iff [OF c(4)] using False c(3) by auto
    then have "ctx_of (g(f := (g f)\<lparr>key := me\<rparr>)) k = ctx_of g k" by (metis not_Some_eq)
    with False show ?thesis by simp
  qed
qed

lemma ctx_dom:
  assumes "slots_inv g"
  shows "card (dom (ctx_of g)) = card {i. i < OKM_CONTEXTS \<and> valid (key (g i))}"
proof -
  let ?I = "{i. i < OKM_CONTEXTS \<and> valid (key (g i))}"
  have "dom (ctx_of g) = (\<lambda>i. key (g i)) ` ?I"
    by (auto simp: dom_def ctx_of_iff [OF assms])
  moreover have "inj_on (\<lambda>i. key (g i)) ?I" using slots_inv_inj [OF assms] by (auto simp: inj_on_def)
  ultimately show ?thesis by (simp add: card_image)
qed

section \<open>The operations on the map\<close>

lemma ctx_full:
  assumes "slots_inv g" "find_probe g me = Absent None"
  shows "card (dom (ctx_of g)) = OKM_CONTEXTS"
proof -
  have "valid (key (g j))" if "j < OKM_CONTEXTS" for j
    using way_onto [OF that, of me] find_probe_ok [of g me] assms(2) by (auto simp: probe_ok_def valid_def)
  then have "{i. i < OKM_CONTEXTS \<and> valid (key (g i))} = {..< OKM_CONTEXTS}" by auto
  then show ?thesis using ctx_dom [OF assms(1)] by simp
qed

lemma ctx_not_full:
  assumes "slots_inv g" "f < OKM_CONTEXTS" "\<not> valid (key (g f))"
  shows "card (dom (ctx_of g)) < OKM_CONTEXTS"
proof -
  have "{i. i < OKM_CONTEXTS \<and> valid (key (g i))} \<subset> {..< OKM_CONTEXTS}" using assms(2,3) by auto
  from psubset_card_mono [OF _ this] show ?thesis using ctx_dom [OF assms(1)] by simp
qed

lemma find_present:
  assumes "slots_inv g" "valid k" "find_probe g k = Found i"
  shows "context_find k create g = (Some i, g) \<and> i < OKM_CONTEXTS \<and> key (g i) = k"
  using assms(3) find_probe_iff [OF assms(1,2), of i] by (auto simp: context_find_def)

text \<open>A lookup that does not create answers the entry of the map's key and changes nothing; one that
  creates answers an entry of the key in a table that is the same map but for a new key, or, when no
  entry is left, nothing.\<close>

lemma find_lookup:
  assumes "slots_inv g" "valid k"
  shows "case context_find k False g of
      (Some i, g') \<Rightarrow> g' = g \<and> i < OKM_CONTEXTS \<and> key (g i) = k \<and> ctx_of g k = Some (tp (g i), self (g i))
    | (None, g') \<Rightarrow> g' = g \<and> ctx_of g k = None"
proof (cases "find_probe g k")
  case (Found i)
  then show ?thesis using find_present [OF assms Found] ctx_of_at [OF assms(1), of i] assms(2) by auto
next
  case (Absent f)
  then show ?thesis using assms(2) by (simp add: context_find_def ctx_of_def)
qed

lemma find_create:
  assumes "slots_inv g" "unused_clear g" "valid k"
  shows "case context_find k True g of
      (Some i, g') \<Rightarrow> slots_inv g' \<and> unused_clear g' \<and> i < OKM_CONTEXTS \<and> key (g' i) = k
        \<and> (tp (g' i), self (g' i)) = words_of (ctx_of g) k
        \<and> (\<forall>p. (ctx_of g')(k \<mapsto> p) = (ctx_of g)(k \<mapsto> p))
        \<and> (ctx_of g k \<noteq> None \<or> card (dom (ctx_of g)) < OKM_CONTEXTS)
    | (None, g') \<Rightarrow> g' = g \<and> ctx_of g k = None \<and> card (dom (ctx_of g)) = OKM_CONTEXTS"
proof (cases "find_probe g k")
  case (Found i)
  then have "context_find k True g = (Some i, g)" "i < OKM_CONTEXTS" "key (g i) = k"
    using find_present [OF assms(1,3) Found] by simp_all
  then show ?thesis using ctx_of_at [OF assms(1), of i] assms by (simp add: words_of_def)
next
  case (Absent f)
  then have none: "ctx_of g k = None" using assms(3) by (simp add: ctx_of_def)
  show ?thesis
  proof (cases f)
    case None
    then show ?thesis using Absent none ctx_full [OF assms(1)] by (simp add: context_find_def)
  next
    case (Some e)
    note c = claim_inv [OF assms(1,3) Absent [unfolded Some]]
    let ?g = "g(e := (g e)\<lparr>key := k\<rparr>)"
    have "unused_clear ?g" using assms(2,3) by (simp add: unused_clear_def)
    moreover have "(ctx_of ?g)(k \<mapsto> p) = (ctx_of g)(k \<mapsto> p)" for p
      using ctx_of_claim [OF assms(1,3) Absent [unfolded Some] assms(2)] by simp
    moreover have "(tp (?g e), self (?g e)) = words_of (ctx_of g) k"
      using none assms(2) c(2,3) by (simp add: words_of_def unused_clear_def)
    moreover have "context_find k True g = (Some e, ?g)" using Absent Some c(1) by (simp add: context_find_def)
    ultimately show ?thesis using c(2,4) ctx_not_full [OF assms(1) c(2,3)] by simp
  qed
qed

lemma valid_key_of [simp]: "me \<noteq> OKM_RETIRED \<Longrightarrow> valid (key_of me)"
  by (simp add: valid_def key_of_def)

abbreviation ctx_map :: "contexts \<Rightarrow> ctx" where
  "ctx_map c \<equiv> ctx_of (g_slots c)"

lemma write_slot:
  assumes "slots_inv g" "unused_clear g" "i < OKM_CONTEXTS" "valid (key (g i))" "key s = key (g i)"
  shows "slots_inv (g(i := s))" "unused_clear (g(i := s))" "ctx_of (g(i := s)) = (ctx_of g)(key (g i) \<mapsto> (tp s, self s))"
  using assms slots_inv_keep [OF assms(1,3,5)] ctx_of_update [OF assms(1,3-5)] by (simp_all add: unused_clear_def)

text \<open>Writing an entry of the key found, or made, is \<open>ctx_put\<close> on the map.\<close>

lemma create_write:
  assumes ok: "slots_inv g" "unused_clear g" "valid k"
    and upd: "\<And>s. key (upd s) = key s" "\<And>s. (tp (upd s), self (upd s)) = f (tp s, self s)"
  shows "case context_find k True g of
      (None, g') \<Rightarrow> g' = g \<and> ctx_put k f (ctx_of g) = None
    | (Some i, g') \<Rightarrow> slots_inv (g'(i := upd (g' i))) \<and> unused_clear (g'(i := upd (g' i)))
        \<and> ctx_put k f (ctx_of g) = Some (ctx_of (g'(i := upd (g' i))))"
proof -
  obtain r g' where c: "context_find k True g = (r, g')" by fastforce
  note F = find_create [OF ok, unfolded c]
  show ?thesis
  proof (cases r)
    case None
    then show ?thesis using F c by (simp add: ctx_put_def)
  next
    case (Some i)
    then have i: "slots_inv g'" "unused_clear g'" "i < OKM_CONTEXTS" "valid (key (g' i))" "key (g' i) = k"
      using F ok(3) by simp_all
    note w = write_slot [OF i(1-4), of "upd (g' i)", OF upd(1)]
    have "words_of (ctx_of g) k = (tp (g' i), self (g' i))" using F Some by simp
    moreover have "\<forall>p. (ctx_of g')(k \<mapsto> p) = (ctx_of g)(k \<mapsto> p)"
      and "ctx_of g k \<noteq> None \<or> card (dom (ctx_of g)) < OKM_CONTEXTS"
      using F unfolding Some prod.case option.case by blast+
    ultimately have "ctx_put k f (ctx_of g) = Some (ctx_of (g'(i := upd (g' i))))"
      using i(5) w(3) upd(2) [of "g' i"] by (simp add: ctx_put_def del: split_paired_All)
    then show ?thesis using w(1,2) c Some by simp
  qed
qed

lemma retire_write:
  assumes "slots_inv g" "unused_clear g" "i < OKM_CONTEXTS" "valid (key (g i))"
  shows "slots_inv (g(i := \<lparr>key = OKM_RETIRED, tp = 0, self = 0\<rparr>))"
    "unused_clear (g(i := \<lparr>key = OKM_RETIRED, tp = 0, self = 0\<rparr>))"
    "ctx_of (g(i := \<lparr>key = OKM_RETIRED, tp = 0, self = 0\<rparr>)) = (ctx_of g)(key (g i) := None)"
  using assms slots_inv_retire [OF assms(1), of "\<lparr>key = OKM_RETIRED, tp = 0, self = 0\<rparr>"]
    ctx_of_retire [OF assms(1,3,4), of "\<lparr>key = OKM_RETIRED, tp = 0, self = 0\<rparr>"]
  by (simp_all add: unused_clear_def)

lemma set_tp_ctx:
  assumes "contexts_inv c" "me \<noteq> OKM_RETIRED"
  shows "map_option ctx_map (okm_set_tp me v c) = ctx_put (key_of me) (\<lambda>(t, s). (v, s)) (ctx_map c)
    \<and> (\<forall>c'. okm_set_tp me v c = Some c' \<longrightarrow> contexts_inv c')"
  using create_write [of "g_slots c" "key_of me" "\<lambda>s. s\<lparr>tp := v\<rparr>" "\<lambda>(t, s). (v, s)"] assms
  by (auto simp: contexts_inv_def okm_set_tp_def split: prod.splits option.splits)

lemma set_self_ctx:
  assumes "contexts_inv c" "me \<noteq> OKM_RETIRED"
  shows "ctx_map (okm_set_self me v c) =
      (case ctx_put (key_of me) (\<lambda>(t, s). (t, v)) (ctx_map c) of None \<Rightarrow> ctx_map c | Some m \<Rightarrow> m)
    \<and> contexts_inv (okm_set_self me v c)"
  using create_write [of "g_slots c" "key_of me" "\<lambda>s. s\<lparr>self := v\<rparr>" "\<lambda>(t, s). (t, v)"] assms
  by (auto simp: contexts_inv_def okm_set_self_def split: prod.splits option.splits)

lemma get_tp_ctx:
  assumes "contexts_inv c" "me \<noteq> OKM_RETIRED"
  shows "okm_get_tp me c =
    (case ctx_map c (key_of me) of Some (t, s) \<Rightarrow> Some t | None \<Rightarrow> if g_recorded c then None else Some 0)"
  using find_lookup [of "g_slots c" "key_of me"] assms
  by (auto simp: contexts_inv_def okm_get_tp_def split: prod.splits option.splits)

lemma get_self_ctx:
  assumes "contexts_inv c" "me \<noteq> OKM_RETIRED"
  shows "okm_get_self me c = snd (words_of (ctx_map c) (key_of me))"
  using find_lookup [of "g_slots c" "key_of me"] assms
  by (auto simp: contexts_inv_def okm_get_self_def words_of_def split: prod.splits option.splits)

lemma release_ctx:
  assumes "contexts_inv c" "me \<noteq> OKM_RETIRED"
  shows "ctx_map (okm_release_context me c) = (ctx_map c)(key_of me := None) \<and> contexts_inv (okm_release_context me c)"
  using find_lookup [of "g_slots c" "key_of me"] retire_write [of "g_slots c"] assms
  by (auto simp: contexts_inv_def okm_release_context_def split: prod.splits option.splits)

lemma rebind_ctx:
  assumes "contexts_inv c" "me \<noteq> OKM_RETIRED" "from \<noteq> OKM_RETIRED"
  shows "map_option ctx_map (okm_rebind_context me from c) =
      (case ctx_map c (key_of from) of
         None \<Rightarrow> Some (ctx_map c)
       | Some p \<Rightarrow> ctx_put (key_of me) (\<lambda>_. p) ((ctx_map c)(key_of from := None)))
    \<and> (\<forall>c'. okm_rebind_context me from c = Some c' \<longrightarrow> contexts_inv c')"
proof -
  obtain r g' where c: "context_find (key_of from) False (g_slots c) = (r, g')" by fastforce
  have ok: "slots_inv (g_slots c)" "unused_clear (g_slots c)" using assms(1) by (simp_all add: contexts_inv_def)
  note F = find_lookup [OF ok(1) valid_key_of [OF assms(3)], unfolded c]
  show ?thesis
  proof (cases r)
    case None
    then show ?thesis using F c assms(1) by (simp add: okm_rebind_context_def)
  next
    case (Some w)
    let ?was = "g_slots c w" and ?g = "(g_slots c)(w := \<lparr>key = OKM_RETIRED, tp = 0, self = 0\<rparr>)"
    have w: "w < OKM_CONTEXTS" "valid (key ?was)" "key ?was = key_of from" using F Some assms(3) by simp_all
    note R = retire_write [OF ok w(1,2)]
    show ?thesis
      using create_write [OF R(1,2) valid_key_of [OF assms(2)],
          of "\<lambda>s. s\<lparr>tp := tp ?was, self := self ?was\<rparr>" "\<lambda>_. (tp ?was, self ?was)"]
        F Some c R(3) w(3)
      by (auto simp: okm_rebind_context_def contexts_inv_def Let_def split: prod.splits option.splits)
  qed
qed

section \<open>The contexts of a run\<close>

definition contexts_init :: "contexts \<Rightarrow> bool" where
  "contexts_init c \<longleftrightarrow> c = \<lparr>g_slots = (\<lambda>_. \<lparr>key = 0, tp = 0, self = 0\<rparr>), g_recorded = False\<rparr>"

inductive contexts_step :: "contexts \<Rightarrow> contexts \<Rightarrow> bool" where
  set_tp: "\<lbrakk>me \<noteq> OKM_RETIRED; okm_set_tp me v c = Some c'\<rbrakk> \<Longrightarrow> contexts_step c c'"
| set_self: "me \<noteq> OKM_RETIRED \<Longrightarrow> contexts_step c (okm_set_self me v c)"
| release: "me \<noteq> OKM_RETIRED \<Longrightarrow> contexts_step c (okm_release_context me c)"
| rebind: "\<lbrakk>me \<noteq> OKM_RETIRED; from \<noteq> OKM_RETIRED; okm_rebind_context me from c = Some c'\<rbrakk> \<Longrightarrow> contexts_step c c'"

interpretation cx: invariant_system contexts_init contexts_step contexts_inv
proof
  show "contexts_inv c" if "contexts_init c" for c
    using that by (simp add: contexts_init_def contexts_inv_def slots_inv_def unused_clear_def valid_def)
  show "contexts_inv c'" if "contexts_step c c'" "contexts_inv c" for c c'
    using that
  proof cases
    case (set_tp me v)
    then show ?thesis using set_tp_ctx that(2) by blast
  next
    case (set_self me v)
    then show ?thesis using set_self_ctx that(2) by blast
  next
    case (release me)
    then show ?thesis using release_ctx that(2) by blast
  next
    case (rebind me "from")
    then show ?thesis using rebind_ctx that(2) by blast
  qed
qed


definition no_contexts :: contexts where
  "no_contexts = \<lparr>g_slots = (\<lambda>_. \<lparr>key = 0, tp = 0, self = 0\<rparr>), g_recorded = False\<rparr>"

text \<open>Two contexts whose keys collide: 57 and 362 both start at entry 77.\<close>

definition two_contexts :: contexts where
  "two_contexts = the (okm_set_tp 362 20 (the (okm_set_tp 57 10 no_contexts)))"

lemma two_contexts_reached: "contexts_step\<^sup>*\<^sup>* no_contexts two_contexts"
proof -
  have "okm_set_tp 57 10 no_contexts \<noteq> None" by code_simp
  then have a: "contexts_step no_contexts (the (okm_set_tp 57 10 no_contexts))"
    by (intro contexts_step.set_tp [of 57 10]) auto
  have "okm_set_tp 362 20 (the (okm_set_tp 57 10 no_contexts)) \<noteq> None" by code_simp
  then have "contexts_step (the (okm_set_tp 57 10 no_contexts)) two_contexts"
    unfolding two_contexts_def by (intro contexts_step.set_tp [of 362 20]) auto
  with a show ?thesis by (meson converse_rtranclp_into_rtranclp rtranclp.rtrancl_refl)
qed


section \<open>Two contexts at once\<close>

text \<open>A context that loses the race for an entry is told there is none. When two contexts that are
  not in the table have probed it and both chosen the entry \<open>f\<close>, the one whose compare-and-exchange
  comes second gets no entry, on which \<open>__okm_set_tp\<close> aborts with ``more execution contexts than this
  port can record''; a second probe would have found one unless 512 contexts are recorded.\<close>

theorem claim_lost_race:
  assumes "slots_inv g" "unused_clear g" "valid k1" "valid k2" "k1 \<noteq> k2"
    and "find_probe g k1 = Absent (Some f)" "find_probe g k2 = Absent (Some f)"
  shows "\<exists>g1. find_claim k1 f g = (Some f, g1) \<and> find_claim k2 f g1 = (None, g1)
    \<and> (card (dom (ctx_of g1)) < OKM_CONTEXTS \<longrightarrow> fst (context_find k2 True g1) \<noteq> None)"
proof (intro exI conjI impI)
  note c = claim_inv [OF assms(1,3,6)]
  let ?g = "g(f := (g f)\<lparr>key := k1\<rparr>)"
  show "find_claim k1 f g = (Some f, ?g)" by (rule c(1))
  show "find_claim k2 f ?g = (None, ?g)" using assms(3,5) by (simp add: find_claim_def valid_def)
  assume room: "card (dom (ctx_of ?g)) < OKM_CONTEXTS"
  have "unused_clear ?g" using assms(2,3) by (simp add: unused_clear_def)
  from find_create [OF c(4) this assms(4)] room show "fst (context_find k2 True ?g) \<noteq> None"
    by (auto split: prod.splits option.splits)
qed

theorem claim_lost_race_witness:
  "find_probe (g_slots no_contexts) 57 = Absent (Some 77) \<and> find_probe (g_slots no_contexts) 362 = Absent (Some 77)
   \<and> (\<exists>g1. find_claim 57 77 (g_slots no_contexts) = (Some 77, g1) \<and> find_claim 362 77 g1 = (None, g1))"
proof -
  have p: "find_probe (g_slots no_contexts) 57 = Absent (Some 77)" "find_probe (g_slots no_contexts) 362 = Absent (Some 77)"
    by code_simp+
  have "slots_inv (g_slots no_contexts)" "unused_clear (g_slots no_contexts)" "valid 57" "valid 362"
    by (simp_all add: no_contexts_def slots_inv_def unused_clear_def valid_def)
  from claim_lost_race [OF this _ p] p show ?thesis by auto
qed

section \<open>Taking over words\<close>

text \<open>What the table promises a context that sets its two words, whatever the table is: setting the first fails exactly where there is no room, and what was set is
  what is read, the second leaving the first alone. \<open>__okm_fork\<close> in the copy and \<open>entry\<close> in a new thread rely on no more.\<close>

locale context_words =
  fixes inv :: "'c \<Rightarrow> bool"
    and names :: "'k \<Rightarrow> bool"
    and room :: "'k \<Rightarrow> 'c \<Rightarrow> bool"
    and known :: "'k \<Rightarrow> 'c \<Rightarrow> bool"
    and get_tp :: "'k \<Rightarrow> 'c \<Rightarrow> 'w option"
    and get_self :: "'k \<Rightarrow> 'c \<Rightarrow> 'w"
    and set_tp :: "'k \<Rightarrow> 'w \<Rightarrow> 'c \<Rightarrow> 'c option"
    and set_self :: "'k \<Rightarrow> 'w \<Rightarrow> 'c \<Rightarrow> 'c"
  assumes set_tp_room: "inv c \<Longrightarrow> names me \<Longrightarrow> set_tp me v c = None \<longleftrightarrow> \<not> room me c"
    and set_tp_word: "inv c \<Longrightarrow> names me \<Longrightarrow> set_tp me v c = Some c' \<Longrightarrow> inv c' \<and> known me c' \<and> get_tp me c' = Some v"
    and set_self_word: "inv c \<Longrightarrow> names me \<Longrightarrow> known me c \<Longrightarrow>
      inv (set_self me v c) \<and> get_tp me (set_self me v c) = get_tp me c \<and> get_self me (set_self me v c) = v"
begin

lemma take_over:
  assumes "inv c" "names me" "set_tp me v c = Some c'"
  shows "inv (set_self me w c')" "get_tp me (set_self me w c') = Some v" "get_self me (set_self me w c') = w"
  using set_tp_word [OF assms] set_self_word [of c' me w] assms(2) by auto

end

interpretation cw: context_words contexts_inv "\<lambda>me. me \<noteq> OKM_RETIRED"
  "\<lambda>me c. ctx_map c (key_of me) \<noteq> None \<or> card (dom (ctx_map c)) < OKM_CONTEXTS" "\<lambda>me c. ctx_map c (key_of me) \<noteq> None"
  okm_get_tp okm_get_self okm_set_tp okm_set_self
proof
  fix c me v c'
  assume c: "contexts_inv c" "me \<noteq> OKM_RETIRED"
  note tp = set_tp_ctx [OF c, of v]
  have "okm_set_tp me v c = None \<longleftrightarrow> ctx_put (key_of me) (\<lambda>(t, s). (v, s)) (ctx_map c) = None"
    using tp by (metis option.map_disc_iff)
  then show "okm_set_tp me v c = None \<longleftrightarrow> \<not> (ctx_map c (key_of me) \<noteq> None \<or> card (dom (ctx_map c)) < OKM_CONTEXTS)"
    by (simp add: ctx_put_def)
  show "contexts_inv c' \<and> ctx_map c' (key_of me) \<noteq> None \<and> okm_get_tp me c' = Some v" if "okm_set_tp me v c = Some c'"
  proof -
    have i: "contexts_inv c'" and m: "ctx_put (key_of me) (\<lambda>(t, s). (v, s)) (ctx_map c) = Some (ctx_map c')" using tp that by auto
    have "ctx_map c' = (ctx_map c)(key_of me \<mapsto> (v, snd (words_of (ctx_map c) (key_of me))))"
      using m by (auto simp: ctx_put_def split: if_splits prod.splits)
    then show ?thesis using i get_tp_ctx [OF i c(2)] by simp
  qed
  show "contexts_inv (okm_set_self me v c) \<and> okm_get_tp me (okm_set_self me v c) = okm_get_tp me c
      \<and> okm_get_self me (okm_set_self me v c) = v" if k: "ctx_map c (key_of me) \<noteq> None"
  proof -
    note s = set_self_ctx [OF c, of v]
    obtain t w where k': "ctx_map c (key_of me) = Some (t, w)" using k by auto
    have m: "ctx_map (okm_set_self me v c) (key_of me) = Some (t, v)" using s k' by (simp add: ctx_put_def words_of_def)
    have i: "contexts_inv (okm_set_self me v c)" using s by blast
    show ?thesis
      unfolding get_tp_ctx [OF i c(2)] get_self_ctx [OF i c(2)] get_tp_ctx [OF c] words_of_def m k' using i by simp
  qed
qed

end
