(* ===== verification/Okm_Fork.thy ===== *)
theory Okm_Fork
  imports Okm_Children Okm_Context Okm_Sockets
begin

text \<open>
  \<open>fork\<close> (port/src/okm_fork.c), composed of a copy of the address space and the identifiers of the children.

  The copy is the state of the original at the moment \<open>kal_space_start\<close> was called, with the environment as
  the copy has it, which the operation answers; \<open>setjmp\<close> and \<open>longjmp\<close> take the copy to the branch that is
  \<open>fork_resumed\<close>. \<open>me\<close> is the identity openkal gives the calling context and \<open>me'\<close> the one it gives
  the context of the copy, which may be another. A state is \<open>None\<close> where the program ends with the message that a context
  has no words of its own, or that there is no room for them.
\<close>

section \<open>The code\<close>

definition fork_resumed ::
  "'e kal \<Rightarrow> kal_uintptr \<Rightarrow> kal_uintptr \<Rightarrow> kal_uintptr \<Rightarrow> int \<Rightarrow> contexts \<Rightarrow> 'e procs \<Rightarrow> ('e procs \<times> contexts) option" where
  "fork_resumed K me' carried_tp carried_self carried_pid c p =
     (case okm_set_tp me' carried_tp c of
        None \<Rightarrow> None
      | Some c1 \<Rightarrow>
          let c2 = okm_set_self me' carried_self c1;
              p1 = okm_set_self_pid carried_pid (okm_forget_children p)
          in Some (p1\<lparr>tbl := okm_unlock K me' (tbl p1)\<rparr>, c2))"

text \<open>The answer to the original, its state, and the copy, where one was made.\<close>

definition okm_fork ::
  "'e kal \<Rightarrow> kal_uintptr \<Rightarrow> kal_uintptr \<Rightarrow> contexts \<Rightarrow> 'e procs
     \<Rightarrow> (int \<times> 'e procs \<times> ('e procs \<times> contexts) option option) option" where
  "okm_fork K me me' c p =
     (case space_start K of
        None \<Rightarrow> Some (- ENOSYS, p, None)
      | Some start \<Rightarrow>
          (case okm_get_tp me c of
             None \<Rightarrow> None
           | Some carried_tp \<Rightarrow>
               (case okm_child_reserve p of
                  (None, p1) \<Rightarrow> Some (- EAGAIN, p1\<lparr>tbl := okm_unlock K me (tbl p1)\<rparr>, None)
                | (Some slot, p1) \<Rightarrow>
                    let reserved_pid = c_pid (g_child p1 slot) in
                    (case start (penv p1) of
                       (Inl e, e1) \<Rightarrow>
                         let p2 = okm_child_release slot (set_penv e1 p1)
                         in Some (- okm_errno e, p2\<lparr>tbl := okm_unlock K me (tbl p2)\<rparr>, None)
                     | (Inr (child, e_copy), e1) \<Rightarrow>
                         (case okm_child_commit K slot child (set_penv e1 p1) of
                            (pid, p2) \<Rightarrow>
                              Some (if 0 < pid then pid else reserved_pid, p2\<lparr>tbl := okm_unlock K me (tbl p2)\<rparr>,
                                    Some (fork_resumed K me' carried_tp (okm_get_self me c) reserved_pid c
                                            (set_penv e_copy p1))))))))"

definition sys_clone ::
  "'e kal \<Rightarrow> kal_uintptr \<Rightarrow> kal_uintptr \<Rightarrow> 64 word \<Rightarrow> kal_uintptr \<Rightarrow> contexts \<Rightarrow> 'e procs
     \<Rightarrow> (int \<times> 'e procs \<times> ('e procs \<times> contexts) option option) option" where
  "sys_clone K me me' flags stack c p =
     (if flags AND NOT 0xff \<noteq> 0 \<or> stack \<noteq> 0 then Some (- ENOSYS, p, None)
      else okm_fork K me me' c p)"

section \<open>What reserving, committing and releasing leave\<close>

lemma reserve_cases:
  obtains "okm_child_reserve p = (None, p)" "\<forall>i < OKM_MAX_CHILD. c_used (g_child p i)"
  | i where "okm_child_reserve p = (Some i, set_child i \<lparr>c_used = True, c_pid = g_next_pid p + 1, c_h = 0, c_job = 0, c_has_job = False\<rparr>
        (p\<lparr>g_next_pid := g_next_pid p + 1\<rparr>))"
    "i < OKM_MAX_CHILD" "\<not> c_used (g_child p i)"
proof (cases "scan_up (\<lambda>i. \<not> c_used (g_child p i)) 0 OKM_MAX_CHILD")
  case None
  then have "\<forall>i < OKM_MAX_CHILD. c_used (g_child p i)" by (simp add: scan_up_None)
  then show ?thesis using that(1) None by (simp add: okm_child_reserve_def)
next
  case (Some i)
  then have "i < OKM_MAX_CHILD" "\<not> c_used (g_child p i)" using scan_upD [OF Some] by auto
  then show ?thesis using that(2) [of i] Some by (simp add: okm_child_reserve_def)
qed

lemma fork_cases:
  assumes "okm_fork K me me' c p = Some (r, p', copy)"
  obtains (absent) "space_start K = None" "r = - ENOSYS" "p' = p" "copy = None"
  | (full) start where "space_start K = Some start" "\<forall>i < OKM_MAX_CHILD. c_used (g_child p i)" "r = - EAGAIN"
      "p' = p\<lparr>tbl := okm_unlock K me (tbl p)\<rparr>" "copy = None"
  | (failed) start e e1 i ch where "space_start K = Some start" "start (penv p) = (Inl e, e1)" "r = - okm_errno e"
      "i < OKM_MAX_CHILD" "\<not> c_used (g_child p i)" "\<not> c_used ch" "g_child p' = (g_child p)(i := ch)"
      "tbl p' = okm_unlock K me ((tbl p)\<lparr>env := e1\<rparr>)" "copy = None"
  | (started) start h e_copy e1 i pid carried_tp where "space_start K = Some start" "start (penv p) = (Inr (h, e_copy), e1)"
      "okm_get_tp me c = Some carried_tp"
      "i < OKM_MAX_CHILD" "\<not> c_used (g_child p i)" "pid = (case named_pid K h e1 of None \<Rightarrow> g_next_pid p + 1 | Some n \<Rightarrow> n)"
      "r = (if 0 < pid then pid else g_next_pid p + 1)"
      "g_child p' = (g_child p)(i := \<lparr>c_used = True, c_pid = pid, c_h = h, c_job = 0, c_has_job = False\<rparr>)"
      "tbl p' = okm_unlock K me ((tbl p)\<lparr>env := e1\<rparr>)"
      "copy = Some (fork_resumed K me' carried_tp (okm_get_self me c) (g_next_pid p + 1) c
         (set_penv e_copy (set_child i \<lparr>c_used = True, c_pid = g_next_pid p + 1, c_h = 0, c_job = 0, c_has_job = False\<rparr>
            (p\<lparr>g_next_pid := g_next_pid p + 1\<rparr>))))"
proof (cases "space_start K")
  case None
  then show ?thesis using assms absent by (simp add: okm_fork_def)
next
  case (Some start)
  obtain tp where tp: "okm_get_tp me c = Some tp" using assms Some by (auto simp: okm_fork_def split: option.splits)
  note unf = assms [unfolded okm_fork_def Some option.case tp]
  show ?thesis
  proof (cases rule: reserve_cases [of p])
    case 1
    then show ?thesis using unf full [OF Some] by simp
  next
    case (2 i)
    let ?new = "\<lparr>c_used = True, c_pid = g_next_pid p + 1, c_h = 0, c_job = 0, c_has_job = False\<rparr>"
    let ?p1 = "set_child i ?new (p\<lparr>g_next_pid := g_next_pid p + 1\<rparr>)"
    obtain x e1 where x: "start (penv p) = (x, e1)" by fastforce
    have env: "penv ?p1 = penv p" by (simp add: set_child_def)
    note unf' = unf [unfolded 2(1) prod.case option.case env x]
    show ?thesis
    proof (cases x)
      case (Inl e)
      show ?thesis
        by (rule failed [OF Some, of e e1 i "?new\<lparr>c_used := False\<rparr>"])
          (use unf' 2 x Inl in \<open>auto simp: okm_child_release_def set_child_def set_penv_def Let_def\<close>)
    next
      case (Inr y)
      obtain h ec where y: "y = (h, ec)" by fastforce
      show ?thesis
        by (rule started [OF Some, of h ec e1 tp i, OF _ _ _ _ refl])
          (use unf' 2 x Inr y tp in \<open>auto simp: okm_child_commit_def set_child_def set_penv_def Let_def split: option.splits\<close>)
    qed
  qed
qed

text \<open>C26: What \<open>fork\<close> leaves in the original. The descriptors are as they were. When no copy was made the children are exactly those there were, so a start that fails keeps no
  entry; the answer is ENOSYS where the environment has no address space to copy, EAGAIN where all 256 entries are in use, and else the environment's error. When a copy was made
  the answer is positive, and a free entry has become a child that has the answer as its identifier and the copy as its program; no other entry has changed.\<close>

theorem fork_original:
  assumes "okm_fork K me me' c p = Some (r, p', copy)" "0 \<le> g_next_pid p"
  shows "g_fd (tbl p') = g_fd (tbl p) \<and> g_desc (tbl p') = g_desc (tbl p)
    \<and> (case copy of
         None \<Rightarrow> (\<forall>i. c_used (g_child p' i) = c_used (g_child p i) \<and> (c_used (g_child p i) \<longrightarrow> g_child p' i = g_child p i))
           \<and> (space_start K = None \<and> r = - ENOSYS
              \<or> space_start K \<noteq> None \<and> (\<forall>i < OKM_MAX_CHILD. c_used (g_child p i)) \<and> r = - EAGAIN
              \<or> (\<exists>start e e1. space_start K = Some start \<and> start (penv p) = (Inl e, e1) \<and> r = - okm_errno e))
       | Some _ \<Rightarrow> 0 < r \<and> (\<exists>i start h e_copy e1. space_start K = Some start \<and> start (penv p) = (Inr (h, e_copy), e1)
           \<and> i < OKM_MAX_CHILD \<and> \<not> c_used (g_child p i)
           \<and> g_child p' = (g_child p)(i := \<lparr>c_used = True, c_pid = r, c_h = h, c_job = 0, c_has_job = False\<rparr>)))"
  using assms(1)
proof (cases rule: fork_cases)
  case (started start h e_copy e1 i pid carried_tp)
  have "0 < pid" using started(6) assms(2) by (auto simp: named_pid_def split: option.splits sum.splits if_splits)
  with started show ?thesis by auto
qed auto

lemma childless_wait:
  assumes "\<forall>k < OKM_MAX_CHILD. \<not> c_used (g_child q k)"
  shows "do_wait4 K pid options q = (Inl (- ECHILD), q)"
proof -
  have "child_index pid q = None" "scan_up (\<lambda>k. c_used (g_child q k)) 0 OKM_MAX_CHILD = None"
    using assms by (simp_all add: child_index_def scan_up_None)
  then show ?thesis by (simp add: do_wait4_def)
qed

text \<open>C25: What the copy begins with. Whatever identity openkal gives its context, the copy has the words of the context that called \<open>fork\<close> (or ends, exactly where its identity is new and
  all 512 entries for contexts are in use); it has the descriptors of the original, in a table that is whole; and it has no children: each way of waiting answers
  ECHILD.\<close>

theorem fork_copy:
  assumes "okm_fork K me me' c p = Some (r, p', Some copy)" "contexts_inv c" "me \<noteq> OKM_RETIRED" "me' \<noteq> OKM_RETIRED"
  shows "(copy = None \<longleftrightarrow> ctx_map c (key_of me') = None \<and> OKM_CONTEXTS \<le> card (dom (ctx_map c)))
    \<and> (\<forall>q c'. copy = Some (q, c') \<longrightarrow>
         contexts_inv c' \<and> okm_get_tp me' c' = okm_get_tp me c \<and> okm_get_self me' c' = okm_get_self me c
         \<and> g_fd (tbl q) = g_fd (tbl p) \<and> g_desc (tbl q) = g_desc (tbl p) \<and> (table_inv (tbl p) \<longrightarrow> table_inv (tbl q))
         \<and> (\<forall>pid options. do_wait4 K pid options q = (Inl (- ECHILD), q)))"
proof -
  obtain tp self pid i ch e n where copy: "copy = fork_resumed K me' tp self pid c (set_penv e (set_child i ch (p\<lparr>g_next_pid := n\<rparr>)))"
    and tp: "okm_get_tp me c = Some tp" "self = okm_get_self me c"
    using assms(1) by (cases rule: fork_cases) auto
  note room = cw.set_tp_room [OF assms(2,4), of tp]
  show ?thesis
  proof (cases "okm_set_tp me' tp c")
    case None
    then show ?thesis using room by (simp add: copy fork_resumed_def not_less del: not_None_eq)
  next
    case (Some c1)
    note words = cw.take_over [OF assms(2,4) Some, of self]
    show ?thesis
      using room words tp
      by (auto simp: copy fork_resumed_def Some Let_def okm_set_self_pid_def okm_forget_children_def set_penv_def set_child_def
          intro!: childless_wait okm_unlock_inv)
  qed
qed

text \<open>What \<open>getpid\<close> relies on: the program the copy finds itself to be has the identifier the original was told for it, where the
  environment gives identifiers at all.\<close>

definition names_alike :: "'e kal \<Rightarrow> kal_process \<Rightarrow> 'e \<Rightarrow> 'e \<Rightarrow> bool" where
  "names_alike K h e_original e_copy \<longleftrightarrow> process_info K = None
     \<or> (\<exists>self_of me e. process_self K = Some self_of \<and> self_of e_copy = (Inr me, e) \<and> named_pid K me e = named_pid K h e_original)"

text \<open>The original and the copy agree on who the copy is: the number \<open>fork\<close> answers in the original is the number \<open>getpid\<close>
  answers in the copy, be it the one the environment gives or, where it gives none, the one reserved before the copy was made.\<close>

theorem fork_names_agree:
  assumes "okm_fork K me me' c p = Some (r, p', Some (Some (q, c')))" "0 \<le> g_next_pid p"
    and "space_start K = Some start" "start (penv p) = (Inr (h, e_copy), e1)" "names_alike K h e1 (penv q)"
  shows "fst (okm_self_pid K q) = r"
  using assms(1)
proof (cases rule: fork_cases)
  case (started start' h' e_copy' e1' i pid carried_tp)
  have same: "h' = h" "e1' = e1" using started(1,2) assms(3,4) by auto
  have pid: "r = (case named_pid K h e1 of None \<Rightarrow> g_next_pid p + 1 | Some n \<Rightarrow> n)"
    using started(6,7) assms(2) by (auto simp: same named_pid_def split: option.splits sum.splits if_splits)
  have q: "g_self_pid q = 0" "g_told_pid q = g_next_pid p + 1"
    using started(10) by (auto simp: fork_resumed_def Let_def okm_set_self_pid_def split: option.splits)
  show ?thesis
  proof (cases "process_info K")
    case None
    then have "named_pid K h e1 = None" by (simp add: named_pid_def)
    then show ?thesis using None q pid by (simp add: okm_self_pid_def split: option.splits)
  next
    case (Some ask)
    then obtain self_of me e where s: "process_self K = Some self_of" "self_of (penv q) = (Inr me, e)"
      "named_pid K me e = named_pid K h e1"
      using assms(5) by (auto simp: names_alike_def)
    then show ?thesis using Some q pid by (simp add: okm_self_pid_def split: option.splits)
  qed
qed auto

text \<open>An environment that is the program it runs, where the copy is program 10; the context that forks is one of the two recorded.\<close>

definition fork_kal :: "kal_process kal" where
  "fork_kal = bare_kal\<lparr>space_start := Some (\<lambda>e. (Inr (10, 10), e)), process_self := Some (\<lambda>e. (Inr e, e)),
     process_info := Some (\<lambda>h e. Inr \<lparr>info_id = Some (unat h), info_cpu_ns = None, info_peak = None, info_ended = None\<rparr>)\<rparr>"

abbreviation fork_state :: "kal_process procs" where
  "fork_state \<equiv> first_procs (okm_table_init_memory (zero_okm 9))"

lemma fork_state_env: "penv fork_state = 9" "g_settling (tbl fork_state) = []" "g_next_pid fork_state = 1000"
  by (simp_all add: first_procs_def okm_table_init_memory_def zero_okm_def)

lemma two_contexts_inv: "contexts_inv two_contexts"
  by (rule cx.reachable_inv [OF _ two_contexts_reached]) (simp add: contexts_init_def no_contexts_def)

lemma fork_sample: "\<exists>p' q c'. okm_fork fork_kal 57 99 two_contexts fork_state = Some (10, p', Some (Some (q, c'))) \<and> penv q = 10"
proof -
  have tp: "okm_get_tp 57 two_contexts = Some 10" by code_simp
  have "okm_set_tp 99 10 two_contexts \<noteq> None" by code_simp
  then obtain c1 where c1: "okm_set_tp 99 10 two_contexts = Some c1" by blast
  show ?thesis
  proof (cases rule: reserve_cases [of fork_state])
    case 1
    then have "c_used (g_child fork_state 0)" by simp
    then show ?thesis by (simp add: first_procs_def zero_child_def)
  next
    case (2 i)
    have n: "named_pid fork_kal 10 e = Some 10" for e by (simp add: named_pid_def fork_kal_def)
    have st: "space_start fork_kal = Some (\<lambda>e. (Inr (10, 10), e))" by (simp add: fork_kal_def)
    show ?thesis
      unfolding okm_fork_def st 2(1) using 2(2) c1
      by (simp add: tp Let_def okm_child_commit_def n fork_resumed_def okm_set_self_pid_def okm_forget_children_def
          okm_unlock_def fork_state_env set_penv_def set_child_def)
  qed
qed

theorem fork_original_witness:
  "\<exists>p' copy. okm_fork fork_kal 57 99 two_contexts fork_state = Some (10, p', Some copy)
     \<and> (\<exists>i. \<not> c_used (g_child fork_state i) \<and> c_used (g_child p' i) \<and> c_h (g_child p' i) = 10)"
proof -
  obtain p' q c' where f: "okm_fork fork_kal 57 99 two_contexts fork_state = Some (10, p', Some (Some (q, c')))"
    using fork_sample by blast
  have "0 \<le> g_next_pid fork_state" by (simp add: fork_state_env)
  from fork_original [OF f this] obtain i h where "\<not> c_used (g_child fork_state i)"
    "g_child p' = (g_child fork_state)(i := \<lparr>c_used = True, c_pid = 10, c_h = h, c_job = 0, c_has_job = False\<rparr>)" "h = 10"
    by (auto simp: fork_kal_def)
  then show ?thesis using f by (intro exI [of _ p'] exI [of _ "Some (q, c')"] conjI exI [of _ i]) simp_all
qed

theorem fork_copy_witness:
  "\<exists>p' q c'. okm_fork fork_kal 57 99 two_contexts fork_state = Some (10, p', Some (Some (q, c')))
     \<and> okm_get_tp 99 c' = Some 10 \<and> do_wait4 fork_kal (-1) 0 q = (Inl (- ECHILD), q)"
proof -
  obtain p' q c' where f: "okm_fork fork_kal 57 99 two_contexts fork_state = Some (10, p', Some (Some (q, c')))"
    using fork_sample by blast
  have tp: "okm_get_tp 57 two_contexts = Some 10" by code_simp
  from fork_copy [OF f two_contexts_inv] tp f show ?thesis by fastforce
qed

theorem fork_names_agree_witness:
  "\<exists>p' q c'. okm_fork fork_kal 57 99 two_contexts fork_state = Some (10, p', Some (Some (q, c')))
     \<and> fst (okm_self_pid fork_kal q) = 10"
proof -
  obtain p' q c' where f: "okm_fork fork_kal 57 99 two_contexts fork_state = Some (10, p', Some (Some (q, c')))" "penv q = 10"
    using fork_sample by blast
  have "names_alike fork_kal 10 9 (penv q)" unfolding f(2) by (simp add: names_alike_def named_pid_def fork_kal_def)
  from fork_names_agree [OF f(1), of "\<lambda>e. (Inr (10, 10), e)" 10 10 9] this f(1)
  show ?thesis by (auto simp: fork_state_env fork_kal_def)
qed

end
