(* ===== verification/Okm_Msg.thy ===== *)
theory Okm_Msg
  imports Okm_Sockets
begin

text \<open>
  \<open>sendmsg\<close> and \<open>recvmsg\<close> (port/src/okm_syscall.c): several buffers of one socket. A buffer of \<open>msg_iov\<close> is the
  bytes it holds; of one that receives only the length is read, and what is received is answered as the bytes in order.
\<close>

section \<open>The code\<close>

record msghdr =
  msg_name :: "memory option"
  msg_namelen :: nat
  msg_iov :: "byte list list"
  msg_controllen :: nat
  msg_flags :: int

definition sock_type_of :: "int \<Rightarrow> 'e okm \<Rightarrow> int" where
  "sock_type_of fd s =
     (case okm_sock_getopt fd SOL_SOCKET SO_TYPE True (Some 4) s of
        (r, v, _) \<Rightarrow> if r < 0 then -1 else (case v of Opt_int t \<Rightarrow> t | _ \<Rightarrow> 0))"

text \<open>The occupied entry of a message that is sent or received whole: how many there are, and the last.\<close>

fun occupied :: "byte list list \<Rightarrow> nat \<Rightarrow> byte list \<Rightarrow> nat \<times> byte list" where
  "occupied [] used v = (used, v)"
| "occupied (x # xs) used v = (if length x \<noteq> 0 then occupied xs (used + 1) x else occupied xs used v)"

definition send_one :: "'e kal \<Rightarrow> int \<Rightarrow> flagword \<Rightarrow> byte list \<Rightarrow> nat \<Rightarrow> 'e okm \<Rightarrow> (int + nat \<times> byte list) \<times> 'e okm" where
  "send_one K fd flags v sofar s =
     (case okm_sock_send K fd v flags None 0 s of (r, s') \<Rightarrow> (map_sum id (\<lambda>n. (n, [])) r, s'))"

definition recv_one :: "'e kal \<Rightarrow> int \<Rightarrow> flagword \<Rightarrow> byte list \<Rightarrow> nat \<Rightarrow> 'e okm \<Rightarrow> (int + nat \<times> byte list) \<times> 'e okm" where
  "recv_one K fd flags v sofar s =
     (case okm_sock_recv K fd (length v) flags None None s of (r, _, _, s') \<Rightarrow> (map_sum id (\<lambda>bs. (length bs, bs)) r, s'))"

definition sys_sendmsg :: "'e kal \<Rightarrow> int \<Rightarrow> msghdr option \<Rightarrow> flagword \<Rightarrow> 'e okm \<Rightarrow> (int + nat) \<times> 'e okm" where
  "sys_sendmsg K fd m flags s =
     (case m of
        None \<Rightarrow> (Inl (- EFAULT), s)
      | Some h \<Rightarrow>
          if msg_controllen h \<noteq> 0 then (Inl (- ENOSYS), s)
          else
            let t = sock_type_of fd s in
            if t < 0 then (Inl (- ENOTSOCK), s)
            else if t = SOCK_DGRAM then
              (case occupied (msg_iov h) 0 [] of
                 (used, v) \<Rightarrow>
                   if 1 < used then (Inl (- ENOSYS), s)
                   else okm_sock_send K fd v flags (msg_name h) (msg_namelen h) s)
            else
              (case vec_loop (send_one K fd flags) (msg_iov h) 0 [] s of (r, s') \<Rightarrow> (map_sum id fst r, s')))"

definition sys_recvmsg ::
  "'e kal \<Rightarrow> int \<Rightarrow> msghdr option \<Rightarrow> flagword \<Rightarrow> 'e okm \<Rightarrow> (int + byte list) \<times> msghdr option \<times> 'e okm" where
  "sys_recvmsg K fd m flags s =
     (case m of
        None \<Rightarrow> (Inl (- EFAULT), m, s)
      | Some h \<Rightarrow>
          if msg_controllen h \<noteq> 0 then (Inl (- ENOSYS), m, s)
          else
            let h = h\<lparr>msg_flags := 0\<rparr>; t = sock_type_of fd s in
            if t < 0 then (Inl (- ENOTSOCK), Some h, s)
            else if t = SOCK_DGRAM then
              (case occupied (msg_iov h) 0 [] of
                 (used, v) \<Rightarrow>
                   if 1 < used then (Inl (- ENOSYS), Some h, s)
                   else (case okm_sock_recv K fd (length v) flags (msg_name h) (Some (msg_namelen h)) s of
                           (r, name', len', s') \<Rightarrow>
                             (r, Some (h\<lparr>msg_name := name', msg_namelen := (case len' of None \<Rightarrow> msg_namelen h | Some n \<Rightarrow> n)\<rparr>), s')))
            else
              let h = (if msg_name h \<noteq> None then h\<lparr>msg_namelen := 0\<rparr> else h) in
              (case vec_loop (recv_one K fd flags) (msg_iov h) 0 [] s of (r, s') \<Rightarrow> (map_sum id snd r, Some h, s')))"

section \<open>What is sent is a beginning of the buffers, in order\<close>

text \<open>What the environment promises of a stream that is written to: a write takes a beginning of what it is given, says how long a one, and puts it after what was
  written before; one that fails takes nothing.\<close>

definition takes_output :: "(kal_stream \<Rightarrow> 'e \<Rightarrow> byte list) \<Rightarrow> kal_stream \<Rightarrow> byte list \<Rightarrow> 'e \<Rightarrow> (kal_error + nat) \<times> 'e \<Rightarrow> bool" where
  "takes_output output st bs e r \<longleftrightarrow>
     (case r of
        (Inl _, e') \<Rightarrow> output st e' = output st e
      | (Inr n, e') \<Rightarrow> n \<le> length bs \<and> output st e' = output st e @ take n bs)"

definition ordered_output :: "'e kal \<Rightarrow> (kal_stream \<Rightarrow> 'e \<Rightarrow> byte list) \<Rightarrow> bool" where
  "ordered_output K output \<longleftrightarrow>
     (\<forall>st bs e. takes_output output st bs e (stream_write K st bs e))
   \<and> (\<forall>T st bs ns e. K_timeout K = Some T \<longrightarrow> takes_output output st bs e (timeout_write T st bs ns e))"

lemma sock_of_env [simp]: "sock_of fd (s\<lparr>env := e\<rparr>) = sock_of fd s"
  by (simp add: sock_of_def slot_of_def okm_desc_of_def split: option.splits)

text \<open>\<open>v\<close> was offered to the stream, and \<open>r\<close> is how much of it was taken.\<close>

definition sent :: "(kal_stream \<Rightarrow> 'e \<Rightarrow> byte list) \<Rightarrow> kal_stream \<Rightarrow> byte list \<Rightarrow> 'e okm \<Rightarrow> (int + nat) \<times> 'e okm \<Rightarrow> bool" where
  "sent output st v s rt \<longleftrightarrow>
     (case rt of (r, t) \<Rightarrow> \<exists>e'. t = s\<lparr>env := e'\<rparr> \<and> (case r of
        Inl _ \<Rightarrow> output st e' = output st (env s)
      | Inr n \<Rightarrow> n \<le> length v \<and> output st e' = output st (env s) @ take n v))"

lemma sentI:
  assumes "case r of Inl _ \<Rightarrow> output st e' = output st (env s) | Inr n \<Rightarrow> n \<le> length v \<and> output st e' = output st (env s) @ take n v"
  shows "sent output st v s (r, s\<lparr>env := e'\<rparr>)"
  unfolding sent_def prod.case using assms by (intro exI [of _ e'] conjI refl)

lemma sent_refused: "sent output st v s (Inl e, s)"
  by (auto simp: sent_def intro: exI [of _ "env s"])

lemma sent_write:
  assumes "ordered_output K output"
  shows "sent output st v s (plain_write K st v s)" "sent output st v s (okm_timed_write K st v ns s)"
proof -
  have "takes_output output st v (env s) (stream_write K st v (env s))" using assms by (simp add: ordered_output_def)
  then show "sent output st v s (plain_write K st v s)"
    by (cases "stream_write K st v (env s)"; cases "fst (stream_write K st v (env s))") (simp_all add: plain_write_def takes_output_def sentI)
  have tw: "takes_output output st v (env s) (timeout_write T st v ns (env s))" if "K_timeout K = Some T" for T
    using assms that by (simp add: ordered_output_def)
  show "sent output st v s (okm_timed_write K st v ns s)"
  proof (cases "K_timeout K")
    case None
    then show ?thesis by (simp add: okm_timed_write_def sent_refused)
  next
    case (Some T)
    have "sent output st v s (Inr 0, s)" for v by (auto simp: sent_def intro: exI [of _ "env s"])
    then show ?thesis using tw [OF Some]
      by (cases "timeout_write T st v ns (env s)"; cases "fst (timeout_write T st v ns (env s))")
        (simp_all add: okm_timed_write_def Some takes_output_def sentI)
  qed
qed

lemma stream_send:
  assumes "ordered_output K output" "sock_of fd s = Inr (d, k)" "s_type (g_sock s k) \<noteq> SOCK_DGRAM"
  shows "sent output (d_stream (g_desc s d)) v s (okm_sock_send K fd v flags None 0 s)"
  using assms(2,3) sent_write [OF assms(1)] by (simp add: okm_sock_send_def Let_def sent_refused)

lemma send_loop:
  assumes "ordered_output K output" "sock_of fd s = Inr (d, k)" "s_type (g_sock s k) \<noteq> SOCK_DGRAM"
    and "vec_loop (send_one K fd flags) vs sofar out s = (r, t)"
  shows "\<exists>n. n \<le> length (concat vs) \<and> output (d_stream (g_desc s d)) (env t) = output (d_stream (g_desc s d)) (env s) @ take n (concat vs)
    \<and> (case r of Inl _ \<Rightarrow> sofar = 0 \<and> n = 0 | Inr (m, _) \<Rightarrow> m = sofar + n)"
  using assms(2-4)
proof (induction vs arbitrary: sofar out s)
  case Nil
  then show ?case by auto
next
  case (Cons v vs)
  let ?st = "d_stream (g_desc s d)"
  show ?case
  proof (cases "v = []")
    case True
    then show ?thesis using Cons.IH [OF Cons.prems(1,2)] Cons.prems(3) by simp
  next
    case False
    obtain q u where q: "okm_sock_send K fd v flags None 0 s = (q, u)" by fastforce
    have one: "send_one K fd flags v sofar s = (map_sum id (\<lambda>n. (n, [])) q, u)" by (simp add: send_one_def q)
    obtain e' where u: "u = s\<lparr>env := e'\<rparr>"
      and o: "case q of Inl _ \<Rightarrow> output ?st e' = output ?st (env s) | Inr n \<Rightarrow> n \<le> length v \<and> output ?st e' = output ?st (env s) @ take n v"
      using stream_send [OF assms(1) Cons.prems(1,2), of v flags] by (auto simp: q sent_def)
    show ?thesis
    proof (cases q)
      case (Inl e)
      have t: "t = u" "r = (if sofar = 0 then Inl e else Inr (sofar, out))"
        using Cons.prems(3) False by (simp_all add: one Inl)
      show ?thesis using o u by (intro exI [of _ 0]) (simp add: t Inl)
    next
      case (Inr n)
      have o': "n \<le> length v" "output ?st e' = output ?st (env s) @ take n v" using o Inr by simp_all
      show ?thesis
      proof (cases "n < length v")
        case True
        have t: "t = u" "r = Inr (sofar + n, out)" using Cons.prems(3) False True by (simp_all add: one Inr)
        show ?thesis using o' u True by (intro exI [of _ n]) (simp add: t)
      next
        case short: False
        then have n: "n = length v" using o'(1) by simp
        have l: "vec_loop (send_one K fd flags) vs (sofar + n) out u = (r, t)"
          using Cons.prems(3) False short by (simp add: one Inr)
        have "sock_of fd u = Inr (d, k)" "s_type (g_sock u k) \<noteq> SOCK_DGRAM" using Cons.prems(1,2) u by simp_all
        from Cons.IH [OF this l] obtain n' where "n' \<le> length (concat vs)"
          "output ?st (env t) = output ?st e' @ take n' (concat vs)" "case r of Inl _ \<Rightarrow> sofar + n = 0 \<and> n' = 0 | Inr (m, _) \<Rightarrow> m = sofar + n + n'"
          by (auto simp: u)
        then show ?thesis using o'(2) n False
          by (intro exI [of _ "n + n'"]) (auto split: sum.splits)
      qed
    qed
  qed
qed

text \<open>C34: What \<open>sendmsg\<close> sends over a connection. The environment has received a beginning of the buffers, one after the other, and nothing else; when a count is answered it is the
  length of that beginning, whether a buffer was taken in part or a later one failed; and when an error is answered nothing was
  sent, so that no byte is sent of which the caller is not told.\<close>

theorem sendmsg_in_order:
  assumes "ordered_output K output" "sock_of fd s = Inr (d, k)" "s_type (g_sock s k) = SOCK_STREAM" "msg_controllen h = 0"
    and "sys_sendmsg K fd (Some h) flags s = (r, t)"
  shows "\<exists>n. n \<le> length (concat (msg_iov h)) \<and> r \<in> insert (Inr n) (range Inl) \<and> ((\<exists>e. r = Inl e) \<longrightarrow> n = 0)
    \<and> output (d_stream (g_desc s d)) (env t) = output (d_stream (g_desc s d)) (env s) @ take n (concat (msg_iov h))"
proof -
  have ty: "sock_type_of fd s = SOCK_STREAM" using assms(2,3) by (simp add: sock_type_of_def okm_sock_getopt_def Let_def)
  obtain q where l: "vec_loop (send_one K fd flags) (msg_iov h) 0 [] s = (q, t)" "r = map_sum id fst q"
    using assms(4,5) by (auto simp: sys_sendmsg_def ty Let_def split: prod.splits)
  have "s_type (g_sock s k) \<noteq> SOCK_DGRAM" using assms(3) by simp
  from send_loop [OF assms(1,2) this l(1)] obtain n where
    "n \<le> length (concat (msg_iov h))" "output (d_stream (g_desc s d)) (env t) = output (d_stream (g_desc s d)) (env s) @ take n (concat (msg_iov h))"
    "case q of Inl _ \<Rightarrow> 0 = (0 :: nat) \<and> n = 0 | Inr (m, _) \<Rightarrow> m = 0 + n" by blast
  then show ?thesis using l(2) by (intro exI [of _ n]) (auto split: sum.splits)
qed

text \<open>A connection on descriptor 0 that takes at most three bytes at a time, in an environment that is what it has received.\<close>

definition msg_kal :: "byte list kal" where
  "msg_kal = bare_kal\<lparr>stream_write := (\<lambda>st bs e. (Inr (min 3 (length bs)), e @ take 3 bs))\<rparr>"

definition msg_table :: "byte list okm" where
  "msg_table = set_sock 0 connection (set_desc 0 ((bound_desc OKM_SOCKET 105 0 0 O_RDWR zero_desc)\<lparr>d_sock := 0\<rparr>)
     (snd (okm_fd_bind msg_kal 1 0 OKM_SOCKET 105 0 0 O_RDWR (okm_table_init_memory (zero_okm [])))))"

lemma msg_table_facts:
  "sock_of 0 msg_table = Inr (0, 0)" "g_sock msg_table 0 = connection" "d_stream (g_desc msg_table 0) = 105" "env msg_table = []"
  "d_flags (g_desc msg_table 0) = O_RDWR"
  unfolding msg_table_def bind_first
  by (auto simp: okm_table_init_memory_def zero_okm_def has_def sock_of_def slot_of_def okm_desc_of_def fd_in_range_def bound_desc_def)

lemma msg_send:
  assumes "sock_of 0 s = Inr (0, 0)" "g_sock s 0 = connection" "d_flags (g_desc s 0) = O_RDWR"
  shows "okm_sock_send msg_kal 0 v 0 None 0 s = (Inr (min 3 (length v)), s\<lparr>env := env s @ take 3 v\<rparr>)"
  using assms by (simp add: okm_sock_send_def connection_def zero_sock_def bound_of_def has_def plain_write_def Let_def) (simp add: msg_kal_def)

theorem sendmsg_in_order_witness:
  "\<exists>t. sys_sendmsg msg_kal 0 (Some \<lparr>msg_name = None, msg_namelen = 0, msg_iov = [[1, 2], [], [3, 4, 5, 6]], msg_controllen = 0, msg_flags = 0\<rparr>) 0 msg_table
       = (Inr 5, t) \<and> env t = [1, 2, 3, 4, 5]"
proof -
  let ?h = "\<lparr>msg_name = None, msg_namelen = 0, msg_iov = [[1, 2], [], [3, 4, 5, 6]], msg_controllen = 0, msg_flags = 0\<rparr> :: msghdr"
  have oo: "ordered_output msg_kal (\<lambda>_ e. e)"
    by (auto simp: ordered_output_def takes_output_def msg_kal_def bare_kal_def min_def)
  have ty: "s_type (g_sock msg_table 0) = SOCK_STREAM" by (simp add: msg_table_facts connection_def)
  have st: "sock_type_of 0 msg_table = SOCK_STREAM"
    by (simp add: sock_type_of_def okm_sock_getopt_def msg_table_facts connection_def Let_def)
  have "\<exists>t. sys_sendmsg msg_kal 0 (Some ?h) 0 msg_table = (Inr 5, t)"
    by (simp add: sys_sendmsg_def st send_one_def msg_send msg_table_facts)
  then obtain t where t: "sys_sendmsg msg_kal 0 (Some ?h) 0 msg_table = (Inr 5, t)" ..
  have c: "msg_controllen ?h = 0" by simp
  from sendmsg_in_order [OF oo msg_table_facts(1) ty c t] show ?thesis using t by (auto simp: msg_table_facts)
qed

end
