(* ===== verification/Okm_Thread.thy ===== *)
theory Okm_Thread
  imports Okm_Context Okm_Kal
begin

text \<open>
  Threads (port/src/okm_thread.c): the records of the contexts a program has created, from \<open>__clone\<close> to the
  \<open>reap\<close> that frees them; the suspension primitive \<open>__okm_futex\<close>; and musl's timed wait above it
  (musl/src/thread/__timedwait.c).

  Contexts run at once, so the life of the records is a step relation: what is done while the lock is held is one step, and each thing
  \<open>entry\<close> does is one. The counter of identities is bounded by the number of threads created and its overflow is
  not modelled. \<open>openkal.task\<close> is the argument \<open>T\<close> where its answers matter.
\<close>

section \<open>The records\<close>

text \<open>Where a context is in \<open>entry\<close>: in the program's function; after the word its creator waits upon was cleared; after
  \<open>finished\<close> was set; after its words were withdrawn; and when it has returned, which is when a join returns.\<close>

datatype entry_at = E_none | E_running | E_cleared | E_finished | E_withdrawn | E_ended

text \<open>What has become of a record: not allocated; allocated by \<open>__clone\<close>; its identity chosen; its context started; on the list; taken off
  it by \<open>reap\<close>.\<close>

datatype record_at = R_free | R_made | R_named | R_started | R_listed | R_taken

type_synonym thread = kal_uintptr

record threads =
  t_at :: "thread \<Rightarrow> entry_at"
  t_rec :: "thread \<Rightarrow> record_at"
  t_tid :: "thread \<Rightarrow> int"
  okm_done :: "thread list"
  g_tid :: int

definition finished :: "threads \<Rightarrow> thread \<Rightarrow> bool" where
  "finished s t \<longleftrightarrow> t_at s t \<in> {E_finished, E_withdrawn, E_ended}"

text \<open>What \<open>entry\<close> does next.\<close>

fun entry_next :: "entry_at \<Rightarrow> entry_at option" where
  "entry_next E_running = Some E_cleared"
| "entry_next E_cleared = Some E_finished"
| "entry_next E_finished = Some E_withdrawn"
| "entry_next E_withdrawn = Some E_ended"
| "entry_next _ = None"

text \<open>The first of the list that has finished, and the list without it.\<close>

fun take_finished :: "(thread \<Rightarrow> bool) \<Rightarrow> thread list \<Rightarrow> (thread \<times> thread list) option" where
  "take_finished fin [] = None"
| "take_finished fin (t # ts) =
     (if \<not> fin t then map_option (\<lambda>(u, rest). (u, t # rest)) (take_finished fin ts) else Some (t, ts))"

definition reap_take :: "threads \<Rightarrow> (thread \<times> threads) option" where
  "reap_take s =
     (case take_finished (finished s) (okm_done s) of
        None \<Rightarrow> None
      | Some (t, rest) \<Rightarrow> Some (t, s\<lparr>okm_done := rest, t_rec := (t_rec s)(t := R_taken)\<rparr>))"

definition reap_free :: "thread \<Rightarrow> threads \<Rightarrow> threads" where
  "reap_free t s = s\<lparr>t_rec := (t_rec s)(t := R_free)\<rparr>"

inductive thread_step :: "threads \<Rightarrow> threads \<Rightarrow> bool" where
  make: "t_rec s t = R_free \<Longrightarrow>
    thread_step s (s\<lparr>t_rec := (t_rec s)(t := R_made), t_at := (t_at s)(t := E_none), t_tid := (t_tid s)(t := 0)\<rparr>)"
| name: "t_rec s t = R_made \<Longrightarrow>
    thread_step s (s\<lparr>t_rec := (t_rec s)(t := R_named), t_tid := (t_tid s)(t := g_tid s + 1), g_tid := g_tid s + 1\<rparr>)"
| start_fails: "t_rec s t = R_named \<Longrightarrow> thread_step s (s\<lparr>t_rec := (t_rec s)(t := R_free)\<rparr>)"
| start: "t_rec s t = R_named \<Longrightarrow>
    thread_step s (s\<lparr>t_rec := (t_rec s)(t := R_started), t_at := (t_at s)(t := E_running)\<rparr>)"
| enlist: "t_rec s t = R_started \<Longrightarrow>
    thread_step s (s\<lparr>t_rec := (t_rec s)(t := R_listed), okm_done := t # okm_done s\<rparr>)"
| entry: "entry_next (t_at s t) = Some a \<Longrightarrow> thread_step s (s\<lparr>t_at := (t_at s)(t := a)\<rparr>)"
| take_one: "reap_take s = Some (t, s') \<Longrightarrow> thread_step s s'"
| free_one: "t_rec s t = R_taken \<Longrightarrow> t_at s t = E_ended \<Longrightarrow> thread_step s (reap_free t s)"

definition threads_init :: "threads \<Rightarrow> bool" where
  "threads_init s \<longleftrightarrow> t_rec s = (\<lambda>_. R_free) \<and> t_at s = (\<lambda>_. E_none) \<and> okm_done s = [] \<and> g_tid s = 1"

section \<open>A record outlives its context\<close>

text \<open>A context that has not ended has its record; a record taken off the list is that of a context that has finished; what is on the list
  is on it once; and identities are given once.\<close>

definition life_ok :: "entry_at \<Rightarrow> record_at \<Rightarrow> bool" where
  "life_ok a r \<longleftrightarrow> (a \<notin> {E_none, E_ended} \<longrightarrow> r \<in> {R_started, R_listed, R_taken})
     \<and> (r = R_taken \<longrightarrow> a \<in> {E_finished, E_withdrawn, E_ended}) \<and> (r \<in> {R_started, R_listed} \<longrightarrow> a \<noteq> E_none)"

definition list_ok :: "thread list \<Rightarrow> (thread \<Rightarrow> record_at) \<Rightarrow> bool" where
  "list_ok ts r \<longleftrightarrow> distinct ts \<and> (\<forall>t. t \<in> set ts \<longleftrightarrow> r t = R_listed)"

definition tids_ok :: "(thread \<Rightarrow> record_at) \<Rightarrow> (thread \<Rightarrow> int) \<Rightarrow> int \<Rightarrow> bool" where
  "tids_ok r tid highest \<longleftrightarrow> (\<forall>t. r t \<notin> {R_free, R_made} \<longrightarrow> tid t \<le> highest)
     \<and> (\<forall>t u. r t \<notin> {R_free, R_made} \<longrightarrow> r u \<notin> {R_free, R_made} \<longrightarrow> tid t = tid u \<longrightarrow> t = u)"

definition threads_inv :: "threads \<Rightarrow> bool" where
  "threads_inv s \<longleftrightarrow> (\<forall>t. life_ok (t_at s t) (t_rec s t)) \<and> list_ok (okm_done s) (t_rec s) \<and> tids_ok (t_rec s) (t_tid s) (g_tid s)"

lemma life_ok_next: "life_ok a r \<Longrightarrow> entry_next a = Some b \<Longrightarrow> life_ok b r"
  by (cases a) (auto simp: life_ok_def)

lemma list_ok_upd: "list_ok ts r \<Longrightarrow> r t \<noteq> R_listed \<Longrightarrow> x \<noteq> R_listed \<Longrightarrow> list_ok ts (r(t := x))"
  by (auto simp: list_ok_def)

lemma list_ok_remove:
  assumes "list_ok (xs @ t # ys) r" "x \<noteq> R_listed"
  shows "list_ok (xs @ ys) (r(t := x))"
proof -
  have d: "distinct (xs @ t # ys)" and l: "\<And>u. r u = R_listed \<longleftrightarrow> u \<in> set (xs @ t # ys)" using assms(1) by (auto simp: list_ok_def)
  have "u \<in> set (xs @ ys) \<longleftrightarrow> (r(t := x)) u = R_listed" for u using d l [of u] assms(2) by (cases "u = t") auto
  then show ?thesis using d by (simp add: list_ok_def)
qed

lemma tids_ok_drop: "tids_ok r tid highest \<Longrightarrow> x \<in> {R_free, R_made} \<Longrightarrow> tids_ok (r(t := x)) (tid(t := n)) highest"
  by (auto simp: tids_ok_def)

lemma tids_ok_free: "tids_ok r tid highest \<Longrightarrow> tids_ok (r(t := R_free)) tid highest"
  by (auto simp: tids_ok_def)

lemma tids_ok_keep: "tids_ok r tid highest \<Longrightarrow> r t \<notin> {R_free, R_made} \<Longrightarrow> tids_ok (r(t := x)) tid highest"
  unfolding tids_ok_def fun_upd_apply by metis

lemma tids_ok_name: "tids_ok r tid highest \<Longrightarrow> tids_ok (r(t := x)) (tid(t := highest + 1)) (highest + 1)"
  unfolding tids_ok_def by (auto simp: le_Suc_eq)

lemma take_finished_Some:
  "take_finished fin ts = Some (t, rest) \<Longrightarrow> \<exists>xs ys. ts = xs @ t # ys \<and> rest = xs @ ys \<and> fin t \<and> (\<forall>x \<in> set xs. \<not> fin x)"
proof (induction ts arbitrary: t rest)
  case (Cons a ts)
  show ?case
  proof (cases "fin a")
    case True
    then show ?thesis using Cons.prems by (intro exI [of _ "[]"] exI [of _ ts]) simp
  next
    case False
    then obtain r where r: "take_finished fin ts = Some (t, r)" "rest = a # r" using Cons.prems by auto
    from Cons.IH [OF r(1)] obtain xs ys where "ts = xs @ t # ys" "r = xs @ ys" "fin t" "\<forall>x \<in> set xs. \<not> fin x" by blast
    then show ?thesis using r(2) False by (intro exI [of _ "a # xs"] exI [of _ ys]) simp
  qed
qed simp

lemma take_finished_None: "take_finished fin ts = None \<longleftrightarrow> (\<forall>t \<in> set ts. \<not> fin t)"
  by (induction ts) auto

lemma thread_step_inv:
  assumes "thread_step s s'" "threads_inv s"
  shows "threads_inv s'"
proof -
  have life: "\<And>t. life_ok (t_at s t) (t_rec s t)" and lst: "list_ok (okm_done s) (t_rec s)" and tids: "tids_ok (t_rec s) (t_tid s) (g_tid s)"
    using assms(2) by (simp_all add: threads_inv_def)
  show ?thesis
    using assms(1)
  proof cases
    case (make t)
    with life list_ok_upd [OF lst, of t R_made] tids_ok_drop [OF tids, of R_made t 0]
    show ?thesis by (auto simp: threads_inv_def life_ok_def)
  next
    case (name t)
    with life list_ok_upd [OF lst, of t R_named] tids_ok_name [OF tids, of t R_named]
    show ?thesis using life [of t] by (auto simp: threads_inv_def life_ok_def)
  next
    case (start_fails t)
    with life list_ok_upd [OF lst, of t R_free] tids_ok_free [OF tids, of t]
    show ?thesis using life [of t] by (auto simp: threads_inv_def life_ok_def)
  next
    case (start t)
    with life list_ok_upd [OF lst, of t R_started] tids_ok_keep [OF tids, of t R_started]
    show ?thesis by (auto simp: threads_inv_def life_ok_def)
  next
    case (enlist t)
    have "list_ok (t # okm_done s) ((t_rec s)(t := R_listed))" using lst enlist(2) by (auto simp: list_ok_def)
    with life tids_ok_keep [OF tids, of t R_listed] enlist
    show ?thesis using life [of t] by (auto simp: threads_inv_def life_ok_def)
  next
    case (entry t a)
    then show ?thesis using life life_ok_next [OF life, of t a] lst tids by (simp add: threads_inv_def)
  next
    case (take_one t)
    then obtain rest where r: "take_finished (finished s) (okm_done s) = Some (t, rest)"
      "s' = s\<lparr>okm_done := rest, t_rec := (t_rec s)(t := R_taken)\<rparr>"
      by (auto simp: reap_take_def split: option.splits)
    from take_finished_Some [OF r(1)] obtain xs ys where x: "okm_done s = xs @ t # ys" "rest = xs @ ys" "finished s t" by blast
    have l: "list_ok rest ((t_rec s)(t := R_taken))" by (rule list_ok_remove [OF lst [unfolded x(1)], folded x(2)]) simp
    have "t_rec s t = R_listed" using lst x(1) by (auto simp: list_ok_def)
    with life l tids_ok_keep [OF tids, of t R_taken] x(3) r(2)
    show ?thesis by (auto simp: threads_inv_def life_ok_def finished_def)
  next
    case (free_one t)
    with life list_ok_upd [OF lst, of t R_free] tids_ok_free [OF tids, of t]
    show ?thesis by (auto simp: threads_inv_def life_ok_def reap_free_def)
  qed
qed

interpretation th: invariant_system threads_init thread_step threads_inv
proof
  show "threads_init s \<Longrightarrow> threads_inv s" for s by (auto simp: threads_init_def threads_inv_def life_ok_def list_ok_def tids_ok_def)
qed (rule thread_step_inv)

text \<open>C7: However the contexts interleave: the record of a context that has not ended is allocated (no context reads or writes a record that was freed);
  what the list holds is allocated and is on it once; a record that \<open>reap\<close> takes off, to wait for its context, is that of a context
  that has finished its function, so that waiting is never for the program's own work; and no two threads have the same identity.\<close>

theorem thread_records_safe:
  assumes "threads_init s" "thread_step\<^sup>*\<^sup>* s s'"
  shows "(\<forall>t. t_at s' t \<notin> {E_none, E_ended} \<longrightarrow> t_rec s' t \<in> {R_started, R_listed, R_taken})
    \<and> distinct (okm_done s') \<and> (\<forall>t \<in> set (okm_done s'). t_rec s' t = R_listed)
    \<and> (\<forall>t. t_rec s' t = R_taken \<longrightarrow> finished s' t)
    \<and> (\<forall>t u. t_rec s' t \<in> {R_started, R_listed, R_taken} \<longrightarrow> t_rec s' u \<in> {R_started, R_listed, R_taken} \<longrightarrow>
         t_tid s' t = t_tid s' u \<longrightarrow> t = u)"
proof -
  have inv: "threads_inv s'" by (rule th.reachable_inv [OF assms])
  then have "\<And>t. life_ok (t_at s' t) (t_rec s' t)" "list_ok (okm_done s') (t_rec s')" "tids_ok (t_rec s') (t_tid s') (g_tid s')"
    by (simp_all add: threads_inv_def)
  then show ?thesis by (auto simp: life_ok_def list_ok_def tids_ok_def finished_def)
qed

section \<open>What a reap leaves\<close>

text \<open>The loop of \<open>reap\<close>, which begins again at the head of the list after each wait, run while the contexts that have finished have ended: a join
  then returns.\<close>

function reap_all :: "threads \<Rightarrow> threads" where
  "reap_all s = (case reap_take s of None \<Rightarrow> s | Some (t, s') \<Rightarrow> reap_all (reap_free t s'))"
  by pat_completeness auto
termination
proof (relation "measure (\<lambda>s. length (okm_done s))")
  fix s x t s'
  assume "reap_take s = Some x" "(t, s') = x"
  then obtain rest where r: "take_finished (finished s) (okm_done s) = Some (t, rest)" "okm_done s' = rest"
    by (auto simp: reap_take_def split: option.splits)
  from take_finished_Some [OF r(1)] r(2) show "(reap_free t s', s) \<in> measure (\<lambda>s. length (okm_done s))"
    by (auto simp: reap_free_def)
qed simp

declare reap_all.simps [simp del]

lemma finished_reap [simp]: "finished (reap_free t s) = finished s" "t_at (reap_free t s) = t_at s" "okm_done (reap_free t s) = okm_done s"
  by (auto simp: reap_free_def finished_def)

lemma reap_all_spec:
  assumes "threads_inv s" "\<forall>t \<in> set (okm_done s). finished s t \<longrightarrow> t_at s t = E_ended"
  shows "thread_step\<^sup>*\<^sup>* s (reap_all s) \<and> okm_done (reap_all s) = filter (\<lambda>t. \<not> finished s t) (okm_done s) \<and> t_at (reap_all s) = t_at s
    \<and> (\<forall>t. t_rec (reap_all s) t = (if t \<in> set (okm_done s) \<and> finished s t then R_free else t_rec s t))"
  using assms
proof (induction s rule: reap_all.induct)
  case (1 s)
  show ?case
  proof (cases "reap_take s")
    case None
    then have "take_finished (finished s) (okm_done s) = None" by (auto simp: reap_take_def split: option.splits)
    then have n: "\<forall>t \<in> set (okm_done s). \<not> finished s t" by (simp add: take_finished_None)
    then have "filter (\<lambda>t. \<not> finished s t) (okm_done s) = okm_done s" by (simp add: filter_id_conv)
    then show ?thesis using n None by (subst (1 2 3 4) reap_all.simps) auto
  next
    case (Some x)
    then obtain t rest where r: "take_finished (finished s) (okm_done s) = Some (t, rest)"
      and s1: "reap_take s = Some (t, s\<lparr>okm_done := rest, t_rec := (t_rec s)(t := R_taken)\<rparr>)"
      by (auto simp: reap_take_def split: option.splits)
    define s1 where "s1 = s\<lparr>okm_done := rest, t_rec := (t_rec s)(t := R_taken)\<rparr>"
    define s2 where "s2 = reap_free t s1"
    note s1' = s1 [folded s1_def]
    from take_finished_Some [OF r] obtain xs ys where x: "okm_done s = xs @ t # ys" "rest = xs @ ys" "finished s t"
      "\<forall>x \<in> set xs. \<not> finished s x" by blast
    have step1: "thread_step s s1" using s1' by (rule thread_step.take_one)
    have e: "t_at s1 t = E_ended" "t_rec s1 t = R_taken" using "1.prems"(2) x by (simp_all add: s1_def)
    have step2: "thread_step s1 s2" unfolding s2_def using e by (rule thread_step.free_one [rotated])
    have inv2: "threads_inv s2" using thread_step_inv [OF step2 thread_step_inv [OF step1 "1.prems"(1)]] .
    have f: "finished s2 = finished s" "t_at s2 = t_at s" "okm_done s2 = xs @ ys"
      "t_rec s2 = (t_rec s)(t := R_free)"
      by (auto simp: s2_def s1_def x(2) finished_def reap_free_def)
    have n: "t \<notin> set xs" "t \<notin> set ys" using "1.prems"(1) x(1) by (auto simp: threads_inv_def list_ok_def)
    have end2: "\<forall>u \<in> set (okm_done s2). finished s2 u \<longrightarrow> t_at s2 u = E_ended"
      using "1.prems"(2) x(1) by (simp add: f)
    note IH = "1.IH" [OF s1' refl, folded s2_def, OF inv2 end2]
    have ra: "reap_all s = reap_all s2" by (subst reap_all.simps) (simp add: s1' s2_def)
    have "thread_step\<^sup>*\<^sup>* s (reap_all s2)"
      using IH step1 step2 by (meson converse_rtranclp_into_rtranclp)
    then show ?thesis unfolding ra using IH x n by (auto simp: f)
  qed
qed

text \<open>C21: No thread is left behind. Once every context that has finished has ended, the \<open>reap\<close> with which each \<open>__clone\<close> begins ends, by the steps it takes; it frees the record of each
  context that had finished, keeps on the list exactly the others in their order, and touches nothing else.\<close>

theorem reap_collects:
  assumes "threads_init s0" "thread_step\<^sup>*\<^sup>* s0 s" "\<forall>t \<in> set (okm_done s). finished s t \<longrightarrow> t_at s t = E_ended"
  shows "thread_step\<^sup>*\<^sup>* s (reap_all s) \<and> okm_done (reap_all s) = filter (\<lambda>t. \<not> finished s t) (okm_done s)
    \<and> (\<forall>t. t_rec (reap_all s) t = (if t \<in> set (okm_done s) \<and> finished s t then R_free else t_rec s t))"
  using reap_all_spec [OF th.reachable_inv [OF assms(1,2)] assms(3)] by blast

text \<open>One thread, from its creation to its end.\<close>

definition thread_at :: "entry_at \<Rightarrow> record_at \<Rightarrow> int \<Rightarrow> int \<Rightarrow> threads" where
  "thread_at a r tid n = \<lparr>t_at = (\<lambda>_. E_none)(16 := a), t_rec = (\<lambda>_. R_free)(16 := r), t_tid = (\<lambda>_. 0)(16 := tid),
     okm_done = (if r = R_listed then [16] else []), g_tid = n\<rparr>"

abbreviation no_threads :: threads where "no_threads \<equiv> thread_at E_none R_free 0 1"
abbreviation thread_with :: "entry_at \<Rightarrow> record_at \<Rightarrow> threads" where "thread_with a r \<equiv> thread_at a r 2 2"

lemma no_threads_init: "threads_init no_threads"
  by (auto simp: threads_init_def thread_at_def)

lemma thread_created: "thread_step\<^sup>*\<^sup>* no_threads (thread_with E_running R_listed)"
proof -
  have "thread_step no_threads (thread_at E_none R_made 0 1)"
    using thread_step.make [of no_threads 16] by (simp add: thread_at_def)
  moreover have "thread_step (thread_at E_none R_made 0 1) (thread_with E_none R_named)"
    using thread_step.name [of "thread_at E_none R_made 0 1" 16] by (simp add: thread_at_def)
  moreover have "thread_step (thread_with E_none R_named) (thread_with E_running R_started)"
    using thread_step.start [of "thread_with E_none R_named" 16] by (simp add: thread_at_def)
  moreover have "thread_step (thread_with E_running R_started) (thread_with E_running R_listed)"
    using thread_step.enlist [of "thread_with E_running R_started" 16] by (simp add: thread_at_def)
  ultimately show ?thesis by (meson rtranclp.rtrancl_into_rtrancl r_into_rtranclp)
qed

lemma thread_ended: "thread_step\<^sup>*\<^sup>* no_threads (thread_with E_ended R_listed)"
proof -
  have nxt: "thread_step (thread_with a R_listed) (thread_with b R_listed)" if "entry_next a = Some b" for a b
    using thread_step.entry [of "thread_with a R_listed" 16 b] that by (simp add: thread_at_def)
  have "thread_step\<^sup>*\<^sup>* no_threads (thread_with E_withdrawn R_listed)"
    using thread_created nxt [of E_running E_cleared] nxt [of E_cleared E_finished] nxt [of E_finished E_withdrawn]
    by (auto intro: rtranclp.rtrancl_into_rtrancl)
  then show ?thesis using nxt [of E_withdrawn E_ended] by (auto intro: rtranclp.rtrancl_into_rtrancl)
qed

theorem thread_records_safe_witness:
  "thread_step\<^sup>*\<^sup>* no_threads (thread_with E_running R_listed) \<and> t_rec (thread_with E_running R_listed) 16 \<in> {R_started, R_listed, R_taken}"
proof -
  from thread_records_safe [OF no_threads_init thread_created] have "t_at (thread_with E_running R_listed) 16 \<notin> {E_none, E_ended} \<longrightarrow>
      t_rec (thread_with E_running R_listed) 16 \<in> {R_started, R_listed, R_taken}" by blast
  then show ?thesis using thread_created by (simp add: thread_at_def)
qed

theorem reap_collects_witness:
  "thread_step\<^sup>*\<^sup>* no_threads (thread_with E_ended R_listed) \<and> okm_done (thread_with E_ended R_listed) = [16]
   \<and> okm_done (reap_all (thread_with E_ended R_listed)) = [] \<and> t_rec (reap_all (thread_with E_ended R_listed)) 16 = R_free"
proof -
  have "\<forall>t \<in> set (okm_done (thread_with E_ended R_listed)). finished (thread_with E_ended R_listed) t \<longrightarrow> t_at (thread_with E_ended R_listed) t = E_ended"
    by (simp add: thread_at_def)
  from reap_collects [OF no_threads_init thread_ended this] show ?thesis
    using thread_ended by (simp add: thread_at_def finished_def)
qed

section \<open>The suspension primitive\<close>

abbreviation (input) FUTEX_WAIT :: flagword where "FUTEX_WAIT \<equiv> 0"
abbreviation (input) FUTEX_WAKE :: flagword where "FUTEX_WAKE \<equiv> 1"
abbreviation (input) FUTEX_REQUEUE :: flagword where "FUTEX_REQUEUE \<equiv> 3"
abbreviation (input) FUTEX_PRIVATE :: flagword where "FUTEX_PRIVATE \<equiv> 128"
abbreviation (input) FUTEX_CLOCK_REALTIME :: flagword where "FUTEX_CLOCK_REALTIME \<equiv> 256"
abbreviation (input) EINTR :: int where "EINTR \<equiv> 4"
abbreviation (input) ETIMEDOUT :: int where "ETIMEDOUT \<equiv> 110"
abbreviation (input) ECANCELED :: int where "ECANCELED \<equiv> 125"

text \<open>\<open>openkal.task\<close>: a wait upon a word while it has a value, under a bound in nanoseconds that is none where it is zero; and a wake of at most so many
  of those that wait, which answers how many it woke.\<close>

record 'e kal_task_ops =
  task_wait :: "kal_uintptr \<Rightarrow> 32 word \<Rightarrow> 64 word \<Rightarrow> 'e \<Rightarrow> kal_error \<times> 'e"
  task_wake :: "kal_uintptr \<Rightarrow> kal_uintptr \<Rightarrow> 'e \<Rightarrow> (kal_error + kal_uintptr) \<times> 'e"

definition wake_answer :: "(kal_error + kal_uintptr) \<times> 'e \<Rightarrow> int \<times> 'e" where
  "wake_answer r = (case r of (Inl e, e1) \<Rightarrow> (- okm_errno e, e1) | (Inr woken, e1) \<Rightarrow> (sint woken, e1))"

text \<open>The fourth argument is a pointer for a wait and a count for a requeue: \<open>t\<close> is what it points to and \<open>reg\<close> its value.\<close>

definition requeue_count :: "32 word \<Rightarrow> 64 word \<Rightarrow> kal_uintptr" where
  "requeue_count val move = (if sint val < 0 \<or> sint move < 0 then - 1 else scast val + move)"

definition okm_futex ::
  "'e kal_task_ops \<Rightarrow> kal_uintptr \<Rightarrow> flagword \<Rightarrow> 32 word \<Rightarrow> (int \<times> int) option \<Rightarrow> 64 word \<Rightarrow> 'e \<Rightarrow> int \<times> 'e" where
  "okm_futex T w op val t reg e =
     (let op' = op AND NOT (FUTEX_PRIVATE OR FUTEX_CLOCK_REALTIME) in
      if op' = FUTEX_WAIT then
        (let ns = (case t of None \<Rightarrow> 0 | Some (sec, nsec) \<Rightarrow> of_int sec * 1000000000 + of_int nsec) in
         case task_wait T w val ns e of
           (r, e1) \<Rightarrow> (if r = kal_ok then 0 else if r = kal_err_again then - ETIMEDOUT else - okm_errno r, e1))
      else if op' = FUTEX_WAKE then
        wake_answer (task_wake T w (if sint val < 0 then - 1 else scast val) e)
      else if op' = FUTEX_REQUEUE then wake_answer (task_wake T w (requeue_count val reg) e)
      else (- ENOSYS, e))"

text \<open>musl's timed wait. \<open>now\<close> is the answer of the clock; \<open>eintr\<close> is \<open>__eintr_valid_flag\<close>; cancellation is not modelled.\<close>

definition futex4_cp ::
  "'e kal_task_ops \<Rightarrow> kal_uintptr \<Rightarrow> flagword \<Rightarrow> 32 word \<Rightarrow> (int \<times> int) option \<Rightarrow> 64 word \<Rightarrow> 'e \<Rightarrow> int \<times> 'e" where
  "futex4_cp T w op val t reg e =
     (case okm_futex T w op val t reg e of
        (r, e1) \<Rightarrow> if r \<noteq> - ENOSYS then (r, e1) else okm_futex T w (op AND NOT FUTEX_PRIVATE) val t reg e1)"

definition timedwait_end :: "bool \<Rightarrow> int \<Rightarrow> int" where
  "timedwait_end eintr r =
     (let r1 = (if r \<noteq> EINTR \<and> r \<noteq> ETIMEDOUT \<and> r \<noteq> ECANCELED then 0 else r)
      in if r1 = EINTR \<and> \<not> eintr then 0 else r1)"

definition time_left :: "int \<times> int \<Rightarrow> int \<times> int \<Rightarrow> int \<times> int" where
  "time_left at now =
     (let sec = fst at - fst now; nsec = snd at - snd now
      in if nsec < 0 then (sec - 1, nsec + 1000000000) else (sec, nsec))"

definition timedwait_cp ::
  "'e kal_task_ops \<Rightarrow> bool \<Rightarrow> kal_uintptr \<Rightarrow> 32 word \<Rightarrow> (int \<times> int) option \<Rightarrow> (int \<times> int) option \<Rightarrow> bool \<Rightarrow> 64 word \<Rightarrow> 'e \<Rightarrow> int \<times> 'e" where
  "timedwait_cp T eintr w val now at priv reg e =
     (let op = FUTEX_WAIT OR (if priv then FUTEX_PRIVATE else 0);
          wait = (\<lambda>t. case futex4_cp T w op val t reg e of (r, e1) \<Rightarrow> (timedwait_end eintr (- r), e1))
      in case at of
           None \<Rightarrow> wait None
         | Some (sec, nsec) \<Rightarrow>
             if nsec < 0 \<or> 1000000000 \<le> nsec then (EINVAL, e)
             else (case now of
                     None \<Rightarrow> (EINVAL, e)
                   | Some n \<Rightarrow> if fst (time_left (sec, nsec) n) < 0 then (ETIMEDOUT, e) else wait (Some (time_left (sec, nsec) n))))"

section \<open>How long a wait is\<close>

definition ns_of :: "int \<times> int \<Rightarrow> int" where
  "ns_of t = fst t * 1000000000 + snd t"

definition normal_time :: "int \<times> int \<Rightarrow> bool" where
  "normal_time t \<longleftrightarrow> 0 \<le> snd t \<and> snd t < 1000000000"

text \<open>What \<open>kal_task_wait\<close> answers of a wait that was made: that the context was woken, or that the bound passed.\<close>

definition waits :: "'e kal_task_ops \<Rightarrow> bool" where
  "waits T \<longleftrightarrow> (\<forall>w v ns e. fst (task_wait T w v ns e) \<in> {kal_ok, kal_err_again})"

lemma time_left_ns:
  assumes "normal_time at" "normal_time now"
  shows "ns_of (time_left at now) = ns_of at - ns_of now" "fst (time_left at now) < 0 \<longleftrightarrow> ns_of at < ns_of now"
  using assms by (auto simp: time_left_def ns_of_def normal_time_def Let_def)

lemma timedwait_waits:
  assumes "waits T" "normal_time at" "normal_time now"
  shows "timedwait_cp T eintr w val (Some now) (Some at) priv reg e =
    (if ns_of at < ns_of now then (ETIMEDOUT, e)
     else case task_wait T w val (word_of_int (ns_of at - ns_of now)) e of (r, e1) \<Rightarrow> (if r = kal_ok then 0 else ETIMEDOUT, e1))"
    "timedwait_cp T eintr w val now' None priv reg e =
      (case task_wait T w val 0 e of (r, e1) \<Rightarrow> (if r = kal_ok then 0 else ETIMEDOUT, e1))"
proof -
  have ans: "r = kal_ok \<or> r = kal_err_again" if "task_wait T w val ns e = (r, e1)" for ns r e1
    using assms(1) [unfolded waits_def, rule_format, of w val ns e] that by simp
  have fut: "okm_futex T w (FUTEX_WAIT OR (if priv then FUTEX_PRIVATE else 0)) val t reg e =
      (case task_wait T w val (case t of None \<Rightarrow> 0 | Some x \<Rightarrow> word_of_int (ns_of x)) e of
         (r, e1) \<Rightarrow> (if r = kal_ok then 0 else - ETIMEDOUT, e1))" for t
    by (cases t) (auto simp: okm_futex_def ns_of_def Let_def split: prod.splits dest!: ans)
  have wait: "(case futex4_cp T w (FUTEX_WAIT OR (if priv then FUTEX_PRIVATE else 0)) val t reg e of (r, e1) \<Rightarrow> (timedwait_end eintr (- r), e1)) =
      (case task_wait T w val (case t of None \<Rightarrow> 0 | Some x \<Rightarrow> word_of_int (ns_of x)) e of (r, e1) \<Rightarrow> (if r = kal_ok then 0 else ETIMEDOUT, e1))" for t
    unfolding futex4_cp_def fut by (auto simp: timedwait_end_def split: prod.splits)
  show "timedwait_cp T eintr w val (Some now) (Some at) priv reg e =
    (if ns_of at < ns_of now then (ETIMEDOUT, e)
     else case task_wait T w val (word_of_int (ns_of at - ns_of now)) e of (r, e1) \<Rightarrow> (if r = kal_ok then 0 else ETIMEDOUT, e1))"
  proof -
    obtain sec nsec where at: "at = (sec, nsec)" by fastforce
    show ?thesis
      using assms(2) unfolding timedwait_cp_def Let_def wait at option.case prod.case
        time_left_ns(1) [OF assms(2,3), unfolded at] time_left_ns(2) [OF assms(2,3), unfolded at]
      by (simp add: normal_time_def)
  qed
  show "timedwait_cp T eintr w val now' None priv reg e =
      (case task_wait T w val 0 e of (r, e1) \<Rightarrow> (if r = kal_ok then 0 else ETIMEDOUT, e1))"
    unfolding timedwait_cp_def Let_def wait by simp
qed


text \<open>A task interface over a clock: nobody wakes the context, so a wait takes its bound.\<close>

definition lone_task :: "int kal_task_ops" where
  "lone_task = \<lparr>task_wait = (\<lambda>_ _ ns e. (kal_err_again, e + int (unat ns))), task_wake = (\<lambda>_ _ e. (Inr 0, e))\<rparr>"

lemma lone_task_waits: "waits lone_task" by (simp add: waits_def lone_task_def)


text \<open>C40: A deadline that is this very nanosecond is no deadline. \<open>__okm_futex\<close> passes the time left as the bound, and the bound zero is openkal's spelling of a wait
  without end: the wait for a deadline equal to the clock's time is the wait for no deadline, made under the bound zero.\<close>

theorem timedwait_now_unbounded:
  assumes "waits T" "normal_time now"
  shows "timedwait_cp T eintr w val (Some now) (Some now) priv reg e = timedwait_cp T eintr w val (Some now) None priv reg e
    \<and> timedwait_cp T eintr w val (Some now) (Some now) priv reg e =
        (case task_wait T w val 0 e of (r, e1) \<Rightarrow> (if r = kal_ok then 0 else ETIMEDOUT, e1))"
  using timedwait_waits(1) [OF assms(1,2,2)] timedwait_waits(2) [OF assms(1,2,2)] by simp

theorem timedwait_now_unbounded_witness:
  "timedwait_cp lone_task False 64 0 (Some (10, 5)) (Some (10, 5)) True 0 0 = timedwait_cp lone_task False 64 0 (Some (10, 5)) None True 0 0"
proof -
  have "normal_time (10, 5)" by (simp add: normal_time_def)
  from timedwait_now_unbounded [OF lone_task_waits this] show ?thesis by blast
qed

text \<open>A requeue wakes at least as many as it was asked to wake and to move: the two counts are added without wrapping, and where either is
  unbounded so is the sum.\<close>

theorem requeue_wakes_all_asked:
  "(sint val < 0 \<or> sint move < 0 \<longrightarrow> int (unat (requeue_count val move)) = 2 ^ 64 - 1)
   \<and> (0 \<le> sint val \<and> 0 \<le> sint move \<longrightarrow> int (unat (requeue_count val move)) = sint val + sint move)"
proof (intro conjI impI)
  assume "sint val < 0 \<or> sint move < 0"
  then show "int (unat (requeue_count val move)) = 2 ^ 64 - 1" by (auto simp: requeue_count_def uint_word_ariths unsigned_minus_1_eq_mask mask_eq_exp_minus_1)
next
  assume nn: "0 \<le> sint val \<and> 0 \<le> sint move"
  have "sint val < 2 ^ 31" using sint_lt [of val] by simp
  moreover have "sint move < 2 ^ 63" using sint_lt [of move] by simp
  ultimately have b: "0 \<le> sint val + sint move" "sint val + sint move < 2 ^ 64" using nn by simp_all
  have v: "(scast val :: 64 word) = word_of_int (sint val)" by (rule scast_eq)
  have m: "word_of_int (sint move) = move" by simp
  have "(scast val :: 64 word) + move = word_of_int (sint val + sint move)" unfolding v wi_hom_add [symmetric] m ..
  then have "uint ((scast val :: 64 word) + move) = sint val + sint move"
    unfolding \<open>(scast val :: 64 word) + move = word_of_int (sint val + sint move)\<close> using b by (subst uint_word_of_int) simp
  then show "int (unat (requeue_count val move)) = sint val + sint move" using nn by (simp add: requeue_count_def)
qed

section \<open>The end of a context\<close>

text \<open>\<open>__okm_task_exit\<close>: a context that was created ends by the jump back into \<open>entry\<close>, the first by ending the program.\<close>

datatype task_end = Ends_context thread | Ends_program int

definition okm_task_exit :: "kal_uintptr \<Rightarrow> int \<Rightarrow> contexts \<Rightarrow> task_end" where
  "okm_task_exit me code c = (let self = okm_get_self me c in if self \<noteq> 0 then Ends_context self else Ends_program code)"

definition entry_words :: "kal_uintptr \<Rightarrow> kal_uintptr \<Rightarrow> thread \<Rightarrow> contexts \<Rightarrow> contexts option" where
  "entry_words me tls t c = map_option (okm_set_self me t) (okm_set_tp me tls c)"

text \<open>A context that \<open>entry\<close> began ends alone: it ends as the context of its own record, whatever the other contexts have recorded meanwhile by steps that leave its
  words alone.\<close>

theorem exit_ends_own_context:
  assumes "contexts_inv c" "me \<noteq> OKM_RETIRED" "t \<noteq> 0" "entry_words me tls t c = Some c1"
  shows "okm_task_exit me code c1 = Ends_context t \<and> okm_get_tp me c1 = Some tls"
proof -
  obtain c0 where c0: "okm_set_tp me tls c = Some c0" "c1 = okm_set_self me t c0"
    using assms(4) by (auto simp: entry_words_def)
  show ?thesis
    using assms(3) cw.take_over [OF assms(1,2) c0(1), of t, folded c0(2)] by (simp add: okm_task_exit_def)
qed

end
