(* ===== verification/Okm_Attr.thy ===== *)
theory Okm_Attr
  imports Okm_Open
begin

text \<open>
  What a name or a descriptor refers to, and the calls that change names (port/src/okm_syscall.c):
  \<open>fill_kstat\<close>, \<open>do_fstat\<close>, \<open>do_fstatat\<close>, \<open>do_readlink\<close>, \<open>do_symlink\<close>, \<open>do_chmod\<close> and \<open>null_kstat\<close>, and of
  \<open>do_scratch_call\<close> and the dispatcher the cases for copying, times, length by name, creating, removing,
  renaming, access and flushing. A call that only asks answers its result; one that changes answers
  a number and the state.
\<close>

section \<open>The attributes of a node\<close>

abbreviation (input) S_IFIFO :: flagword where "S_IFIFO \<equiv> 0x1000"
abbreviation (input) S_IFCHR :: flagword where "S_IFCHR \<equiv> 0x2000"
abbreviation (input) S_IFDIR :: flagword where "S_IFDIR \<equiv> 0x4000"
abbreviation (input) S_IFREG :: flagword where "S_IFREG \<equiv> 0x8000"
abbreviation (input) S_IFLNK :: flagword where "S_IFLNK \<equiv> 0xA000"
abbreviation (input) A_READ :: flagword where "A_READ \<equiv> 0x124"
abbreviation (input) A_WRITE :: flagword where "A_WRITE \<equiv> 0x92"
abbreviation (input) A_EXEC :: flagword where "A_EXEC \<equiv> 0x49"
abbreviation (input) AT_SYMLINK_NOFOLLOW :: flagword where "AT_SYMLINK_NOFOLLOW \<equiv> 0x100"
abbreviation (input) AT_EMPTY_PATH :: flagword where "AT_EMPTY_PATH \<equiv> 0x1000"
abbreviation (input) OKM_PAGE :: nat where "OKM_PAGE \<equiv> 4096"

record kstat =
  st_dev :: kal_uintptr
  st_ino :: kal_uintptr
  st_mode :: flagword
  st_nlink :: nat
  st_uid :: nat
  st_gid :: nat
  st_rdev :: nat
  st_size :: int
  st_blksize :: nat
  st_blocks :: int
  st_atime :: "int \<times> int"
  st_mtime :: "int \<times> int"
  st_ctime :: "int \<times> int"

definition zero_kstat :: kstat where
  "zero_kstat = \<lparr>st_dev = 0, st_ino = 0, st_mode = 0, st_nlink = 0, st_uid = 0, st_gid = 0, st_rdev = 0,
     st_size = 0, st_blksize = 0, st_blocks = 0, st_atime = (0, 0), st_mtime = (0, 0), st_ctime = (0, 0)\<rparr>"

definition null_kstat :: kstat where
  "null_kstat = zero_kstat\<lparr>st_mode := S_IFCHR OR 0x1B6, st_nlink := 1, st_rdev := 256 + 3, st_blksize := OKM_PAGE\<rparr>"

definition is_executable :: "kal_node_info \<Rightarrow> bool" where
  "is_executable i \<longleftrightarrow> (case ni_executable i of Some x \<Rightarrow> x | None \<Rightarrow> False)"

text \<open>The twelve low bits: what \<open>fill_kstat\<close> reports and \<open>do_chmod\<close> calls \<open>current\<close>.\<close>

definition mode_bits :: "kal_node_info \<Rightarrow> flagword" where
  "mode_bits i =
     (let m1 = (if ni_writable i then A_READ OR A_WRITE else A_READ)
      in if ni_kind i = kal_node_directory then m1 OR A_EXEC
         else if is_executable i then m1 OR A_EXEC else m1)"

definition kind_bits :: "kal_node_kind \<Rightarrow> flagword" where
  "kind_bits k = (case k of kal_node_file \<Rightarrow> S_IFREG | kal_node_directory \<Rightarrow> S_IFDIR
     | kal_node_link \<Rightarrow> S_IFLNK | _ \<Rightarrow> S_IFCHR)"

definition fill_kstat :: "kal_node_info \<Rightarrow> kstat" where
  "fill_kstat i =
     (let m = (sint (ni_modified_ns i div 1000000000), sint (ni_modified_ns i mod 1000000000));
          (dv, ino) = (case ni_identity i of Some p \<Rightarrow> p | None \<Rightarrow> (0, 0))
      in zero_kstat\<lparr>st_size := sint (ni_size i), st_nlink := 1, st_blksize := OKM_PAGE,
           st_blocks := sint ((ni_size i + 511) div 512), st_mode := kind_bits (ni_kind i) OR mode_bits i,
           st_mtime := m, st_atime := m, st_ctime := m, st_uid := 1000, st_gid := 1000,
           st_dev := dv, st_ino := ino\<rparr>)"

text \<open>What is reported of a node of which only the kind is known.\<close>

definition bare_info :: "kal_node_kind \<Rightarrow> kal_node_info" where
  "bare_info k = \<lparr>ni_kind = k, ni_size = 0, ni_writable = True, ni_modified_ns = 0, ni_executable = None,
                  ni_identity = None\<rparr>"

definition do_fstat :: "'e kal \<Rightarrow> int \<Rightarrow> 'e okm \<Rightarrow> int + kstat" where
  "do_fstat K fd s =
     (case okm_desc_of fd s of
        None \<Rightarrow> Inl (- EBADF)
      | Some d \<Rightarrow>
          let p = g_desc s d in
          (case d_kind p of
             OKM_NULL \<Rightarrow> Inr null_kstat
           | OKM_FILE \<Rightarrow>
               (case fs_file_info K (d_file p) KAL_INFO_ALL (env s) of
                  Inl e \<Rightarrow> Inl (- okm_errno e)
                | Inr i \<Rightarrow> Inr (fill_kstat i))
           | OKM_DIR \<Rightarrow>
               (case fs_info K (d_dir p) ''.'' False KAL_INFO_ALL (env s) of
                  Inl _ \<Rightarrow> Inr (fill_kstat (bare_info kal_node_directory))
                | Inr i \<Rightarrow> if ni_kind i \<noteq> kal_node_directory
                           then Inr (fill_kstat (bare_info kal_node_directory)) else Inr (fill_kstat i))
           | OKM_STREAM \<Rightarrow>
               Inr ((fill_kstat (bare_info kal_node_other))\<lparr>st_mode :=
                 if stream_interactive K (d_stream p) (env s) then S_IFCHR OR 0x190 else S_IFIFO OR 0x180\<rparr>)
           | OKM_CHANNEL \<Rightarrow> Inr ((fill_kstat (bare_info kal_node_other))\<lparr>st_mode := S_IFIFO OR 0x180\<rparr>)
           | _ \<Rightarrow> Inr (fill_kstat (bare_info kal_node_other))))"

definition do_fstatat :: "'e kal \<Rightarrow> int \<Rightarrow> string option \<Rightarrow> flagword \<Rightarrow> 'e okm \<Rightarrow> int + kstat" where
  "do_fstatat K dirfd pathp flag s =
     (if has flag AT_EMPTY_PATH \<and> pathp = Some [] then do_fstat K dirfd s
      else if okm_null_name s dirfd pathp then Inr null_kstat
      else case okm_resolve s dirfd pathp False of
        Inl r \<Rightarrow> Inl r
      | Inr at \<Rightarrow>
          (case fs_info K (at_base at) (at_rel at) (has flag AT_SYMLINK_NOFOLLOW) KAL_INFO_ALL (env s) of
             Inl e \<Rightarrow> Inl (- okm_errno e)
           | Inr i \<Rightarrow> if ni_kind i = kal_node_absent then Inl (- ENOENT) else Inr (fill_kstat i)))"

section \<open>Links\<close>

definition do_readlink :: "'e kal \<Rightarrow> int \<Rightarrow> string option \<Rightarrow> nat \<Rightarrow> 'e okm \<Rightarrow> int + string" where
  "do_readlink K dirfd pathp cap s =
     (if okm_null_name s dirfd pathp then Inl (- EINVAL)
      else case okm_resolve s dirfd pathp False of
        Inl r \<Rightarrow> Inl r
      | Inr at \<Rightarrow>
          (case fs_info K (at_base at) (at_rel at) True {KAL_INFO_KIND} (env s) of
             Inl e \<Rightarrow> Inl (- okm_errno e)
           | Inr i \<Rightarrow>
               if ni_kind i = kal_node_absent then Inl (- ENOENT)
               else if ni_kind i \<noteq> kal_node_link then Inl (- EINVAL)
               else case fs_link_read K (at_base at) (at_rel at) cap (env s) of
                 Inl e \<Rightarrow> Inl (- okm_errno e)
               | Inr target \<Rightarrow> Inr (take cap target)))"

text \<open>A call that names one node and answers openkal's error.\<close>

definition at_call ::
  "'e okm \<Rightarrow> int \<Rightarrow> string option \<Rightarrow> (kal_dir \<Rightarrow> string \<Rightarrow> 'e \<Rightarrow> kal_error \<times> 'e) \<Rightarrow> int \<times> 'e okm" where
  "at_call s dirfd pathp f =
     (case okm_resolve s dirfd pathp False of
        Inl r \<Rightarrow> (r, s)
      | Inr at \<Rightarrow>
          (case f (at_base at) (at_rel at) (env s) of
             (e, e1) \<Rightarrow> (if e = kal_ok then 0 else - okm_errno e, s\<lparr>env := e1\<rparr>)))"

definition do_symlink :: "'e kal \<Rightarrow> string option \<Rightarrow> int \<Rightarrow> string option \<Rightarrow> 'e okm \<Rightarrow> int \<times> 'e okm" where
  "do_symlink K targetp dirfd pathp s =
     (case targetp of
        None \<Rightarrow> (- EFAULT, s)
      | Some target \<Rightarrow>
          if pathp = None then (- EFAULT, s)
          else at_call s dirfd pathp (\<lambda>b n. fs_link_create K b n target))"

section \<open>The mode\<close>

definition do_chmod :: "'e kal \<Rightarrow> int \<Rightarrow> string option \<Rightarrow> flagword \<Rightarrow> 'e okm \<Rightarrow> int \<times> 'e okm" where
  "do_chmod K dirfd pathp mode s =
     (case okm_resolve s dirfd pathp False of
        Inl r \<Rightarrow> (r, s)
      | Inr at \<Rightarrow>
          (case fs_info K (at_base at) (at_rel at) False {KAL_INFO_KIND, KAL_INFO_WRITABLE, KAL_INFO_EXECUTABLE} (env s) of
             Inl e \<Rightarrow> (- okm_errno e, s)
           | Inr i \<Rightarrow>
               if ni_kind i = kal_node_absent then (- ENOENT, s)
               else
                 let current = mode_bits i; requested = mode AND 0xFFF in
                 if requested = current then (0, s)
                 else if ni_kind i = kal_node_directory then (- ENOSYS, s)
                 else
                   let none = current AND NOT A_EXEC; full = none OR drop_bit 2 (current AND A_READ) in
                   if requested \<noteq> none \<and> requested \<noteq> full then (- ENOSYS, s)
                   else
                     (case fs_set_executable_at K (at_base at) (at_rel at) (requested \<noteq> none) (env s) of
                        (e, e1) \<Rightarrow> (if e = kal_ok then 0 else - okm_errno e, s\<lparr>env := e1\<rparr>))))"

section \<open>Names created, removed and moved\<close>

definition sys_mkdirat :: "'e kal \<Rightarrow> int \<Rightarrow> string option \<Rightarrow> 'e okm \<Rightarrow> int \<times> 'e okm" where
  "sys_mkdirat K dirfd pathp s = at_call s dirfd pathp (fs_mkdir K)"

text \<open>The flag that tells a directory's removal from a file's is not read, and \<open>SYS_unlink\<close> and \<open>SYS_rmdir\<close>
  make the same call.\<close>

definition sys_unlinkat :: "'e kal \<Rightarrow> int \<Rightarrow> string option \<Rightarrow> flagword \<Rightarrow> 'e okm \<Rightarrow> int \<times> 'e okm" where
  "sys_unlinkat K dirfd pathp flags s = at_call s dirfd pathp (fs_remove K)"

definition sys_unlink :: "'e kal \<Rightarrow> string option \<Rightarrow> 'e okm \<Rightarrow> int \<times> 'e okm" where
  "sys_unlink K pathp s = at_call s AT_FDCWD pathp (fs_remove K)"

definition sys_rmdir :: "'e kal \<Rightarrow> string option \<Rightarrow> 'e okm \<Rightarrow> int \<times> 'e okm" where
  "sys_rmdir K pathp s = at_call s AT_FDCWD pathp (fs_remove K)"

definition sys_renameat2 ::
  "'e kal \<Rightarrow> int \<Rightarrow> string option \<Rightarrow> int \<Rightarrow> string option \<Rightarrow> kal_uintptr \<Rightarrow> 'e okm \<Rightarrow> int \<times> 'e okm" where
  "sys_renameat2 K d1 p1 d2 p2 flags s =
     (if flags AND NOT 1 \<noteq> 0 then (- EINVAL, s)
      else case okm_resolve s d1 p1 False of
        Inl r \<Rightarrow> (r, s)
      | Inr src \<Rightarrow>
          (case okm_resolve s d2 p2 False of
             Inl r \<Rightarrow> (r, s)
           | Inr dst \<Rightarrow>
               if flags AND 1 \<noteq> 0 then
                 (case fs_rename_no_replace K (at_base src) (at_rel src) (at_base dst) (at_rel dst) (env s) of
                    (e, e1) \<Rightarrow> (if e = kal_err_not_supported then - EINVAL
                                 else if e = kal_ok then 0 else - okm_errno e, s\<lparr>env := e1\<rparr>))
               else
                 (case fs_rename K (at_base src) (at_rel src) (at_base dst) (at_rel dst) (env s) of
                    (e, e1) \<Rightarrow> (if e = kal_ok then 0 else - okm_errno e, s\<lparr>env := e1\<rparr>))))"

abbreviation (input) X_OK :: flagword where "X_OK \<equiv> 1"
abbreviation (input) W_OK :: flagword where "W_OK \<equiv> 2"

definition sys_faccessat :: "'e kal \<Rightarrow> int \<Rightarrow> string option \<Rightarrow> flagword \<Rightarrow> 'e okm \<Rightarrow> int" where
  "sys_faccessat K dirfd pathp mode s =
     (if okm_null_name s dirfd pathp then (if has mode X_OK then - EACCES else 0)
      else case okm_resolve s dirfd pathp False of
        Inl r \<Rightarrow> r
      | Inr at \<Rightarrow>
          (case fs_info K (at_base at) (at_rel at) False {KAL_INFO_KIND, KAL_INFO_WRITABLE, KAL_INFO_EXECUTABLE} (env s) of
             Inl e \<Rightarrow> - okm_errno e
           | Inr i \<Rightarrow>
               if ni_kind i = kal_node_absent then - ENOENT
               else if has mode W_OK \<and> \<not> ni_writable i then - EACCES
               else if has mode X_OK \<and> ni_kind i \<noteq> kal_node_directory \<and> ni_executable i = Some False then - EACCES
               else 0))"

section \<open>Length and times by name\<close>

definition sys_truncate :: "'e kal \<Rightarrow> string option \<Rightarrow> int \<Rightarrow> 'e okm \<Rightarrow> int \<times> 'e okm" where
  "sys_truncate K pathp len s =
     (case okm_resolve s AT_FDCWD pathp False of
        Inl r \<Rightarrow> (r, s)
      | Inr at \<Rightarrow>
          (case fs_open K (at_base at) (at_rel at) {KAL_OPEN_READ, KAL_OPEN_WRITE} (env s) of
             (Inl e, e1) \<Rightarrow> (- okm_errno e, s\<lparr>env := e1\<rparr>)
           | (Inr f, e1) \<Rightarrow>
               (case fs_truncate K f (of_int len) e1 of
                  (e, e2) \<Rightarrow> (if e = kal_ok then 0 else - okm_errno e, s\<lparr>env := fs_close_file K f e2\<rparr>))))"

abbreviation (input) UTIME_NOW :: int where "UTIME_NOW \<equiv> 0x3fffffff"
abbreviation (input) UTIME_OMIT :: int where "UTIME_OMIT \<equiv> 0x3ffffffe"

text \<open>\<open>tms\<close> is the second of the pair the caller gave (seconds and nanoseconds), \<open>None\<close> where it gave none.\<close>

definition utime_when :: "'e kal \<Rightarrow> (int \<times> int) option \<Rightarrow> 'e okm \<Rightarrow> kal_uintptr" where
  "utime_when K tms s =
     (case tms of
        None \<Rightarrow> time_wall K (env s)
      | Some (sec, nsec) \<Rightarrow>
          if nsec = UTIME_NOW then time_wall K (env s) else of_int sec * 1000000000 + of_int nsec)"

definition utime_open ::
  "'e kal \<Rightarrow> okm_at \<Rightarrow> kal_uintptr \<Rightarrow> kal_open_flag set \<Rightarrow> 'e okm \<Rightarrow> int \<times> 'e okm" where
  "utime_open K at w want s =
     (case fs_set_modified_at K (at_base at) (at_rel at) w (env s) of
        (se, e1) \<Rightarrow>
          if se \<noteq> kal_err_not_supported then (if se = kal_ok then 0 else - okm_errno se, s\<lparr>env := e1\<rparr>)
          else
            (case fs_open K (at_base at) (at_rel at) want e1 of
               (Inl e, e2) \<Rightarrow> (- okm_errno e, s\<lparr>env := e2\<rparr>)
             | (Inr f, e2) \<Rightarrow>
                 (case fs_set_modified K f w e2 of
                    (e, e3) \<Rightarrow> (if e = kal_ok then 0 else - okm_errno e, s\<lparr>env := fs_close_file K f e3\<rparr>))))"

definition utime_named :: "'e kal \<Rightarrow> okm_at \<Rightarrow> kal_uintptr \<Rightarrow> 'e okm \<Rightarrow> int \<times> 'e okm" where
  "utime_named K at w s =
     (let ke = fs_info K (at_base at) (at_rel at) False {KAL_INFO_KIND} (env s) in
      case ke of
        Inl e \<Rightarrow>
          if e \<noteq> kal_err_not_supported then (- okm_errno e, s)
          else utime_open K at w {KAL_OPEN_READ, KAL_OPEN_WRITE} s
      | Inr i \<Rightarrow>
          if ni_kind i = kal_node_absent then (- ENOENT, s)
          else utime_open K at w
                 (if ni_kind i = kal_node_directory then {KAL_OPEN_READ} else {KAL_OPEN_READ, KAL_OPEN_WRITE}) s)"

definition sys_utimensat :: "'e kal \<Rightarrow> int \<Rightarrow> string option \<Rightarrow> (int \<times> int) option \<Rightarrow> 'e okm \<Rightarrow> int \<times> 'e okm" where
  "sys_utimensat K dirfd pathp tms s =
     (if tms \<noteq> None \<and> snd (the tms) = UTIME_OMIT then (0, s)
      else let w = utime_when K tms s in
        case pathp of
          None \<Rightarrow>
            (case okm_desc_of dirfd s of
               None \<Rightarrow> (- EBADF, s)
             | Some d \<Rightarrow>
                 if d_kind (g_desc s d) \<noteq> OKM_FILE then (- EBADF, s)
                 else case fs_set_modified K (d_file (g_desc s d)) w (env s) of
                   (e, e1) \<Rightarrow> (if e = kal_ok then 0 else - okm_errno e, s\<lparr>env := e1\<rparr>))
        | Some path \<Rightarrow>
            (case okm_resolve s dirfd (Some path) False of
               Inl r \<Rightarrow> (r, s)
             | Inr at \<Rightarrow> utime_named K at w s))"

definition sys_fsync :: "'e kal \<Rightarrow> int \<Rightarrow> 'e okm \<Rightarrow> int \<times> 'e okm" where
  "sys_fsync K fd s =
     (case stream_of fd s of
        Inl r \<Rightarrow> (r, s)
      | Inr st \<Rightarrow>
          (case stream_flush K st (env s) of
             (e, e1) \<Rightarrow> (if e = kal_ok then 0 else - okm_errno e, s\<lparr>env := e1\<rparr>)))"

section \<open>copy\_file\_range\<close>

text \<open>The loop over blocks of at most 8192 bytes: the count copied and the failure that ended it (zero for
  the end of input or of what was asked).\<close>

abbreviation (input) COPY_BLOCK :: nat where "COPY_BLOCK \<equiv> 8192"

function range_copy_loop ::
  "'e kal \<Rightarrow> flagword \<Rightarrow> int \<Rightarrow> int \<Rightarrow> nat \<Rightarrow> nat \<Rightarrow> 'e okm \<Rightarrow> nat \<times> int \<times> 'e okm" where
  "range_copy_loop K alter fd_in fd_out want dn s =
     (if dn < want then
        (case do_read K alter fd_in (min (want - dn) COPY_BLOCK) s of
           (Inl e, s1) \<Rightarrow> (dn, e, s1)
         | (Inr bs, s1) \<Rightarrow>
             if bs = [] then (dn, 0, s1)
             else
               (case do_write K fd_out bs s1 of
                  (Inl e, s2) \<Rightarrow> (dn, e, s2)
                | (Inr put, s2) \<Rightarrow>
                    if put < length bs then (dn + put, - EIO, s2)
                    else range_copy_loop K alter fd_in fd_out want (dn + put) s2))
      else (dn, 0, s))"
  by pat_completeness auto
termination
  by (relation "measure (\<lambda>(K, alter, fd_in, fd_out, want, dn, s). want - dn)") (auto simp flip: length_greater_0_conv)

declare range_copy_loop.simps [simp del]

text \<open>The position kept and moved where an offset is given, and put back afterwards.\<close>

definition copy_from :: "'e kal \<Rightarrow> kal_file \<Rightarrow> int option \<Rightarrow> 'e okm \<Rightarrow> kal_uintptr option \<times> 'e okm" where
  "copy_from K f off s =
     (case off of
        None \<Rightarrow> (Some 0, s)
      | Some at \<Rightarrow>
          (case fs_seek K f 0 SEEK_CUR (env s) of
             (Inl _, e1) \<Rightarrow> (None, s\<lparr>env := e1\<rparr>)
           | (Inr keep, e1) \<Rightarrow>
               (case fs_seek K f at SEEK_SET e1 of
                  (Inl _, e2) \<Rightarrow> (None, s\<lparr>env := e2\<rparr>)
                | (Inr _, e2) \<Rightarrow> (Some keep, s\<lparr>env := e2\<rparr>))))"

definition copy_back ::
  "'e kal \<Rightarrow> kal_file \<Rightarrow> int option \<Rightarrow> kal_uintptr \<Rightarrow> nat \<Rightarrow> 'e okm \<Rightarrow> int option \<times> 'e okm" where
  "copy_back K f off keep dn s =
     (case off of
        None \<Rightarrow> (None, s)
      | Some at \<Rightarrow>
          (Some (at + int dn),
           s\<lparr>env := snd (fs_seek K f (sint keep) SEEK_SET (snd (fs_seek K f 0 SEEK_CUR (env s))))\<rparr>))"

text \<open>The answer, the two offsets as they are left, and the state.\<close>

definition sys_copy_file_range ::
  "'e kal \<Rightarrow> flagword \<Rightarrow> int \<Rightarrow> int option \<Rightarrow> int \<Rightarrow> int option \<Rightarrow> nat \<Rightarrow> flagword \<Rightarrow> 'e okm
     \<Rightarrow> int \<times> int option \<times> int option \<times> 'e okm" where
  "sys_copy_file_range K alter fd_in off_in fd_out off_out want flags s =
     (if flags \<noteq> 0 then (- EINVAL, off_in, off_out, s)
      else if want = 0 then (0, off_in, off_out, s)
      else case (okm_desc_of fd_in s, okm_desc_of fd_out s) of
        (Some di, Some dout) \<Rightarrow>
          let fi = d_file (g_desc s di); fo = d_file (g_desc s dout) in
          if d_kind (g_desc s di) \<noteq> OKM_FILE \<or> d_kind (g_desc s dout) \<noteq> OKM_FILE
          then (- EINVAL, off_in, off_out, s)
          else
            (case copy_from K fi off_in s of
               (None, s1) \<Rightarrow> (- EIO, off_in, off_out, s1)
             | (Some keep_in, s1) \<Rightarrow>
                 (case copy_from K fo off_out s1 of
                    (None, s2) \<Rightarrow> (- EIO, off_in, off_out, s2)
                  | (Some keep_out, s2) \<Rightarrow>
                      (case range_copy_loop K alter fd_in fd_out want 0 s2 of
                         (dn, failure, s3) \<Rightarrow>
                           (case copy_back K fi off_in keep_in dn s3 of
                              (o1, s4) \<Rightarrow>
                                (case copy_back K fo off_out keep_out dn s4 of
                                   (o2, s5) \<Rightarrow> (if 0 < dn then int dn else failure, o1, o2, s5))))))
      | _ \<Rightarrow> (- EBADF, off_in, off_out, s))"

section \<open>A mode that was set is the mode reported\<close>

text \<open>
  What \<open>do_chmod\<close> relies on: an enquiry for more positions answers the ones both ask for alike, and
  setting the execute property of a node makes the enquiry answer it so, and changes nothing else
  of what is answered about it.
\<close>

definition same_info :: "kal_node_info \<Rightarrow> kal_node_info \<Rightarrow> bool" where
  "same_info i j \<longleftrightarrow> ni_kind i = ni_kind j \<and> ni_writable i = ni_writable j \<and> ni_executable i = ni_executable j"

definition executable_laws :: "'e kal \<Rightarrow> bool" where
  "executable_laws K \<longleftrightarrow>
     (\<forall>d n w e. fs_info K d n False w e \<noteq> Inl kal_ok)
   \<and> (\<forall>d n e i. fs_info K d n False {KAL_INFO_KIND, KAL_INFO_WRITABLE, KAL_INFO_EXECUTABLE} e = Inr i \<longrightarrow>
        (\<exists>j. fs_info K d n False KAL_INFO_ALL e = Inr j \<and> same_info i j))
   \<and> (\<forall>d n x e e' i. fs_set_executable_at K d n x e = (kal_ok, e') \<longrightarrow> fs_info K d n False KAL_INFO_ALL e = Inr i \<longrightarrow>
        (\<exists>j. fs_info K d n False KAL_INFO_ALL e' = Inr j \<and> same_info j (i\<lparr>ni_executable := Some x\<rparr>)))"

lemma env_selectors:
  "g_desc (s\<lparr>env := e\<rparr>) = g_desc s" "g_fd (s\<lparr>env := e\<rparr>) = g_fd s" "g_cwd (s\<lparr>env := e\<rparr>) = g_cwd s"
  "g_pre (s\<lparr>env := e\<rparr>) = g_pre s" "g_dirlong (s\<lparr>env := e\<rparr>) = g_dirlong s" "g_dirpath (s\<lparr>env := e\<rparr>) = g_dirpath s"
  by simp_all

text \<open>The resolution of a name does not read the environment.\<close>

lemma okm_resolve_env [simp]: "okm_resolve (s\<lparr>env := e\<rparr>) dirfd pathp b = okm_resolve s dirfd pathp b"
  unfolding okm_resolve_def resolve_abs_def resolve_joined_def dir_name_def okm_desc_of_def env_selectors by (rule refl)

lemma okm_null_name_env [simp]: "okm_null_name (s\<lparr>env := e\<rparr>) dirfd pathp = okm_null_name s dirfd pathp"
  unfolding okm_null_name_def null_name_resolved_def okm_absolute_def dir_name_def okm_desc_of_def env_selectors
  by (rule refl)

lemma mode_bits_cong: "same_info i j \<Longrightarrow> mode_bits i = mode_bits j"
  by (simp add: same_info_def mode_bits_def is_executable_def)

lemma mode_bits_cases:
  "mode_bits i \<in> {0x124, 0x1B6, 0x16D, 0x1FF}"
  by (simp add: mode_bits_def Let_def)

lemma mode_bits_exec:
  assumes "ni_kind i \<noteq> kal_node_directory"
  shows "mode_bits i AND NOT A_EXEC = mode_bits (i\<lparr>ni_executable := Some False\<rparr>)"
    "(mode_bits i AND NOT A_EXEC) OR drop_bit 2 (mode_bits i AND A_READ) = mode_bits (i\<lparr>ni_executable := Some True\<rparr>)"
  using assms by (simp_all add: mode_bits_def is_executable_def Let_def)

lemma fill_kstat_mode: "st_mode (fill_kstat i) = kind_bits (ni_kind i) OR mode_bits i"
  by (simp add: fill_kstat_def Let_def split: prod.split)

lemma kind_bits_low: "(kind_bits k OR mode_bits i) AND 0xFFF = mode_bits i"
proof -
  have "mode_bits i AND 0xFFF = mode_bits i" using mode_bits_cases [of i] by auto
  moreover have "kind_bits k AND 0xFFF = 0" by (simp add: kind_bits_def split: kal_node_kind.split)
  ultimately show ?thesis by (simp add: bit.conj_disj_distrib2)
qed


text \<open>An environment with one file, whose execute property is the state.\<close>

definition exec_kal :: "bool kal" where
  "exec_kal = bare_kal\<lparr>
     fs_info := (\<lambda>_ _ _ _ x. Inr \<lparr>ni_kind = kal_node_file, ni_size = 0, ni_writable = True, ni_modified_ns = 0,
        ni_executable = Some x, ni_identity = None\<rparr>),
     fs_set_executable_at := (\<lambda>_ _ x _. (kal_ok, x))\<rparr>"

lemma exec_kal_laws: "executable_laws exec_kal"
  by (simp add: executable_laws_def exec_kal_def same_info_def)

definition exec_start :: "bool okm" where
  "exec_start = (zero_okm False)\<lparr>g_pre := [(1, ''/home'')], g_cwd := ''/home''\<rparr>"


section \<open>What is copied\<close>

text \<open>
  The streams of the two files: \<open>input st e\<close> is what a stream has yet to deliver, \<open>written st e\<close> what it has
  been given. A read delivers a first part of the input, empty only at its end; a write gives the whole
  buffer, which is what openkal promises, or fails; neither touches the other's side.
\<close>

definition copy_laws ::
  "'e kal \<Rightarrow> (kal_stream \<Rightarrow> 'e \<Rightarrow> byte list) \<Rightarrow> (kal_stream \<Rightarrow> 'e \<Rightarrow> byte list) \<Rightarrow> bool" where
  "copy_laws K input written \<longleftrightarrow>
     (\<forall>st n e. case stream_read K st n e of
        (Inl x, e') \<Rightarrow> input st e' = input st e \<and> (\<forall>u. written u e' = written u e)
      | (Inr bs, e') \<Rightarrow> input st e = bs @ input st e' \<and> length bs \<le> n \<and> (bs = [] \<and> 0 < n \<longrightarrow> input st e = [])
          \<and> (\<forall>u. written u e' = written u e))
   \<and> (\<forall>st bs e. case stream_write K st bs e of
        (Inl x, e') \<Rightarrow> written st e' = written st e \<and> (\<forall>u. input u e' = input u e)
      | (Inr n, e') \<Rightarrow> n = length bs \<and> written st e' = written st e @ bs \<and> (\<forall>u. u \<noteq> st \<longrightarrow> input u e' = input u e))"

definition never_fails :: "'e kal \<Rightarrow> bool" where
  "never_fails K \<longleftrightarrow> (\<forall>st n e x. fst (stream_read K st n e) \<noteq> Inl x) \<and> (\<forall>st bs e x. fst (stream_write K st bs e) \<noteq> Inl x)"

lemma copy_laws_read:
  "copy_laws K input written \<Longrightarrow> case stream_read K st n e of
        (Inl x, e') \<Rightarrow> input st e' = input st e \<and> (\<forall>u. written u e' = written u e)
      | (Inr bs, e') \<Rightarrow> input st e = bs @ input st e' \<and> length bs \<le> n \<and> (bs = [] \<and> 0 < n \<longrightarrow> input st e = [])
          \<and> (\<forall>u. written u e' = written u e)"
  by (simp add: copy_laws_def)

lemma copy_laws_write:
  "copy_laws K input written \<Longrightarrow> case stream_write K st bs e of
        (Inl x, e') \<Rightarrow> written st e' = written st e \<and> (\<forall>u. input u e' = input u e)
      | (Inr n, e') \<Rightarrow> n = length bs \<and> written st e' = written st e @ bs \<and> (\<forall>u. u \<noteq> st \<longrightarrow> input u e' = input u e)"
  by (simp add: copy_laws_def)

lemma plain_file_read:
  assumes "plain_file K f fd s" "0 < len"
  shows "do_read K alter fd len s = plain_read K (fs_stream K f) len s"
proof -
  obtain d where d: "okm_desc_of fd s = Some d" "d_kind (g_desc s d) = OKM_FILE"
    "d_file (g_desc s d) = f" "d_stream (g_desc s d) = fs_stream K f"
    "\<not> d_ahead (g_desc s d)" "\<not> d_ahead_eof (g_desc s d)"
    "\<not> has (d_flags (g_desc s d)) O_NONBLOCK"
    using assms(1) by (rule plain_fileE)
  have "do_read_stream K fd len s = plain_read K (fs_stream K f) len s"
    using d assms(2) by (simp add: do_read_stream_def is_null_def stream_of_def okm_take_ahead_def Let_def)
  moreover obtain q e where "stream_read K (fs_stream K f) len (env s) = (q, e)" by fastforce
  then have r: "plain_read K (fs_stream K f) len s = (map_sum (\<lambda>x. - okm_errno x) id q, s\<lparr>env := e\<rparr>)"
    by (cases q) (simp_all add: plain_read_def)
  moreover have "okm_desc_of fd (s\<lparr>env := e\<rparr>) = Some d" using d(1) by simp
  ultimately show ?thesis
    using d(2) by (simp add: do_read_def split: sum.split)
qed

lemma plain_file_write:
  assumes "plain_file K f fd s" "bs \<noteq> []"
  shows "do_write K fd bs s = plain_write K (fs_stream K f) bs s"
proof -
  obtain d where "okm_desc_of fd s = Some d" "d_kind (g_desc s d) = OKM_FILE"
    "d_file (g_desc s d) = f" "d_stream (g_desc s d) = fs_stream K f"
    "\<not> d_ahead (g_desc s d)" "\<not> d_ahead_eof (g_desc s d)"
    "\<not> has (d_flags (g_desc s d)) O_NONBLOCK"
    using assms(1) by (rule plain_fileE)
  then show ?thesis
    using assms(2) by (simp add: do_write_def is_null_def stream_of_def Let_def)
qed

definition range_copied ::
  "'e kal \<Rightarrow> (kal_stream \<Rightarrow> 'e \<Rightarrow> byte list) \<Rightarrow> (kal_stream \<Rightarrow> 'e \<Rightarrow> byte list) \<Rightarrow> kal_stream \<Rightarrow> kal_stream \<Rightarrow> nat
     \<Rightarrow> 'e okm \<Rightarrow> nat \<Rightarrow> 'e okm \<Rightarrow> bool" where
  "range_copied K input written si so want s n t \<longleftrightarrow>
     n \<le> want \<and> n \<le> length (input si (env s))
   \<and> written so (env t) = written so (env s) @ take n (input si (env s))
   \<and> (never_fails K \<longrightarrow> n = min want (length (input si (env s))) \<and> input si (env t) = drop n (input si (env s)))"

lemma range_copied_more:
  assumes "range_copied K input written si so (want - length bs) s2 m t" "length bs \<le> want"
    "input si (env s) = bs @ input si (env s2)" "written so (env s2) = written so (env s) @ bs"
  shows "range_copied K input written si so want s (length bs + m) t"
  using assms by (auto simp: range_copied_def)

lemma range_copy_loop_copies:
  assumes L: "copy_laws K input written" and ne: "fs_stream K fi \<noteq> fs_stream K fo"
    and P: "plain_file K fi fd_in s" "plain_file K fo fd_out s" and c: "range_copy_loop K alter fd_in fd_out want dn s = (n, failure, t)"
    and dn: "dn \<le> want"
  shows "dn \<le> n \<and> range_copied K input written (fs_stream K fi) (fs_stream K fo) (want - dn) s (n - dn) t
    \<and> (never_fails K \<longrightarrow> failure = 0)"
  using P c dn
proof (induction "want - dn" arbitrary: dn s rule: less_induct)
  case less
  let ?si = "fs_stream K fi" and ?so = "fs_stream K fo" and ?len = "min (want - dn) COPY_BLOCK"
  show ?case
  proof (cases "dn < want")
    case False
    then show ?thesis using less.prems by (simp add: range_copy_loop.simps range_copied_def)
  next
    case True
    then have len: "0 < ?len" by simp
    obtain q e1 where q: "stream_read K ?si ?len (env s) = (q, e1)" by fastforce
    have rd: "do_read K alter fd_in ?len s = (map_sum (\<lambda>x. - okm_errno x) id q, s\<lparr>env := e1\<rparr>)"
      using plain_file_read [OF less.prems(1) len, of alter] q by (auto simp: plain_read_def split: sum.split)
    have law: "case q of
        Inl x \<Rightarrow> input ?si e1 = input ?si (env s) \<and> (\<forall>u. written u e1 = written u (env s))
      | Inr bs \<Rightarrow> input ?si (env s) = bs @ input ?si e1 \<and> length bs \<le> ?len \<and> (bs = [] \<and> 0 < ?len \<longrightarrow> input ?si (env s) = [])
          \<and> (\<forall>u. written u e1 = written u (env s))"
      using copy_laws_read [OF L, where st = ?si and n = ?len and e = "env s"] by (simp add: q)
    have fail: "q = Inl x \<Longrightarrow> \<not> never_fails K" for x
      using q unfolding never_fails_def by (metis fst_conv)
    note unf = less.prems(3) [unfolded range_copy_loop.simps [of K alter fd_in fd_out want dn s], unfolded rd]
    show ?thesis
    proof (cases q)
      case (Inl x)
      then show ?thesis using unf True law fail by (auto simp: range_copied_def)
    next
      case (Inr bs)
      show ?thesis
      proof (cases "bs = []")
        case True
        then show ?thesis using unf \<open>dn < want\<close> law len Inr by (auto simp: range_copied_def)
      next
        case False
        obtain w e2 where w: "stream_write K ?so bs e1 = (w, e2)" by fastforce
        have wr: "do_write K fd_out bs (s\<lparr>env := e1\<rparr>) = (map_sum (\<lambda>x. - okm_errno x) id w, s\<lparr>env := e2\<rparr>)"
          using plain_file_write [of K fo fd_out "s\<lparr>env := e1\<rparr>" bs] less.prems(2) False w
          by (auto simp: plain_write_def split: sum.split)
        have wlaw: "case w of
            Inl x \<Rightarrow> written ?so e2 = written ?so e1 \<and> (\<forall>u. input u e2 = input u e1)
          | Inr k \<Rightarrow> k = length bs \<and> written ?so e2 = written ?so e1 @ bs \<and> (\<forall>u. u \<noteq> ?so \<longrightarrow> input u e2 = input u e1)"
          using copy_laws_write [OF L, where st = ?so and bs = bs and e = e1] by (simp add: w)
        show ?thesis
        proof (cases w)
          case (Inl x)
          then have "\<not> never_fails K" using w unfolding never_fails_def by (metis fst_conv)
          then show ?thesis using unf \<open>dn < want\<close> law wlaw Inr Inl False by (auto simp: wr range_copied_def)
        next
          case k: (Inr k)
          define s2 where "s2 = s\<lparr>env := e2\<rparr>"
          have k': "k = length bs" using wlaw k by simp
          have b: "length bs \<le> want - dn" "0 < length bs" using law Inr False by auto
          have c2: "range_copy_loop K alter fd_in fd_out want (dn + length bs) s2 = (n, failure, t)"
            using unf \<open>dn < want\<close> Inr False k k' by (simp add: wr s2_def)
          have "dn + length bs \<le> n
             \<and> range_copied K input written ?si ?so (want - (dn + length bs)) s2 (n - (dn + length bs)) t
             \<and> (never_fails K \<longrightarrow> failure = 0)"
            by (rule less.hyps) (use b c2 less.prems \<open>dn < want\<close> in \<open>auto simp: s2_def diff_less_mono2\<close>)
          moreover have "input ?si (env s) = bs @ input ?si (env s2)" "written ?so (env s2) = written ?so (env s) @ bs"
            using law wlaw Inr k ne by (simp_all add: s2_def)
          ultimately show ?thesis
            using range_copied_more [of K input written ?si ?so "want - dn" bs s2 "n - (dn + length bs)" t s] b by simp
        qed
      qed
    qed
  qed
qed


text \<open>Two files: one with three bytes, read from the front, and one that is written.\<close>

definition pair_kal :: "(byte list \<times> byte list) kal" where
  "pair_kal = bare_kal\<lparr>
     stream_read := (\<lambda>st n e. (Inr (take n (fst e)), (drop n (fst e), snd e))),
     stream_write := (\<lambda>st bs e. (Inr (length bs), (fst e, snd e @ bs)))\<rparr>"

lemma pair_kal_laws: "copy_laws pair_kal (\<lambda>_. fst) (\<lambda>_. snd)" "never_fails pair_kal"
  by (auto simp: copy_laws_def never_fails_def pair_kal_def)

definition pair_table :: "(byte list \<times> byte list) okm" where
  "pair_table = (zero_okm ([10, 20, 30], []))
     \<lparr>g_desc := (\<lambda>_. zero_desc)(0 := bound_desc OKM_FILE 7 7 0 0 zero_desc, 1 := bound_desc OKM_FILE 8 8 0 1 zero_desc),
      g_fd := (\<lambda>i. \<lparr>fd_desc = (if i < 2 then int i else -1), fd_cloexec = 0\<rparr>)\<rparr>"


end
