(* ===== verification/Okm_Calls.thy ===== *)
theory Okm_Calls
  imports Okm_Thread Okm_Attr Okm_Children
begin

text \<open>
  Calls of the dispatcher that ask openkal one question (port/src/okm_syscall.c): the clocks and sleeping, the attributes as
  \<open>statx\<close> states them, the processors, the dispositions of signals and the limit on descriptors. A duration is
  64 bits and its arithmetic wraps, as \<open>kal_duration\<close> does; a time is a pair of seconds and nanoseconds.
\<close>

section \<open>Time\<close>

abbreviation (input) CLOCK_REALTIME :: int where "CLOCK_REALTIME \<equiv> 0"
abbreviation (input) CLOCK_REALTIME_COARSE :: int where "CLOCK_REALTIME_COARSE \<equiv> 5"
abbreviation (input) CLOCK_PROCESS_CPUTIME_ID :: int where "CLOCK_PROCESS_CPUTIME_ID \<equiv> 2"
abbreviation (input) CLOCK_THREAD_CPUTIME_ID :: int where "CLOCK_THREAD_CPUTIME_ID \<equiv> 3"
abbreviation (input) TIMER_ABSTIME :: flagword where "TIMER_ABSTIME \<equiv> 1"

definition to_timespec :: "64 word \<Rightarrow> int \<times> int" where
  "to_timespec ns = (sint (ns div 1000000000), sint (ns mod 1000000000))"

definition okm_self_cpu_ns :: "'e kal \<Rightarrow> 'e \<Rightarrow> 64 word option \<times> 'e" where
  "okm_self_cpu_ns K e =
     (case (process_self K, process_info K) of
        (Some self_of, Some ask) \<Rightarrow>
          (case self_of e of
             (Inl _, e1) \<Rightarrow> (None, e1)
           | (Inr me, e1) \<Rightarrow>
               (case ask me e1 of
                  Inl _ \<Rightarrow> None
                | Inr i \<Rightarrow> map_option of_nat (info_cpu_ns i),
                process_close K me e1))
      | _ \<Rightarrow> (None, e))"

text \<open>The monotonic clock of openkal and its granularity; a processor time that does not fit a \<open>long long\<close> reads as none.\<close>

record 'e kal_clock =
  time_monotonic :: "'e \<Rightarrow> 64 word"
  time_granularity :: "'e \<Rightarrow> 64 word"

definition sys_clock_gettime :: "'e kal \<Rightarrow> 'e kal_clock \<Rightarrow> int \<Rightarrow> 'e \<Rightarrow> (int + int \<times> int) \<times> 'e" where
  "sys_clock_gettime K C clk e =
     (if clk = CLOCK_REALTIME \<or> clk = CLOCK_REALTIME_COARSE then (Inr (to_timespec (time_wall K e)), e)
      else if clk = CLOCK_PROCESS_CPUTIME_ID then
        (case okm_self_cpu_ns K e of
           (None, e1) \<Rightarrow> (Inl (- EINVAL), e1)
         | (Some ns, e1) \<Rightarrow> (if sint ns < 0 then Inl (- EINVAL) else Inr (to_timespec ns), e1))
      else if clk = CLOCK_THREAD_CPUTIME_ID then (Inl (- EINVAL), e)
      else (Inr (to_timespec (time_monotonic C e)), e))"

definition sys_clock_getres :: "'e kal_clock \<Rightarrow> 'e \<Rightarrow> int \<times> int" where
  "sys_clock_getres C e = to_timespec (time_granularity C e)"

definition sys_gettimeofday :: "'e kal \<Rightarrow> 'e \<Rightarrow> int \<times> int" where
  "sys_gettimeofday K e =
     (let ns = time_wall K e in (sint (ns div 1000000000), sint (ns mod 1000000000 div 1000)))"

definition duration_of :: "int \<times> int \<Rightarrow> 64 word" where
  "duration_of t = word_of_int (fst t) * 1000000000 + word_of_int (snd t)"

definition sys_nanosleep :: "'e kal \<Rightarrow> (int \<times> int) option \<Rightarrow> 'e \<Rightarrow> int \<times> 'e" where
  "sys_nanosleep K t e =
     (case t of None \<Rightarrow> (- EFAULT, e) | Some t \<Rightarrow> (0, time_sleep K (unat (duration_of t)) e))"

definition sys_clock_nanosleep ::
  "'e kal \<Rightarrow> 'e kal_clock \<Rightarrow> int \<Rightarrow> flagword \<Rightarrow> (int \<times> int) option \<Rightarrow> 'e \<Rightarrow> int \<times> 'e" where
  "sys_clock_nanosleep K C clk flags t e =
     (case t of
        None \<Rightarrow> (- EFAULT, e)
      | Some t \<Rightarrow>
          let ns = duration_of t;
              ns' = (if has flags TIMER_ABSTIME
                     then (let now = (if clk = CLOCK_REALTIME then time_wall K e else time_monotonic C e)
                           in if now < ns then ns - now else 0)
                     else ns)
          in (0, time_sleep K (unat ns') e))"

section \<open>Attributes, processors, signals, limits\<close>

record okm_statx =
  x_mask :: nat
  x_blksize :: nat
  x_nlink :: "32 word"
  x_uid :: "32 word"
  x_gid :: "32 word"
  x_mode :: "16 word"
  x_ino :: "64 word"
  x_size :: "64 word"
  x_blocks :: "64 word"
  x_mtime :: "int \<times> 32 word"
  x_atime :: "int \<times> 32 word"
  x_ctime :: "int \<times> 32 word"
  x_btime :: "int \<times> 32 word"

definition statx_of :: "kstat \<Rightarrow> okm_statx" where
  "statx_of st =
     (let t = (fst (st_mtime st), word_of_int (snd (st_mtime st)))
      in \<lparr>x_mask = 0x7ff, x_blksize = 4096, x_nlink = of_nat (st_nlink st), x_uid = of_nat (st_uid st), x_gid = of_nat (st_gid st),
          x_mode = ucast (st_mode st), x_ino = st_ino st, x_size = word_of_int (st_size st), x_blocks = word_of_int (st_blocks st),
          x_mtime = t, x_atime = t, x_ctime = t, x_btime = t\<rparr>)"

definition sys_statx ::
  "'e kal \<Rightarrow> int \<Rightarrow> string option \<Rightarrow> flagword \<Rightarrow> flagword \<Rightarrow> 'e okm \<Rightarrow> int + okm_statx" where
  "sys_statx K dirfd path flags wanted s =
     (case (if has wanted AT_EMPTY_PATH \<and> path = Some [] then do_fstat K dirfd s else do_fstatat K dirfd path flags s) of
        Inl r \<Rightarrow> Inl r
      | Inr st \<Rightarrow> Inr (statx_of st))"

text \<open>The lowest \<open>bits\<close> positions of \<open>cap\<close> bytes.\<close>

fun set_bits_of :: "nat \<Rightarrow> nat \<Rightarrow> byte list \<Rightarrow> byte list" where
  "set_bits_of i 0 out = out"
| "set_bits_of i (Suc n) out = set_bits_of (Suc i) n (out[i div 8 := (out ! (i div 8)) OR push_bit (i mod 8) 1])"

definition sys_sched_getaffinity :: "(unit \<Rightarrow> nat) option \<Rightarrow> nat \<Rightarrow> bool \<Rightarrow> int + nat \<times> byte list" where
  "sys_sched_getaffinity parallelism cap given =
     (if \<not> given \<or> cap < 8 then Inl (- EINVAL)
      else case parallelism of
        None \<Rightarrow> Inl (- ENOSYS)
      | Some f \<Rightarrow>
          if f () = 0 then Inl (- ENOSYS)
          else
            let bits = (if cap * 8 < f () then cap * 8 else f ());
                words = (bits + 8 * 8 - 1) div (8 * 8)
            in Inr (words * 8, set_bits_of 0 bits (replicate cap 0)))"

abbreviation (input) SIGPIPE :: int where "SIGPIPE \<equiv> 13"
abbreviation (input) SIG_DFL :: kal_uintptr where "SIG_DFL \<equiv> 0"
abbreviation (input) SIG_IGN :: kal_uintptr where "SIG_IGN \<equiv> 1"

text \<open>\<open>act\<close> and \<open>old\<close> are the pointers, \<open>room\<close> the size of a set of signals; the handler that is written through \<open>old\<close> is answered. The rest of
  the structure is zero.\<close>

definition sys_rt_sigaction :: "int \<Rightarrow> kal_uintptr option \<Rightarrow> bool \<Rightarrow> nat \<Rightarrow> int \<times> kal_uintptr option" where
  "sys_rt_sigaction signo act old room =
     (let ignored_here = (signo = SIGPIPE) in
      if old \<and> 128 < room then (- EINVAL, None)
      else
        let was = (if old then Some (if ignored_here then SIG_IGN else 0) else None)
        in (case act of
              None \<Rightarrow> 0
            | Some h \<Rightarrow>
                if h = SIG_DFL then (if ignored_here then - ENOSYS else 0)
                else if h = SIG_IGN then (if ignored_here then 0 else - ENOSYS)
                else - ENOSYS, was))"

abbreviation (input) RLIMIT_NOFILE :: int where "RLIMIT_NOFILE \<equiv> 7"

definition sys_prlimit64 :: "int \<Rightarrow> bool \<Rightarrow> bool \<Rightarrow> int + (nat \<times> nat) option" where
  "sys_prlimit64 resource new old =
     (if new then Inl (- EPERM)
      else if \<not> old then Inr None
      else if resource \<noteq> RLIMIT_NOFILE then Inl (- ENOSYS)
      else Inr (Some (OKM_MAX_FD, OKM_MAX_FD)))"

section \<open>What they answer\<close>

text \<open>The time a clock answers is a time: nanoseconds in their range, and in all exactly what the environment said.\<close>

lemma sint_small:
  assumes "unat w < 2 ^ 63"
  shows "sint (w :: 64 word) = int (unat w)"
proof -
  have "int (unat w) < int (2 ^ 63)" using assms by (simp only: of_nat_less_iff)
  then have "uint w < 2 ^ 63" by simp
  moreover have "- (2 ^ 63) \<le> uint w" by (rule order_trans [of _ 0]) simp_all
  ultimately have "signed_take_bit 63 (uint w) = uint w" by (intro signed_take_bit_int_eq_self)
  then show ?thesis using sint_uint [of w] by simp
qed

lemma int_div_mod: "int (n div c) * int c + int (n mod c) = int n"
  by (simp only: of_nat_add [symmetric] of_nat_mult [symmetric] div_mult_mod_eq)

theorem to_timespec_exact: "normal_time (to_timespec ns) \<and> ns_of (to_timespec ns) = int (unat ns)"
proof -
  have d: "unat (ns div 1000000000) = unat ns div 1000000000" "unat (ns mod 1000000000) = unat ns mod 1000000000"
    by (simp_all add: unat_div unat_mod)
  have "unat ns < 2 ^ 64" using unsigned_less [of ns] by simp
  then have "unat ns div 1000000000 < 2 ^ 63" "unat ns mod 1000000000 < 2 ^ 63" by simp_all
  then have "to_timespec ns = (int (unat ns div 1000000000), int (unat ns mod 1000000000))"
    by (simp add: to_timespec_def sint_small d)
  moreover have "unat ns mod 1000000000 < 1000000000" by simp
  moreover have "int (unat ns div 1000000000) * 1000000000 + int (unat ns mod 1000000000) = int (unat ns)"
    using int_div_mod [of "unat ns" 1000000000] by (simp only: of_nat_numeral)
  ultimately show ?thesis by (simp add: normal_time_def ns_of_def)
qed

lemma duration_of_ns:
  assumes "0 \<le> ns_of t" "ns_of t < 2 ^ 64"
  shows "int (unat (duration_of t)) = ns_of t"
proof -
  have "duration_of t = word_of_int (ns_of t)" by (simp add: duration_of_def ns_of_def)
  moreover have "uint (word_of_int (ns_of t) :: 64 word) = ns_of t"
    unfolding uint_word_of_int using assms by simp
  ultimately show ?thesis by simp
qed

text \<open>How long a sleep is. For a time that is not negative and is below 2^64 nanoseconds, \<open>nanosleep\<close> sleeps once, for exactly that time; an absolute
  \<open>clock_nanosleep\<close> sleeps for exactly what is left until then by the clock named, and for nothing where that time has come. A negative number of seconds is not
  refused: it wraps, and the sleep is of more than five hundred years.\<close>

theorem sleep_exact:
  assumes "0 \<le> ns_of t" "ns_of t < 2 ^ 64" "has flags TIMER_ABSTIME"
  shows "sys_nanosleep K (Some t) e = (0, time_sleep K (nat (ns_of t)) e)
    \<and> sys_clock_nanosleep K C clk flags (Some t) e =
        (0, time_sleep K (nat (ns_of t) - unat (if clk = CLOCK_REALTIME then time_wall K e else time_monotonic C e)) e)
    \<and> sys_nanosleep K (Some (-1, 0)) e = (0, time_sleep K 18446744072709551616 e)"
proof (intro conjI)
  note d = duration_of_ns [OF assms(1,2)]
  have u: "unat (duration_of t) = nat (ns_of t)" using d by linarith
  show "sys_nanosleep K (Some t) e = (0, time_sleep K (nat (ns_of t)) e)" by (simp add: sys_nanosleep_def u)
  let ?now = "if clk = CLOCK_REALTIME then time_wall K e else time_monotonic C e"
  have "unat (if ?now < duration_of t then duration_of t - ?now else 0) = unat (duration_of t) - unat ?now"
    by (simp add: unat_sub word_less_nat_alt less_imp_le word_le_nat_alt)
  then show "sys_clock_nanosleep K C clk flags (Some t) e = (0, time_sleep K (nat (ns_of t) - unat ?now) e)"
    using assms(3) unfolding sys_clock_nanosleep_def Let_def by (simp add: u)
  show "sys_nanosleep K (Some (-1, 0)) e = (0, time_sleep K 18446744072709551616 e)"
    by (simp add: sys_nanosleep_def duration_of_def)
qed

theorem sleep_exact_witness:
  "sys_nanosleep (bare_kal\<lparr>time_sleep := (\<lambda>n e. e + n)\<rparr>) (Some (2, 5)) 0 = (0, 2000000005)"
  using sleep_exact [of "(2, 5)" TIMER_ABSTIME "bare_kal\<lparr>time_sleep := (\<lambda>n e. e + n)\<rparr>" 0] by (simp add: ns_of_def has_def)

text \<open>What a program is told of a signal is what is in effect. A request succeeds exactly when it asks for nothing or for the disposition in effect,
  which is to ignore SIGPIPE and the default for every other; what was in effect is what is answered.\<close>

theorem sigaction_honest:
  fixes signo :: int
  assumes "room \<le> 128"
  defines "effective \<equiv> (if signo = SIGPIPE then SIG_IGN else SIG_DFL)"
  shows "(fst (sys_rt_sigaction signo act old room) = 0 \<longleftrightarrow> act \<in> {None, Some effective})
    \<and> (old \<longrightarrow> snd (sys_rt_sigaction signo act old room) = Some effective)"
  using assms by (auto simp: sys_rt_sigaction_def Let_def split: option.splits)

text \<open>\<open>statx\<close> reads \<open>AT_EMPTY_PATH\<close> (0x1000) in the mask too, where that bit is a request for the identity of the mount: an empty name without the flag is then answered by
  the descriptor's own attributes, where \<open>fstatat\<close> with the same flags fails.\<close>

theorem statx_mask_bit:
  assumes "do_fstat K fd s = Inr st"
  shows "sys_statx K fd (Some []) 0 0x1000 s = Inr (statx_of st) \<and> sys_statx K fd (Some []) 0 0x7ff s =
    (case do_fstatat K fd (Some []) 0 s of Inl r \<Rightarrow> Inl r | Inr st \<Rightarrow> Inr (statx_of st))"
  using assms by (simp add: sys_statx_def has_def)

lemma length_set_bits_of [simp]: "length (set_bits_of i n out) = length out"
  by (induction i n out rule: set_bits_of.induct) simp_all

text \<open>The processors: for a room of whole words the count of bytes answered is within it, and is the words that hold a bit for each processor there is room for. For a room that
  is not whole words the count may pass it: twelve bytes and eighty processors answer sixteen.\<close>

theorem affinity_count:
  assumes "8 dvd cap" "8 \<le> cap" "0 < n"
  shows "(\<exists>r out. sys_sched_getaffinity (Some (\<lambda>_. n)) cap True = Inr (r, out) \<and> length out = cap
      \<and> r \<le> cap \<and> min n (cap * 8) \<le> r * 8 \<and> r * 8 < min n (cap * 8) + 64)
    \<and> (\<exists>out. sys_sched_getaffinity (Some (\<lambda>_. 80)) 12 True = Inr (16, out) \<and> length out = 12)"
proof -
  obtain k where k: "cap = 8 * k" using assms(1) by (auto elim: dvdE)
  let ?b = "min n (cap * 8)"
  have b: "(if cap * 8 < n then cap * 8 else n) = ?b" by simp
  have "?b \<le> k * 64" by (simp add: k)
  then have "(?b + 63) div 64 \<le> k" by linarith
  moreover have "?b \<le> (?b + 63) div 64 * 64" "(?b + 63) div 64 * 64 < ?b + 64" by linarith+
  ultimately show ?thesis using assms(2,3) by (auto simp: sys_sched_getaffinity_def b Let_def k)
qed

theorem affinity_count_witness:
  "\<exists>r out. sys_sched_getaffinity (Some (\<lambda>_. 4)) 128 True = Inr (r, out) \<and> length out = 128 \<and> r \<le> 128"
  using affinity_count [of 128 4] by auto

end
