(* ===== verification/Okm_Start.thy ===== *)
theory Okm_Start
  imports Okm_Region
begin

text \<open>
  The start of a program (port/src/okm_start.c): the arguments and the named values, taken from openkal and kept as C strings; \<open>getenv\<close> and
  what stands for it while a snapshot's initialisers run; the page the library reports; and the bytes the guard of the stack is made of.
\<close>

section \<open>The code\<close>

text \<open>\<open>openkal.env\<close> and \<open>kal_alloc\<close>. A question carries the capacity of its buffer; the answer is the length of the value, negative when there is
  none, and the bytes put into the buffer. Whether the \<open>k\<close>-th request of the start for so many bytes is met is \<open>env_alloc\<close>.\<close>

record kal_env =
  env_arg_count :: nat
  env_arg :: "nat \<Rightarrow> nat \<Rightarrow> int \<times> string"
  env_var_count :: nat
  env_var_at :: "nat \<Rightarrow> nat \<Rightarrow> int \<times> string"
  env_var :: "string \<Rightarrow> nat \<Rightarrow> int \<times> string"
  env_alloc :: "nat \<Rightarrow> nat \<Rightarrow> bool"

text \<open>A C string is read up to its first null character.\<close>

definition c_string :: "string \<Rightarrow> string" where
  "c_string s = takeWhile (\<lambda>c. c \<noteq> CHR 0x00) s"

text \<open>The loop of \<open>okm_take_args\<close>: the number of the next request for memory, the index, and \<open>g_argv_store\<close> up to \<open>g_argc\<close>.\<close>

function take_args_loop :: "kal_env \<Rightarrow> nat \<Rightarrow> nat \<Rightarrow> string list \<Rightarrow> string list \<times> nat" where
  "take_args_loop E k i out =
     (if i < env_arg_count E \<and> length out < 255 then
        (let len = fst (env_arg E i 0) in
         if len < 0 then (out, k)
         else if \<not> env_alloc E k (nat len + 1) then (out, Suc k)
         else
           let (len2, p) = env_arg E i (nat len) in
           if len2 \<noteq> len then (out, Suc k)
           else take_args_loop E (Suc k) (Suc i) (out @ [p]))
      else (out, k))"
  by pat_completeness auto
termination
  by (relation "measure (\<lambda>(E, k, i, out). env_arg_count E - i)") auto

declare take_args_loop.simps [simp del]

definition okm_take_args :: "kal_env \<Rightarrow> nat \<Rightarrow> string list \<times> nat" where
  "okm_take_args E k = take_args_loop E k 0 []"

text \<open>\<open>__progname\<close>: what follows the last separator of the first argument.\<close>

fun after_slash :: "string \<Rightarrow> string \<Rightarrow> string" where
  "after_slash found [] = found"
| "after_slash found (c # q) = after_slash (if c = CHR ''/'' then q else found) q"

definition progname :: "string list \<Rightarrow> string" where
  "progname args = (let full = (if args \<noteq> [] then c_string (hd args) else []) in after_slash full full)"

text \<open>The loop of \<open>__okm_init_env\<close>: a name, its value by that name, and the two as one entry.\<close>

function init_env_loop :: "kal_env \<Rightarrow> nat \<Rightarrow> nat \<Rightarrow> string list \<Rightarrow> string list" where
  "init_env_loop E k i out =
     (if i < env_var_count E \<and> length out < 511 then
        (let nlen = fst (env_var_at E i 0) in
         if nlen < 0 then out
         else if \<not> env_alloc E k (nat nlen + 1) then out
         else
           let (nlen2, name) = env_var_at E i (nat nlen) in
           if nlen2 \<noteq> nlen then out
           else
             let vlen = fst (env_var E name 0);
                 have_n = (if vlen < 0 then 0 else nat vlen) in
             if \<not> env_alloc E (Suc k) (nat nlen + have_n + 2) then out
             else init_env_loop E (Suc (Suc k)) (Suc i)
                    (out @ [name @ CHR ''='' # (if have_n \<noteq> 0 then snd (env_var E name have_n) else [])]))
      else out)"
  by pat_completeness auto
termination
  by (relation "measure (\<lambda>(E, k, i, out). env_var_count E - i)") auto

declare init_env_loop.simps [simp del]

text \<open>\<open>__okm_init_env\<close>: \<open>g_argv_store\<close> and \<open>__environ\<close>.\<close>

definition okm_init_env :: "kal_env \<Rightarrow> string list \<times> string list" where
  "okm_init_env E = (let (args, k) = okm_take_args E 0 in (args, init_env_loop E k 0 []))"

text \<open>One entry of \<open>__environ\<close>, for a name of \<open>l\<close> characters: \<open>!strncmp(name, *e, l) && l[*e] == '='\<close>; past the end of the entry is its null
  character.\<close>

definition entry_of :: "string \<Rightarrow> nat \<Rightarrow> string \<Rightarrow> bool" where
  "entry_of name l e \<longleftrightarrow> take l e = take l name \<and> l < length e \<and> e ! l = CHR ''=''"

fun environ_find :: "string \<Rightarrow> nat \<Rightarrow> string list \<Rightarrow> string option" where
  "environ_find name l [] = None"
| "environ_find name l (e # es) =
     (if entry_of name l e then Some (c_string (drop (l + 1) e)) else environ_find name l es)"

text \<open>\<open>sealing_getenv\<close>: the answers kept, of which there are at most 64, with the new one; the two requests for memory are the \<open>k\<close>-th and
  \<open>k + 1\<close>-th.\<close>

definition sealing_getenv ::
  "kal_env \<Rightarrow> nat \<Rightarrow> string \<Rightarrow> (string \<times> string option) list \<Rightarrow> string option \<times> (string \<times> string option) list" where
  "sealing_getenv E k name asked =
     (case map_of asked name of
        Some value \<Rightarrow> (value, asked)
      | None \<Rightarrow>
          let n = fst (env_var E name 0);
              value = (if n \<ge> 0 \<and> env_alloc E k (nat n + 1) then
                         (let (n2, v) = env_var E name (nat n) in if n2 \<noteq> n then Some [] else Some (c_string v))
                       else None)
          in (value, if length asked < 64 \<and> env_alloc E (Suc k) (length name + 1) then asked @ [(name, value)] else asked))"

text \<open>\<open>getenv\<close>, on \<open>__okrun_snapshot.phase\<close>, the named values, and the answers kept while a snapshot is made. The name is a C string.\<close>

definition getenv ::
  "kal_env \<Rightarrow> nat \<Rightarrow> bool \<Rightarrow> string \<Rightarrow> string list option \<Rightarrow> (string \<times> string option) list
     \<Rightarrow> string option \<times> (string \<times> string option) list" where
  "getenv E k sealing name environ asked =
     (let l = length (takeWhile (\<lambda>c. c \<noteq> CHR ''='') name) in
      if sealing then (if l \<noteq> 0 \<and> l = length name then sealing_getenv E k name asked else (None, asked))
      else if l \<noteq> 0 \<and> l = length name then
        (case environ of None \<Rightarrow> (None, asked) | Some es \<Rightarrow> (environ_find name l es, asked))
      else (None, asked))"

text \<open>\<open>fill_random\<close>: the state it starts from, one step of it, and the byte of it that is used.\<close>

definition random_seed :: "64 word \<Rightarrow> 64 word \<Rightarrow> 64 word \<Rightarrow> 64 word" where
  "random_seed wall monotonic here =
     (let x = (wall XOR (monotonic * 6364136223846793005)) XOR here in if x = 0 then 88172645463325252 else x)"

definition random_next :: "64 word \<Rightarrow> 64 word" where
  "random_next x =
     (let x1 = x XOR push_bit 13 x; x2 = x1 XOR drop_bit 7 x1 in x2 XOR push_bit 17 x2)"

fun random_bytes :: "nat \<Rightarrow> 64 word \<Rightarrow> byte list" where
  "random_bytes 0 x = []"
| "random_bytes (Suc n) x = (let y = random_next x in ucast (drop_bit 24 y) # random_bytes n y)"

definition fill_random :: "64 word \<Rightarrow> 64 word \<Rightarrow> 64 word \<Rightarrow> byte list" where
  "fill_random wall monotonic here = random_bytes 16 (random_seed wall monotonic here)"

text \<open>\<open>take_page_size\<close>, whose loop is that of the granularity of \<open>okm_region.c\<close>: 4096 doubled, until it is no less than the granularity
  or has left the word.\<close>

definition take_page_size :: "kal_uintptr \<Rightarrow> kal_uintptr" where
  "take_page_size g =
     (if g < 4096 then 4096
      else if g AND (g - 1) \<noteq> 0 then (let p = grain_loop g 0 in if p \<noteq> 0 then p else 4096)
      else g)"

section \<open>What openkal answers\<close>

text \<open>What openkal's documentation says of these questions: the length is the value's own whatever the capacity, the bytes are as many as the buffer
  holds, and the answers do not change; a name that is enumerated has the value it is looked up with.\<close>

definition counted :: "string \<Rightarrow> nat \<Rightarrow> int \<times> string" where
  "counted s cap = (int (length s), take cap s)"

definition answers_args :: "kal_env \<Rightarrow> string list \<Rightarrow> bool" where
  "answers_args E args \<longleftrightarrow> env_arg_count E = length args \<and> (\<forall>i < length args. \<forall>cap. env_arg E i cap = counted (args ! i) cap)"

definition answers_vars :: "kal_env \<Rightarrow> (string \<times> string) list \<Rightarrow> bool" where
  "answers_vars E vars \<longleftrightarrow> env_var_count E = length vars \<and> distinct (map fst vars)
     \<and> (\<forall>i < length vars. \<forall>cap. env_var_at E i cap = counted (fst (vars ! i)) cap)
     \<and> (\<forall>i < length vars. \<forall>cap. env_var E (fst (vars ! i)) cap = counted (snd (vars ! i)) cap)"

definition never_short :: "kal_env \<Rightarrow> bool" where
  "never_short E \<longleftrightarrow> (\<forall>k n. env_alloc E k n)"

lemma counted_simps [simp]: "fst (counted s cap) = int (length s)" "snd (counted s cap) = take cap s"
  by (simp_all add: counted_def)

section \<open>The arguments and the named values\<close>

lemma take_args_step:
  assumes "answers_args E args" "never_short E"
  shows "take_args_loop E k i out =
    (if i < length args \<and> length out < 255 then take_args_loop E (Suc k) (Suc i) (out @ [args ! i]) else (out, k))"
  using assms by (subst take_args_loop.simps) (simp add: answers_args_def never_short_def Let_def counted_def)

lemma take_args_from:
  assumes "answers_args E args" "never_short E" "length out \<le> 255"
  shows "fst (take_args_loop E k i out) = out @ take (255 - length out) (drop i args)"
  using assms(3)
proof (induction "length args - i" arbitrary: k i out)
  case 0
  then show ?case by (subst take_args_step [OF assms(1, 2)]) simp
next
  case (Suc n)
  show ?case
  proof (cases "length out < 255")
    case True
    then obtain m where m: "255 - length out = Suc m" by (metis Suc_diff_Suc)
    have i: "i < length args" using Suc.hyps(2) by simp
    have "take (255 - length out) (drop i args) = args ! i # take m (drop (Suc i) args)"
      using i m by (simp add: Cons_nth_drop_Suc [symmetric])
    moreover have "255 - length (out @ [args ! i]) = m" using m by simp
    ultimately show ?thesis
      using Suc.hyps True i by (subst take_args_step [OF assms(1, 2)]) simp
  next
    case False
    then show ?thesis by (subst take_args_step [OF assms(1, 2)]) simp
  qed
qed

text \<open>An entry of \<open>__environ\<close>: the name, the sign, and the value.\<close>

definition env_entry :: "string \<times> string \<Rightarrow> string" where
  "env_entry nv = fst nv @ CHR ''='' # snd nv"

lemma init_env_step:
  assumes "answers_vars E vars" "never_short E"
  shows "init_env_loop E k i out =
    (if i < length vars \<and> length out < 511 then init_env_loop E (Suc (Suc k)) (Suc i) (out @ [env_entry (vars ! i)]) else out)"
  using assms by (subst init_env_loop.simps) (simp add: answers_vars_def never_short_def Let_def counted_def env_entry_def)

lemma init_env_from:
  assumes "answers_vars E vars" "never_short E" "length out + (length vars - i) \<le> 511"
  shows "init_env_loop E k i out = out @ map env_entry (drop i vars)"
  using assms(3)
proof (induction "length vars - i" arbitrary: k i out)
  case 0
  then show ?case by (subst init_env_step [OF assms(1, 2)]) simp
next
  case (Suc n)
  have i: "i < length vars" using Suc.hyps(2) by simp
  have "init_env_loop E k i out = init_env_loop E (Suc (Suc k)) (Suc i) (out @ [env_entry (vars ! i)])"
    using Suc.prems i init_env_step [OF assms(1, 2), of k i out] by force
  also have "\<dots> = out @ env_entry (vars ! i) # map env_entry (drop (Suc i) vars)"
    using Suc.hyps Suc.prems i by simp
  finally show ?case using i by (simp add: Cons_nth_drop_Suc [symmetric])
qed

lemma init_env_all:
  assumes "answers_vars E vars" "never_short E" "length vars \<le> 511"
  shows "snd (okm_init_env E) = map env_entry vars"
  using init_env_from [OF assms(1, 2), of "[]" 0] assms(3) by (simp add: okm_init_env_def split: prod.split)

lemma entry_of_entry:
  assumes "CHR ''='' \<notin> set name" "CHR ''='' \<notin> set n"
  shows "entry_of name (length name) (env_entry (n, v)) \<longleftrightarrow> n = name"
proof
  assume e: "entry_of name (length name) (env_entry (n, v))"
  have "length n \<le> length name"
  proof (rule ccontr)
    assume "\<not> ?thesis"
    then have "CHR ''='' = n ! length name" "length name < length n"
      using e by (simp_all add: entry_of_def env_entry_def nth_append)
    then show False using assms(2) nth_mem by metis
  qed
  moreover have "\<not> length n < length name"
  proof
    assume l: "length n < length name"
    have "name ! length n = take (length name) (env_entry (n, v)) ! length n" using e by (simp add: entry_of_def)
    also have "\<dots> = CHR ''=''" using l by (simp add: env_entry_def nth_append)
    finally show False using assms(1) l nth_mem by metis
  qed
  ultimately show "n = name" using e by (simp add: entry_of_def env_entry_def)
qed (simp add: entry_of_def env_entry_def)

lemma environ_find_entries:
  assumes "CHR ''='' \<notin> set name" "\<And>n v. (n, v) \<in> set vars \<Longrightarrow> CHR ''='' \<notin> set n"
  shows "environ_find name (length name) (map env_entry vars) = map_option c_string (map_of vars name)"
  using assms(2)
proof (induction vars)
  case (Cons nv vars)
  obtain n v where "nv = (n, v)" by (cases nv)
  moreover have "CHR ''='' \<notin> set n" using Cons.prems [of n v] calculation by simp
  moreover have "env_entry (name, v) = name @ CHR ''='' # v" by (simp add: env_entry_def)
  ultimately show ?case using Cons entry_of_entry [OF assms(1), of n v] by auto
qed simp

text \<open>C33: a program reads in its environment exactly what it was started with. Over an openkal that answers with the named values \<open>vars\<close> (each
  name once and without a sign of equality, no more than the 511 the table holds) and has the memory, \<open>getenv\<close> of a name after \<open>__okm_init_env\<close>
  is the value of that name, up to its first null character, and is null for a name that was not given and for one that is no name, empty or
  with a sign of equality.\<close>

theorem getenv_what_was_given:
  assumes "answers_vars E vars" and "never_short E" and "length vars \<le> 511"
    and "\<And>n v. (n, v) \<in> set vars \<Longrightarrow> n \<noteq> [] \<and> CHR ''='' \<notin> set n"
  shows "getenv E k False name (Some (snd (okm_init_env E))) asked = (map_option c_string (map_of vars name), asked)"
proof -
  have v: "map_of vars name = None" if "name = [] \<or> CHR ''='' \<in> set name"
    using that assms(4) by (cases "map_of vars name") (auto dest: map_of_SomeD)
  show ?thesis
  proof (cases "name = [] \<or> CHR ''='' \<in> set name")
    case True
    then have "name = [] \<or> length (takeWhile (\<lambda>c. c \<noteq> CHR ''='') name) < length name"
      by (auto dest!: split_list simp: takeWhile_tail le_less_trans [OF length_takeWhile_le])
    then show ?thesis using v [OF True] by (auto simp: getenv_def Let_def)
  next
    case False
    then have tw: "takeWhile (\<lambda>c. c \<noteq> CHR ''='') name = name" by (auto simp: takeWhile_eq_all_conv)
    have "environ_find name (length name) (map env_entry vars) = map_option c_string (map_of vars name)"
      using False assms(4) by (intro environ_find_entries) blast+
    then show ?thesis
      using False unfolding getenv_def Let_def tw by (simp add: init_env_all [OF assms(1-3)])
  qed
qed

text \<open>The arguments are the first 255 of those the program was started with, in their order; a program started with more is not told.\<close>

theorem arguments_taken:
  assumes "answers_args E args" and "never_short E"
  shows "fst (okm_init_env E) = take 255 args"
  using take_args_from [OF assms, of "[]" 0 0] by (simp add: okm_init_env_def okm_take_args_def case_prod_beta)

text \<open>A witness: two named values and one argument.\<close>

definition start_vars :: "(string \<times> string) list" where
  "start_vars = [(''HOME'', ''/root''), (''E'', [])]"

definition start_env :: kal_env where
  "start_env = \<lparr>env_arg_count = 1, env_arg = (\<lambda>i cap. if i = 0 then counted ''/bin/sh'' cap else (- 1, [])),
     env_var_count = 2,
     env_var_at = (\<lambda>i cap. if i = 0 then counted ''HOME'' cap else if i = 1 then counted ''E'' cap else (- 1, [])),
     env_var = (\<lambda>n cap. case map_of start_vars n of None \<Rightarrow> (- 1, []) | Some v \<Rightarrow> counted v cap),
     env_alloc = (\<lambda>k n. True)\<rparr>"

lemma start_answers: "answers_vars start_env start_vars" "answers_args start_env [''/bin/sh'']" "never_short start_env"
  by (auto simp: answers_vars_def answers_args_def never_short_def start_env_def start_vars_def less_Suc_eq)

theorem getenv_what_was_given_witness:
  "getenv start_env 0 False ''HOME'' (Some (snd (okm_init_env start_env))) [] = (Some ''/root'', [])"
proof -
  have "\<And>n v. (n, v) \<in> set start_vars \<Longrightarrow> n \<noteq> [] \<and> CHR ''='' \<notin> set n"
    by (auto simp: start_vars_def)
  from getenv_what_was_given [OF start_answers(1, 3) _ this, where k = 0 and name = "''HOME''" and asked = "[]"] show ?thesis
    by (simp add: start_vars_def c_string_def)
qed

theorem arguments_taken_witness: "fst (okm_init_env start_env) = [''/bin/sh'']"
  using arguments_taken [OF start_answers(2, 3)] by simp

section \<open>The name of the program\<close>

lemma after_slash_none: "CHR ''/'' \<notin> set q \<Longrightarrow> after_slash found q = found"
  by (induction found q rule: after_slash.induct) auto

lemma after_slash_last: "CHR ''/'' \<notin> set b \<Longrightarrow> after_slash found (a @ CHR ''/'' # b) = b"
  by (induction a arbitrary: found) (simp_all add: after_slash_none)

text \<open>\<open>__progname\<close> is the last component of the first argument: it has no separator, and the argument ends with it, after a separator if there is
  more.\<close>

theorem progname_last_component:
  "CHR ''/'' \<notin> set (progname args)
   \<and> (\<exists>d. (if args = [] then [] else c_string (hd args)) = d @ progname args \<and> (d = [] \<or> last d = CHR ''/''))"
proof -
  define full where "full = (if args = [] then [] else c_string (hd args))"
  have p: "progname args = after_slash full full" by (simp add: progname_def full_def Let_def)
  show ?thesis
  proof (cases "CHR ''/'' \<in> set full")
    case True
    then obtain a b where ab: "full = a @ CHR ''/'' # b" "CHR ''/'' \<notin> set b" using split_list_last by metis
    then have "full = (a @ [CHR ''/'']) @ b" by simp
    moreover have "progname args = b" using p ab after_slash_last by metis
    ultimately show ?thesis using ab(2) unfolding full_def [symmetric] by (metis last_snoc)
  next
    case False
    then show ?thesis using after_slash_none p unfolding full_def [symmetric] by simp
  qed
qed

section \<open>While a snapshot is made\<close>

text \<open>A name asked for twice while the initialisers run is answered the same, as long as what was asked first was kept.\<close>

theorem sealing_asked_again:
  assumes "sealing_getenv E k name asked = (v, asked')" and "length asked < 64" and "env_alloc E (Suc k) (length name + 1)"
  shows "sealing_getenv E' k' name asked' = (v, asked')"
  using assms by (auto simp: sealing_getenv_def Let_def map_add_def split: option.splits)

lemma sealing_bounded: "length asked \<le> 64 \<Longrightarrow> length (snd (sealing_getenv E k name asked)) \<le> 64"
  by (simp add: sealing_getenv_def Let_def split: option.split)

section \<open>The bytes of the guard\<close>

lemma xor_shift_left_inj:
  assumes "x XOR push_bit n x = y XOR push_bit n y" "0 < n"
  shows "x = (y :: 64 word)"
proof (rule bit_word_eqI)
  fix i assume "i < LENGTH(64)"
  have b: "bit (x XOR push_bit n x) j = bit (y XOR push_bit n y) j" for j using assms(1) by simp
  have "i < 64 \<Longrightarrow> bit x i = bit y i" for i
  proof (induction i rule: less_induct)
    case (less i)
    then show ?case using b [of i] assms(2) by (auto simp: bit_xor_iff bit_push_bit_iff)
  qed
  then show "bit x i = bit y i" using \<open>i < LENGTH(64)\<close> by simp
qed

lemma xor_shift_right_inj:
  assumes "x XOR drop_bit n x = y XOR drop_bit n y" "0 < n"
  shows "x = (y :: 64 word)"
proof (rule bit_word_eqI)
  fix i assume "i < LENGTH(64)"
  have b: "bit (x XOR drop_bit n x) j = bit (y XOR drop_bit n y) j" for j using assms(1) by simp
  have "d \<le> 64 \<Longrightarrow> bit x (64 - d) = bit y (64 - d)" for d
  proof (induction d rule: less_induct)
    case (less d)
    show ?case
    proof (cases "d = 0")
      case True
      then show ?thesis by (simp add: bit_word.rep_eq)
    next
      case False
      have "bit x (64 - d + n) = bit y (64 - d + n)"
      proof (cases "64 - d + n < 64")
        case True
        then have "64 - d + n = 64 - (d - n)" "d - n < d" using False assms(2) less.prems by simp_all
        then show ?thesis using less.IH [of "d - n"] less.prems by (metis diff_le_self order_trans)
      next
        case False
        then show ?thesis using bit_imp_le_length [of x "64 - d + n"] bit_imp_le_length [of y "64 - d + n"] by auto
      qed
      then show ?thesis using b [of "64 - d"] by (auto simp: bit_xor_iff bit_drop_bit_eq add.commute)
    qed
  qed
  from this [of "64 - i"] show "bit x i = bit y i" using \<open>i < LENGTH(64)\<close> by simp
qed

text \<open>The generator never sticks: a step loses nothing of its state, so that no two states lead to one, and from a state that is not zero, which is
  the only one it starts from, it never reaches zero, where all bytes would be zero.\<close>

theorem random_never_sticks:
  "inj random_next \<and> random_seed w m h \<noteq> 0 \<and> (random_next ^^ n) (random_seed w m h) \<noteq> 0"
proof -
  have i: "inj random_next"
  proof (rule injI)
    fix x y assume "random_next x = random_next y"
    then have "(x XOR push_bit 13 x) XOR drop_bit 7 (x XOR push_bit 13 x) = (y XOR push_bit 13 y) XOR drop_bit 7 (y XOR push_bit 13 y)"
      unfolding random_next_def Let_def by (rule xor_shift_left_inj) simp
    then have "x XOR push_bit 13 x = y XOR push_bit 13 y" by (rule xor_shift_right_inj) simp
    then show "x = y" by (rule xor_shift_left_inj) simp
  qed
  have z: "random_next 0 = 0" by (simp add: random_next_def)
  have s: "random_seed w m h \<noteq> 0" by (simp add: random_seed_def Let_def)
  have "(random_next ^^ n) (random_seed w m h) \<noteq> 0"
  proof (induction n)
    case (Suc n)
    then show ?case using injD [OF i, of _ 0] z by auto
  qed (simp add: s)
  then show ?thesis using i s by blast
qed

section \<open>The page\<close>

lemma grain_is_page: "grain K e = take_page_size (memory_granularity K e)"
  by (simp add: grain_def take_page_size_def Let_def)

lemma shifted_4096: "push_bit j (4096 :: kal_uintptr) = 2 ^ (j + 12)"
proof -
  have "(4096 :: kal_uintptr) = 2 ^ 12" by simp
  then show ?thesis by (simp add: push_bit_eq_mult power_add del: power_numeral)
qed

lemma grain_loop_reaches:
  assumes "g \<le> 2 ^ 63" "k \<le> 51"
  shows "grain_loop g k \<noteq> 0 \<and> g \<le> grain_loop g k"
  using assms
proof (induction g k rule: grain_loop.induct)
  case (1 g k)
  have u: "unat (2 ^ (k + 12) :: kal_uintptr) = 2 ^ (k + 12)" using "1.prems" by (intro unat_exp) simp
  then have nz: "push_bit k (4096 :: kal_uintptr) \<noteq> 0" unfolding shifted_4096 by (metis power_not_zero unat_0 zero_neq_numeral)
  show ?case
  proof (cases "push_bit k 4096 < g")
    case True
    then have "2 ^ (k + 12) < (2 :: kal_uintptr) ^ 63" using "1.prems"(1) unfolding shifted_4096 by (rule less_le_trans)
    then have "(2 :: nat) ^ (k + 12) < 2 ^ 63"
      using u unat_exp [of 63] by (simp add: word_less_nat_alt del: power_numeral)
    then have "Suc k \<le> 51" using power_less_imp_less_exp [of "2 :: nat" "k + 12" 63] by simp
    then show ?thesis using "1.IH" [OF refl] "1.prems" True nz by (subst (1 2) grain_loop.simps) (simp add: Let_def)
  next
    case False
    then show ?thesis using nz by (subst (1 2) grain_loop.simps) (simp add: Let_def)
  qed
qed

lemma page_power: "\<exists>k < 64. take_page_size g = 2 ^ k"
proof -
  define K :: "unit kal" where "K = bare_kal\<lparr>memory_granularity := \<lambda>_. g\<rparr>"
  have "grain K () = take_page_size g" by (simp add: grain_is_page K_def)
  then show ?thesis using grain_power [of K "()"] by auto
qed

text \<open>The page the library reports is what its comment promises of it: a power of two, no smaller than the 4096 the allocator assumes, no smaller
  than openkal's granularity wherever a power of two of the word is; and it is the very unit by which \<open>okm_region.c\<close> rounds what is mapped.\<close>

theorem page_promises:
  "(\<exists>k < 64. take_page_size g = 2 ^ k) \<and> 4096 \<le> take_page_size g \<and> (g \<le> 2 ^ 63 \<longrightarrow> g \<le> take_page_size g)
   \<and> grain K e = take_page_size (memory_granularity K e)"
proof (intro conjI)
  have "4096 \<le> push_bit j (4096 :: kal_uintptr)" if "push_bit j (4096 :: kal_uintptr) \<noteq> 0" for j
  proof -
    have "j + 12 < 64" using that unfolding shifted_4096 by (rule contrapos_np) (simp add: exp_eq_zero_iff)
    then have "unat (2 ^ (j + 12) :: kal_uintptr) = 2 ^ (j + 12)" by (rule unat_exp)
    then show ?thesis unfolding shifted_4096 word_le_nat_alt by (simp add: power_add)
  qed
  moreover obtain j where "grain_loop g 0 = push_bit j 4096" using grain_loop_value by blast
  ultimately show "4096 \<le> take_page_size g"
    unfolding take_page_size_def Let_def by (cases "g < 4096") (simp_all add: not_less)
  show "g \<le> 2 ^ 63 \<longrightarrow> g \<le> take_page_size g"
  proof
    assume "g \<le> 2 ^ 63"
    then show "g \<le> take_page_size g"
      using grain_loop_reaches [of g 0] unfolding take_page_size_def Let_def by (cases "g < 4096") simp_all
  qed
qed (rule page_power grain_is_page)+

end
