(* ===== verification/Okm_Cache.thy ===== *)
theory Okm_Cache
  imports Okm_Prelude
begin

text \<open>
  The cache of small allocations each thread keeps (port/src/mallocng/okm_malloc_tc.c), over the groups of mallocng it takes slots from and gives
  them back to (musl/src/malloc/mallocng): a slot is at every moment in one place.
\<close>

section \<open>mallocng's groups\<close>

text \<open>\<open>struct meta\<close>, as far as the cache is concerned: which slots of the group are available, which are freed, how many there are, and the
  class of their size. A group is named by its address; a slot is one of its indices.\<close>

record meta =
  avail_mask :: "32 word"
  freed_mask :: "32 word"
  last_idx :: nat
  sizeclass :: nat

type_synonym slot = "nat \<times> nat"

text \<open>\<open>struct malloc_tc\<close>: for each class, the slots kept, the last one kept at the end; \<open>n\<close> is their number.\<close>

type_synonym malloc_tc = "nat \<Rightarrow> slot list"

abbreviation (input) TC_CLASSES :: nat where "TC_CLASSES \<equiv> 24"
abbreviation (input) TC_MAX :: nat where "TC_MAX \<equiv> 16"
abbreviation (input) TC_BATCH :: nat where "TC_BATCH \<equiv> 8"

text \<open>The field of a thread's record, and the cache a thread that ends is giving back (a local variable of \<open>__malloc_tc_flush\<close>).\<close>

datatype tc_field = TC_NONE | TC_PENDING | TC_OFF | TC_HELD malloc_tc

text \<open>The groups there are, the group each class takes from (the head of its list), the threads' caches, and the slots
  the program holds, those in which a group lies among them.\<close>

record heap =
  metas :: "nat \<Rightarrow> meta option"
  active :: "nat \<Rightarrow> nat option"
  field :: "nat \<Rightarrow> tc_field"
  flushing :: "nat \<Rightarrow> malloc_tc"
  used :: "slot set"

definition empty_tc :: malloc_tc where
  "empty_tc = (\<lambda>_. [])"

text \<open>\<open>a_ctz_32\<close>: the number of zeros below the lowest one.\<close>

definition a_ctz_32 :: "32 word \<Rightarrow> nat" where
  "a_ctz_32 w = length (takeWhile (\<lambda>i. \<not> bit w i) [0..<32])"

section \<open>The cache\<close>

fun tc_held :: "tc_field \<Rightarrow> malloc_tc option" where
  "tc_held (TC_HELD tc) = Some tc"
| "tc_held _ = None"

text \<open>\<open>own_cache\<close>, where \<open>mapped\<close> says whether memory was to be had for it.\<close>

definition own_cache :: "nat \<Rightarrow> bool \<Rightarrow> heap \<Rightarrow> malloc_tc option \<times> heap" where
  "own_cache th mapped s =
     (if field s th \<noteq> TC_NONE then (tc_held (field s th), s)
      else if mapped then (Some empty_tc, s\<lparr>field := (field s)(th := TC_HELD empty_tc)\<rparr>)
      else (None, s\<lparr>field := (field s)(th := TC_OFF)\<rparr>))"

text \<open>The last slot kept of a class, taken back.\<close>

definition take_slot :: "nat \<Rightarrow> malloc_tc \<Rightarrow> nat \<Rightarrow> heap \<Rightarrow> slot option \<times> heap" where
  "take_slot th tc c s = (Some (last (tc c)), s\<lparr>field := (field s)(th := TC_HELD (tc(c := butlast (tc c))))\<rparr>)"

definition malloc_tc_take :: "nat \<Rightarrow> bool \<Rightarrow> nat \<Rightarrow> heap \<Rightarrow> slot option \<times> heap" where
  "malloc_tc_take th mapped sc s =
     (if sc \<ge> TC_CLASSES then (None, s)
      else case own_cache th mapped s of
        (None, s1) \<Rightarrow> (None, s1)
      | (Some tc, s1) \<Rightarrow>
          if tc sc \<noteq> [] then take_slot th tc sc s1
          else if sc < 4 \<or> odd sc \<or> sc OR 1 \<ge> TC_CLASSES \<or> tc (sc OR 1) = [] then (None, s1)
          else take_slot th tc (sc OR 1) s1)"

text \<open>The loop of \<open>__malloc_tc_fill\<close>: the available slots of group \<open>g\<close> and the slots the class keeps.\<close>

function fill_loop :: "nat \<Rightarrow> 32 word \<Rightarrow> slot list \<Rightarrow> 32 word \<times> slot list" where
  "fill_loop g m ss =
     (if length ss < TC_BATCH then
        (let first = m AND - m in
         if first = 0 then (m, ss) else fill_loop g (m - first) (ss @ [(g, a_ctz_32 first)]))
      else (m, ss))"
  by pat_completeness auto
termination
  by (relation "measure (\<lambda>(g, m, ss). TC_BATCH - length ss)") auto

declare fill_loop.simps [simp del]

definition malloc_tc_fill :: "nat \<Rightarrow> nat \<Rightarrow> heap \<Rightarrow> heap" where
  "malloc_tc_fill th sc s =
     (if sc \<ge> TC_CLASSES then s
      else case tc_held (field s th) of
        None \<Rightarrow> s
      | Some tc \<Rightarrow>
          (case active s sc of
             None \<Rightarrow> s
           | Some g \<Rightarrow>
               (case metas s g of
                  None \<Rightarrow> s
                | Some m \<Rightarrow>
                    let (a, ss) = fill_loop g (avail_mask m) (tc sc) in
                    s\<lparr>metas := (metas s)(g \<mapsto> m\<lparr>avail_mask := a\<rparr>), field := (field s)(th := TC_HELD (tc(sc := ss)))\<rparr>)))"

definition malloc_tc_give :: "nat \<Rightarrow> nat \<Rightarrow> nat \<Rightarrow> heap \<Rightarrow> bool \<times> heap" where
  "malloc_tc_give th g idx s =
     (case metas s g of
        None \<Rightarrow> (False, s)
      | Some m \<Rightarrow>
          let sc = sizeclass m in
          if sc \<ge> TC_CLASSES \<or> last_idx m = 0 then (False, s)
          else case tc_held (field s th) of
            None \<Rightarrow> (False, s)
          | Some tc \<Rightarrow>
              if length (tc sc) \<ge> TC_MAX then (False, s)
              else (True, s\<lparr>field := (field s)(th := TC_HELD (tc(sc := tc sc @ [(g, idx)])))\<rparr>))"

section \<open>The size of a slot\<close>

text \<open>\<open>size_classes\<close> (malloc.c), in units of sixteen bytes, of which the last four of a slot are mallocng's; \<open>a_clz_32\<close>, the number of zeros above the highest
  one; and \<open>size_to_class\<close> (meta.h).\<close>

definition size_classes :: "nat list" where
  "size_classes = [1, 2, 3, 4, 5, 6, 7, 8, 9, 10, 12, 15, 18, 20, 25, 31, 36, 42, 50, 63, 72, 84, 102, 127,
     146, 170, 204, 255, 292, 340, 409, 511, 584, 682, 818, 1023, 1169, 1364, 1637, 2047, 2340, 2730, 3276, 4095,
     4680, 5460, 6552, 8191]"

definition a_clz_32 :: "nat \<Rightarrow> nat" where
  "a_clz_32 n = length (takeWhile (\<lambda>i. n < 2 ^ (31 - i)) [0..<32])"

definition size_to_class :: "nat \<Rightarrow> nat" where
  "size_to_class n0 =
     (let n = (n0 + 3) div 16 in
      if n < 10 then n
      else
        let n1 = n + 1;
            i = (28 - a_clz_32 n1) * 4 + 8;
            i1 = (if n1 > size_classes ! (i + 1) then i + 2 else i) in
        if n1 > size_classes ! i1 then i1 + 1 else i1)"

section \<open>What mallocng does with a slot given back\<close>

definition slots_mask :: "nat \<Rightarrow> 32 word" where
  "slots_mask l = push_bit l 2 - 1"

text \<open>\<open>__malloc_release_slot\<close> (free.c): a slot that is neither the first nor the last of its group to be freed is freed; the others go through
  \<open>nontrivial_free\<close>, which gives up a group none of whose slots is in use, when \<open>okay\<close> (\<open>okay_to_free\<close>) says so, and puts \<open>heir\<close>, the next of the
  list, at its head; and otherwise lists the group when it was full.\<close>

definition release_slot :: "bool \<Rightarrow> nat option \<Rightarrow> nat \<Rightarrow> nat \<Rightarrow> heap \<Rightarrow> heap" where
  "release_slot okay heir g idx s =
     (case metas s g of
        None \<Rightarrow> s
      | Some m \<Rightarrow>
          let self1 = push_bit idx 1;
              mk = freed_mask m OR avail_mask m;
              kept = s\<lparr>metas := (metas s)(g \<mapsto> m\<lparr>freed_mask := freed_mask m OR self1\<rparr>)\<rparr> in
          if freed_mask m \<noteq> 0 \<and> mk + self1 \<noteq> slots_mask (last_idx m) then
            s\<lparr>metas := (metas s)(g \<mapsto> m\<lparr>freed_mask := freed_mask m + self1\<rparr>)\<rparr>
          else if mk + self1 = slots_mask (last_idx m) \<and> okay then
            s\<lparr>metas := (metas s)(g := None),
              active := (if active s (sizeclass m) = Some g then (active s)(sizeclass m := heir) else active s)\<rparr>
          else if mk = 0 \<and> active s (sizeclass m) = None then kept\<lparr>active := (active s)(sizeclass m \<mapsto> g)\<rparr>
          else kept)"

text \<open>\<open>__malloc_tc_flush\<close>: the field is off before the first slot is given back; one round of its loop.\<close>

definition flush_begin :: "nat \<Rightarrow> heap \<Rightarrow> heap" where
  "flush_begin th s =
     s\<lparr>field := (field s)(th := TC_OFF), flushing := (case tc_held (field s th) of None \<Rightarrow> flushing s | Some tc \<Rightarrow> (flushing s)(th := tc))\<rparr>"

definition flush_one :: "bool \<Rightarrow> nat option \<Rightarrow> nat \<Rightarrow> nat \<Rightarrow> heap \<Rightarrow> heap" where
  "flush_one okay heir th c s =
     (let tc = flushing s th; (g, idx) = last (tc c) in
      release_slot okay heir g idx (s\<lparr>flushing := (flushing s)(th := tc(c := butlast (tc c)))\<rparr>))"

section \<open>malloc and free\<close>

text \<open>\<open>malloc\<close> (malloc.c), under its lock: the lowest available slot of the group the class takes from.\<close>

definition malloc_active :: "nat \<Rightarrow> heap \<Rightarrow> slot option \<times> heap" where
  "malloc_active sc s =
     (case active s sc of
        None \<Rightarrow> (None, s)
      | Some g \<Rightarrow>
          (case metas s g of
             None \<Rightarrow> (None, s)
           | Some m \<Rightarrow>
               let first = avail_mask m AND - avail_mask m in
               if first = 0 then (None, s)
               else (Some (g, a_ctz_32 first), s\<lparr>metas := (metas s)(g \<mapsto> m\<lparr>avail_mask := avail_mask m - first\<rparr>)\<rparr>)))"

text \<open>\<open>activate_group\<close> (meta.h): the freed slots up to \<open>active_idx\<close> become available.\<close>

definition activate_group :: "nat \<Rightarrow> meta \<Rightarrow> meta" where
  "activate_group active_idx m =
     m\<lparr>freed_mask := freed_mask m AND NOT (slots_mask active_idx), avail_mask := freed_mask m AND slots_mask active_idx\<rparr>"

text \<open>The group \<open>alloc_group\<close> (malloc.c) makes of \<open>cnt\<close> slots.\<close>

definition new_group :: "nat \<Rightarrow> nat \<Rightarrow> nat \<Rightarrow> meta" where
  "new_group sc cnt active_idx =
     \<lparr>avail_mask = slots_mask active_idx, freed_mask = slots_mask (cnt - 1) - slots_mask active_idx, last_idx = cnt - 1, sizeclass = sc\<rparr>"

section \<open>Masks\<close>

lemma upt_at: "j < n \<Longrightarrow> [0..<n] = [0..<j] @ j # [Suc j..<n]"
  by (metis less_imp_le_nat upt_conv_Cons upt_add_eq_append le_add_diff_inverse zero_le)

lemma ctz_of:
  assumes "bit w j" "\<And>i. i < j \<Longrightarrow> \<not> bit w i"
  shows "a_ctz_32 w = j"
proof -
  have "j < 32" using bit_imp_le_length [OF assms(1)] by simp
  then have "[0..<32] = [0..<j] @ j # [Suc j..<32]" by (rule upt_at)
  then show ?thesis using assms by (simp add: a_ctz_32_def takeWhile_append)
qed

lemma lowest_bit:
  assumes "w \<noteq> (0 :: 32 word)"
  obtains j where "bit w j" "\<And>i. i < j \<Longrightarrow> \<not> bit w i"
proof -
  obtain i where "bit w i" using assms by (metis bit_eq_iff bit_0_eq bot_apply bot_bool_def)
  then show ?thesis using that LeastI [of "bit w" i] not_less_Least [of _ "bit w"] by blast
qed

lemma bit_pred:
  assumes "bit w j" "\<And>i. i < j \<Longrightarrow> \<not> bit w i"
  shows "bit (w - 1) i \<longleftrightarrow> i < 32 \<and> (i < j \<or> j < i \<and> bit (w :: 32 word) i)"
proof -
  define u where "u = unset_bit j w"
  have j: "j < 32" using bit_imp_le_length [OF assms(1)] by simp
  have "w = u OR push_bit j 1"
    using assms(1) j by (intro bit_word_eqI) (auto simp: u_def bit_simps)
  also have "\<dots> = u + push_bit j 1"
    by (intro disjunctive_add_eq_or [symmetric] bit_word_eqI) (auto simp: u_def bit_simps)
  finally have "w - 1 = u + mask j" by (simp add: mask_eq_exp_minus_1 push_bit_eq_mult)
  also have "\<dots> = u OR mask j"
    using assms(2) by (intro disjunctive_add_eq_or bit_word_eqI) (auto simp: u_def bit_simps)
  finally show ?thesis using assms(2) j by (auto simp: u_def bit_simps dest: bit_imp_le_length)
qed

lemma lowest_alone:
  assumes "bit w j" "\<And>i. i < j \<Longrightarrow> \<not> bit w i"
  shows "w AND - w = push_bit j (1 :: 32 word)"
proof (rule bit_word_eqI)
  fix i assume "i < LENGTH(32)"
  then show "bit (w AND - w) i = bit (push_bit j (1 :: 32 word)) i"
    using assms bit_pred [OF assms, of i] by (auto simp: minus_eq_not_minus_1 bit_simps)
qed

lemma minus_bit:
  assumes "bit w j"
  shows "w - push_bit j 1 = unset_bit j (w :: 32 word)"
proof -
  have "j < 32" using bit_imp_le_length [OF assms] by simp
  then have "w = unset_bit j w OR push_bit j 1" using assms by (intro bit_word_eqI) (auto simp: bit_simps)
  also have "\<dots> = unset_bit j w + push_bit j 1"
    by (intro disjunctive_add_eq_or [symmetric] bit_word_eqI) (auto simp: bit_simps)
  finally show ?thesis by (simp add: algebra_simps)
qed

text \<open>Taking the lowest of a mask: its index, and the mask without it.\<close>

lemma take_first:
  assumes "w AND - w \<noteq> (0 :: 32 word)"
  obtains j where "bit w j" "a_ctz_32 (w AND - w) = j" "w - (w AND - w) = unset_bit j w" "j < 32"
proof -
  have "w \<noteq> 0" using assms by auto
  then obtain j where j: "bit w j" "\<And>i. i < j \<Longrightarrow> \<not> bit w i" using lowest_bit by metis
  have l: "j < 32" using bit_imp_le_length [OF j(1)] by simp
  then have "a_ctz_32 (push_bit j 1) = j" by (intro ctz_of) (auto simp: bit_simps)
  then show ?thesis using that [of j] j l lowest_alone [OF j] minus_bit [OF j(1)] by simp
qed

lemma bit_slots_mask: "l < 32 \<Longrightarrow> bit (slots_mask l) i \<longleftrightarrow> i \<le> l"
proof -
  assume "l < 32"
  have "slots_mask l = mask (Suc l)" by (simp add: slots_mask_def mask_eq_exp_minus_1 push_bit_eq_mult)
  then show ?thesis using \<open>l < 32\<close> by (auto simp: bit_simps)
qed

lemma plus_bit:
  assumes "\<not> bit w j"
  shows "w + push_bit j 1 = w OR push_bit j (1 :: 32 word)"
  using assms by (intro disjunctive_add_eq_or bit_word_eqI) (auto simp: bit_simps)

lemma bit_self: "j < 32 \<Longrightarrow> bit (w OR push_bit j (1 :: 32 word)) i \<longleftrightarrow> bit w i \<or> i = j"
  by (auto simp: bit_simps)

lemma fill_loop_spec:
  "fill_loop g m ss = (a, ss') \<Longrightarrow>
   \<exists>new. ss' = ss @ map (Pair g) new \<and> distinct new \<and> (\<forall>i \<in> set new. bit m i) \<and> (\<forall>i. bit a i \<longleftrightarrow> bit m i \<and> i \<notin> set new)
     \<and> (length ss \<le> TC_MAX \<longrightarrow> length ss' \<le> TC_MAX)"
proof (induction g m ss arbitrary: a ss' rule: fill_loop.induct)
  case (1 g m ss)
  show ?case
  proof (cases "length ss < TC_BATCH \<and> m AND - m \<noteq> 0")
    case True
    then obtain j where j: "bit m j" "a_ctz_32 (m AND - m) = j" "m - (m AND - m) = unset_bit j m" "j < 32"
      using take_first by metis
    have "fill_loop g (unset_bit j m) (ss @ [(g, j)]) = (a, ss')"
      using "1.prems" True j by (subst (asm) fill_loop.simps) simp
    then obtain new where n: "ss' = (ss @ [(g, j)]) @ map (Pair g) new" "distinct new"
        "\<forall>i \<in> set new. bit (unset_bit j m) i" "\<forall>i. bit a i \<longleftrightarrow> bit (unset_bit j m) i \<and> i \<notin> set new"
        "length (ss @ [(g, j)]) \<le> TC_MAX \<longrightarrow> length ss' \<le> TC_MAX"
      using "1.IH" [OF conjunct1 [OF True] refl conjunct2 [OF True]] j by metis
    show ?thesis
      using n j True by (intro exI [of _ "j # new"]) (auto simp: bit_unset_bit_iff)
  next
    case False
    then have "a = m" "ss' = ss" using "1.prems" by (subst (asm) fill_loop.simps, auto simp: Let_def split: if_splits)+
    then show ?thesis by (intro exI [of _ "[]"]) simp
  qed
qed

section \<open>The steps of any number of threads\<close>

text \<open>What a call of \<open>malloc\<close> answers is the program's.\<close>

fun hand :: "slot option \<Rightarrow> heap \<Rightarrow> heap" where
  "hand None s = s"
| "hand (Some x) s = s\<lparr>used := insert x (used s)\<rparr>"

definition class_of :: "heap \<Rightarrow> nat \<Rightarrow> nat option" where
  "class_of s g = map_option sizeclass (metas s g)"

definition heads :: "heap \<Rightarrow> nat \<Rightarrow> nat option \<Rightarrow> bool" where
  "heads s c h \<longleftrightarrow> (case h of None \<Rightarrow> True | Some g \<Rightarrow> class_of s g = Some c)"

text \<open>A thread takes a slot from its cache, or finds none; it maps its cache, while which it may be asked for memory; it is served under the lock, and
  the fill that follows is a step of its own; it frees what the program holds, to its cache or to mallocng; it ends, giving back its cache slot by slot. mallocng activates freed
  slots, makes groups, maps an allocation of its own, and changes the group a class takes from. The choices mallocng makes are any.\<close>

inductive cache_step :: "heap \<Rightarrow> heap \<Rightarrow> bool" where
  step_take: "malloc_tc_take th mapped sc s = (r, s1) \<Longrightarrow> cache_step s (hand r s1)"
| step_pend: "field s th = TC_NONE \<Longrightarrow> cache_step s (s\<lparr>field := (field s)(th := TC_PENDING)\<rparr>)"
| step_settle: "field s th = TC_PENDING \<Longrightarrow> f = TC_OFF \<or> f = TC_HELD empty_tc \<Longrightarrow> cache_step s (s\<lparr>field := (field s)(th := f)\<rparr>)"
| step_alloc: "malloc_active sc s = (Some x, s1) \<Longrightarrow> cache_step s (hand (Some x) s1)"
| step_fill: "cache_step s (malloc_tc_fill th sc s)"
| step_keep: "(g, i) \<in> used s \<Longrightarrow> malloc_tc_give th g i (s\<lparr>used := used s - {(g, i)}\<rparr>) = (True, s1) \<Longrightarrow> cache_step s s1"
| step_release: "(g, i) \<in> used s \<Longrightarrow> (\<And>c. class_of s g = Some c \<Longrightarrow> heads s c heir) \<Longrightarrow> heir \<noteq> Some g \<Longrightarrow>
    cache_step s (release_slot okay heir g i (s\<lparr>used := used s - {(g, i)}\<rparr>))"
| step_flush: "flushing s th = empty_tc \<Longrightarrow> cache_step s (flush_begin th s)"
| step_leave: "flushing s th c \<noteq> [] \<Longrightarrow> heads s c heir \<Longrightarrow> heir \<noteq> Some (fst (last (flushing s th c))) \<Longrightarrow>
    cache_step s (flush_one okay heir th c s)"
| step_activate: "metas s g = Some m \<Longrightarrow> avail_mask m = 0 \<Longrightarrow> a \<le> last_idx m \<Longrightarrow>
    cache_step s (s\<lparr>metas := (metas s)(g \<mapsto> activate_group a m)\<rparr>)"
| step_group: "metas s g = None \<Longrightarrow> 0 < cnt \<Longrightarrow> cnt \<le> 32 \<Longrightarrow> a < cnt \<Longrightarrow> cache_step s (s\<lparr>metas := (metas s)(g \<mapsto> new_group sc cnt a)\<rparr>)"
| step_map: "metas s g = None \<Longrightarrow>
    cache_step s (hand (Some (g, 0)) (s\<lparr>metas := (metas s)(g \<mapsto> \<lparr>avail_mask = 0, freed_mask = 0, last_idx = 0, sizeclass = 63\<rparr>)\<rparr>))"
| step_head: "heads s c h \<Longrightarrow> cache_step s (s\<lparr>active := (active s)(c := h)\<rparr>)"

definition cache_init :: "heap \<Rightarrow> bool" where
  "cache_init s \<longleftrightarrow> metas s = (\<lambda>_. None) \<and> active s = (\<lambda>_. None) \<and> field s = (\<lambda>_. TC_NONE) \<and> flushing s = (\<lambda>_. empty_tc) \<and> used s = {}"

section \<open>Where a slot is\<close>

definition kept :: "heap \<Rightarrow> nat \<Rightarrow> nat \<Rightarrow> slot list" where
  "kept s th c = (case tc_held (field s th) of None \<Rightarrow> [] | Some tc \<Rightarrow> tc c)"

datatype whereabouts = Available | Freed | Program | Cached nat nat | Leaving nat nat

fun at_place :: "heap \<Rightarrow> whereabouts \<Rightarrow> slot \<Rightarrow> bool" where
  "at_place s Available x = (case metas s (fst x) of None \<Rightarrow> False | Some m \<Rightarrow> bit (avail_mask m) (snd x))"
| "at_place s Freed x = (case metas s (fst x) of None \<Rightarrow> False | Some m \<Rightarrow> bit (freed_mask m) (snd x))"
| "at_place s Program x = (x \<in> used s)"
| "at_place s (Cached th c) x = (x \<in> set (kept s th c))"
| "at_place s (Leaving th c) x = (x \<in> set (flushing s th c))"

definition slot_live :: "heap \<Rightarrow> slot \<Rightarrow> bool" where
  "slot_live s x = (case metas s (fst x) of None \<Rightarrow> False | Some m \<Rightarrow> snd x \<le> last_idx m)"

text \<open>A slot of a group there is is in exactly one place, and no other slot is in any.\<close>

definition placed :: "heap \<Rightarrow> bool" where
  "placed s \<longleftrightarrow> (\<forall>x. if slot_live s x then \<exists>!p. at_place s p x else \<forall>p. \<not> at_place s p x)"

text \<open>A list of a cache holds slots of its class, each once, and no more than there is room for; a class takes from a group of its own.\<close>

definition tidy :: "heap \<Rightarrow> bool" where
  "tidy s \<longleftrightarrow> (\<forall>g m. metas s g = Some m \<longrightarrow> last_idx m < 32)
     \<and> (\<forall>th c. distinct (kept s th c) \<and> distinct (flushing s th c) \<and> length (kept s th c) \<le> TC_MAX)
     \<and> (\<forall>th c x. x \<in> set (kept s th c) \<union> set (flushing s th c) \<longrightarrow> c < TC_CLASSES \<and> class_of s (fst x) = Some c)
     \<and> (\<forall>c g. active s c = Some g \<longrightarrow> class_of s g = Some c)"

definition cache_inv :: "heap \<Rightarrow> bool" where
  "cache_inv s \<longleftrightarrow> placed s \<and> tidy s"

lemma placed_unique: "placed s \<Longrightarrow> at_place s p x \<Longrightarrow> at_place s q x \<Longrightarrow> p = q"
  unfolding placed_def by metis

lemma placed_live: "placed s \<Longrightarrow> at_place s p x \<Longrightarrow> slot_live s x"
  unfolding placed_def by metis

text \<open>One slot moves.\<close>

lemma placed_move:
  assumes "placed s" "at_place s p0 x" "\<And>y. slot_live t y = slot_live s y"
    and "\<And>p y. y \<noteq> x \<Longrightarrow> at_place t p y = at_place s p y"
    and "at_place t q x" and "\<And>p. at_place t p x \<Longrightarrow> p = q \<or> p \<noteq> p0 \<and> at_place s p x"
  shows "placed t"
  unfolding placed_def
proof
  fix y
  show "if slot_live t y then \<exists>!p. at_place t p y else \<forall>p. \<not> at_place t p y"
  proof (cases "y = x")
    case True
    have "p = q" if "at_place t p x" for p
      using assms(6) [OF that] placed_unique [OF assms(1, 2)] by metis
    then show ?thesis using True assms(5) placed_live [OF assms(1, 2)] assms(3) by auto
  next
    case False
    have "if slot_live s y then \<exists>!p. at_place s p y else \<forall>p. \<not> at_place s p y"
      using assms(1) unfolding placed_def by (rule spec)
    then show ?thesis using False assms(3, 4) by simp
  qed
qed

text \<open>Slots of one group change their masks, or several are cached.\<close>

lemma placed_change:
  assumes "placed s" "\<And>y. slot_live t y = slot_live s y"
    and "\<And>y. (\<forall>p. at_place t p y = at_place s p y) \<or> slot_live s y \<and> (\<exists>!p. at_place t p y)"
  shows "placed t"
  using assms unfolding placed_def by (metis (mono_tags, lifting))

lemma kept_field [simp]:
  "kept (s\<lparr>field := (field s)(th := f)\<rparr>) th' c = (if th' = th then (case tc_held f of None \<Rightarrow> [] | Some tc \<Rightarrow> tc c) else kept s th' c)"
  by (simp add: kept_def)

lemma kept_others [simp]:
  "kept (s\<lparr>metas := ms\<rparr>) = kept s" "kept (s\<lparr>active := ac\<rparr>) = kept s" "kept (s\<lparr>used := us\<rparr>) = kept s"
  "kept (s\<lparr>flushing := fl\<rparr>) = kept s"
  by (simp_all add: kept_def fun_eq_iff)

lemma live_others [simp]:
  "slot_live (s\<lparr>field := fs\<rparr>) = slot_live s" "slot_live (s\<lparr>active := ac\<rparr>) = slot_live s"
  "slot_live (s\<lparr>used := us\<rparr>) = slot_live s" "slot_live (s\<lparr>flushing := fl\<rparr>) = slot_live s"
  by (simp_all add: slot_live_def fun_eq_iff)

lemma class_others [simp]:
  "class_of (s\<lparr>field := fs\<rparr>) = class_of s" "class_of (s\<lparr>active := ac\<rparr>) = class_of s"
  "class_of (s\<lparr>used := us\<rparr>) = class_of s" "class_of (s\<lparr>flushing := fl\<rparr>) = class_of s"
  by (simp_all add: class_of_def fun_eq_iff)

lemma heads_others [simp]:
  "heads (s\<lparr>used := us\<rparr>) = heads s" "heads (s\<lparr>flushing := fl\<rparr>) = heads s"
  by (simp_all add: heads_def fun_eq_iff split: option.split)

lemma init_cache_inv: "cache_init s \<Longrightarrow> cache_inv s"
  unfolding cache_inv_def
proof
  assume i: "cache_init s"
  have "\<not> at_place s p x" for p x using i by (cases p) (auto simp: cache_init_def kept_def empty_tc_def)
  moreover have "\<not> slot_live s x" for x using i by (simp add: cache_init_def slot_live_def)
  ultimately show "placed s" by (simp add: placed_def)
  show "tidy s" using i by (simp add: tidy_def cache_init_def kept_def empty_tc_def)
qed

lemma own_cache_frame:
  assumes "own_cache th mapped s = (r, t)"
  shows "kept t = kept s" "metas t = metas s" "active t = active s" "flushing t = flushing s" "used t = used s"
    and "r = None \<or> r = tc_held (field t th)"
  using assms by (auto simp: own_cache_def kept_def fun_eq_iff empty_tc_def split: if_splits)

lemma at_place_cong:
  assumes "kept t = kept s" "metas t = metas s" "flushing t = flushing s" "used t = used s"
  shows "at_place t = at_place s"
proof (intro ext)
  fix p x show "at_place t p x = at_place s p x" using assms by (cases p) simp_all
qed

lemma cache_inv_cong:
  assumes "kept t = kept s" "metas t = metas s" "active t = active s" "flushing t = flushing s" "used t = used s" "cache_inv s"
  shows "cache_inv t"
proof -
  have "class_of t = class_of s" "slot_live t = slot_live s"
    using assms(2) by (simp_all add: class_of_def slot_live_def fun_eq_iff)
  then show ?thesis
    using assms at_place_cong [OF assms(1, 2, 4, 5)] by (simp add: cache_inv_def placed_def tidy_def)
qed

lemma tidyD:
  assumes "tidy s"
  shows "distinct (kept s th c)" "distinct (flushing s th c)" "length (kept s th c) \<le> TC_MAX"
    and "x \<in> set (kept s th c) \<Longrightarrow> c < TC_CLASSES \<and> class_of s (fst x) = Some c"
    and "x \<in> set (flushing s th c) \<Longrightarrow> c < TC_CLASSES \<and> class_of s (fst x) = Some c"
    and "active s c = Some g \<Longrightarrow> class_of s g = Some c" and "metas s g = Some m \<Longrightarrow> last_idx m < 32"
  using assms unfolding tidy_def by blast+

lemma tidyI:
  assumes "\<And>g m. metas t g = Some m \<Longrightarrow> last_idx m < 32"
    and "\<And>th c. distinct (kept t th c)" "\<And>th c. distinct (flushing t th c)" "\<And>th c. length (kept t th c) \<le> TC_MAX"
    and "\<And>th c x. x \<in> set (kept t th c) \<Longrightarrow> c < TC_CLASSES \<and> class_of t (fst x) = Some c"
    and "\<And>th c x. x \<in> set (flushing t th c) \<Longrightarrow> c < TC_CLASSES \<and> class_of t (fst x) = Some c"
    and "\<And>c g. active t c = Some g \<Longrightarrow> class_of t g = Some c"
  shows "tidy t"
  using assms unfolding tidy_def by blast

text \<open>A slot taken back from a list of the cache.\<close>

lemma take_slot_inv:
  assumes "cache_inv s" "tc_held (field s th) = Some tc" "tc c \<noteq> []"
  shows "cache_inv (hand (fst (take_slot th tc c s)) (snd (take_slot th tc c s)))"
proof -
  let ?x = "last (tc c)"
  let ?t = "hand (fst (take_slot th tc c s)) (snd (take_slot th tc c s))"
  have k: "kept s th c = tc c" "kept s th = tc" using assms(2) by (simp_all add: kept_def fun_eq_iff)
  have kt: "kept ?t th' c' = (if th' = th \<and> c' = c then butlast (tc c) else kept s th' c')" for th' c'
    using k by (simp add: take_slot_def)
  have d: "distinct (tc c)" using assms(1) k(1) unfolding cache_inv_def tidy_def by metis
  have app: "tc c = butlast (tc c) @ [?x]" using assms(3) by simp
  then have nin: "?x \<notin> set (butlast (tc c))" using d by (metis distinct_append distinct.simps(2) disjoint_iff list.set_intros(1))
  have sub: "set (tc c) = insert ?x (set (butlast (tc c)))" using app by (metis Un_insert_right list.simps(15) set_append sup_bot.right_neutral list.set(1))
  have "placed ?t"
  proof (rule placed_move)
    show "placed s" using assms(1) by (simp add: cache_inv_def)
    show "at_place s (Cached th c) ?x" using assms(3) k by simp
    show "slot_live ?t y = slot_live s y" for y by (simp add: take_slot_def)
    show "at_place ?t p y = at_place s p y" if "y \<noteq> ?x" for p y
      using that k sub by (cases p) (auto simp: kt, auto simp: take_slot_def)
    show "at_place ?t Program ?x" by (simp add: take_slot_def)
    show "p = Program \<or> p \<noteq> Cached th c \<and> at_place s p ?x" if "at_place ?t p ?x" for p
      using that nin by (cases p) (auto simp: kt split: if_splits, auto simp: take_slot_def)
  qed
  moreover have "tidy ?t"
  proof -
    have ti: "tidy s" using assms(1) by (simp add: cache_inv_def)
    have e: "flushing ?t = flushing s" "metas ?t = metas s" "active ?t = active s" "class_of ?t = class_of s" by (simp_all add: take_slot_def)
    have s: "set (kept ?t th' c') \<subseteq> set (kept s th' c')" for th' c' using k sub by (auto simp: kt)
    have l: "length (butlast (tc c)) \<le> TC_MAX" using tidyD(3) [OF ti, of th c] k by simp
    show ?thesis
    proof (rule tidyI)
      show "distinct (kept ?t th' c')" for th' c' using tidyD(1) [OF ti] d by (auto simp: kt distinct_butlast)
      show "length (kept ?t th' c') \<le> TC_MAX" for th' c' using tidyD(3) [OF ti] l by (auto simp: kt)
    qed (unfold e, (use tidyD [OF ti] s in blast)+)
  qed
  ultimately show ?thesis by (simp add: cache_inv_def)
qed

lemma take_inv:
  assumes "cache_inv s" "malloc_tc_take th mapped sc s = (r, t)"
  shows "cache_inv (hand r t)"
proof (cases "sc \<ge> TC_CLASSES")
  case True
  then show ?thesis using assms by (simp add: malloc_tc_take_def)
next
  case False
  obtain o1 s1 where o: "own_cache th mapped s = (o1, s1)" by fastforce
  note f = own_cache_frame [OF o]
  have i: "cache_inv s1" using cache_inv_cong [OF f(1-5) assms(1)] .
  show ?thesis
  proof (cases o1)
    case None
    then show ?thesis using False assms(2) o i by (auto simp: malloc_tc_take_def)
  next
    case (Some tc)
    then have h: "tc_held (field s1 th) = Some tc" using f(6) by simp
    note t = take_slot_inv [OF i h]
    show ?thesis
      using False assms(2) o Some i t by (auto simp: malloc_tc_take_def take_slot_def split: if_splits)
  qed
qed

text \<open>Masks of a group change; the group is as large, and of the class it was.\<close>

lemma masks_frame:
  assumes "metas s g = Some m" "last_idx m' = last_idx m" "sizeclass m' = sizeclass m"
  shows "slot_live (s\<lparr>metas := (metas s)(g \<mapsto> m')\<rparr>) = slot_live s"
    and "class_of (s\<lparr>metas := (metas s)(g \<mapsto> m')\<rparr>) = class_of s"
  using assms by (auto simp: slot_live_def class_of_def fun_eq_iff)

lemma tidy_masks:
  assumes "tidy s" "metas s g = Some m" "last_idx m' = last_idx m" "sizeclass m' = sizeclass m"
  shows "tidy (s\<lparr>metas := (metas s)(g \<mapsto> m')\<rparr>)"
proof (rule tidyI, unfold masks_frame(2) [OF assms(2-4)])
  show "last_idx k < 32" if "metas (s\<lparr>metas := (metas s)(g \<mapsto> m')\<rparr>) h = Some k" for h k
    using that assms(2, 3) tidyD(7) [OF assms(1)] by (cases "h = g") auto
qed (use tidyD [OF assms(1)] in simp_all)

lemma tidy_used: "tidy s \<Longrightarrow> tidy (s\<lparr>used := us\<rparr>)"
  by (rule tidyI) (use tidyD in simp_all)

lemma alloc_inv:
  assumes "cache_inv s" "malloc_active sc s = (Some x, t)"
  shows "cache_inv (hand (Some x) t)"
proof -
  obtain g m where gm: "active s sc = Some g" "metas s g = Some m" and nz: "avail_mask m AND - avail_mask m \<noteq> 0"
    and xt: "x = (g, a_ctz_32 (avail_mask m AND - avail_mask m))"
      "t = s\<lparr>metas := (metas s)(g \<mapsto> m\<lparr>avail_mask := avail_mask m - (avail_mask m AND - avail_mask m)\<rparr>)\<rparr>"
    using assms(2) by (auto simp: malloc_active_def Let_def split: option.splits if_splits)
  obtain j where j: "bit (avail_mask m) j" "a_ctz_32 (avail_mask m AND - avail_mask m) = j"
      "avail_mask m - (avail_mask m AND - avail_mask m) = unset_bit j (avail_mask m)" "j < 32"
    using take_first [OF nz] by metis
  let ?m = "m\<lparr>avail_mask := unset_bit j (avail_mask m)\<rparr>"
  let ?t = "s\<lparr>metas := (metas s)(g \<mapsto> ?m), used := insert (g, j) (used s)\<rparr>"
  have t: "hand (Some x) t = ?t" "x = (g, j)" using xt j by simp_all
  have "placed ?t"
  proof (rule placed_move)
    show "placed s" using assms(1) by (simp add: cache_inv_def)
    show "at_place s Available (g, j)" using gm j by simp
    show "slot_live ?t y = slot_live s y" for y using masks_frame(1) [OF gm(2), of ?m] by simp
    show "at_place ?t p y = at_place s p y" if "y \<noteq> (g, j)" for p y
      using that gm by (cases p; cases y) (auto simp: bit_unset_bit_iff)
    show "at_place ?t Program (g, j)" by simp
    show "p = Program \<or> p \<noteq> Available \<and> at_place s p (g, j)" if "at_place ?t p (g, j)" for p
      using that gm by (cases p) (auto simp: bit_unset_bit_iff)
  qed
  moreover have "tidy ?t"
    using tidy_used [OF tidy_masks [of s g m ?m]] assms(1) gm by (simp add: cache_inv_def)
  ultimately show ?thesis by (simp only: t(1) cache_inv_def)
qed

lemma fill_inv:
  assumes "cache_inv s"
  shows "cache_inv (malloc_tc_fill th sc s)"
proof (cases "sc < TC_CLASSES \<and> (\<exists>tc g m. tc_held (field s th) = Some tc \<and> active s sc = Some g \<and> metas s g = Some m)")
  case False
  then have "malloc_tc_fill th sc s = s" by (auto simp: malloc_tc_fill_def split: option.split)
  then show ?thesis using assms by simp
next
  case True
  then obtain tc g m where h: "sc < TC_CLASSES" "tc_held (field s th) = Some tc" "active s sc = Some g" "metas s g = Some m" by blast
  obtain a ss where l: "fill_loop g (avail_mask m) (tc sc) = (a, ss)" by fastforce
  obtain new where n: "ss = tc sc @ map (Pair g) new" "distinct new" "\<forall>i \<in> set new. bit (avail_mask m) i"
      "\<forall>i. bit a i \<longleftrightarrow> bit (avail_mask m) i \<and> i \<notin> set new" "length (tc sc) \<le> TC_MAX \<longrightarrow> length ss \<le> TC_MAX"
    using fill_loop_spec [OF l] by blast
  let ?m = "m\<lparr>avail_mask := a\<rparr>"
  define t where t_def: "t = s\<lparr>metas := (metas s)(g \<mapsto> ?m), field := (field s)(th := TC_HELD (tc(sc := ss)))\<rparr>"
  have t: "malloc_tc_fill th sc s = t" using h l by (simp add: malloc_tc_fill_def t_def)
  have p: "placed s" and ti: "tidy s" using assms by (simp_all add: cache_inv_def)
  have k: "kept s th = tc" using h by (simp add: kept_def fun_eq_iff)
  then have kc: "kept s th sc = tc sc" by simp
  have kt: "kept t th' c' = (if th' = th \<and> c' = sc then ss else kept s th' c')" for th' c'
    using h k by (simp add: kept_def t_def)
  have fr: "slot_live t = slot_live s" "class_of t = class_of s"
    using masks_frame [OF h(4), of ?m] by (simp_all add: t_def slot_live_def class_of_def fun_eq_iff)
  have av: "at_place s Available (g, i)" if "i \<in> set new" for i using that n(3) h(4) by simp
  then have un: "at_place s q (g, i) \<Longrightarrow> q = Available" if "i \<in> set new" for i q using that placed_unique [OF p] by metis
  have "placed t"
  proof (rule placed_change [OF p])
    show "slot_live t y = slot_live s y" for y by (simp only: fr)
    show "(\<forall>q. at_place t q y = at_place s q y) \<or> slot_live s y \<and> (\<exists>!q. at_place t q y)" for y
    proof (cases "\<exists>i \<in> set new. y = (g, i)")
      case True
      then obtain i where i: "i \<in> set new" "y = (g, i)" by blast
      have "at_place t (Cached th sc) y" using i n(1) by (simp add: kt)
      moreover have "q = Cached th sc" if "at_place t q y" for q
      proof (rule ccontr)
        assume q: "q \<noteq> Cached th sc"
        have e: "used t = used s" "flushing t = flushing s" by (simp_all add: t_def)
        have "\<not> at_place t Available y" "at_place t Freed y = at_place s Freed y" using i n(4) h(4) by (simp_all add: t_def)
        then have "at_place s q y \<and> q \<noteq> Available"
          using that q by (cases q) (simp_all add: kt e split: if_splits)
        then show False using un [OF i(1)] i(2) by blast
      qed
      ultimately show ?thesis using placed_live [OF p av [OF i(1)]] i(2) by blast
    next
      case False
      have e: "used t = used s" "flushing t = flushing s" by (simp_all add: t_def)
      have "at_place t Available y = at_place s Available y" "at_place t Freed y = at_place s Freed y"
        using False n(4) h(4) by (cases y; cases "fst y = g"; auto simp: t_def)+
      moreover have "y \<in> set ss \<longleftrightarrow> y \<in> set (kept s th sc)" using False by (auto simp: n(1) kc)
      ultimately have "at_place t q y = at_place s q y" for q by (cases q) (simp_all add: kt e)
      then show ?thesis by blast
    qed
  qed
  moreover have "tidy t"
  proof (rule tidyI, unfold fr)
    have nk: "(g, i) \<notin> set (tc sc)" if "i \<in> set new" for i
      using un [OF that, of "Cached th sc"] k by auto
    then have "distinct ss" using n(1, 2) tidyD(1) [OF ti, of th sc] k by (auto simp: distinct_map inj_on_def)
    then show "distinct (kept t th' c')" for th' c' using tidyD(1) [OF ti] by (simp add: kt)
    show "length (kept t th' c') \<le> TC_MAX" for th' c' using n(5) tidyD(3) [OF ti] k by (auto simp: kt)
    have "c < TC_CLASSES \<and> class_of s (fst x) = Some c" if "x \<in> set ss" "c = sc" for c x
      using that n(1) h(1) k tidyD(4) [OF ti, of x th sc] tidyD(6) [OF ti h(3)] by auto
    then show "x \<in> set (kept t th' c') \<Longrightarrow> c' < TC_CLASSES \<and> class_of s (fst x) = Some c'" for th' c' x
      using tidyD(4) [OF ti] unfolding kt by presburger
    show "last_idx k < 32" if "metas t h' = Some k" for h' k
      using that h(4) tidyD(7) [OF ti] by (cases "h' = g") (auto simp: t_def)
  qed (use tidyD [OF ti] in \<open>simp_all add: t_def\<close>)
  ultimately show ?thesis by (simp only: t cache_inv_def)
qed

lemma keep_inv:
  assumes "cache_inv s" "(g, i) \<in> used s" "malloc_tc_give th g i (s\<lparr>used := used s - {(g, i)}\<rparr>) = (True, t)"
  shows "cache_inv t"
proof -
  obtain m tc where h: "metas s g = Some m" "sizeclass m < TC_CLASSES" "tc_held (field s th) = Some tc" "length (tc (sizeclass m)) < TC_MAX"
    and t: "t = s\<lparr>used := used s - {(g, i)}, field := (field s)(th := TC_HELD (tc(sizeclass m := tc (sizeclass m) @ [(g, i)])))\<rparr>"
    using assms(3) by (auto simp: malloc_tc_give_def Let_def split: option.splits if_splits)
  have p: "placed s" and ti: "tidy s" using assms(1) by (simp_all add: cache_inv_def)
  have k: "kept s th = tc" using h by (simp add: kept_def fun_eq_iff)
  have kt: "kept t th' c' = (if th' = th \<and> c' = sizeclass m then tc (sizeclass m) @ [(g, i)] else kept s th' c')" for th' c'
    using h k by (simp add: t kept_def)
  have "placed t"
  proof (rule placed_move [OF p])
    show "at_place s Program (g, i)" using assms(2) by simp
    show "slot_live t y = slot_live s y" for y by (simp add: t)
    show "at_place t q y = at_place s q y" if "y \<noteq> (g, i)" for q y
      using that k by (cases q) (auto simp: kt, auto simp: t)
    show "at_place t (Cached th (sizeclass m)) (g, i)" by (simp add: kt)
    show "q = Cached th (sizeclass m) \<or> q \<noteq> Program \<and> at_place s q (g, i)" if "at_place t q (g, i)" for q
      using that by (cases q) (auto simp: kt split: if_splits, auto simp: t)
  qed
  moreover have "tidy t"
  proof (rule tidyI)
    have "(g, i) \<notin> set (tc (sizeclass m))"
      using placed_unique [OF p, of Program "(g, i)" "Cached th (sizeclass m)"] assms(2) k by auto
    then show "distinct (kept t th' c')" for th' c' using tidyD(1) [OF ti] k by (auto simp: kt)
    show "length (kept t th' c') \<le> TC_MAX" for th' c' using tidyD(3) [OF ti] h(4) by (auto simp: kt)
    have c: "class_of t = class_of s" by (simp add: t)
    have "class_of s g = Some (sizeclass m)" using h(1) by (simp add: class_of_def)
    then show "c' < TC_CLASSES \<and> class_of t (fst x) = Some c'" if "x \<in> set (kept t th' c')" for th' c' x
      using that tidyD(4) [OF ti, of x th' c'] h(2) k by (auto simp: kt c split: if_splits)
  qed (use tidyD [OF ti] in \<open>simp_all add: t\<close>)
  ultimately show ?thesis by (simp only: cache_inv_def)
qed

text \<open>A slot that has left its place \<open>p0\<close> and is nowhere, in \<open>u\<close>, is given back: it is freed, or its group goes, and no slot of that group was in use or
  in a cache.\<close>

lemma release_freed:
  assumes "placed s" "at_place s p0 (g, i)" "\<And>p y. at_place u p y \<longleftrightarrow> y \<noteq> (g, i) \<and> at_place s p y"
    and "slot_live u = slot_live s" "tidy u" "metas u g = Some m" "i < 32"
  shows "cache_inv (u\<lparr>metas := (metas u)(g \<mapsto> m\<lparr>freed_mask := freed_mask m OR push_bit i 1\<rparr>)\<rparr>)"
proof -
  let ?m = "m\<lparr>freed_mask := freed_mask m OR push_bit i 1\<rparr>"
  define t where "t = u\<lparr>metas := (metas u)(g \<mapsto> ?m)\<rparr>"
  have o: "at_place t p y = at_place u p y" if "p \<noteq> Freed \<or> y \<noteq> (g, i)" for p y
    using that assms(6, 7) by (cases p; cases y; cases "fst y = g") (auto simp: t_def bit_simps)
  have "placed t"
  proof (rule placed_move [OF assms(1, 2)])
    show "slot_live t y = slot_live s y" for y using masks_frame(1) [OF assms(6), of ?m] assms(4) by (simp add: t_def)
    show "at_place t p y = at_place s p y" if "y \<noteq> (g, i)" for p y using o [of p y] assms(3) [of p y] that by blast
    show "at_place t Freed (g, i)" using assms(7) by (simp add: t_def bit_simps)
    show "p = Freed \<or> p \<noteq> p0 \<and> at_place s p (g, i)" if "at_place t p (g, i)" for p
      using that o [of p "(g, i)"] assms(3) [of p "(g, i)"] by blast
  qed
  moreover have "tidy t" unfolding t_def by (rule tidy_masks [OF assms(5, 6)]) simp_all
  ultimately show ?thesis unfolding cache_inv_def t_def by blast
qed

lemma head_inv:
  assumes "cache_inv s" "\<And>c g. ac c = Some g \<Longrightarrow> class_of s g = Some c"
  shows "cache_inv (s\<lparr>active := ac\<rparr>)"
proof -
  have "at_place (s\<lparr>active := ac\<rparr>) = at_place s" by (rule at_place_cong) simp_all
  then have "placed (s\<lparr>active := ac\<rparr>)" using assms(1) by (simp add: cache_inv_def placed_def)
  moreover have "tidy (s\<lparr>active := ac\<rparr>)"
    by (rule tidyI) (use assms tidyD [of s] in \<open>simp_all add: cache_inv_def\<close>)
  ultimately show ?thesis by (simp add: cache_inv_def)
qed

lemma release_group:
  assumes "placed s" "\<And>p y. at_place u p y \<longleftrightarrow> y \<noteq> (g, i) \<and> at_place s p y" "slot_live u = slot_live s" "tidy u"
    and "metas u g = Some m" "metas s = metas u" "freed_mask m OR avail_mask m OR push_bit i 1 = slots_mask (last_idx m)" "i < 32"
    and "\<And>c h. ac c = Some h \<Longrightarrow> h \<noteq> g \<and> class_of u h = Some c"
  shows "cache_inv (u\<lparr>metas := (metas u)(g := None), active := ac\<rparr>)"
proof -
  define t where "t = u\<lparr>metas := (metas u)(g := None), active := ac\<rparr>"
  have only: "p = Available \<or> p = Freed" if "at_place u p (g, j)" for p j
  proof -
    have j: "j \<noteq> i" "at_place s p (g, j)" using that assms(2) by blast+
    then have "slot_live s (g, j)" using placed_live [OF assms(1)] by blast
    then have "j \<le> last_idx m" using assms(5, 6) by (simp add: slot_live_def)
    then have "bit (freed_mask m OR avail_mask m OR push_bit i 1) j"
      using tidyD(7) [OF assms(4, 5)] unfolding assms(7) by (simp add: bit_slots_mask)
    then have "at_place s Freed (g, j) \<or> at_place s Available (g, j)"
      using j(1) assms(5, 6, 8) by (auto simp: bit_simps)
    then show ?thesis using placed_unique [OF assms(1) j(2)] by blast
  qed
  have same: "at_place t p y \<longleftrightarrow> fst y \<noteq> g \<and> at_place u p y" for p y
    using only [of p "snd y"] by (cases p; cases y; cases "fst y = g") (auto simp: t_def kept_def)
  have live: "slot_live t y \<longleftrightarrow> fst y \<noteq> g \<and> slot_live u y" for y by (simp add: t_def slot_live_def)
  have cl: "class_of t h = class_of u h" if "h \<noteq> g" for h using that by (simp add: t_def class_of_def)
  have "placed t"
    unfolding placed_def
  proof
    fix y
    have "if slot_live s y then \<exists>!p. at_place s p y else \<forall>p. \<not> at_place s p y" using assms(1) unfolding placed_def by (rule spec)
    then show "if slot_live t y then \<exists>!p. at_place t p y else \<forall>p. \<not> at_place t p y"
      using assms(2) by (cases "fst y = g") (auto simp: same live assms(3))
  qed
  moreover have "tidy t"
  proof (rule tidyI)
    have e: "kept t = kept u" "flushing t = flushing u" by (simp_all add: t_def kept_def fun_eq_iff)
    have ng: "fst x \<noteq> g" if "at_place u (Cached th c) x \<or> at_place u (Leaving th c) x" for th c x
      using that only [of "Cached th c" "snd x"] only [of "Leaving th c" "snd x"] by (cases x) auto
    show "c < TC_CLASSES \<and> class_of t (fst x) = Some c" if "x \<in> set (kept t th c)" for th c x
      using that tidyD(4) [OF assms(4), of x th c] ng [of th c x] cl by (simp add: e)
    show "c < TC_CLASSES \<and> class_of t (fst x) = Some c" if "x \<in> set (flushing t th c)" for th c x
      using that tidyD(5) [OF assms(4), of x th c] ng [of th c x] cl by (simp add: e)
    show "class_of t h = Some c" if "active t c = Some h" for c h
      using that assms(9) [of c h] cl by (simp add: t_def)
    show "last_idx k < 32" if "metas t h = Some k" for h k
      using that tidyD(7) [OF assms(4), of h k] by (auto simp: t_def split: if_splits)
    show "distinct (kept t th c)" "distinct (flushing t th c)" "length (kept t th c) \<le> TC_MAX" for th c
      using tidyD(1-3) [OF assms(4)] by (simp_all add: e)
  qed
  ultimately show ?thesis unfolding cache_inv_def t_def by blast
qed

lemma release_inv:
  assumes "placed s" "at_place s p0 (g, i)" "p0 \<noteq> Available" "p0 \<noteq> Freed" "\<And>p y. at_place u p y \<longleftrightarrow> y \<noteq> (g, i) \<and> at_place s p y"
    and "metas u = metas s" "tidy u" "\<And>c. class_of u g = Some c \<Longrightarrow> heads u c heir" "heir \<noteq> Some g"
  shows "cache_inv (release_slot okay heir g i u)"
proof -
  have live: "slot_live u = slot_live s" using assms(6) by (simp add: slot_live_def fun_eq_iff)
  have "slot_live s (g, i)" using placed_live [OF assms(1, 2)] .
  then obtain m where m: "metas u g = Some m" "i \<le> last_idx m"
    using assms(6) by (auto simp: slot_live_def split: option.splits)
  have i: "i < 32" using m tidyD(7) [OF assms(7), of g m] by simp
  have "\<not> at_place u Available (g, i)" "\<not> at_place u Freed (g, i)" using assms(5) by blast+
  then have nb: "\<not> bit (avail_mask m) i" "\<not> bit (freed_mask m) i" using m(1) by simp_all
  let ?self = "push_bit i (1 :: 32 word)" and ?mk = "freed_mask m OR avail_mask m"
  have pl: "freed_mask m + ?self = freed_mask m OR ?self" "?mk + ?self = freed_mask m OR avail_mask m OR ?self"
    using nb plus_bit [of "freed_mask m" i] plus_bit [of ?mk i] by (simp_all only: bit_or_iff or.assoc simp_thms)
  note f = release_freed [OF assms(1, 2, 5) live assms(7) m(1) i]
  have c: "class_of u g = Some (sizeclass m)" using m(1) by (simp add: class_of_def)
  let ?f = "u\<lparr>metas := (metas u)(g \<mapsto> m\<lparr>freed_mask := freed_mask m OR ?self\<rparr>)\<rparr>"
  have cf: "class_of ?f = class_of u" by (rule masks_frame(2) [OF m(1)]) simp_all
  note act = tidyD(6) [OF assms(7)]
  let ?ac = "if active u (sizeclass m) = Some g then (active u)(sizeclass m := heir) else active u"
  let ?gone = "u\<lparr>metas := (metas u)(g := None), active := ?ac\<rparr>" and ?listed = "?f\<lparr>active := (active u)(sizeclass m \<mapsto> g)\<rparr>"
  have rs: "release_slot okay heir g i u =
      (if freed_mask m \<noteq> 0 \<and> ?mk + ?self \<noteq> slots_mask (last_idx m) then ?f
       else if ?mk + ?self = slots_mask (last_idx m) \<and> okay then ?gone
       else if ?mk = 0 \<and> active u (sizeclass m) = None then ?listed
       else ?f)"
    unfolding release_slot_def Let_def m(1) option.case pl(1) by (rule refl)
  have "cache_inv ?gone" if "?mk + ?self = slots_mask (last_idx m)"
  proof (rule release_group [OF assms(1, 5) live assms(7) m(1) assms(6) [symmetric] _ i])
    show "freed_mask m OR avail_mask m OR ?self = slots_mask (last_idx m)" using that pl(2) by (simp only:)
    show "h \<noteq> g \<and> class_of u h = Some c'" if ach: "?ac c' = Some h" for c' h
    proof -
      consider "c' = sizeclass m" "heir = Some h" | "active u c' = Some h" "c' \<noteq> sizeclass m \<or> active u (sizeclass m) \<noteq> Some g"
        using ach by (auto split: if_splits)
      then show ?thesis
      proof cases
        case 1
        then show ?thesis using assms(8) [OF c] assms(9) by (simp add: heads_def)
      next
        case 2
        then show ?thesis using act [of c' h] c by auto
      qed
    qed
  qed
  moreover have "cache_inv ?listed"
  proof (rule head_inv [OF f], unfold cf)
    show "class_of u h = Some c'" if "((active u)(sizeclass m \<mapsto> g)) c' = Some h" for c' h
      using that act [of c' h] c by (auto split: if_splits)
  qed
  ultimately show ?thesis unfolding rs if_split [of cache_inv] using f by blast
qed

lemma removed_used:
  assumes "placed s" "x \<in> used s"
  shows "at_place (s\<lparr>used := used s - {x}\<rparr>) p y \<longleftrightarrow> y \<noteq> x \<and> at_place s p y"
proof (cases "y = x")
  case True
  have "at_place s p x \<Longrightarrow> p = Program" using placed_unique [OF assms(1), of p x Program] assms(2) by simp
  then show ?thesis using True by (cases p) auto
next
  case False
  then show ?thesis by (cases p) auto
qed

lemma removed_leaving:
  assumes "cache_inv s" "flushing s th c \<noteq> []"
  defines "x \<equiv> last (flushing s th c)" and "u \<equiv> s\<lparr>flushing := (flushing s)(th := (flushing s th)(c := butlast (flushing s th c)))\<rparr>"
  shows "at_place u p y \<longleftrightarrow> y \<noteq> x \<and> at_place s p y" and "tidy u"
proof -
  have p: "placed s" and ti: "tidy s" using assms(1) by (simp_all add: cache_inv_def)
  have app: "flushing s th c = butlast (flushing s th c) @ [x]" using assms(2) by (simp add: x_def)
  then have sx: "set (flushing s th c) = insert x (set (butlast (flushing s th c)))" by (metis set_append Un_insert_right list.simps(15) sup_bot.right_neutral empty_set)
  have d: "distinct (butlast (flushing s th c) @ [x])" using tidyD(2) [OF ti, of th c] app by simp
  have ff: "flushing u th' c' = (if th' = th \<and> c' = c then butlast (flushing s th c) else flushing s th' c')" for th' c'
    by (simp add: u_def)
  have at: "at_place s (Leaving th c) x" using sx by simp
  have o: "at_place u q z = at_place s q z" if "q \<noteq> Leaving th c \<or> z \<noteq> x" for q z
    using that sx by (cases q) (auto simp: ff, auto simp: u_def)
  show "at_place u p y \<longleftrightarrow> y \<noteq> x \<and> at_place s p y"
  proof (cases "y = x")
    case True
    have "\<not> at_place u (Leaving th c) x" using d by (simp add: ff)
    then show ?thesis using True o [of p x] placed_unique [OF p at, of p] by blast
  next
    case False
    then show ?thesis using o [of p y] by simp
  qed
  have sub: "set (flushing u th' c') \<subseteq> set (flushing s th' c')" for th' c' using sx by (auto simp: ff)
  have e: "kept u = kept s" "metas u = metas s" "active u = active s" "class_of u = class_of s" by (simp_all add: u_def)
  show "tidy u"
  proof (rule tidyI)
    show "distinct (flushing u th' c')" for th' c' using tidyD(2) [OF ti] d by (auto simp: ff)
  qed (unfold e, (use tidyD [OF ti] sub in blast)+)
qed

lemma leave_inv:
  assumes "cache_inv s" "flushing s th c \<noteq> []" "heads s c heir" "heir \<noteq> Some (fst (last (flushing s th c)))"
  shows "cache_inv (flush_one okay heir th c s)"
proof -
  obtain g i where gi: "last (flushing s th c) = (g, i)" by fastforce
  let ?u = "s\<lparr>flushing := (flushing s)(th := (flushing s th)(c := butlast (flushing s th c)))\<rparr>"
  have p: "placed s" "tidy s" using assms(1) by (simp_all add: cache_inv_def)
  have m: "(g, i) \<in> set (flushing s th c)" using assms(2) gi by (metis last_in_set)
  have "flush_one okay heir th c s = release_slot okay heir g i ?u" using gi by (simp add: flush_one_def Let_def)
  moreover have "cache_inv (release_slot okay heir g i ?u)"
  proof (rule release_inv [OF p(1), where ?p0.0 = "Leaving th c"])
    show "at_place ?u p y \<longleftrightarrow> y \<noteq> (g, i) \<and> at_place s p y" for p y using removed_leaving(1) [OF assms(1, 2)] gi by simp
    show "tidy ?u" by (rule removed_leaving(2) [OF assms(1, 2)])
    show "heads ?u c' heir" if "class_of ?u g = Some c'" for c'
      using that assms(3) tidyD(5) [OF p(2) m] by simp
    show "heir \<noteq> Some g" using assms(4) gi by simp
  qed (use m in simp_all)
  ultimately show ?thesis by simp
qed

lemma program_release_inv:
  assumes "cache_inv s" "(g, i) \<in> used s" "\<And>c. class_of s g = Some c \<Longrightarrow> heads s c heir" "heir \<noteq> Some g"
  shows "cache_inv (release_slot okay heir g i (s\<lparr>used := used s - {(g, i)}\<rparr>))"
proof -
  have p: "placed s" "tidy s" using assms(1) by (simp_all add: cache_inv_def)
  show ?thesis
    by (rule release_inv [OF p(1), where ?p0.0 = Program])
      (use assms removed_used [OF p(1) assms(2)] tidy_used [OF p(2)] in \<open>simp_all del: at_place.simps add: at_place.simps(3)\<close>)
qed

lemma flush_inv:
  assumes "cache_inv s" "flushing s th = empty_tc"
  shows "cache_inv (flush_begin th s)"
proof (cases "tc_held (field s th)")
  case None
  then show ?thesis
    by (intro cache_inv_cong [OF _ _ _ _ _ assms(1)]) (auto simp: flush_begin_def kept_def fun_eq_iff)
next
  case (Some tc)
  define t where "t = s\<lparr>field := (field s)(th := TC_OFF), flushing := (flushing s)(th := tc)\<rparr>"
  have t: "flush_begin th s = t" using Some by (simp add: flush_begin_def t_def)
  have p: "placed s" and ti: "tidy s" using assms(1) by (simp_all add: cache_inv_def)
  have kt: "kept t th' c = (if th' = th then [] else kept s th' c)" "kept s th c = tc c" for th' c
    using Some by (simp_all add: t_def kept_def)
  have ft: "flushing t th' c = (if th' = th then tc c else flushing s th' c)" for th' c by (simp add: t_def)
  have e: "metas t = metas s" "active t = active s" "used t = used s" "class_of t = class_of s" "slot_live t = slot_live s" by (simp_all add: t_def)
  have "placed t"
  proof (rule placed_change [OF p])
    show "(\<forall>q. at_place t q y = at_place s q y) \<or> slot_live s y \<and> (\<exists>!q. at_place t q y)" for y
    proof (cases "\<exists>c. y \<in> set (tc c)")
      case True
      then obtain c where c: "at_place s (Cached th c) y" using kt(2) by auto
      have "q = Leaving th c" if "at_place t q y" for q
      proof (cases q)
        case (Leaving th' c')
        show ?thesis
        proof (cases "th' = th")
          case True
          then have "at_place s (Cached th c') y" using that Leaving kt(2) by (simp add: ft)
          then show ?thesis using placed_unique [OF p c] True Leaving by blast
        next
          case False
          then have "at_place s (Leaving th' c') y" using that Leaving by (simp add: ft)
          then show ?thesis using placed_unique [OF p c] by blast
        qed
      next
        case (Cached th' c')
        then have "th' \<noteq> th" "at_place s (Cached th' c') y" using that by (auto simp: kt(1) split: if_splits)
        then show ?thesis using placed_unique [OF p c] by blast
      qed (use that placed_unique [OF p c, of q] in \<open>simp_all add: e\<close>)
      moreover have "at_place t (Leaving th c) y" using c kt(2) by (simp add: ft)
      ultimately show ?thesis using placed_live [OF p c] by blast
    next
      case False
      then have "at_place t q y = at_place s q y" for q
        using kt(2) assms(2) by (cases q) (auto simp: kt(1) ft e empty_tc_def)
      then show ?thesis by blast
    qed
  qed (simp add: e)
  moreover have "tidy t"
  proof (rule tidyI, unfold e)
    show "distinct (kept t th' c)" "distinct (flushing t th' c)" "length (kept t th' c) \<le> TC_MAX" for th' c
      using tidyD(1-3) [OF ti] kt(2) by (metis (full_types) kt(1) ft distinct.simps(1) list.size(3) le0)+
    show "c < TC_CLASSES \<and> class_of s (fst x) = Some c" if "x \<in> set (kept t th' c)" for th' c x
      using that tidyD(4) [OF ti, of x th' c] by (auto simp: kt(1) split: if_splits)
    show "c < TC_CLASSES \<and> class_of s (fst x) = Some c" if "x \<in> set (flushing t th' c)" for th' c x
      using that tidyD(4, 5) [OF ti, of x th' c] kt(2) by (auto simp: ft split: if_splits)
  qed (use tidyD [OF ti] in blast)+
  ultimately show ?thesis by (simp only: t cache_inv_def)
qed

lemma activate_inv:
  assumes "cache_inv s" "metas s g = Some m" "avail_mask m = 0" "a \<le> last_idx m"
  shows "cache_inv (s\<lparr>metas := (metas s)(g \<mapsto> activate_group a m)\<rparr>)"
proof -
  define t where "t = s\<lparr>metas := (metas s)(g \<mapsto> activate_group a m)\<rparr>"
  have p: "placed s" and ti: "tidy s" using assms(1) by (simp_all add: cache_inv_def)
  have sz: "last_idx (activate_group a m) = last_idx m" "sizeclass (activate_group a m) = sizeclass m" by (simp_all add: activate_group_def)
  have live: "slot_live t = slot_live s" unfolding t_def by (rule masks_frame(1) [OF assms(2) sz])
  have a: "a < 32" using tidyD(7) [OF ti assms(2)] assms(4) by simp
  have "placed t"
  proof (rule placed_change [OF p])
    show "(\<forall>q. at_place t q y = at_place s q y) \<or> slot_live s y \<and> (\<exists>!q. at_place t q y)" for y
    proof (cases "fst y = g \<and> bit (freed_mask m) (snd y) \<and> snd y \<le> a")
      case True
      then have f: "at_place s Freed y" using assms(2) by simp
      have "q = Available" if "at_place t q y" for q
        using that True a placed_unique [OF p f, of q]
        by (cases q) (auto simp: t_def activate_group_def bit_simps bit_slots_mask)
      moreover have "at_place t Available y" using True a by (simp add: t_def activate_group_def bit_simps bit_slots_mask)
      ultimately show ?thesis using placed_live [OF p f] by blast
    next
      case False
      then have "at_place t q y = at_place s q y" for q
        using assms(2, 3) a by (cases q; cases "fst y = g") (auto simp: t_def activate_group_def bit_simps bit_slots_mask dest: bit_imp_le_length)
      then show ?thesis by blast
    qed
  qed (simp add: live)
  moreover have "tidy t" unfolding t_def by (rule tidy_masks [OF ti assms(2) sz])
  ultimately show ?thesis unfolding cache_inv_def t_def by blast
qed

lemma slots_mask_minus: "a \<le> b \<Longrightarrow> b < 32 \<Longrightarrow> bit (slots_mask b - slots_mask a) i \<longleftrightarrow> a < i \<and> i \<le> b"
proof -
  assume ab: "a \<le> b" "b < 32"
  let ?d = "slots_mask b AND NOT (slots_mask a)"
  have "slots_mask b = ?d OR slots_mask a" using ab by (intro bit_word_eqI) (auto simp: bit_simps bit_slots_mask)
  also have "\<dots> = ?d + slots_mask a" using ab by (intro disjunctive_add_eq_or [symmetric] bit_word_eqI) (auto simp: bit_simps bit_slots_mask)
  finally have "slots_mask b - slots_mask a = ?d" by (metis add_diff_cancel_right')
  then show ?thesis using ab by (auto simp: bit_simps bit_slots_mask)
qed

text \<open>A new group, whose slots are in one place each, and nowhere else.\<close>

lemma new_meta_inv:
  assumes "cache_inv s" "metas s g = None" "last_idx m < 32" "us \<subseteq> Pair g ` {..last_idx m}"
    and "\<And>i. i \<le> last_idx m \<longleftrightarrow> bit (avail_mask m) i \<or> bit (freed_mask m) i \<or> (g, i) \<in> us"
    and "\<And>i. \<not> (bit (avail_mask m) i \<and> bit (freed_mask m) i)"
    and "\<And>i. (g, i) \<in> us \<Longrightarrow> \<not> bit (avail_mask m) i \<and> \<not> bit (freed_mask m) i"
  shows "cache_inv (s\<lparr>metas := (metas s)(g \<mapsto> m), used := us \<union> used s\<rparr>)"
proof -
  define t where "t = s\<lparr>metas := (metas s)(g \<mapsto> m), used := us \<union> used s\<rparr>"
  have p: "placed s" and ti: "tidy s" using assms(1) by (simp_all add: cache_inv_def)
  have no: "\<not> at_place s q (g, i)" for q i
    using placed_live [OF p, of q "(g, i)"] assms(2) by (auto simp: slot_live_def)
  have no': "(g, i) \<notin> used s" "(g, i) \<notin> set (kept s th c)" "(g, i) \<notin> set (flushing s th c)" for i th c
    using no [of Program i] no [of "Cached th c" i] no [of "Leaving th c" i] by simp_all
  have kt: "kept t = kept s" "flushing t = flushing s" "active t = active s" by (simp_all add: t_def kept_def fun_eq_iff)
  have new: "at_place t q (g, i) \<longleftrightarrow>
      (q = Available \<and> bit (avail_mask m) i) \<or> (q = Freed \<and> bit (freed_mask m) i) \<or> (q = Program \<and> (g, i) \<in> us)" for q i
    using no' by (cases q) (simp_all add: kt, simp_all add: t_def)
  have old: "at_place t q y = at_place s q y" if "fst y \<noteq> g" for q y
    using that assms(4) by (cases q) (auto simp: kt, auto simp: t_def)
  have oldl: "slot_live t y = slot_live s y" if "fst y \<noteq> g" for y using that by (simp add: t_def slot_live_def)
  have "placed t"
    unfolding placed_def
  proof
    fix y
    show "if slot_live t y then \<exists>!q. at_place t q y else \<forall>q. \<not> at_place t q y"
    proof (cases "fst y = g")
      case True
      then obtain i where y: "y = (g, i)" by (cases y) simp
      have l: "slot_live t (g, i) \<longleftrightarrow> i \<le> last_idx m" by (simp add: t_def slot_live_def)
      show ?thesis unfolding y l new using assms(5) [of i] assms(6) [of i] assms(7) [of i] by auto
    next
      case False
      have "if slot_live s y then \<exists>!q. at_place s q y else \<forall>q. \<not> at_place s q y" using p unfolding placed_def by (rule spec)
      then show ?thesis using old [OF False] oldl [OF False] by simp
    qed
  qed
  moreover have "tidy t"
  proof (rule tidyI, unfold kt)
    have cl: "class_of t h = Some c" if "class_of s h = Some c" for h c
      using that assms(2) by (cases "h = g") (simp_all add: t_def class_of_def)
    show "x \<in> set (kept s th c) \<Longrightarrow> c < TC_CLASSES \<and> class_of t (fst x) = Some c" for th c x using tidyD(4) [OF ti] cl by blast
    show "x \<in> set (flushing s th c) \<Longrightarrow> c < TC_CLASSES \<and> class_of t (fst x) = Some c" for th c x using tidyD(5) [OF ti] cl by blast
    show "active s c = Some h \<Longrightarrow> class_of t h = Some c" for c h using tidyD(6) [OF ti] cl by blast
    show "last_idx k < 32" if "metas t h = Some k" for h k
      using that assms(3) tidyD(7) [OF ti, of h k] by (auto simp: t_def split: if_splits)
  qed (use tidyD [OF ti] in blast)+
  ultimately show ?thesis unfolding cache_inv_def t_def by blast
qed

lemma field_inv:
  assumes "cache_inv s" "\<And>c. kept s th c = []" "tc_held f = None \<or> tc_held f = Some empty_tc"
  shows "cache_inv (s\<lparr>field := (field s)(th := f)\<rparr>)"
  by (rule cache_inv_cong [OF _ _ _ _ _ assms(1)]) (use assms(2, 3) in \<open>auto simp: fun_eq_iff empty_tc_def\<close>)

lemma step_cache_inv: "cache_step s t \<Longrightarrow> cache_inv s \<Longrightarrow> cache_inv t"
proof (induction rule: cache_step.induct)
  case (step_group s g cnt a sc)
  have "cache_inv (s\<lparr>metas := (metas s)(g \<mapsto> new_group sc cnt a), used := {} \<union> used s\<rparr>)"
    by (rule new_meta_inv) (use step_group in \<open>auto simp: new_group_def bit_slots_mask slots_mask_minus\<close>)
  then show ?case by simp
next
  case (step_map s g)
  have "cache_inv (s\<lparr>metas := (metas s)(g \<mapsto> \<lparr>avail_mask = 0, freed_mask = 0, last_idx = 0, sizeclass = 63\<rparr>), used := {(g, 0)} \<union> used s\<rparr>)"
    by (rule new_meta_inv) (use step_map in auto)
  then show ?case by simp
next
  case (step_head s c h)
  show ?case
    by (rule head_inv [OF step_head(2)])
      (use step_head(1) tidyD(6) [of s] step_head(2) in \<open>auto simp: heads_def cache_inv_def split: if_splits\<close>)
next
  case (step_alloc sc s x s1)
  then show ?case by (intro alloc_inv)
next
  case (step_pend s th)
  then show ?case by (intro field_inv) (auto simp: kept_def)
next
  case (step_settle s th f)
  then show ?case by (intro field_inv) (auto simp: kept_def)
qed (auto intro: take_inv alloc_inv fill_inv keep_inv program_release_inv flush_inv leave_inv activate_inv)

interpretation tc: invariant_system cache_init cache_step cache_inv
  by unfold_locales (auto intro: init_cache_inv step_cache_inv)

text \<open>C8: a slot is in one place. However the threads interleave, in every state they reach from the start each slot of each group there is is in exactly one
  place: available or freed in its group, the program's, in one list of one thread's cache, or being given back by one thread that ends. So no two
  threads are handed one slot, none is lost, and no group is released while a slot of it is in use or in a cache. A list of a cache has no more than the 16 slots it
  has room for, and they are of the list's class.\<close>

theorem cache_slots_safe:
  assumes "cache_init s0" and "cache_step\<^sup>*\<^sup>* s0 s"
  shows "(if slot_live s x then \<exists>!p. at_place s p x else \<forall>p. \<not> at_place s p x)
    \<and> distinct (kept s th c) \<and> length (kept s th c) \<le> TC_MAX \<and> (\<forall>y \<in> set (kept s th c). class_of s (fst y) = Some c)"
proof -
  have i: "placed s" "tidy s" using tc.reachable_inv [OF assms] by (simp_all add: cache_inv_def)
  show ?thesis using i(1) [unfolded placed_def, rule_format, of x] tidyD(1, 3, 4) [OF i(2)] by blast
qed

text \<open>A witness: a group is made, a slot of it allocated and freed into the cache of a thread.\<close>

definition heap0 :: heap where
  "heap0 = \<lparr>metas = (\<lambda>_. None), active = (\<lambda>_. None), field = (\<lambda>_. TC_NONE), flushing = (\<lambda>_. empty_tc), used = {}\<rparr>"

definition heap1 :: heap where
  "heap1 = heap0\<lparr>metas := (metas heap0)(7 \<mapsto> new_group 3 4 3), active := (active heap0)(3 \<mapsto> 7), field := (field heap0)(2 := TC_HELD empty_tc)\<rparr>"

definition heap2 :: heap where
  "heap2 = snd (malloc_tc_give 2 7 0 (snd (malloc_active 3 heap1)))"

lemma heap1_fields [simp]:
  "metas heap1 7 = Some (new_group 3 4 3)" "active heap1 3 = Some 7" "field heap1 2 = TC_HELD empty_tc" "used heap1 = {}"
  by (simp_all add: heap1_def heap0_def)

lemma heap1_reached: "cache_step\<^sup>*\<^sup>* heap0 heap1"
proof -
  let ?a = "heap0\<lparr>metas := (metas heap0)(7 \<mapsto> new_group 3 4 3)\<rparr>"
  let ?b = "?a\<lparr>active := (active ?a)(3 := Some 7)\<rparr>"
  let ?c = "?b\<lparr>field := (field ?b)(2 := TC_PENDING)\<rparr>"
  have "cache_step heap0 ?a" by (rule step_group) (simp_all add: heap0_def)
  moreover have "cache_step ?a ?b" by (rule step_head) (simp add: heads_def class_of_def new_group_def)
  moreover have "cache_step ?b ?c" by (rule step_pend) (simp add: heap0_def)
  moreover have "cache_step ?c (?c\<lparr>field := (field ?c)(2 := TC_HELD empty_tc)\<rparr>)" by (rule step_settle) simp_all
  moreover have "?c\<lparr>field := (field ?c)(2 := TC_HELD empty_tc)\<rparr> = heap1" by (simp add: heap1_def)
  ultimately show ?thesis by (intro converse_rtranclp_into_rtranclp [of cache_step heap0 ?a]
        converse_rtranclp_into_rtranclp [of cache_step ?a ?b] converse_rtranclp_into_rtranclp [of cache_step ?b ?c]) auto
qed

lemma heap2_value:
  "malloc_active 3 heap1 = (Some (7, 0), heap1\<lparr>metas := (metas heap1)(7 \<mapsto> (new_group 3 4 3)\<lparr>avail_mask := 14\<rparr>)\<rparr>)"
  "heap2 = heap1\<lparr>metas := (metas heap1)(7 \<mapsto> (new_group 3 4 3)\<lparr>avail_mask := 14\<rparr>),
     field := (field heap1)(2 := TC_HELD (empty_tc(3 := [(7, 0)])))\<rparr>"
proof -
  have "slots_mask 3 = 15" by (simp add: slots_mask_def)
  moreover have "(15 :: 32 word) AND - 15 = 1" using lowest_alone [of 15 0] by simp
  moreover have "a_ctz_32 1 = 0" by (rule ctz_of) simp_all
  ultimately show m: "malloc_active 3 heap1 = (Some (7, 0), heap1\<lparr>metas := (metas heap1)(7 \<mapsto> (new_group 3 4 3)\<lparr>avail_mask := 14\<rparr>)\<rparr>)"
    by (simp add: malloc_active_def new_group_def Let_def)
  show "heap2 = heap1\<lparr>metas := (metas heap1)(7 \<mapsto> (new_group 3 4 3)\<lparr>avail_mask := 14\<rparr>),
     field := (field heap1)(2 := TC_HELD (empty_tc(3 := [(7, 0)])))\<rparr>"
    by (simp add: heap2_def m malloc_tc_give_def Let_def new_group_def empty_tc_def)
qed

lemma heap2_reached: "cache_step\<^sup>*\<^sup>* heap0 heap2"
proof -
  let ?a = "hand (Some (7, 0)) (snd (malloc_active 3 heap1))"
  have "cache_step heap1 ?a" using heap2_value(1) by (intro step_alloc) simp
  moreover have "cache_step ?a heap2"
  proof (rule step_keep)
    show "(7, 0) \<in> used ?a" by simp
    have "?a\<lparr>used := used ?a - {(7, 0)}\<rparr> = snd (malloc_active 3 heap1)" by (simp add: heap2_value(1))
    moreover have "fst (malloc_tc_give 2 7 0 (snd (malloc_active 3 heap1)))"
      by (simp add: heap2_value(1) malloc_tc_give_def Let_def new_group_def empty_tc_def)
    ultimately show "malloc_tc_give 2 7 0 (?a\<lparr>used := used ?a - {(7, 0)}\<rparr>) = (True, heap2)"
      by (simp add: heap2_def prod_eq_iff)
  qed
  ultimately show ?thesis using heap1_reached by (meson rtranclp.rtrancl_into_rtrancl)
qed

theorem cache_slots_safe_witness: "(\<exists>!p. at_place heap2 p (7, 0)) \<and> kept heap2 2 3 = [(7, 0)] \<and> class_of heap2 7 = Some 3"
proof -
  have k: "kept heap2 2 3 = [(7, 0)]" by (simp add: heap2_value(2) kept_def)
  have l: "slot_live heap2 (7, 0)" by (simp add: heap2_value(2) slot_live_def)
  have "cache_init heap0" by (simp add: cache_init_def heap0_def)
  from cache_slots_safe [OF this heap2_reached, of "(7, 0)" 2 3] show ?thesis using k l by simp
qed

section \<open>A slot is large enough\<close>

lemma clz_of: "2 ^ k \<le> n \<Longrightarrow> n < 2 ^ Suc k \<Longrightarrow> k < 32 \<Longrightarrow> a_clz_32 n = 31 - k"
proof -
  assume n: "2 ^ k \<le> n" "n < 2 ^ Suc k" and k: "k < 32"
  have "[0..<32] = [0..<31 - k] @ (31 - k) # [Suc (31 - k)..<32]" by (rule upt_at) simp
  moreover have "n < 2 ^ (31 - i)" if "i < 31 - k" for i
  proof -
    have "Suc k \<le> 31 - i" using that by linarith
    then have "(2 :: nat) ^ Suc k \<le> 2 ^ (31 - i)" by (intro power_increasing) simp_all
    then show ?thesis using n(2) by linarith
  qed
  moreover have "31 - (31 - k) = k" using k by simp
  ultimately show ?thesis using n(1) by (simp add: a_clz_32_def takeWhile_append)
qed

lemma size_class_at:
  "size_classes ! 0 = 1" "size_classes ! Suc 0 = 2" "size_classes ! 2 = 3" "size_classes ! 3 = 4" "size_classes ! 4 = 5" "size_classes ! 5 = 6"
  "size_classes ! 6 = 7" "size_classes ! 7 = 8" "size_classes ! 8 = 9" "size_classes ! 9 = 10" "size_classes ! 10 = 12" "size_classes ! 11 = 15"
  "size_classes ! 12 = 18" "size_classes ! 13 = 20" "size_classes ! 14 = 25" "size_classes ! 15 = 31" "size_classes ! 16 = 36" "size_classes ! 17 = 42"
  "size_classes ! 18 = 50" "size_classes ! 19 = 63" "size_classes ! 20 = 72" "size_classes ! 21 = 84" "size_classes ! 22 = 102" "size_classes ! 23 = 127"
  "size_classes ! 24 = 146" "size_classes ! 25 = 170" "size_classes ! 26 = 204" "size_classes ! 27 = 255" "size_classes ! 28 = 292" "size_classes ! 29 = 340"
  "size_classes ! 30 = 409" "size_classes ! 31 = 511" "size_classes ! 32 = 584" "size_classes ! 33 = 682" "size_classes ! 34 = 818" "size_classes ! 35 = 1023"
  "size_classes ! 36 = 1169" "size_classes ! 37 = 1364" "size_classes ! 38 = 1637" "size_classes ! 39 = 2047" "size_classes ! 40 = 2340" "size_classes ! 41 = 2730"
  "size_classes ! 42 = 3276" "size_classes ! 43 = 4095" "size_classes ! 44 = 4680" "size_classes ! 45 = 5460" "size_classes ! 46 = 6552" "size_classes ! 47 = 8191"
  by (simp_all add: size_classes_def)

lemma class_of_units:
  assumes "11 \<le> v" "v \<le> 8191"
  defines "i \<equiv> (28 - a_clz_32 v) * 4 + 8"
  defines "i1 \<equiv> if v > size_classes ! (i + 1) then i + 2 else i"
  defines "r \<equiv> if v > size_classes ! i1 then i1 + 1 else i1"
  shows "r < 48 \<and> v \<le> size_classes ! r"
proof -
  consider "v < 16" | "16 \<le> v" "v < 32" | "32 \<le> v" "v < 64" | "64 \<le> v" "v < 128" | "128 \<le> v" "v < 256" | "256 \<le> v" "v < 512"
    | "512 \<le> v" "v < 1024" | "1024 \<le> v" "v < 2048" | "2048 \<le> v" "v < 4096" | "4096 \<le> v" "v < 8192"
    using assms(2) by linarith
  then show ?thesis
  proof cases
    case 1 then show ?thesis using assms(1) clz_of [of 3 v] by (simp add: i_def i1_def r_def size_class_at)
  next
    case 2 then show ?thesis using clz_of [of 4 v] by (simp add: i_def i1_def r_def size_class_at)
  next
    case 3 then show ?thesis using clz_of [of 5 v] by (simp add: i_def i1_def r_def size_class_at)
  next
    case 4 then show ?thesis using clz_of [of 6 v] by (simp add: i_def i1_def r_def size_class_at)
  next
    case 5 then show ?thesis using clz_of [of 7 v] by (simp add: i_def i1_def r_def size_class_at)
  next
    case 6 then show ?thesis using clz_of [of 8 v] by (simp add: i_def i1_def r_def size_class_at)
  next
    case 7 then show ?thesis using clz_of [of 9 v] by (simp add: i_def i1_def r_def size_class_at)
  next
    case 8 then show ?thesis using clz_of [of 10 v] by (simp add: i_def i1_def r_def size_class_at)
  next
    case 9 then show ?thesis using clz_of [of 11 v] by (simp add: i_def i1_def r_def size_class_at)
  next
    case 10 then show ?thesis using clz_of [of 12 v] by (simp add: i_def i1_def r_def size_class_at)
  qed
qed

lemma small_class: "u < 10 \<Longrightarrow> size_classes ! u = u + 1"
proof -
  assume "u < 10"
  then have "u = 0 \<or> u = 1 \<or> u = 2 \<or> u = 3 \<or> u = 4 \<or> u = 5 \<or> u = 6 \<or> u = 7 \<or> u = 8 \<or> u = 9" by arith
  then show ?thesis by (elim disjE) (simp_all add: size_class_at)
qed

lemma size_to_class_fits:
  assumes "n < 131052"
  shows "size_to_class n < 48 \<and> n + 4 \<le> 16 * size_classes ! size_to_class n"
proof -
  define u where "u = (n + 3) div 16"
  have n: "n + 4 \<le> 16 * (u + 1)" "u \<le> 8190" using assms by (simp_all add: u_def)
  show ?thesis
  proof (cases "u < 10")
    case True
    then show ?thesis using n small_class by (simp add: size_to_class_def u_def [symmetric])
  next
    case False
    then have "size_to_class n < 48 \<and> u + 1 \<le> size_classes ! size_to_class n"
      using class_of_units [of "u + 1"] n(2) unfolding size_to_class_def u_def [symmetric] Let_def by simp
    then show ?thesis using n(1) by (meson mult_le_mono2 order_trans)
  qed
qed

lemma coarse_larger: "sc < 24 \<Longrightarrow> even sc \<Longrightarrow> size_classes ! sc \<le> size_classes ! (sc OR 1)"
proof -
  assume sc: "sc < 24" "even sc"
  then obtain k where k: "sc = 2 * k" "k < 12" by (auto elim: evenE)
  have "(2 * k) OR 1 = Suc (2 * k)" by (simp add: or_Suc_0_eq)
  moreover have "k = 0 \<or> k = 1 \<or> k = 2 \<or> k = 3 \<or> k = 4 \<or> k = 5 \<or> k = 6 \<or> k = 7 \<or> k = 8 \<or> k = 9 \<or> k = 10 \<or> k = 11"
    using k(2) by arith
  then have "size_classes ! (2 * k) \<le> size_classes ! Suc (2 * k)" by (elim disjE) (simp_all add: size_class_at)
  ultimately show ?thesis using k by simp
qed

text \<open>C36: a slot from a cache is large enough. In every state the threads reach, a slot \<open>__malloc_tc_take\<close> answers for a request of \<open>n\<close> bytes (less than what
  \<open>malloc\<close> maps by itself) is a slot of a group there is, and has room for the bytes and for the four mallocng keeps at its end, also when it is of the coarse class above.\<close>

theorem take_large_enough:
  assumes "cache_init s0" and "cache_step\<^sup>*\<^sup>* s0 s" and "n < 131052" and "malloc_tc_take th mapped (size_to_class n) s = (Some (g, i), t)"
  shows "\<exists>m. metas s g = Some m \<and> i \<le> last_idx m \<and> n + 4 \<le> 16 * size_classes ! sizeclass m"
proof -
  let ?c = "size_to_class n"
  have inv: "placed s" "tidy s" using tc.reachable_inv [OF assms(1, 2)] by (simp_all add: cache_inv_def)
  obtain o1 s1 where o: "own_cache th mapped s = (o1, s1)" by fastforce
  note f = own_cache_frame [OF o]
  have c: "?c < TC_CLASSES" using assms(4) by (auto simp: malloc_tc_take_def split: if_splits)
  obtain tc where tc: "o1 = Some tc" using assms(4) c o by (cases o1) (auto simp: malloc_tc_take_def)
  then have "kept s1 th = tc" using f(6) by (simp add: kept_def fun_eq_iff eq_commute [of "Some tc"])
  then have k: "kept s th = tc" using f(1) by simp
  have "\<exists>d. (d = ?c \<or> even ?c \<and> d = ?c OR 1) \<and> tc d \<noteq> [] \<and> (g, i) = last (tc d)"
  proof (cases "tc ?c = []")
    case True
    then show ?thesis using assms(4) c o tc
      by (intro exI [of _ "?c OR 1"]) (auto simp: malloc_tc_take_def take_slot_def split: if_splits)
  next
    case False
    then show ?thesis using assms(4) c o tc by (intro exI [of _ ?c]) (auto simp: malloc_tc_take_def take_slot_def)
  qed
  then obtain d where d: "d = ?c \<or> even ?c \<and> d = ?c OR 1" "tc d \<noteq> []" "(g, i) = last (tc d)" by blast
  have "(g, i) \<in> set (kept s th d)" using d k by (metis last_in_set)
  moreover from this have "slot_live s (g, i)" using placed_live [OF inv(1), of "Cached th d" "(g, i)"] by simp
  ultimately obtain m where m: "metas s g = Some m" "i \<le> last_idx m" "sizeclass m = d"
    using tidyD(4) [OF inv(2), of "(g, i)" th d] by (auto simp: class_of_def slot_live_def split: option.splits)
  have "size_classes ! ?c \<le> size_classes ! d" using d(1) coarse_larger [OF c] by auto
  then have "n + 4 \<le> 16 * size_classes ! d" using size_to_class_fits [OF assms(3)] by linarith
  then show ?thesis using m by blast
qed

theorem take_large_enough_witness:
  "\<exists>m. metas heap2 7 = Some m \<and> (0 :: nat) \<le> last_idx m \<and> (50 :: nat) + 4 \<le> 16 * size_classes ! sizeclass m"
proof (rule take_large_enough)
  show "cache_init heap0" by (simp add: cache_init_def heap0_def)
  show "cache_step\<^sup>*\<^sup>* heap0 heap2" by (rule heap2_reached)
  show "malloc_tc_take 2 True (size_to_class 50) heap2 = (Some (7, 0), heap2\<lparr>field := (field heap2)(2 := TC_HELD empty_tc)\<rparr>)"
    by (simp add: size_to_class_def malloc_tc_take_def own_cache_def take_slot_def heap2_value(2) empty_tc_def fun_eq_iff)
qed simp

text \<open>What a thread freed last of a class is what it is given next, and its cache is then as it was.\<close>

lemma give_then_take:
  assumes "metas s g = Some m" "malloc_tc_give th g i s = (True, t)"
  shows "malloc_tc_take th mapped (sizeclass m) t = (Some (g, i), s)"
proof -
  obtain tc where tc: "tc_held (field s th) = Some tc" "sizeclass m < TC_CLASSES"
      "t = s\<lparr>field := (field s)(th := TC_HELD (tc(sizeclass m := tc (sizeclass m) @ [(g, i)])))\<rparr>"
    using assms by (auto simp: malloc_tc_give_def Let_def split: option.splits if_splits)
  have "field s th = TC_HELD tc" using tc(1) by (cases "field s th") auto
  then have "(field s)(th := TC_HELD tc) = field s" by auto
  then show ?thesis using tc by (simp add: malloc_tc_take_def own_cache_def take_slot_def)
qed

end
