(* ===== verification/Spec2Isabelle.thy ===== *)
theory Spec2Isabelle
  imports Okm_Mutex Okm_Names Okm_Mmap Okm_Strcmp Okm_Dirent Okm_Spawn Okm_Select Okm_Terminal Okm_Fork Okm_Msg Okm_Calls Okm_Start Okm_Cache
begin

text \<open>
  \<^bold>\<open>The port layer of openkal-musl.\<close> openkal-musl is musl, unmodified for the most part, with a layer
  under port/src that answers musl's system calls by the operations of openkal, an interface an
  environment implements beneath. musl is vendored and openkal is a package of its own; the layer between them is the
  program's own code and is what this development models. A definition has the name of the C
  function it translates, and the text before it says where it differs.

  \<^bold>\<open>The parts and their theories.\<close>
  \<^item> \<open>Okm_Prelude\<close>: error numbers, flags, C strings, the scan of a fixed table, and the two contracts shared by
    several components as locales: a step relation with its invariant (\<open>invariant_system\<close>) and a table
    of address ranges (\<open>range_table\<close>).
  \<^item> \<open>Okm_Kal\<close>: what the port calls of openkal, as a record of operations over an environment; every
    definition that reaches openkal has it as a parameter, and each theorem holds for every such record but
    for the hypotheses it names. An interface an environment may lack is an option.
  \<^item> \<open>Okm_State\<close>, \<open>Okm_Fd\<close> (okm.h, okm_fd.c): descriptors and open file descriptions. A description is closed with its last
    descriptor, by the context that released it, after the lock is given up. The invariant: counts of references are
    right, each name slot has one owner, nothing free is referred to.
  \<^item> \<open>Okm_Names\<close> (okm_fd.c): a path becomes a directory the environment supplied and a name
    beneath it; the name never ascends. The working directory, the null device, the start of the table.
  \<^item> \<open>Okm_Mutex\<close> (okm_fd.c): the lock of the table, as the steps of any number of contexts: exclusion, and no
    sleeper is forgotten.
  \<^item> \<open>Okm_Region\<close>, \<open>Okm_Map\<close> (okm_region.c, okm_map.c): anonymous memory and file mappings, each an
    instance of \<open>range_table\<close>.
  \<^item> \<open>Okm_Context\<close> (okm_context.c): the words of each execution context, refining a map from identities; what a copy or a
    thread that ends relies on is the locale \<open>context_words\<close>.
  \<^item> \<open>Okm_Mem\<close>, \<open>Okm_Copy\<close>, \<open>Okm_Scan\<close>, \<open>Okm_Cmp\<close>, \<open>Okm_Strcmp\<close> (okm_string.c): memory with unmapped addresses, and the
    string functions over 16-byte and 32-byte vectors and over words; every access of each is to mapped memory and its result is that
    of the one-line specification.
  \<^item> \<open>Okm_Stream\<close> (okm_poll.c, okm_syscall.c): reads and writes, vectored and at an offset; a positioned read made of seeks reads
    what one at an offset does.
  \<^item> \<open>Okm_Net\<close>, \<open>Okm_Sockets\<close> (okm_net.c): the socket calls, and what they keep: each open socket owns its slot and the environment's
    objects in it, over every sequence of calls. \<open>Okm_Msg\<close> (okm_syscall.c): \<open>sendmsg\<close> and \<open>recvmsg\<close>; what is sent is a beginning of the
    buffers, and the count says which.
  \<^item> \<open>Okm_Poll\<close> (okm_poll.c): readiness. \<open>Okm_Select\<close> (okm_syscall.c): \<open>select\<close>, \<open>pselect\<close> and \<open>ppoll\<close> above it, and the bounds they state.
  \<^item> \<open>Okm_Open\<close> (okm_syscall.c): opening, closing, duplicating, pipes, \<open>fcntl\<close>, locks. Over every sequence of these calls each handle the environment gave
    out is held by one description or was closed once.
  \<^item> \<open>Okm_Dirent\<close> (okm_syscall.c, musl's readdir.c and rewinddir.c): \<open>getdents64\<close> byte for byte, and musl's \<open>readdir\<close> above it, which refines the list of
    entries the environment has.
  \<^item> \<open>Okm_Attr\<close> (okm_syscall.c): attributes, links, permissions, names, times, and \<open>copy_file_range\<close>.
  \<^item> \<open>Okm_Terminal\<close> (okm_syscall.c, musl's termios): the settings of a terminal, written and read back, and raw mode.
  \<^item> \<open>Okm_Mmap\<close> (okm_syscall.c): \<open>mmap\<close>, \<open>munmap\<close>, \<open>msync\<close> and \<open>madvise\<close> over the two tables and the allocator.
  \<^item> \<open>Okm_Children\<close> (okm_syscall.c): the table of children, waiting, signals to programs and units. \<open>Okm_Spawn\<close> (okm_spawn.c, okm_syscall.c): \<open>posix_spawn\<close> with
    its file actions, \<open>posix_spawnp\<close> and \<open>execve\<close>; what the program is given, and that no handle is lost. \<open>Okm_Fork\<close> (okm_fork.c): the original and
    the copy.
  \<^item> \<open>Okm_Thread\<close> (okm_thread.c, musl's __timedwait.c): the records of threads as steps of any number of contexts; the suspension primitive
    and the timed wait.
  \<^item> \<open>Okm_Calls\<close> (okm_syscall.c): clocks, sleeping, \<open>statx\<close>, processors, dispositions of signals.
  \<^item> \<open>Okm_Start\<close> (okm_start.c): the arguments and the named values, \<open>getenv\<close>, the page, the bytes of the stack's guard. What was given is what is read; the page is the
    unit of \<open>Okm_Region\<close>.
  \<^item> \<open>Okm_Cache\<close> (mallocng/okm_malloc_tc.c, with what it meets of musl's mallocng): the cache of small slots of each thread, as the steps of any number of threads. A slot
    is at every moment in one place, and one that is answered is large enough. What mallocng decides (which group a class takes from, when a group is given up) is any choice;
    its atomic exchange of a mask is one step.

  \<^bold>\<open>How they meet.\<close> The state of the port is one record (\<open>Okm_State\<close>): descriptors refer to descriptions, a
    description of a socket to a slot of the socket table, a directory to a slot of names; the
    environment beneath is a field of it. Components with statics of their own put a record around it: the children (\<open>procs\<close>), the memory
    calls (\<open>mem_tables\<close>). The read-ahead a readiness enquiry leaves in a
    description (or a connection or message in a socket) is what the read, accept or receive
    that follows delivers: \<open>poll_then_read\<close>, \<open>enquiry_then_accept\<close> and \<open>enquiry_then_recv\<close> are about that hand-over, and \<open>select\<close> rests on the same
    rounds. Closing a descriptor releases the slot of a socket, which the invariant of the sockets relies on. A start of a program reads the
    table under its lock, gives the program the streams the descriptors have and records a child; \<open>execve\<close> is a start, the close of every descriptor and
    a wait; \<open>fork\<close> reserves a child before the copy exists, so that the copy can be told its number, and the copy takes over the words of the context that called it
    (\<open>Okm_Context\<close>). What \<open>tcsetattr\<close> leaves to this layer is what \<open>do_read\<close> performs.

  \<^bold>\<open>Bounds and loops.\<close> The sizes of the tables are the source's. Every loop over a table or a string is
    total; the loop of \<open>poll\<close>, which need not end without a timeout, is partial, and is proved to end with one; \<open>select\<close> inherits both. The loop of
    \<open>reap\<close> is total because each round shortens the list. No definition has fuel.
    Integers are words where the source's arithmetic wraps and the wrap-around matters (addresses, lengths of mappings, durations, timeouts, flags),
    numbers otherwise.

  \<^bold>\<open>Concurrency.\<close> The lock, the claim of a context's entry, the life of a thread's record and the cache of slots are modelled as interleaved steps. The
    operations on the tables are those made while the lock is held, each one step.

  \<^bold>\<open>Errors the theorems show.\<close> Some theorems state what the code does where that is not what it means to do: a deadline that is this very nanosecond waits
    without end (\<open>timedwait_now_unbounded\<close>), a descriptor that is not open is reported in every set of a \<open>select\<close> (\<open>select_correct\<close>), a file action \<open>dup2\<close> reads
    the caller's descriptor (\<open>spawn_dup2_parent\<close>), and others beside the definitions they are about.

  \<^bold>\<open>Not modelled.\<close> musl itself (vendored), but for the functions named above. Of the start of the program (okm_start.c, okm_phdr.c): the order of the initialisers, the auxiliary vector and the
    program headers, which are addresses the linker provides; \<open>setjmp\<close> and \<open>longjmp\<close>, which are the branch they take; the choice of
    a string routine by the processor's own answer; the loader of images (image) and the primitives of mimalloc; of mallocng, which is musl's, what the
    cache of slots does not touch: its choice of a group and the layout of a slot. Of the dispatcher: the switch itself, which is one call for each number; the trace of calls it does not have; and the calls that
    answer a constant or copy one answer (\<open>uname\<close>, identities, scheduling, random bytes, \<open>statfs\<close>).
\<close>

end
